(* ===== verification/Pillar_Prelude.thy ===== *)
theory Pillar_Prelude
  imports Main "HOL-Library.Word" "HOL-Library.List_Lexorder" "HOL-Library.Char_ord"
    "HOL-Library.Product_Lexorder"
begin

text \<open>
  Shared vocabulary of the development: the machine types of the Rust sources, the
  fixed-width byte encodings (\<open>to_le_bytes\<close>, \<open>to_be_bytes\<close> and their
  inverses), the byte-lexicographic order of slices and strings, and the generic facts about
  lists, sums and finite sets that the component theories use.

  A Rust \<open>String\<close> is a HOL \<^typ>\<open>string\<close> read as its UTF-8 bytes, so that
  the order of HOL-Library's \<open>Char_ord\<close> and \<open>List_Lexorder\<close> is the byte-lexicographic
  \<open>Ord\<close> of Rust's \<open>str\<close>. \<open>Vec<u8>\<close> is a list of 8-bit words. Newtypes
  (\<open>NodeId\<close>, \<open>Epoch\<close>, \<open>Author\<close>, \<open>OpId\<close>) are type synonyms of what
  they wrap. \<open>usize\<close> counts are \<^typ>\<open>nat\<close>; \<open>u64\<close> values keep their width.
\<close>

section \<open>Machine types\<close>

type_synonym u8 = "8 word"
type_synonym u16 = "16 word"
type_synonym u32 = "32 word"
type_synonym u64 = "64 word"
type_synonym u128 = "128 word"
type_synonym bytes = "8 word list"

named_theorems wf_intros \<open>introduction rules for well-formedness invariants\<close>
named_theorems step_defs \<open>definitions of the state-changing operations\<close>

section \<open>Lexicographic order\<close>

text \<open>Two lists whose first parts have the same length compare part by part.\<close>

lemma lex_append_same_length:
  fixes xs ys us vs :: "'a::linorder list"
  assumes "length xs = length ys"
  shows "xs @ us < ys @ vs \<longleftrightarrow> xs < ys \<or> (xs = ys \<and> us < vs)"
  using assms by (induction xs ys rule: list_induct2) auto

lemma lex_append_prefix [simp]:
  fixes xs us vs :: "'a::linorder list"
  shows "xs @ us < xs @ vs \<longleftrightarrow> us < vs"
  by (simp add: lex_append_same_length)

lemma upt_split_at: "i < k \<Longrightarrow> [0..<k] = [0..<i] @ i # [Suc i..<k]"
  using upt_add_eq_append [of 0 i "k - i"] by (simp add: upt_conv_Cons)

lemma map_filter_iff: "x \<in> set (List.map_filter f xs) \<longleftrightarrow> (\<exists>y\<in>set xs. f y = Some x)"
  by (induction xs) (auto simp: List.map_filter_simps split: option.splits)

section \<open>Fixed-width byte encodings\<close>

primrec le_bytes :: "nat \<Rightarrow> nat \<Rightarrow> bytes" where
  "le_bytes 0 n = []"
| "le_bytes (Suc k) n = of_nat n # le_bytes k (n div 256)"

primrec le_val :: "bytes \<Rightarrow> nat" where
  "le_val [] = 0"
| "le_val (b # bs) = unat b + 256 * le_val bs"

definition u64_to_le_bytes :: "u64 \<Rightarrow> bytes" where
  "u64_to_le_bytes w = le_bytes 8 (unat w)"

definition u64_from_le_bytes :: "bytes \<Rightarrow> u64" where
  "u64_from_le_bytes bs = of_nat (le_val bs)"

definition u64_to_be_bytes :: "u64 \<Rightarrow> bytes" where
  "u64_to_be_bytes w = rev (le_bytes 8 (unat w))"

definition u32_to_be_bytes :: "u32 \<Rightarrow> bytes" where
  "u32_to_be_bytes w = rev (le_bytes 4 (unat w))"

definition u16_to_be_bytes :: "u16 \<Rightarrow> bytes" where
  "u16_to_be_bytes w = rev (le_bytes 2 (unat w))"

definition u16_from_be_bytes :: "bytes \<Rightarrow> u16" where
  "u16_from_be_bytes bs = of_nat (le_val (rev bs))"

lemma length_le_bytes [simp]: "length (le_bytes k n) = k"
  by (induction k arbitrary: n) auto

lemma unat_of_nat_u8: "unat (of_nat n :: u8) = n mod 256"
  by (simp add: unat_of_nat)

lemma le_val_le_bytes: "le_val (le_bytes k n) = n mod 256 ^ k"
proof (induction k arbitrary: n)
  case 0
  then show ?case by simp
next
  case (Suc k)
  have "n mod (256 * 256 ^ k) = n mod 256 + 256 * (n div 256 mod 256 ^ k)"
    by (subst mod_mult2_eq) simp
  then show ?case using Suc by (simp add: unat_of_nat_u8)
qed

lemma le_val_bound: "le_val bs < 256 ^ length bs"
proof (induction bs)
  case Nil
  then show ?case by simp
next
  case (Cons b bs)
  have "unat b < 256" using unsigned_less [of b] by simp
  with Cons show ?case by simp
qed

lemma le_bytes_le_val: "le_bytes (length bs) (le_val bs) = bs"
proof (induction bs)
  case (Cons b bs)
  have b: "unat b < 256" using unsigned_less [of b] by simp
  have "unat (of_nat (unat b + 256 * le_val bs) :: u8) = unat b"
    using b by (simp only: unat_of_nat_u8) simp
  then have "(of_nat (unat b + 256 * le_val bs) :: u8) = b" by (simp only: word_unat_eq_iff)
  moreover have "(unat b + 256 * le_val bs) div 256 = le_val bs" using b by simp
  ultimately show ?case using Cons by simp
qed simp

lemma le_bytes_inject:
  assumes "m < 256 ^ k" "n < 256 ^ k"
  shows "le_bytes k m = le_bytes k n \<longleftrightarrow> m = n"
  using assms by (metis le_val_le_bytes mod_less)

lemma u64_lt [simp]: "unat (w :: u64) < 18446744073709551616"
  using unsigned_less [of w] by simp

lemma u64_pred_less: "h \<noteq> 0 \<Longrightarrow> h - 1 < (h :: u64)"
  by (simp add: word_less_nat_alt unat_minus_one unat_gt_0)

lemma unat_u64_succ: "unat (h :: u64) + 1 < 2 ^ 64 \<Longrightarrow> unat (h + 1) = Suc (unat h)"
  by (simp add: unat_word_ariths)

lemma u64_less_succ: "unat (h :: u64) + 1 < 2 ^ 64 \<Longrightarrow> n < h + 1 \<longleftrightarrow> n < h \<or> n = h"
  by (auto simp: word_less_nat_alt unat_u64_succ less_Suc_eq word_unat_eq_iff)

lemma u64_succ_neq_0: "unat (h :: u64) + 1 < 2 ^ 64 \<Longrightarrow> h + 1 \<noteq> 0"
  by (metis Zero_not_Suc unat_0 unat_u64_succ)

lemma length_u64_to_le_bytes [simp]: "length (u64_to_le_bytes w) = 8"
  by (simp add: u64_to_le_bytes_def)

lemma length_u64_to_be_bytes [simp]: "length (u64_to_be_bytes w) = 8"
  by (simp add: u64_to_be_bytes_def)

lemma length_u32_to_be_bytes [simp]: "length (u32_to_be_bytes w) = 4"
  by (simp add: u32_to_be_bytes_def)

lemma length_u16_to_be_bytes [simp]: "length (u16_to_be_bytes w) = 2"
  by (simp add: u16_to_be_bytes_def)

lemma u64_from_to_le_bytes [simp]: "u64_from_le_bytes (u64_to_le_bytes w) = w"
  by (simp add: u64_from_le_bytes_def u64_to_le_bytes_def le_val_le_bytes)

lemma u64_to_from_le_bytes: "length bs = 8 \<Longrightarrow> u64_to_le_bytes (u64_from_le_bytes bs) = bs"
proof -
  assume len: "length bs = 8"
  then have "le_val bs < 18446744073709551616" using le_val_bound [of bs] by simp
  then have "unat (of_nat (le_val bs) :: u64) = le_val bs" by (simp add: unat_of_nat)
  then show ?thesis
    using le_bytes_le_val [of bs] len by (simp add: u64_to_le_bytes_def u64_from_le_bytes_def)
qed

lemma u16_from_to_be_bytes [simp]: "u16_from_be_bytes (u16_to_be_bytes w) = w"
proof -
  have "unat w < 65536" using unsigned_less [of w] by simp
  then show ?thesis by (simp add: u16_from_be_bytes_def u16_to_be_bytes_def le_val_le_bytes)
qed

lemma u64_to_le_bytes_inject [simp]: "u64_to_le_bytes v = u64_to_le_bytes w \<longleftrightarrow> v = w"
  by (metis u64_from_to_le_bytes)

lemma u64_to_be_bytes_inject [simp]: "u64_to_be_bytes v = u64_to_be_bytes w \<longleftrightarrow> v = w"
  by (metis rev_is_rev_conv u64_to_be_bytes_def u64_to_le_bytes_def u64_to_le_bytes_inject)

lemma u32_to_be_bytes_inject [simp]: "u32_to_be_bytes v = u32_to_be_bytes w \<longleftrightarrow> v = w"
proof -
  have "unat v < 256 ^ 4" "unat w < 256 ^ 4"
    using unsigned_less [of v] unsigned_less [of w] by simp_all
  then show ?thesis by (simp add: u32_to_be_bytes_def le_bytes_inject word_unat_eq_iff)
qed

text \<open>Big-endian encodings of one width compare as the numbers they encode.\<close>

lemma be_bytes_less:
  assumes "m < 256 ^ k" "n < 256 ^ k"
  shows "rev (le_bytes k m) < rev (le_bytes k n) \<longleftrightarrow> m < n"
  using assms
proof (induction k arbitrary: m n)
  case 0
  then show ?case by simp
next
  case (Suc k)
  let ?m = "m div 256" and ?n = "n div 256"
  have bounds: "?m < 256 ^ k" "?n < 256 ^ k"
    using Suc.prems by (simp_all add: less_mult_imp_div_less mult.commute)
  have "rev (le_bytes (Suc k) m) < rev (le_bytes (Suc k) n) \<longleftrightarrow>
      rev (le_bytes k ?m) < rev (le_bytes k ?n)
      \<or> (le_bytes k ?m = le_bytes k ?n \<and> (of_nat m :: u8) < of_nat n)"
    by (simp add: lex_append_same_length)
  also have "\<dots> \<longleftrightarrow> ?m < ?n \<or> (?m = ?n \<and> m mod 256 < n mod 256)"
    using Suc.IH [OF bounds] le_bytes_inject [OF bounds]
    by (simp add: word_less_nat_alt unat_of_nat_u8)
  also have "\<dots> \<longleftrightarrow> m < n"
    using div_mult_mod_eq [of m 256] div_mult_mod_eq [of n 256]
      mod_less_divisor [of 256 m] mod_less_divisor [of 256 n] by linarith
  finally show ?case .
qed

lemma u64_to_be_bytes_less [simp]: "u64_to_be_bytes v < u64_to_be_bytes w \<longleftrightarrow> v < w"
  by (simp add: u64_to_be_bytes_def be_bytes_less word_less_nat_alt)

text \<open>The encodings evaluated over binary integers.\<close>

primrec le_bytes_int :: "nat \<Rightarrow> int \<Rightarrow> bytes" where
  "le_bytes_int 0 n = []"
| "le_bytes_int (Suc k) n = word_of_int n # le_bytes_int k (n div 256)"

lemma le_bytes_int_of_nat: "le_bytes_int k (int n) = le_bytes k n"
proof (induction k arbitrary: n)
  case (Suc k)
  have "int n div 256 = int (n div 256)" by (simp add: zdiv_int)
  with Suc [of "n div 256"] show ?case by simp
qed simp

lemma u64_to_le_bytes_code [code]: "u64_to_le_bytes w = le_bytes_int 8 (uint w)"
  by (simp add: u64_to_le_bytes_def flip: le_bytes_int_of_nat)

lemma u64_to_be_bytes_code [code]: "u64_to_be_bytes w = rev (le_bytes_int 8 (uint w))"
  by (simp add: u64_to_be_bytes_def flip: le_bytes_int_of_nat)

section \<open>Strings as bytes\<close>

definition as_bytes :: "string \<Rightarrow> bytes" where
  "as_bytes s = map of_char s"

definition bytes_to_string :: "bytes \<Rightarrow> string" where
  "bytes_to_string bs = map (\<lambda>b. char_of (unat b)) bs"

lemma length_as_bytes [simp]: "length (as_bytes s) = length s"
  by (simp add: as_bytes_def)

lemma of_char_u8: "(of_char c :: u8) = of_nat (of_char c)"
  by (simp add: of_nat_of_char)

lemma unat_of_char_u8: "unat (of_char c :: u8) = of_char c"
proof -
  have "(of_char c :: nat) < 256" by (rule nat_of_char_less_256)
  then show ?thesis by (simp add: of_char_u8 unat_of_nat)
qed

lemma bytes_to_string_as_bytes [simp]: "bytes_to_string (as_bytes s) = s"
  by (simp add: bytes_to_string_def as_bytes_def unat_of_char_u8 comp_def)

lemma as_bytes_bytes_to_string [simp]: "as_bytes (bytes_to_string bs) = bs"
proof -
  have "(of_char (char_of (unat b) :: char) :: u8) = b" for b :: u8
  proof -
    have "unat b < 256" using unsigned_less [of b] by simp
    then show ?thesis by (simp add: of_char_u8)
  qed
  then show ?thesis by (simp add: as_bytes_def bytes_to_string_def comp_def)
qed

lemma length_bytes_to_string [simp]: "length (bytes_to_string bs) = length bs"
  by (simp add: bytes_to_string_def)

lemma as_bytes_inject [simp]: "as_bytes s = as_bytes t \<longleftrightarrow> s = t"
  by (metis bytes_to_string_as_bytes)

lemma as_bytes_less [simp]: "as_bytes s < as_bytes t \<longleftrightarrow> s < t"
proof (induction s arbitrary: t)
  case Nil
  then show ?case by (cases t) (auto simp: as_bytes_def)
next
  case (Cons a s)
  show ?case
  proof (cases t)
    case Nil
    then show ?thesis by (simp add: as_bytes_def)
  next
    case (Cons b u)
    have lt: "(of_char a :: u8) < of_char b \<longleftrightarrow> a < b"
      by (simp add: word_less_nat_alt unat_of_char_u8 less_char_def)
    have eq: "(of_char a :: u8) = of_char b \<longleftrightarrow> a = b"
      by (metis of_char_eq_iff unat_of_char_u8)
    show ?thesis using Cons Cons.IH [of u] by (simp add: as_bytes_def lt eq)
  qed
qed

section \<open>Decimal numerals\<close>

text \<open>\<open>to_string\<close> of an unsigned integer, and \<open>join\<close> of strings.\<close>

definition dec_digit :: "nat \<Rightarrow> char" where
  "dec_digit n = char_of (48 + n)"

fun dec_string :: "nat \<Rightarrow> string" where
  "dec_string n =
     (if n < 10 then [dec_digit n] else dec_string (n div 10) @ [dec_digit (n mod 10)])"

declare dec_string.simps [simp del]

definition dec_value :: "string \<Rightarrow> nat" where
  "dec_value s = foldl (\<lambda>n ch. 10 * n + (of_char ch - 48)) 0 s"

lemma of_char_dec_digit: "n < 10 \<Longrightarrow> of_char (dec_digit n) = (48 + n :: nat)"
  by (simp add: dec_digit_def)

lemma dec_value_dec_string [simp]: "dec_value (dec_string n) = n"
proof (induction n rule: dec_string.induct)
  case (1 n)
  show ?case
  proof (cases "n < 10")
    case True
    then show ?thesis
      by (subst dec_string.simps) (simp add: dec_value_def of_char_dec_digit)
  next
    case False
    with 1 show ?thesis
      by (subst dec_string.simps) (simp add: dec_value_def of_char_dec_digit)
  qed
qed

lemma dec_string_inject [simp]: "dec_string m = dec_string n \<longleftrightarrow> m = n"
  by (metis dec_value_dec_string)

lemma dec_string_neq_Nil [simp]: "dec_string n \<noteq> []"
  by (subst dec_string.simps) simp

fun str_join :: "string \<Rightarrow> string list \<Rightarrow> string" where
  "str_join sep [] = []"
| "str_join sep [x] = x"
| "str_join sep (x # xs) = x @ sep @ str_join sep xs"

text \<open>Length-prefixed framing of a list of strings, and its unambiguity.\<close>

definition frame_strings :: "string list \<Rightarrow> bytes" where
  "frame_strings ps =
     concat (map (\<lambda>p. u64_to_le_bytes (of_nat (length (as_bytes p))) @ as_bytes p) ps)"

primrec int_length :: "'a list \<Rightarrow> int" where
  "int_length [] = 0"
| "int_length (x # xs) = int_length xs + 1"

lemma int_length_eq: "int_length xs = int (length xs)"
  by (induction xs) simp_all

lemma frame_strings_code [code]:
  "frame_strings ps = concat (map (\<lambda>p. le_bytes_int 8 (int_length p) @ as_bytes p) ps)"
proof -
  have "u64_to_le_bytes (of_nat n) = le_bytes_int 8 (int n)" for n
  proof -
    have "le_bytes 8 (n mod 256 ^ 8) = le_bytes 8 n"
      by (metis le_bytes_le_val le_val_le_bytes length_le_bytes)
    then show ?thesis by (simp add: u64_to_le_bytes_def unat_of_nat le_bytes_int_of_nat)
  qed
  then show ?thesis by (simp add: frame_strings_def int_length_eq)
qed

lemma frame_strings_inject:
  assumes "length ps = length qs" "frame_strings ps = frame_strings qs"
    and "\<And>p. p \<in> set (ps @ qs) \<Longrightarrow> length p < 2 ^ 64"
  shows "ps = qs"
  using assms
proof (induction ps qs rule: list_induct2)
  case Nil
  then show ?case by simp
next
  case (Cons p ps q qs)
  have len: "u64_to_le_bytes (of_nat (length p)) = u64_to_le_bytes (of_nat (length q))"
    and rest: "as_bytes p @ frame_strings ps = as_bytes q @ frame_strings qs"
    using Cons.prems(1) by (simp_all add: frame_strings_def)
  have fits: "length p < 2 ^ 64" "length q < 2 ^ 64" using Cons.prems(2) by auto
  from len have "(of_nat (length p) :: u64) = of_nat (length q)" by simp
  then have "unat (of_nat (length p) :: u64) = unat (of_nat (length q) :: u64)" by simp
  with fits have same: "length p = length q" by (simp add: unat_of_nat)
  with rest have "as_bytes p = as_bytes q" "frame_strings ps = frame_strings qs" by simp_all
  with Cons.IH Cons.prems(2) show ?case by simp
qed

text \<open>\<open>str::split_once\<close> at a character, and \<open>Iterator::position\<close> of an element.\<close>

fun split_once :: "char \<Rightarrow> string \<Rightarrow> (string \<times> string) option" where
  "split_once d [] = None"
| "split_once d (x # xs) =
     (if x = d then Some ([], xs)
      else map_option (\<lambda>(l, r). (x # l, r)) (split_once d xs))"

lemma split_once_Some:
  "split_once d s = Some (l, r) \<longleftrightarrow> s = l @ d # r \<and> d \<notin> set l"
proof (induction s arbitrary: l)
  case (Cons x s)
  then show ?case by (cases l) auto
qed simp

fun position :: "'a \<Rightarrow> 'a list \<Rightarrow> nat option" where
  "position x [] = None"
| "position x (y # ys) = (if y = x then Some 0 else map_option Suc (position x ys))"

lemma position_Some:
  "position x xs = Some i \<longleftrightarrow> i < length xs \<and> xs ! i = x \<and> x \<notin> set (take i xs)"
proof (induction xs arbitrary: i)
  case (Cons y ys)
  then show ?case by (cases i) auto
qed simp

lemma position_append:
  "position x (us @ vs) =
     (case position x us of Some k \<Rightarrow> Some k | None \<Rightarrow> map_option (\<lambda>k. length us + k) (position x vs))"
proof (induction us)
  case Nil
  show ?case by (simp add: map_option_case split: option.splits)
next
  case (Cons u us)
  then show ?case by (cases "position x vs") (simp_all split: option.splits)
qed

lemma position_less: "position x xs = Some i \<Longrightarrow> i < length xs"
  by (simp add: position_Some)

lemma position_None: "position x xs = None \<longleftrightarrow> x \<notin> set xs"
  by (induction xs) auto

lemma position_distinct:
  assumes "distinct xs"
  shows "position x xs = Some i \<longleftrightarrow> i < length xs \<and> xs ! i = x"
proof -
  have "xs ! i \<notin> set (take i xs)" if "i < length xs"
    using assms that by (auto simp: in_set_conv_nth nth_eq_iff_index_eq)
  then show ?thesis by (auto simp: position_Some)
qed

section \<open>Generic facts\<close>

lemma card_majorities_meet:
  assumes "finite V" "A \<subseteq> V" "B \<subseteq> V"
    and "2 * card A > n" "2 * card B > n" "card V \<le> n"
  shows "A \<inter> B \<noteq> {}"
proof
  assume "A \<inter> B = {}"
  then have "card A + card B = card (A \<union> B)"
    using assms by (simp add: card_Un_disjoint finite_subset)
  also have "\<dots> \<le> card V" using assms by (intro card_mono) auto
  finally show False using assms by linarith
qed

lemma sorted_wrt_less_set_eq:
  fixes xs ys :: "'a::linorder list"
  assumes "sorted_wrt (<) xs" "sorted_wrt (<) ys" "set xs = set ys"
  shows "xs = ys"
  using assms by (simp add: strict_sorted_equal)

end
