(* ===== verification/Pillar_Core.thy ===== *)
theory Pillar_Core
  imports Pillar_Prelude
begin

text \<open>
  \<^verbatim>\<open>crates/pillar-core/src/lib.rs\<close> and the version stamps of
  \<^verbatim>\<open>crates/pillar-crypto/src/version.rs\<close>: node identities, fencing epochs, the
  consistency policy of a view, the observability context, and the per-surface schema
  version with its supported-range check.
\<close>

section \<open>Identities and epochs\<close>

type_synonym node_id = string
type_synonym epoch = u64

definition epoch_zero :: epoch where
  "epoch_zero = 0"

text \<open>\<open>Epoch(self.0 + 1)\<close>: \<open>None\<close> is the overflow panic of a checked build.\<close>

definition epoch_next :: "epoch \<Rightarrow> epoch option" where
  "epoch_next e = (if unat e + 1 < 2 ^ 64 then Some (e + 1) else None)"

section \<open>Consistency policy\<close>

datatype side_effect = Exclusive | Convergent

datatype view_policy = Strict | Relaxed

fun view_policy_admits :: "view_policy \<Rightarrow> side_effect \<Rightarrow> bool" where
  "view_policy_admits Strict _ = True"
| "view_policy_admits Relaxed Convergent = True"
| "view_policy_admits Relaxed Exclusive = False"

section \<open>Observability context\<close>

datatype obs_level = Trace | Debug | Info | Warn | Error

record obs_cx =
  correlation :: string
  span :: "string option"

definition obs_cx_new :: "string \<Rightarrow> obs_cx" where
  "obs_cx_new c = \<lparr>correlation = c, span = None\<rparr>"

definition obs_cx_in_span :: "obs_cx \<Rightarrow> string \<Rightarrow> obs_cx" where
  "obs_cx_in_span cx span_id = \<lparr>correlation = correlation cx, span = Some span_id\<rparr>"

text \<open>The derived \<open>Ord\<close> of \<open>ObsLevel\<close> is the declaration order.\<close>

primrec obs_level_rank :: "obs_level \<Rightarrow> nat" where
  "obs_level_rank Trace = 0"
| "obs_level_rank Debug = 1"
| "obs_level_rank Info = 2"
| "obs_level_rank Warn = 3"
| "obs_level_rank Error = 4"

instantiation obs_level :: linorder
begin

definition less_eq_obs_level :: "obs_level \<Rightarrow> obs_level \<Rightarrow> bool" where
  "less_eq_obs_level a b \<longleftrightarrow> obs_level_rank a \<le> obs_level_rank b"

definition less_obs_level :: "obs_level \<Rightarrow> obs_level \<Rightarrow> bool" where
  "less_obs_level a b \<longleftrightarrow> obs_level_rank a < obs_level_rank b"

instance
proof
  fix x y :: obs_level
  show "x \<le> y \<Longrightarrow> y \<le> x \<Longrightarrow> x = y"
    by (cases x; cases y) (simp_all add: less_eq_obs_level_def)
qed (auto simp: less_eq_obs_level_def less_obs_level_def)

end

section \<open>Surface versions\<close>

type_synonym surface_version = u16

datatype version_error =
    Malformed
  | Unsupported surface_version surface_version surface_version

definition surface_version_to_be_bytes :: "surface_version \<Rightarrow> bytes" where
  "surface_version_to_be_bytes v = u16_to_be_bytes v"

definition surface_version_from_be_bytes :: "bytes \<Rightarrow> version_error + surface_version" where
  "surface_version_from_be_bytes bs =
     (if length bs < 2 then Inl Malformed
      else Inr (u16_from_be_bytes [bs ! 0, bs ! 1]))"

definition check_supported ::
  "surface_version \<Rightarrow> surface_version \<Rightarrow> surface_version \<Rightarrow> version_error + unit" where
  "check_supported self mn mx =
     (if self < mn \<or> self > mx then Inl (Unsupported self mn mx) else Inr ())"

section \<open>Facts\<close>

lemma epoch_next_greater: "epoch_next e = Some f \<Longrightarrow> e < f"
  by (auto simp: epoch_next_def word_less_nat_alt unat_word_ariths split: if_splits)

lemma check_supported_Inr [simp]:
  "check_supported v mn mx = Inr () \<longleftrightarrow> mn \<le> v \<and> v \<le> mx"
  by (auto simp: check_supported_def)

lemma check_supported_not_malformed: "check_supported v mn mx \<noteq> Inl Malformed"
  by (simp add: check_supported_def)

lemma surface_version_roundtrip:
  "surface_version_from_be_bytes (surface_version_to_be_bytes v @ rest) = Inr v"
proof -
  let ?b = "u16_to_be_bytes v"
  have "[?b ! 0, ?b ! 1] = ?b"
    by (rule nth_equalityI) (auto simp: less_Suc_eq nth_Cons')
  then show ?thesis
    by (simp add: surface_version_from_be_bytes_def surface_version_to_be_bytes_def nth_append)
qed

end
