(* ===== verification/Rust_Collections.thy ===== *)
theory Rust_Collections
  imports Pillar_Prelude "HOL-Library.Multiset"
begin

text \<open>
  Rust's ordered collections as the sources use them. A \<open>BTreeMap<K, V>\<close> is an association
  list strictly sorted by key, wrapped in a type of its own, so that the derived
  \<open>PartialEq\<close> of a map is HOL equality and the iteration order (\<open>iter\<close>,
  \<open>keys\<close>, \<open>values\<close>) is the list order. A \<open>BTreeSet<K>\<close> is a map to
  \<^typ>\<open>unit\<close>, as in the standard library. A \<open>HashMap\<close> whose iteration
  order the code never observes is modelled by the same type.

  The locale \<open>ordered_map\<close> is the interface the components rely on; it is interpreted
  on the sorted association lists at the end, and the facts used outside are those of the
  interpretation.
\<close>

section \<open>Sorted association lists\<close>

primrec al_insert :: "'k::linorder \<Rightarrow> 'v \<Rightarrow> ('k \<times> 'v) list \<Rightarrow> ('k \<times> 'v) list" where
  "al_insert k v [] = [(k, v)]"
| "al_insert k v (x # xs) =
     (if k < fst x then (k, v) # x # xs
      else if k = fst x then (k, v) # xs
      else x # al_insert k v xs)"

definition al_remove :: "'k \<Rightarrow> ('k \<times> 'v) list \<Rightarrow> ('k \<times> 'v) list" where
  "al_remove k xs = filter (\<lambda>x. fst x \<noteq> k) xs"

lemma keys_al_insert: "fst ` set (al_insert k v xs) = insert k (fst ` set xs)"
  by (induction xs) auto

lemma sorted_al_insert:
  "sorted_wrt (<) (map fst xs) \<Longrightarrow> sorted_wrt (<) (map fst (al_insert k v xs))"
proof (induction xs)
  case Nil
  then show ?case by simp
next
  case (Cons x xs)
  have "\<forall>y \<in> fst ` set (al_insert k v xs). fst x < y" if "fst x < k"
    using Cons.prems that by (simp add: keys_al_insert)
  with Cons show ?case by (auto dest: less_trans)
qed

lemma sorted_al_remove:
  "sorted_wrt (<) (map fst xs) \<Longrightarrow> sorted_wrt (<) (map fst (al_remove k xs))"
  by (induction xs) (auto simp: al_remove_def)

lemma map_of_al_insert: "map_of (al_insert k v xs) = (map_of xs)(k \<mapsto> v)"
  by (induction xs) auto

lemma map_of_al_remove: "map_of (al_remove k xs) = (map_of xs)(k := None)"
  by (induction xs) (auto simp: al_remove_def)

section \<open>The map type\<close>

typedef (overloaded) ('k::linorder, 'v) btree_map =
  "{xs :: ('k \<times> 'v) list. sorted_wrt (<) (map fst xs)}"
  morphisms btree_iter Btree
  by (rule exI [of _ "[]"]) simp

setup_lifting type_definition_btree_map

type_synonym 'k btree_set = "('k, unit) btree_map"

lift_definition btree_new :: "('k::linorder, 'v) btree_map" is "[]"
  by simp

lift_definition btree_insert :: "'k::linorder \<Rightarrow> 'v \<Rightarrow> ('k, 'v) btree_map \<Rightarrow> ('k, 'v) btree_map"
  is al_insert
  by (rule sorted_al_insert)

lift_definition btree_remove :: "'k::linorder \<Rightarrow> ('k, 'v) btree_map \<Rightarrow> ('k, 'v) btree_map"
  is al_remove
  by (rule sorted_al_remove)

definition btree_get :: "('k::linorder, 'v) btree_map \<Rightarrow> 'k \<rightharpoonup> 'v" where
  "btree_get m k = map_of (btree_iter m) k"

definition btree_contains_key :: "('k::linorder, 'v) btree_map \<Rightarrow> 'k \<Rightarrow> bool" where
  "btree_contains_key m k \<longleftrightarrow> btree_get m k \<noteq> None"

definition btree_keys :: "('k::linorder, 'v) btree_map \<Rightarrow> 'k list" where
  "btree_keys m = map fst (btree_iter m)"

definition btree_values :: "('k::linorder, 'v) btree_map \<Rightarrow> 'v list" where
  "btree_values m = map snd (btree_iter m)"

definition btree_len :: "('k::linorder, 'v) btree_map \<Rightarrow> nat" where
  "btree_len m = length (btree_iter m)"

text \<open>\<open>entry(k).or_insert(v)\<close>: keeps the value already there.\<close>

definition btree_or_insert :: "'k::linorder \<Rightarrow> 'v \<Rightarrow> ('k, 'v) btree_map \<Rightarrow> ('k, 'v) btree_map" where
  "btree_or_insert k v m = (if btree_contains_key m k then m else btree_insert k v m)"

text \<open>\<open>for (k, v) in &other { self.entry(k).or_insert(v); }\<close>, the loop of every merge.\<close>

definition btree_extend_new ::
  "('k::linorder, 'v) btree_map \<Rightarrow> ('k, 'v) btree_map \<Rightarrow> ('k, 'v) btree_map" where
  "btree_extend_new m other = fold (\<lambda>(k, v). btree_or_insert k v) (btree_iter other) m"

text \<open>\<open>collect()\<close> into a map: later pairs overwrite earlier ones.\<close>

definition btree_collect :: "('k::linorder \<times> 'v) list \<Rightarrow> ('k, 'v) btree_map" where
  "btree_collect xs = fold (\<lambda>(k, v). btree_insert k v) xs btree_new"

definition bset_insert :: "'k::linorder \<Rightarrow> 'k btree_set \<Rightarrow> 'k btree_set" where
  "bset_insert k s = btree_insert k () s"

definition bset_collect :: "'k::linorder list \<Rightarrow> 'k btree_set" where
  "bset_collect xs = fold bset_insert xs btree_new"

abbreviation bset_contains :: "'k::linorder btree_set \<Rightarrow> 'k \<Rightarrow> bool" where
  "bset_contains s k \<equiv> btree_contains_key s k"

definition bset_elems :: "'k::linorder btree_set \<Rightarrow> 'k set" where
  "bset_elems s = set (btree_keys s)"

instantiation btree_map :: (linorder, equal) equal
begin

definition equal_btree_map :: "('a, 'b) btree_map \<Rightarrow> ('a, 'b) btree_map \<Rightarrow> bool" where
  "equal_btree_map m n \<longleftrightarrow> btree_iter m = btree_iter n"

instance
  by standard (simp add: equal_btree_map_def btree_iter_inject)

end

section \<open>Lookup\<close>

lemma btree_iter_sorted [simp]: "sorted_wrt (<) (map fst (btree_iter m))"
  using btree_iter [of m] by simp

lemma btree_keys_sorted [simp]: "sorted_wrt (<) (btree_keys m)"
  by (simp add: btree_keys_def)

lemma btree_keys_distinct [simp]: "distinct (btree_keys m)"
  using btree_keys_sorted [of m] by (simp add: strict_sorted_iff)

lemma btree_get_new [simp]: "btree_get btree_new k = None"
  by (simp add: btree_get_def btree_new.rep_eq)

lemma btree_get_insert [simp]:
  "btree_get (btree_insert k v m) = (btree_get m)(k \<mapsto> v)"
  by (rule ext) (simp add: btree_get_def btree_insert.rep_eq map_of_al_insert)

lemma btree_get_remove [simp]: "btree_get (btree_remove k m) = (btree_get m)(k := None)"
  by (rule ext) (simp add: btree_get_def btree_remove.rep_eq map_of_al_remove)

lemma btree_contains_key_new [simp]: "\<not> btree_contains_key btree_new k"
  by (simp add: btree_contains_key_def)

lemma btree_contains_key_insert [simp]:
  "btree_contains_key (btree_insert k v m) j \<longleftrightarrow> j = k \<or> btree_contains_key m j"
  by (simp add: btree_contains_key_def)

lemma btree_contains_key_Some: "btree_contains_key m k \<longleftrightarrow> (\<exists>v. btree_get m k = Some v)"
  by (simp add: btree_contains_key_def)

lemma btree_get_or_insert:
  "btree_get (btree_or_insert k v m) j =
     (if j = k \<and> btree_get m k = None then Some v else btree_get m j)"
  by (simp add: btree_or_insert_def btree_contains_key_def)

lemma distinct_fst_btree_iter: "distinct (map fst (btree_iter m))"
  using btree_iter_sorted [of m] by (simp add: strict_sorted_iff)

lemma btree_iter_iff: "(k, v) \<in> set (btree_iter m) \<longleftrightarrow> btree_get m k = Some v"
  by (simp add: btree_get_def map_of_eq_Some_iff [OF distinct_fst_btree_iter])

lemma btree_keys_iff: "k \<in> set (btree_keys m) \<longleftrightarrow> btree_contains_key m k"
  by (force simp: btree_keys_def btree_contains_key_def btree_iter_iff [symmetric])

lemma btree_values_iff: "v \<in> set (btree_values m) \<longleftrightarrow> (\<exists>k. btree_get m k = Some v)"
  by (force simp: btree_values_def btree_iter_iff [symmetric])

lemma dom_btree_get: "dom (btree_get m) = set (btree_keys m)"
  by (auto simp: btree_keys_iff btree_contains_key_def)

lemma finite_dom_btree_get [simp]: "finite (dom (btree_get m))"
  by (simp add: dom_btree_get)

lemma btree_len_card: "btree_len m = card (dom (btree_get m))"
proof -
  have "btree_len m = length (btree_keys m)" by (simp add: btree_len_def btree_keys_def)
  then show ?thesis by (simp add: dom_btree_get distinct_card)
qed

text \<open>Two maps with the same lookups are the same map.\<close>

lemma btree_iter_keys: "btree_iter m = map (\<lambda>k. (k, the (btree_get m k))) (btree_keys m)"
proof -
  have "map (\<lambda>x. (fst x, the (btree_get m (fst x)))) (btree_iter m) = map (\<lambda>x. x) (btree_iter m)"
    by (rule map_cong) (auto simp: btree_iter_iff)
  then show ?thesis by (simp add: btree_keys_def comp_def)
qed

lemma btree_values_keys: "btree_values m = map (\<lambda>k. the (btree_get m k)) (btree_keys m)"
  unfolding btree_values_def by (subst btree_iter_keys) (simp add: comp_def)

lemma btree_keys_eqI:
  assumes "\<And>k. btree_contains_key m k \<longleftrightarrow> btree_contains_key n k"
  shows "btree_keys m = btree_keys n"
  by (rule sorted_wrt_less_set_eq) (auto simp: btree_keys_iff assms)

lemma btree_ext:
  assumes "\<And>k. btree_get m k = btree_get n k"
  shows "m = n"
proof -
  have "btree_keys m = btree_keys n"
    by (rule btree_keys_eqI) (simp add: btree_contains_key_def assms)
  moreover have "btree_get m = btree_get n" using assms by (rule ext)
  ultimately have "btree_iter m = btree_iter n" by (simp add: btree_iter_keys)
  then show ?thesis by (simp add: btree_iter_inject)
qed

lemma btree_eq_iff: "m = n \<longleftrightarrow> (\<forall>k. btree_get m k = btree_get n k)"
  using btree_ext by auto

lemma btree_iter_eqI:
  assumes "sorted_wrt (<) (map fst al)" "btree_get m = map_of al"
  shows "btree_iter m = al"
proof -
  have "dom (btree_get m) = set (map fst al)" using assms(2) by (simp add: dom_map_of_conv_image_fst)
  then have keys: "btree_keys m = map fst al"
    using assms(1) by (intro sorted_wrt_less_set_eq) (auto simp: dom_btree_get)
  have "distinct (map fst al)" using assms(1) by (simp add: strict_sorted_iff)
  then have "the (map_of al (fst x)) = snd x" if "x \<in> set al" for x
    using that by (cases x) simp
  then have "map (\<lambda>x. (fst x, the (btree_get m (fst x)))) al = map (\<lambda>x. x) al"
    using assms(2) by (intro map_cong) auto
  then show ?thesis by (subst btree_iter_keys) (simp add: keys comp_def)
qed

section \<open>Merging and collecting\<close>

lemma btree_get_fold_or_insert:
  "btree_get (fold (\<lambda>(k, v). btree_or_insert k v) xs m) j =
     (case btree_get m j of Some v \<Rightarrow> Some v | None \<Rightarrow> map_of xs j)"
proof (induction xs arbitrary: m)
  case Nil
  then show ?case by (simp split: option.splits)
next
  case (Cons x xs)
  then show ?case by (cases x) (auto simp: btree_get_or_insert split: option.splits)
qed

lemma btree_get_extend_new:
  "btree_get (btree_extend_new m other) j =
     (case btree_get m j of Some v \<Rightarrow> Some v | None \<Rightarrow> btree_get other j)"
  by (simp add: btree_extend_new_def btree_get_fold_or_insert btree_get_def [of other]
      split: option.splits)

lemma btree_get_fold_insert:
  "btree_get (fold (\<lambda>(k, v). btree_insert k v) xs m) j =
     (case map_of (rev xs) j of Some v \<Rightarrow> Some v | None \<Rightarrow> btree_get m j)"
  by (induction xs arbitrary: m) (auto simp: map_add_def split: option.splits)

lemma btree_get_collect: "btree_get (btree_collect xs) j = map_of (rev xs) j"
  by (simp add: btree_collect_def btree_get_fold_insert split: option.splits)

lemma bset_contains_fold:
  "bset_contains (fold bset_insert xs s) k \<longleftrightarrow> k \<in> set xs \<or> bset_contains s k"
  by (induction xs arbitrary: s) (auto simp: bset_insert_def)

lemma bset_contains_collect [simp]: "bset_contains (bset_collect xs) k \<longleftrightarrow> k \<in> set xs"
  by (simp add: bset_collect_def bset_contains_fold)

lemma bset_contains_insert [simp]:
  "bset_contains (bset_insert j s) k \<longleftrightarrow> k = j \<or> bset_contains s k"
  by (simp add: bset_insert_def)

lemma bset_elems_iff: "k \<in> bset_elems s \<longleftrightarrow> bset_contains s k"
  by (simp add: bset_elems_def btree_keys_iff)

lemma bset_elems_new [simp]: "bset_elems btree_new = {}"
  by (auto simp: bset_elems_iff)

lemma bset_elems_insert [simp]: "bset_elems (bset_insert k s) = insert k (bset_elems s)"
  by (auto simp: bset_elems_iff)

lemma bset_elems_collect [simp]: "bset_elems (bset_collect xs) = set xs"
  by (auto simp: bset_elems_iff)

lemma finite_bset_elems [simp]: "finite (bset_elems s)"
  by (simp add: bset_elems_def)

lemma bset_ext: "(\<And>k. bset_contains s k \<longleftrightarrow> bset_contains t k) \<Longrightarrow> s = t"
  by (rule btree_ext) (metis (full_types) btree_contains_key_def not_None_eq old.unit.exhaust)

lemma bset_elems_eqD: "bset_elems s = bset_elems t \<Longrightarrow> s = t"
  by (rule bset_ext) (metis bset_elems_iff)

lemma btree_len_bset: "btree_len s = card (bset_elems s)"
  by (simp add: btree_len_card dom_btree_get bset_elems_def)

section \<open>The interface\<close>

locale ordered_map =
  fixes empty :: 'm
    and put :: "'k::linorder \<Rightarrow> 'v \<Rightarrow> 'm \<Rightarrow> 'm"
    and drop_key :: "'k \<Rightarrow> 'm \<Rightarrow> 'm"
    and get :: "'m \<Rightarrow> 'k \<rightharpoonup> 'v"
    and keys :: "'m \<Rightarrow> 'k list"
  assumes get_empty: "get empty k = None"
    and get_put: "get (put k v m) = (get m)(k \<mapsto> v)"
    and get_drop: "get (drop_key k m) = (get m)(k := None)"
    and keys_sorted: "sorted_wrt (<) (keys m)"
    and keys_dom: "set (keys m) = dom (get m)"
    and get_ext: "get m = get n \<Longrightarrow> m = n"
begin

lemma put_commute: "j \<noteq> k \<Longrightarrow> put j v (put k w m) = put k w (put j v m)"
  by (rule get_ext) (auto simp: get_put)

lemma put_put_same: "put k v (put k w m) = put k v m"
  by (rule get_ext) (simp add: get_put)

lemma drop_put_same: "get m k = None \<Longrightarrow> drop_key k (put k v m) = m"
  by (rule get_ext) (auto simp: get_put get_drop)

lemma put_get_same: "get m k = Some v \<Longrightarrow> put k v m = m"
  by (rule get_ext) (auto simp: get_put)

text \<open>Iteration order is a function of the key set alone.\<close>

lemma keys_determined: "dom (get m) = dom (get n) \<Longrightarrow> keys m = keys n"
  by (rule sorted_wrt_less_set_eq) (simp_all add: keys_sorted keys_dom)

text \<open>Inserting the same pairs in any order gives the same map when no key repeats.\<close>

lemma fold_put_permute:
  assumes "distinct (map fst xs)" "mset xs = mset ys"
  shows "fold (\<lambda>(k, v). put k v) xs m = fold (\<lambda>(k, v). put k v) ys m"
proof -
  have "fold (\<lambda>(k, v). put k v) xs = fold (\<lambda>(k, v). put k v) ys"
  proof (rule fold_multiset_equiv)
    fix x y
    assume "x \<in> set xs" "y \<in> set xs"
    then consider "x = y" | "fst x \<noteq> fst y"
      using assms(1) by (meson distinct_map inj_onD)
    then show "(case x of (k, v) \<Rightarrow> put k v) \<circ> (case y of (k, v) \<Rightarrow> put k v)
        = (case y of (k, v) \<Rightarrow> put k v) \<circ> (case x of (k, v) \<Rightarrow> put k v)"
      by cases (auto simp: fun_eq_iff put_commute split: prod.splits)
  qed (rule assms(2))
  then show ?thesis by simp
qed

end

interpretation btree: ordered_map btree_new btree_insert btree_remove btree_get btree_keys
proof
  fix m n :: "('k::linorder, 'v) btree_map"
  assume "btree_get m = btree_get n"
  then show "m = n" by (intro btree_ext) simp
qed (auto simp: dom_btree_get)

lemma btree_insert_id: "btree_get m k = Some v \<Longrightarrow> btree_insert k v m = m"
  by (rule btree.put_get_same)

lemma btree_remove_insert_id: "btree_get m k = None \<Longrightarrow> btree_remove k (btree_insert k v m) = m"
  by (rule btree.drop_put_same)

end
