(* ===== verification/StreamDb.thy ===== *)
theory StreamDb
  imports Pillar_Core Rust_Collections
begin

text \<open>
  \<^verbatim>\<open>crates/pillar-streamdb/src/lib.rs\<close> and
  \<^verbatim>\<open>crates/pillar-crypto/src/content.rs\<close>: content addressing, the op-log CRDT with
  its materialized order and Merkle root, snapshots and bootstrapping, reclaiming compaction,
  and policy-gated streams.

  The SHA-256 digest (crate \<open>sha2\<close>) is a parameter \<open>sha\<close> of every definition
  that hashes. Facts that need collision resistance assume that \<open>sha\<close> is injective on the
  finite set of inputs at hand.
\<close>

section \<open>Content addresses\<close>

type_synonym sha256 = "bytes \<Rightarrow> bytes"
type_synonym content_id = bytes
type_synonym op_id = bytes

definition content_address :: "sha256 \<Rightarrow> bytes \<Rightarrow> content_id" where
  "content_address sha bs = 0x12 # 32 # sha bs"

definition hex_digit :: "nat \<Rightarrow> char" where
  "hex_digit n = ''0123456789abcdef'' ! n"

text \<open>\<open>write!(s, "{b:02x}")\<close> for every byte.\<close>

definition op_id_to_hex :: "op_id \<Rightarrow> string" where
  "op_id_to_hex bs = concat (map (\<lambda>b. [hex_digit (unat b div 16), hex_digit (unat b mod 16)]) bs)"

text \<open>\<open>char::to_digit(16)\<close>: digits and letters of either case.\<close>

definition to_digit16 :: "char \<Rightarrow> nat option" where
  "to_digit16 c =
     (let n = of_char c :: nat in
      if 48 \<le> n \<and> n \<le> 57 then Some (n - 48)
      else if 97 \<le> n \<and> n \<le> 102 then Some (n - 87)
      else if 65 \<le> n \<and> n \<le> 70 then Some (n - 55)
      else None)"

text \<open>The loop over pairs of characters; the length is even.\<close>

fun from_hex_loop :: "string \<Rightarrow> bytes option" where
  "from_hex_loop (c # d # s) =
     (case to_digit16 c of
        None \<Rightarrow> None
      | Some hi \<Rightarrow>
          (case to_digit16 d of
             None \<Rightarrow> None
           | Some lo \<Rightarrow> map_option (Cons (of_nat (16 * hi + lo))) (from_hex_loop s)))"
| "from_hex_loop _ = Some []"

definition op_id_from_hex :: "string \<Rightarrow> op_id option" where
  "op_id_from_hex s = (if s = [] \<or> length s mod 2 \<noteq> 0 then None else from_hex_loop s)"

section \<open>Ops and the op-log\<close>

record op =
  op_id :: op_id
  op_payload :: bytes

definition op_new :: "sha256 \<Rightarrow> bytes \<Rightarrow> op" where
  "op_new sha payload = \<lparr>op_id = content_address sha payload, op_payload = payload\<rparr>"

record oplog =
  ops :: "(op_id, op) btree_map"

definition oplog_new :: oplog where
  "oplog_new = \<lparr>ops = btree_new\<rparr>"

definition oplog_append :: "sha256 \<Rightarrow> oplog \<Rightarrow> bytes \<Rightarrow> op_id \<times> oplog" where
  "oplog_append sha l payload =
     (let x = op_new sha payload in (op_id x, \<lparr>ops = btree_or_insert (op_id x) x (ops l)\<rparr>))"

definition oplog_contains :: "oplog \<Rightarrow> op_id \<Rightarrow> bool" where
  "oplog_contains l i = btree_contains_key (ops l) i"

definition oplog_len :: "oplog \<Rightarrow> nat" where
  "oplog_len l = btree_len (ops l)"

definition oplog_is_empty :: "oplog \<Rightarrow> bool" where
  "oplog_is_empty l \<longleftrightarrow> btree_len (ops l) = 0"

definition oplog_merge :: "oplog \<Rightarrow> oplog \<Rightarrow> oplog" where
  "oplog_merge l other = \<lparr>ops = btree_extend_new (ops l) (ops other)\<rparr>"

definition oplog_order :: "oplog \<Rightarrow> op list" where
  "oplog_order l = btree_values (ops l)"

definition oplog_ids :: "oplog \<Rightarrow> op_id list" where
  "oplog_ids l = btree_keys (ops l)"

type_synonym merkle_root = bytes

definition root_tag :: bytes where
  "root_tag = as_bytes ''pillar-streamdb-merkle-root-v1''"

definition fold_root :: "sha256 \<Rightarrow> op list \<Rightarrow> merkle_root" where
  "fold_root sha xs = foldl (\<lambda>acc x. sha (acc @ op_id x)) (sha root_tag) xs"

definition oplog_root :: "sha256 \<Rightarrow> oplog \<Rightarrow> merkle_root" where
  "oplog_root sha l = fold_root sha (oplog_order l)"

section \<open>Snapshots\<close>

definition schema_version_current :: surface_version where
  "schema_version_current = 1"

definition schema_version_min :: surface_version where
  "schema_version_min = 1"

record snapshot =
  snap_root :: merkle_root
  snap_ops :: "(op_id, op) btree_map"
  snap_schema_version :: surface_version

definition snapshot_new :: "merkle_root \<Rightarrow> (op_id, op) btree_map \<Rightarrow> snapshot" where
  "snapshot_new rt m =
     \<lparr>snap_root = rt, snap_ops = m, snap_schema_version = schema_version_current\<rparr>"

definition snapshot_len :: "snapshot \<Rightarrow> nat" where
  "snapshot_len s = btree_len (snap_ops s)"

definition snapshot_check_schema_version :: "snapshot \<Rightarrow> version_error + unit" where
  "snapshot_check_schema_version s =
     check_supported (snap_schema_version s) schema_version_min schema_version_current"

definition oplog_compact :: "sha256 \<Rightarrow> oplog \<Rightarrow> snapshot" where
  "oplog_compact sha l = snapshot_new (oplog_root sha l) (ops l)"

text \<open>
  \<open>compact_reclaiming\<close>: a first loop over the ops in content order keeps the ungrouped ones
  and remembers the best \<open>(priority, id)\<close> per group; a second loop over the winners
  looks each one up and keeps it.
\<close>

type_synonym reclaim_state =
  "(bytes, bytes \<times> op_id) btree_map \<times> (op_id, op) btree_map"

definition reclaim_step ::
  "(op \<Rightarrow> bytes option) \<Rightarrow> (op \<Rightarrow> bytes) \<Rightarrow> op \<Rightarrow> reclaim_state \<Rightarrow> reclaim_state" where
  "reclaim_step group_key priority x st =
     (case st of (winners, kept) \<Rightarrow>
       (case group_key x of
          None \<Rightarrow> (winners, btree_insert (op_id x) x kept)
        | Some key \<Rightarrow>
            (let candidate = (priority x, op_id x) in
             case btree_get winners key of
               Some best \<Rightarrow>
                 if best \<ge> candidate then (winners, kept)
                 else (btree_insert key candidate winners, kept)
             | None \<Rightarrow> (btree_insert key candidate winners, kept))))"

definition reclaim_keep :: "oplog \<Rightarrow> bytes \<times> op_id \<Rightarrow> (op_id, op) btree_map \<Rightarrow> (op_id, op) btree_map" where
  "reclaim_keep l w kept =
     (case btree_get (ops l) (snd w) of
        Some x \<Rightarrow> btree_insert (snd w) x kept
      | None \<Rightarrow> kept)"

definition reclaim_kept ::
  "(op \<Rightarrow> bytes option) \<Rightarrow> (op \<Rightarrow> bytes) \<Rightarrow> oplog \<Rightarrow> (op_id, op) btree_map" where
  "reclaim_kept group_key priority l =
     (case fold (reclaim_step group_key priority) (oplog_order l) (btree_new, btree_new) of
        (winners, kept) \<Rightarrow> fold (reclaim_keep l) (btree_values winners) kept)"

definition oplog_compact_reclaiming ::
  "sha256 \<Rightarrow> (op \<Rightarrow> bytes option) \<Rightarrow> (op \<Rightarrow> bytes) \<Rightarrow> oplog \<Rightarrow> snapshot" where
  "oplog_compact_reclaiming sha group_key priority l =
     (let kept = reclaim_kept group_key priority l
      in snapshot_new (fold_root sha (btree_values kept)) kept)"

definition oplog_bootstrap :: "snapshot \<Rightarrow> op list \<Rightarrow> oplog" where
  "oplog_bootstrap s tail = \<lparr>ops = fold (\<lambda>x. btree_or_insert (op_id x) x) tail (snap_ops s)\<rparr>"

datatype bootstrap_error = UnsupportedSnapshot version_error

definition oplog_bootstrap_checked :: "snapshot \<Rightarrow> op list \<Rightarrow> bootstrap_error + oplog" where
  "oplog_bootstrap_checked s tail =
     (case snapshot_check_schema_version s of
        Inl err \<Rightarrow> Inl (UnsupportedSnapshot err)
      | Inr _ \<Rightarrow> Inr (oplog_bootstrap s tail))"

section \<open>Streams and views\<close>

record stream =
  stream_log :: oplog
  stream_policy :: "view_policy option"

datatype policy_violation = PolicyViolation view_policy side_effect

definition default_policy :: view_policy where
  "default_policy = Strict"

definition stream_new :: stream where
  "stream_new = \<lparr>stream_log = oplog_new, stream_policy = None\<rparr>"

definition stream_with_policy :: "view_policy \<Rightarrow> stream" where
  "stream_with_policy p = \<lparr>stream_log = oplog_new, stream_policy = Some p\<rparr>"

definition stream_effective_policy :: "stream \<Rightarrow> view_policy" where
  "stream_effective_policy s = (case stream_policy s of Some p \<Rightarrow> p | None \<Rightarrow> default_policy)"

definition stream_set_policy :: "stream \<Rightarrow> view_policy \<Rightarrow> stream" where
  "stream_set_policy s p = s\<lparr>stream_policy := Some p\<rparr>"

definition stream_try_append ::
  "sha256 \<Rightarrow> stream \<Rightarrow> bytes \<Rightarrow> side_effect \<Rightarrow> policy_violation + (op_id \<times> stream)" where
  "stream_try_append sha s payload effect =
     (let policy = stream_effective_policy s in
      if \<not> view_policy_admits policy effect then Inl (PolicyViolation policy effect)
      else (case oplog_append sha (stream_log s) payload of
              (i, l) \<Rightarrow> Inr (i, s\<lparr>stream_log := l\<rparr>)))"

definition stream_merge :: "stream \<Rightarrow> stream \<Rightarrow> stream" where
  "stream_merge s other = s\<lparr>stream_log := oplog_merge (stream_log s) (stream_log other)\<rparr>"

record view =
  view_log :: oplog
  view_policy_of :: view_policy

definition stream_view :: "stream \<Rightarrow> view" where
  "stream_view s = \<lparr>view_log = stream_log s, view_policy_of = stream_effective_policy s\<rparr>"

definition view_admits :: "view \<Rightarrow> side_effect \<Rightarrow> bool" where
  "view_admits v effect = view_policy_admits (view_policy_of v) effect"

definition view_order :: "view \<Rightarrow> op list" where
  "view_order v = oplog_order (view_log v)"

definition view_root :: "sha256 \<Rightarrow> view \<Rightarrow> merkle_root" where
  "view_root sha v = oplog_root sha (view_log v)"

section \<open>Well-formed logs\<close>

text \<open>Every op is stored under its id, and its id is the address of its payload.\<close>

definition oplog_wf :: "sha256 \<Rightarrow> oplog \<Rightarrow> bool" where
  "oplog_wf sha l \<longleftrightarrow>
     list_all (\<lambda>(i, x). op_id x = i \<and> i = content_address sha (op_payload x)) (btree_iter (ops l))"

definition oplog_payloads :: "oplog \<Rightarrow> bytes set" where
  "oplog_payloads l = op_payload ` set (oplog_order l)"

lemma oplog_wf_iff:
  "oplog_wf sha l \<longleftrightarrow>
     (\<forall>i x. btree_get (ops l) i = Some x \<longrightarrow> op_id x = i \<and> i = content_address sha (op_payload x))"
  by (simp add: oplog_wf_def list_all_iff Ball_def btree_iter_iff split_paired_all)

lemma oplog_wfD:
  assumes "oplog_wf sha l" "btree_get (ops l) i = Some x"
  shows "op_id x = i" "i = content_address sha (op_payload x)" "x = op_new sha (op_payload x)"
  using assms by (auto simp: oplog_wf_iff op_new_def)

lemma oplog_order_iff: "x \<in> set (oplog_order l) \<longleftrightarrow> (\<exists>i. btree_get (ops l) i = Some x)"
  by (simp add: oplog_order_def btree_values_iff)

lemma oplog_payloads_iff:
  "p \<in> oplog_payloads l \<longleftrightarrow> (\<exists>i x. btree_get (ops l) i = Some x \<and> p = op_payload x)"
  unfolding oplog_payloads_def image_iff Bex_def oplog_order_iff by blast

lemma oplog_eqI:
  fixes l m :: oplog
  shows "(\<And>i. btree_get (ops l) i = btree_get (ops m) i) \<Longrightarrow> l = m"
  by (cases l; cases m) (auto intro: btree_ext)

lemma get_oplog_new [simp]: "btree_get (ops oplog_new) i = None"
  by (simp add: oplog_new_def)

lemma get_oplog_append:
  "btree_get (ops (snd (oplog_append sha l p))) i =
     (if i = content_address sha p \<and> btree_get (ops l) i = None then Some (op_new sha p)
      else btree_get (ops l) i)"
  by (auto simp: oplog_append_def op_new_def btree_get_or_insert Let_def)

lemma get_oplog_merge:
  "btree_get (ops (oplog_merge l m)) i =
     (case btree_get (ops l) i of Some x \<Rightarrow> Some x | None \<Rightarrow> btree_get (ops m) i)"
  by (simp add: oplog_merge_def btree_get_extend_new)

lemma content_address_inject [simp]:
  "content_address sha p = content_address sha q \<longleftrightarrow> sha p = sha q"
  by (simp add: content_address_def)

lemma oplog_wf_new [wf_intros]: "oplog_wf sha oplog_new"
  by (simp add: oplog_wf_iff)

lemma oplog_wf_append [wf_intros]:
  "oplog_wf sha l \<Longrightarrow> oplog_wf sha (snd (oplog_append sha l p))"
  by (auto simp: oplog_wf_iff get_oplog_append op_new_def split: if_splits)

lemma oplog_wf_merge [wf_intros]:
  "oplog_wf sha l \<Longrightarrow> oplog_wf sha m \<Longrightarrow> oplog_wf sha (oplog_merge l m)"
  by (auto simp: oplog_wf_iff get_oplog_merge split: option.splits)

lemma oplog_payloads_merge_subset:
  "oplog_payloads (oplog_merge l m) \<subseteq> oplog_payloads l \<union> oplog_payloads m"
  unfolding subset_iff Un_iff oplog_payloads_iff get_oplog_merge
  by (metis option.case_eq_if option.collapse)

section \<open>Gossip convergence\<close>

text \<open>
  The contract of a state that is gossiped: a join that is associative and idempotent, and
  commutes on replicas that agree. Delivering the same states in any order and with any
  repetition then leads to the same state.
\<close>

locale gossip_join =
  fixes merge :: "'s \<Rightarrow> 's \<Rightarrow> 's"
    and agree :: "'s \<Rightarrow> 's \<Rightarrow> bool"
  assumes merge_assoc: "merge (merge a b) c = merge a (merge b c)"
    and merge_idem: "merge a a = a"
    and merge_comm: "agree a b \<Longrightarrow> merge a b = merge b a"
    and agree_sym: "agree a b \<Longrightarrow> agree b a"
    and agree_merge: "agree a c \<Longrightarrow> agree b c \<Longrightarrow> agree (merge a b) c"
begin

lemma merge_right_commute: "agree b c \<Longrightarrow> merge (merge a b) c = merge (merge a c) b"
  using merge_comm [of b c] by (simp add: merge_assoc)

lemma agree_foldl:
  "agree s c \<Longrightarrow> (\<And>x. x \<in> set xs \<Longrightarrow> agree x c) \<Longrightarrow> agree (foldl merge s xs) c"
  by (induction xs arbitrary: s) (auto intro: agree_merge)

lemma foldl_absorbs:
  assumes "\<And>x y. x \<in> insert s (set xs) \<Longrightarrow> y \<in> insert s (set xs) \<Longrightarrow> agree x y"
    and "z \<in> insert s (set xs)"
  shows "merge (foldl merge s xs) z = foldl merge s xs"
  using assms
proof (induction xs rule: rev_induct)
  case Nil
  then show ?case by (simp add: merge_idem)
next
  case (snoc y ys)
  let ?F = "foldl merge s ys"
  show ?case
  proof (cases "z = y")
    case True
    then show ?thesis by (simp add: merge_assoc merge_idem)
  next
    case False
    then have "merge ?F z = ?F" using snoc by auto
    moreover have "agree y z" using snoc.prems by auto
    ultimately show ?thesis using merge_right_commute [of y z ?F] by simp
  qed
qed

lemma absorbs_foldl:
  assumes "merge z s = z" "\<And>x. x \<in> set xs \<Longrightarrow> merge z x = z"
  shows "merge z (foldl merge s xs) = z"
  using assms by (induction xs rule: rev_induct) (simp_all flip: merge_assoc)

lemma delivery_converges:
  assumes agree: "\<And>x y. x \<in> insert s (set xs) \<Longrightarrow> y \<in> insert s (set xs) \<Longrightarrow> agree x y"
    and same: "set ys = set xs"
  shows "foldl merge s xs = foldl merge s ys"
proof -
  let ?X = "foldl merge s xs" and ?Y = "foldl merge s ys"
  have X: "merge ?X z = ?X" if "z \<in> insert s (set xs)" for z
    using that agree by (intro foldl_absorbs) auto
  have Y: "merge ?Y z = ?Y" if "z \<in> insert s (set xs)" for z
    using that agree same by (intro foldl_absorbs) auto
  have "merge ?X ?Y = ?X" "merge ?Y ?X = ?Y"
    using X Y same by (auto intro!: absorbs_foldl)
  moreover have "agree ?X ?Y"
    using agree same by (intro agree_foldl agree_sym [OF agree_foldl]) auto
  ultimately show ?thesis using merge_comm by metis
qed

end

text \<open>Two logs agree when no id names different ops.\<close>

definition oplog_agree :: "oplog \<Rightarrow> oplog \<Rightarrow> bool" where
  "oplog_agree l m \<longleftrightarrow>
     (\<forall>i x y. btree_get (ops l) i = Some x \<longrightarrow> btree_get (ops m) i = Some y \<longrightarrow> x = y)"

interpretation gossip: gossip_join oplog_merge oplog_agree
proof
  fix a b c :: oplog
  show "oplog_merge (oplog_merge a b) c = oplog_merge a (oplog_merge b c)"
    by (rule oplog_eqI) (simp add: get_oplog_merge split: option.splits)
  show "oplog_merge a a = a"
    by (rule oplog_eqI) (simp add: get_oplog_merge split: option.splits)
  show "oplog_merge a b = oplog_merge b a" if "oplog_agree a b"
    using that by (intro oplog_eqI) (auto simp: get_oplog_merge oplog_agree_def split: option.splits)
  show "oplog_agree b a" if "oplog_agree a b"
    using that unfolding oplog_agree_def by metis
  show "oplog_agree (oplog_merge a b) c" if "oplog_agree a c" "oplog_agree b c"
    using that unfolding oplog_agree_def by (auto simp: get_oplog_merge split: option.splits)
qed

lemma wf_logs_agree:
  assumes "oplog_wf sha l" "oplog_wf sha m" "inj_on sha (oplog_payloads l \<union> oplog_payloads m)"
  shows "oplog_agree l m"
  unfolding oplog_agree_def
proof (intro allI impI)
  fix i x y
  assume x: "btree_get (ops l) i = Some x" and y: "btree_get (ops m) i = Some y"
  note X = oplog_wfD [OF assms(1) x] and Y = oplog_wfD [OF assms(2) y]
  have "content_address sha (op_payload x) = content_address sha (op_payload y)"
    using X(2) Y(2) by metis
  then have "sha (op_payload x) = sha (op_payload y)" by simp
  moreover have "op_payload x \<in> oplog_payloads l" "op_payload y \<in> oplog_payloads m"
    using x y oplog_payloads_iff by blast+
  ultimately have "op_payload x = op_payload y"
    using inj_onD [OF assms(3), of "op_payload x" "op_payload y"] by simp
  then show "x = y" using X(3) Y(3) by metis
qed

section \<open>The Merkle root\<close>

text \<open>The inputs the digest function receives while the root of \<open>xs\<close> is folded.\<close>

fun root_inputs_from :: "sha256 \<Rightarrow> bytes \<Rightarrow> op list \<Rightarrow> bytes set" where
  "root_inputs_from sha acc [] = {}"
| "root_inputs_from sha acc (x # xs) =
     insert (acc @ op_id x) (root_inputs_from sha (sha (acc @ op_id x)) xs)"

definition root_inputs :: "sha256 \<Rightarrow> op list \<Rightarrow> bytes set" where
  "root_inputs sha xs = insert root_tag (root_inputs_from sha (sha root_tag) xs)"

lemma root_inputs_from_snoc:
  "root_inputs_from sha acc (xs @ [x]) =
     insert (foldl (\<lambda>a y. sha (a @ op_id y)) acc xs @ op_id x) (root_inputs_from sha acc xs)"
  by (induction xs arbitrary: acc) auto

lemma root_inputs_snoc:
  "root_inputs sha (xs @ [x]) = insert (fold_root sha xs @ op_id x) (root_inputs sha xs)"
  by (auto simp: root_inputs_def fold_root_def root_inputs_from_snoc)

lemma fold_root_snoc: "fold_root sha (xs @ [x]) = sha (fold_root sha xs @ op_id x)"
  by (simp add: fold_root_def)

lemma fold_root_Nil: "fold_root sha [] = sha root_tag"
  by (simp add: fold_root_def)

lemma length_root_tag [simp]: "length root_tag = 30"
  by (simp add: root_tag_def)

lemma root_tag_in [simp]: "root_tag \<in> root_inputs sha xs"
  by (simp add: root_inputs_def)

lemma fold_root_inject:
  assumes "inj_on sha (root_inputs sha xs \<union> root_inputs sha ys)"
    and "\<And>x. x \<in> set xs \<union> set ys \<Longrightarrow> length (op_id x) = 34"
    and "fold_root sha xs = fold_root sha ys"
  shows "map op_id xs = map op_id ys"
  using assms
proof (induction xs arbitrary: ys rule: rev_induct)
  case Nil
  show ?case
  proof (cases ys rule: rev_cases)
    case (snoc zs z)
    then have "sha root_tag = sha (fold_root sha zs @ op_id z)"
      using Nil.prems(3) by (simp add: fold_root_snoc fold_root_Nil)
    then have "root_tag = fold_root sha zs @ op_id z"
      by (rule inj_onD [OF Nil.prems(1)]) (simp_all add: snoc root_inputs_snoc)
    then have "length root_tag = length (fold_root sha zs) + length (op_id z)" by (metis length_append)
    then show ?thesis using Nil.prems(2) [of z] snoc by simp
  qed simp
next
  case (snoc x xs)
  show ?case
  proof (cases ys rule: rev_cases)
    case Nil
    then have "sha root_tag = sha (fold_root sha xs @ op_id x)"
      using snoc.prems(3) by (simp add: fold_root_snoc fold_root_Nil)
    then have "root_tag = fold_root sha xs @ op_id x"
      by (rule inj_onD [OF snoc.prems(1)]) (simp_all add: Nil root_inputs_snoc)
    then have "length root_tag = length (fold_root sha xs) + length (op_id x)" by (metis length_append)
    then show ?thesis using snoc.prems(2) [of x] by simp
  next
    case (snoc zs z)
    note ys = snoc
    have "sha (fold_root sha xs @ op_id x) = sha (fold_root sha zs @ op_id z)"
      using snoc.prems(3) ys by (simp add: fold_root_snoc)
    then have "fold_root sha xs @ op_id x = fold_root sha zs @ op_id z"
      by (rule inj_onD [OF snoc.prems(1)]) (simp_all add: ys root_inputs_snoc)
    then have eq: "fold_root sha xs = fold_root sha zs" "op_id x = op_id z"
      using snoc.prems(2) [of x] snoc.prems(2) [of z] ys by (auto simp: append_eq_append_conv)
    have "inj_on sha (root_inputs sha xs \<union> root_inputs sha zs)"
      by (rule inj_on_subset [OF snoc.prems(1)]) (auto simp: ys root_inputs_snoc)
    moreover have "length (op_id u) = 34" if "u \<in> set xs \<union> set zs" for u
      using that snoc.prems(2) [of u] ys by auto
    ultimately have "map op_id xs = map op_id zs" using eq(1) by (intro snoc.IH) auto
    then show ?thesis using eq(2) ys by simp
  qed
qed

section \<open>Reclaiming compaction\<close>

definition op_rank :: "(op \<Rightarrow> bytes) \<Rightarrow> op \<Rightarrow> bytes \<times> op_id" where
  "op_rank priority x = (priority x, op_id x)"

lemma snd_op_rank [simp]: "snd (op_rank pr x) = op_id x"
  by (simp add: op_rank_def)

text \<open>What the first loop has established after the ops \<open>xs\<close>.\<close>

definition reclaim_inv ::
  "(op \<Rightarrow> bytes option) \<Rightarrow> (op \<Rightarrow> bytes) \<Rightarrow> op list \<Rightarrow> reclaim_state \<Rightarrow> bool" where
  "reclaim_inv gk pr xs st \<longleftrightarrow>
     (\<forall>g w. btree_get (fst st) g = Some w \<longleftrightarrow>
        (\<exists>x\<in>set xs. gk x = Some g \<and> w = op_rank pr x)
        \<and> (\<forall>y\<in>set xs. gk y = Some g \<longrightarrow> op_rank pr y \<le> w))
     \<and> (\<forall>i x. btree_get (snd st) i = Some x \<longleftrightarrow> x \<in> set xs \<and> gk x = None \<and> op_id x = i)"

lemma reclaim_inv_win:
  "reclaim_inv gk pr xs st \<Longrightarrow> btree_get (fst st) g = Some w \<longleftrightarrow>
     (\<exists>x\<in>set xs. gk x = Some g \<and> w = op_rank pr x)
     \<and> (\<forall>y\<in>set xs. gk y = Some g \<longrightarrow> op_rank pr y \<le> w)"
  unfolding reclaim_inv_def by blast

lemma reclaim_inv_kept:
  "reclaim_inv gk pr xs st \<Longrightarrow>
     btree_get (snd st) i = Some x \<longleftrightarrow> x \<in> set xs \<and> gk x = None \<and> op_id x = i"
  unfolding reclaim_inv_def by blast

lemma reclaim_invI:
  assumes "\<And>g w. btree_get (fst st) g = Some w \<longleftrightarrow>
      (\<exists>x\<in>set xs. gk x = Some g \<and> w = op_rank pr x)
      \<and> (\<forall>y\<in>set xs. gk y = Some g \<longrightarrow> op_rank pr y \<le> w)"
    and "\<And>i x. btree_get (snd st) i = Some x \<longleftrightarrow> x \<in> set xs \<and> gk x = None \<and> op_id x = i"
  shows "reclaim_inv gk pr xs st"
  using assms unfolding reclaim_inv_def by blast

lemma reclaim_inv_step:
  assumes inv: "reclaim_inv gk pr xs st" and inj: "inj_on op_id (set (xs @ [x]))"
  shows "reclaim_inv gk pr (xs @ [x]) (reclaim_step gk pr x st)"
proof (cases "gk x")
  case None
  have "y = x" if "y \<in> set xs" "op_id y = op_id x" for y
    using that inj_onD [OF inj, of y x] by simp
  then have kept: "btree_get (btree_insert (op_id x) x (snd st)) i = Some y \<longleftrightarrow>
      y \<in> set (xs @ [x]) \<and> gk y = None \<and> op_id y = i" for i y
    using None reclaim_inv_kept [OF inv] by auto
  have step: "reclaim_step gk pr x st = (fst st, btree_insert (op_id x) x (snd st))"
    using None by (simp add: reclaim_step_def split: prod.splits)
  show ?thesis
    unfolding step using None kept reclaim_inv_win [OF inv] by (intro reclaim_invI) auto
next
  case (Some g)
  note win = reclaim_inv_win [OF inv]
  have snds: "snd (reclaim_step gk pr x st) = snd st"
    by (simp add: reclaim_step_def Some Let_def split: prod.splits option.splits)
  have fsts: "btree_get (fst (reclaim_step gk pr x st)) g' =
      (if g' = g \<and> (\<forall>b. btree_get (fst st) g = Some b \<longrightarrow> b < op_rank pr x)
       then Some (op_rank pr x) else btree_get (fst st) g')" for g'
    by (auto simp: reclaim_step_def Some Let_def not_le simp flip: op_rank_def
        split: prod.splits option.splits)
  have none: "gk y \<noteq> Some g" if "btree_get (fst st) g = None" "y \<in> set xs" for y
  proof
    assume y: "gk y = Some g"
    let ?S = "op_rank pr ` {y \<in> set xs. gk y = Some g}"
    have "?S \<noteq> {}" "finite ?S" using y that(2) by auto
    then have "Max ?S \<in> ?S" "\<forall>z\<in>?S. z \<le> Max ?S" by (auto intro: Max_in)
    then have "btree_get (fst st) g = Some (Max ?S)" unfolding win by auto
    then show False using that(1) by simp
  qed
  have main: "btree_get (fst (reclaim_step gk pr x st)) g' = Some w \<longleftrightarrow>
      (\<exists>y\<in>set (xs @ [x]). gk y = Some g' \<and> w = op_rank pr y)
      \<and> (\<forall>y\<in>set (xs @ [x]). gk y = Some g' \<longrightarrow> op_rank pr y \<le> w)" for g' w
  proof (cases "g' = g")
    case False
    then show ?thesis using Some by (auto simp: fsts win)
  next
    case True
    show ?thesis
    proof (cases "btree_get (fst st) g")
      case None
      then show ?thesis using True Some none by (auto simp: fsts)
    next
      case (Some b)
      then have b: "\<exists>y\<in>set xs. gk y = Some g \<and> b = op_rank pr y"
        "\<And>y. y \<in> set xs \<Longrightarrow> gk y = Some g \<Longrightarrow> op_rank pr y \<le> b"
        using win by blast+
      show ?thesis
      proof (cases "b < op_rank pr x")
        case True
        then have "btree_get (fst (reclaim_step gk pr x st)) g = Some (op_rank pr x)"
          using Some by (simp add: fsts)
        moreover have "op_rank pr y < op_rank pr x" if "y \<in> set xs" "gk y = Some g" for y
          using b(2) [OF that] True by (rule le_less_trans)
        ultimately show ?thesis
          using \<open>g' = g\<close> \<open>gk x = Some g\<close> by (fastforce dest: less_imp_le)
      next
        case False
        then have "btree_get (fst (reclaim_step gk pr x st)) g = Some b"
          using Some by (simp add: fsts)
        then show ?thesis
          using \<open>g' = g\<close> \<open>gk x = Some g\<close> b False by (auto intro: antisym)
      qed
    qed
  qed
  show ?thesis
    using Some main reclaim_inv_kept [OF inv] by (intro reclaim_invI) (auto simp: snds)
qed

lemma reclaim_inv_loop:
  "inj_on op_id (set xs) \<Longrightarrow>
     reclaim_inv gk pr xs (fold (reclaim_step gk pr) xs (btree_new, btree_new))"
proof (induction xs rule: rev_induct)
  case Nil
  then show ?case by (simp add: reclaim_inv_def)
next
  case (snoc x xs)
  then have "reclaim_inv gk pr xs (fold (reclaim_step gk pr) xs (btree_new, btree_new))"
    by (auto intro: snoc.IH inj_on_subset)
  from reclaim_inv_step [OF this snoc.prems] show ?case by simp
qed

lemma get_fold_reclaim_keep:
  "btree_get (fold (reclaim_keep l) ws kept) i =
     (if i \<in> snd ` set ws \<and> btree_get (ops l) i \<noteq> None then btree_get (ops l) i
      else btree_get kept i)"
  by (induction ws arbitrary: kept) (auto simp: reclaim_keep_def split: option.splits)

lemma oplog_wf_inj_on: "oplog_wf sha l \<Longrightarrow> inj_on op_id (set (oplog_order l))"
  by (rule inj_onI) (metis oplog_order_iff oplog_wfD(1) option.inject)

text \<open>Compaction keeps the ungrouped ops and, of each group, the op of the greatest rank.\<close>

lemma get_reclaim_kept:
  assumes wf: "oplog_wf sha l"
  shows "btree_get (reclaim_kept gk pr l) i = Some x \<longleftrightarrow>
     btree_get (ops l) i = Some x
     \<and> (gk x = None
        \<or> (\<forall>y\<in>set (oplog_order l). gk y = gk x \<longrightarrow> op_rank pr y \<le> op_rank pr x))"
proof -
  obtain winners kept where
    st: "fold (reclaim_step gk pr) (oplog_order l) (btree_new, btree_new) = (winners, kept)"
    by fastforce
  have inv: "reclaim_inv gk pr (oplog_order l) (winners, kept)"
    using reclaim_inv_loop [OF oplog_wf_inj_on [OF wf], of gk pr] by (simp add: st)
  have id: "x' \<in> set (oplog_order l) \<and> op_id x' = i' \<longleftrightarrow> btree_get (ops l) i' = Some x'" for x' i'
    using oplog_wfD(1) [OF wf] by (metis oplog_order_iff)
  have kept: "btree_get kept i = Some x \<longleftrightarrow> btree_get (ops l) i = Some x \<and> gk x = None"
    using reclaim_inv_kept [OF inv] id by auto
  have win: "btree_get winners g = Some w \<longleftrightarrow>
      (\<exists>z\<in>set (oplog_order l). gk z = Some g \<and> w = op_rank pr z)
      \<and> (\<forall>y\<in>set (oplog_order l). gk y = Some g \<longrightarrow> op_rank pr y \<le> w)" for g w
    using reclaim_inv_win [OF inv] by simp
  have won: "i \<in> snd ` set (btree_values winners) \<longleftrightarrow>
      gk x \<noteq> None \<and> (\<forall>y\<in>set (oplog_order l). gk y = gk x \<longrightarrow> op_rank pr y \<le> op_rank pr x)"
    if x: "btree_get (ops l) i = Some x"
  proof -
    have only: "x \<in> set (oplog_order l)" "op_id x = i"
      "\<And>z. z \<in> set (oplog_order l) \<Longrightarrow> op_id z = i \<Longrightarrow> z = x"
      using id [of x i] id [of _ i] x by (blast, blast, force)
    have "i \<in> snd ` set (btree_values winners) \<longleftrightarrow>
        (\<exists>g w. btree_get winners g = Some w \<and> snd w = i)"
      by (force simp: btree_values_iff)
    also have "\<dots> \<longleftrightarrow> (\<exists>g. \<exists>z\<in>set (oplog_order l). gk z = Some g \<and> op_id z = i
        \<and> (\<forall>y\<in>set (oplog_order l). gk y = Some g \<longrightarrow> op_rank pr y \<le> op_rank pr z))"
      unfolding win
    proof (intro iffI; elim exE conjE bexE)
      fix g z
      assume "z \<in> set (oplog_order l)" "gk z = Some g" "op_id z = i"
        "\<forall>y\<in>set (oplog_order l). gk y = Some g \<longrightarrow> op_rank pr y \<le> op_rank pr z"
      then show "\<exists>g w. ((\<exists>z\<in>set (oplog_order l). gk z = Some g \<and> w = op_rank pr z)
          \<and> (\<forall>y\<in>set (oplog_order l). gk y = Some g \<longrightarrow> op_rank pr y \<le> w)) \<and> snd w = i"
        by (intro exI [of _ g] exI [of _ "op_rank pr z"]) auto
    qed auto
    also have "\<dots> \<longleftrightarrow> (\<exists>g. gk x = Some g
        \<and> (\<forall>y\<in>set (oplog_order l). gk y = Some g \<longrightarrow> op_rank pr y \<le> op_rank pr x))"
      using only by (intro iffI; elim exE bexE conjE) (blast, blast)
    also have "\<dots> \<longleftrightarrow> gk x \<noteq> None
        \<and> (\<forall>y\<in>set (oplog_order l). gk y = gk x \<longrightarrow> op_rank pr y \<le> op_rank pr x)"
      by auto
    finally show ?thesis .
  qed
  show ?thesis
  proof (cases "btree_get (ops l) i = Some x")
    case True
    then show ?thesis
      using won kept by (auto simp: reclaim_kept_def st get_fold_reclaim_keep)
  next
    case False
    then show ?thesis
      using kept by (auto simp: reclaim_kept_def st get_fold_reclaim_keep)
  qed
qed

text \<open>
  The trait \<open>ReclaimPolicy\<close>: its documented law is that the byte order of
  \<open>priority\<close> is the order by which the caller's own fold picks a winner
  (\<open>beats\<close>).
\<close>

locale reclaim_policy =
  fixes group_key :: "op \<Rightarrow> bytes option"
    and priority :: "op \<Rightarrow> bytes"
    and beats :: "op \<Rightarrow> op \<Rightarrow> bool"
  assumes priority_beats:
    "group_key x = Some g \<Longrightarrow> group_key y = Some g \<Longrightarrow> beats x y \<longleftrightarrow> priority y < priority x"
begin

lemma unbeaten_kept:
  assumes wf: "oplog_wf sha l" and x: "btree_get (ops l) i = Some x" and g: "group_key x = Some g"
    and best: "\<And>y. y \<in> set (oplog_order l) \<Longrightarrow> group_key y = Some g \<Longrightarrow> y \<noteq> x \<Longrightarrow> beats x y"
  shows "btree_get (reclaim_kept group_key priority l) i = Some x"
  using x g best priority_beats [OF g]
  by (force simp: get_reclaim_kept [OF wf] op_rank_def less_imp_le)

lemma kept_unbeaten:
  assumes wf: "oplog_wf sha l" and x: "btree_get (reclaim_kept group_key priority l) i = Some x"
    and g: "group_key x = Some g" and y: "y \<in> set (oplog_order l)" "group_key y = Some g"
  shows "\<not> beats y x"
  using x y g priority_beats [OF y(2) g]
  by (auto simp: get_reclaim_kept [OF wf] op_rank_def)

lemma kept_dominates:
  assumes wf: "oplog_wf sha l" and x: "x \<in> set (oplog_order l)" "group_key x = Some g"
  obtains y i where "btree_get (reclaim_kept group_key priority l) i = Some y"
    "y \<in> set (oplog_order l)" "group_key y = Some g" "\<not> beats x y"
proof -
  let ?G = "{y \<in> set (oplog_order l). group_key y = Some g}"
  have fin: "finite (op_rank priority ` ?G)" and ne: "op_rank priority ` ?G \<noteq> {}" using x by auto
  from Max_in [OF fin ne] obtain y
    where y: "y \<in> ?G" "Max (op_rank priority ` ?G) = op_rank priority y" by blast
  have best: "op_rank priority z \<le> op_rank priority y" if "z \<in> ?G" for z
    using Max_ge [OF fin imageI [OF that]] y(2) by simp
  obtain i where i: "btree_get (ops l) i = Some y" using y by (auto simp: oplog_order_iff)
  have "btree_get (reclaim_kept group_key priority l) i = Some y"
    using i y(1) best by (simp add: get_reclaim_kept [OF wf])
  moreover have "\<not> beats x y"
    using kept_unbeaten [OF wf calculation] y(1) x by blast
  ultimately show thesis using that y(1) by blast
qed

end

text \<open>
  The first loop asks for the priority of an op only after the policy gave it a group, so the
  priority function need not be defined elsewhere.
\<close>

lemma compact_reclaiming_priority_cong:
  assumes "\<And>x. group_key x \<noteq> None \<Longrightarrow> priority x = priority' x"
  shows "oplog_compact_reclaiming sha group_key priority l =
    oplog_compact_reclaiming sha group_key priority' l"
proof -
  have "reclaim_step group_key priority = reclaim_step group_key priority'"
    using assms by (auto simp: reclaim_step_def fun_eq_iff split: option.splits prod.splits)
  then show ?thesis by (simp add: oplog_compact_reclaiming_def reclaim_kept_def)
qed

section \<open>Runs of a replica\<close>

text \<open>What happens to a replica's log: a local append, a gossip merge, an op received in a tail.\<close>

datatype log_event = AppendEv bytes | MergeEv oplog

fun log_exec :: "sha256 \<Rightarrow> oplog \<Rightarrow> log_event \<Rightarrow> oplog" where
  "log_exec sha l (AppendEv p) = snd (oplog_append sha l p)"
| "log_exec sha l (MergeEv m) = oplog_merge l m"

lemma log_exec_mono: "btree_get (ops l) i = Some x \<Longrightarrow> btree_get (ops (log_exec sha l e)) i = Some x"
  by (cases e) (auto simp: get_oplog_append get_oplog_merge)

lemma log_run_mono:
  "btree_get (ops l) i = Some x \<Longrightarrow> btree_get (ops (foldl (log_exec sha) l es)) i = Some x"
  by (induction es arbitrary: l) (auto intro: log_exec_mono)

lemma oplog_wf_log_run:
  assumes "oplog_wf sha l" "\<And>m. MergeEv m \<in> set es \<Longrightarrow> oplog_wf sha m"
  shows "oplog_wf sha (foldl (log_exec sha) l es)"
  using assms
proof (induction es arbitrary: l)
  case (Cons e es)
  then have "oplog_wf sha (log_exec sha l e)" by (cases e) (auto intro: wf_intros)
  with Cons show ?case by auto
qed simp

lemma get_append_self:
  assumes "oplog_wf sha l" "inj_on sha (insert p (oplog_payloads l))"
  shows "btree_get (ops (snd (oplog_append sha l p))) (content_address sha p) = Some (op_new sha p)"
proof (cases "btree_get (ops l) (content_address sha p)")
  case None
  then show ?thesis by (simp add: get_oplog_append)
next
  case (Some x)
  have "sha p = sha (op_payload x)"
    using oplog_wfD(2) [OF assms(1) Some] by simp
  then have "p = op_payload x"
    by (rule inj_onD [OF assms(2)]) (use Some oplog_payloads_iff in auto)
  then show ?thesis using Some oplog_wfD(3) [OF assms(1) Some] by (simp add: get_oplog_append)
qed

lemma payloads_append_subset:
  "oplog_payloads (snd (oplog_append sha l p)) \<subseteq> insert p (oplog_payloads l)"
  unfolding subset_iff oplog_payloads_iff insert_iff get_oplog_append
  by (auto simp: op_new_def split: if_splits)

lemma oplog_payloads_append:
  assumes "oplog_wf sha l" "inj_on sha (insert p (oplog_payloads l))"
  shows "oplog_payloads (snd (oplog_append sha l p)) = insert p (oplog_payloads l)"
proof -
  have "p \<in> oplog_payloads (snd (oplog_append sha l p))"
    using get_append_self [OF assms] by (force simp: oplog_payloads_iff op_new_def)
  moreover have "oplog_payloads l \<subseteq> oplog_payloads (snd (oplog_append sha l p))"
    unfolding subset_iff oplog_payloads_iff get_oplog_append by (metis option.distinct(1))
  ultimately show ?thesis using payloads_append_subset [of sha l p] by blast
qed

lemma payloads_merge_left: "oplog_payloads l \<subseteq> oplog_payloads (oplog_merge l m)"
  unfolding subset_iff oplog_payloads_iff get_oplog_merge by (metis option.simps(5))

lemma oplog_payloads_merge:
  assumes "oplog_agree l m"
  shows "oplog_payloads (oplog_merge l m) = oplog_payloads l \<union> oplog_payloads m"
  using oplog_payloads_merge_subset [of l m] payloads_merge_left [of l m]
    payloads_merge_left [of m l] gossip.merge_comm [OF assms] by auto

lemma bootstrap_compact_appends:
  "oplog_bootstrap (oplog_compact sha l) (map (op_new sha) ps) =
     foldl (\<lambda>l p. snd (oplog_append sha l p)) l ps"
proof -
  have step: "btree_or_insert (op_id (op_new sha p)) (op_new sha p) (ops l) =
      ops (snd (oplog_append sha l p))" for p and l :: oplog
    by (simp add: oplog_append_def Let_def)
  have "fold (\<lambda>x. btree_or_insert (op_id x) x) (map (op_new sha) ps) (ops l) =
      ops (foldl (\<lambda>l p. snd (oplog_append sha l p)) l ps)" for l :: oplog
    by (induction ps arbitrary: l) (simp_all add: step)
  then show ?thesis by (simp add: oplog_bootstrap_def oplog_compact_def snapshot_new_def)
qed

lemma get_bootstrap:
  "btree_get (ops (oplog_bootstrap s tail)) i =
     (case btree_get (snap_ops s) i of Some x \<Rightarrow> Some x
      | None \<Rightarrow> map_of (map (\<lambda>x. (op_id x, x)) tail) i)"
proof -
  have "btree_get (fold (\<lambda>x. btree_or_insert (op_id x) x) tail m) i =
      (case btree_get m i of Some x \<Rightarrow> Some x | None \<Rightarrow> map_of (map (\<lambda>x. (op_id x, x)) tail) i)"
    for m
    by (induction tail arbitrary: m) (auto simp: btree_get_or_insert split: option.splits)
  then show ?thesis by (simp add: oplog_bootstrap_def)
qed

lemma map_of_order:
  assumes "oplog_wf sha l"
  shows "map_of (map (\<lambda>x. (op_id x, x)) (oplog_order l)) i = btree_get (ops l) i"
proof -
  have "map (\<lambda>x. (op_id x, x)) (oplog_order l) = btree_iter (ops l)"
    unfolding oplog_order_def btree_values_def map_map comp_def
    by (rule map_idI) (use oplog_wfD(1) [OF assms] btree_iter_iff in fastforce)
  then show ?thesis by (simp add: btree_get_def)
qed

section \<open>Properties\<close>

text \<open>A digest for the witnesses: 32 bytes, injective on short inputs.\<close>

definition demo_sha :: sha256 where
  "demo_sha bs = take 32 (of_nat (length bs) # bs @ replicate 32 0)"

definition demo_log :: "bytes list \<Rightarrow> oplog" where
  "demo_log ps = foldl (\<lambda>l p. snd (oplog_append demo_sha l p)) oplog_new ps"

lemma oplog_wf_demo: "oplog_wf demo_sha (demo_log ps)"
proof -
  have "oplog_wf demo_sha l \<Longrightarrow> oplog_wf demo_sha (foldl (\<lambda>l p. snd (oplog_append demo_sha l p)) l ps)"
    for l by (induction ps arbitrary: l) (auto intro: wf_intros)
  then show ?thesis by (simp add: demo_log_def wf_intros)
qed

lemma payloads_demo: "oplog_payloads (demo_log ps) \<subseteq> set ps"
proof -
  have "oplog_payloads (foldl (\<lambda>l p. snd (oplog_append demo_sha l p)) l ps) \<subseteq> oplog_payloads l \<union> set ps"
    for l
    using payloads_append_subset by (induction ps arbitrary: l) fastforce+
  from this [of oplog_new] show ?thesis
    by (auto simp: demo_log_def oplog_payloads_iff)
qed

lemma demo_sha_inj: "inj_on demo_sha {bs. length bs < 32}"
proof (rule inj_onI, simp)
  fix xs ys :: bytes
  assume len: "length xs < 32" "length ys < 32" and eq: "demo_sha xs = demo_sha ys"
  have hd: "(of_nat (length xs) :: u8) = of_nat (length ys)"
    using eq by (simp add: demo_sha_def)
  have "unat (of_nat (length zs) :: u8) = length zs" if "length zs < 32" for zs :: bytes
    using that by (simp add: unat_of_nat)
  with hd len have same: "length xs = length ys" by metis
  have "take 31 (xs @ replicate 32 0) = take 31 (ys @ replicate 32 0)"
    using eq by (simp add: demo_sha_def)
  then have "take (length xs) (take 31 (xs @ replicate 32 0))
      = take (length ys) (take 31 (ys @ replicate 32 0))"
    using same by simp
  then show "xs = ys" using len by (simp add: min_def)
qed

lemma contains_merged:
  "oplog_contains (foldl oplog_merge l xs) i \<longleftrightarrow> (\<exists>m\<in>insert l (set xs). oplog_contains m i)"
proof (induction xs arbitrary: l)
  case (Cons m xs)
  have "oplog_contains (oplog_merge l m) i \<longleftrightarrow> oplog_contains l i \<or> oplog_contains m i"
    by (simp add: oplog_contains_def btree_contains_key_def get_oplog_merge split: option.split)
  then show ?case using Cons [of "oplog_merge l m"] by simp
qed simp

text \<open>
  \<^bold>\<open>C2.\<close> Gossip convergence: replicas that start from one log and receive the same set of
  logs, in any order and with any repetition, hold the same log, the same materialized order and
  the same Merkle root, provided the digest has no collision on the payloads involved. They hold
  exactly the ops of the first log and of all the logs received.
\<close>

theorem replicas_converge:
  assumes "oplog_wf sha l" "\<And>m. m \<in> set xs \<Longrightarrow> oplog_wf sha m"
    and "inj_on sha (oplog_payloads l \<union> (\<Union>m\<in>set xs. oplog_payloads m))"
    and "set ys = set xs"
  shows "foldl oplog_merge l xs = foldl oplog_merge l ys
    \<and> oplog_order (foldl oplog_merge l xs) = oplog_order (foldl oplog_merge l ys)
    \<and> oplog_root sha (foldl oplog_merge l xs) = oplog_root sha (foldl oplog_merge l ys)
    \<and> (oplog_contains (foldl oplog_merge l xs) i \<longleftrightarrow> (\<exists>m\<in>insert l (set xs). oplog_contains m i))"
proof -
  have "oplog_agree x y" if "x \<in> insert l (set xs)" "y \<in> insert l (set xs)" for x y
    using that assms(1,2) by (intro wf_logs_agree [of sha] inj_on_subset [OF assms(3)]) auto
  from gossip.delivery_converges [OF this assms(4)] show ?thesis using contains_merged [of l xs i] by simp
qed

theorem replicas_converge_witness:
  "foldl oplog_merge (demo_log [[1]]) [demo_log [[2], [3]], demo_log [[4]]]
   = foldl oplog_merge (demo_log [[1]]) [demo_log [[4]], demo_log [[2], [3]], demo_log [[4]]]"
proof -
  let ?a = "demo_log [[1]]" and ?b = "demo_log [[2], [3]]" and ?c = "demo_log [[4]]"
  have "oplog_payloads ?a \<union> (\<Union>m\<in>set [?b, ?c]. oplog_payloads m) \<subseteq> {[1], [2], [3], [4]}"
    using payloads_demo [of "[[1]]"] payloads_demo [of "[[2], [3]]"] payloads_demo [of "[[4]]"] by auto
  then have inj: "inj_on demo_sha (oplog_payloads ?a \<union> (\<Union>m\<in>set [?b, ?c]. oplog_payloads m))"
    by (intro inj_on_subset [OF demo_sha_inj]) auto
  have "oplog_wf demo_sha m" if "m \<in> set [?b, ?c]" for m
    using that oplog_wf_demo by auto
  from replicas_converge [OF oplog_wf_demo this inj, of "[?c, ?b, ?c]"] show ?thesis by auto
qed

text \<open>
  The Merkle root commits to the op set: two logs with the same root hold exactly the
  same content addresses, provided the digest has no collision on the inputs the two folds hash
  and content addresses are 34 bytes wide.
\<close>

theorem root_commits_to_op_set:
  assumes "inj_on sha (root_inputs sha (oplog_order l) \<union> root_inputs sha (oplog_order m))"
    and "\<And>x. x \<in> set (oplog_order l) \<union> set (oplog_order m) \<Longrightarrow> length (op_id x) = 34"
    and "oplog_wf sha l" "oplog_wf sha m"
    and "oplog_root sha l = oplog_root sha m"
  shows "oplog_ids l = oplog_ids m"
proof -
  have ids: "oplog_ids k = map op_id (oplog_order k)" if "oplog_wf sha k" for k
    unfolding oplog_ids_def btree_keys_def oplog_order_def btree_values_def map_map comp_def
    by (rule map_cong) (use oplog_wfD(1) [OF that] btree_iter_iff in fastforce)+
  show ?thesis
    using fold_root_inject [OF assms(1,2)] assms(3-5) by (simp add: ids oplog_root_def)
qed

theorem root_commits_to_op_set_witness:
  "oplog_ids (demo_log [[1], [2]]) = oplog_ids (demo_log [[2], [1]])"
proof -
  have eq: "demo_log [[1], [2]] = demo_log [[2], [1]]" by code_simp
  let ?l = "demo_log [[1], [2]]"
  have one: "root_inputs demo_sha (oplog_order ?l) = {root_tag,
      demo_sha root_tag @ content_address demo_sha [1],
      demo_sha (demo_sha root_tag @ content_address demo_sha [1]) @ content_address demo_sha [2]}"
    by code_simp
  have order: "oplog_order ?l = [op_new demo_sha [1], op_new demo_sha [2]]" by code_simp
  have "inj_on demo_sha (root_inputs demo_sha (oplog_order ?l) \<union> root_inputs demo_sha (oplog_order ?l))"
    unfolding one by code_simp
  moreover have "length (op_id x) = 34" if "x \<in> set (oplog_order ?l) \<union> set (oplog_order ?l)" for x
    using that by (auto simp: order op_new_def content_address_def demo_sha_def)
  ultimately show ?thesis
    using root_commits_to_op_set [of demo_sha ?l "demo_log [[2], [1]]"] oplog_wf_demo eq by simp
qed

text \<open>
  No lost write: once an op is in a replica's log, no sequence of appends and merges
  removes or changes it; and a payload that is appended is stored, under its content address, and
  stays readable, when the digest has no collision on the payloads of that log.
\<close>

theorem no_lost_write:
  assumes "oplog_wf sha l" "inj_on sha (insert p (oplog_payloads l))"
  shows "btree_get (ops (foldl (log_exec sha) l (AppendEv p # es))) (content_address sha p)
       = Some (op_new sha p)
    \<and> (\<forall>i x. btree_get (ops l) i = Some x
         \<longrightarrow> btree_get (ops (foldl (log_exec sha) l (AppendEv p # es))) i = Some x)"
  using get_append_self [OF assms] log_run_mono log_exec_mono [where e = "AppendEv p"]
  by simp

theorem no_lost_write_witness:
  "btree_get (ops (foldl (log_exec demo_sha) (demo_log [[1]])
      [AppendEv [2], MergeEv (demo_log [[3]]), AppendEv [1]])) (content_address demo_sha [2])
   = Some (op_new demo_sha [2])"
proof -
  have "inj_on demo_sha (insert [2] (oplog_payloads (demo_log [[1]])))"
    using payloads_demo [of "[[1]]"] by (intro inj_on_subset [OF demo_sha_inj]) auto
  from no_lost_write [OF oplog_wf_demo this] show ?thesis by blast
qed

text \<open>
  \<^bold>\<open>C3.\<close> Bootstrapping is replay: a snapshot of a log is accepted by the schema check,
  carries the log's root, and bootstrapping from it with the ops appended since gives exactly the
  log of a peer that appended every payload itself.
\<close>

theorem bootstrap_is_replay:
  "snap_root (oplog_compact sha l) = oplog_root sha l
   \<and> oplog_bootstrap_checked (oplog_compact sha l) (map (op_new sha) ps)
       = Inr (foldl (\<lambda>l p. snd (oplog_append sha l p)) l ps)"
  by (simp add: oplog_bootstrap_checked_def snapshot_check_schema_version_def
      oplog_compact_def snapshot_new_def schema_version_min_def schema_version_current_def
      check_supported_def flip: bootstrap_compact_appends)

text \<open>
  A snapshot stamped with any other schema version is refused by
  \<open>bootstrap_checked\<close> with \<open>Unsupported\<close> and the stamp, never as malformed, and one
  with the current stamp is never refused.
\<close>

theorem bootstrap_checks_schema:
  "oplog_bootstrap_checked s tail =
     (if snap_schema_version s = 1 then Inr (oplog_bootstrap s tail)
      else Inl (UnsupportedSnapshot (Unsupported (snap_schema_version s) 1 1)))"
proof -
  have "\<not> (v < 1 \<or> v > 1) \<longleftrightarrow> v = 1" for v :: u16 by (meson less_irrefl neqE)
  then show ?thesis
    by (auto simp: oplog_bootstrap_checked_def snapshot_check_schema_version_def
        check_supported_def schema_version_min_def schema_version_current_def)
qed

text \<open>
  Admission: \<open>Stream::try_append\<close> refuses exactly an exclusive effect on a
  stream declared relaxed, leaving the stream alone, and otherwise appends; a stream with no
  declared policy is strict and refuses nothing.
\<close>

theorem stream_admission:
  "stream_try_append sha s p eff =
     (if stream_policy s = Some Relaxed \<and> eff = Exclusive
      then Inl (PolicyViolation Relaxed Exclusive)
      else Inr (content_address sha p, s\<lparr>stream_log := snd (oplog_append sha (stream_log s) p)\<rparr>))"
proof -
  have "oplog_append sha l p = (content_address sha p, snd (oplog_append sha l p))" for l
    by (simp add: oplog_append_def op_new_def Let_def)
  then have "(case oplog_append sha l p of (i, l') \<Rightarrow> f i l') =
      f (content_address sha p) (snd (oplog_append sha l p))" for l and f :: "_ \<Rightarrow> _ \<Rightarrow> _ + _"
    by (metis case_prod_conv)
  then show ?thesis
    by (cases eff; cases "stream_policy s"; cases "the (stream_policy s)")
      (auto simp: stream_try_append_def stream_effective_policy_def default_policy_def Let_def)
qed

text \<open>
  Reclaiming compaction, whatever the policy: an op survives exactly when the policy
  gives it no group, or no op of its group has a greater \<open>(priority, id)\<close>; surviving ops
  are unchanged.
\<close>

theorem compact_reclaiming_keeps_winners:
  assumes "oplog_wf sha l"
  shows "btree_get (snap_ops (oplog_compact_reclaiming sha gk pr l)) i = Some x \<longleftrightarrow>
     btree_get (ops l) i = Some x
     \<and> (gk x = None
        \<or> (\<forall>y\<in>set (oplog_order l). gk y = gk x \<longrightarrow> (pr y, op_id y) \<le> (pr x, op_id x)))"
  using get_reclaim_kept [OF assms, of gk pr i x]
  by (simp add: oplog_compact_reclaiming_def Let_def snapshot_new_def op_rank_def)

theorem compact_reclaiming_keeps_winners_witness:
  "btree_get (snap_ops (oplog_compact_reclaiming demo_sha (\<lambda>_. Some []) op_payload (demo_log [[1], [2]])))
     (content_address demo_sha [2]) = Some (op_new demo_sha [2])"
proof -
  have get: "btree_get (ops (demo_log [[1], [2]])) (content_address demo_sha [2])
      = Some (op_new demo_sha [2])" by code_simp
  have order: "oplog_order (demo_log [[1], [2]]) = [op_new demo_sha [1], op_new demo_sha [2]]"
    by code_simp
  show ?thesis
    using compact_reclaiming_keeps_winners [OF oplog_wf_demo, of "\<lambda>_. Some []" op_payload
        "[[1], [2]]" "content_address demo_sha [2]" "op_new demo_sha [2]"] get
    by (simp add: order op_new_def)
qed

lemma to_digit16_hex_digit: "n < 16 \<Longrightarrow> to_digit16 (hex_digit n) = Some n"
proof -
  have "list_all (\<lambda>n. to_digit16 (hex_digit n) = Some n) [0..<16]" by code_simp
  then show "n < 16 \<Longrightarrow> ?thesis" by (simp add: list_all_iff)
qed

lemma from_hex_loop_to_hex: "from_hex_loop (op_id_to_hex bs) = Some bs"
proof (induction bs)
  case Nil
  then show ?case by (simp add: op_id_to_hex_def)
next
  case (Cons b bs)
  have "unat b < 256" using unsigned_less [of b] by simp
  then have "to_digit16 (hex_digit (unat b div 16)) = Some (unat b div 16)"
    "to_digit16 (hex_digit (unat b mod 16)) = Some (unat b mod 16)"
    by (simp_all add: to_digit16_hex_digit)
  moreover have "of_nat (16 * (unat b div 16) + unat b mod 16) = b" by simp
  ultimately show ?case using Cons by (simp add: op_id_to_hex_def)
qed

lemma length_op_id_to_hex: "length (op_id_to_hex bs) = 2 * length bs"
  by (induction bs) (simp_all add: op_id_to_hex_def)

text \<open>
  Hex round trip: every non-empty content address is read back from its lowercase
  hex form, and the empty one, whose form is the empty string, is not.
\<close>

theorem op_id_hex_roundtrip:
  "op_id_from_hex (op_id_to_hex bs) = (if bs = [] then None else Some bs)"
  using length_op_id_to_hex [of bs] from_hex_loop_to_hex [of bs]
  by (auto simp: op_id_from_hex_def op_id_to_hex_def)

end
