(* ===== verification/KeyedStore.thy ===== *)
theory KeyedStore
  imports StreamDb
begin

text \<open>
  \<^verbatim>\<open>crates/pillar-keyedstore/src/lib.rs\<close>: the key/value and document surfaces, one
  last-writer-wins fold over the op-log.

  \<open>serde_json\<close> is a parameter: \<open>enc\<close> serializes a keyed op, \<open>dec\<close>
  parses a payload and fails on anything else. Facts about a write assume that the op at hand
  is parsed back, \<open>dec (enc k) = Some k\<close>. Strings are their UTF-8 bytes.
\<close>

section \<open>Stamps, values and ops\<close>

record hlc =
  hlc_physical :: u64
  hlc_logical :: u64
  hlc_author :: string

definition hlc_new :: "u64 \<Rightarrow> u64 \<Rightarrow> string \<Rightarrow> hlc" where
  "hlc_new p l a = \<lparr>hlc_physical = p, hlc_logical = l, hlc_author = a\<rparr>"

definition happens_after :: "hlc \<Rightarrow> hlc \<Rightarrow> bool" where
  "happens_after h g \<longleftrightarrow>
     (hlc_physical h, hlc_logical h, hlc_author h) > (hlc_physical g, hlc_logical g, hlc_author g)"

text \<open>A nested value is the list of its fields, in the order of the \<open>BTreeMap\<close>.\<close>

datatype kvalue = Scalar bytes | Nested "(string \<times> kvalue) list"

text \<open>\<open>str::split\<close>: never empty, and one piece more than there are separators.\<close>

fun split_dot :: "string \<Rightarrow> string list" where
  "split_dot [] = [[]]"
| "split_dot (c # s) =
     (if c = CHR ''.'' then [] # split_dot s
      else (case split_dot s of [] \<Rightarrow> [[c]] | seg # segs \<Rightarrow> (c # seg) # segs))"

fun get_segments :: "kvalue \<Rightarrow> string list \<Rightarrow> kvalue option" where
  "get_segments v [] = Some v"
| "get_segments (Nested m) (seg # segs) =
     (case map_of m seg of None \<Rightarrow> None | Some v \<Rightarrow> get_segments v segs)"
| "get_segments (Scalar _) (seg # segs) = None"

definition get_path :: "kvalue \<Rightarrow> string \<Rightarrow> kvalue option" where
  "get_path v path = (if path = [] then Some v else get_segments v (split_dot path))"

definition kv_field :: string where
  "kv_field = []"

datatype op_kind = Put kvalue | Tomb

record keyed_op =
  ko_collection :: string
  ko_id :: string
  ko_field :: string
  ko_hlc :: hlc
  ko_kind :: op_kind

type_synonym encoder = "keyed_op \<Rightarrow> bytes"
type_synonym decoder = "bytes \<Rightarrow> keyed_op option"

section \<open>The store\<close>

record keyed_store =
  ks_log :: oplog

definition keyed_store_new :: keyed_store where
  "keyed_store_new = \<lparr>ks_log = oplog_new\<rparr>"

definition keyed_store_from_log :: "oplog \<Rightarrow> keyed_store" where
  "keyed_store_from_log l = \<lparr>ks_log = l\<rparr>"

definition keyed_store_merge :: "keyed_store \<Rightarrow> keyed_store \<Rightarrow> keyed_store" where
  "keyed_store_merge s t = s\<lparr>ks_log := oplog_merge (ks_log s) (ks_log t)\<rparr>"

text \<open>\<open>filter_map(|op| KeyedOp::decode(op.payload()))\<close> over the log, in its order.\<close>

definition decoded_ops :: "decoder \<Rightarrow> keyed_store \<Rightarrow> keyed_op list" where
  "decoded_ops dec s = List.map_filter (\<lambda>x. dec (op_payload x)) (oplog_order (ks_log s))"

definition ops_for :: "decoder \<Rightarrow> keyed_store \<Rightarrow> string \<Rightarrow> string \<Rightarrow> string \<Rightarrow> keyed_op list" where
  "ops_for dec s collection i field =
     filter (\<lambda>k. ko_collection k = collection \<and> ko_id k = i \<and> ko_field k = field) (decoded_ops dec s)"

definition winner_step :: "keyed_op \<Rightarrow> keyed_op option \<Rightarrow> keyed_op option" where
  "winner_step k best =
     (case best of
        Some b \<Rightarrow> if \<not> happens_after (ko_hlc k) (ko_hlc b) then best else Some k
      | None \<Rightarrow> Some k)"

definition winner :: "decoder \<Rightarrow> keyed_store \<Rightarrow> string \<Rightarrow> string \<Rightarrow> string \<Rightarrow> keyed_op option" where
  "winner dec s collection i field = fold winner_step (ops_for dec s collection i field) None"

definition field_value :: "decoder \<Rightarrow> keyed_store \<Rightarrow> string \<Rightarrow> string \<Rightarrow> string \<Rightarrow> kvalue option" where
  "field_value dec s collection i field =
     (case winner dec s collection i field of
        None \<Rightarrow> None
      | Some k \<Rightarrow> (case ko_kind k of Put v \<Rightarrow> Some v | Tomb \<Rightarrow> None))"

definition append_op :: "encoder \<Rightarrow> sha256 \<Rightarrow> keyed_store \<Rightarrow> keyed_op \<Rightarrow> op_id \<times> keyed_store" where
  "append_op enc sha s k =
     (case oplog_append sha (ks_log s) (enc k) of (i, l) \<Rightarrow> (i, s\<lparr>ks_log := l\<rparr>))"

definition kv_put ::
  "encoder \<Rightarrow> sha256 \<Rightarrow> keyed_store \<Rightarrow> string \<Rightarrow> string \<Rightarrow> bytes \<Rightarrow> hlc \<Rightarrow> op_id \<times> keyed_store" where
  "kv_put enc sha s collection key v h =
     append_op enc sha s \<lparr>ko_collection = collection, ko_id = key, ko_field = kv_field,
       ko_hlc = h, ko_kind = Put (Scalar v)\<rparr>"

definition kv_delete ::
  "encoder \<Rightarrow> sha256 \<Rightarrow> keyed_store \<Rightarrow> string \<Rightarrow> string \<Rightarrow> hlc \<Rightarrow> op_id \<times> keyed_store" where
  "kv_delete enc sha s collection key h =
     append_op enc sha s \<lparr>ko_collection = collection, ko_id = key, ko_field = kv_field,
       ko_hlc = h, ko_kind = Tomb\<rparr>"

definition kv_get :: "decoder \<Rightarrow> keyed_store \<Rightarrow> string \<Rightarrow> string \<Rightarrow> bytes option" where
  "kv_get dec s collection key =
     (case field_value dec s collection key kv_field of
        None \<Rightarrow> None
      | Some (Scalar v) \<Rightarrow> Some v
      | Some (Nested _) \<Rightarrow> None)"

text \<open>\<open>sort\<close> and then \<open>dedup\<close>, which drops adjacent repetitions.\<close>

definition sort_dedup :: "string list \<Rightarrow> string list" where
  "sort_dedup xs = remdups_adj (sort xs)"

definition kv_keys :: "decoder \<Rightarrow> keyed_store \<Rightarrow> string \<Rightarrow> string list" where
  "kv_keys dec s collection =
     filter (\<lambda>i. kv_get dec s collection i \<noteq> None)
       (sort_dedup (map ko_id
         (filter (\<lambda>k. ko_collection k = collection \<and> ko_field k = kv_field) (decoded_ops dec s))))"

definition keyed_collections :: "decoder \<Rightarrow> keyed_store \<Rightarrow> string list" where
  "keyed_collections dec s = sort_dedup (map ko_collection (decoded_ops dec s))"

definition doc_put_field ::
  "encoder \<Rightarrow> sha256 \<Rightarrow> keyed_store \<Rightarrow> string \<Rightarrow> string \<Rightarrow> string \<Rightarrow> kvalue \<Rightarrow> hlc
     \<Rightarrow> op_id \<times> keyed_store" where
  "doc_put_field enc sha s collection i field v h =
     append_op enc sha s \<lparr>ko_collection = collection, ko_id = i, ko_field = field,
       ko_hlc = h, ko_kind = Put v\<rparr>"

definition doc_delete_field ::
  "encoder \<Rightarrow> sha256 \<Rightarrow> keyed_store \<Rightarrow> string \<Rightarrow> string \<Rightarrow> string \<Rightarrow> hlc
     \<Rightarrow> op_id \<times> keyed_store" where
  "doc_delete_field enc sha s collection i field h =
     append_op enc sha s \<lparr>ko_collection = collection, ko_id = i, ko_field = field,
       ko_hlc = h, ko_kind = Tomb\<rparr>"

definition doc_get_field :: "decoder \<Rightarrow> keyed_store \<Rightarrow> string \<Rightarrow> string \<Rightarrow> string \<Rightarrow> kvalue option" where
  "doc_get_field dec s collection i field = field_value dec s collection i field"

definition doc_fields :: "decoder \<Rightarrow> keyed_store \<Rightarrow> string \<Rightarrow> string \<Rightarrow> string list" where
  "doc_fields dec s collection i =
     filter (\<lambda>f. field_value dec s collection i f \<noteq> None)
       (sort_dedup (map ko_field
         (filter (\<lambda>k. ko_collection k = collection \<and> ko_id k = i) (decoded_ops dec s))))"

definition doc_ids :: "decoder \<Rightarrow> keyed_store \<Rightarrow> string \<Rightarrow> string list" where
  "doc_ids dec s collection =
     filter (\<lambda>i. doc_fields dec s collection i \<noteq> [])
       (sort_dedup (map ko_id (filter (\<lambda>k. ko_collection k = collection) (decoded_ops dec s))))"

text \<open>\<open>str::split_once\<close> at the first dot.\<close>

definition split_once_dot :: "string \<Rightarrow> (string \<times> string) option" where
  "split_once_dot s =
     (if CHR ''.'' \<in> set s
      then Some (takeWhile (\<lambda>c. c \<noteq> CHR ''.'') s, drop 1 (dropWhile (\<lambda>c. c \<noteq> CHR ''.'') s))
      else None)"

definition doc_query :: "decoder \<Rightarrow> keyed_store \<Rightarrow> string \<Rightarrow> string \<Rightarrow> string \<Rightarrow> kvalue option" where
  "doc_query dec s collection i field_path =
     (case (case split_once_dot field_path of Some tr \<Rightarrow> tr | None \<Rightarrow> (field_path, [])) of
        (head_seg, rest) \<Rightarrow>
          (case field_value dec s collection i head_seg of
             None \<Rightarrow> None
           | Some v \<Rightarrow> get_path v rest))"

section \<open>Reclaiming compaction of a store\<close>

definition group_part :: "string \<Rightarrow> bytes" where
  "group_part s = u64_to_be_bytes (of_nat (length (as_bytes s))) @ as_bytes s"

definition keyed_group_key :: "decoder \<Rightarrow> op \<Rightarrow> bytes option" where
  "keyed_group_key dec x =
     (case dec (op_payload x) of
        None \<Rightarrow> None
      | Some k \<Rightarrow>
          Some (concat (map group_part [ko_collection k, ko_id k, ko_field k])))"

definition hlc_priority :: "hlc \<Rightarrow> bytes" where
  "hlc_priority h =
     u64_to_be_bytes (hlc_physical h) @ u64_to_be_bytes (hlc_logical h) @ as_bytes (hlc_author h)"

text \<open>
  Where the payload does not decode the code panics; the compaction never asks there
  (\<open>compact_reclaiming_priority_cong\<close>).
\<close>

definition keyed_priority :: "decoder \<Rightarrow> op \<Rightarrow> bytes" where
  "keyed_priority dec x =
     (case dec (op_payload x) of Some k \<Rightarrow> hlc_priority (ko_hlc k) | None \<Rightarrow> [])"

definition keyed_compact_reclaiming :: "decoder \<Rightarrow> sha256 \<Rightarrow> keyed_store \<Rightarrow> snapshot" where
  "keyed_compact_reclaiming dec sha s =
     oplog_compact_reclaiming sha (keyed_group_key dec) (keyed_priority dec) (ks_log s)"

definition keyed_bootstrap :: "snapshot \<Rightarrow> op list \<Rightarrow> keyed_store" where
  "keyed_bootstrap sn tail = keyed_store_from_log (oplog_bootstrap sn tail)"

section \<open>The order of stamps\<close>

definition hlc_key :: "hlc \<Rightarrow> u64 \<times> u64 \<times> string" where
  "hlc_key h = (hlc_physical h, hlc_logical h, hlc_author h)"

lemma happens_after_key: "happens_after h g \<longleftrightarrow> hlc_key g < hlc_key h"
  by (simp add: happens_after_def hlc_key_def)

lemma hlc_key_inject: "hlc_key h = hlc_key g \<longleftrightarrow> h = (g :: hlc)"
  by (cases h; cases g) (simp add: hlc_key_def)

lemma happens_after_irrefl [simp]: "\<not> happens_after h h"
  by (simp add: happens_after_key)

lemma happens_after_trans: "happens_after h g \<Longrightarrow> happens_after g k \<Longrightarrow> happens_after h k"
  by (simp add: happens_after_key)

lemma happens_after_total: "h = g \<or> happens_after h g \<or> happens_after g h"
  by (metis happens_after_key hlc_key_inject less_linear)

lemma not_happens_after: "\<not> happens_after h g \<longleftrightarrow> g = h \<or> happens_after g h"
  by (metis happens_after_key hlc_key_inject order.asym less_linear)

text \<open>The byte string that compaction ranks ops by is ordered as the stamps are.\<close>

lemma hlc_priority_less: "hlc_priority g < hlc_priority h \<longleftrightarrow> happens_after h g"
  by (auto simp: hlc_priority_def happens_after_def lex_append_same_length)

section \<open>The ops of a field\<close>

lemma set_decoded_ops:
  "set (decoded_ops dec s) = {k. \<exists>p\<in>oplog_payloads (ks_log s). dec p = Some k}"
  by (force simp: decoded_ops_def List.map_filter_def oplog_payloads_def image_iff)

lemma set_ops_for:
  "set (ops_for dec s c i f) =
     {k. (\<exists>p\<in>oplog_payloads (ks_log s). dec p = Some k)
         \<and> ko_collection k = c \<and> ko_id k = i \<and> ko_field k = f}"
  by (simp add: ops_for_def set_decoded_ops)

section \<open>The winning op\<close>

definition is_top :: "keyed_op set \<Rightarrow> keyed_op \<Rightarrow> bool" where
  "is_top K k \<longleftrightarrow> k \<in> K \<and> (\<forall>y\<in>K. y = k \<or> happens_after (ko_hlc k) (ko_hlc y))"

lemma fold_winner:
  "(fold winner_step xs None = None \<longleftrightarrow> xs = [])
   \<and> (\<forall>k. fold winner_step xs None = Some k
        \<longrightarrow> k \<in> set xs \<and> (\<forall>y\<in>set xs. \<not> happens_after (ko_hlc y) (ko_hlc k)))"
proof (induction xs rule: rev_induct)
  case Nil
  then show ?case by simp
next
  case (snoc x xs)
  show ?case
  proof (cases "fold winner_step xs None")
    case None
    then show ?thesis using snoc by (simp add: winner_step_def)
  next
    case (Some b)
    then have "fold winner_step (xs @ [x]) None =
        (if happens_after (ko_hlc x) (ko_hlc b) then Some x else Some b)"
      by (simp add: winner_step_def)
    then show ?thesis
      using snoc Some by (auto dest: happens_after_trans)
  qed
qed

lemma is_top_unique: "is_top K a \<Longrightarrow> is_top K b \<Longrightarrow> a = b"
  unfolding is_top_def by (metis happens_after_irrefl happens_after_trans)

lemma winner_Some_iff:
  assumes "inj_on ko_hlc (set (ops_for dec s c i f))"
  shows "winner dec s c i f = Some k \<longleftrightarrow> is_top (set (ops_for dec s c i f)) k"
proof -
  let ?xs = "ops_for dec s c i f"
  have top: "is_top (set ?xs) w" if "winner dec s c i f = Some w" for w
    using fold_winner [of ?xs] that inj_onD [OF assms]
    unfolding winner_def is_top_def by (metis not_happens_after)
  show ?thesis
  proof
    assume t: "is_top (set ?xs) k"
    then have "?xs \<noteq> []" by (auto simp: is_top_def)
    then obtain w where w: "winner dec s c i f = Some w"
      using fold_winner [of ?xs] by (auto simp: winner_def)
    then show "winner dec s c i f = Some k" using is_top_unique [OF top [OF w] t] by simp
  qed (rule top)
qed

lemma winner_None_iff: "winner dec s c i f = None \<longleftrightarrow> ops_for dec s c i f = []"
  using fold_winner [of "ops_for dec s c i f"] by (simp add: winner_def)

text \<open>Two stores whose ops of a field have the same top read the same there.\<close>

lemma winner_eqI:
  assumes "inj_on ko_hlc (set (ops_for dec s c i f))" "inj_on ko_hlc (set (ops_for dec t c i f))"
    and "\<And>k. is_top (set (ops_for dec s c i f)) k \<longleftrightarrow> is_top (set (ops_for dec t c i f)) k"
  shows "winner dec s c i f = winner dec t c i f"
  using assms by (intro option.expand) (metis winner_Some_iff not_Some_eq option.sel)+

text \<open>A last-writer-wins register: the specification of one field.\<close>

fun lww_join :: "keyed_op option \<Rightarrow> keyed_op option \<Rightarrow> keyed_op option" where
  "lww_join None b = b"
| "lww_join a None = a"
| "lww_join (Some a) (Some b) = (if happens_after (ko_hlc b) (ko_hlc a) then Some b else Some a)"

lemma is_top_Un:
  assumes "is_top A a" "is_top B b" "inj_on ko_hlc (A \<union> B)"
  shows "is_top (A \<union> B) (the (lww_join (Some a) (Some b)))"
proof (cases "happens_after (ko_hlc b) (ko_hlc a)")
  case True
  then show ?thesis
    using assms by (auto simp: is_top_def dest: happens_after_trans)
next
  case False
  then have "a = b \<or> happens_after (ko_hlc a) (ko_hlc b)"
    using assms inj_onD [OF assms(3), of a b] not_happens_after by (auto simp: is_top_def)
  then show ?thesis
    using False assms by (auto simp: is_top_def dest: happens_after_trans)
qed

lemma winner_Un:
  assumes un: "set (ops_for dec u c i f) = set (ops_for dec s c i f) \<union> set (ops_for dec t c i f)"
    and inj: "inj_on ko_hlc (set (ops_for dec s c i f) \<union> set (ops_for dec t c i f))"
  shows "winner dec u c i f = lww_join (winner dec s c i f) (winner dec t c i f)"
proof (cases "winner dec s c i f")
  case None
  then have "set (ops_for dec u c i f) = set (ops_for dec t c i f)"
    using un by (simp add: winner_None_iff)
  then show ?thesis using None inj un by (auto intro!: winner_eqI simp: inj_on_Un)
next
  case (Some a)
  note a = this
  show ?thesis
  proof (cases "winner dec t c i f")
    case None
    then have "set (ops_for dec u c i f) = set (ops_for dec s c i f)"
      using un by (simp add: winner_None_iff)
    then show ?thesis
      using None a inj un winner_eqI [of dec u c i f s] by (auto simp: inj_on_Un)
  next
    case (Some b)
    have inj_u: "inj_on ko_hlc (set (ops_for dec u c i f))" using inj un by simp
    have "is_top (set (ops_for dec s c i f)) a" "is_top (set (ops_for dec t c i f)) b"
      using a Some inj by (auto simp: winner_Some_iff inj_on_Un)
    from is_top_Un [OF this inj] show ?thesis
      using winner_Some_iff [OF inj_u] a Some un by auto
  qed
qed

section \<open>Writes and merges\<close>

lemma ks_log_append_op [simp]:
  "ks_log (snd (append_op enc sha s k)) = snd (oplog_append sha (ks_log s) (enc k))"
  by (simp add: append_op_def split: prod.splits)

lemma ops_for_append_op:
  assumes "oplog_wf sha (ks_log s)" "inj_on sha (insert (enc k) (oplog_payloads (ks_log s)))"
    and "dec (enc k) = Some k"
  shows "set (ops_for dec (snd (append_op enc sha s k)) c i f) =
    (if ko_collection k = c \<and> ko_id k = i \<and> ko_field k = f then {k} else {})
      \<union> set (ops_for dec s c i f)"
  using assms(3) by (auto simp: set_ops_for oplog_payloads_append [OF assms(1,2)])

lemma winner_append_op:
  assumes "oplog_wf sha (ks_log s)" "inj_on sha (insert (enc k) (oplog_payloads (ks_log s)))"
    and "dec (enc k) = Some k"
    and inj: "inj_on ko_hlc (insert k (set (ops_for dec s (ko_collection k) (ko_id k) (ko_field k))))"
  shows "winner dec (snd (append_op enc sha s k)) (ko_collection k) (ko_id k) (ko_field k) =
    lww_join (winner dec s (ko_collection k) (ko_id k) (ko_field k)) (Some k)"
proof -
  let ?ops = "\<lambda>s. ops_for dec s (ko_collection k) (ko_id k) (ko_field k)"
    and ?w = "\<lambda>s. winner dec s (ko_collection k) (ko_id k) (ko_field k)"
  let ?one = "keyed_store_from_log \<lparr>ops = btree_insert (enc k) \<lparr>op_id = enc k, op_payload = enc k\<rparr> btree_new\<rparr>"
  have "oplog_payloads (ks_log ?one) = {enc k}"
    by (auto simp: oplog_payloads_iff keyed_store_from_log_def split: if_splits)
  then have one: "set (?ops ?one) = {k}" using assms(3) by (auto simp: set_ops_for)
  then have "?w ?one = Some k" by (simp add: winner_Some_iff is_top_def)
  moreover have "?w (snd (append_op enc sha s k)) = lww_join (?w s) (?w ?one)"
    by (rule winner_Un) (use inj ops_for_append_op [of sha s enc k dec] assms one in auto)
  ultimately show ?thesis by simp
qed

lemma winner_append_other:
  assumes "oplog_wf sha (ks_log s)" "inj_on sha (insert (enc k) (oplog_payloads (ks_log s)))"
    and "dec (enc k) = Some k" "inj_on ko_hlc (set (ops_for dec s c i f))"
    and "(c, i, f) \<noteq> (ko_collection k, ko_id k, ko_field k)"
  shows "winner dec (snd (append_op enc sha s k)) c i f = winner dec s c i f"
proof -
  have "set (ops_for dec (snd (append_op enc sha s k)) c i f) = set (ops_for dec s c i f)"
    using assms(5) ops_for_append_op [where enc = enc and k = k and dec = dec, OF assms(1-3)] by auto
  then show ?thesis using assms(4) by (intro winner_eqI) simp_all
qed

lemma ops_for_merge:
  assumes "oplog_agree (ks_log s) (ks_log t)"
  shows "set (ops_for dec (keyed_store_merge s t) c i f) =
    set (ops_for dec s c i f) \<union> set (ops_for dec t c i f)"
  by (auto simp: set_ops_for keyed_store_merge_def oplog_payloads_merge [OF assms])

section \<open>Listings\<close>

lemma set_sort_dedup [simp]: "set (sort_dedup xs) = set xs"
  by (simp add: sort_dedup_def)

lemma sorted_sort_dedup [simp]: "sorted (sort_dedup xs)"
  by (simp add: sort_dedup_def sorted_remdups_adj)

lemma distinct_sort_dedup [simp]: "distinct (sort_dedup xs)"
proof -
  have "distinct (remdups_adj ys)" if "sorted ys" for ys :: "string list"
    using that by (induction ys rule: remdups_adj.induct) (auto simp: less_le_not_le)
  then show ?thesis by (simp add: sort_dedup_def)
qed

lemma winner_in_ops:
  assumes "winner dec s c i f = Some k"
  shows "k \<in> set (decoded_ops dec s)" "ko_collection k = c" "ko_id k = i" "ko_field k = f"
  using assms fold_winner [of "ops_for dec s c i f"] by (auto simp: winner_def ops_for_def)

lemma field_value_op:
  assumes "field_value dec s c i f \<noteq> None"
  obtains k where "k \<in> set (decoded_ops dec s)" "ko_collection k = c" "ko_id k = i" "ko_field k = f"
  using assms winner_in_ops by (fastforce simp: field_value_def split: option.splits)

lemma set_doc_fields: "f \<in> set (doc_fields dec s c i) \<longleftrightarrow> doc_get_field dec s c i f \<noteq> None"
  using field_value_op [of dec s c i f]
  by (fastforce simp: doc_fields_def doc_get_field_def simp del: not_None_eq)

section \<open>Compaction keeps the top of every field\<close>

definition keyed_op_sized :: "keyed_op \<Rightarrow> bool" where
  "keyed_op_sized k \<longleftrightarrow> length (ko_collection k) < 2 ^ 64 \<and> length (ko_id k) < 2 ^ 64
     \<and> length (ko_field k) < 2 ^ 64"

lemma group_part_inject:
  assumes "length s < 2 ^ 64" "length t < 2 ^ 64" "group_part s @ xs = group_part t @ ys"
  shows "s = t \<and> xs = ys"
proof -
  have "u64_to_be_bytes (of_nat (length s)) = u64_to_be_bytes (of_nat (length t))"
    and rest: "as_bytes s @ xs = as_bytes t @ ys"
    using assms(3) by (simp_all add: group_part_def append_eq_append_conv)
  then have "unat (of_nat (length s) :: u64) = unat (of_nat (length t) :: u64)" by simp
  then have "length s = length t" using assms(1,2) by (simp add: unat_of_nat)
  then show ?thesis using rest by (simp add: append_eq_append_conv)
qed

lemma keyed_group_key_eq:
  assumes "dec (op_payload x) = Some k" "dec (op_payload y) = Some m"
    and "keyed_op_sized k" "keyed_op_sized m"
  shows "keyed_group_key dec x = keyed_group_key dec y \<longleftrightarrow>
    ko_collection k = ko_collection m \<and> ko_id k = ko_id m \<and> ko_field k = ko_field m"
proof
  assume "keyed_group_key dec x = keyed_group_key dec y"
  then have eq: "group_part (ko_collection k) @ group_part (ko_id k) @ group_part (ko_field k) @ [] =
      group_part (ko_collection m) @ group_part (ko_id m) @ group_part (ko_field m) @ []"
    using assms(1,2) by (simp add: keyed_group_key_def)
  have "ko_collection k = ko_collection m \<and> group_part (ko_id k) @ group_part (ko_field k) @ [] =
      group_part (ko_id m) @ group_part (ko_field m) @ []"
    by (rule group_part_inject) (use assms(3,4) eq in \<open>auto simp: keyed_op_sized_def\<close>)
  moreover from this have "ko_id k = ko_id m \<and> group_part (ko_field k) @ [] = group_part (ko_field m) @ []"
    by (intro group_part_inject) (use assms(3,4) in \<open>auto simp: keyed_op_sized_def\<close>)
  moreover from this have "ko_field k = ko_field m \<and> [] = ([] :: bytes)"
    by (intro group_part_inject) (use assms(3,4) in \<open>auto simp: keyed_op_sized_def\<close>)
  ultimately show "ko_collection k = ko_collection m \<and> ko_id k = ko_id m \<and> ko_field k = ko_field m"
    by blast
qed (use assms(1,2) in \<open>simp add: keyed_group_key_def\<close>)

text \<open>The keyed policy satisfies the contract of a reclaim policy, with the fold's own order.\<close>

definition keyed_beats :: "decoder \<Rightarrow> op \<Rightarrow> op \<Rightarrow> bool" where
  "keyed_beats dec x y =
     (case (dec (op_payload x), dec (op_payload y)) of
        (Some k, Some m) \<Rightarrow> happens_after (ko_hlc k) (ko_hlc m)
      | _ \<Rightarrow> False)"

interpretation keyed_policy: reclaim_policy "keyed_group_key dec" "keyed_priority dec" "keyed_beats dec"
  for dec
  by unfold_locales
    (auto simp: keyed_group_key_def keyed_priority_def keyed_beats_def hlc_priority_less
      split: option.splits)

lemma payloads_bootstrap:
  assumes "\<And>i x. btree_get (snap_ops sn) i = Some x \<Longrightarrow> x = op_new sha (op_payload x) \<and> op_id x = i"
    and "\<And>x. x \<in> set tail \<Longrightarrow> x = op_new sha (op_payload x)"
    and "inj_on sha (op_payload ` set (btree_values (snap_ops sn)) \<union> op_payload ` set tail)"
  shows "oplog_payloads (oplog_bootstrap sn tail) =
    op_payload ` set (btree_values (snap_ops sn)) \<union> op_payload ` set tail"
proof (intro set_eqI iffI)
  fix p
  assume "p \<in> oplog_payloads (oplog_bootstrap sn tail)"
  then obtain i x where ix: "btree_get (ops (oplog_bootstrap sn tail)) i = Some x" "p = op_payload x"
    unfolding oplog_payloads_iff by blast
  then show "p \<in> op_payload ` set (btree_values (snap_ops sn)) \<union> op_payload ` set tail"
    by (auto simp: get_bootstrap split: option.splits dest!: map_of_SomeD
        intro!: imageI [where f = op_payload] btree_values_iff [THEN iffD2])
next
  fix p
  assume "p \<in> op_payload ` set (btree_values (snap_ops sn)) \<union> op_payload ` set tail"
  then consider (snap) i x where "btree_get (snap_ops sn) i = Some x" "p = op_payload x"
    | (tl) x where "x \<in> set tail" "p = op_payload x" by (auto simp: btree_values_iff)
  then show "p \<in> oplog_payloads (oplog_bootstrap sn tail)"
  proof cases
    case snap
    then have "btree_get (ops (oplog_bootstrap sn tail)) i = Some x" by (simp add: get_bootstrap)
    then show ?thesis unfolding oplog_payloads_iff using snap(2) by blast
  next
    case tl
    have "\<exists>y. btree_get (ops (oplog_bootstrap sn tail)) (op_id x) = Some y \<and> op_payload y = p"
    proof (cases "btree_get (snap_ops sn) (op_id x)")
      case None
      have "map_of (map (\<lambda>x. (op_id x, x)) tail) (op_id x) \<noteq> None"
        using tl(1) unfolding map_of_eq_None_iff by force
      then obtain y where y: "map_of (map (\<lambda>x. (op_id x, x)) tail) (op_id x) = Some y" by blast
      then have "y \<in> set tail" "op_id y = op_id x" by (drule_tac map_of_SomeD, force)+
      then have "sha (op_payload y) = sha (op_payload x)"
        using assms(2) [of y] assms(2) [OF tl(1)]
        by (metis content_address_inject op.select_convs(1) op_new_def)
      then have "op_payload y = op_payload x"
        by (rule inj_onD [OF assms(3)]) (use tl \<open>y \<in> set tail\<close> in auto)
      then show ?thesis using None y tl(2) by (simp add: get_bootstrap)
    next
      case (Some y)
      then have "sha (op_payload y) = sha (op_payload x)"
        using assms(1) [OF Some] assms(2) [OF tl(1)]
        by (metis content_address_inject op.select_convs(1) op_new_def)
      then have "op_payload y = op_payload x"
        by (rule inj_onD [OF assms(3)])
          (use tl Some in \<open>auto intro!: imageI btree_values_iff [THEN iffD2]\<close>)
      then show ?thesis using Some tl(2) by (simp add: get_bootstrap)
    qed
    then show ?thesis unfolding oplog_payloads_iff by metis
  qed
qed

definition field_ops :: "decoder \<Rightarrow> bytes set \<Rightarrow> string \<Rightarrow> string \<Rightarrow> string \<Rightarrow> keyed_op set" where
  "field_ops dec P c i f =
     {k. (\<exists>p\<in>P. dec p = Some k) \<and> ko_collection k = c \<and> ko_id k = i \<and> ko_field k = f}"

lemma ops_for_field_ops: "set (ops_for dec s c i f) = field_ops dec (oplog_payloads (ks_log s)) c i f"
  by (simp add: set_ops_for field_ops_def)

lemma field_ops_Un: "field_ops dec (P \<union> Q) c i f = field_ops dec P c i f \<union> field_ops dec Q c i f"
  by (auto simp: field_ops_def)

abbreviation kept_payloads :: "decoder \<Rightarrow> keyed_store \<Rightarrow> bytes set" where
  "kept_payloads dec s \<equiv>
     op_payload ` set (btree_values (reclaim_kept (keyed_group_key dec) (keyed_priority dec) (ks_log s)))"

lemma kept_payloads_subset:
  assumes "oplog_wf sha (ks_log s)"
  shows "kept_payloads dec s \<subseteq> oplog_payloads (ks_log s)"
  using get_reclaim_kept [OF assms] unfolding oplog_payloads_def
  by (intro image_mono subsetI) (metis btree_values_iff oplog_order_iff)

lemma kept_cofinal:
  assumes wf: "oplog_wf sha (ks_log s)"
    and sized: "\<And>p k. p \<in> oplog_payloads (ks_log s) \<Longrightarrow> dec p = Some k \<Longrightarrow> keyed_op_sized k"
    and inj: "inj_on ko_hlc (field_ops dec (oplog_payloads (ks_log s)) c i f)"
    and k: "k \<in> field_ops dec (oplog_payloads (ks_log s)) c i f"
  obtains m where "m \<in> field_ops dec (kept_payloads dec s) c i f"
    "m = k \<or> happens_after (ko_hlc m) (ko_hlc k)"
proof -
  obtain x where x: "x \<in> set (oplog_order (ks_log s))" "dec (op_payload x) = Some k"
    using k by (auto simp: field_ops_def oplog_payloads_def)
  then obtain g where g: "keyed_group_key dec x = Some g" by (auto simp: keyed_group_key_def)
  obtain y j where y: "btree_get (reclaim_kept (keyed_group_key dec) (keyed_priority dec) (ks_log s)) j
      = Some y" "y \<in> set (oplog_order (ks_log s))" "keyed_group_key dec y = Some g"
      "\<not> keyed_beats dec x y"
    using keyed_policy.kept_dominates [OF wf x(1) g] by blast
  obtain m where m: "dec (op_payload y) = Some m"
    using y(3) by (auto simp: keyed_group_key_def split: option.splits)
  have pay: "op_payload x \<in> oplog_payloads (ks_log s)" "op_payload y \<in> oplog_payloads (ks_log s)"
    using x(1) y(2) by (auto simp: oplog_payloads_def)
  have "ko_collection k = ko_collection m \<and> ko_id k = ko_id m \<and> ko_field k = ko_field m"
    using keyed_group_key_eq [OF x(2) m] sized pay x(2) m g y(3) by simp
  moreover have "y \<in> set (btree_values (reclaim_kept (keyed_group_key dec) (keyed_priority dec) (ks_log s)))"
    unfolding btree_values_iff using y(1) by (rule exI)
  then have "op_payload y \<in> kept_payloads dec s" by (rule imageI)
  moreover have member: "m \<in> field_ops dec P c i f" if "op_payload y \<in> P" for P
    using that k m calculation(1) unfolding field_ops_def mem_Collect_eq by metis
  ultimately have kept: "m \<in> field_ops dec (kept_payloads dec s) c i f" by blast
  have all: "m \<in> field_ops dec (oplog_payloads (ks_log s)) c i f" using member [OF pay(2)] .
  have "ko_hlc m = ko_hlc k \<or> happens_after (ko_hlc m) (ko_hlc k)"
    using y(4) x(2) m by (simp add: keyed_beats_def not_happens_after)
  then have "m = k \<or> happens_after (ko_hlc m) (ko_hlc k)"
    using inj_onD [OF inj _ all k] by blast
  with kept show thesis by (rule that)
qed

lemma is_top_cofinal:
  assumes "K \<subseteq> L" and "\<And>k. k \<in> L \<Longrightarrow> \<exists>m\<in>K. m = k \<or> happens_after (ko_hlc m) (ko_hlc k)"
  shows "is_top (K \<union> T) k \<longleftrightarrow> is_top (L \<union> T) k"
proof
  assume top: "is_top (K \<union> T) k"
  have "y = k \<or> happens_after (ko_hlc k) (ko_hlc y)" if y: "y \<in> L \<union> T" for y
  proof (cases "y \<in> T")
    case False
    then obtain m where "m \<in> K" "m = y \<or> happens_after (ko_hlc m) (ko_hlc y)"
      using assms(2) y by blast
    then show ?thesis using top by (auto simp: is_top_def dest: happens_after_trans)
  qed (use top in \<open>auto simp: is_top_def\<close>)
  then show "is_top (L \<union> T) k" using top assms(1) by (auto simp: is_top_def)
next
  assume top: "is_top (L \<union> T) k"
  have "k \<in> K \<union> T"
  proof (cases "k \<in> T")
    case False
    then have "k \<in> L" using top by (simp add: is_top_def)
    then obtain m where "m \<in> K" "m = k \<or> happens_after (ko_hlc m) (ko_hlc k)"
      using assms(2) by blast
    then show ?thesis
      using top assms(1) by (auto simp: is_top_def dest!: bspec [of _ _ m] dest: happens_after_trans)
  qed simp
  then show "is_top (K \<union> T) k" using top assms(1) by (auto simp: is_top_def)
qed

lemma payloads_appends:
  assumes "oplog_wf sha l" "inj_on sha (oplog_payloads l \<union> set ps)"
  shows "oplog_payloads (foldl (\<lambda>l p. snd (oplog_append sha l p)) l ps) = oplog_payloads l \<union> set ps"
  using assms
proof (induction ps arbitrary: l)
  case (Cons p ps)
  have "oplog_payloads (snd (oplog_append sha l p)) = insert p (oplog_payloads l)"
    using Cons.prems by (intro oplog_payloads_append) (auto intro: inj_on_subset)
  then show ?case
    using Cons.IH [of "snd (oplog_append sha l p)"] Cons.prems by (simp add: oplog_wf_append)
qed simp

lemma payloads_compacted:
  assumes wf: "oplog_wf sha (ks_log s)" and inj: "inj_on sha (oplog_payloads (ks_log s) \<union> set ps)"
  shows "oplog_payloads (oplog_bootstrap (keyed_compact_reclaiming dec sha s) (map (op_new sha) ps)) =
    kept_payloads dec s \<union> set ps"
proof -
  let ?sn = "keyed_compact_reclaiming dec sha s"
  have sn: "snap_ops ?sn = reclaim_kept (keyed_group_key dec) (keyed_priority dec) (ks_log s)"
    by (simp add: keyed_compact_reclaiming_def oplog_compact_reclaiming_def snapshot_new_def Let_def)
  have tail: "op_payload ` set (map (op_new sha) ps) = set ps" by (force simp: op_new_def)
  have "oplog_payloads (oplog_bootstrap ?sn (map (op_new sha) ps)) =
      op_payload ` set (btree_values (snap_ops ?sn)) \<union> op_payload ` set (map (op_new sha) ps)"
  proof (rule payloads_bootstrap [of _ sha])
    show "x = op_new sha (op_payload x) \<and> op_id x = i" if "btree_get (snap_ops ?sn) i = Some x" for i x
      using that get_reclaim_kept [OF wf] oplog_wfD [OF wf] unfolding sn by metis
    show "inj_on sha (op_payload ` set (btree_values (snap_ops ?sn)) \<union> op_payload ` set (map (op_new sha) ps))"
      using kept_payloads_subset [OF wf, of dec] unfolding sn tail
      by (intro inj_on_subset [OF inj]) auto
  qed (auto simp: op_new_def)
  then show ?thesis unfolding sn tail .
qed

section \<open>Properties\<close>

text \<open>A serialization for the witnesses: one collection and key, the stamp's time, a byte of value.\<close>

definition demo_op :: "u64 \<Rightarrow> u8 option \<Rightarrow> keyed_op" where
  "demo_op t v = \<lparr>ko_collection = ''c'', ko_id = ''k'', ko_field = kv_field,
     ko_hlc = hlc_new t 0 ''n1'', ko_kind = (case v of None \<Rightarrow> Tomb | Some b \<Rightarrow> Put (Scalar [b]))\<rparr>"

definition demo_enc :: encoder where
  "demo_enc k = ucast (hlc_physical (ko_hlc k))
     # (case ko_kind k of Put (Scalar bs) \<Rightarrow> bs | _ \<Rightarrow> [])"

definition demo_dec :: decoder where
  "demo_dec bs = (case bs of [t] \<Rightarrow> Some (demo_op (ucast t) None)
     | [t, v] \<Rightarrow> Some (demo_op (ucast t) (Some v)) | _ \<Rightarrow> None)"

definition demo_store :: "bytes list \<Rightarrow> keyed_store" where
  "demo_store ps = keyed_store_from_log (demo_log ps)"

text \<open>
  Last writer wins: the op that decides a field is one of the field's ops, no op
  of the field has a later stamp, and there is none only when the field was never written.
\<close>

theorem winner_is_latest:
  "(winner dec s c i f = None \<longleftrightarrow> ops_for dec s c i f = [])
   \<and> (\<forall>k. winner dec s c i f = Some k \<longrightarrow>
        k \<in> set (ops_for dec s c i f)
        \<and> (\<forall>y\<in>set (ops_for dec s c i f). \<not> happens_after (ko_hlc y) (ko_hlc k)))"
  using fold_winner [of "ops_for dec s c i f"] by (simp add: winner_def)

theorem winner_is_latest_witness:
  "\<not> happens_after (ko_hlc (demo_op 1 (Some 7))) (ko_hlc (demo_op 2 None))"
proof -
  have w: "winner demo_dec (demo_store [[1, 7], [2]]) ''c'' ''k'' kv_field = Some (demo_op 2 None)"
    and ops: "ops_for demo_dec (demo_store [[1, 7], [2]]) ''c'' ''k'' kv_field
      = [demo_op 2 None, demo_op 1 (Some 7)]" by code_simp+
  show ?thesis
    using winner_is_latest [of demo_dec "demo_store [[1, 7], [2]]" "''c''" "''k''" kv_field] w
    by (simp add: ops)
qed

text \<open>
  A write refines an update of a last-writer-wins register: after a put or a
  tombstone, the deciding op of its field is the later of the new op and the old decider, and no
  other field changes. The serializer reads the new op back, the digest has no collision on the
  log, and no two ops of a field carry the same stamp.
\<close>

theorem write_is_lww_join:
  assumes "oplog_wf sha (ks_log s)" "inj_on sha (insert (enc k) (oplog_payloads (ks_log s)))"
    and "dec (enc k) = Some k"
    and "inj_on ko_hlc (insert k (set (ops_for dec s (ko_collection k) (ko_id k) (ko_field k))))"
    and "inj_on ko_hlc (set (ops_for dec s c i f))"
  shows "winner dec (snd (append_op enc sha s k)) c i f =
    (if (c, i, f) = (ko_collection k, ko_id k, ko_field k)
     then lww_join (winner dec s c i f) (Some k) else winner dec s c i f)"
  using winner_append_op [where enc = enc and k = k and dec = dec, OF assms(1-4)]
    winner_append_other [where enc = enc and k = k and dec = dec, OF assms(1-3,5)] by simp

theorem write_is_lww_join_witness:
  "winner demo_dec (snd (append_op demo_enc demo_sha (demo_store [[1, 7]]) (demo_op 2 None)))
     ''c'' ''k'' kv_field = Some (demo_op 2 None)"
proof -
  let ?s = "demo_store [[1, 7]]"
  have wf: "oplog_wf demo_sha (ks_log ?s)"
    by (simp add: demo_store_def keyed_store_from_log_def oplog_wf_demo)
  have inj: "inj_on demo_sha (insert (demo_enc (demo_op 2 None)) (oplog_payloads (ks_log ?s)))"
    using payloads_demo [of "[[1, 7]]"]
    by (intro inj_on_subset [OF demo_sha_inj])
      (auto simp: demo_enc_def demo_op_def demo_store_def keyed_store_from_log_def)
  have dec: "demo_dec (demo_enc (demo_op 2 None)) = Some (demo_op 2 None)"
    and ops: "ops_for demo_dec ?s ''c'' ''k'' kv_field = [demo_op 1 (Some 7)]"
    and w: "winner demo_dec ?s ''c'' ''k'' kv_field = Some (demo_op 1 (Some 7))"
    and join: "lww_join (Some (demo_op 1 (Some 7))) (Some (demo_op 2 None)) = Some (demo_op 2 None)"
    by code_simp+
  have tgt: "ko_collection (demo_op 2 None) = ''c''" "ko_id (demo_op 2 None) = ''k''"
    "ko_field (demo_op 2 None) = kv_field" by (simp_all add: demo_op_def)
  have stamps: "inj_on ko_hlc (insert (demo_op 2 None) (set [demo_op 1 (Some 7)]))"
    by (simp add: demo_op_def hlc_new_def)
  show ?thesis
    using write_is_lww_join [where enc = demo_enc and k = "demo_op 2 None" and dec = demo_dec, OF wf inj dec,
        of "''c''" "''k''" kv_field] stamps
    by (simp add: tgt ops w join del: lww_join.simps)
qed

text \<open>
  Merging two stores refines the pointwise join of their registers: every field of
  the merged store is decided by the later of the two deciders, so a concurrent write is never
  blended and never lost to an earlier one.
\<close>

theorem merge_is_lww_join:
  assumes "oplog_wf sha (ks_log s)" "oplog_wf sha (ks_log t)"
    and "inj_on sha (oplog_payloads (ks_log s) \<union> oplog_payloads (ks_log t))"
    and "inj_on ko_hlc (set (ops_for dec s c i f) \<union> set (ops_for dec t c i f))"
  shows "winner dec (keyed_store_merge s t) c i f =
    lww_join (winner dec s c i f) (winner dec t c i f)"
  using winner_Un [OF ops_for_merge assms(4)] wf_logs_agree [OF assms(1-3)] by blast

theorem merge_is_lww_join_witness:
  "winner demo_dec (keyed_store_merge (demo_store [[1, 7]]) (demo_store [[2, 8]])) ''c'' ''k'' kv_field
   = lww_join (Some (demo_op 1 (Some 7))) (Some (demo_op 2 (Some 8)))"
proof -
  let ?s = "demo_store [[1, 7]]" and ?t = "demo_store [[2, 8]]"
  have wf: "oplog_wf demo_sha (ks_log (demo_store ps))" for ps
    by (simp add: demo_store_def keyed_store_from_log_def oplog_wf_demo)
  have inj: "inj_on demo_sha (oplog_payloads (ks_log ?s) \<union> oplog_payloads (ks_log ?t))"
    using payloads_demo [of "[[1, 7]]"] payloads_demo [of "[[2, 8]]"]
    by (intro inj_on_subset [OF demo_sha_inj]) (auto simp: demo_store_def keyed_store_from_log_def)
  have ops: "ops_for demo_dec ?s ''c'' ''k'' kv_field = [demo_op 1 (Some 7)]"
    "ops_for demo_dec ?t ''c'' ''k'' kv_field = [demo_op 2 (Some 8)]"
    and w: "winner demo_dec ?s ''c'' ''k'' kv_field = Some (demo_op 1 (Some 7))"
      "winner demo_dec ?t ''c'' ''k'' kv_field = Some (demo_op 2 (Some 8))" by code_simp+
  have "inj_on ko_hlc (set [demo_op 1 (Some 7)] \<union> set [demo_op 2 (Some 8)])"
    by (simp add: demo_op_def hlc_new_def)
  then show ?thesis
    using merge_is_lww_join [OF wf wf inj, of demo_dec "''c''" "''k''" kv_field] by (simp only: ops w)
qed

abbreviation kv_put_op :: "string \<Rightarrow> string \<Rightarrow> bytes \<Rightarrow> hlc \<Rightarrow> keyed_op" where
  "kv_put_op c key v h \<equiv> \<lparr>ko_collection = c, ko_id = key, ko_field = kv_field, ko_hlc = h,
     ko_kind = Put (Scalar v)\<rparr>"

abbreviation kv_tomb_op :: "string \<Rightarrow> string \<Rightarrow> hlc \<Rightarrow> keyed_op" where
  "kv_tomb_op c key h \<equiv> \<lparr>ko_collection = c, ko_id = key, ko_field = kv_field, ko_hlc = h,
     ko_kind = Tomb\<rparr>"

text \<open>
  Put and get: a key/value put stamped later than every op of its key is what a
  get returns, and a tombstone stamped so makes the get return nothing.
\<close>

theorem kv_put_get_delete:
  assumes "oplog_wf sha (ks_log s)"
    and "\<And>k. k \<in> {kv_put_op c key v h, kv_tomb_op c key h} \<Longrightarrow>
      inj_on sha (insert (enc k) (oplog_payloads (ks_log s))) \<and> dec (enc k) = Some k"
    and "\<And>k. k \<in> set (ops_for dec s c key kv_field) \<Longrightarrow> happens_after h (ko_hlc k)"
    and "inj_on ko_hlc (set (ops_for dec s c key kv_field))"
  shows "kv_get dec (snd (kv_put enc sha s c key v h)) c key = Some v
    \<and> kv_get dec (snd (kv_delete enc sha s c key h)) c key = None"
proof -
  have newest: "winner dec (snd (append_op enc sha s k)) c key kv_field = Some k"
    if k: "k \<in> {kv_put_op c key v h, kv_tomb_op c key h}" for k
  proof -
    have tgt: "ko_collection k = c" "ko_id k = key" "ko_field k = kv_field" "ko_hlc k = h"
      using k by auto
    have "inj_on ko_hlc (insert k (set (ops_for dec s (ko_collection k) (ko_id k) (ko_field k))))"
      using assms(3,4) tgt by (force simp: inj_on_insert)
    from winner_append_op [where enc = enc and k = k and dec = dec, OF assms(1) _ _ this]
    have "winner dec (snd (append_op enc sha s k)) c key kv_field =
        lww_join (winner dec s c key kv_field) (Some k)" using assms(2) [OF k] tgt by simp
    moreover have "happens_after h (ko_hlc b)" if "winner dec s c key kv_field = Some b" for b
      using that assms(3) fold_winner [of "ops_for dec s c key kv_field"] by (simp add: winner_def)
    ultimately show ?thesis using tgt(4) by (cases "winner dec s c key kv_field") simp_all
  qed
  show ?thesis
    using newest by (simp add: kv_get_def field_value_def kv_put_def kv_delete_def)
qed

theorem kv_put_get_delete_witness:
  "kv_get demo_dec (snd (kv_put demo_enc demo_sha (demo_store [[1, 7]]) ''c'' ''k'' [8] (hlc_new 2 0 ''n1'')))
     ''c'' ''k'' = Some [8]"
proof -
  let ?s = "demo_store [[1, 7]]" and ?h = "hlc_new 2 0 ''n1''"
  have wf: "oplog_wf demo_sha (ks_log ?s)"
    by (simp add: demo_store_def keyed_store_from_log_def oplog_wf_demo)
  have ops: "ops_for demo_dec ?s ''c'' ''k'' kv_field = [demo_op 1 (Some 7)]"
    and dec: "demo_dec (demo_enc (kv_put_op ''c'' ''k'' [8] ?h)) = Some (kv_put_op ''c'' ''k'' [8] ?h)"
      "demo_dec (demo_enc (kv_tomb_op ''c'' ''k'' ?h)) = Some (kv_tomb_op ''c'' ''k'' ?h)"
    and newer: "happens_after ?h (ko_hlc (demo_op 1 (Some 7)))" by code_simp+
  have inj: "inj_on demo_sha (insert (demo_enc k) (oplog_payloads (ks_log ?s)))"
    if "k \<in> {kv_put_op ''c'' ''k'' [8] ?h, kv_tomb_op ''c'' ''k'' ?h}" for k
    using that payloads_demo [of "[[1, 7]]"]
    by (intro inj_on_subset [OF demo_sha_inj])
      (auto simp: demo_enc_def demo_store_def keyed_store_from_log_def)
  show ?thesis
    using kv_put_get_delete [OF wf, where c = "''c''" and key = "''k''" and v = "[8]" and h = ?h
        and enc = demo_enc and dec = demo_dec] inj dec newer
    by (auto simp: ops)
qed

text \<open>
  Listings are sound, complete, sorted and free of repetitions: \<open>kv_keys\<close>
  lists exactly the keys a get answers, \<open>doc_fields\<close> exactly the live fields of a document,
  \<open>doc_ids\<close> exactly the documents with a live field.
\<close>

theorem listings_exact:
  "set (kv_keys dec s c) = {key. kv_get dec s c key \<noteq> None}
   \<and> set (doc_fields dec s c i) = {f. doc_get_field dec s c i f \<noteq> None}
   \<and> set (doc_ids dec s c) = {i. \<exists>f. doc_get_field dec s c i f \<noteq> None}
   \<and> list_all (\<lambda>xs. sorted xs \<and> distinct xs) [kv_keys dec s c, doc_fields dec s c i, doc_ids dec s c]"
proof (intro conjI)
  have live: "field_value dec s c key kv_field \<noteq> None" if "kv_get dec s c key \<noteq> None" for key
    using that by (auto simp: kv_get_def split: option.splits)
  show "set (kv_keys dec s c) = {key. kv_get dec s c key \<noteq> None}"
    using field_value_op [OF live] by (fastforce simp: kv_keys_def simp del: not_None_eq)
  show "set (doc_fields dec s c i) = {f. doc_get_field dec s c i f \<noteq> None}"
    using set_doc_fields by blast
  have "doc_fields dec s c i \<noteq> [] \<longleftrightarrow> (\<exists>f. doc_get_field dec s c i f \<noteq> None)" for i
    using set_doc_fields [of _ dec s c i] by (metis list.set_intros(1) list.exhaust empty_iff empty_set)
  then show "set (doc_ids dec s c) = {i. \<exists>f. doc_get_field dec s c i f \<noteq> None}"
    using field_value_op [of dec s c] unfolding doc_get_field_def
    by (fastforce simp: doc_ids_def simp del: not_None_eq)
  show "list_all (\<lambda>xs. sorted xs \<and> distinct xs) [kv_keys dec s c, doc_fields dec s c i, doc_ids dec s c]"
    by (simp add: kv_keys_def doc_fields_def doc_ids_def sorted_wrt_filter)
qed

text \<open>
  \<^bold>\<open>C5.\<close> Compaction preserves reads: a store rebuilt from the reclaimed snapshot and the
  ops appended since reads every field exactly as the peer that kept the whole history, as long as
  no two ops of a field carry the same stamp.
\<close>

theorem compaction_preserves_reads:
  assumes wf: "oplog_wf sha (ks_log s)"
    and inj: "inj_on sha (oplog_payloads (ks_log s) \<union> set ps)"
    and sized: "\<And>p k. p \<in> oplog_payloads (ks_log s) \<Longrightarrow> dec p = Some k \<Longrightarrow> keyed_op_sized k"
    and stamps: "inj_on ko_hlc (field_ops dec (oplog_payloads (ks_log s) \<union> set ps) c i f)"
  shows "doc_get_field dec (keyed_bootstrap (keyed_compact_reclaiming dec sha s) (map (op_new sha) ps)) c i f
    = doc_get_field dec
        (keyed_store_from_log (foldl (\<lambda>l p. snd (oplog_append sha l p)) (ks_log s) ps)) c i f"
proof -
  let ?L = "field_ops dec (oplog_payloads (ks_log s)) c i f" and ?T = "field_ops dec (set ps) c i f"
    and ?K = "field_ops dec (kept_payloads dec s) c i f"
  have sub: "?K \<subseteq> ?L" using kept_payloads_subset [OF wf, of dec] by (auto simp: field_ops_def)
  have "inj_on ko_hlc ?L" using stamps by (simp add: field_ops_Un inj_on_Un)
  then have cofinal: "\<exists>m\<in>?K. m = k \<or> happens_after (ko_hlc m) (ko_hlc k)" if "k \<in> ?L" for k
    using that kept_cofinal [OF wf, of dec c i f k] sized by metis
  have full: "set (ops_for dec (keyed_store_from_log
      (foldl (\<lambda>l p. snd (oplog_append sha l p)) (ks_log s) ps)) c i f) = ?L \<union> ?T"
    by (simp add: ops_for_field_ops keyed_store_from_log_def payloads_appends [OF wf inj] field_ops_Un)
  have part: "set (ops_for dec (keyed_bootstrap (keyed_compact_reclaiming dec sha s)
      (map (op_new sha) ps)) c i f) = ?K \<union> ?T"
    by (simp add: ops_for_field_ops keyed_bootstrap_def keyed_store_from_log_def
        payloads_compacted [OF wf inj] field_ops_Un)
  have "is_top (?K \<union> ?T) k \<longleftrightarrow> is_top (?L \<union> ?T) k" for k
    by (rule is_top_cofinal [OF sub cofinal])
  then show ?thesis
    unfolding doc_get_field_def field_value_def
    by (subst winner_eqI [OF _ _]) (use stamps sub full part in
        \<open>auto simp: field_ops_Un intro: inj_on_subset\<close>)
qed

theorem compaction_preserves_reads_witness:
  "doc_get_field demo_dec (keyed_bootstrap (keyed_compact_reclaiming demo_dec demo_sha
      (demo_store [[1, 7], [2, 8]])) (map (op_new demo_sha) [[3, 9]])) ''c'' ''k'' kv_field
    = doc_get_field demo_dec (keyed_store_from_log (foldl (\<lambda>l p. snd (oplog_append demo_sha l p))
        (ks_log (demo_store [[1, 7], [2, 8]])) [[3, 9]])) ''c'' ''k'' kv_field"
proof -
  let ?s = "demo_store [[1, 7], [2, 8]]"
  have pay: "oplog_payloads (ks_log ?s) \<subseteq> {[1, 7], [2, 8]}"
    using payloads_demo [of "[[1, 7], [2, 8]]"] by (simp add: demo_store_def keyed_store_from_log_def)
  have dec: "demo_dec [t, v] = Some (demo_op (ucast t) (Some v))" for t v by (simp add: demo_dec_def)
  show ?thesis
  proof (rule compaction_preserves_reads)
    show "oplog_wf demo_sha (ks_log ?s)"
      by (simp add: demo_store_def keyed_store_from_log_def oplog_wf_demo)
    show "inj_on demo_sha (oplog_payloads (ks_log ?s) \<union> set [[3, 9]])"
      using pay by (intro inj_on_subset [OF demo_sha_inj]) auto
    show "keyed_op_sized k" if "p \<in> oplog_payloads (ks_log ?s)" "demo_dec p = Some k" for p k
      using that(2) subsetD [OF pay that(1)] by (auto simp: dec keyed_op_sized_def demo_op_def kv_field_def)
    have "field_ops demo_dec (oplog_payloads (ks_log ?s) \<union> set [[3, 9]]) ''c'' ''k'' kv_field
        \<subseteq> {demo_op 1 (Some 7), demo_op 2 (Some 8), demo_op 3 (Some 9)}"
      using pay by (auto simp: field_ops_def dec)
    then show "inj_on ko_hlc
        (field_ops demo_dec (oplog_payloads (ks_log ?s) \<union> set [[3, 9]]) ''c'' ''k'' kv_field)"
      by (rule inj_on_subset [rotated]) (simp add: demo_op_def hlc_new_def)
  qed
qed

text \<open>
  Two ops of one field with the same stamp: the live fold reads the one with the
  smaller content address, the store rebuilt from the reclaimed snapshot reads the other.
\<close>

theorem equal_stamps_disagree:
  assumes "dec p = Some k" "dec q = Some m" "content_address sha p < content_address sha q"
    and "ko_collection m = ko_collection k" "ko_id m = ko_id k" "ko_field m = ko_field k"
    and "ko_hlc m = ko_hlc k"
  shows "let s = keyed_store_from_log (snd (oplog_append sha (snd (oplog_append sha oplog_new p)) q));
             read = \<lambda>t. winner dec t (ko_collection k) (ko_id k) (ko_field k)
         in read s = Some k
            \<and> read (keyed_bootstrap (keyed_compact_reclaiming dec sha s) []) = Some m"
proof -
  let ?l = "snd (oplog_append sha (snd (oplog_append sha oplog_new p)) q)"
  let ?s = "keyed_store_from_log ?l" and ?x = "op_new sha p" and ?y = "op_new sha q"
  have get: "btree_get (ops ?l) = map_of [(op_id ?x, ?x), (op_id ?y, ?y)]"
    using assms(3) by (rule_tac ext) (auto simp: get_oplog_append op_new_def)
  have "btree_iter (ops ?l) = [(op_id ?x, ?x), (op_id ?y, ?y)]"
    by (rule btree_iter_eqI [OF _ get]) (use assms(3) in \<open>simp add: op_new_def\<close>)
  then have order: "oplog_order ?l = [?x, ?y]" by (simp add: oplog_order_def btree_values_def)
  have wf: "oplog_wf sha ?l" by (intro wf_intros)
  let ?kept = "reclaim_kept (keyed_group_key dec) (keyed_priority dec) ?l"
  have neq: "sha q \<noteq> sha p" using assms(3) by (auto simp: content_address_def)
  have pay: "op_payload ?x = p" "op_payload ?y = q" "op_id ?x = content_address sha p"
    "op_id ?y = content_address sha q" by (simp_all add: op_new_def)
  have group: "keyed_group_key dec ?x = keyed_group_key dec ?y" "keyed_group_key dec ?x \<noteq> None"
    "keyed_priority dec ?x = keyed_priority dec ?y"
    using assms by (simp_all add: keyed_group_key_def keyed_priority_def pay)
  have "btree_get ?kept j = Some z \<longleftrightarrow> z = ?y \<and> j = op_id ?y" for j z
    unfolding get_reclaim_kept [OF wf] order
    using assms(3) neq group by (auto simp: get op_rank_def pay split: if_splits)
  then have "btree_get ?kept j = map_of [(op_id ?y, ?y)] j" for j
    by (metis (no_types) map_of.simps(1,2) fun_upd_apply fst_conv snd_conv not_None_eq)
  then have "btree_iter ?kept = [(op_id ?y, ?y)]" by (intro btree_iter_eqI) auto
  then have "oplog_order (ks_log (keyed_bootstrap (keyed_compact_reclaiming dec sha ?s) [])) = [?y]"
    by (simp add: keyed_bootstrap_def keyed_compact_reclaiming_def oplog_compact_reclaiming_def
        oplog_bootstrap_def snapshot_new_def keyed_store_from_log_def Let_def oplog_order_def
        btree_values_def)
  then have "ops_for dec (keyed_bootstrap (keyed_compact_reclaiming dec sha ?s) [])
      (ko_collection k) (ko_id k) (ko_field k) = [m]"
    using assms by (simp add: ops_for_def decoded_ops_def List.map_filter_simps pay)
  moreover have "ops_for dec ?s (ko_collection k) (ko_id k) (ko_field k) = [k, m]"
    using assms by (simp add: ops_for_def decoded_ops_def List.map_filter_simps pay
        keyed_store_from_log_def order)
  ultimately show ?thesis using assms(7) by (simp add: winner_def winner_step_def Let_def)
qed

theorem equal_stamps_disagree_witness:
  "kv_get demo_dec (keyed_bootstrap (keyed_compact_reclaiming demo_dec demo_sha
      (keyed_store_from_log (snd (oplog_append demo_sha (snd (oplog_append demo_sha oplog_new [1, 7])) [1, 8])))) [])
      ''c'' ''k'' = Some [8]
   \<and> kv_get demo_dec
      (keyed_store_from_log (snd (oplog_append demo_sha (snd (oplog_append demo_sha oplog_new [1, 7])) [1, 8])))
      ''c'' ''k'' = Some [7]"
proof -
  have dec: "demo_dec [1, 7] = Some (demo_op 1 (Some 7))" "demo_dec [1, 8] = Some (demo_op 1 (Some 8))"
    by (simp_all add: demo_dec_def)
  have less: "content_address demo_sha [1, 7] < content_address demo_sha [1, 8]" by code_simp
  show ?thesis
    using equal_stamps_disagree [OF dec less]
    by (simp add: demo_op_def Let_def kv_get_def field_value_def)
qed

lemma split_dot_nonempty: "split_dot s \<noteq> []"
  by (induction s) (auto split: list.splits)

lemma split_dot_append: "split_dot (s @ CHR ''.'' # t) = split_dot s @ split_dot t"
proof (induction s)
  case (Cons a s)
  then show ?case using split_dot_nonempty [of s] by (auto split: list.splits)
qed simp

lemma get_segments_append:
  "get_segments v (xs @ ys) = (case get_segments v xs of None \<Rightarrow> None | Some w \<Rightarrow> get_segments w ys)"
  by (induction v xs rule: get_segments.induct) (auto split: option.splits)

lemma get_path_dot:
  assumes "p \<noteq> []" "q \<noteq> []"
  shows "get_path v (p @ CHR ''.'' # q) = (case get_path v p of None \<Rightarrow> None | Some w \<Rightarrow> get_path w q)"
  using assms by (simp add: get_path_def split_dot_append get_segments_append split: option.splits)

lemma split_once_dot_append:
  assumes "CHR ''.'' \<notin> set t"
  shows "split_once_dot (t @ CHR ''.'' # r) = Some (t, r)"
  using assms by (induction t) (auto simp: split_once_dot_def)

text \<open>
  Dotted queries: a query of a bare field name reads the field, and a query of a
  dotted path reads its first field and walks the rest; a longer path is read in two stages, so a
  projection through a nested value agrees with projecting the projection.
\<close>

theorem doc_query_paths:
  assumes "CHR ''.'' \<notin> set t" "p \<noteq> []" "q \<noteq> []"
  shows "doc_query dec s c i t = doc_get_field dec s c i t
    \<and> doc_query dec s c i (t @ CHR ''.'' # p) =
        (case doc_get_field dec s c i t of None \<Rightarrow> None | Some v \<Rightarrow> get_path v p)
    \<and> doc_query dec s c i (t @ CHR ''.'' # p @ CHR ''.'' # q) =
        (case doc_query dec s c i (t @ CHR ''.'' # p) of None \<Rightarrow> None | Some w \<Rightarrow> get_path w q)"
proof -
  have "split_once_dot t = None" using assms(1) by (simp add: split_once_dot_def)
  then have "doc_query dec s c i t = doc_get_field dec s c i t"
    by (simp add: doc_query_def doc_get_field_def get_path_def split: option.splits)
  moreover have dotted: "doc_query dec s c i (t @ CHR ''.'' # r) =
      (case doc_get_field dec s c i t of None \<Rightarrow> None | Some v \<Rightarrow> get_path v r)" for r
    by (simp add: doc_query_def doc_get_field_def split_once_dot_append [OF assms(1)])
  ultimately show ?thesis
    by (simp add: get_path_dot [OF assms(2,3)] split: option.splits)
qed

theorem doc_query_paths_witness:
  "doc_query demo_dec (demo_store [[1, 7]]) ''c'' ''k'' (kv_field @ ''.x'') = None
   \<and> get_path (Nested [(''a'', Nested [(''b'', Scalar [1])])]) ''a.b'' = Some (Scalar [1])"
proof
  have get: "doc_get_field demo_dec (demo_store [[1, 7]]) ''c'' ''k'' kv_field = Some (Scalar [7])"
    and path: "get_path (Scalar [7]) ''x'' = None" by code_simp+
  show "doc_query demo_dec (demo_store [[1, 7]]) ''c'' ''k'' (kv_field @ ''.x'') = None"
    using doc_query_paths [of kv_field "''x''" "''x''" demo_dec "demo_store [[1, 7]]" "''c''" "''k''"]
    by (simp add: kv_field_def get [unfolded kv_field_def] path)
  show "get_path (Nested [(''a'', Nested [(''b'', Scalar [1])])]) ''a.b'' = Some (Scalar [1])"
    by code_simp
qed

end
