(* ===== verification/DocWrites.thy ===== *)
theory DocWrites
  imports KeyedStore
begin

text \<open>
  What a reader of the keyed store sees of writes: the facts of \<open>KeyedStore\<close> on one op,
  carried over to sequences of writes of different fields, as the clients of the document surface
  issue them, and a codec for concrete stores.
\<close>

abbreviation put_op :: "string \<Rightarrow> string \<Rightarrow> string \<Rightarrow> kvalue \<Rightarrow> hlc \<Rightarrow> keyed_op" where
  "put_op c i f v h \<equiv> \<lparr>ko_collection = c, ko_id = i, ko_field = f, ko_hlc = h, ko_kind = Put v\<rparr>"

abbreviation tomb_op :: "string \<Rightarrow> string \<Rightarrow> string \<Rightarrow> hlc \<Rightarrow> keyed_op" where
  "tomb_op c i f h \<equiv> \<lparr>ko_collection = c, ko_id = i, ko_field = f, ko_hlc = h, ko_kind = Tomb\<rparr>"

section \<open>Writes that a reader sees\<close>

text \<open>
  A write the store takes in: the log is well formed, the digest tells its payload from those
  stored, and the payload is parsed back. It is the newest of its field when its stamp is later
  than those of the ops already there.
\<close>

definition fresh_write :: "encoder \<Rightarrow> decoder \<Rightarrow> sha256 \<Rightarrow> keyed_store \<Rightarrow> keyed_op \<Rightarrow> bool" where
  "fresh_write enc dec sha s k \<longleftrightarrow>
     oplog_wf sha (ks_log s) \<and> inj_on sha (insert (enc k) (oplog_payloads (ks_log s)))
     \<and> dec (enc k) = Some k"

definition stamps_distinct :: "decoder \<Rightarrow> keyed_store \<Rightarrow> bool" where
  "stamps_distinct dec s \<longleftrightarrow> (\<forall>c i f. inj_on ko_hlc (set (ops_for dec s c i f)))"

definition newest_write :: "decoder \<Rightarrow> keyed_store \<Rightarrow> keyed_op \<Rightarrow> bool" where
  "newest_write dec s k \<longleftrightarrow>
     list_all (\<lambda>y. happens_after (ko_hlc k) (ko_hlc y))
       (ops_for dec s (ko_collection k) (ko_id k) (ko_field k))"

lemma doc_get_append_other:
  assumes "fresh_write enc dec sha s k" "stamps_distinct dec s"
    and "(c, i, f) \<noteq> (ko_collection k, ko_id k, ko_field k)"
  shows "doc_get_field dec (snd (append_op enc sha s k)) c i f = doc_get_field dec s c i f"
  using assms unfolding doc_get_field_def field_value_def fresh_write_def stamps_distinct_def
  by (subst winner_append_other [where enc = enc and k = k]) auto

lemma newest_write_inj:
  assumes "stamps_distinct dec s" "newest_write dec s k"
  shows "inj_on ko_hlc (insert k (set (ops_for dec s (ko_collection k) (ko_id k) (ko_field k))))"
  using assms by (force simp: stamps_distinct_def newest_write_def list_all_iff inj_on_insert)

lemma doc_get_append_newest:
  assumes "fresh_write enc dec sha s k" "stamps_distinct dec s" "newest_write dec s k"
  shows "doc_get_field dec (snd (append_op enc sha s k)) (ko_collection k) (ko_id k) (ko_field k) =
    (case ko_kind k of Put v \<Rightarrow> Some v | Tomb \<Rightarrow> None)"
proof -
  let ?w = "\<lambda>s. winner dec s (ko_collection k) (ko_id k) (ko_field k)"
  have "?w (snd (append_op enc sha s k)) = lww_join (?w s) (Some k)"
    using assms newest_write_inj [OF assms(2,3)]
    by (intro winner_append_op) (simp_all add: fresh_write_def)
  moreover have "happens_after (ko_hlc k) (ko_hlc b)" if "?w s = Some b" for b
    using that assms(3) fold_winner [of "ops_for dec s (ko_collection k) (ko_id k) (ko_field k)"]
    by (simp add: winner_def newest_write_def list_all_iff)
  ultimately have "?w (snd (append_op enc sha s k)) = Some k" by (cases "?w s") simp_all
  then show ?thesis by (simp add: doc_get_field_def field_value_def)
qed

lemma stamps_distinct_append:
  assumes "fresh_write enc dec sha s k" "stamps_distinct dec s" "newest_write dec s k"
  shows "stamps_distinct dec (snd (append_op enc sha s k))"
  unfolding stamps_distinct_def
proof (intro allI)
  fix c i f
  show "inj_on ko_hlc (set (ops_for dec (snd (append_op enc sha s k)) c i f))"
    using assms newest_write_inj [OF assms(2,3)] ops_for_append_op [of sha s enc k dec c i f]
    by (auto simp: fresh_write_def stamps_distinct_def)
qed

text \<open>
  A codec for concrete stores: an op is its position in a given list. The lists stay short
  enough for the position to fit a byte.
\<close>

fun index_of :: "'a \<Rightarrow> 'a list \<Rightarrow> nat" where
  "index_of x [] = 0"
| "index_of x (y # ys) = (if x = y then 0 else Suc (index_of x ys))"

definition table_enc :: "keyed_op list \<Rightarrow> encoder" where
  "table_enc ks k = [of_nat (index_of k ks)]"

definition table_dec :: "keyed_op list \<Rightarrow> decoder" where
  "table_dec ks bs =
     (case bs of [b] \<Rightarrow> if unat b < length ks then Some (ks ! unat b) else None | _ \<Rightarrow> None)"

definition table_store :: "keyed_op list \<Rightarrow> keyed_op list \<Rightarrow> keyed_store" where
  "table_store ks xs = demo_store (map (table_enc ks) xs)"

lemma index_of_nth: "x \<in> set xs \<Longrightarrow> index_of x xs < length xs \<and> xs ! index_of x xs = x"
  by (induction xs) auto

lemma table_dec_enc:
  assumes "k \<in> set ks" "length ks < 256"
  shows "table_dec ks (table_enc ks k) = Some k"
proof -
  have "unat (of_nat (index_of k ks) :: u8) = index_of k ks"
    using index_of_nth [OF assms(1)] assms(2) by (simp add: unat_of_nat)
  then show ?thesis using index_of_nth [OF assms(1)] by (simp add: table_dec_def table_enc_def)
qed

lemma fresh_write_table:
  assumes "k \<in> set ks" "length ks < 256"
  shows "fresh_write (table_enc ks) (table_dec ks) demo_sha (table_store ks xs) k"
  unfolding fresh_write_def table_store_def demo_store_def
proof (intro conjI)
  show "oplog_wf demo_sha (ks_log (keyed_store_from_log (demo_log (map (table_enc ks) xs))))"
    by (simp add: keyed_store_from_log_def oplog_wf_demo)
  show "inj_on demo_sha (insert (table_enc ks k)
      (oplog_payloads (ks_log (keyed_store_from_log (demo_log (map (table_enc ks) xs))))))"
    using payloads_demo [of "map (table_enc ks) xs"]
    by (intro inj_on_subset [OF demo_sha_inj]) (auto simp: keyed_store_from_log_def table_enc_def)
qed (rule table_dec_enc [OF assms])

lemma stamps_distinct_table:
  assumes "set xs \<subseteq> set ks" "length ks < 256"
    and "\<And>k m. k \<in> set xs \<Longrightarrow> m \<in> set xs \<Longrightarrow> ko_hlc k = ko_hlc m \<Longrightarrow>
      (ko_collection k, ko_id k, ko_field k) = (ko_collection m, ko_id m, ko_field m) \<Longrightarrow> k = m"
  shows "stamps_distinct (table_dec ks) (table_store ks xs)"
  unfolding stamps_distinct_def
proof (intro allI inj_onI)
  fix c i f k m
  have sub: "z \<in> set xs" if "z \<in> set (ops_for (table_dec ks) (table_store ks xs) c i f)" for z
    using that payloads_demo [of "map (table_enc ks) xs"] table_dec_enc [OF subsetD [OF assms(1)] assms(2)]
    by (auto simp: set_ops_for table_store_def demo_store_def keyed_store_from_log_def)
  assume k: "k \<in> set (ops_for (table_dec ks) (table_store ks xs) c i f)"
    and m: "m \<in> set (ops_for (table_dec ks) (table_store ks xs) c i f)" and "ko_hlc k = ko_hlc m"
  then show "k = m" using assms(3) sub by (simp add: set_ops_for)
qed

section \<open>Several writes\<close>

definition op_target :: "keyed_op \<Rightarrow> string \<times> string \<times> string" where
  "op_target k = (ko_collection k, ko_id k, ko_field k)"

definition doc_writes :: "encoder \<Rightarrow> sha256 \<Rightarrow> keyed_store \<Rightarrow> keyed_op list \<Rightarrow> keyed_store" where
  "doc_writes enc sha s ks = fold (\<lambda>k s. snd (append_op enc sha s k)) ks s"

text \<open>What the writes of different fields have to satisfy in the store they start from.\<close>

definition fresh_writes :: "encoder \<Rightarrow> decoder \<Rightarrow> sha256 \<Rightarrow> keyed_store \<Rightarrow> keyed_op list \<Rightarrow> bool" where
  "fresh_writes enc dec sha s ks \<longleftrightarrow>
     oplog_wf sha (ks_log s) \<and> inj_on sha (enc ` set ks \<union> oplog_payloads (ks_log s))
     \<and> stamps_distinct dec s \<and> distinct (map op_target ks)
     \<and> (\<forall>k\<in>set ks. dec (enc k) = Some k \<and> newest_write dec s k)"

definition written_value :: "keyed_op \<Rightarrow> kvalue option" where
  "written_value k = (case ko_kind k of Put v \<Rightarrow> Some v | Tomb \<Rightarrow> None)"

lemma doc_writes_simps [simp]:
  "doc_writes enc sha s [] = s"
  "doc_writes enc sha s (k # ks) = doc_writes enc sha (snd (append_op enc sha s k)) ks"
  by (simp_all add: doc_writes_def)

lemma fresh_writes_targets:
  assumes "fresh_writes enc dec sha s (k # ks)" "m \<in> set ks"
  shows "op_target m \<noteq> op_target k"
proof -
  have "distinct (map op_target (k # ks))" using assms(1) unfolding fresh_writes_def by blast
  then show ?thesis using imageI [OF assms(2), of op_target] by auto
qed

lemma newest_write_append_other:
  assumes "fresh_write enc dec sha s k" "newest_write dec s m" "op_target m \<noteq> op_target k"
  shows "newest_write dec (snd (append_op enc sha s k)) m"
  using assms ops_for_append_op [of sha s enc k dec "ko_collection m" "ko_id m" "ko_field m"]
  by (auto simp: newest_write_def list_all_iff fresh_write_def op_target_def)

lemma fresh_writesD:
  assumes "fresh_writes enc dec sha s (k # ks)"
  shows "fresh_write enc dec sha s k" "newest_write dec s k" "stamps_distinct dec s"
    and "fresh_writes enc dec sha (snd (append_op enc sha s k)) ks"
proof -
  have wf: "oplog_wf sha (ks_log s)" and inj: "inj_on sha (enc ` set (k # ks) \<union> oplog_payloads (ks_log s))"
    using assms by (simp_all add: fresh_writes_def)
  have one: "inj_on sha (insert (enc k) (oplog_payloads (ks_log s)))"
    using inj by (rule inj_on_subset) auto
  show k: "fresh_write enc dec sha s k" "newest_write dec s k" "stamps_distinct dec s"
    using assms one by (simp_all add: fresh_writes_def fresh_write_def)
  have "newest_write dec (snd (append_op enc sha s k)) m" if "m \<in> set ks" for m
    by (rule newest_write_append_other [OF k(1) _ fresh_writes_targets [OF assms that]])
      (use assms that in \<open>simp add: fresh_writes_def\<close>)
  moreover have "inj_on sha (enc ` set ks \<union> oplog_payloads (snd (oplog_append sha (ks_log s) (enc k))))"
    using inj by (rule inj_on_subset) (auto simp: oplog_payloads_append [OF wf one])
  ultimately show "fresh_writes enc dec sha (snd (append_op enc sha s k)) ks"
    using assms wf stamps_distinct_append [OF k(1,3,2)] by (auto simp: fresh_writes_def intro: wf_intros)
qed

lemma doc_get_writes:
  assumes "fresh_writes enc dec sha s ks"
  shows "doc_get_field dec (doc_writes enc sha s ks) c i f =
    (case find (\<lambda>k. op_target k = (c, i, f)) ks of
       Some k \<Rightarrow> written_value k
     | None \<Rightarrow> doc_get_field dec s c i f)"
  using assms
proof (induction ks arbitrary: s)
  case (Cons k ks)
  note k = fresh_writesD [OF Cons.prems]
  have notin: "find (\<lambda>m. op_target m = op_target k) ks = None"
    using fresh_writes_targets [OF Cons.prems] unfolding find_None_iff by blast
  show ?case
  proof (cases "op_target k = (c, i, f)")
    case True
    then show ?thesis
      using Cons.IH [OF k(4)] notin doc_get_append_newest [OF k(1,3,2)] by (auto simp: written_value_def op_target_def)
  next
    case False
    then have "doc_get_field dec (snd (append_op enc sha s k)) c i f = doc_get_field dec s c i f"
      by (intro doc_get_append_other [OF k(1,3)]) (auto simp: op_target_def)
    then show ?thesis using False Cons.IH [OF k(4)] by (simp split: option.splits)
  qed
qed simp

lemma fresh_writes_table:
  assumes "set ks \<subseteq> set tab" "length tab < 256" "stamps_distinct (table_dec tab) (table_store tab xs)"
    and "distinct (map op_target ks)" "list_all (newest_write (table_dec tab) (table_store tab xs)) ks"
  shows "fresh_writes (table_enc tab) (table_dec tab) demo_sha (table_store tab xs) ks"
  unfolding fresh_writes_def
proof (intro conjI ballI)
  show "oplog_wf demo_sha (ks_log (table_store tab xs))"
    by (simp add: table_store_def demo_store_def keyed_store_from_log_def oplog_wf_demo)
  show "inj_on demo_sha (table_enc tab ` set ks \<union> oplog_payloads (ks_log (table_store tab xs)))"
    using payloads_demo [of "map (table_enc tab) xs"]
    by (intro inj_on_subset [OF demo_sha_inj])
      (auto simp: table_store_def demo_store_def keyed_store_from_log_def table_enc_def)
  show "table_dec tab (table_enc tab k) = Some k" if "k \<in> set ks" for k
    using that assms(1) table_dec_enc [OF _ assms(2)] by auto
  show "newest_write (table_dec tab) (table_store tab xs) k" if "k \<in> set ks" for k
    using that assms(5) by (simp add: list_all_iff)
qed (use assms(3,4) in auto)

section \<open>A writer with a clock of its own\<close>

text \<open>
  Several components write to a store of their own, every op stamped by the next tick of a counter
  under a fixed author. \<open>K\<close> says which ops the component writes, up to their stamps.
\<close>

definition clocked_ops :: "string \<Rightarrow> (keyed_op \<Rightarrow> bool) \<Rightarrow> nat \<Rightarrow> keyed_op set" where
  "clocked_ops author K n = {k. K k \<and> (\<exists>t. ko_hlc k = hlc_new t 0 author \<and> unat t \<le> n)}"

definition clocked_ok :: "encoder \<Rightarrow> decoder \<Rightarrow> sha256 \<Rightarrow> string \<Rightarrow> (keyed_op \<Rightarrow> bool) \<Rightarrow> nat \<Rightarrow> bool" where
  "clocked_ok enc dec sha author K N \<longleftrightarrow>
     N < 2 ^ 64 \<and> (\<forall>k\<in>clocked_ops author K N. dec (enc k) = Some k)
     \<and> inj_on sha (enc ` clocked_ops author K N)"

definition clocked_wf ::
  "encoder \<Rightarrow> decoder \<Rightarrow> sha256 \<Rightarrow> string \<Rightarrow> (keyed_op \<Rightarrow> bool) \<Rightarrow> u64 \<Rightarrow> keyed_store \<Rightarrow> bool" where
  "clocked_wf enc dec sha author K t s \<longleftrightarrow>
     oplog_wf sha (ks_log s) \<and> stamps_distinct dec s
     \<and> oplog_payloads (ks_log s) \<subseteq> enc ` clocked_ops author K (unat t)"

lemma clocked_ops_mono: "m \<le> n \<Longrightarrow> clocked_ops author K m \<subseteq> clocked_ops author K n"
  by (fastforce simp: clocked_ops_def)

lemma payloads_oplog_new: "oplog_payloads oplog_new = {}"
  by (auto simp: oplog_payloads_iff oplog_new_def)

lemma kv_get_new [simp]: "kv_get dec keyed_store_new c key = None"
proof -
  have "set (ops_for dec keyed_store_new c key kv_field) = {}"
    by (simp add: set_ops_for keyed_store_new_def payloads_oplog_new)
  then have "winner dec keyed_store_new c key kv_field = None" by (simp add: winner_None_iff)
  then show ?thesis by (simp add: kv_get_def field_value_def)
qed

lemma clocked_wf_new: "clocked_wf enc dec sha author K t keyed_store_new"
  by (simp add: clocked_wf_def keyed_store_new_def stamps_distinct_def set_ops_for
      payloads_oplog_new oplog_wf_new)

lemma clocked_tick: "clocked_ok enc dec sha author K N \<Longrightarrow> unat t < N \<Longrightarrow> unat (t + 1 :: u64) = unat t + 1"
  by (simp add: clocked_ok_def unat_word_ariths)

lemma clocked_append:
  assumes ok: "clocked_ok enc dec sha author K N" and wf: "clocked_wf enc dec sha author K t s"
    and N: "unat t < N" and K: "K k" and stamp: "ko_hlc k = hlc_new (t + 1) 0 author"
  shows "fresh_write enc dec sha s k" "newest_write dec s k"
    and "clocked_wf enc dec sha author K (t + 1) (snd (append_op enc sha s k))"
proof -
  note next_t = clocked_tick [OF ok N]
  have k_in: "k \<in> clocked_ops author K (unat (t + 1))" using K stamp by (auto simp: clocked_ops_def)
  have sub: "clocked_ops author K (unat (t + 1)) \<subseteq> clocked_ops author K N"
    using N next_t by (intro clocked_ops_mono) simp
  have pay: "oplog_payloads (ks_log s) \<subseteq> enc ` clocked_ops author K (unat t)"
    and log: "oplog_wf sha (ks_log s)" and st: "stamps_distinct dec s"
    using wf by (simp_all add: clocked_wf_def)
  have pay': "insert (enc k) (oplog_payloads (ks_log s)) \<subseteq> enc ` clocked_ops author K (unat (t + 1))"
    using pay k_in clocked_ops_mono [of "unat t" "unat (t + 1)" author K] next_t by auto
  have inj: "inj_on sha (insert (enc k) (oplog_payloads (ks_log s)))"
    using ok pay' sub unfolding clocked_ok_def by (meson image_mono inj_on_subset order_trans)
  show fresh: "fresh_write enc dec sha s k"
    using ok log inj k_in sub by (auto simp: fresh_write_def clocked_ok_def)
  have "happens_after (ko_hlc k) (ko_hlc y)"
    if y: "y \<in> set (ops_for dec s (ko_collection k) (ko_id k) (ko_field k))" for y
  proof -
    obtain z where z: "z \<in> clocked_ops author K (unat t)" "dec (enc z) = Some y"
      using y pay by (auto simp: set_ops_for)
    have "z \<in> clocked_ops author K N" using z(1) N clocked_ops_mono [of "unat t" N author K] by auto
    then have "y = z" using z(2) ok by (auto simp: clocked_ok_def)
    then obtain u where "ko_hlc y = hlc_new u 0 author" "unat u \<le> unat t"
      using z(1) by (auto simp: clocked_ops_def)
    then show ?thesis
      using next_t by (simp add: stamp happens_after_def hlc_new_def word_less_nat_alt)
  qed
  then show newest: "newest_write dec s k" by (simp add: newest_write_def list_all_iff)
  show "clocked_wf enc dec sha author K (t + 1) (snd (append_op enc sha s k))"
    using pay' log stamps_distinct_append [OF fresh st newest]
    by (auto simp: clocked_wf_def oplog_payloads_append [OF log inj] intro: wf_intros)
qed

lemma kv_get_clocked:
  assumes "clocked_ok enc dec sha author K N" "clocked_wf enc dec sha author K t s"
    and "unat t < N" "K k" "ko_hlc k = hlc_new (t + 1) 0 author" "ko_field k = kv_field"
  shows "kv_get dec (snd (append_op enc sha s k)) c key =
    (if (c, key) = (ko_collection k, ko_id k)
     then (case ko_kind k of Put (Scalar v) \<Rightarrow> Some v | _ \<Rightarrow> None)
     else kv_get dec s c key)"
proof -
  note step = clocked_append [OF assms(1-5)]
  have st: "stamps_distinct dec s" using assms(2) by (simp add: clocked_wf_def)
  show ?thesis
    using doc_get_append_newest [OF step(1) st step(2)] doc_get_append_other [OF step(1) st, of c key kv_field]
      assms(6)
    by (auto simp: kv_get_def doc_get_field_def split: kvalue.splits op_kind.splits)
qed

end
