(* ===== verification/WotAuthority.thy ===== *)
theory WotAuthority
  imports Pillar_Core "HOL-Library.Product_Lexorder"
begin

text \<open>
  \<^verbatim>\<open>crates/pillar-wot-authority/src/lib.rs\<close>: reachability with delegation budgets from
  the owner over unrevoked trust-signature edges, the three kinds of revocation, and the fenced
  actor that refuses to act on a stale view.

  The edges are a \<open>HashSet\<close>, whose iteration order the language leaves open. Every operation that
  iterates over it takes the order as an argument \<open>iter\<close>, which lists the elements of a set
  (\<open>hash_iter\<close>); the results are shown not to depend on it.
\<close>

section \<open>State\<close>

type_synonym edge = "node_id \<times> node_id \<times> u8"

definition hash_iter :: "('a set \<Rightarrow> 'a list) \<Rightarrow> bool" where
  "hash_iter iter \<longleftrightarrow> (\<forall>A. finite A \<longrightarrow> set (iter A) = A \<and> distinct (iter A))"

definition relay_min_level :: u8 where
  "relay_min_level = 2"

record wot_authority =
  wa_owner :: node_id
  wa_max_depth :: u8
  wa_edges :: "edge set"
  wa_revoked_keys :: "node_id set"
  wa_revoked_edges :: "(node_id \<times> node_id) set"
  wa_revoked_grants :: "node_id set"

definition wot_new :: "node_id \<Rightarrow> u8 \<Rightarrow> wot_authority" where
  "wot_new owner max_depth =
     \<lparr>wa_owner = owner, wa_max_depth = max_depth, wa_edges = {}, wa_revoked_keys = {},
      wa_revoked_edges = {}, wa_revoked_grants = {}\<rparr>"

definition issue_edge :: "node_id \<Rightarrow> node_id \<Rightarrow> u8 \<Rightarrow> wot_authority \<Rightarrow> wot_authority" where
  "issue_edge signer subject level w = w\<lparr>wa_edges := insert (signer, subject, level) (wa_edges w)\<rparr>"

definition revoke_key :: "node_id \<Rightarrow> wot_authority \<Rightarrow> wot_authority" where
  "revoke_key k w = w\<lparr>wa_revoked_keys := insert k (wa_revoked_keys w)\<rparr>"

definition revoke_edge :: "node_id \<Rightarrow> node_id \<Rightarrow> wot_authority \<Rightarrow> wot_authority" where
  "revoke_edge signer subject w =
     w\<lparr>wa_revoked_edges := insert (signer, subject) (wa_revoked_edges w)\<rparr>"

definition revoke_grant :: "node_id \<Rightarrow> wot_authority \<Rightarrow> wot_authority" where
  "revoke_grant subject w = w\<lparr>wa_revoked_grants := insert subject (wa_revoked_grants w)\<rparr>"

definition rev_count :: "wot_authority \<Rightarrow> u64" where
  "rev_count w = of_nat (card (wa_revoked_keys w) + card (wa_revoked_edges w) + card (wa_revoked_grants w))"

section \<open>Reachability\<close>

fun edge_valid :: "wot_authority \<Rightarrow> edge \<Rightarrow> bool" where
  "edge_valid w (signer, subject, _) \<longleftrightarrow>
     signer \<notin> wa_revoked_keys w \<and> subject \<notin> wa_revoked_keys w \<and> (signer, subject) \<notin> wa_revoked_edges w"

definition valid_edges :: "(edge set \<Rightarrow> edge list) \<Rightarrow> wot_authority \<Rightarrow> edge list" where
  "valid_edges iter w = filter (edge_valid w) (iter (wa_edges w))"

text \<open>The body of the inner loop over the table \<open>best\<close> and the flag \<open>changed\<close>.\<close>

fun relax :: "edge \<Rightarrow> (node_id \<rightharpoonup> u8) \<times> bool \<Rightarrow> (node_id \<rightharpoonup> u8) \<times> bool" where
  "relax (signer, subject, level) (best, changed) =
     (case best signer of
        None \<Rightarrow> (best, changed)
      | Some rb \<Rightarrow>
          if rb = 0 then (best, changed)
          else let granted = min (rb - 1) level;
                   entry = (case best subject of Some e \<Rightarrow> e | None \<Rightarrow> 0)
               in if granted > entry then (best(subject \<mapsto> granted), True)
                  else (best(subject \<mapsto> entry), changed))"

text \<open>The outer loop: at most \<open>n\<close> rounds, left early by a round without change.\<close>

fun relax_rounds :: "nat \<Rightarrow> edge list \<Rightarrow> (node_id \<rightharpoonup> u8) \<Rightarrow> (node_id \<rightharpoonup> u8)" where
  "relax_rounds 0 es best = best"
| "relax_rounds (Suc n) es best =
     (let (best', changed) = fold relax es (best, False)
      in if changed then relax_rounds n es best' else best')"

definition reachable_depth ::
  "(edge set \<Rightarrow> edge list) \<Rightarrow> wot_authority \<Rightarrow> node_id \<Rightarrow> u8 option" where
  "reachable_depth iter w node =
     (if node = wa_owner w then
        (if node \<in> wa_revoked_keys w then None else Some (wa_max_depth w))
      else if node \<in> wa_revoked_keys w then None
      else
        let best = (if wa_owner w \<notin> wa_revoked_keys w then [wa_owner w \<mapsto> wa_max_depth w] else Map.empty)
        in relax_rounds (unat (wa_max_depth w) + 1) (valid_edges iter w) best node)"

definition reachable_depth_from ::
  "(edge set \<Rightarrow> edge list) \<Rightarrow> wot_authority \<Rightarrow> node_id \<Rightarrow> u8 \<Rightarrow> node_id \<Rightarrow> u8 option" where
  "reachable_depth_from iter w root root_budget node =
     (if node = root then (if root \<in> wa_revoked_keys w then None else Some root_budget)
      else if node \<in> wa_revoked_keys w \<or> root \<in> wa_revoked_keys w then None
      else relax_rounds (unat root_budget + 1) (valid_edges iter w) [root \<mapsto> root_budget] node)"

definition owns :: "(edge set \<Rightarrow> edge list) \<Rightarrow> wot_authority \<Rightarrow> node_id \<Rightarrow> node_id \<Rightarrow> bool" where
  "owns iter w user_primary node \<longleftrightarrow>
     reachable_depth_from iter w user_primary (wa_max_depth w) node \<noteq> None"

definition group_members ::
  "(edge set \<Rightarrow> edge list) \<Rightarrow> wot_authority \<Rightarrow> node_id \<Rightarrow> node_id set" where
  "group_members iter w parent =
     set (map (\<lambda>(_, subject, _). subject) (filter (\<lambda>(signer, _, _). signer = parent) (valid_edges iter w)))"

definition is_group_member ::
  "(edge set \<Rightarrow> edge list) \<Rightarrow> wot_authority \<Rightarrow> node_id \<Rightarrow> node_id \<Rightarrow> bool" where
  "is_group_member iter w parent subject \<longleftrightarrow>
     list_ex (\<lambda>(signer, s, _). signer = parent \<and> s = subject) (valid_edges iter w)"

definition is_authoritative :: "(edge set \<Rightarrow> edge list) \<Rightarrow> wot_authority \<Rightarrow> node_id \<Rightarrow> bool" where
  "is_authoritative iter w subject \<longleftrightarrow>
     subject \<notin> wa_revoked_grants w \<and> reachable_depth iter w subject \<noteq> None"

definition authoritative_set ::
  "(edge set \<Rightarrow> edge list) \<Rightarrow> wot_authority \<Rightarrow> node_id list \<Rightarrow> node_id set" where
  "authoritative_set iter w candidates = set (filter (is_authoritative iter w) candidates)"

definition can_relay :: "(edge set \<Rightarrow> edge list) \<Rightarrow> wot_authority \<Rightarrow> node_id \<Rightarrow> bool" where
  "can_relay iter w subject \<longleftrightarrow>
     \<not> (subject \<in> wa_revoked_grants w \<or> reachable_depth iter w subject = None)
     \<and> list_ex (\<lambda>(_, s, level). s = subject \<and> level \<ge> relay_min_level) (valid_edges iter w)"

section \<open>The fenced actor\<close>

datatype act_error = StaleView u64 u64 | NotAuthoritative

record acted_snapshot =
  as_watermark :: u64
  as_subject :: node_id

record fenced_actor =
  fa_watermark :: u64

definition actor_new :: fenced_actor where
  "actor_new = \<lparr>fa_watermark = 0\<rparr>"

definition actor_refresh :: "wot_authority \<Rightarrow> fenced_actor \<Rightarrow> fenced_actor" where
  "actor_refresh w a = a\<lparr>fa_watermark := rev_count w\<rparr>"

definition act ::
  "(edge set \<Rightarrow> edge list) \<Rightarrow> fenced_actor \<Rightarrow> wot_authority \<Rightarrow> node_id \<Rightarrow> act_error + acted_snapshot" where
  "act iter a w subject =
     (let current = rev_count w in
      if fa_watermark a \<noteq> current then Inl (StaleView (fa_watermark a) current)
      else if \<not> is_authoritative iter w subject then Inl NotAuthoritative
      else Inr \<lparr>as_watermark = current, as_subject = subject\<rparr>)"

text \<open>Histories of an authority: the four calls that change it.\<close>

datatype wot_op = IssueEdge node_id node_id u8 | RevokeKey node_id | RevokeEdge node_id node_id | RevokeGrant node_id

fun wot_exec :: "wot_authority \<Rightarrow> wot_op \<Rightarrow> wot_authority" where
  "wot_exec w (IssueEdge s n l) = issue_edge s n l w"
| "wot_exec w (RevokeKey k) = revoke_key k w"
| "wot_exec w (RevokeEdge s n) = revoke_edge s n w"
| "wot_exec w (RevokeGrant n) = revoke_grant n w"

lemmas wot_defs = issue_edge_def revoke_key_def revoke_edge_def revoke_grant_def

section \<open>Delegation chains\<close>

text \<open>
  The specification: a chain of \<open>k\<close> edges from the root, where every edge takes one from the budget
  and caps it at its level.
\<close>

inductive delegated :: "edge set \<Rightarrow> node_id \<Rightarrow> u8 \<Rightarrow> nat \<Rightarrow> node_id \<Rightarrow> u8 \<Rightarrow> bool"
  for E :: "edge set" and r :: node_id and B :: u8 where
  root: "delegated E r B 0 r B"
| hop: "delegated E r B k s b \<Longrightarrow> (s, n, l) \<in> E \<Longrightarrow> b \<noteq> 0 \<Longrightarrow>
     delegated E r B (Suc k) n (min (b - 1) l)"

lemma min_pred_less: "b \<noteq> 0 \<Longrightarrow> min (b - 1) l < (b :: u8)"
proof -
  assume "b \<noteq> 0"
  then have "b - 1 < b" by (simp add: word_less_nat_alt unat_minus_one unat_gt_0)
  then show ?thesis by (simp add: min_less_iff_disj)
qed

lemma delegated_length: "delegated E r B k n b \<Longrightarrow> unat b + k \<le> unat B"
proof (induction rule: delegated.induct)
  case (hop k s b n l)
  have "unat (min (b - 1) l) < unat b"
    using min_pred_less [OF hop.hyps(3)] by (simp add: word_less_nat_alt)
  then show ?case using hop.IH by simp
qed simp

lemma delegated_mono: "delegated E r B k n b \<Longrightarrow> E \<subseteq> E' \<Longrightarrow> delegated E' r B k n b"
  by (induction rule: delegated.induct) (auto intro: delegated.intros)

section \<open>The fixpoint\<close>

definition covers :: "(node_id \<rightharpoonup> u8) \<Rightarrow> node_id \<Rightarrow> u8 \<Rightarrow> bool" where
  "covers best n b \<longleftrightarrow> (\<exists>e. best n = Some e \<and> b \<le> e)"

lemma relax_covers: "covers best m b \<Longrightarrow> covers (fst (relax e (best, ch))) m b"
  by (cases e) (auto simp: covers_def Let_def split: option.splits dest: le_less_trans)

lemma relax_live:
  "best s = Some rb \<Longrightarrow> rb \<noteq> 0 \<Longrightarrow> min (rb - 1) l = g \<Longrightarrow> relax (s, n, l) (best, ch) =
     (case best n of
        None \<Rightarrow> (best(n \<mapsto> g), ch \<or> g \<noteq> 0)
      | Some e \<Rightarrow> if e < g then (best(n \<mapsto> g), True) else (best, ch))"
  by (auto simp: Let_def word_gt_0 fun_upd_idem split: option.splits)

lemma relax_idle: "best s = None \<or> best s = Some 0 \<Longrightarrow> relax (s, n, l) (best, ch) = (best, ch)"
  by auto

declare relax.simps [simp del]

lemma min_pred_mono: "b \<le> b' \<Longrightarrow> b \<noteq> 0 \<Longrightarrow> min (b - 1) l \<le> min (b' - 1) (l :: u8)"
proof -
  assume "b \<le> b'" "b \<noteq> 0"
  then have "b' \<noteq> 0" by auto
  with \<open>b \<le> b'\<close> \<open>b \<noteq> 0\<close> have "b - 1 \<le> b' - 1" by (simp add: word_le_nat_alt unat_minus_one)
  then show ?thesis by (rule min.mono) simp
qed

lemma relax_edge:
  assumes "covers best s b" "b \<noteq> 0"
  shows "covers (fst (relax (s, n, l) (best, ch))) n (min (b - 1) l)"
proof -
  obtain rb where rb: "best s = Some rb" "b \<le> rb" using assms(1) by (auto simp: covers_def)
  define g where "g = min (rb - 1) l"
  have "rb \<noteq> 0" using rb assms(2) by auto
  moreover have "min (b - 1) l \<le> g" using min_pred_mono [OF rb(2) assms(2)] by (simp add: g_def)
  ultimately show ?thesis
    using rb(1) by (auto simp: relax_live [of best s rb l g] g_def [symmetric] covers_def split: option.splits)
qed

lemma fold_relax_covers: "covers best m b \<Longrightarrow> covers (fst (fold relax es (best, ch))) m b"
proof (induction es arbitrary: best ch)
  case (Cons e es)
  show ?case
    using Cons.IH [OF relax_covers [OF Cons.prems, of e ch], of "snd (relax e (best, ch))"] by simp
qed simp

lemma fold_relax_edge:
  assumes "covers best s b" "b \<noteq> 0" "(s, n, l) \<in> set es"
  shows "covers (fst (fold relax es (best, ch))) n (min (b - 1) l)"
  using assms
proof (induction es arbitrary: best ch)
  case (Cons e es)
  let ?r = "relax e (best, ch)"
  have "covers (fst (fold relax es (fst ?r, snd ?r))) n (min (b - 1) l)"
  proof (cases "e = (s, n, l)")
    case True
    then show ?thesis using fold_relax_covers [OF relax_edge [OF Cons.prems(1,2)]] by blast
  next
    case False
    then have "(s, n, l) \<in> set es" using Cons.prems(3) by simp
    then show ?thesis by (rule Cons.IH [OF relax_covers [OF Cons.prems(1)] Cons.prems(2)])
  qed
  then show ?case by simp
qed simp

text \<open>Every entry of the table is the budget of a chain.\<close>

definition chained :: "edge set \<Rightarrow> node_id \<Rightarrow> u8 \<Rightarrow> (node_id \<rightharpoonup> u8) \<Rightarrow> bool" where
  "chained E r B best \<longleftrightarrow> (\<forall>m b. best m = Some b \<longrightarrow> (\<exists>k. delegated E r B k m b))"

lemma relax_chained:
  assumes "chained E r B best" "e \<in> E"
  shows "chained E r B (fst (relax e (best, ch)))"
proof (cases "best (fst e)")
  case (Some rb)
  obtain s n l where e: "e = (s, n, l)" by (cases e)
  obtain k where k: "delegated E r B k s rb"
    using assms(1) Some e by (auto simp: chained_def)
  define g where "g = min (rb - 1) l"
  have "\<exists>k. delegated E r B k n g" if "rb \<noteq> 0"
    using delegated.hop [OF k _ that] assms(2) e g_def by blast
  then show ?thesis
    using assms(1) Some e relax_live [of best s rb l g n ch] g_def relax_idle [of best s n l ch]
    by (cases "rb = 0") (auto simp: chained_def split: option.splits)
next
  case None
  then show ?thesis using assms(1) by (cases e) (simp add: relax_idle)
qed

lemma fold_relax_chained:
  assumes "chained E r B best" "set es \<subseteq> E"
  shows "chained E r B (fst (fold relax es (best, ch)))"
  using assms
proof (induction es arbitrary: best ch)
  case (Cons e es)
  show ?case
    using Cons.IH [OF relax_chained [OF Cons.prems(1), of e ch], of "snd (relax e (best, ch))"]
      Cons.prems(2) by simp
qed simp

lemma relax_rounds_chained:
  "chained E r B best \<Longrightarrow> set es \<subseteq> E \<Longrightarrow> chained E r B (relax_rounds n es best)"
proof (induction n arbitrary: best)
  case (Suc n)
  then show ?case
    using fold_relax_chained [OF Suc.prems, of False] by (auto simp: split_beta Let_def)
qed simp

text \<open>A round without change has only added empty budgets, so its result is closed.\<close>

definition only_zeros :: "(node_id \<rightharpoonup> u8) \<Rightarrow> (node_id \<rightharpoonup> u8) \<Rightarrow> bool" where
  "only_zeros best best' \<longleftrightarrow> (\<forall>m b. best' m = Some b \<longrightarrow> best m = Some b \<or> b = 0)"

lemma relax_unchanged:
  "relax e (best, ch) = (best', False) \<Longrightarrow> \<not> ch \<and> only_zeros best best'"
  by (cases e) (auto simp: relax.simps only_zeros_def Let_def split: option.splits if_splits)

lemma fold_relax_unchanged:
  "fold relax es (best, ch) = (best', False) \<Longrightarrow> \<not> ch \<and> only_zeros best best'"
proof (induction es arbitrary: best ch)
  case (Cons e es)
  obtain b1 c1 where r: "relax e (best, ch) = (b1, c1)" by fastforce
  then have "\<not> c1 \<and> only_zeros b1 best'" using Cons.IH [of b1 c1] Cons.prems by simp
  moreover from this r have "\<not> ch \<and> only_zeros best b1" using relax_unchanged [of e best ch b1] by simp
  ultimately have "\<not> ch \<and> only_zeros best b1 \<and> only_zeros b1 best'" by blast
  then show ?case by (auto simp: only_zeros_def)
qed (simp add: only_zeros_def)

definition covers_upto :: "edge set \<Rightarrow> node_id \<Rightarrow> u8 \<Rightarrow> nat \<Rightarrow> (node_id \<rightharpoonup> u8) \<Rightarrow> bool" where
  "covers_upto E r B k best \<longleftrightarrow> (\<forall>j m b. j \<le> k \<longrightarrow> delegated E r B j m b \<longrightarrow> covers best m b)"

lemma covers_upto_round:
  assumes "covers_upto E r B k best" "E \<subseteq> set es"
  shows "covers_upto E r B (Suc k) (fst (fold relax es (best, ch)))"
  unfolding covers_upto_def
proof (intro allI impI)
  fix j m b
  assume j: "j \<le> Suc k" and d: "delegated E r B j m b"
  from d show "covers (fst (fold relax es (best, ch))) m b"
  proof cases
    case root
    then show ?thesis using assms(1) fold_relax_covers d by (auto simp: covers_upto_def)
  next
    case (hop i s c l)
    then have "covers best s c" using assms(1) j by (auto simp: covers_upto_def)
    then show ?thesis using fold_relax_edge hop assms(2) by blast
  qed
qed

lemma closed_covers:
  assumes "covers best r B" "fold relax es (best, False) = (best', False)" "E \<subseteq> set es"
    "delegated E r B k m b"
  shows "covers best' m b"
  using assms(4)
proof (induction rule: delegated.induct)
  case root
  show ?case using fold_relax_covers [OF assms(1), of es False] assms(2) by simp
next
  case (hop k s b n l)
  have "only_zeros best best'" using fold_relax_unchanged [OF assms(2)] by blast
  moreover obtain e where e: "best' s = Some e" "b \<le> e" using hop.IH by (auto simp: covers_def)
  moreover have "e \<noteq> 0" using e(2) hop.hyps(3) by auto
  ultimately have "best s = Some e" by (auto simp: only_zeros_def)
  then have "covers best s b" using e by (simp add: covers_def)
  then show ?case
    using fold_relax_edge [of best s b n l es False] hop.hyps(2,3) assms(2,3) by auto
qed

lemma relax_rounds_covers:
  assumes "covers_upto E r B k best" "E \<subseteq> set es"
  shows "covers_upto E r B (k + n) (relax_rounds n es best)"
  using assms(1)
proof (induction n arbitrary: k best)
  case (Suc n)
  obtain best' ch where f: "fold relax es (best, False) = (best', ch)" by fastforce
  show ?case
  proof (cases ch)
    case True
    have "covers_upto E r B (Suc k) best'" using covers_upto_round [OF Suc.prems assms(2), of False] f by simp
    then show ?thesis using Suc.IH [of "Suc k" best'] f True by simp
  next
    case False
    have "covers best r B" using Suc.prems delegated.root by (auto simp: covers_upto_def)
    then show ?thesis using closed_covers [OF _ _ assms(2)] f False by (auto simp: covers_upto_def)
  qed
qed simp

text \<open>The best budget of any chain.\<close>

definition best_budget :: "edge set \<Rightarrow> node_id \<Rightarrow> u8 \<Rightarrow> node_id \<Rightarrow> u8 option \<Rightarrow> bool" where
  "best_budget E r B n res \<longleftrightarrow>
     (case res of
        None \<Rightarrow> \<forall>k b. \<not> delegated E r B k n b
      | Some d \<Rightarrow> (\<exists>k. delegated E r B k n d) \<and> (\<forall>k b. delegated E r B k n b \<longrightarrow> b \<le> d))"

lemma relax_rounds_best:
  assumes "set es = E"
  shows "best_budget E r B n (relax_rounds (unat B + 1) es [r \<mapsto> B] n)"
proof -
  let ?f = "relax_rounds (unat B + 1) es [r \<mapsto> B]"
  have "chained E r B [r \<mapsto> B]"
    by (auto simp: chained_def intro: delegated.root split: if_splits)
  then have sound: "chained E r B ?f" using relax_rounds_chained assms by blast
  have "covers_upto E r B 0 [r \<mapsto> B]"
    by (auto simp: covers_upto_def covers_def elim: delegated.cases)
  then have cov: "covers_upto E r B (unat B + 1) ?f"
    using relax_rounds_covers [of E r B 0 _ es "unat B + 1"] assms by simp
  have "covers ?f n b" if "delegated E r B k n b" for k b
  proof -
    have "k \<le> unat B + 1" using delegated_length [OF that] by simp
    then show ?thesis using cov that unfolding covers_upto_def by blast
  qed
  then show ?thesis
    using sound unfolding best_budget_def chained_def covers_def
    by (fastforce simp del: relax_rounds.simps split: option.split)
qed

section \<open>Reachable authorities\<close>

definition live_edges :: "wot_authority \<Rightarrow> edge set" where
  "live_edges w = {e \<in> wa_edges w. edge_valid w e}"

lemma set_valid_edges:
  "hash_iter iter \<Longrightarrow> finite (wa_edges w) \<Longrightarrow> set (valid_edges iter w) = live_edges w"
  by (simp add: valid_edges_def live_edges_def hash_iter_def)

definition wot_inv :: "wot_authority \<Rightarrow> bool" where
  "wot_inv w \<longleftrightarrow> finite (wa_edges w) \<and> finite (wa_revoked_keys w) \<and> finite (wa_revoked_edges w)
     \<and> finite (wa_revoked_grants w)"

lemma wot_inv_new [wf_intros]: "wot_inv (wot_new r d)"
  by (simp add: wot_inv_def wot_new_def)

lemma wot_inv_exec [wf_intros]: "wot_inv w \<Longrightarrow> wot_inv (wot_exec w x)"
  by (cases x) (simp_all add: wot_inv_def wot_defs)

lemma wot_inv_run [wf_intros]: "wot_inv w \<Longrightarrow> wot_inv (foldl wot_exec w xs)"
  by (induction xs arbitrary: w) (simp_all add: wot_inv_exec)

lemma wot_run_fixed [simp]:
  "wa_owner (foldl wot_exec w xs) = wa_owner w" "wa_max_depth (foldl wot_exec w xs) = wa_max_depth w"
proof -
  have step: "wa_owner (wot_exec w x) = wa_owner w \<and> wa_max_depth (wot_exec w x) = wa_max_depth w"
    for w x by (cases x) (simp_all add: wot_defs)
  show "wa_owner (foldl wot_exec w xs) = wa_owner w" "wa_max_depth (foldl wot_exec w xs) = wa_max_depth w"
    by (induction xs arbitrary: w) (simp_all add: step)
qed

definition revoked_le :: "wot_authority \<Rightarrow> wot_authority \<Rightarrow> bool" where
  "revoked_le w w' \<longleftrightarrow> wa_revoked_keys w \<subseteq> wa_revoked_keys w'
     \<and> wa_revoked_edges w \<subseteq> wa_revoked_edges w' \<and> wa_revoked_grants w \<subseteq> wa_revoked_grants w'"

lemma revoked_le_run: "revoked_le w (foldl wot_exec w xs)"
proof (induction xs arbitrary: w)
  case (Cons x xs)
  have "revoked_le w (wot_exec w x)" by (cases x) (auto simp: revoked_le_def wot_defs)
  then show ?case using Cons.IH [of "wot_exec w x"] by (auto simp: revoked_le_def)
qed (simp add: revoked_le_def)

lemma best_budget_root: "best_budget E r B r (Some B)"
  by (auto simp: best_budget_def word_le_nat_alt intro: delegated.root dest: delegated_length)

lemma reachable_depth_best:
  assumes "hash_iter iter" "wot_inv w" "wa_owner w \<notin> wa_revoked_keys w" "n \<notin> wa_revoked_keys w"
  shows "best_budget (live_edges w) (wa_owner w) (wa_max_depth w) n (reachable_depth iter w n)"
  using relax_rounds_best [OF set_valid_edges, of iter w] best_budget_root assms
  by (auto simp: reachable_depth_def wot_inv_def simp del: relax_rounds.simps)

lemma relax_rounds_empty: "relax_rounds n es Map.empty = Map.empty"
proof -
  have "fold relax es (Map.empty, False) = (Map.empty, False)"
  proof (induction es)
    case (Cons e es)
    then show ?case by (cases e) (simp add: relax_idle)
  qed simp
  then show ?thesis by (cases n) simp_all
qed

lemma reachable_depth_revoked:
  "wa_owner w \<in> wa_revoked_keys w \<or> n \<in> wa_revoked_keys w \<Longrightarrow> reachable_depth iter w n = None"
  by (auto simp: reachable_depth_def relax_rounds_empty simp del: relax_rounds.simps)

lemma reachable_depth_chain:
  assumes "hash_iter iter" "wot_inv w"
  shows "reachable_depth iter w n \<noteq> None \<longleftrightarrow>
    wa_owner w \<notin> wa_revoked_keys w \<and> n \<notin> wa_revoked_keys w
    \<and> (\<exists>k b. delegated (live_edges w) (wa_owner w) (wa_max_depth w) k n b)"
  using reachable_depth_best [OF assms, of n] reachable_depth_revoked [of w n iter]
  by (cases "wa_owner w \<in> wa_revoked_keys w \<or> n \<in> wa_revoked_keys w"; cases "reachable_depth iter w n")
    (auto simp: best_budget_def)

lemma reachable_depth_from_best:
  assumes "hash_iter iter" "wot_inv w" "r \<notin> wa_revoked_keys w" "n \<notin> wa_revoked_keys w"
  shows "best_budget (live_edges w) r B n (reachable_depth_from iter w r B n)"
  using relax_rounds_best [OF set_valid_edges, of iter w] best_budget_root assms
  by (auto simp: reachable_depth_from_def wot_inv_def simp del: relax_rounds.simps)

text \<open>
  \<^bold>\<open>C16.\<close> For every history of an authority and every iteration order of its edge set, the bounded
  fixpoint of \<open>reachable_depth\<close> computes the greatest budget any delegation chain from the owner
  over unrevoked edges leaves at the node, and \<open>None\<close> exactly when there is no chain or the key of
  the owner or the node is revoked; \<open>reachable_depth_from\<close> does the same from any root. The result
  does not depend on the iteration order, and \<open>max_depth + 1\<close> rounds are enough.
\<close>

theorem reachable_depth_exact:
  assumes "hash_iter iter" and "w = foldl wot_exec (wot_new r d) xs"
  shows "(if r \<in> wa_revoked_keys w \<or> n \<in> wa_revoked_keys w then reachable_depth iter w n = None
      else best_budget (live_edges w) r d n (reachable_depth iter w n))
    \<and> (if u \<in> wa_revoked_keys w \<or> n \<in> wa_revoked_keys w then reachable_depth_from iter w u B n = None
      else best_budget (live_edges w) u B n (reachable_depth_from iter w u B n))
    \<and> (owns iter w u n \<longleftrightarrow> u \<notin> wa_revoked_keys w \<and> n \<notin> wa_revoked_keys w
        \<and> (\<exists>k b. delegated (live_edges w) u d k n b))"
proof -
  have inv: "wot_inv w" "wa_owner w = r" "wa_max_depth w = d"
    using assms(2) wot_inv_run [OF wot_inv_new] by (auto simp: wot_new_def)
  have none: "reachable_depth_from iter w u B n = None"
    if "u \<in> wa_revoked_keys w \<or> n \<in> wa_revoked_keys w" for B
    using that by (auto simp: reachable_depth_from_def)
  have "owns iter w u n \<longleftrightarrow> u \<notin> wa_revoked_keys w \<and> n \<notin> wa_revoked_keys w
        \<and> (\<exists>k b. delegated (live_edges w) u d k n b)"
    using none [of d] reachable_depth_from_best [OF assms(1) inv(1), of u n d] inv(3)
    by (cases "reachable_depth_from iter w u d n") (auto simp: owns_def best_budget_def)
  then show ?thesis
    using none reachable_depth_from_best [OF assms(1) inv(1)] reachable_depth_best [OF assms(1) inv(1), of n]
      reachable_depth_revoked [of w n iter] inv by simp
qed

text \<open>
  Revocation is permanent and only narrows: once a key or a grant is revoked, no later calls
  make its subject authoritative or a relay again; when the key is the owner's, nobody is
  authoritative; and calls that only revoke never make a subject authoritative that was not.
\<close>

theorem wot_revocation_permanent:
  assumes "hash_iter iter" and "w = foldl wot_exec (wot_new r d) xs"
  shows "(RevokeKey n \<in> set xs \<or> RevokeGrant n \<in> set xs \<longrightarrow>
       \<not> is_authoritative iter w n \<and> \<not> can_relay iter w n)
    \<and> (RevokeKey r \<in> set xs \<longrightarrow> \<not> is_authoritative iter w m)
    \<and> (list_all (\<lambda>x. \<forall>s t l. x \<noteq> IssueEdge s t l) ys \<longrightarrow> is_authoritative iter (foldl wot_exec w ys) m
        \<longrightarrow> is_authoritative iter w m)"
proof -
  have inv: "wot_inv w" "wa_owner w = r"
    using assms(2) wot_inv_run [OF wot_inv_new] by (auto simp: wot_new_def)
  have kept: "(RevokeKey k \<in> set xs \<longrightarrow> k \<in> wa_revoked_keys (foldl wot_exec v xs))
    \<and> (RevokeGrant k \<in> set xs \<longrightarrow> k \<in> wa_revoked_grants (foldl wot_exec v xs))" for k v
  proof (induction xs arbitrary: v)
    case (Cons x xs)
    show ?case using Cons.IH [of "wot_exec v x"] revoked_le_run [of "wot_exec v x" xs]
      by (auto simp: revoked_le_def wot_defs)
  qed simp
  have edges: "wa_edges (foldl wot_exec v ys) = wa_edges v"
    if "list_all (\<lambda>x. \<forall>s t l. x \<noteq> IssueEdge s t l) ys" for v
    using that
  proof (induction ys arbitrary: v)
    case (Cons x ys)
    then have "wa_edges (wot_exec v x) = wa_edges v" by (cases x) (auto simp: wot_defs)
    then show ?case using Cons by simp
  qed simp
  have "is_authoritative iter w m"
    if "list_all (\<lambda>x. \<forall>s t l. x \<noteq> IssueEdge s t l) ys" and a: "is_authoritative iter (foldl wot_exec w ys) m"
  proof -
    let ?w = "foldl wot_exec w ys"
    have le: "revoked_le w ?w" by (rule revoked_le_run)
    then have "live_edges ?w \<subseteq> live_edges w"
      using edges [OF that(1), of w] by (auto simp: live_edges_def revoked_le_def)
    then show ?thesis
      using a le delegated_mono reachable_depth_chain [OF assms(1) inv(1), of m]
        reachable_depth_chain [OF assms(1) wot_inv_run [OF inv(1)], of ys m]
      by (auto simp: is_authoritative_def revoked_le_def) blast
  qed
  then show ?thesis
    using kept [of n "wot_new r d"] kept [of r "wot_new r d"] assms(2) inv(2)
      reachable_depth_revoked [of w _ iter]
    by (auto simp: is_authoritative_def can_relay_def)
qed

section \<open>Revoke before act\<close>

definition rev_total :: "wot_authority \<Rightarrow> nat" where
  "rev_total w = card (wa_revoked_keys w) + card (wa_revoked_edges w) + card (wa_revoked_grants w)"

lemma rev_total_run: "wot_inv w \<Longrightarrow> rev_total (foldl wot_exec w xs) \<le> rev_total w + length xs"
proof (induction xs arbitrary: w)
  case (Cons x xs)
  have "rev_total (wot_exec w x) \<le> rev_total w + 1"
    using Cons.prems by (cases x) (simp_all add: rev_total_def wot_inv_def wot_defs card_insert_if)
  then show ?case using Cons.IH [OF wot_inv_exec [OF Cons.prems], of x] by simp
qed simp

lemma rev_count_unchanged:
  assumes "wot_inv w" "revoked_le v w" "rev_total w < 2 ^ 64" "rev_count v = rev_count w"
  shows "revoked_le w v"
proof -
  have fin: "finite (wa_revoked_keys w)" "finite (wa_revoked_edges w)" "finite (wa_revoked_grants w)"
    using assms(1) by (auto simp: wot_inv_def)
  have sub: "wa_revoked_keys v \<subseteq> wa_revoked_keys w" "wa_revoked_edges v \<subseteq> wa_revoked_edges w"
    "wa_revoked_grants v \<subseteq> wa_revoked_grants w"
    using assms(2) by (auto simp: revoked_le_def)
  have le: "card (wa_revoked_keys v) \<le> card (wa_revoked_keys w)"
    "card (wa_revoked_edges v) \<le> card (wa_revoked_edges w)"
    "card (wa_revoked_grants v) \<le> card (wa_revoked_grants w)"
    using card_mono fin sub by blast+
  have "unat (of_nat (rev_total v) :: u64) = unat (of_nat (rev_total w) :: u64)"
    using assms(4) by (simp add: rev_count_def rev_total_def)
  moreover have "rev_total v < 2 ^ 64" using le assms(3) by (simp add: rev_total_def)
  ultimately have "rev_total v = rev_total w"
    using assms(3) by (simp add: unsigned_of_nat take_bit_nat_eq_self)
  then have "card (wa_revoked_keys w) \<le> card (wa_revoked_keys v)"
    "card (wa_revoked_edges w) \<le> card (wa_revoked_edges v)"
    "card (wa_revoked_grants w) \<le> card (wa_revoked_grants v)"
    using le by (simp_all add: rev_total_def)
  then show ?thesis
    using card_seteq [OF fin(1) sub(1)] card_seteq [OF fin(2) sub(2)] card_seteq [OF fin(3) sub(3)]
    by (auto simp: revoked_le_def)
qed

text \<open>
  Revoke before act. An actor that refreshed at some point of a history acts on a subject
  after further calls only if not one new revocation happened in between, and then the subject
  has, at the moment of the act, an unrevoked grant and a chain of unrevoked edges from an owner
  with an unrevoked key; if anything was revoked in between, it answers with the stale view. The
  number of calls is below \<open>2^64\<close>, so that the watermark cannot wrap around.
\<close>

theorem revoke_before_act:
  assumes "hash_iter iter" and "w0 = foldl wot_exec (wot_new r d) xs" and "w = foldl wot_exec w0 ys"
    and "length xs + length ys < 2 ^ 64"
  shows "(act iter (actor_refresh w0 a) w n = Inl (StaleView (rev_count w0) (rev_count w))
        \<longleftrightarrow> \<not> revoked_le w w0)
    \<and> (act iter (actor_refresh w0 a) w n = Inr s \<longleftrightarrow>
        revoked_le w w0 \<and> s = \<lparr>as_watermark = rev_count w, as_subject = n\<rparr>
        \<and> n \<notin> wa_revoked_grants w \<and> n \<notin> wa_revoked_keys w \<and> r \<notin> wa_revoked_keys w
        \<and> (\<exists>k b. delegated (live_edges w) r d k n b))"
proof -
  have inv0: "wot_inv w0" "wot_inv w" using assms(2,3) wot_inv_run wot_inv_new by auto
  have own: "wa_owner w = r" "wa_max_depth w = d" using assms(2,3) by (auto simp: wot_new_def)
  have "rev_total w \<le> rev_total (wot_new r d) + length (xs @ ys)"
    using rev_total_run [OF wot_inv_new, of r d "xs @ ys"] assms(2,3) by simp
  then have small: "rev_total w < 2 ^ 64" using assms(4) by (simp add: rev_total_def wot_new_def)
  have le: "revoked_le w0 w" using assms(3) revoked_le_run by simp
  have "rev_count w0 = rev_count w \<longleftrightarrow> revoked_le w w0"
  proof
    assume "revoked_le w w0"
    then show "rev_count w0 = rev_count w" using le unfolding revoked_le_def rev_count_def
      by (metis subset_antisym)
  qed (use rev_count_unchanged [OF inv0(2) le small] in blast)
  then show ?thesis
    using reachable_depth_chain [OF assms(1) inv0(2), of n] own
    by (auto simp: act_def actor_refresh_def is_authoritative_def Let_def)
qed

section \<open>Witnesses\<close>

lemma hash_iter_sorted: "hash_iter (sorted_list_of_set :: edge set \<Rightarrow> edge list)"
  by (simp add: hash_iter_def)

definition wot_demo_ops :: "wot_op list" where
  "wot_demo_ops = [IssueEdge ''owner'' ''alice'' 2, IssueEdge ''alice'' ''bob'' 2]"

lemma wot_demo_reach:
  "reachable_depth sorted_list_of_set (foldl wot_exec (wot_new ''owner'' 3) wot_demo_ops) ''bob'' = Some 1"
  by code_simp

theorem reachable_depth_exact_witness:
  "best_budget (live_edges (foldl wot_exec (wot_new ''owner'' 3) wot_demo_ops)) ''owner'' 3 ''bob'' (Some 1)"
proof -
  let ?w = "foldl wot_exec (wot_new ''owner'' 3) wot_demo_ops"
  have "wa_revoked_keys ?w = {}" by (simp add: wot_demo_ops_def wot_new_def wot_defs)
  then show ?thesis
    using reachable_depth_exact [OF hash_iter_sorted refl, of "''owner''" 3 wot_demo_ops "''bob''"]
      wot_demo_reach by simp
qed

theorem wot_revocation_permanent_witness:
  "\<not> is_authoritative sorted_list_of_set
      (foldl wot_exec (wot_new ''owner'' 3) (RevokeKey ''bob'' # wot_demo_ops)) ''bob''"
  using wot_revocation_permanent [OF hash_iter_sorted refl, of "''bob''" "RevokeKey ''bob'' # wot_demo_ops"]
  by simp

theorem revoke_before_act_witness:
  "act sorted_list_of_set (actor_refresh (foldl wot_exec (wot_new ''owner'' 3) wot_demo_ops) actor_new)
      (foldl wot_exec (foldl wot_exec (wot_new ''owner'' 3) wot_demo_ops) [RevokeEdge ''owner'' ''alice'']) ''bob''
     = Inl (StaleView 0 1)"
proof -
  let ?w = "foldl wot_exec (wot_new ''owner'' 3) wot_demo_ops"
  have w: "wa_revoked_keys ?w = {}" "wa_revoked_edges ?w = {}" "wa_revoked_grants ?w = {}"
    by (simp_all add: wot_demo_ops_def wot_new_def wot_defs)
  have "\<not> revoked_le (foldl wot_exec ?w [RevokeEdge ''owner'' ''alice'']) ?w"
    by (simp add: revoked_le_def wot_defs w)
  moreover have "rev_count ?w = 0" "rev_count (foldl wot_exec ?w [RevokeEdge ''owner'' ''alice'']) = 1"
    by (simp_all add: rev_count_def wot_defs w)
  moreover have "length wot_demo_ops + length [RevokeEdge ''owner'' ''alice''] < 2 ^ 64"
    by (simp add: wot_demo_ops_def)
  ultimately show ?thesis
    using revoke_before_act [OF hash_iter_sorted refl refl, of wot_demo_ops "[RevokeEdge ''owner'' ''alice'']"
        "''owner''" 3 actor_new "''bob''"] by metis
qed

text \<open>
  A stranger can make a member a relay: the direct edge that \<open>can_relay\<close> asks for may come from a
  signer the owner does not reach.
\<close>

theorem relay_by_untrusted_edge:
  "\<exists>w. w = foldl wot_exec (wot_new ''owner'' 3) [IssueEdge ''owner'' ''alice'' 0, IssueEdge ''mallory'' ''alice'' 2]
     \<and> reachable_depth sorted_list_of_set w ''mallory'' = None
     \<and> can_relay sorted_list_of_set w ''alice''
     \<and> \<not> can_relay sorted_list_of_set (revoke_key ''mallory'' w) ''alice''"
  by (rule exI, intro conjI, rule refl) code_simp+

end
