(* ===== verification/SessionRegistry.thy ===== *)
theory SessionRegistry
  imports DocWrites WotAuthority
begin

text \<open>
  \<^verbatim>\<open>crates/pillar-identity/src/session_registry.rs\<close>: the sessions of the principals,
  kept in the keyed store as one value per slot, their revocation, and the fenced view that admits
  actions.

  The record \<open>session_env\<close> collects what comes from outside: the codec of ops and the digest of
  the store, the codec \<open>se_ser\<close>, \<open>se_de\<close> of sessions (crate \<open>serde_json\<close>), and the iteration
  order \<open>se_iter\<close> of a \<open>HashSet\<close>. Additions on \<open>u64\<close> are those of an unchecked build.
\<close>

section \<open>Sessions\<close>

record session =
  ss_id :: string
  ss_principal :: string
  ss_origin :: string
  ss_issued_at :: u64
  ss_last_seen :: u64
  ss_expiry :: u64
  ss_mint_epoch :: u64
  ss_revoked_epoch :: "u64 option"

definition session_is_revoked :: "session \<Rightarrow> bool" where
  "session_is_revoked x \<longleftrightarrow> ss_revoked_epoch x \<noteq> None"

definition session_is_expired :: "session \<Rightarrow> u64 \<Rightarrow> bool" where
  "session_is_expired x now \<longleftrightarrow> now \<ge> ss_expiry x"

definition session_is_active :: "session \<Rightarrow> u64 \<Rightarrow> bool" where
  "session_is_active x now \<longleftrightarrow> \<not> session_is_revoked x \<and> \<not> session_is_expired x now"

datatype revoke_error = NoSuchSession

record session_env =
  se_enc :: encoder
  se_dec :: decoder
  se_sha :: sha256
  se_ser :: "session \<Rightarrow> bytes"
  se_de :: "bytes \<Rightarrow> session option"
  se_iter :: "string set \<Rightarrow> string list"

section \<open>The registry\<close>

record session_registry =
  sr_rev_epoch :: u64
  sr_store :: keyed_store
  sr_clock :: u64
  sr_by_principal :: "(string, string set) btree_map"

definition sessions_collection :: string where
  "sessions_collection = ''sessions''"

definition registry_with_shared_store :: "keyed_store \<Rightarrow> session_registry" where
  "registry_with_shared_store st =
     \<lparr>sr_rev_epoch = 0, sr_store = st, sr_clock = 0, sr_by_principal = btree_new\<rparr>"

definition registry_new :: session_registry where
  "registry_new = registry_with_shared_store keyed_store_new"

definition session_kv_key :: "string \<Rightarrow> string \<Rightarrow> string" where
  "session_kv_key prin i = prin @ [CHR 0x00] @ i"

definition session_next_hlc :: "session_registry \<Rightarrow> hlc \<times> session_registry" where
  "session_next_hlc s =
     (let t = sr_clock s + 1 in (hlc_new t 0 ''session-registry'', s\<lparr>sr_clock := t\<rparr>))"

definition session_get :: "session_env \<Rightarrow> session_registry \<Rightarrow> string \<Rightarrow> string \<Rightarrow> session option" where
  "session_get env s prin i =
     (case kv_get (se_dec env) (sr_store s) sessions_collection (session_kv_key prin i) of
        None \<Rightarrow> None
      | Some bs \<Rightarrow> se_de env bs)"

definition principal_ids :: "session_registry \<Rightarrow> string \<Rightarrow> string set" where
  "principal_ids s prin =
     (case btree_get (sr_by_principal s) prin of None \<Rightarrow> {} | Some ids \<Rightarrow> ids)"

definition session_put :: "session_env \<Rightarrow> session \<Rightarrow> session_registry \<Rightarrow> session_registry" where
  "session_put env x s =
     (let key = session_kv_key (ss_principal x) (ss_id x); bs = se_ser env x in
      case session_next_hlc s of (h, s) \<Rightarrow>
        s\<lparr>sr_store := snd (kv_put (se_enc env) (se_sha env) (sr_store s) sessions_collection key bs h),
          sr_by_principal := btree_insert (ss_principal x) (insert (ss_id x) (principal_ids s (ss_principal x)))
            (sr_by_principal s)\<rparr>)"

definition session_kv_keys :: "session_env \<Rightarrow> session_registry \<Rightarrow> string list" where
  "session_kv_keys env s = kv_keys (se_dec env) (sr_store s) sessions_collection"

definition session_mint_with_origin ::
  "session_env \<Rightarrow> string \<Rightarrow> string \<Rightarrow> u64 \<Rightarrow> u64 \<Rightarrow> string \<Rightarrow> session_registry \<Rightarrow> session \<times> session_registry" where
  "session_mint_with_origin env prin i issued_at expiry origin s =
     (let x = \<lparr>ss_id = i, ss_principal = prin, ss_origin = origin, ss_issued_at = issued_at,
            ss_last_seen = issued_at, ss_expiry = expiry, ss_mint_epoch = sr_rev_epoch s,
            ss_revoked_epoch = None\<rparr>
      in (x, session_put env x s))"

definition session_mint ::
  "session_env \<Rightarrow> string \<Rightarrow> string \<Rightarrow> u64 \<Rightarrow> u64 \<Rightarrow> session_registry \<Rightarrow> session \<times> session_registry" where
  "session_mint env prin i issued_at expiry s =
     session_mint_with_origin env prin i issued_at expiry ''unknown'' s"

definition session_touch ::
  "session_env \<Rightarrow> string \<Rightarrow> string \<Rightarrow> u64 \<Rightarrow> session_registry \<Rightarrow> bool \<times> session_registry" where
  "session_touch env prin i now s =
     (case session_get env s prin i of
        Some x \<Rightarrow> (True, session_put env (x\<lparr>ss_last_seen := now\<rparr>) s)
      | None \<Rightarrow> (False, s))"

definition session_revoke_one ::
  "session_env \<Rightarrow> string \<Rightarrow> string \<Rightarrow> session_registry \<Rightarrow> (revoke_error + unit) \<times> session_registry" where
  "session_revoke_one env prin i s =
     (case session_get env s prin i of
        None \<Rightarrow> (Inl NoSuchSession, s)
      | Some x \<Rightarrow>
          let s = s\<lparr>sr_rev_epoch := sr_rev_epoch s + 1\<rparr>
          in (Inr (), session_put env (x\<lparr>ss_revoked_epoch := Some (sr_rev_epoch s)\<rparr>) s))"

text \<open>The body of the two sweeps.\<close>

definition session_sweep_one ::
  "session_env \<Rightarrow> string \<Rightarrow> u64 \<Rightarrow> string \<Rightarrow> session_registry \<Rightarrow> session_registry" where
  "session_sweep_one env prin new_epoch i s =
     (case session_get env s prin i of
        Some x \<Rightarrow>
          if ss_revoked_epoch x = None
          then session_put env (x\<lparr>ss_revoked_epoch := Some new_epoch\<rparr>) s else s
      | None \<Rightarrow> s)"

definition session_revoke_all :: "session_env \<Rightarrow> string \<Rightarrow> session_registry \<Rightarrow> session_registry" where
  "session_revoke_all env prin s =
     (let s = s\<lparr>sr_rev_epoch := sr_rev_epoch s + 1\<rparr>;
          ids = se_iter env (principal_ids s prin)
      in fold (session_sweep_one env prin (sr_rev_epoch s)) ids s)"

definition session_revoke_all_but_current ::
  "session_env \<Rightarrow> string \<Rightarrow> string \<Rightarrow> session_registry \<Rightarrow> session_registry" where
  "session_revoke_all_but_current env prin keep s =
     (let s = s\<lparr>sr_rev_epoch := sr_rev_epoch s + 1\<rparr>;
          ids = se_iter env (principal_ids s prin)
      in fold (\<lambda>i s'. if i = keep then s' else session_sweep_one env prin (sr_rev_epoch s) i s') ids s)"

definition session_show :: "session_env \<Rightarrow> session_registry \<Rightarrow> string \<Rightarrow> string \<Rightarrow> session option" where
  "session_show env s prin i = session_get env s prin i"

definition session_ls :: "session_env \<Rightarrow> session_registry \<Rightarrow> string \<Rightarrow> u64 \<Rightarrow> session list" where
  "session_ls env s prin now =
     filter (\<lambda>x. session_is_active x now)
       (List.map_filter (session_get env s prin) (se_iter env (principal_ids s prin)))"

section \<open>The fenced view\<close>

datatype admit_error = StaleView (ad_local: u64) (ad_current: u64) | AdmitNoSuchSession | Revoked | Expired

record admitted_snapshot =
  as_epoch :: u64
  as_principal :: string
  as_id :: string

record session_view =
  sv_watermark :: u64

definition session_view_new :: session_view where
  "session_view_new = \<lparr>sv_watermark = 0\<rparr>"

definition session_view_refresh :: "session_registry \<Rightarrow> session_view \<Rightarrow> session_view" where
  "session_view_refresh s v = v\<lparr>sv_watermark := sr_rev_epoch s\<rparr>"

definition session_admit ::
  "session_env \<Rightarrow> session_view \<Rightarrow> session_registry \<Rightarrow> string \<Rightarrow> string \<Rightarrow> u64 \<Rightarrow> admit_error + admitted_snapshot" where
  "session_admit env v s prin i now =
     (let current = sr_rev_epoch s in
      if sv_watermark v \<noteq> current then Inl (StaleView (sv_watermark v) current)
      else case session_show env s prin i of
        None \<Rightarrow> Inl AdmitNoSuchSession
      | Some x \<Rightarrow>
          if session_is_revoked x then Inl Revoked
          else if session_is_expired x now then Inl Expired
          else Inr \<lparr>as_epoch = current, as_principal = prin, as_id = i\<rparr>)"

section \<open>The registry as a state machine\<close>

datatype session_call =
    MintCall string string u64 u64 string
  | TouchCall string string u64
  | RevokeOneCall string string
  | RevokeAllCall string
  | RevokeAllButCall string string

fun session_step :: "session_env \<Rightarrow> session_call \<Rightarrow> session_registry \<Rightarrow> session_registry" where
  "session_step env (MintCall p i t e orig) s = snd (session_mint_with_origin env p i t e orig s)"
| "session_step env (TouchCall p i t) s = snd (session_touch env p i t s)"
| "session_step env (RevokeOneCall p i) s = snd (session_revoke_one env p i s)"
| "session_step env (RevokeAllCall p) s = session_revoke_all env p s"
| "session_step env (RevokeAllButCall p keep) s = session_revoke_all_but_current env p keep s"

text \<open>
  The scope of a run: the slots it names, the origins and times it gives, and a bound on the
  clock and on the epoch.
\<close>

record session_scope =
  sc_slots :: "(string \<times> string) set"
  sc_origins :: "string set"
  sc_times :: "u64 set"
  sc_bound :: nat

fun call_in_scope :: "session_scope \<Rightarrow> session_call \<Rightarrow> bool" where
  "call_in_scope sc (MintCall p i t e orig) \<longleftrightarrow>
     (p, i) \<in> sc_slots sc \<and> t \<in> sc_times sc \<and> e \<in> sc_times sc \<and> orig \<in> sc_origins sc"
| "call_in_scope sc (TouchCall p i t) \<longleftrightarrow> (p, i) \<in> sc_slots sc \<and> t \<in> sc_times sc"
| "call_in_scope sc (RevokeOneCall p i) \<longleftrightarrow> (p, i) \<in> sc_slots sc"
| "call_in_scope sc (RevokeAllCall p) \<longleftrightarrow> True"
| "call_in_scope sc (RevokeAllButCall p keep) \<longleftrightarrow> True"

inductive session_trace ::
  "session_env \<Rightarrow> session_scope \<Rightarrow> session_registry \<Rightarrow> session_call list \<Rightarrow> session_registry \<Rightarrow> bool"
  for env sc s where
  trace_start: "session_trace env sc s [] s"
| trace_step: "session_trace env sc s cs s' \<Longrightarrow> call_in_scope sc c \<Longrightarrow>
    unat (sr_clock s') + card (sc_slots sc) \<le> sc_bound sc \<Longrightarrow> unat (sr_rev_epoch s') < sc_bound sc \<Longrightarrow>
    session_trace env sc s (cs @ [c]) (session_step env c s')"

definition session_slot :: "session \<Rightarrow> string \<times> string" where
  "session_slot x = (ss_principal x, ss_id x)"

definition session_universe :: "session_scope \<Rightarrow> session set" where
  "session_universe sc = {x. session_slot x \<in> sc_slots sc \<and> ss_origin x \<in> sc_origins sc
     \<and> {ss_issued_at x, ss_last_seen x, ss_expiry x} \<subseteq> sc_times sc
     \<and> unat (ss_mint_epoch x) \<le> sc_bound sc
     \<and> (\<forall>e. ss_revoked_epoch x = Some e \<longrightarrow> unat e \<le> sc_bound sc)}"

definition session_op :: "session_env \<Rightarrow> session \<Rightarrow> hlc \<Rightarrow> keyed_op" where
  "session_op env x h = put_op sessions_collection (session_kv_key (ss_principal x) (ss_id x)) kv_field
     (Scalar (se_ser env x)) h"

definition session_write :: "session_env \<Rightarrow> session_scope \<Rightarrow> keyed_op \<Rightarrow> bool" where
  "session_write env sc k \<longleftrightarrow> (\<exists>x\<in>session_universe sc. \<exists>h. k = session_op env x h)"

text \<open>
  What the registry needs of its surroundings: finitely many slots, whose principals have no zero
  byte, sessions and ops that are parsed back, and a digest without collisions on those ops.
\<close>

definition session_env_ok :: "session_env \<Rightarrow> session_scope \<Rightarrow> bool" where
  "session_env_ok env sc \<longleftrightarrow>
     finite (sc_slots sc) \<and> (\<forall>(p, i)\<in>sc_slots sc. CHR 0x00 \<notin> set p)
     \<and> (\<forall>x\<in>session_universe sc. se_de env (se_ser env x) = Some x)
     \<and> clocked_ok (se_enc env) (se_dec env) (se_sha env) ''session-registry'' (session_write env sc) (sc_bound sc)
     \<and> hash_iter (se_iter env)"

section \<open>Reading back\<close>

text \<open>The sessions of the slots of a run, and the order of the epochs of one session.\<close>

definition sessions_of :: "session_env \<Rightarrow> session_scope \<Rightarrow> session_registry \<Rightarrow> string \<times> string \<Rightarrow> session option" where
  "sessions_of env sc s q = (if q \<in> sc_slots sc then session_get env s (fst q) (snd q) else None)"

definition session_epochs_ok :: "u64 \<Rightarrow> session \<Rightarrow> bool" where
  "session_epochs_ok e x \<longleftrightarrow> ss_mint_epoch x \<le> e
     \<and> (case ss_revoked_epoch x of None \<Rightarrow> True | Some r \<Rightarrow> ss_mint_epoch x < r \<and> r \<le> e)"

definition session_inv :: "session_env \<Rightarrow> session_scope \<Rightarrow> session_registry \<Rightarrow> bool" where
  "session_inv env sc s \<longleftrightarrow>
     clocked_wf (se_enc env) (se_dec env) (se_sha env) ''session-registry'' (session_write env sc)
       (sr_clock s) (sr_store s)
     \<and> unat (sr_rev_epoch s) \<le> sc_bound sc
     \<and> (\<forall>q x. sessions_of env sc s q = Some x \<longrightarrow>
          x \<in> session_universe sc \<and> session_slot x = q \<and> session_epochs_ok (sr_rev_epoch s) x)
     \<and> (\<forall>p i. i \<in> principal_ids s p \<longleftrightarrow> sessions_of env sc s (p, i) \<noteq> None)"

lemma session_invD:
  assumes "session_inv env sc s"
  shows "clocked_wf (se_enc env) (se_dec env) (se_sha env) ''session-registry'' (session_write env sc)
      (sr_clock s) (sr_store s)"
    and "unat (sr_rev_epoch s) \<le> sc_bound sc"
    and "sessions_of env sc s q = Some x \<Longrightarrow>
      x \<in> session_universe sc \<and> session_slot x = q \<and> session_epochs_ok (sr_rev_epoch s) x"
    and "i \<in> principal_ids s p \<longleftrightarrow> sessions_of env sc s (p, i) \<noteq> None"
  using assms unfolding session_inv_def by blast+

lemma session_get_in_scope: "(p, i) \<in> sc_slots sc \<Longrightarrow> session_get env s p i = sessions_of env sc s (p, i)"
  by (simp add: sessions_of_def)

lemma session_kv_key_inject:
  assumes "CHR 0x00 \<notin> set p" "CHR 0x00 \<notin> set q" "session_kv_key p i = session_kv_key q j"
  shows "p = q \<and> i = j"
proof -
  have "takeWhile (\<lambda>c. c \<noteq> CHR 0x00) (session_kv_key r k) = r" if "CHR 0x00 \<notin> set r" for r k
    using that by (induction r) (auto simp: session_kv_key_def)
  then have "p = q" using assms by metis
  then show ?thesis using assms(3) by (simp add: session_kv_key_def)
qed

lemma session_put_op:
  "session_put env x s =
     s\<lparr>sr_clock := sr_clock s + 1,
       sr_store := snd (append_op (se_enc env) (se_sha env) (sr_store s)
         (session_op env x (hlc_new (sr_clock s + 1) 0 ''session-registry''))),
       sr_by_principal := btree_insert (ss_principal x)
         (insert (ss_id x) (principal_ids s (ss_principal x))) (sr_by_principal s)\<rparr>"
  by (simp add: session_put_def session_next_hlc_def kv_put_def session_op_def principal_ids_def Let_def)

lemma session_tick:
  assumes "session_env_ok env sc" "unat t < sc_bound sc"
  shows "unat (t + 1 :: u64) = unat t + 1"
proof -
  have "clocked_ok (se_enc env) (se_dec env) (se_sha env) ''session-registry'' (session_write env sc) (sc_bound sc)"
    using assms(1) by (simp add: session_env_ok_def)
  from clocked_tick [OF this assms(2)] show ?thesis .
qed

lemma session_put_ids:
  "principal_ids (session_put env x s) p =
     (if p = ss_principal x then insert (ss_id x) (principal_ids s p) else principal_ids s p)"
  by (simp add: session_put_op principal_ids_def)

lemma session_put_fields:
  "sr_clock (session_put env x s) = sr_clock s + 1" "sr_rev_epoch (session_put env x s) = sr_rev_epoch s"
  by (simp_all add: session_put_op)

lemma session_put_read:
  assumes "session_env_ok env sc" "session_inv env sc s" "x \<in> session_universe sc"
    and "unat (sr_clock s) < sc_bound sc"
  shows "sessions_of env sc (session_put env x s) = (sessions_of env sc s)(session_slot x \<mapsto> x)"
    and "clocked_wf (se_enc env) (se_dec env) (se_sha env) ''session-registry'' (session_write env sc)
      (sr_clock s + 1) (sr_store (session_put env x s))"
proof -
  let ?k = "session_op env x (hlc_new (sr_clock s + 1) 0 ''session-registry'')"
  have ck: "clocked_ok (se_enc env) (se_dec env) (se_sha env) ''session-registry'' (session_write env sc) (sc_bound sc)"
    using assms(1) by (simp add: session_env_ok_def)
  have k: "session_write env sc ?k" "ko_hlc ?k = hlc_new (sr_clock s + 1) 0 ''session-registry''"
      "ko_field ?k = kv_field"
    using assms(3) by (auto simp: session_write_def session_op_def)
  show "clocked_wf (se_enc env) (se_dec env) (se_sha env) ''session-registry'' (session_write env sc)
      (sr_clock s + 1) (sr_store (session_put env x s))"
    using clocked_append(3) [OF ck session_invD(1) [OF assms(2)] assms(4) k(1,2)] by (simp add: session_put_op)
  have "session_slot x \<in> sc_slots sc" using assms(3) by (simp add: session_universe_def)
  then have "session_kv_key (fst q) (snd q) = session_kv_key (ss_principal x) (ss_id x) \<longleftrightarrow> q = session_slot x"
    if "q \<in> sc_slots sc" for q
    using that assms(1) session_kv_key_inject [of "fst q" "ss_principal x" "snd q" "ss_id x"]
    by (cases q) (auto simp: session_env_ok_def session_slot_def)
  then show "sessions_of env sc (session_put env x s) = (sessions_of env sc s)(session_slot x \<mapsto> x)"
    using kv_get_clocked [OF ck session_invD(1) [OF assms(2)] assms(4) k] assms(1,3) \<open>session_slot x \<in> sc_slots sc\<close>
    by (auto simp: sessions_of_def session_get_def session_put_op fun_eq_iff session_op_def session_env_ok_def)
qed

lemma session_put_inv:
  assumes "session_env_ok env sc" "session_inv env sc s" "x \<in> session_universe sc"
    and "unat (sr_clock s) < sc_bound sc" "session_epochs_ok (sr_rev_epoch s) x"
  shows "session_inv env sc (session_put env x s)"
  using session_put_read [OF assms(1-4)] session_invD [OF assms(2)] assms(3,5)
  by (auto simp: session_inv_def session_put_fields session_put_ids session_slot_def)

lemma session_universe_upd:
  "x \<in> session_universe sc \<Longrightarrow> t \<in> sc_times sc \<Longrightarrow> x\<lparr>ss_last_seen := t\<rparr> \<in> session_universe sc"
  "x \<in> session_universe sc \<Longrightarrow> unat e \<le> sc_bound sc \<Longrightarrow> x\<lparr>ss_revoked_epoch := Some e\<rparr> \<in> session_universe sc"
  by (simp_all add: session_universe_def session_slot_def)

lemma session_slot_upd [simp]:
  "session_slot (x\<lparr>ss_last_seen := t\<rparr>) = session_slot x"
  "session_slot (x\<lparr>ss_revoked_epoch := r\<rparr>) = session_slot x"
  by (simp_all add: session_slot_def)

text \<open>The sweeps first advance the epoch; afterwards every session is older than the new one.\<close>

definition sessions_before :: "session_env \<Rightarrow> session_scope \<Rightarrow> session_registry \<Rightarrow> bool" where
  "sessions_before env sc s \<longleftrightarrow>
     (\<forall>q x. sessions_of env sc s q = Some x \<longrightarrow> ss_mint_epoch x < sr_rev_epoch s)"

lemma sessions_of_epoch [simp]: "sessions_of env sc (s\<lparr>sr_rev_epoch := e\<rparr>) = sessions_of env sc s"
  by (simp add: sessions_of_def session_get_def fun_eq_iff)

lemma principal_ids_epoch [simp]: "principal_ids (s\<lparr>sr_rev_epoch := e\<rparr>) p = principal_ids s p"
  by (simp add: principal_ids_def)

lemma session_advance:
  assumes "session_env_ok env sc" "session_inv env sc s" "unat (sr_rev_epoch s) < sc_bound sc"
  shows "session_inv env sc (s\<lparr>sr_rev_epoch := sr_rev_epoch s + 1\<rparr>)"
    and "sessions_before env sc (s\<lparr>sr_rev_epoch := sr_rev_epoch s + 1\<rparr>)"
    and "sr_rev_epoch s < sr_rev_epoch s + 1"
proof -
  have "unat (sr_rev_epoch s + 1) = unat (sr_rev_epoch s) + 1"
    by (rule session_tick [OF assms(1,3)])
  then have up: "unat (sr_rev_epoch s + 1) \<le> sc_bound sc" and lt: "sr_rev_epoch s < sr_rev_epoch s + 1"
    using assms(3) by (simp_all add: word_less_nat_alt)
  have ok: "session_epochs_ok (sr_rev_epoch s + 1) x \<and> ss_mint_epoch x < sr_rev_epoch s + 1"
    if "session_epochs_ok (sr_rev_epoch s) x" for x
    using that lt by (auto simp: session_epochs_ok_def split: option.splits)
  show "session_inv env sc (s\<lparr>sr_rev_epoch := sr_rev_epoch s + 1\<rparr>)"
    using session_invD [OF assms(2)] up ok by (simp add: session_inv_def)
  show "sessions_before env sc (s\<lparr>sr_rev_epoch := sr_rev_epoch s + 1\<rparr>)"
    using session_invD(3) [OF assms(2)] ok by (auto simp: sessions_before_def)
  show "sr_rev_epoch s < sr_rev_epoch s + 1" by (fact lt)
qed

definition session_stamp :: "u64 \<Rightarrow> session \<Rightarrow> session" where
  "session_stamp e x = (if ss_revoked_epoch x = None then x\<lparr>ss_revoked_epoch := Some e\<rparr> else x)"

lemma session_sweep_step:
  assumes "session_env_ok env sc" "session_inv env sc s" "sessions_before env sc s"
    and "(p, i) \<in> sc_slots sc" "unat (sr_clock s) < sc_bound sc"
  defines "s' \<equiv> session_sweep_one env p (sr_rev_epoch s) i s"
  shows "session_inv env sc s'" "sessions_before env sc s'" "sr_rev_epoch s' = sr_rev_epoch s"
    and "unat (sr_clock s') \<le> unat (sr_clock s) + 1"
    and "sessions_of env sc s' =
      (sessions_of env sc s)((p, i) := map_option (session_stamp (sr_rev_epoch s)) (sessions_of env sc s (p, i)))"
proof -
  have "session_inv env sc s' \<and> sessions_before env sc s' \<and> sr_rev_epoch s' = sr_rev_epoch s
    \<and> unat (sr_clock s') \<le> unat (sr_clock s) + 1 \<and> sessions_of env sc s' =
      (sessions_of env sc s)((p, i) := map_option (session_stamp (sr_rev_epoch s)) (sessions_of env sc s (p, i)))"
  proof (cases "\<exists>x. sessions_of env sc s (p, i) = Some x \<and> ss_revoked_epoch x = None")
    case True
    then obtain x where x: "sessions_of env sc s (p, i) = Some x" "ss_revoked_epoch x = None" by blast
    let ?y = "x\<lparr>ss_revoked_epoch := Some (sr_rev_epoch s)\<rparr>"
    have s': "s' = session_put env ?y s"
      using x by (simp add: s'_def session_sweep_one_def session_get_in_scope [OF assms(4)])
    note I = session_invD [OF assms(2)]
    have y: "?y \<in> session_universe sc" "session_slot ?y = (p, i)" "session_epochs_ok (sr_rev_epoch s) ?y"
      using I(2) I(3) [OF x(1)] assms(3) x(1) session_universe_upd(2)
      by (auto simp: session_epochs_ok_def sessions_before_def)
    note read = session_put_read(1) [OF assms(1,2) y(1) assms(5)]
    have "unat (sr_clock s + 1) = unat (sr_clock s) + 1"
      by (rule session_tick [OF assms(1,5)])
    then show ?thesis
      using session_put_inv [OF assms(1,2) y(1) assms(5) y(3)] read assms(3) x y(2)
      by (auto simp: s' session_put_fields sessions_before_def session_stamp_def)
  next
    case False
    then have "s' = s"
      by (auto simp: s'_def session_sweep_one_def session_get_in_scope [OF assms(4)] split: option.split)
    moreover have "map_option (session_stamp (sr_rev_epoch s)) (sessions_of env sc s (p, i)) = sessions_of env sc s (p, i)"
      using False by (cases "sessions_of env sc s (p, i)") (auto simp: session_stamp_def)
    ultimately show ?thesis using assms(2,3) by (simp add: fun_upd_idem)
  qed
  then show "session_inv env sc s'" "sessions_before env sc s'" "sr_rev_epoch s' = sr_rev_epoch s"
    "unat (sr_clock s') \<le> unat (sr_clock s) + 1" "sessions_of env sc s' =
      (sessions_of env sc s)((p, i) := map_option (session_stamp (sr_rev_epoch s)) (sessions_of env sc s (p, i)))"
    by blast+
qed

lemma session_sweep:
  assumes "session_env_ok env sc" "session_inv env sc s" "sessions_before env sc s"
    and "list_all (\<lambda>i. (p, i) \<in> sc_slots sc) ids" "unat (sr_clock s) + length ids \<le> sc_bound sc" "distinct ids"
  defines "s' \<equiv> fold (session_sweep_one env p (sr_rev_epoch s)) ids s"
  shows "session_inv env sc s' \<and> sr_rev_epoch s' = sr_rev_epoch s
    \<and> sessions_of env sc s' = (\<lambda>q. if fst q = p \<and> snd q \<in> set ids
        then map_option (session_stamp (sr_rev_epoch s)) (sessions_of env sc s q) else sessions_of env sc s q)"
  using assms(2-6) unfolding s'_def
proof (induction ids arbitrary: s)
  case Nil
  then show ?case by (simp add: fun_eq_iff)
next
  case (Cons i ids)
  let ?t = "session_sweep_one env p (sr_rev_epoch s) i s"
  have "(p, i) \<in> sc_slots sc" "unat (sr_clock s) < sc_bound sc" using Cons.prems by simp_all
  note step = session_sweep_step [OF assms(1) Cons.prems(1,2) this]
  have "session_inv env sc (fold (session_sweep_one env p (sr_rev_epoch ?t)) ids ?t)
    \<and> sr_rev_epoch (fold (session_sweep_one env p (sr_rev_epoch ?t)) ids ?t) = sr_rev_epoch ?t
    \<and> sessions_of env sc (fold (session_sweep_one env p (sr_rev_epoch ?t)) ids ?t) =
      (\<lambda>q. if fst q = p \<and> snd q \<in> set ids
        then map_option (session_stamp (sr_rev_epoch ?t)) (sessions_of env sc ?t q) else sessions_of env sc ?t q)"
    using Cons.prems step by (intro Cons.IH) auto
  then show ?case using Cons.prems(5) by (auto simp: step(3,5) fun_eq_iff)
qed

lemma session_ids:
  assumes "session_env_ok env sc" "session_inv env sc s"
  shows "set (se_iter env (principal_ids s p)) = {i. sessions_of env sc s (p, i) \<noteq> None}"
    and "list_all (\<lambda>i. (p, i) \<in> sc_slots sc) (se_iter env (principal_ids s p))"
    and "distinct (se_iter env (principal_ids s p))"
    and "length (se_iter env (principal_ids s p)) \<le> card (sc_slots sc)"
proof -
  have fin: "finite (sc_slots sc)" and it: "hash_iter (se_iter env)"
    using assms(1) by (simp_all add: session_env_ok_def)
  have ids: "principal_ids s p = {i. sessions_of env sc s (p, i) \<noteq> None}"
    using session_invD(4) [OF assms(2)] by blast
  have sub: "Pair p ` principal_ids s p \<subseteq> sc_slots sc"
    by (auto simp: ids sessions_of_def split: if_splits)
  then have "finite (principal_ids s p)"
    using fin by (meson finite_imageD finite_subset inj_onI prod.inject)
  then have iter: "set (se_iter env (principal_ids s p)) = principal_ids s p"
    "distinct (se_iter env (principal_ids s p))"
    using it by (simp_all add: hash_iter_def)
  show "set (se_iter env (principal_ids s p)) = {i. sessions_of env sc s (p, i) \<noteq> None}"
    "list_all (\<lambda>i. (p, i) \<in> sc_slots sc) (se_iter env (principal_ids s p))"
    "distinct (se_iter env (principal_ids s p))"
    using iter sub by (auto simp: ids list_all_iff)
  have "length (se_iter env (principal_ids s p)) = card (principal_ids s p)"
    using iter distinct_card by metis
  also have "\<dots> = card (Pair p ` principal_ids s p)" by (simp add: card_image inj_on_def)
  also have "\<dots> \<le> card (sc_slots sc)" by (rule card_mono [OF fin sub])
  finally show "length (se_iter env (principal_ids s p)) \<le> card (sc_slots sc)" .
qed

section \<open>The specification\<close>

text \<open>The registry as an epoch and the map from slots to sessions, without store, clock and index.\<close>

type_synonym session_map = "string \<times> string \<Rightarrow> session option"

definition sweep_spec :: "string \<Rightarrow> string set \<Rightarrow> u64 \<Rightarrow> session_map \<Rightarrow> session_map" where
  "sweep_spec p keep e m q =
     (if fst q = p \<and> snd q \<notin> keep then map_option (session_stamp e) (m q) else m q)"

fun session_spec :: "session_call \<Rightarrow> u64 \<times> session_map \<Rightarrow> u64 \<times> session_map" where
  "session_spec (MintCall p i t e orig) (n, m) =
     (n, m((p, i) \<mapsto> \<lparr>ss_id = i, ss_principal = p, ss_origin = orig, ss_issued_at = t,
        ss_last_seen = t, ss_expiry = e, ss_mint_epoch = n, ss_revoked_epoch = None\<rparr>))"
| "session_spec (TouchCall p i t) (n, m) =
     (n, m((p, i) := map_option (\<lambda>x. x\<lparr>ss_last_seen := t\<rparr>) (m (p, i))))"
| "session_spec (RevokeOneCall p i) (n, m) =
     (case m (p, i) of
        None \<Rightarrow> (n, m)
      | Some x \<Rightarrow> (n + 1, m((p, i) \<mapsto> x\<lparr>ss_revoked_epoch := Some (n + 1)\<rparr>)))"
| "session_spec (RevokeAllCall p) (n, m) = (n + 1, sweep_spec p {} (n + 1) m)"
| "session_spec (RevokeAllButCall p keep) (n, m) = (n + 1, sweep_spec p {keep} (n + 1) m)"

definition session_abs :: "session_env \<Rightarrow> session_scope \<Rightarrow> session_registry \<Rightarrow> u64 \<times> session_map" where
  "session_abs env sc s = (sr_rev_epoch s, sessions_of env sc s)"

lemma session_sweep_all:
  fixes p :: string and keep :: "string set"
  assumes "session_env_ok env sc" "session_inv env sc s" "unat (sr_rev_epoch s) < sc_bound sc"
    and "unat (sr_clock s) + card (sc_slots sc) \<le> sc_bound sc"
  defines "s1 \<equiv> s\<lparr>sr_rev_epoch := sr_rev_epoch s + 1\<rparr>"
  defines "s' \<equiv> fold (session_sweep_one env p (sr_rev_epoch s1)) (filter (\<lambda>i. i \<notin> keep) (se_iter env (principal_ids s1 p))) s1"
  shows "session_inv env sc s'"
    and "session_abs env sc s' = (sr_rev_epoch s + 1, sweep_spec p keep (sr_rev_epoch s + 1) (sessions_of env sc s))"
proof -
  let ?ids = "filter (\<lambda>i. i \<notin> keep) (se_iter env (principal_ids s1 p))"
  have adv: "session_inv env sc s1" "sessions_before env sc s1"
    using session_advance [OF assms(1-3)] by (simp_all add: s1_def)
  note ids = session_ids [OF assms(1) adv(1), of p]
  have "list_all (\<lambda>i. (p, i) \<in> sc_slots sc) ?ids" "distinct ?ids" using ids by (auto simp: list_all_iff)
  moreover have "unat (sr_clock s1) + length ?ids \<le> sc_bound sc"
    using order_trans [OF length_filter_le ids(4), of "\<lambda>i. i \<notin> keep"] assms(4) by (simp add: s1_def)
  ultimately have "session_inv env sc s' \<and> sr_rev_epoch s' = sr_rev_epoch s1
    \<and> sessions_of env sc s' = (\<lambda>q. if fst q = p \<and> snd q \<in> set ?ids
        then map_option (session_stamp (sr_rev_epoch s1)) (sessions_of env sc s1 q) else sessions_of env sc s1 q)"
    unfolding s'_def by (intro session_sweep [OF assms(1) adv])
  then show "session_inv env sc s'"
    "session_abs env sc s' = (sr_rev_epoch s + 1, sweep_spec p keep (sr_rev_epoch s + 1) (sessions_of env sc s))"
    using ids(1) by (auto simp: session_abs_def sweep_spec_def fun_eq_iff s1_def)
qed

lemma session_step_refines:
  assumes "session_env_ok env sc" "session_inv env sc s" "call_in_scope sc c"
    and "unat (sr_clock s) + card (sc_slots sc) \<le> sc_bound sc" "unat (sr_rev_epoch s) < sc_bound sc"
  shows "session_inv env sc (session_step env c s)
    \<and> session_abs env sc (session_step env c s) = session_spec c (session_abs env sc s)"
proof -
  note I = session_invD [OF assms(2)]
  have room: "unat (sr_clock s) < sc_bound sc" if "(p, i) \<in> sc_slots sc" for p i
  proof -
    have "card (sc_slots sc) > 0" using that assms(1) by (auto simp: session_env_ok_def card_gt_0_iff)
    then show ?thesis using assms(4) by simp
  qed
  note put = session_put_inv [OF assms(1)] session_put_read(1) [OF assms(1)]
  show ?thesis
  proof (cases c)
    case (MintCall p i t e orig)
    let ?x = "\<lparr>ss_id = i, ss_principal = p, ss_origin = orig, ss_issued_at = t, ss_last_seen = t,
        ss_expiry = e, ss_mint_epoch = sr_rev_epoch s, ss_revoked_epoch = None\<rparr>"
    have slot: "(p, i) \<in> sc_slots sc" using MintCall assms(3) by simp
    have "?x \<in> session_universe sc" "session_epochs_ok (sr_rev_epoch s) ?x"
      using MintCall assms(3) I(2) by (auto simp: session_universe_def session_slot_def session_epochs_ok_def)
    then show ?thesis
      using MintCall put [OF assms(2) _ room [OF slot]]
      by (simp add: session_mint_with_origin_def session_abs_def session_put_fields session_slot_def Let_def)
  next
    case (TouchCall p i t)
    then have slot: "(p, i) \<in> sc_slots sc" and t: "t \<in> sc_times sc" using assms(3) by simp_all
    show ?thesis
    proof (cases "sessions_of env sc s (p, i)")
      case None
      then show ?thesis
        using TouchCall assms(2) session_get_in_scope [OF slot, of env s]
        by (simp add: session_touch_def session_abs_def fun_eq_iff)
    next
      case (Some x)
      have "session_epochs_ok (sr_rev_epoch s) (x\<lparr>ss_last_seen := t\<rparr>)"
        using I(3) [OF Some] by (auto simp: session_epochs_ok_def split: option.splits)
      then show ?thesis
        using TouchCall I(3) [OF Some] put [OF assms(2) session_universe_upd(1) room [OF slot]] t Some
          session_get_in_scope [OF slot, of env s]
        by (simp add: session_touch_def session_abs_def session_put_fields)
    qed
  next
    case (RevokeOneCall p i)
    then have slot: "(p, i) \<in> sc_slots sc" using assms(3) by simp
    let ?s = "s\<lparr>sr_rev_epoch := sr_rev_epoch s + 1\<rparr>"
    note adv = session_advance [OF assms(1,2,5)]
    show ?thesis
    proof (cases "sessions_of env sc s (p, i)")
      case None
      then show ?thesis
        using RevokeOneCall assms(2) session_get_in_scope [OF slot, of env s]
        by (simp add: session_revoke_one_def session_abs_def)
    next
      case (Some x)
      let ?y = "x\<lparr>ss_revoked_epoch := Some (sr_rev_epoch s + 1)\<rparr>"
      have y: "?y \<in> session_universe sc" "session_epochs_ok (sr_rev_epoch ?s) ?y" "session_slot ?y = (p, i)"
        using I(3) [OF Some] session_invD(2) [OF adv(1)] adv(3) session_universe_upd(2)
        by (auto simp: session_epochs_ok_def)
      have "unat (sr_clock ?s) < sc_bound sc" using room [OF slot] by simp
      then show ?thesis
        using RevokeOneCall y put [OF adv(1) y(1)] Some session_get_in_scope [OF slot, of env s]
        by (simp add: session_revoke_one_def session_abs_def session_put_fields Let_def)
    qed
  next
    case (RevokeAllCall p)
    then show ?thesis
      using session_sweep_all [OF assms(1,2,5,4), of p "{}"]
      by (simp add: session_revoke_all_def session_abs_def Let_def)
  next
    case (RevokeAllButCall p keep)
    have "session_step env c s = fold (session_sweep_one env p (sr_rev_epoch s + 1))
        (filter (\<lambda>i. i \<notin> {keep}) (se_iter env (principal_ids s p))) (s\<lparr>sr_rev_epoch := sr_rev_epoch s + 1\<rparr>)"
      unfolding fold_filter using RevokeAllButCall
      by (auto simp: session_revoke_all_but_current_def Let_def intro!: fold_cong)
    then show ?thesis
      using RevokeAllButCall session_sweep_all [OF assms(1,2,5,4), of p "{keep}"] by (simp add: session_abs_def)
  qed
qed

lemma session_inv_new: "session_inv env sc registry_new"
  by (simp add: session_inv_def registry_new_def registry_with_shared_store_def clocked_wf_new
      sessions_of_def session_get_def principal_ids_def)

lemma session_trace_refines:
  assumes "session_trace env sc s cs s'" "session_env_ok env sc" "session_inv env sc s"
  shows "session_inv env sc s' \<and> session_abs env sc s' = fold session_spec cs (session_abs env sc s)"
  using assms
proof (induction rule: session_trace.induct)
  case (trace_step cs s' c)
  then show ?case using session_step_refines [OF trace_step.prems(1), of s' c] by simp
qed simp

text \<open>What only a mint undoes.\<close>

fun mints_slot :: "string \<times> string \<Rightarrow> session_call \<Rightarrow> bool" where
  "mints_slot q (MintCall p i _ _ _) \<longleftrightarrow> q = (p, i)"
| "mints_slot q _ \<longleftrightarrow> False"

definition slot_dead :: "session_map \<Rightarrow> string \<times> string \<Rightarrow> bool" where
  "slot_dead m q \<longleftrightarrow> (case m q of None \<Rightarrow> True | Some x \<Rightarrow> session_is_revoked x)"

lemma session_spec_keeps_dead:
  assumes "slot_dead (snd a) q" "\<not> mints_slot q c"
  shows "slot_dead (snd (session_spec c a)) q"
  using assms
  by (cases a; cases c)
    (auto simp: slot_dead_def session_is_revoked_def sweep_spec_def session_stamp_def split: option.splits)

lemma session_specs_keep_dead:
  assumes "slot_dead (snd a) q" "list_all (\<lambda>c. \<not> mints_slot q c) cs"
  shows "slot_dead (snd (fold session_spec cs a)) q"
  using assms by (induction cs arbitrary: a) (simp_all add: session_spec_keeps_dead)

lemma session_spec_epoch: "fst (session_spec c (n, m)) = n \<or> fst (session_spec c (n, m)) = n + 1"
  by (cases c) (auto split: option.split)

fun revokes_slot :: "string \<times> string \<Rightarrow> session_call \<Rightarrow> bool" where
  "revokes_slot q (RevokeOneCall p i) \<longleftrightarrow> q = (p, i)"
| "revokes_slot q (RevokeAllCall p) \<longleftrightarrow> fst q = p"
| "revokes_slot q (RevokeAllButCall p keep) \<longleftrightarrow> fst q = p \<and> snd q \<noteq> keep"
| "revokes_slot q _ \<longleftrightarrow> False"

lemma revoke_makes_dead: "revokes_slot q c \<Longrightarrow> slot_dead (snd (session_spec c a)) q"
  by (cases a; cases c)
    (auto simp: slot_dead_def session_is_revoked_def sweep_spec_def session_stamp_def split: option.splits)

lemma revoke_bumps: "revokes_slot q c \<Longrightarrow> m q \<noteq> None \<Longrightarrow> fst (session_spec c (n, m)) = n + 1"
  by (cases c) auto

inductive_cases session_trace_snocE: "session_trace env sc s (cs @ [c]) s'"

lemma session_trace_append:
  "session_trace env sc s (as @ bs) s' \<longleftrightarrow> (\<exists>t. session_trace env sc s as t \<and> session_trace env sc t bs s')"
proof (induction bs arbitrary: s' rule: rev_induct)
  case Nil
  have "t = s'" if "session_trace env sc t [] s'" for t
    using that by (cases rule: session_trace.cases) auto
  then show ?case by (auto intro: trace_start)
next
  case (snoc c bs)
  show ?case
  proof
    assume "session_trace env sc s (as @ bs @ [c]) s'"
    then have "session_trace env sc s ((as @ bs) @ [c]) s'" by simp
    then show "\<exists>t. session_trace env sc s as t \<and> session_trace env sc t (bs @ [c]) s'"
      using snoc.IH by (elim session_trace_snocE) (auto intro: trace_step)
  next
    assume "\<exists>t. session_trace env sc s as t \<and> session_trace env sc t (bs @ [c]) s'"
    then obtain t where t: "session_trace env sc s as t" "session_trace env sc t (bs @ [c]) s'" by blast
    from t(2) obtain u where u: "session_trace env sc t bs u" "s' = session_step env c u" "call_in_scope sc c"
        "unat (sr_clock u) + card (sc_slots sc) \<le> sc_bound sc" "unat (sr_rev_epoch u) < sc_bound sc"
      by (elim session_trace_snocE) auto
    then have "session_trace env sc s ((as @ bs) @ [c]) s'"
      using t(1) snoc.IH trace_step by metis
    then show "session_trace env sc s (as @ bs @ [c]) s'" by simp
  qed
qed

lemma session_trace_Cons:
  "session_trace env sc s (c # cs) s' \<longleftrightarrow>
     call_in_scope sc c \<and> unat (sr_clock s) + card (sc_slots sc) \<le> sc_bound sc
     \<and> unat (sr_rev_epoch s) < sc_bound sc \<and> session_trace env sc (session_step env c s) cs s'"
proof -
  have nil: "session_trace env sc t [] u \<longleftrightarrow> u = t" for t u
    by (auto intro: trace_start elim: session_trace.cases)
  have "session_trace env sc s [c] t \<longleftrightarrow> call_in_scope sc c \<and> unat (sr_clock s) + card (sc_slots sc) \<le> sc_bound sc
      \<and> unat (sr_rev_epoch s) < sc_bound sc \<and> t = session_step env c s" for t
    using trace_step [OF trace_start, of sc c s env] session_trace_snocE [of env sc s "[]" c t] nil by auto
  then show ?thesis using session_trace_append [of env sc s "[c]" cs s'] by auto
qed

text \<open>A slot that is dead at an epoch is brought back to life only by a mint at that epoch or later.\<close>

definition slot_since :: "u64 \<Rightarrow> u64 \<times> session_map \<Rightarrow> string \<times> string \<Rightarrow> bool" where
  "slot_since e a q \<longleftrightarrow> e \<le> fst a
     \<and> (case snd a q of None \<Rightarrow> True | Some x \<Rightarrow> session_is_revoked x \<or> e \<le> ss_mint_epoch x)"

lemma session_spec_keeps_since:
  assumes "slot_since e a q" "fst a < fst a + 1"
  shows "slot_since e (session_spec c a) q"
  using assms
  by (cases a; cases c)
    (auto simp: slot_since_def session_is_revoked_def sweep_spec_def session_stamp_def split: option.splits)

lemma session_trace_since:
  assumes "session_trace env sc s cs s'" "session_env_ok env sc" "session_inv env sc s"
    and "slot_since e (session_abs env sc s) q"
  shows "slot_since e (session_abs env sc s') q"
  using assms
proof (induction rule: session_trace.induct)
  case (trace_step cs s' c)
  then have inv: "session_inv env sc s'" using session_trace_refines by blast
  have "slot_since e (session_spec c (session_abs env sc s')) q"
    using trace_step session_advance(3) [OF trace_step.prems(1) inv trace_step.hyps(4)]
    by (intro session_spec_keeps_since) (simp_all add: session_abs_def)
  then show ?case
    using session_step_refines [OF trace_step.prems(1) inv trace_step.hyps(2-4)] by simp
qed simp

section \<open>Properties\<close>

lemma session_admit_Inr:
  "session_admit env v s p i now = Inr snap \<longleftrightarrow>
     sv_watermark v = sr_rev_epoch s \<and> snap = \<lparr>as_epoch = sr_rev_epoch s, as_principal = p, as_id = i\<rparr>
     \<and> (\<exists>x. session_get env s p i = Some x \<and> session_is_active x now)"
  by (auto simp: session_admit_def session_show_def session_is_active_def Let_def split: option.splits)

lemma set_session_ls:
  assumes "session_env_ok env sc" "session_inv env sc s"
  shows "set (session_ls env s p now) = {x. \<exists>i. sessions_of env sc s (p, i) = Some x \<and> session_is_active x now}"
proof -
  have "session_get env s p i = sessions_of env sc s (p, i)" if "i \<in> set (se_iter env (principal_ids s p))" for i
    using that session_ids(2) [OF assms, of p] by (auto simp: list_all_iff sessions_of_def)
  moreover have "i \<in> set (se_iter env (principal_ids s p))" if "sessions_of env sc s (p, i) = Some x" for i x
    using that session_ids(1) [OF assms, of p] by auto
  ultimately show ?thesis by (force simp: session_ls_def map_filter_def)
qed

lemma dead_slot_refused:
  assumes "session_env_ok env sc" "session_inv env sc s" "(p, i) \<in> sc_slots sc"
    and "slot_dead (sessions_of env sc s) (p, i)"
  shows "isl (session_admit env v s p i now) \<and> list_all (\<lambda>x. ss_id x \<noteq> i) (session_ls env s p now)"
proof -
  have "\<not> session_is_active x now" if "sessions_of env sc s (p, i) = Some x" for x
    using that assms(4) by (simp add: slot_dead_def session_is_active_def)
  moreover have "ss_id x = j" if "sessions_of env sc s (p, j) = Some x" for j x
    using session_invD(3) [OF assms(2) that] by (simp add: session_slot_def)
  moreover have "session_admit env v s p i now \<noteq> Inr snap" for snap
    using calculation(1) unfolding session_admit_Inr session_get_in_scope [OF assms(3)] by blast
  then have "isl (session_admit env v s p i now)" by (cases "session_admit env v s p i now") auto
  ultimately show ?thesis by (auto simp: list_all_iff set_session_ls [OF assms(1,2)])
qed

text \<open>
  \<^bold>\<open>C37.\<close> The registry refines a map from slots to sessions with an epoch: after every run of
  calls the store, its stamps and the index hold what the run of the same calls on the map holds.
  A listing shows exactly the sessions of the principal that are active, and an action is admitted
  exactly for a view at the current epoch and a session that exists and is neither revoked nor
  expired. A session is revoked at a later epoch than that of its mint, and at none to come.
\<close>

theorem session_registry_refines:
  assumes "session_env_ok env sc" "session_trace env sc registry_new cs s"
    and "(n, m) = fold session_spec cs (0, \<lambda>_. None)"
  shows "session_abs env sc s = (n, m)
    \<and> set (session_ls env s p now) = {x. \<exists>i. m (p, i) = Some x \<and> session_is_active x now}
    \<and> ((p, i) \<in> sc_slots sc \<longrightarrow>
        (session_admit env v s p i now = Inr snap \<longleftrightarrow>
          sv_watermark v = n \<and> snap = \<lparr>as_epoch = n, as_principal = p, as_id = i\<rparr>
          \<and> (\<exists>x. m (p, i) = Some x \<and> session_is_active x now)))
    \<and> (m q = Some x \<longrightarrow> session_slot x = q \<and> ss_mint_epoch x \<le> n
        \<and> (\<forall>e. ss_revoked_epoch x = Some e \<longrightarrow> ss_mint_epoch x < e \<and> e \<le> n))"
proof -
  have "session_abs env sc registry_new = (0, \<lambda>_. None)"
    by (simp add: session_abs_def registry_new_def registry_with_shared_store_def sessions_of_def session_get_def fun_eq_iff)
  then have inv: "session_inv env sc s" and abs: "session_abs env sc s = (n, m)"
    using session_trace_refines [OF assms(2,1) session_inv_new] assms(3) by simp_all
  then have m: "sessions_of env sc s = m" and n: "sr_rev_epoch s = n" by (simp_all add: session_abs_def)
  show ?thesis
    using abs set_session_ls [OF assms(1) inv, of p now] session_invD(3) [OF inv, of q x]
      session_admit_Inr [of env v s p i now snap] session_get_in_scope [of p i sc env s]
    unfolding m n by (auto simp: session_epochs_ok_def split: option.splits)
qed

text \<open>
  \<^bold>\<open>C38.\<close> A revoked session never admits again. After a revocation of a slot, alone or by one of
  the two sweeps, and any later calls that do not mint into it, every view is refused there
  at every time, and no listing shows it. If a session found there later is not revoked, it is of a
  strictly later generation than the one that was revoked.
\<close>

theorem revoked_never_readmits:
  assumes "session_env_ok env sc" "session_trace env sc registry_new cs s1"
    and "session_trace env sc s1 (c # ds) s'" "revokes_slot (p, i) c" "(p, i) \<in> sc_slots sc"
  shows "(list_all (\<lambda>d. \<not> mints_slot (p, i) d) ds \<longrightarrow>
      isl (session_admit env v s' p i now) \<and> list_all (\<lambda>x. ss_id x \<noteq> i) (session_ls env s' p now))
    \<and> (session_show env s1 p i = Some x \<and> session_show env s' p i = Some y \<and> \<not> session_is_revoked y
        \<longrightarrow> ss_mint_epoch x < ss_mint_epoch y)"
proof -
  have inv1: "session_inv env sc s1" using session_trace_refines [OF assms(2,1) session_inv_new] by simp
  let ?t = "session_step env c s1"
  have step: "call_in_scope sc c" "unat (sr_clock s1) + card (sc_slots sc) \<le> sc_bound sc"
      "unat (sr_rev_epoch s1) < sc_bound sc" "session_trace env sc ?t ds s'"
    using assms(3) by (simp_all add: session_trace_Cons)
  have inv2: "session_inv env sc ?t" and abs2: "session_abs env sc ?t = session_spec c (session_abs env sc s1)"
    using session_step_refines [OF assms(1) inv1 step(1-3)] by simp_all
  have inv: "session_inv env sc s'" and abs: "session_abs env sc s' = fold session_spec ds (session_abs env sc ?t)"
    using session_trace_refines [OF step(4) assms(1) inv2] by simp_all
  have dead: "slot_dead (snd (session_abs env sc ?t)) (p, i)"
    unfolding abs2 by (rule revoke_makes_dead [OF assms(4)])
  have refused: "isl (session_admit env v s' p i now) \<and> list_all (\<lambda>x. ss_id x \<noteq> i) (session_ls env s' p now)"
    if "list_all (\<lambda>d. \<not> mints_slot (p, i) d) ds"
  proof -
    have "slot_dead (snd (session_abs env sc s')) (p, i)"
      unfolding abs by (rule session_specs_keep_dead [OF dead that])
    then show ?thesis
      using dead_slot_refused [OF assms(1) inv assms(5)] by (simp add: session_abs_def)
  qed
  have later: "ss_mint_epoch x < ss_mint_epoch y"
    if "session_show env s1 p i = Some x" "session_show env s' p i = Some y" "\<not> session_is_revoked y"
  proof -
    have x: "sessions_of env sc s1 (p, i) = Some x" and y: "sessions_of env sc s' (p, i) = Some y"
      using that assms(5) by (simp_all add: session_show_def session_get_in_scope)
    have "slot_since (sr_rev_epoch ?t) (session_abs env sc ?t) (p, i)"
      using dead by (auto simp: slot_since_def slot_dead_def session_abs_def split: option.splits)
    from session_trace_since [OF step(4) assms(1) inv2 this] have "sr_rev_epoch ?t \<le> ss_mint_epoch y"
      using y that(3) by (simp add: slot_since_def session_abs_def)
    moreover have "sr_rev_epoch ?t = sr_rev_epoch s1 + 1"
      using revoke_bumps [OF assms(4), of "sessions_of env sc s1" "sr_rev_epoch s1"] abs2 x
      by (simp add: session_abs_def prod_eq_iff)
    moreover have "ss_mint_epoch x \<le> sr_rev_epoch s1"
      using session_invD(3) [OF inv1 x] by (simp add: session_epochs_ok_def)
    ultimately show ?thesis using session_advance(3) [OF assms(1) inv1 step(3)] by simp
  qed
  show ?thesis using refused later by blast
qed

section \<open>A concrete registry\<close>

definition demo_session_ser :: "session \<Rightarrow> bytes" where
  "demo_session_ser x = (if ss_id x = ''s'' then 0 else 1) # map ucast [ss_issued_at x, ss_last_seen x, ss_expiry x,
     ss_mint_epoch x] @ (case ss_revoked_epoch x of None \<Rightarrow> [] | Some e \<Rightarrow> [ucast e])"

definition demo_session_de :: "bytes \<Rightarrow> session option" where
  "demo_session_de bs =
     (case bs of i # t # l # e # n # rs \<Rightarrow>
        Some \<lparr>ss_id = (if i = 0 then ''s'' else ''r''), ss_principal = ''a'', ss_origin = ''unknown'',
          ss_issued_at = ucast t, ss_last_seen = ucast l, ss_expiry = ucast e, ss_mint_epoch = ucast n,
          ss_revoked_epoch = (case rs of [] \<Rightarrow> None | r # _ \<Rightarrow> Some (ucast r))\<rparr>
      | _ \<Rightarrow> None)"

definition demo_session_enc :: encoder where
  "demo_session_enc k = ucast (hlc_physical (ko_hlc k)) #
     (case ko_kind k of Put (Scalar v) \<Rightarrow> v | _ \<Rightarrow> [])"

definition demo_session_dec :: decoder where
  "demo_session_dec bs =
     (case bs of t # i # v \<Rightarrow>
        Some (put_op sessions_collection (session_kv_key ''a'' (if i = 0 then ''s'' else ''r'')) kv_field
          (Scalar (i # v)) (hlc_new (ucast t) 0 ''session-registry''))
      | _ \<Rightarrow> None)"

definition demo_session_env :: session_env where
  "demo_session_env = \<lparr>se_enc = demo_session_enc, se_dec = demo_session_dec, se_sha = demo_sha,
     se_ser = demo_session_ser, se_de = demo_session_de, se_iter = sorted_list_of_set\<rparr>"

definition demo_session_scope :: session_scope where
  "demo_session_scope = \<lparr>sc_slots = {(''a'', ''s''), (''a'', ''r'')}, sc_origins = {''unknown''},
     sc_times = {0, 5, 9}, sc_bound = 20\<rparr>"

definition demo_session_calls :: "session_call list" where
  "demo_session_calls = [MintCall ''a'' ''s'' 0 9 ''unknown'', MintCall ''a'' ''r'' 0 9 ''unknown'',
     TouchCall ''a'' ''s'' 5]"

definition demo_registry :: session_registry where
  "demo_registry = fold (session_step demo_session_env) demo_session_calls registry_new"

lemma ucast_small: "unat (t :: u64) < 256 \<Longrightarrow> ucast (ucast t :: u8) = t"
  by (simp add: word_unat_eq_iff unsigned_ucast_eq unsigned_take_bit_eq take_bit_nat_eq_self)

lemma demo_session_de_ser:
  assumes "x \<in> session_universe demo_session_scope"
  shows "demo_session_de (demo_session_ser x) = Some x"
proof -
  have small: "ucast (ucast t :: u8) = t" if "t \<in> {0, 5, 9} \<or> unat t \<le> 20" for t :: u64
    using that by (auto intro: ucast_small)
  have "\<forall>e. ss_revoked_epoch x = Some e \<longrightarrow> ucast (ucast e :: u8) = e"
    using assms small by (auto simp: session_universe_def demo_session_scope_def)
  then show ?thesis
    using assms small
    by (cases x) (auto simp: session_universe_def demo_session_scope_def session_slot_def demo_session_ser_def
        demo_session_de_def split: option.split)
qed

lemma demo_session_dec_enc:
  assumes "k \<in> clocked_ops ''session-registry'' (session_write demo_session_env demo_session_scope) 20"
  shows "demo_session_dec (demo_session_enc k) = Some k \<and> length (demo_session_enc k) < 32"
proof -
  obtain x h t where x: "x \<in> session_universe demo_session_scope" "k = session_op demo_session_env x h"
      "h = hlc_new t 0 ''session-registry''" "unat t \<le> 20"
    using assms by (auto simp: clocked_ops_def session_write_def session_op_def)
  then have "ucast (ucast t :: u8) = t" by (intro ucast_small) simp
  moreover have "(ss_principal x, ss_id x) \<in> {(''a'', ''s''), (''a'', ''r'')}"
    using x(1) by (simp add: session_universe_def demo_session_scope_def session_slot_def)
  ultimately show ?thesis
    using x(2-4) by (auto simp: session_op_def demo_session_dec_def demo_session_enc_def demo_session_ser_def
        demo_session_env_def hlc_new_def split: option.split)
qed

lemma demo_session_ok: "session_env_ok demo_session_env demo_session_scope"
proof -
  have "inj_on demo_sha (demo_session_enc `
      clocked_ops ''session-registry'' (session_write demo_session_env demo_session_scope) 20)"
    using demo_session_dec_enc by (intro inj_on_subset [OF demo_sha_inj]) auto
  then have "clocked_ok demo_session_enc demo_session_dec demo_sha ''session-registry''
      (session_write demo_session_env demo_session_scope) 20"
    using demo_session_dec_enc by (simp add: clocked_ok_def)
  moreover have "hash_iter (sorted_list_of_set :: string set \<Rightarrow> string list)" by (simp add: hash_iter_def)
  ultimately show ?thesis
    using demo_session_de_ser
    by (simp add: session_env_ok_def) (simp add: demo_session_env_def demo_session_scope_def)
qed

lemma demo_session_trace: "session_trace demo_session_env demo_session_scope registry_new demo_session_calls demo_registry"
  unfolding demo_registry_def demo_session_calls_def
  by (simp add: session_trace_Cons trace_start)
    (simp add: demo_session_scope_def registry_new_def registry_with_shared_store_def
      session_mint_with_origin_def session_touch_def session_put_op Let_def split: option.split)

theorem session_registry_refines_witness:
  "isl (session_admit demo_session_env session_view_new demo_registry ''a'' ''s'' 9)
   \<and> \<not> isl (session_admit demo_session_env session_view_new demo_registry ''a'' ''s'' 5)"
proof -
  define st where "st = fold session_spec demo_session_calls (0, \<lambda>_. None)"
  define x where "x = \<lparr>ss_id = ''s'', ss_principal = ''a'', ss_origin = ''unknown'', ss_issued_at = 0,
      ss_last_seen = 5, ss_expiry = 9, ss_mint_epoch = 0, ss_revoked_epoch = None\<rparr>"
  have st: "fst st = 0" "snd st (''a'', ''s'') = Some x"
    by (simp_all add: st_def demo_session_calls_def x_def)
  have slot: "(''a'', ''s'') \<in> sc_slots demo_session_scope" by (simp add: demo_session_scope_def)
  have iff: "session_admit demo_session_env session_view_new demo_registry ''a'' ''s'' now = Inr snap \<longleftrightarrow>
      snap = \<lparr>as_epoch = 0, as_principal = ''a'', as_id = ''s''\<rparr> \<and> session_is_active x now" for now snap
    using session_registry_refines [OF demo_session_ok demo_session_trace, of "fst st" "snd st" "''a''" now "''s''"
        session_view_new snap "(''a'', ''s'')" x] slot st
    by (simp add: st_def session_view_new_def)
  have "session_is_active x 5" "\<not> session_is_active x 9"
    by (simp_all add: x_def session_is_active_def session_is_revoked_def session_is_expired_def)
  then show ?thesis using iff [of 5] iff [of 9] by (metis isl_def sum.collapse(2) sum.disc(2))
qed

theorem revoked_never_readmits_witness:
  "isl (session_admit demo_session_env \<lparr>sv_watermark = 1\<rparr>
     (session_step demo_session_env (TouchCall ''a'' ''s'' 9)
       (session_step demo_session_env (RevokeAllButCall ''a'' ''r'') demo_registry)) ''a'' ''s'' 5)"
proof -
  let ?t = "session_step demo_session_env (RevokeAllButCall ''a'' ''r'') demo_registry"
  have "unat (sr_clock demo_registry) = 3" "unat (sr_rev_epoch demo_registry) = 0"
    "unat (sr_clock ?t) = 4" "unat (sr_rev_epoch ?t) = 1"
    by code_simp+
  then have "session_trace demo_session_env demo_session_scope demo_registry
      [RevokeAllButCall ''a'' ''r'', TouchCall ''a'' ''s'' 9] (session_step demo_session_env (TouchCall ''a'' ''s'' 9) ?t)"
    by (simp add: session_trace_Cons trace_start) (simp add: demo_session_scope_def)
  from revoked_never_readmits [OF demo_session_ok demo_session_trace this, of "''a''" "''s''" "\<lparr>sv_watermark = 1\<rparr>" 5] show ?thesis
    by (simp add: demo_session_scope_def)
qed

section \<open>Where the code and its documentation part\<close>

text \<open>
  A registry built on a store that already holds sessions starts its clock anew: its revocation of a
  session that was touched before succeeds, but loses to the older write, and the session admits.
\<close>

lemma rebuilt_registry_revocation_lost:
  "let s = registry_with_shared_store (sr_store demo_registry);
       (r, s') = session_revoke_one demo_session_env ''a'' ''s'' s
   in r = Inr () \<and> \<not> isl (session_admit demo_session_env (session_view_refresh s' session_view_new) s' ''a'' ''s'' 5)"
  by code_simp

text \<open>Two mints into one slot with no revocation in between carry the same generation.\<close>

lemma remint_same_generation:
  "ss_mint_epoch (fst (session_mint env p i t e s)) = ss_mint_epoch (fst (session_mint env p i t' e' (snd (session_mint env p i t e s))))"
  by (simp add: session_mint_def session_mint_with_origin_def session_put_fields Let_def)

end
