(* ===== verification/Psl.thy ===== *)
theory Psl
  imports Pillar_Core "HOL-Library.Sublist"
begin

text \<open>
  \<^verbatim>\<open>crates/pillar-observability/src/psl.rs\<close>: the query language of the observability
  store, as text with its parser and its canonical printer, and as a builder.

  Text here is the list of its Unicode scalar values, since the parser trims and splits by the
  Unicode property \<open>White_Space\<close>. The nesting depth of the splitters, an \<open>i32\<close>, is an integer. A
  slice whose start is past its end panics, so that a call ends with a value, an error or a panic.
\<close>

section \<open>Text\<close>

type_synonym rchar = int
type_synonym rtext = "rchar list"

definition lit :: "string \<Rightarrow> rtext" where
  "lit cs = map of_char cs"

definition is_ws :: "rchar \<Rightarrow> bool" where
  "is_ws c \<longleftrightarrow> 9 \<le> c \<and> c \<le> 13 \<or> c = 32 \<or> c = 0x85 \<or> c = 0xA0 \<or> c = 0x1680
     \<or> 0x2000 \<le> c \<and> c \<le> 0x200A \<or> c = 0x2028 \<or> c = 0x2029 \<or> c = 0x202F \<or> c = 0x205F \<or> c = 0x3000"

definition is_digit :: "rchar \<Rightarrow> bool" where
  "is_digit c \<longleftrightarrow> 48 \<le> c \<and> c \<le> 57"

definition trim_start :: "rtext \<Rightarrow> rtext" where
  "trim_start s = dropWhile is_ws s"

definition trim :: "rtext \<Rightarrow> rtext" where
  "trim s = rev (trim_start (rev (trim_start s)))"

fun text_split_once :: "rtext \<Rightarrow> rtext \<Rightarrow> (rtext \<times> rtext) option" where
  "text_split_once pat [] = (if pat = [] then Some ([], []) else None)"
| "text_split_once pat (c # cs) =
     (if prefix pat (c # cs) then Some ([], drop (length pat) (c # cs))
      else map_option (\<lambda>(a, b). (c # a, b)) (text_split_once pat cs))"

definition strip_prefix :: "rtext \<Rightarrow> rtext \<Rightarrow> rtext option" where
  "strip_prefix pat s = (if prefix pat s then Some (drop (length pat) s) else None)"

definition strip_suffix :: "rtext \<Rightarrow> rtext \<Rightarrow> rtext option" where
  "strip_suffix pat s = (if suffix pat s then Some (take (length s - length pat) s) else None)"

definition join :: "rtext \<Rightarrow> rtext list \<Rightarrow> rtext" where
  "join sep ts = (case ts of [] \<Rightarrow> [] | t # ts \<Rightarrow> t @ concat (map (\<lambda>u. sep @ u) ts))"

text \<open>Decimals: the \<open>Display\<close> of an unsigned integer, and \<open>parse::<u64>\<close> on ASCII digits.\<close>

fun nat_text :: "nat \<Rightarrow> rtext" where
  "nat_text n = (if n < 10 then [48 + int n] else nat_text (n div 10) @ [48 + int (n mod 10)])"

declare nat_text.simps [simp del]

definition digits_value :: "rtext \<Rightarrow> int" where
  "digits_value ds = foldl (\<lambda>n d. 10 * n + (d - 48)) 0 ds"

definition parse_u64 :: "rtext \<Rightarrow> u64 option" where
  "parse_u64 ds = (if ds \<noteq> [] \<and> digits_value ds < 2 ^ 64 then Some (word_of_int (digits_value ds)) else None)"

section \<open>Queries\<close>

datatype 'a psl_result = PslOk 'a | PslErr rtext | PslPanic

fun psl_bind :: "'a psl_result \<Rightarrow> ('a \<Rightarrow> 'b psl_result) \<Rightarrow> 'b psl_result" where
  "psl_bind (PslOk x) f = f x"
| "psl_bind (PslErr e) f = PslErr e"
| "psl_bind PslPanic f = PslPanic"

fun psl_collect :: "('a \<Rightarrow> 'b psl_result) \<Rightarrow> 'a list \<Rightarrow> 'b list psl_result" where
  "psl_collect f [] = PslOk []"
| "psl_collect f (x # xs) = psl_bind (f x) (\<lambda>y. psl_bind (psl_collect f xs) (\<lambda>ys. PslOk (y # ys)))"

definition ok_or :: "'a option \<Rightarrow> rtext \<Rightarrow> 'a psl_result" where
  "ok_or m e = (case m of Some x \<Rightarrow> PslOk x | None \<Rightarrow> PslErr e)"

datatype signal_kind = Metric | Log | TraceSpan | ProfileSample | MetadataSample

datatype pred_op = EqOp | MatchOp

record predicate =
  pr_key :: rtext
  pr_value :: rtext
  pr_op :: pred_op

definition predicate_eq :: "rtext \<Rightarrow> rtext \<Rightarrow> predicate" where
  "predicate_eq k v = \<lparr>pr_key = k, pr_value = v, pr_op = EqOp\<rparr>"

definition predicate_matches :: "rtext \<Rightarrow> rtext \<Rightarrow> predicate" where
  "predicate_matches k v = \<lparr>pr_key = k, pr_value = v, pr_op = MatchOp\<rparr>"

definition predicate_to_text :: "predicate \<Rightarrow> rtext" where
  "predicate_to_text p =
     (let v = (if list_ex is_ws (pr_value p) then lit [CHR 0x22] @ pr_value p @ lit [CHR 0x22] else pr_value p)
      in case pr_op p of
           EqOp \<Rightarrow> pr_key p @ lit '' = '' @ v
         | MatchOp \<Rightarrow> pr_key p @ lit '' =~ '' @ v)"

fun kind_name :: "signal_kind \<Rightarrow> rtext" where
  "kind_name Metric = lit ''metrics''"
| "kind_name Log = lit ''logs''"
| "kind_name TraceSpan = lit ''traces''"
| "kind_name ProfileSample = lit ''profiles''"
| "kind_name MetadataSample = lit ''metadata''"

definition kind_from_name :: "rtext \<Rightarrow> signal_kind psl_result" where
  "kind_from_name name =
     (if name = lit ''metrics'' then PslOk Metric
      else if name = lit ''logs'' then PslOk Log
      else if name = lit ''traces'' then PslOk TraceSpan
      else if name = lit ''profiles'' then PslOk ProfileSample
      else if name = lit ''metadata'' then PslOk MetadataSample
      else PslErr (lit ''unknown signal kind '' @ lit [CHR 0x27] @ name @ lit [CHR 0x27]))"

record select_clause =
  sl_kind :: signal_kind
  sl_predicates :: "predicate list"

definition select_clause_new :: "signal_kind \<Rightarrow> predicate list \<Rightarrow> select_clause" where
  "select_clause_new k ps = \<lparr>sl_kind = k, sl_predicates = ps\<rparr>"

definition select_to_text :: "select_clause \<Rightarrow> rtext" where
  "select_to_text c =
     (if sl_predicates c = [] then kind_name (sl_kind c)
      else kind_name (sl_kind c) @ lit ''('' @ join (lit '', '') (map predicate_to_text (sl_predicates c)) @ lit '')'')"

datatype time_bound = Now | Ago u64 | Tick u64

definition saturating_sub :: "u64 \<Rightarrow> u64 \<Rightarrow> u64" where
  "saturating_sub a b = (if b \<le> a then a - b else 0)"

fun bound_resolve :: "time_bound \<Rightarrow> u64 \<Rightarrow> u64" where
  "bound_resolve Now now = now"
| "bound_resolve (Ago s) now = saturating_sub now s"
| "bound_resolve (Tick t) now = t"

text \<open>The largest unit that divides the duration.\<close>

definition duration_to_text :: "u64 \<Rightarrow> rtext" where
  "duration_to_text seconds =
     (if seconds \<noteq> 0 \<and> seconds mod 86400 = 0 then nat_text (unat (seconds div 86400)) @ lit ''d''
      else if seconds \<noteq> 0 \<and> seconds mod 3600 = 0 then nat_text (unat (seconds div 3600)) @ lit ''h''
      else if seconds \<noteq> 0 \<and> seconds mod 60 = 0 then nat_text (unat (seconds div 60)) @ lit ''m''
      else nat_text (unat seconds) @ lit ''s'')"

fun bound_to_text :: "time_bound \<Rightarrow> rtext" where
  "bound_to_text Now = lit ''now''"
| "bound_to_text (Ago s) = lit ''now-'' @ duration_to_text s"
| "bound_to_text (Tick t) = nat_text (unat t)"

record time_range =
  tr_start :: time_bound
  tr_end :: time_bound

definition range_seconds :: "u64 \<Rightarrow> time_range" where
  "range_seconds s = \<lparr>tr_start = Ago s, tr_end = Now\<rparr>"

definition range_window :: "time_bound \<Rightarrow> time_bound \<Rightarrow> time_range" where
  "range_window a b = \<lparr>tr_start = a, tr_end = b\<rparr>"

definition range_resolve :: "time_range \<Rightarrow> u64 \<Rightarrow> u64 \<times> u64" where
  "range_resolve r now =
     (let a = bound_resolve (tr_start r) now; b = bound_resolve (tr_end r) now
      in if a \<le> b then (a, b) else (b, a))"

definition range_window_seconds :: "time_range \<Rightarrow> u64 \<Rightarrow> u64" where
  "range_window_seconds r now = (case range_resolve r now of (lo, hi) \<Rightarrow> hi - lo)"

definition range_relative_seconds :: "time_range \<Rightarrow> u64 option" where
  "range_relative_seconds r =
     (case (tr_start r, tr_end r) of (Ago s, Now) \<Rightarrow> Some s | _ \<Rightarrow> None)"

definition range_to_text :: "time_range \<Rightarrow> rtext" where
  "range_to_text r =
     (case (tr_start r, tr_end r) of
        (Ago s, Now) \<Rightarrow> lit ''now-'' @ duration_to_text s
      | (a, b) \<Rightarrow> bound_to_text a @ lit ''..'' @ bound_to_text b)"

record correlate_spec =
  cs_window_seconds :: u64
  cs_anchor :: signal_kind

definition correlate_to_text :: "correlate_spec \<Rightarrow> rtext" where
  "correlate_to_text c =
     lit ''{ window: '' @ duration_to_text (cs_window_seconds c) @ lit '', anchor: '' @ kind_name (cs_anchor c) @ lit '' }''"

record psl_query =
  q_selects :: "select_clause list"
  q_where :: "predicate list"
  q_range :: time_range
  q_correlate :: "correlate_spec option"

definition psl_to_text :: "psl_query \<Rightarrow> rtext" where
  "psl_to_text q =
     lit ''select: '' @ join (lit '', '') (map select_to_text (q_selects q))
     @ (if q_where q = [] then [] else lit '' where: '' @ join (lit '', '') (map predicate_to_text (q_where q)))
     @ lit '' range: '' @ range_to_text (q_range q)
     @ (case q_correlate q of None \<Rightarrow> [] | Some c \<Rightarrow> lit '' correlate: '' @ correlate_to_text c)"

section \<open>The builder\<close>

record psl_builder =
  b_selects :: "select_clause list"
  b_where :: "predicate list"
  b_range :: "time_range option"
  b_correlate :: "correlate_spec option"

definition builder_new :: psl_builder where
  "builder_new = \<lparr>b_selects = [], b_where = [], b_range = None, b_correlate = None\<rparr>"

definition builder_select :: "signal_kind \<Rightarrow> predicate list \<Rightarrow> psl_builder \<Rightarrow> psl_builder" where
  "builder_select k ps b = b\<lparr>b_selects := b_selects b @ [select_clause_new k ps]\<rparr>"

definition builder_where_eq :: "rtext \<Rightarrow> rtext \<Rightarrow> psl_builder \<Rightarrow> psl_builder" where
  "builder_where_eq k v b = b\<lparr>b_where := b_where b @ [predicate_eq k v]\<rparr>"

definition builder_range_relative :: "u64 \<Rightarrow> psl_builder \<Rightarrow> psl_builder" where
  "builder_range_relative s b = b\<lparr>b_range := Some (range_seconds s)\<rparr>"

definition builder_correlate :: "u64 \<Rightarrow> signal_kind \<Rightarrow> psl_builder \<Rightarrow> psl_builder" where
  "builder_correlate w k b = b\<lparr>b_correlate := Some \<lparr>cs_window_seconds = w, cs_anchor = k\<rparr>\<rparr>"

definition builder_build :: "psl_builder \<Rightarrow> psl_query psl_result" where
  "builder_build b =
     (if b_selects b = [] then PslErr (lit ''select clause is required'')
      else case b_range b of
        None \<Rightarrow> PslErr (lit ''range clause is required'')
      | Some r \<Rightarrow> PslOk \<lparr>q_selects = b_selects b, q_where = b_where b, q_range = r, q_correlate = b_correlate b\<rparr>)"

section \<open>The parser\<close>

definition quoted :: "rtext \<Rightarrow> rtext" where
  "quoted s = lit [CHR 0x27] @ s @ lit [CHR 0x27]"

text \<open>The product is the wrapping one of an unchecked build.\<close>

definition parse_duration_seconds :: "rtext \<Rightarrow> u64 psl_result" where
  "parse_duration_seconds s0 =
     (let s = trim s0; num = takeWhile is_digit s; unit = dropWhile is_digit s
      in if unit = [] then PslErr (lit ''duration '' @ quoted s @ lit '' has no unit'')
         else case parse_u64 num of
           None \<Rightarrow> PslErr (lit ''duration '' @ quoted s @ lit '' has an invalid number'')
         | Some n \<Rightarrow>
             if unit = lit ''s'' then PslOk (n * 1)
             else if unit = lit ''m'' then PslOk (n * 60)
             else if unit = lit ''h'' then PslOk (n * 3600)
             else if unit = lit ''d'' then PslOk (n * 86400)
             else PslErr (lit ''duration '' @ quoted s @ lit '' has unknown unit '' @ quoted unit))"

text \<open>One character of the scan that both splitters make: the depth, and whether a quote is open.\<close>

fun scan_char :: "rchar \<Rightarrow> int \<times> bool \<Rightarrow> int \<times> bool" where
  "scan_char c (depth, in_quote) =
     (if c = 0x22 then (depth, \<not> in_quote)
      else if (c = 0x28 \<or> c = 0x7B) \<and> \<not> in_quote then (depth + 1, in_quote)
      else if (c = 0x29 \<or> c = 0x7D) \<and> \<not> in_quote then (depth - 1, in_quote)
      else (depth, in_quote))"

definition scan_other :: "rchar \<Rightarrow> int \<times> bool \<Rightarrow> bool" where
  "scan_other c st \<longleftrightarrow> st = (0, False) \<and> c \<notin> {0x22, 0x28, 0x7B, 0x29, 0x7D}"

text \<open>The text before the first keyword at a clause boundary, with the keyword and what follows it.\<close>

fun split_keyword_from :: "rtext list \<Rightarrow> int \<times> bool \<Rightarrow> bool \<Rightarrow> rtext \<Rightarrow> rtext \<times> (rtext \<times> rtext) option" where
  "split_keyword_from kws st prev_ws [] = ([], None)"
| "split_keyword_from kws st prev_ws (c # cs) =
     (case (if scan_other c st \<and> prev_ws then find (\<lambda>kw. prefix kw (c # cs)) kws else None) of
        Some kw \<Rightarrow> ([], Some (kw, drop (length kw) (c # cs)))
      | None \<Rightarrow> (case split_keyword_from kws (scan_char c st) (is_ws c) cs of (a, r) \<Rightarrow> (c # a, r)))"

definition split_at_first_keyword :: "rtext \<Rightarrow> rtext list \<Rightarrow> rtext \<times> (rtext \<times> rtext) option" where
  "split_at_first_keyword s kws = split_keyword_from kws (0, False) True s"

fun split_top_from :: "rchar \<Rightarrow> int \<times> bool \<Rightarrow> rtext \<Rightarrow> rtext list" where
  "split_top_from sep st [] = [[]]"
| "split_top_from sep st (c # cs) =
     (if c = sep \<and> scan_other c st then [] # split_top_from sep st cs
      else (case split_top_from sep (scan_char c st) cs of t # ts \<Rightarrow> (c # t) # ts | [] \<Rightarrow> [[c]]))"

definition split_top_level :: "rtext \<Rightarrow> rchar \<Rightarrow> rtext list" where
  "split_top_level s sep = split_top_from sep (0, False) s"

text \<open>The items of a comma-separated list, trimmed, without the empty ones.\<close>

definition comma_items :: "rtext \<Rightarrow> rtext list" where
  "comma_items body = filter (\<lambda>i. i \<noteq> []) (map trim (split_top_level body 0x2C))"

definition unquote :: "rtext \<Rightarrow> rtext" where
  "unquote s =
     (case Option.bind (strip_prefix (lit [CHR 0x22]) s) (strip_suffix (lit [CHR 0x22])) of
        Some inner \<Rightarrow> inner
      | None \<Rightarrow> s)"

definition parse_predicate :: "rtext \<Rightarrow> predicate psl_result" where
  "parse_predicate item =
     psl_bind
       (case text_split_once (lit ''=~'') item of
          Some (a, b) \<Rightarrow> PslOk (trim a, trim b, MatchOp)
        | None \<Rightarrow>
            (case text_split_once (lit ''='') item of
               Some (a, b) \<Rightarrow> PslOk (trim a, trim b, EqOp)
             | None \<Rightarrow> PslErr (lit ''predicate '' @ quoted item @ lit '' missing '' @ quoted (lit ''='') @ lit '' or '' @ quoted (lit ''=~''))))
       (\<lambda>(key, v, oper).
          let v = unquote v
          in if key = [] \<or> v = [] then PslErr (lit ''predicate '' @ quoted item @ lit '' is malformed'')
             else PslOk \<lparr>pr_key = key, pr_value = v, pr_op = oper\<rparr>)"

definition parse_predicates :: "rtext \<Rightarrow> predicate list psl_result" where
  "parse_predicates body =
     (let body = trim body
      in if body = [] then PslOk [] else psl_collect parse_predicate (comma_items body))"

text \<open>The slice up to the last closing parenthesis, which panics when that one is before the opening one.\<close>

definition before_last :: "rchar \<Rightarrow> rtext \<Rightarrow> rtext" where
  "before_last c s = rev (tl (dropWhile (\<lambda>d. d \<noteq> c) (rev s)))"

definition parse_select :: "rtext \<Rightarrow> select_clause psl_result" where
  "parse_select item =
     psl_bind
       (case text_split_once (lit ''('') item of
          Some (name, after) \<Rightarrow>
            if 0x29 \<notin> set item
            then PslErr (lit ''select item '' @ quoted item @ lit '' missing closing '' @ quoted (lit '')''))
            else if 0x29 \<notin> set after then PslPanic
            else psl_bind (parse_predicates (before_last 0x29 after)) (\<lambda>ps. PslOk (trim name, ps))
        | None \<Rightarrow> PslOk (item, []))
       (\<lambda>(name, ps). psl_bind (kind_from_name name) (\<lambda>k. PslOk (select_clause_new k ps)))"

definition select_required :: rtext where
  "select_required = lit ''select clause must name at least one kind''"

definition parse_selects :: "rtext \<Rightarrow> select_clause list psl_result" where
  "parse_selects body =
     (let body = trim body
      in if body = [] then PslErr select_required
         else psl_bind (psl_collect parse_select (comma_items body))
           (\<lambda>ss. if ss = [] then PslErr select_required else PslOk ss))"

definition parse_bound :: "rtext \<Rightarrow> time_bound psl_result" where
  "parse_bound s0 =
     (let s = trim s0
      in if s = lit ''now'' then PslOk Now
         else case strip_prefix (lit ''now-'') s of
           Some rest \<Rightarrow> psl_bind (parse_duration_seconds rest) (\<lambda>n. PslOk (Ago n))
         | None \<Rightarrow>
             if s \<noteq> [] \<and> list_all is_digit s
             then ok_or (map_option Tick (parse_u64 s)) (lit ''range bound '' @ quoted s @ lit '' is not a valid tick'')
             else PslErr (lit ''range bound '' @ quoted s @ lit '' must be '' @ quoted (lit ''now'') @ lit '', ''
               @ quoted (lit ''now-<duration>'') @ lit '', or an absolute tick''))"

definition parse_range :: "rtext \<Rightarrow> time_range psl_result" where
  "parse_range body0 =
     (let body = trim body0
      in case text_split_once (lit ''..'') body of
           Some (a, b) \<Rightarrow> psl_bind (parse_bound a) (\<lambda>a. psl_bind (parse_bound b) (\<lambda>b. PslOk \<lparr>tr_start = a, tr_end = b\<rparr>))
         | None \<Rightarrow>
             (case strip_prefix (lit ''now-'') body of
                Some rest \<Rightarrow> psl_bind (parse_duration_seconds rest) (\<lambda>n. PslOk (range_seconds n))
              | None \<Rightarrow> PslErr (lit ''range '' @ quoted body @ lit '' must be '' @ quoted (lit ''now-<duration>'')
                  @ lit '' or '' @ quoted (lit ''<start>..<end>''))))"

fun correlate_fields :: "rtext list \<Rightarrow> u64 option \<Rightarrow> signal_kind option \<Rightarrow> (u64 option \<times> signal_kind option) psl_result" where
  "correlate_fields [] w a = PslOk (w, a)"
| "correlate_fields (item # items) w a =
     (case text_split_once (lit '':'') item of
        None \<Rightarrow> PslErr (lit ''correlate field '' @ quoted item @ lit '' missing value'')
      | Some (key, v) \<Rightarrow>
          let key = trim key; v = trim v
          in if key = lit ''window'' then psl_bind (parse_duration_seconds v) (\<lambda>n. correlate_fields items (Some n) a)
             else if key = lit ''anchor'' then psl_bind (kind_from_name v) (\<lambda>k. correlate_fields items w (Some k))
             else PslErr (lit ''unknown correlate field '' @ quoted key))"

definition parse_correlate :: "rtext \<Rightarrow> correlate_spec psl_result" where
  "parse_correlate body0 =
     (let body = trim body0
      in case Option.bind (strip_prefix (lit ''{'') body) (strip_suffix (lit ''}'')) of
           None \<Rightarrow> PslErr (lit ''correlate '' @ quoted body @ lit '' must be wrapped in { }'')
         | Some inner \<Rightarrow>
             psl_bind (correlate_fields (comma_items inner) None None)
               (\<lambda>(w, a). psl_bind (ok_or w (lit ''correlate missing '' @ quoted (lit ''window'')))
                 (\<lambda>w. psl_bind (ok_or a (lit ''correlate missing '' @ quoted (lit ''anchor'')))
                   (\<lambda>a. PslOk \<lparr>cs_window_seconds = w, cs_anchor = a\<rparr>))))"

definition range_missing :: rtext where
  "range_missing = lit ''query is missing a '' @ quoted (lit ''range:'') @ lit '' clause''"

definition psl_parse :: "rtext \<Rightarrow> psl_query psl_result" where
  "psl_parse input =
     psl_bind (ok_or (strip_prefix (lit ''select:'') (trim input))
       (lit ''query must start with '' @ quoted (lit ''select:'')))
     (\<lambda>rest. case split_at_first_keyword rest [lit ''where:'', lit ''range:'', lit ''correlate:''] of
        (select_body, after_select) \<Rightarrow>
     psl_bind (parse_selects select_body) (\<lambda>selects.
     psl_bind (ok_or after_select range_missing) (\<lambda>(kw, rest).
     psl_bind
       (if kw = lit ''where:'' then
          (case split_at_first_keyword rest [lit ''range:'', lit ''correlate:''] of
             (where_body, after_where) \<Rightarrow>
               psl_bind (parse_predicates where_body) (\<lambda>preds.
               psl_bind (ok_or after_where range_missing) (\<lambda>(kw, rest). PslOk (preds, kw, rest))))
        else PslOk ([], kw, rest))
     (\<lambda>(preds, kw, rest).
       if kw \<noteq> lit ''range:''
       then PslErr (lit ''expected '' @ quoted (lit ''range:'') @ lit '', found '' @ quoted kw)
       else case split_at_first_keyword rest [lit ''correlate:''] of
         (range_body, after_range) \<Rightarrow>
       psl_bind (parse_range range_body) (\<lambda>range.
       psl_bind
         (case after_range of
            Some (_, rest) \<Rightarrow> psl_bind (parse_correlate rest) (\<lambda>c. PslOk (Some c))
          | None \<Rightarrow> PslOk None)
       (\<lambda>correlate.
         PslOk \<lparr>q_selects = selects, q_where = preds, q_range = range, q_correlate = correlate\<rparr>))))))"

section \<open>Facts on text\<close>

lemma lit_simps [simp]: "lit [] = []" "lit (c # cs) = of_char c # lit cs" "lit (xs @ ys) = lit xs @ lit ys"
  by (simp_all add: lit_def)

lemma nat_text_digits: "nat_text n \<noteq> [] \<and> list_all is_digit (nat_text n) \<and> digits_value (nat_text n) = int n"
proof (induction n rule: nat_text.induct)
  case (1 n)
  show ?case
  proof (cases "n < 10")
    case True
    then show ?thesis by (simp add: nat_text.simps [of n] is_digit_def digits_value_def)
  next
    case False
    have "is_digit (48 + int (n mod 10))" by (simp add: is_digit_def)
    moreover have "10 * int (n div 10) + int (n mod 10) = int n" by presburger
    ultimately show ?thesis
      using 1 False by (simp add: nat_text.simps [of n] digits_value_def)
  qed
qed

lemma parse_u64_text: "parse_u64 (nat_text (unat w)) = Some w"
proof -
  have "int (unat w) < 2 ^ 64" using uint_lt2p [of w] by simp
  then show ?thesis using nat_text_digits [of "unat w"] by (simp add: parse_u64_def)
qed

definition trimmed :: "rtext \<Rightarrow> bool" where
  "trimmed s \<longleftrightarrow> s = [] \<or> \<not> is_ws (hd s) \<and> \<not> is_ws (last s)"

lemma dropWhile_ws: "list_all P w \<Longrightarrow> s = [] \<or> \<not> P (hd s) \<Longrightarrow> dropWhile P (w @ s) = s"
  by (induction w) (cases s, auto)

lemma trim_pad:
  assumes "list_all is_ws w" "list_all is_ws v" "trimmed s"
  shows "trim (w @ s @ v) = s"
proof (cases "s = []")
  case True
  then show ?thesis
    using dropWhile_ws [of is_ws "w @ v" "[]"] assms
    by (auto simp: trim_def trim_start_def list_all_iff dest: set_dropWhileD)
next
  case False
  then have "trim_start (w @ s @ v) = s @ v"
    using assms unfolding trim_start_def by (intro dropWhile_ws) (auto simp: trimmed_def)
  moreover have "trim_start (rev (s @ v)) = rev s"
    using assms False unfolding trim_start_def
    by (simp, intro dropWhile_ws) (auto simp: trimmed_def hd_rev list_all_iff)
  ultimately show ?thesis by (simp add: trim_def)
qed

lemma trim_trimmed: "trimmed s \<Longrightarrow> trim s = s"
  using trim_pad [of "[]" "[]" s] by simp

lemma ws_space [simp]: "is_ws 32" by (simp add: is_ws_def)

lemma trim_space: "trimmed s \<Longrightarrow> trim (32 # s) = s" "trimmed s \<Longrightarrow> trim (32 # s @ [32]) = s"
  "trimmed s \<Longrightarrow> trim (s @ [32]) = s"
  using trim_pad [of "[32]" "[]" s] trim_pad [of "[32]" "[32]" s] trim_pad [of "[]" "[32]" s] by simp_all

lemma trimmed_plain: "list_all (\<lambda>c. \<not> is_ws c) s \<Longrightarrow> trimmed s"
  by (cases "s = []") (auto simp: trimmed_def list_all_iff)

lemma split_once_skip:
  "c \<notin> set a \<Longrightarrow> text_split_once (c # pat) (a @ s) = map_option (\<lambda>(x, y). (a @ x, y)) (text_split_once (c # pat) s)"
proof (induction a)
  case Nil
  then show ?case by (cases "text_split_once (c # pat) s") auto
next
  case (Cons d a)
  then show ?case by (cases "text_split_once (c # pat) s") auto
qed

lemma split_once_first:
  assumes "c \<notin> set a"
  shows "text_split_once (c # pat) (a @ (c # pat) @ b) = Some (a, b)"
proof -
  have "text_split_once (c # pat) ((c # pat) @ b) = Some ([], b)"
    by (cases "(c # pat) @ b") auto
  then show ?thesis using split_once_skip [OF assms, of pat "(c # pat) @ b"] by simp
qed

lemma strip_affix [simp]: "strip_prefix p (p @ s) = Some s" "strip_suffix p (s @ p) = Some s"
  by (simp_all add: strip_prefix_def strip_suffix_def suffix_def)

lemma split_once_None: "text_split_once (c # pat) s = None \<longleftrightarrow> \<not> sublist (c # pat) s"
  by (induction s) (auto simp: sublist_Cons_right)

lemma split_once_absent: "c \<notin> set s \<Longrightarrow> text_split_once (c # pat) s = None"
  unfolding split_once_None by (auto dest: set_mono_sublist)

section \<open>Facts on the scan\<close>

text \<open>A block that the scan leaves as it entered it, and one with no separator at the top level.\<close>

definition closed :: "rtext \<Rightarrow> bool" where
  "closed b \<longleftrightarrow> (\<forall>d. fold scan_char b (d, False) = (d, False))"

definition specials :: "rchar set" where
  "specials = {0x22, 0x28, 0x7B, 0x29, 0x7D}"

fun no_split :: "rchar \<Rightarrow> int \<times> bool \<Rightarrow> rtext \<Rightarrow> bool" where
  "no_split sep st [] \<longleftrightarrow> True"
| "no_split sep st (c # cs) \<longleftrightarrow> \<not> (c = sep \<and> scan_other c st) \<and> no_split sep (scan_char c st) cs"

lemma scan_plain [simp]: "c \<notin> specials \<Longrightarrow> scan_char c st = st"
  by (cases st) (auto simp: specials_def)

lemma scan_quoted [simp]: "c \<noteq> 0x22 \<Longrightarrow> scan_char c (d, True) = (d, True)"
  by simp

lemma fold_scan_plain: "set b \<inter> specials = {} \<Longrightarrow> fold scan_char b st = st"
  by (induction b) auto

lemma fold_scan_quoted: "0x22 \<notin> set b \<Longrightarrow> fold scan_char b (d, True) = (d, True)"
  by (induction b) (auto simp del: scan_char.simps)

lemma closed_plain: "set b \<inter> specials = {} \<Longrightarrow> closed b"
  by (simp add: closed_def fold_scan_plain)

lemma closed_quoted: "0x22 \<notin> set b \<Longrightarrow> closed (0x22 # b @ [0x22])"
  by (simp add: closed_def fold_scan_quoted)

lemma closed_append: "closed a \<Longrightarrow> closed b \<Longrightarrow> closed (a @ b)"
  by (simp add: closed_def)

lemma closed_parens: "closed b \<Longrightarrow> closed (0x28 # b @ [0x29])"
  by (simp add: closed_def)

lemma no_split_append: "no_split sep st (a @ b) \<longleftrightarrow> no_split sep st a \<and> no_split sep (fold scan_char a st) b"
  by (induction a arbitrary: st) auto

lemma no_split_absent: "sep \<notin> set b \<Longrightarrow> no_split sep st b"
  by (induction b arbitrary: st) auto

lemma no_split_in_quotes: "0x22 \<notin> set b \<Longrightarrow> no_split sep (d, True) b"
  by (induction b) (auto simp: scan_other_def simp del: scan_char.simps)

lemma no_split_quoted: "0x22 \<notin> set b \<Longrightarrow> sep \<noteq> 0x22 \<Longrightarrow> no_split sep (d, False) (0x22 # b @ [0x22])"
  by (simp add: no_split_append no_split_in_quotes fold_scan_quoted)

lemma split_top_nonempty [simp]: "split_top_from sep st s \<noteq> []"
  by (induction s arbitrary: st) (auto split: list.split)

lemma split_top_append:
  "no_split sep st b \<Longrightarrow> split_top_from sep st (b @ r) =
     (b @ hd (split_top_from sep (fold scan_char b st) r)) # tl (split_top_from sep (fold scan_char b st) r)"
proof (induction b arbitrary: st)
  case (Cons c b)
  then show ?case by (auto simp del: scan_char.simps)
qed simp

definition item_ok :: "rtext \<Rightarrow> bool" where
  "item_ok t \<longleftrightarrow> t \<noteq> [] \<and> trimmed t \<and> closed t \<and> no_split 0x2C (0, False) t"

lemma join_Cons: "join sep (t # u # ts) = t @ sep @ join sep (u # ts)"
  by (simp add: join_def)

lemma join_single [simp]: "join sep [t] = t" by (simp add: join_def)

lemma item_split:
  assumes "item_ok t"
  shows "split_top_from 0x2C (0, False) (t @ r) =
    (t @ hd (split_top_from 0x2C (0, False) r)) # tl (split_top_from 0x2C (0, False) r)"
  using assms split_top_append [of "0x2C" "(0, False)" t r] by (simp add: item_ok_def closed_def)

lemma split_top_join:
  assumes "list_all item_ok (t # ts)"
  shows "split_top_level (join (lit '', '') (t # ts)) 0x2C = t # map (Cons 32) ts"
  using assms
proof (induction ts arbitrary: t)
  case Nil
  then show ?case using item_split [of t "[]"] by (simp add: split_top_level_def)
next
  case (Cons u ts)
  have "split_top_from 0x2C (0, False) (0x2C # 32 # join (lit '', '') (u # ts)) = [] # (32 # u) # map (Cons 32) ts"
    using Cons.IH [of u] Cons.prems by (simp add: scan_other_def split_top_level_def specials_def)
  then show ?case
    using item_split [of t "0x2C # 32 # join (lit '', '') (u # ts)"] Cons.prems
    by (simp add: split_top_level_def join_Cons)
qed

lemma comma_items_join:
  assumes "list_all item_ok ts"
  shows "comma_items (join (lit '', '') ts) = ts"
proof (cases ts)
  case Nil
  then show ?thesis by (simp add: comma_items_def join_def split_top_level_def trim_def trim_start_def)
next
  case (Cons t us)
  have "map trim (t # map (Cons 32) us) = ts" "filter (\<lambda>i. i \<noteq> []) ts = ts"
    using assms Cons by (auto simp: item_ok_def list_all_iff trim_trimmed trim_space filter_id_conv intro: map_idI)
  then show ?thesis using split_top_join [of t us] assms Cons by (simp add: comma_items_def)
qed

lemma join_trimmed:
  assumes "list_all item_ok ts" "ts \<noteq> []"
  shows "trimmed (join (lit '', '') ts)" "join (lit '', '') ts \<noteq> []"
proof -
  have "last (join (lit '', '') ts) = last (last ts) \<and> join (lit '', '') ts \<noteq> []"
    using assms
  proof (induction ts rule: induct_list012)
    case (3 t u ts)
    then show ?case by (simp add: join_Cons item_ok_def)
  qed (auto simp: item_ok_def)
  moreover have "hd (join (lit '', '') ts) = hd (hd ts)"
    using assms by (cases ts) (auto simp: join_def item_ok_def)
  moreover have "item_ok (hd ts)" "item_ok (last ts)" using assms by (simp_all add: list_all_iff)
  ultimately show "trimmed (join (lit '', '') ts)" "join (lit '', '') ts \<noteq> []"
    by (auto simp: trimmed_def item_ok_def)
qed

text \<open>A block in which no word at the top level starts with a keyword, given what follows it.\<close>

definition clause_keywords :: "rtext list" where
  "clause_keywords = [lit ''where:'', lit ''range:'', lit ''correlate:'']"

definition starts_kw :: "rtext \<Rightarrow> bool" where
  "starts_kw s \<longleftrightarrow> list_ex (\<lambda>kw. prefix kw s) clause_keywords"

fun no_kw :: "int \<times> bool \<Rightarrow> bool \<Rightarrow> rtext \<Rightarrow> rtext \<Rightarrow> bool" where
  "no_kw st pw [] rest \<longleftrightarrow> True"
| "no_kw st pw (c # cs) rest \<longleftrightarrow>
     (scan_other c st \<and> pw \<longrightarrow> \<not> starts_kw (c # cs @ rest)) \<and> no_kw (scan_char c st) (is_ws c) cs rest"

definition ws_after :: "bool \<Rightarrow> rtext \<Rightarrow> bool" where
  "ws_after pw b = (if b = [] then pw else is_ws (last b))"

lemma no_kw_append:
  "no_kw st pw (a @ b) rest \<longleftrightarrow> no_kw st pw a (b @ rest) \<and> no_kw (fold scan_char a st) (ws_after pw a) b rest"
  by (induction a arbitrary: st pw) (auto simp: ws_after_def simp del: scan_char.simps)

lemma split_keyword_append:
  assumes "no_kw st pw b rest" "set kws \<subseteq> set clause_keywords"
  shows "split_keyword_from kws st pw (b @ rest) =
    (b @ fst (split_keyword_from kws (fold scan_char b st) (ws_after pw b) rest),
     snd (split_keyword_from kws (fold scan_char b st) (ws_after pw b) rest))"
  using assms(1)
proof (induction b arbitrary: st pw)
  case (Cons c b)
  have "(if scan_other c st \<and> pw then find (\<lambda>kw. prefix kw (c # b @ rest)) kws else None) = None"
    using Cons.prems assms(2) by (auto simp: starts_kw_def list_ex_iff find_None_iff)
  moreover have "ws_after pw (c # b) = ws_after (is_ws c) b" by (simp add: ws_after_def)
  ultimately show ?case using Cons by (simp add: split_beta del: scan_char.simps)
qed (simp add: ws_after_def)

text \<open>A word is not followed by a character of a keyword.\<close>

definition follows_word :: "rtext \<Rightarrow> bool" where
  "follows_word rest \<longleftrightarrow> rest = [] \<or> hd rest \<in> {0x20, 0x2C, 0x28}"

lemma starts_kw_word:
  assumes "follows_word rest" "w \<noteq> []"
  shows "starts_kw (w @ rest) \<longleftrightarrow> starts_kw w"
proof -
  have "prefix kw (w @ rest) \<longleftrightarrow> prefix kw w" if kw: "kw \<in> set clause_keywords" for kw
  proof
    assume "prefix kw (w @ rest)"
    then show "prefix kw w"
    proof (rule disjE [OF prefix_append [THEN iffD1]])
      assume "\<exists>us. kw = w @ us \<and> prefix us rest"
      then obtain us where us: "kw = w @ us" "prefix us rest" by blast
      then have "us = [] \<or> hd us = hd rest \<and> hd us \<in> set kw \<and> rest \<noteq> []"
        by (cases us; cases rest) auto
      moreover have "set kw \<inter> {0x20, 0x2C, 0x28} = {}" using kw by (auto simp: clause_keywords_def)
      ultimately show "prefix kw w" using us assms(1) by (auto simp: follows_word_def)
    qed
  qed (simp add: prefix_prefix)
  then show ?thesis by (auto simp: starts_kw_def list_ex_iff)
qed

lemma no_kw_inner: "set b \<inter> specials = {} \<Longrightarrow> list_all (\<lambda>c. \<not> is_ws c) b \<Longrightarrow> no_kw st False b rest"
  by (induction b) (auto simp del: scan_char.simps)

lemma no_kw_word:
  assumes "set w \<inter> specials = {}" "list_all (\<lambda>c. \<not> is_ws c) w" "\<not> starts_kw w" "follows_word rest"
  shows "no_kw st pw w rest"
proof (cases w)
  case (Cons c cs)
  then show ?thesis
    using assms no_kw_inner [of cs] starts_kw_word [OF assms(4), of w] by (auto simp del: scan_char.simps)
qed simp

lemma no_kw_deep: "st \<noteq> (0, False) \<Longrightarrow> set b \<inter> specials = {} \<Longrightarrow> no_kw st pw b rest"
  by (induction b arbitrary: pw) (auto simp: scan_other_def simp del: scan_char.simps)

lemma no_kw_in_quotes: "0x22 \<notin> set b \<Longrightarrow> no_kw (d, True) pw b rest"
  by (induction b arbitrary: pw) (auto simp: scan_other_def simp del: scan_char.simps)

lemma no_kw_quoted: "0x22 \<notin> set b \<Longrightarrow> no_kw (d, False) pw (0x22 # b @ [0x22]) rest"
  by (simp add: no_kw_append no_kw_in_quotes fold_scan_quoted scan_other_def)

lemma starts_kw_ws: "is_ws c \<Longrightarrow> \<not> starts_kw (c # s)" "\<not> starts_kw (0x3D # s)"
  by (auto simp: starts_kw_def clause_keywords_def is_ws_def)

section \<open>Predicates\<close>

definition word_ok :: "rtext \<Rightarrow> bool" where
  "word_ok w \<longleftrightarrow> w \<noteq> [] \<and> list_all (\<lambda>c. \<not> is_ws c \<and> c \<notin> specials \<and> c \<noteq> 0x2C) w \<and> \<not> starts_kw w"

text \<open>
  Predicates that print unambiguously: a key that is a word without an equals sign, and a value
  that is a word or, because it has blanks, is printed in quotes, without a quote of its own; the
  value of an equality does not hold the match operator.
\<close>

definition predicate_ok :: "predicate \<Rightarrow> bool" where
  "predicate_ok p \<longleftrightarrow> word_ok (pr_key p) \<and> 0x3D \<notin> set (pr_key p)
     \<and> (word_ok (pr_value p) \<or> list_ex is_ws (pr_value p) \<and> 0x22 \<notin> set (pr_value p))
     \<and> (pr_op p = EqOp \<longrightarrow> \<not> sublist (lit ''=~'') (pr_value p))"

definition value_text :: "rtext \<Rightarrow> rtext" where
  "value_text v = (if list_ex is_ws v then 0x22 # v @ [0x22] else v)"

definition op_text :: "pred_op \<Rightarrow> rtext" where
  "op_text x = (case x of EqOp \<Rightarrow> [0x3D] | MatchOp \<Rightarrow> [0x3D, 0x7E])"

lemma predicate_to_text_parts:
  "predicate_to_text p = pr_key p @ [0x20] @ op_text (pr_op p) @ [0x20] @ value_text (pr_value p)"
  by (simp add: predicate_to_text_def value_text_def op_text_def Let_def split: pred_op.split)

lemma word_okD:
  assumes "word_ok w"
  shows "w \<noteq> []" "list_all (\<lambda>c. \<not> is_ws c) w" "set w \<inter> specials = {}" "0x2C \<notin> set w" "\<not> starts_kw w"
    "0x22 \<notin> set w" "\<not> list_ex is_ws w" "trimmed w"
  using assms trimmed_plain by (auto simp: word_ok_def list_all_iff list_ex_iff specials_def)

lemma value_text_facts:
  assumes "word_ok v \<or> list_ex is_ws v \<and> 0x22 \<notin> set v"
  shows "value_text v \<noteq> []" "trimmed (value_text v)" "closed (value_text v)"
    "no_split 0x2C (0, False) (value_text v)" "unquote (value_text v) = v"
    "follows_word rest \<Longrightarrow> no_kw (0, False) pw (value_text v) rest"
    "no_kw (1, False) pw (value_text v) rest"
proof -
  have ws: "\<not> is_ws 0x22" by (simp add: is_ws_def)
  show "value_text v \<noteq> []" "trimmed (value_text v)" "closed (value_text v)"
    "no_split 0x2C (0, False) (value_text v)" "follows_word rest \<Longrightarrow> no_kw (0, False) pw (value_text v) rest"
    "no_kw (1, False) pw (value_text v) rest"
    using assms word_okD [of v] closed_quoted [of v] no_split_quoted [of v] no_kw_quoted [of v] ws
    by (auto simp: value_text_def trimmed_def closed_plain no_split_absent no_kw_word no_kw_deep)
  show "unquote (value_text v) = v"
  proof (cases "list_ex is_ws v")
    case True
    then show ?thesis by (simp add: value_text_def unquote_def strip_prefix_def strip_suffix_def)
  next
    case False
    then have "0x22 \<notin> set v" using assms word_okD(6) by blast
    then show ?thesis using False by (cases v) (auto simp: value_text_def unquote_def strip_prefix_def)
  qed
qed

lemma op_text_facts:
  "op_text x \<noteq> []" "list_all (\<lambda>c. \<not> is_ws c) (op_text x)" "set (op_text x) \<inter> specials = {}"
  "0x2C \<notin> set (op_text x)" "\<not> starts_kw (op_text x @ rest)"
  by (cases x; simp add: op_text_def is_ws_def specials_def starts_kw_ws)+

lemma predicate_text_item:
  assumes "predicate_ok p"
  shows "item_ok (predicate_to_text p)"
proof -
  note k = word_okD [of "pr_key p"] and v = value_text_facts [of "pr_value p"]
  have ok: "word_ok (pr_key p)" "word_ok (pr_value p) \<or> list_ex is_ws (pr_value p) \<and> 0x22 \<notin> set (pr_value p)"
    using assms by (simp_all add: predicate_ok_def)
  have pre: "set (pr_key p @ [0x20] @ op_text (pr_op p) @ [0x20]) \<inter> specials = {}"
      "0x2C \<notin> set (pr_key p @ [0x20] @ op_text (pr_op p) @ [0x20])"
    using k [OF ok(1)] op_text_facts [of "pr_op p"] by (auto simp: specials_def)
  have shape: "predicate_to_text p = (pr_key p @ [0x20] @ op_text (pr_op p) @ [0x20]) @ value_text (pr_value p)"
    by (simp add: predicate_to_text_parts)
  have "closed (predicate_to_text p)"
    unfolding shape by (intro closed_append closed_plain pre(1) v(3) [OF ok(2)])
  moreover have "no_split 0x2C (0, False) (predicate_to_text p)"
    unfolding shape
    by (subst no_split_append)
      (simp only: fold_scan_plain [OF pre(1)] no_split_absent [OF pre(2)] v(4) [OF ok(2)] simp_thms)
  moreover have "trimmed (predicate_to_text p)" "predicate_to_text p \<noteq> []"
    using k(1,8) [OF ok(1)] v(1,2) [OF ok(2)] by (auto simp: predicate_to_text_parts trimmed_def)
  ultimately show ?thesis by (simp add: item_ok_def)
qed

lemma predicate_text_no_kw:
  assumes "predicate_ok p"
  shows "follows_word rest \<Longrightarrow> no_kw (0, False) pw (predicate_to_text p) rest"
    and "no_kw (1, False) pw (predicate_to_text p) rest"
proof -
  have k: "word_ok (pr_key p)"
    and v: "word_ok (pr_value p) \<or> list_ex is_ws (pr_value p) \<and> 0x22 \<notin> set (pr_value p)"
    using assms by (simp_all add: predicate_ok_def)
  note kd = word_okD [OF k] and opf = op_text_facts [of "pr_op p"]
  have space: "scan_char 0x20 st = st" for st by (simp add: specials_def del: scan_char.simps)
  have opw: "no_kw st pw (op_text (pr_op p)) rest" for st pw rest
    using op_text_facts(5) [of "pr_op p"] no_kw_inner [of "tl (op_text (pr_op p))"]
    by (cases "pr_op p") (auto simp: op_text_def specials_def is_ws_def starts_kw_ws simp del: scan_char.simps)
  show "no_kw (0, False) pw (predicate_to_text p) rest" if "follows_word rest"
    using no_kw_word [OF kd(3,2,5)] opw value_text_facts(6) [OF v that]
    by (simp add: predicate_to_text_parts no_kw_append fold_scan_plain [OF kd(3)] fold_scan_plain [OF opf(3)]
        follows_word_def starts_kw_ws space del: scan_char.simps)
  show "no_kw (1, False) pw (predicate_to_text p) rest"
    using no_kw_deep [OF _ kd(3)] opw value_text_facts(7) [OF v]
    by (simp add: predicate_to_text_parts no_kw_append fold_scan_plain [OF kd(3)] fold_scan_plain [OF opf(3)]
        starts_kw_ws space del: scan_char.simps)
qed

lemma value_text_no_match:
  assumes "\<not> sublist (lit ''=~'') v"
  shows "text_split_once [0x3D, 0x7E] (value_text v) = None"
  using assms unfolding split_once_None value_text_def
  by (auto simp: sublist_Cons_right sublist_append prefix_Cons suffix_def Cons_eq_append_conv)

lemma parse_predicate_text:
  assumes "predicate_ok p"
  shows "parse_predicate (predicate_to_text p) = PslOk p"
proof -
  have k: "word_ok (pr_key p)" "0x3D \<notin> set (pr_key p)"
    and v: "word_ok (pr_value p) \<or> list_ex is_ws (pr_value p) \<and> 0x22 \<notin> set (pr_value p)"
    using assms by (simp_all add: predicate_ok_def)
  have key: "trim (pr_key p @ [0x20]) = pr_key p" "pr_key p \<noteq> []" "0x3D \<notin> set (pr_key p @ [0x20])"
    using k word_okD(1,8) [OF k(1)] by (simp_all add: trim_space)
  have val: "trim (0x20 # value_text (pr_value p)) = value_text (pr_value p)" "pr_value p \<noteq> []"
    using value_text_facts(2) [OF v] v word_okD(1) by (auto simp: trim_space)
  show ?thesis
  proof (cases "pr_op p")
    case MatchOp
    have "text_split_once [0x3D, 0x7E] (predicate_to_text p) = Some (pr_key p @ [0x20], 0x20 # value_text (pr_value p))"
      using split_once_first [OF key(3), of "[0x7E]" "0x20 # value_text (pr_value p)"] MatchOp
      by (simp add: predicate_to_text_parts op_text_def)
    then show ?thesis
      using key val value_text_facts(5) [OF v] MatchOp by (simp add: parse_predicate_def Let_def)
  next
    case EqOp
    then have "text_split_once [0x3D, 0x7E] (value_text (pr_value p)) = None"
      using assms by (intro value_text_no_match) (simp add: predicate_ok_def)
    then have "text_split_once [0x3D, 0x7E] (predicate_to_text p) = None"
      using split_once_skip [OF k(2), of "[0x7E]"] EqOp by (simp add: predicate_to_text_parts op_text_def)
    moreover have "text_split_once [0x3D] (predicate_to_text p) = Some (pr_key p @ [0x20], 0x20 # value_text (pr_value p))"
      using split_once_first [OF key(3), of "[]" "0x20 # value_text (pr_value p)"] EqOp
      by (simp add: predicate_to_text_parts op_text_def)
    ultimately show ?thesis
      using key val value_text_facts(5) [OF v] EqOp by (simp add: parse_predicate_def Let_def)
  qed
qed

lemma psl_collect_ok: "list_all (\<lambda>x. f (g x) = PslOk x) xs \<Longrightarrow> psl_collect f (map g xs) = PslOk xs"
  by (induction xs) auto

lemma parse_predicates_text:
  assumes "list_all predicate_ok ps" "ps \<noteq> []" "list_all is_ws w" "list_all is_ws u"
  shows "parse_predicates (w @ join (lit '', '') (map predicate_to_text ps) @ u) = PslOk ps"
proof -
  have items: "list_all item_ok (map predicate_to_text ps)"
    using assms(1) predicate_text_item by (auto simp: list_all_iff)
  have "psl_collect parse_predicate (map predicate_to_text ps) = PslOk ps"
    using assms(1) parse_predicate_text by (intro psl_collect_ok) (auto simp: list_all_iff)
  then show ?thesis
    using trim_pad [OF assms(3,4) join_trimmed(1) [OF items]] join_trimmed(2) [OF items] assms(2)
    by (simp add: parse_predicates_def comma_items_join [OF items] del: lit_simps)
qed

section \<open>Select clauses\<close>

definition select_ok :: "select_clause \<Rightarrow> bool" where
  "select_ok c \<longleftrightarrow> list_all predicate_ok (sl_predicates c)"

lemma kind_name_facts:
  "word_ok (kind_name k)" "0x28 \<notin> set (kind_name k)" "kind_from_name (kind_name k) = PslOk k"
  by (cases k; simp add: word_ok_def is_ws_def specials_def starts_kw_def clause_keywords_def kind_from_name_def)+

lemma join_closed:
  assumes "list_all item_ok ts"
  shows "closed (join (lit '', '') ts)"
  using assms
proof (induction ts rule: induct_list012)
  case (3 t u ts)
  have "closed (lit '', '')" by (rule closed_plain) (simp add: specials_def)
  then show ?case using 3 by (auto simp: join_Cons item_ok_def intro!: closed_append simp del: lit_simps)
qed (auto simp: join_def closed_def item_ok_def)

lemma no_split_deep: "set b \<inter> specials = {} \<Longrightarrow> d \<noteq> 0 \<Longrightarrow> no_split sep (d, q) b"
  by (induction b) (auto simp: scan_other_def simp del: scan_char.simps)

lemma no_kw_join:
  assumes "\<And>t rest pw. t \<in> set ts \<Longrightarrow> follows_word rest \<or> st \<noteq> (0, False) \<Longrightarrow> no_kw st pw t rest"
    and "list_all (\<lambda>t. fold scan_char t st = st \<and> t \<noteq> []) ts" "follows_word rest \<or> st \<noteq> (0, False)"
  shows "no_kw st pw (join (lit '', '') ts) rest"
  using assms
proof (induction ts arbitrary: pw rule: induct_list012)
  case (3 t u ts)
  have comma: "scan_char 0x2C st = st" "scan_char 0x20 st = st" "\<not> is_ws 0x2C"
    by (simp_all add: specials_def is_ws_def del: scan_char.simps)
  have first: "no_kw st pw t (lit '', '' @ join (lit '', '') (u # ts) @ rest)"
    using "3.prems"(1) by (simp add: follows_word_def)
  have rest: "no_kw st True (join (lit '', '') (u # ts)) rest"
    using 3 by (intro "3.IH"(2)) auto
  have mid: "no_kw st (ws_after pw t) (lit '', '') (join (lit '', '') (u # ts) @ rest)"
    by (auto simp: starts_kw_def clause_keywords_def comma simp del: scan_char.simps)
  have "fold scan_char (lit '', '') st = st" by (simp add: comma del: scan_char.simps)
  then show ?case
    using first rest mid "3.prems"(2)
    by (simp add: join_Cons no_kw_append ws_after_def del: lit_simps scan_char.simps) simp
qed (auto simp: join_def)

lemma parse_select_text:
  assumes "select_ok c"
  shows "parse_select (select_to_text c) = PslOk c"
proof (cases "sl_predicates c = []")
  case True
  then show ?thesis
    using split_once_absent [OF kind_name_facts(2) [of "sl_kind c"], of "[]"] kind_name_facts(3)
    by (simp add: parse_select_def select_to_text_def select_clause_new_def)
next
  case False
  let ?body = "join (lit '', '') (map predicate_to_text (sl_predicates c))"
  have "text_split_once [0x28] (select_to_text c) = Some (kind_name (sl_kind c), ?body @ [0x29])"
    using split_once_first [OF kind_name_facts(2) [of "sl_kind c"], of "[]" "?body @ [0x29]"] False
    by (simp add: select_to_text_def)
  moreover have "parse_predicates ?body = PslOk (sl_predicates c)"
    using parse_predicates_text [of "sl_predicates c" "[]" "[]"] assms False by (simp add: select_ok_def)
  moreover have "before_last 0x29 (?body @ [0x29]) = ?body" by (simp add: before_last_def)
  moreover have "trim (kind_name (sl_kind c)) = kind_name (sl_kind c)"
    by (rule trim_trimmed [OF word_okD(8) [OF kind_name_facts(1)]])
  moreover have "0x29 \<in> set (select_to_text c)" using False by (simp add: select_to_text_def)
  ultimately show ?thesis using kind_name_facts(3) by (simp add: parse_select_def select_clause_new_def)
qed

lemma predicate_items:
  "list_all predicate_ok ps \<Longrightarrow> list_all item_ok (map predicate_to_text ps)"
  using predicate_text_item by (auto simp: list_all_iff)

lemma no_split_join_deep:
  assumes "list_all predicate_ok ps"
  shows "no_split 0x2C (1, False) (join (lit '', '') (map predicate_to_text ps))"
proof -
  have deep: "no_split 0x2C (1, False) (predicate_to_text p)" if "predicate_ok p" for p
  proof -
    let ?pre = "pr_key p @ [0x20] @ op_text (pr_op p) @ [0x20]"
    have ok: "word_ok (pr_key p)" "word_ok (pr_value p) \<or> list_ex is_ws (pr_value p) \<and> 0x22 \<notin> set (pr_value p)"
      using that by (simp_all add: predicate_ok_def)
    have pre: "set ?pre \<inter> specials = {}"
      using word_okD(3) [OF ok(1)] op_text_facts(3) [of "pr_op p"] by (auto simp: specials_def)
    have "no_split 0x2C (1, False) (value_text (pr_value p))"
      using ok(2) word_okD(3) [of "pr_value p"] no_split_deep [of "pr_value p" 1 "0x2C" False]
        no_split_quoted [of "pr_value p" "0x2C" 1]
      by (cases "list_ex is_ws (pr_value p)") (auto simp: value_text_def dest: word_okD(6))
    moreover have "predicate_to_text p = ?pre @ value_text (pr_value p)" by (simp add: predicate_to_text_parts)
    ultimately show ?thesis
      using no_split_deep [OF pre, of 1 "0x2C" False] no_split_append [of "0x2C" "(1, False)" ?pre]
      by (simp only: fold_scan_plain [OF pre] simp_thms)
  qed
  show ?thesis
    using assms
  proof (induction ps rule: induct_list012)
    case (3 p q ps)
    have "closed (predicate_to_text p)" using predicate_text_item 3 by (simp add: item_ok_def)
    then have "fold scan_char (predicate_to_text p) (1, False) = (1, False)" by (simp add: closed_def)
    moreover have "no_split 0x2C (1, False) (lit '', '')" "fold scan_char (lit '', '') (1, False) = (1, False)"
      by (simp_all add: scan_other_def specials_def)
    ultimately show ?case
      using 3 deep [of p] by (simp add: join_Cons no_split_append del: lit_simps scan_char.simps)
  qed (auto simp: join_def deep)
qed

lemma select_text_item:
  assumes "select_ok c"
  shows "item_ok (select_to_text c)" "follows_word rest \<Longrightarrow> no_kw (0, False) pw (select_to_text c) rest"
proof -
  note n = word_okD [OF kind_name_facts(1) [of "sl_kind c"]]
  let ?body = "join (lit '', '') (map predicate_to_text (sl_predicates c))"
  have ps: "list_all predicate_ok (sl_predicates c)" using assms by (simp add: select_ok_def)
  have shape: "select_to_text c = kind_name (sl_kind c) @ (if sl_predicates c = [] then [] else 0x28 # ?body @ [0x29])"
    by (simp add: select_to_text_def)
  have body: "closed ?body" by (rule join_closed [OF predicate_items [OF ps]])
  have "\<not> is_ws 0x29" by (simp add: is_ws_def)
  then have "trimmed (select_to_text c)" "select_to_text c \<noteq> []"
    using n(1,8) by (auto simp: shape trimmed_def)
  moreover have "closed (select_to_text c)"
    unfolding shape using closed_append [OF closed_plain [OF n(3)] closed_parens [OF body]] closed_plain [OF n(3)]
    by simp
  moreover have "no_split 0x2C (0, False) (select_to_text c)"
    using no_split_join_deep [OF ps] body no_split_absent [OF n(4)]
    by (simp add: shape no_split_append fold_scan_plain [OF n(3)] closed_def)
  ultimately show "item_ok (select_to_text c)" by (simp add: item_ok_def)
  have "no_kw (1, False) pw ?body rest" for pw rest
  proof (rule no_kw_join)
    show "no_kw (1, False) pw t rest" if "t \<in> set (map predicate_to_text (sl_predicates c))" for t rest pw
      using that ps predicate_text_no_kw(2) by (auto simp: list_all_iff)
    show "list_all (\<lambda>t. fold scan_char t (1, False) = (1, False) \<and> t \<noteq> []) (map predicate_to_text (sl_predicates c))"
      using ps predicate_text_item by (auto simp: list_all_iff item_ok_def closed_def)
  qed simp
  then show "no_kw (0, False) pw (select_to_text c) rest" if "follows_word rest"
    using no_kw_word [OF n(3,2,5)] that body
    by (simp add: shape no_kw_append fold_scan_plain [OF n(3)] closed_def follows_word_def scan_other_def)
qed

lemma parse_selects_text:
  assumes "list_all select_ok cs" "cs \<noteq> []"
  shows "parse_selects (0x20 # join (lit '', '') (map select_to_text cs) @ [0x20]) = PslOk cs"
proof -
  have items: "list_all item_ok (map select_to_text cs)"
    using assms(1) select_text_item(1) by (auto simp: list_all_iff)
  have "psl_collect parse_select (map select_to_text cs) = PslOk cs"
    using assms(1) parse_select_text by (intro psl_collect_ok) (auto simp: list_all_iff)
  then show ?thesis
    using trim_space(2) [OF join_trimmed(1) [OF items]] join_trimmed(2) [OF items] assms(2)
    by (simp add: parse_selects_def comma_items_join [OF items] del: lit_simps)
qed

section \<open>Ranges and correlations\<close>

text \<open>Digits and lower-case letters, and the hyphen.\<close>

definition plain_char :: "rchar \<Rightarrow> bool" where
  "plain_char c \<longleftrightarrow> is_digit c \<or> 97 \<le> c \<and> c \<le> 122 \<or> c = 0x2D"

lemma plain_char_facts: "plain_char c \<Longrightarrow> \<not> is_ws c \<and> c \<notin> specials \<and> c \<noteq> 0x2C \<and> c \<noteq> 0x2E \<and> c \<noteq> 0x3A"
  by (auto simp: plain_char_def is_digit_def is_ws_def specials_def)

lemma plain_textD:
  assumes "list_all plain_char t"
  shows "trimmed t" "set t \<inter> specials = {}" "0x2C \<notin> set t" "0x2E \<notin> set t" "0x3A \<notin> set t"
    "list_all (\<lambda>c. \<not> is_ws c) t"
proof -
  have "\<not> is_ws c \<and> c \<notin> specials \<and> c \<noteq> 0x2C \<and> c \<noteq> 0x2E \<and> c \<noteq> 0x3A" if "c \<in> set t" for c
    using that assms plain_char_facts by (auto simp: list_all_iff)
  then show "set t \<inter> specials = {}" "0x2C \<notin> set t" "0x2E \<notin> set t" "0x3A \<notin> set t" "list_all (\<lambda>c. \<not> is_ws c) t"
    by (auto simp: list_all_iff)
  then show "trimmed t" by (intro trimmed_plain)
qed

lemma nat_text_plain: "list_all plain_char (nat_text n)"
  using nat_text_digits [of n] by (auto simp: list_all_iff plain_char_def)

lemma duration_text_plain: "list_all plain_char (duration_to_text s)" "duration_to_text s \<noteq> []"
  using nat_text_plain by (simp_all add: duration_to_text_def plain_char_def)

lemma duration_unit:
  assumes "\<not> is_digit u"
  shows "takeWhile is_digit (nat_text n @ [u]) = nat_text n" "dropWhile is_digit (nat_text n @ [u]) = [u]"
  using nat_text_digits [of n] assms by (simp_all add: list_all_iff takeWhile_append dropWhile_append)

lemma parse_duration_text: "parse_duration_seconds (duration_to_text s) = PslOk s"
proof -
  have exact: "s div k * k = s" if "s mod k = 0" for k using that by (metis add.right_neutral div_mult_mod_eq)
  have "trim (duration_to_text s) = duration_to_text s"
    by (rule trim_trimmed [OF plain_textD(1) [OF duration_text_plain(1)]])
  then show ?thesis
    using exact [of 86400] exact [of 3600] exact [of 60] duration_unit [of 100] duration_unit [of 104]
      duration_unit [of 109] duration_unit [of 115] parse_u64_text [of 0]
    by (auto simp: parse_duration_seconds_def Let_def duration_to_text_def parse_u64_text is_digit_def)
qed

lemma bound_text_plain: "list_all plain_char (bound_to_text b)" "bound_to_text b \<noteq> []"
  using nat_text_plain nat_text_digits duration_text_plain by (cases b; simp add: plain_char_def)+

lemma parse_bound_text: "parse_bound (bound_to_text b) = PslOk b"
proof -
  have trim: "trim (bound_to_text b) = bound_to_text b"
    by (rule trim_trimmed [OF plain_textD(1) [OF bound_text_plain(1)]])
  have "hd (nat_text n) \<noteq> 110" for n
    using nat_text_digits [of n] by (cases "nat_text n") (auto simp: is_digit_def)
  then have "\<not> prefix (110 # x) (nat_text n) \<and> nat_text n \<noteq> 110 # x" for n x
    by (cases "nat_text n") (auto; metis list.sel(1))+
  then show ?thesis
    using trim nat_text_digits
    by (cases b) (auto simp: parse_bound_def Let_def strip_prefix_def parse_duration_text parse_u64_text ok_or_def)
qed

lemma range_text_shape:
  "list_all (\<lambda>c. plain_char c \<or> c = 0x2E) (range_to_text r)" "range_to_text r \<noteq> []" "\<not> starts_kw (range_to_text r)"
proof -
  have "list_all (\<lambda>c. plain_char c \<or> c = 0x2E) t" if "list_all plain_char t" for t
    using that by (auto simp: list_all_iff)
  then show "list_all (\<lambda>c. plain_char c \<or> c = 0x2E) (range_to_text r)" "range_to_text r \<noteq> []"
    using bound_text_plain duration_text_plain nat_text_plain
    by (auto simp: range_to_text_def plain_char_def split: time_bound.split)
  have "hd (bound_to_text b) = 110 \<or> is_digit (hd (bound_to_text b))" for b
  proof (cases b)
    case (Tick t)
    then show ?thesis using nat_text_digits [of "unat t"] by (cases "nat_text (unat t)") auto
  qed simp_all
  moreover have "hd (range_to_text r) = hd (bound_to_text (tr_start r))"
    using bound_text_plain(2) nat_text_digits by (auto simp: range_to_text_def split: time_bound.split)
  ultimately have "hd (range_to_text r) = 110 \<or> is_digit (hd (range_to_text r))" by simp
  then show "\<not> starts_kw (range_to_text r)"
    by (cases "range_to_text r") (auto simp: starts_kw_def clause_keywords_def is_digit_def)
qed

lemma range_text_word: "word_ok (range_to_text r)"
proof -
  have "\<not> is_ws c \<and> c \<notin> specials \<and> c \<noteq> 0x2C" if "plain_char c \<or> c = 0x2E" for c
    using that plain_char_facts by (auto simp: is_ws_def specials_def)
  then show ?thesis using range_text_shape [of r] by (auto simp: word_ok_def list_all_iff)
qed

lemma parse_range_text:
  assumes "list_all is_ws w" "list_all is_ws u"
  shows "parse_range (w @ range_to_text r @ u) = PslOk r"
proof -
  have trim: "trim (w @ range_to_text r @ u) = range_to_text r"
    by (rule trim_pad [OF assms word_okD(8) [OF range_text_word]])
  show ?thesis
  proof (cases "\<exists>s. r = range_seconds s")
    case True
    then obtain s where r: "r = range_seconds s" by blast
    have shape: "range_to_text (range_seconds s) = lit ''now-'' @ duration_to_text s"
      by (simp add: range_to_text_def range_seconds_def)
    have "0x2E \<notin> set (range_to_text (range_seconds s))"
      using plain_textD(4) [OF duration_text_plain(1)] by (simp add: shape)
    from split_once_absent [OF this, of "[0x2E]"] show ?thesis
      using trim parse_duration_text unfolding r
      by (simp add: parse_range_def Let_def shape strip_prefix_def)
  next
    case False
    then have shape: "range_to_text r = bound_to_text (tr_start r) @ lit ''..'' @ bound_to_text (tr_end r)"
      by (cases r) (auto simp: range_to_text_def range_seconds_def split: time_bound.split)
    then have "text_split_once (lit ''..'') (range_to_text r) = Some (bound_to_text (tr_start r), bound_to_text (tr_end r))"
      using split_once_first [OF plain_textD(4) [OF bound_text_plain(1) [of "tr_start r"]], of "[0x2E]" "bound_to_text (tr_end r)"]
      by simp
    then show ?thesis using trim by (simp add: parse_range_def Let_def parse_bound_text del: lit_simps)
  qed
qed

lemma item_ok_words:
  assumes "set t \<inter> specials = {}" "0x2C \<notin> set t" "t \<noteq> []" "\<not> is_ws (hd t)" "\<not> is_ws (last t)"
  shows "item_ok t"
  using assms by (simp add: item_ok_def trimmed_def closed_plain no_split_absent)

lemma kind_name_plain: "list_all plain_char (kind_name k)" "kind_name k \<noteq> []"
  by (cases k; simp add: plain_char_def)+

lemma parse_correlate_text: "parse_correlate (0x20 # correlate_to_text c) = PslOk c"
proof -
  define d where "d = duration_to_text (cs_window_seconds c)"
  define k where "k = kind_name (cs_anchor c)"
  define t1 where "t1 = lit ''window: '' @ d"
  define t2 where "t2 = lit ''anchor: '' @ k"
  have plain: "list_all plain_char d" "d \<noteq> []" "list_all plain_char k" "k \<noteq> []"
    using duration_text_plain kind_name_plain unfolding d_def k_def by simp_all
  note D = plain_textD [OF plain(1)] and K = plain_textD [OF plain(3)]
  have i1: "item_ok t1"
    unfolding t1_def
  proof (rule item_ok_words)
    show "set (lit ''window: '' @ d) \<inter> specials = {}" using D(2) by (auto simp: specials_def)
    show "\<not> is_ws (last (lit ''window: '' @ d))" using D(1) plain(2) by (simp add: trimmed_def)
  qed (use D(3) in \<open>simp_all add: is_ws_def\<close>)
  have i2: "item_ok t2"
    unfolding t2_def
  proof (rule item_ok_words)
    show "set (lit ''anchor: '' @ k) \<inter> specials = {}" using K(2) by (auto simp: specials_def)
    show "\<not> is_ws (last (lit ''anchor: '' @ k))" using K(1) plain(4) by (simp add: trimmed_def)
  qed (use K(3) in \<open>simp_all add: is_ws_def\<close>)
  let ?inner = "0x20 # t1 @ 0x2C # 0x20 # t2 @ [0x20]"
  have "split_top_level ?inner 0x2C = [0x20 # t1, 0x20 # t2 @ [0x20]]"
    using item_split [OF i1, of "0x2C # 0x20 # t2 @ [0x20]"] item_split [OF i2, of "[0x20]"]
    by (simp add: split_top_level_def scan_other_def specials_def)
  then have items: "comma_items ?inner = [t1, t2]"
    using i1 i2 by (simp add: comma_items_def item_ok_def trim_space)
  have split: "text_split_once (lit '':'') t1 = Some (lit ''window'', 0x20 # d)"
      "text_split_once (lit '':'') t2 = Some (lit ''anchor'', 0x20 # k)"
    by (simp_all add: t1_def t2_def)
  have vals: "trim (0x20 # d) = d" "trim (0x20 # k) = k" using D(1) K(1) by (simp_all add: trim_space)
  have keys: "trim (lit ''window'') = lit ''window''" "trim (lit ''anchor'') = lit ''anchor''"
    by (rule trim_trimmed, simp add: trimmed_def is_ws_def)+
  have ne: "lit ''anchor'' \<noteq> lit ''window''" by simp
  have fields: "correlate_fields [t1, t2] None None = PslOk (Some (cs_window_seconds c), Some (cs_anchor c))"
  proof -
    have "parse_duration_seconds d = PslOk (cs_window_seconds c)" "kind_from_name k = PslOk (cs_anchor c)"
      by (simp_all add: d_def k_def parse_duration_text kind_name_facts(3))
    then show ?thesis by (simp add: split vals keys ne Let_def del: lit_simps)
  qed
  have shape: "correlate_to_text c = lit ''{'' @ ?inner @ lit ''}''"
    by (simp add: correlate_to_text_def t1_def t2_def d_def k_def)
  have "trim (0x20 # correlate_to_text c) = correlate_to_text c"
    by (rule trim_space) (simp add: shape trimmed_def is_ws_def)
  moreover have "Option.bind (strip_prefix (lit ''{'') (correlate_to_text c)) (strip_suffix (lit ''}'')) = Some ?inner"
    unfolding shape strip_affix(1) by (simp only: bind.simps strip_affix(2) append.assoc [symmetric])
  ultimately show ?thesis
    by (simp add: parse_correlate_def Let_def items fields ok_or_def del: lit_simps correlate_fields.simps)
qed

section \<open>The round trip\<close>

lemma split_at_keyword:
  assumes "no_kw (0, False) True b (kw @ tail)" "closed b" "b \<noteq> []" "is_ws (last b)"
    and "kw \<in> set kws" "set kws \<subseteq> set clause_keywords"
  shows "split_at_first_keyword (b @ kw @ tail) kws = (b, Some (kw, tail))"
proof -
  have unique: "k = kw" if "k \<in> set kws" "prefix k (kw @ tail)" for k
  proof -
    have "k \<in> set clause_keywords" "kw \<in> set clause_keywords" using that assms(5,6) by auto
    then show ?thesis using that(2) by (auto simp: clause_keywords_def)
  qed
  have "find (\<lambda>k. prefix k (kw @ tail)) kws \<noteq> None" using assms(5) by (auto simp: find_None_iff)
  then have found: "find (\<lambda>k. prefix k (kw @ tail)) kws = Some kw"
    using unique by (auto simp: find_Some_iff) (metis nth_mem)
  obtain c cs where kw: "kw = c # cs" "scan_other c (0, False)"
    using assms(5,6) by (auto simp: clause_keywords_def scan_other_def)
  have "split_keyword_from kws (0, False) True (kw @ tail) = ([], Some (kw, tail))"
    using found kw by simp
  then show ?thesis
    using split_keyword_append [OF assms(1,6)] assms(2-4)
    by (simp add: split_at_first_keyword_def closed_def ws_after_def)
qed

lemma no_kw_padded:
  assumes "\<And>rest. follows_word rest \<Longrightarrow> no_kw (0, False) True t rest" "closed t"
  shows "no_kw (0, False) True (0x20 # t @ [0x20]) tail" "no_kw (0, False) True (0x20 # t) []"
proof -
  have "scan_char 0x20 (0, False) = (0, False)" by simp
  then show "no_kw (0, False) True (0x20 # t @ [0x20]) tail" "no_kw (0, False) True (0x20 # t) []"
    using assms(1) [of "0x20 # tail"] assms(1) [of "[]"] assms(2)
    by (simp_all add: no_kw_append starts_kw_ws follows_word_def closed_def)
qed

lemma no_kw_items:
  assumes "list_all item_ok ts" "\<And>t rest pw. t \<in> set ts \<Longrightarrow> follows_word rest \<Longrightarrow> no_kw (0, False) pw t rest"
    and "follows_word rest"
  shows "no_kw (0, False) pw (join (lit '', '') ts) rest"
  using assms(2,3)
  by (intro no_kw_join) (use assms(1) in \<open>auto simp: list_all_iff item_ok_def closed_def\<close>)

lemma closed_padded: "closed t \<Longrightarrow> closed (0x20 # t @ [0x20])"
  by (simp add: closed_def)

definition query_ok :: "psl_query \<Rightarrow> bool" where
  "query_ok q \<longleftrightarrow> q_selects q \<noteq> [] \<and> list_all select_ok (q_selects q) \<and> list_all predicate_ok (q_where q)"

text \<open>What the parser reads after the keyword \<open>range:\<close>.\<close>

lemma parse_tail:
  "split_at_first_keyword (0x20 # range_to_text r @ (case c of None \<Rightarrow> [] | Some c \<Rightarrow> lit '' correlate: '' @ correlate_to_text c))
       [lit ''correlate:''] =
     (case c of None \<Rightarrow> (0x20 # range_to_text r, None)
      | Some c \<Rightarrow> (0x20 # range_to_text r @ [0x20], Some (lit ''correlate:'', 0x20 # correlate_to_text c)))"
proof -
  note w = word_okD [OF range_text_word [of r]]
  have closed: "closed (range_to_text r)" by (rule closed_plain [OF w(3)])
  have kw: "no_kw (0, False) True (range_to_text r) rest" if "follows_word rest" for rest
    by (rule no_kw_word [OF w(3,2,5) that])
  show ?thesis
  proof (cases c)
    case None
    then show ?thesis
      using split_keyword_append [OF no_kw_padded(2) [OF kw closed], of "[lit ''correlate:'']"]
      by (simp add: split_at_first_keyword_def clause_keywords_def)
  next
    case (Some x)
    then show ?thesis
      using split_at_keyword [OF no_kw_padded(1) [OF kw closed] closed_padded [OF closed], of "lit ''correlate:''" "[lit ''correlate:'']"
          "0x20 # correlate_to_text x"]
      by (simp add: clause_keywords_def)
  qed
qed

text \<open>What it reads after \<open>select:\<close>, up to the next clause.\<close>

lemma split_items:
  assumes "list_all item_ok ts" "ts \<noteq> []"
    and "\<And>t rest pw. t \<in> set ts \<Longrightarrow> follows_word rest \<Longrightarrow> no_kw (0, False) pw t rest"
    and "kw \<in> set kws" "set kws \<subseteq> set clause_keywords"
  shows "split_at_first_keyword (0x20 # join (lit '', '') ts @ 0x20 # kw @ tail) kws =
    (0x20 # join (lit '', '') ts @ [0x20], Some (kw, tail))"
proof -
  have closed: "closed (join (lit '', '') ts)" by (rule join_closed [OF assms(1)])
  have "no_kw (0, False) True (join (lit '', '') ts) rest" if "follows_word rest" for rest
    by (rule no_kw_items [OF assms(1,3) that])
  from split_at_keyword [OF no_kw_padded(1) [OF this closed] closed_padded [OF closed] _ _ assms(4,5)] show ?thesis
    by simp
qed

lemma psl_text_shape:
  "psl_to_text q = lit ''select:'' @ 0x20 # join (lit '', '') (map select_to_text (q_selects q)) @ 0x20 #
     (if q_where q = [] then [] else lit ''where:'' @ 0x20 # join (lit '', '') (map predicate_to_text (q_where q)) @ [0x20])
     @ lit ''range:'' @ 0x20 # range_to_text (q_range q)
       @ (case q_correlate q of None \<Rightarrow> [] | Some c \<Rightarrow> lit '' correlate: '' @ correlate_to_text c)"
  by (simp add: psl_to_text_def)

lemma trim_psl_text: "trim (psl_to_text q) = psl_to_text q"
proof -
  have "\<not> is_ws (last (correlate_to_text c))" for c by (simp add: correlate_to_text_def is_ws_def)
  moreover have "correlate_to_text c \<noteq> []" for c by (simp add: correlate_to_text_def)
  moreover have "\<not> is_ws (last (range_to_text (q_range q)))" "range_to_text (q_range q) \<noteq> []"
    using word_okD(1,8) [OF range_text_word [of "q_range q"]] by (simp_all add: trimmed_def)
  ultimately have "\<not> is_ws (last (psl_to_text q))"
    by (simp add: psl_text_shape split: option.split)
  then show ?thesis by (intro trim_trimmed) (simp add: trimmed_def psl_text_shape is_ws_def)
qed

lemma psl_parse_text:
  assumes q: "query_ok q"
  shows "psl_parse (psl_to_text q) = PslOk q"
proof -
  let ?S = "map select_to_text (q_selects q)" and ?P = "map predicate_to_text (q_where q)"
  let ?R = "0x20 # range_to_text (q_range q)
      @ (case q_correlate q of None \<Rightarrow> [] | Some c \<Rightarrow> lit '' correlate: '' @ correlate_to_text c)"
  have S: "list_all item_ok ?S" "?S \<noteq> []" "t \<in> set ?S \<Longrightarrow> follows_word rest \<Longrightarrow> no_kw (0, False) pw t rest" for t rest pw
    using q select_text_item by (auto simp: query_ok_def list_all_iff)
  have P: "list_all item_ok ?P" "t \<in> set ?P \<Longrightarrow> follows_word rest \<Longrightarrow> no_kw (0, False) pw t rest" for t rest pw
    using q predicate_text_item predicate_text_no_kw(1) by (auto simp: query_ok_def list_all_iff)
  have kws: "set [lit ''where:'', lit ''range:'', lit ''correlate:''] \<subseteq> set clause_keywords"
      "set [lit ''range:'', lit ''correlate:''] \<subseteq> set clause_keywords"
    by (auto simp: clause_keywords_def simp del: lit_simps)
  have ne: "lit ''where:'' \<noteq> lit ''range:''" by simp
  have sel: "parse_selects (0x20 # join (lit '', '') ?S @ [0x20]) = PslOk (q_selects q)"
    using q by (intro parse_selects_text) (simp_all add: query_ok_def)
  have preds: "parse_predicates (0x20 # join (lit '', '') ?P @ [0x20]) = PslOk (q_where q)" if "q_where q \<noteq> []"
    using q parse_predicates_text [of "q_where q" "[0x20]" "[0x20]"] that by (simp add: query_ok_def)
  have range: "parse_range (0x20 # range_to_text (q_range q)) = PslOk (q_range q)"
      "parse_range (0x20 # range_to_text (q_range q) @ [0x20]) = PslOk (q_range q)"
    using parse_range_text [of "[0x20]" "[]"] parse_range_text [of "[0x20]" "[0x20]"] by simp_all
  have whole: "q = \<lparr>q_selects = q_selects q, q_where = q_where q, q_range = q_range q, q_correlate = q_correlate q\<rparr>"
    by simp
  note tail = parse_tail [of "q_range q" "q_correlate q"]
  show ?thesis
  proof (cases "q_where q = []")
    case True
    have "strip_prefix (lit ''select:'') (trim (psl_to_text q)) =
        Some (0x20 # join (lit '', '') ?S @ 0x20 # lit ''range:'' @ ?R)"
      unfolding trim_psl_text by (subst psl_text_shape) (simp only: True simp_thms if_True append_Nil strip_affix)
    then show ?thesis
      using split_items [OF S _ kws(1), of "lit ''range:''" ?R] sel range tail True
      by (subst (2) whole, cases "q_correlate q")
        (simp_all add: psl_parse_def ok_or_def ne [symmetric] parse_correlate_text del: lit_simps)
  next
    case False
    have "strip_prefix (lit ''select:'') (trim (psl_to_text q)) =
        Some (0x20 # join (lit '', '') ?S @ 0x20 # lit ''where:'' @ 0x20 # join (lit '', '') ?P @ 0x20 # lit ''range:'' @ ?R)"
      unfolding trim_psl_text by (subst psl_text_shape) (simp only: False if_False append.assoc append.simps strip_affix refl)
    then show ?thesis
      using split_items [OF S _ kws(1), of "lit ''where:''" "0x20 # join (lit '', '') ?P @ 0x20 # lit ''range:'' @ ?R"]
        split_items [OF P(1) _ P(2) _ kws(2), of "lit ''range:''" ?R] sel preds range tail False
      by (subst (2) whole, cases "q_correlate q")
        (simp_all add: psl_parse_def ok_or_def parse_correlate_text del: lit_simps)
  qed
qed

text \<open>
  \<^bold>\<open>C39.\<close> The two surfaces of the query language agree: the canonical text of a query parses back to
  the query, for every query with at least one clause whose predicates have words for keys and, for
  values, words or quotable text; ranges, durations and correlations are unrestricted. So
  a query the builder accepts is the one its text denotes, and different queries have different texts.
\<close>

theorem psl_roundtrip:
  assumes "query_ok q"
  shows "psl_parse (psl_to_text q) = PslOk q
    \<and> (builder_build b = PslOk q \<longrightarrow> psl_parse (psl_to_text q) = builder_build b)
    \<and> (query_ok q' \<and> psl_to_text q' = psl_to_text q \<longrightarrow> q' = q)"
  using psl_parse_text [OF assms] psl_parse_text [of q'] by auto

definition demo_query :: psl_query where
  "demo_query = \<lparr>q_selects = [select_clause_new Metric [predicate_eq (lit ''name'') (lit ''ingest_bandwidth'')],
       select_clause_new Log [predicate_matches (lit ''message'') (lit ''timeout, in range: (x'')]],
     q_where = [predicate_eq (lit ''cell'') (lit ''a'')], q_range = range_window (Ago 90) (Tick 7),
     q_correlate = Some \<lparr>cs_window_seconds = 1, cs_anchor = Metric\<rparr>\<rparr>"

theorem psl_roundtrip_witness: "psl_parse (psl_to_text demo_query) = PslOk demo_query"
proof -
  have "query_ok demo_query" by code_simp
  from psl_roundtrip [OF this, of builder_new demo_query] show ?thesis by simp
qed

section \<open>Where the code and its documentation part\<close>

text \<open>A clause whose last closing parenthesis precedes the opening one panics in the slice.\<close>

lemma reversed_parens_panic: "psl_parse (lit ''select: )metrics( range: now-1d'') = PslPanic"
  by code_simp

text \<open>A value with a comma but no blank is printed bare, and its text is refused.\<close>

lemma comma_value_refused:
  "psl_parse (psl_to_text \<lparr>q_selects = [select_clause_new Log []], q_where = [predicate_eq (lit ''k'') (lit ''a,b'')],
     q_range = range_seconds 1, q_correlate = None\<rparr>)
   = PslErr (lit ''predicate '' @ quoted (lit ''b'') @ lit '' missing '' @ quoted (lit ''='') @ lit '' or '' @ quoted (lit ''=~''))"
  by code_simp

text \<open>An equality on a value that holds the match operator is read as another query.\<close>

lemma match_operator_in_value:
  "psl_parse (psl_to_text \<lparr>q_selects = [select_clause_new Log []], q_where = [predicate_eq (lit ''k'') (lit ''a=~b'')],
     q_range = range_seconds 1, q_correlate = None\<rparr>)
   = PslOk \<lparr>q_selects = [select_clause_new Log []], q_where = [predicate_matches (lit ''k = a'') (lit ''b'')],
     q_range = range_seconds 1, q_correlate = None\<rparr>"
  by code_simp

text \<open>A duration beyond \<open>2^64\<close> seconds wraps around.\<close>

lemma duration_wraps: "parse_duration_seconds (lit ''213503982334602d'') = PslOk 61184"
  by code_simp

end
