(* ===== verification/TimeSeries.thy ===== *)
theory TimeSeries
  imports Psl StreamDb
begin

text \<open>
  \<^verbatim>\<open>crates/pillar-observability/src/block.rs\<close>, \<^verbatim>\<open>retention.rs\<close> and
  \<^verbatim>\<open>correlation.rs\<close>: the store of immutable blocks of signals, with retention and
  downsampling by policies, and the index that relates signals across kinds.

  Labels and keys are text in the sense of \<open>Psl\<close>; its lexicographic order of scalar values is the
  byte order of \<open>str\<close>. Payloads are bytes, and the digest is an argument.
\<close>

section \<open>Kinds and labels\<close>

fun kind_rank :: "signal_kind \<Rightarrow> nat" where
  "kind_rank Metric = 0"
| "kind_rank Log = 1"
| "kind_rank TraceSpan = 2"
| "kind_rank ProfileSample = 3"
| "kind_rank MetadataSample = 4"

lemma kind_rank_inject: "kind_rank a = kind_rank b \<longleftrightarrow> a = b"
  by (cases a; cases b) simp_all

instantiation signal_kind :: linorder
begin

definition less_eq_signal_kind :: "signal_kind \<Rightarrow> signal_kind \<Rightarrow> bool" where
  "less_eq_signal_kind a b \<longleftrightarrow> kind_rank a \<le> kind_rank b"

definition less_signal_kind :: "signal_kind \<Rightarrow> signal_kind \<Rightarrow> bool" where
  "less_signal_kind a b \<longleftrightarrow> kind_rank a < kind_rank b"

instance
  by standard (auto simp: less_eq_signal_kind_def less_signal_kind_def kind_rank_inject)

end

fun kind_debug :: "signal_kind \<Rightarrow> rtext" where
  "kind_debug Metric = lit ''Metric''"
| "kind_debug Log = lit ''Log''"
| "kind_debug TraceSpan = lit ''TraceSpan''"
| "kind_debug ProfileSample = lit ''ProfileSample''"
| "kind_debug MetadataSample = lit ''MetadataSample''"

type_synonym signal_label_set = "(rtext, rtext) btree_map"

section \<open>Retention policies\<close>

type_synonym label_selector = signal_label_set

definition selector_everything :: label_selector where
  "selector_everything = btree_new"

definition selector_matching :: "(rtext \<times> rtext) list \<Rightarrow> label_selector" where
  "selector_matching pairs = btree_collect pairs"

definition selector_matches :: "label_selector \<Rightarrow> signal_label_set \<Rightarrow> bool" where
  "selector_matches sel labels \<longleftrightarrow> list_all (\<lambda>(k, v). btree_get labels k = Some v) (btree_iter sel)"

definition selector_key :: "label_selector \<Rightarrow> rtext" where
  "selector_key sel = concat (map (\<lambda>(k, v). k @ lit ''='' @ v @ lit '';'') (btree_iter sel))"

record retention_policy =
  rp_kind :: signal_kind
  rp_selector :: label_selector
  rp_window :: "u64 option"
  rp_downsample :: "u64 option"

definition policy_matches :: "retention_policy \<Rightarrow> signal_kind \<Rightarrow> signal_label_set \<Rightarrow> bool" where
  "policy_matches p kind labels \<longleftrightarrow> rp_kind p = kind \<and> selector_matches (rp_selector p) labels"

definition policy_bucket_key :: "retention_policy \<Rightarrow> rtext" where
  "policy_bucket_key p = kind_debug (rp_kind p) @ lit ''|'' @ selector_key (rp_selector p)"

record effective_retention =
  er_window :: "u64 option"
  er_downsample :: "(rtext \<times> u64) option"

type_synonym retention_policy_set = "retention_policy list"

definition policies_empty :: retention_policy_set where
  "policies_empty = []"

definition policies_add :: "retention_policy \<Rightarrow> retention_policy_set \<Rightarrow> retention_policy_set" where
  "policies_add p ps = ps @ [p]"

definition effective_step ::
  "signal_kind \<Rightarrow> signal_label_set \<Rightarrow> retention_policy \<Rightarrow> effective_retention \<Rightarrow> effective_retention" where
  "effective_step kind labels p eff =
     (if \<not> policy_matches p kind labels then eff
      else
        let eff = (case rp_window p of
              None \<Rightarrow> eff
            | Some w \<Rightarrow> eff\<lparr>er_window := Some (case er_window eff of Some e \<Rightarrow> min e w | None \<Rightarrow> w)\<rparr>)
        in case (er_downsample eff, rp_downsample p) of
             (None, Some interval) \<Rightarrow> eff\<lparr>er_downsample := Some (policy_bucket_key p, interval)\<rparr>
           | _ \<Rightarrow> eff)"

definition policies_effective :: "retention_policy_set \<Rightarrow> signal_kind \<Rightarrow> signal_label_set \<Rightarrow> effective_retention" where
  "policies_effective ps kind labels =
     fold (effective_step kind labels) ps \<lparr>er_window = None, er_downsample = None\<rparr>"

record retention_policy_spec =
  rs_signal_kind :: rtext
  rs_match_labels :: signal_label_set
  rs_window :: "u64 option"
  rs_downsample_interval :: "u64 option"

definition signal_kind_from_str :: "rtext \<Rightarrow> signal_kind option" where
  "signal_kind_from_str s = find (\<lambda>k. kind_debug k = s) [Metric, Log, TraceSpan, ProfileSample, MetadataSample]"

definition policy_from_spec :: "retention_policy_spec \<Rightarrow> retention_policy option" where
  "policy_from_spec spec =
     (case signal_kind_from_str (rs_signal_kind spec) of
        None \<Rightarrow> None
      | Some kind \<Rightarrow> Some \<lparr>rp_kind = kind, rp_selector = selector_matching (btree_iter (rs_match_labels spec)),
          rp_window = rs_window spec, rp_downsample = rs_downsample_interval spec\<rparr>)"

section \<open>Signals and blocks\<close>

type_synonym signal_id = content_id

record signal =
  sg_id :: signal_id
  sg_kind :: signal_kind
  sg_payload :: bytes
  sg_labels :: signal_label_set
  sg_expiry :: u64

definition saturating_add :: "u64 \<Rightarrow> u64 \<Rightarrow> u64" where
  "saturating_add a b = (if a + b < a then - 1 else a + b)"

definition signal_new_labeled ::
  "sha256 \<Rightarrow> signal_kind \<Rightarrow> bytes \<Rightarrow> signal_label_set \<Rightarrow> u64 \<Rightarrow> u64 \<Rightarrow> signal" where
  "signal_new_labeled sha kind payload labels write_tick window =
     \<lparr>sg_id = content_address sha payload, sg_kind = kind, sg_payload = payload, sg_labels = labels,
       sg_expiry = saturating_add write_tick window\<rparr>"

record ts_block =
  bl_capacity :: nat
  bl_signals :: "(signal_id, signal) btree_map"
  bl_sealed :: bool
  bl_latest_expiry :: u64

text \<open>\<open>None\<close> is the panic of the assertion on the capacity.\<close>

definition block_new :: "nat \<Rightarrow> ts_block option" where
  "block_new capacity =
     (if capacity > 0 then Some \<lparr>bl_capacity = capacity, bl_signals = btree_new, bl_sealed = False, bl_latest_expiry = 0\<rparr>
      else None)"

definition block_len :: "ts_block \<Rightarrow> nat" where
  "block_len b = btree_len (bl_signals b)"

definition block_contains :: "ts_block \<Rightarrow> signal_id \<Rightarrow> bool" where
  "block_contains b i = btree_contains_key (bl_signals b) i"

definition block_signals :: "ts_block \<Rightarrow> signal list" where
  "block_signals b = btree_values (bl_signals b)"

definition block_admit :: "signal \<Rightarrow> ts_block \<Rightarrow> bool \<times> ts_block" where
  "block_admit x b =
     (if bl_sealed b then (False, b)
      else if \<not> block_contains b (sg_id x) \<and> block_len b \<ge> bl_capacity b then (False, b\<lparr>bl_sealed := True\<rparr>)
      else
        let b = b\<lparr>bl_latest_expiry := max (bl_latest_expiry b) (sg_expiry x)\<rparr>;
            b = b\<lparr>bl_signals := btree_or_insert (sg_id x) x (bl_signals b)\<rparr>
        in (True, if block_len b \<ge> bl_capacity b then b\<lparr>bl_sealed := True\<rparr> else b))"

section \<open>The store\<close>

record ts_store =
  ts_block_capacity :: nat
  ts_retention_window :: u64
  ts_policies :: retention_policy_set
  ts_sealed :: "ts_block list"
  ts_open :: ts_block
  ts_written :: "(signal_id, u64) btree_map"
  ts_write_ticks :: "(signal_id, u64) btree_map"
  ts_write_seqs :: "(signal_id, u64) btree_map"
  ts_next_seq :: u64
  ts_downsample_last :: "(signal_kind \<times> rtext, u64) btree_map"

definition store_new :: "nat \<Rightarrow> u64 \<Rightarrow> ts_store option" where
  "store_new capacity window =
     map_option (\<lambda>b. \<lparr>ts_block_capacity = capacity, ts_retention_window = window, ts_policies = policies_empty,
         ts_sealed = [], ts_open = b, ts_written = btree_new, ts_write_ticks = btree_new,
         ts_write_seqs = btree_new, ts_next_seq = 0, ts_downsample_last = btree_new\<rparr>)
       (block_new capacity)"

definition set_policies :: "retention_policy_set \<Rightarrow> ts_store \<Rightarrow> ts_store" where
  "set_policies ps s = s\<lparr>ts_policies := ps\<rparr>"

text \<open>The bucket of a downsampled signal; an interval of zero has none.\<close>

definition downsample_bucket :: "effective_retention \<Rightarrow> signal_kind \<Rightarrow> u64 \<Rightarrow> (signal_kind \<times> rtext) option" where
  "downsample_bucket eff kind tick =
     (case er_downsample eff of
        None \<Rightarrow> None
      | Some (key, interval) \<Rightarrow>
          if interval = 0 then None else Some (kind, key @ lit '':'' @ nat_text (unat (tick div interval))))"

text \<open>The registration of a signal and its admission, opening a fresh block when the current one is full.\<close>

definition store_admit :: "signal \<Rightarrow> u64 \<Rightarrow> ts_store \<Rightarrow> ts_store" where
  "store_admit x tick s =
     (let i = sg_id x;
          s = s\<lparr>ts_written := btree_or_insert i (sg_expiry x) (ts_written s),
                ts_write_ticks := btree_or_insert i tick (ts_write_ticks s)\<rparr>;
          s = (if btree_contains_key (ts_write_seqs s) i then s
               else s\<lparr>ts_write_seqs := btree_insert i (ts_next_seq s) (ts_write_seqs s), ts_next_seq := ts_next_seq s + 1\<rparr>)
      in case block_admit x (ts_open s) of
           (True, b) \<Rightarrow> s\<lparr>ts_open := b\<rparr>
         | (False, full) \<Rightarrow>
             let fresh = (case block_new (ts_block_capacity s) of Some b \<Rightarrow> b | None \<Rightarrow> full)
             in s\<lparr>ts_sealed := (if block_len full = 0 then ts_sealed s else ts_sealed s @ [full]),
                  ts_open := snd (block_admit x fresh)\<rparr>)"

definition write_labeled ::
  "sha256 \<Rightarrow> signal_kind \<Rightarrow> bytes \<Rightarrow> signal_label_set \<Rightarrow> u64 \<Rightarrow> ts_store \<Rightarrow> signal_id option \<times> ts_store" where
  "write_labeled sha kind payload labels tick s =
     (let eff = policies_effective (ts_policies s) kind labels;
          window = (case er_window eff of Some w \<Rightarrow> w | None \<Rightarrow> ts_retention_window s);
          x = signal_new_labeled sha kind payload labels tick window
      in case downsample_bucket eff kind tick of
           Some key \<Rightarrow>
             if btree_contains_key (ts_downsample_last s) key then (None, s)
             else (Some (sg_id x), store_admit x tick (s\<lparr>ts_downsample_last := btree_insert key tick (ts_downsample_last s)\<rparr>))
         | None \<Rightarrow> (Some (sg_id x), store_admit x tick s))"

text \<open>\<open>write\<close> takes the result of an unlabeled write for granted: \<open>None\<close> is its panic.\<close>

definition store_write :: "sha256 \<Rightarrow> signal_kind \<Rightarrow> bytes \<Rightarrow> u64 \<Rightarrow> ts_store \<Rightarrow> (signal_id \<times> ts_store) option" where
  "store_write sha kind payload tick s =
     (case write_labeled sha kind payload btree_new tick s of
        (Some i, s') \<Rightarrow> Some (i, s')
      | (None, _) \<Rightarrow> None)"

definition store_contains :: "ts_store \<Rightarrow> signal_id \<Rightarrow> bool" where
  "store_contains s i \<longleftrightarrow> block_contains (ts_open s) i \<or> list_ex (\<lambda>b. block_contains b i) (ts_sealed s)"

definition was_written :: "ts_store \<Rightarrow> signal_id \<Rightarrow> bool" where
  "was_written s i = btree_contains_key (ts_written s) i"

definition held_len :: "ts_store \<Rightarrow> nat" where
  "held_len s = block_len (ts_open s) + sum_list (map block_len (ts_sealed s))"

definition held_signals :: "ts_store \<Rightarrow> signal list" where
  "held_signals s = block_signals (ts_open s) @ concat (map block_signals (ts_sealed s))"

definition store_compact :: "u64 \<Rightarrow> ts_store \<Rightarrow> nat \<times> ts_store" where
  "store_compact tick s =
     (let kept = filter (\<lambda>b. tick < bl_latest_expiry b \<or> \<not> bl_sealed b) (ts_sealed s)
      in (length (ts_sealed s) - length kept, s\<lparr>ts_sealed := kept\<rparr>))"

definition expiry_of :: "ts_store \<Rightarrow> signal_id \<Rightarrow> u64 option" where
  "expiry_of s i = btree_get (ts_written s) i"

definition write_tick_of :: "ts_store \<Rightarrow> signal_id \<Rightarrow> u64 option" where
  "write_tick_of s i = btree_get (ts_write_ticks s) i"

definition write_seq_of :: "ts_store \<Rightarrow> signal_id \<Rightarrow> u64 option" where
  "write_seq_of s i = btree_get (ts_write_seqs s) i"

section \<open>The correlation index\<close>

type_synonym correlation_id = rtext
type_synonym obs_label = "rtext \<times> rtext"

record signal_ref =
  sf_kind :: signal_kind
  sf_correlation :: "correlation_id option"
  sf_labels :: "obs_label btree_set"

record correlation_index =
  ci_by_correlation :: "(correlation_id, signal_id btree_set) btree_map"
  ci_by_label :: "(obs_label, signal_id btree_set) btree_map"
  ci_kinds :: "(signal_id, signal_kind) btree_map"
  ci_correlation_of :: "(signal_id, correlation_id) btree_map"

definition index_new :: correlation_index where
  "index_new = \<lparr>ci_by_correlation = btree_new, ci_by_label = btree_new, ci_kinds = btree_new, ci_correlation_of = btree_new\<rparr>"

definition index_add :: "'k::linorder \<Rightarrow> signal_id \<Rightarrow> ('k, signal_id btree_set) btree_map \<Rightarrow> ('k, signal_id btree_set) btree_map" where
  "index_add k i m =
     btree_insert k (bset_insert i (case btree_get m k of Some t \<Rightarrow> t | None \<Rightarrow> btree_new)) m"

definition index_register :: "signal_id \<Rightarrow> signal_ref \<Rightarrow> correlation_index \<Rightarrow> correlation_index" where
  "index_register i spine x =
     (let x = x\<lparr>ci_kinds := btree_insert i (sf_kind spine) (ci_kinds x)\<rparr>;
          x = (case sf_correlation spine of
              None \<Rightarrow> x
            | Some c \<Rightarrow> x\<lparr>ci_by_correlation := index_add c i (ci_by_correlation x),
                ci_correlation_of := btree_insert i c (ci_correlation_of x)\<rparr>)
      in x\<lparr>ci_by_label := fold (\<lambda>l m. index_add l i m) (btree_keys (sf_labels spine)) (ci_by_label x)\<rparr>)"

definition index_by_correlation :: "correlation_index \<Rightarrow> correlation_id \<Rightarrow> signal_id btree_set" where
  "index_by_correlation x c = (case btree_get (ci_by_correlation x) c of Some t \<Rightarrow> t | None \<Rightarrow> btree_new)"

definition index_by_label :: "correlation_index \<Rightarrow> obs_label \<Rightarrow> signal_id btree_set" where
  "index_by_label x l = (case btree_get (ci_by_label x) l of Some t \<Rightarrow> t | None \<Rightarrow> btree_new)"

definition index_correlation_of :: "correlation_index \<Rightarrow> signal_id \<Rightarrow> correlation_id option" where
  "index_correlation_of x i = btree_get (ci_correlation_of x) i"

definition kinds_for_correlation :: "correlation_index \<Rightarrow> correlation_id \<Rightarrow> signal_kind btree_set" where
  "kinds_for_correlation x c =
     bset_collect (List.map_filter (btree_get (ci_kinds x)) (btree_keys (index_by_correlation x c)))"

section \<open>The store as a state machine\<close>

datatype store_op =
    StoreWrite signal_kind bytes signal_label_set u64
  | StorePolicies retention_policy_set
  | StoreCompact u64

fun store_exec :: "sha256 \<Rightarrow> store_op \<Rightarrow> ts_store \<Rightarrow> ts_store" where
  "store_exec sha (StoreWrite k p l t) s = snd (write_labeled sha k p l t s)"
| "store_exec sha (StorePolicies ps) s = set_policies ps s"
| "store_exec sha (StoreCompact t) s = snd (store_compact t s)"

definition store_blocks :: "ts_store \<Rightarrow> ts_block list" where
  "store_blocks s = ts_open s # ts_sealed s"

definition block_inv :: "sha256 \<Rightarrow> nat \<Rightarrow> ts_block \<Rightarrow> bool" where
  "block_inv sha cap b \<longleftrightarrow> bl_capacity b = cap \<and> block_len b \<le> cap \<and> (bl_sealed b \<longleftrightarrow> block_len b = cap)
     \<and> (\<forall>i x. btree_get (bl_signals b) i = Some x \<longrightarrow>
          sg_id x = i \<and> content_address sha (sg_payload x) = i \<and> sg_expiry x \<le> bl_latest_expiry b)"

definition store_inv :: "sha256 \<Rightarrow> ts_store \<Rightarrow> bool" where
  "store_inv sha s \<longleftrightarrow> ts_block_capacity s > 0
     \<and> list_all (block_inv sha (ts_block_capacity s)) (store_blocks s) \<and> list_all bl_sealed (ts_sealed s)
     \<and> (\<forall>i. store_contains s i \<longrightarrow> was_written s i)
     \<and> (\<forall>i. was_written s i \<longleftrightarrow> btree_contains_key (ts_write_ticks s) i)
     \<and> (\<forall>i. was_written s i \<longleftrightarrow> btree_contains_key (ts_write_seqs s) i)"

lemma btree_len_new [simp]: "btree_len btree_new = 0"
  by (simp add: btree_len_card dom_def)

lemma btree_len_or_insert: "btree_len (btree_or_insert k v m) \<le> Suc (btree_len m)"
proof -
  have "dom (btree_get (btree_or_insert k v m)) \<subseteq> insert k (dom (btree_get m))"
    by (auto simp: btree_get_or_insert split: if_splits)
  then have "btree_len (btree_or_insert k v m) \<le> card (insert k (dom (btree_get m)))"
    unfolding btree_len_card by (intro card_mono) simp_all
  then show ?thesis by (simp add: btree_len_card card_insert_if split: if_splits)
qed

lemma block_new_inv: "cap > 0 \<Longrightarrow> block_new cap = Some b \<Longrightarrow> block_inv sha cap b \<and> \<not> bl_sealed b \<and> block_len b = 0"
  by (auto simp: block_new_def block_inv_def block_len_def)

lemma block_admit_sealed: "bl_sealed b \<Longrightarrow> block_admit x b = (False, b)"
  by (simp add: block_admit_def)

lemma block_admit_open:
  assumes "block_inv sha cap b" "\<not> bl_sealed b" "sg_id x = content_address sha (sg_payload x)"
  shows "fst (block_admit x b)" "block_inv sha cap (snd (block_admit x b))"
    and "block_contains (snd (block_admit x b)) i \<longleftrightarrow> i = sg_id x \<or> block_contains b i"
    and "bl_latest_expiry (snd (block_admit x b)) = max (bl_latest_expiry b) (sg_expiry x)"
proof -
  have len: "block_len b < cap" using assms(1,2) by (auto simp: block_inv_def)
  let ?c = "b\<lparr>bl_latest_expiry := max (bl_latest_expiry b) (sg_expiry x), bl_signals := btree_or_insert (sg_id x) x (bl_signals b)\<rparr>"
  have cap: "bl_capacity b = cap" using assms(1) by (simp add: block_inv_def)
  have admit: "block_admit x b = (True, if block_len ?c \<ge> cap then ?c\<lparr>bl_sealed := True\<rparr> else ?c)"
    using assms(2) len cap by (simp add: block_admit_def block_contains_def Let_def)
  show "fst (block_admit x b)" by (simp add: admit)
  have "block_len ?c \<le> cap"
    using len btree_len_or_insert [of "sg_id x" x "bl_signals b"] by (simp add: block_len_def)
  then show "block_inv sha cap (snd (block_admit x b))"
    using assms len unfolding admit
    by (auto simp: block_inv_def block_len_def btree_get_or_insert le_max_iff_disj split: if_splits)
  show "block_contains (snd (block_admit x b)) i \<longleftrightarrow> i = sg_id x \<or> block_contains b i"
    "bl_latest_expiry (snd (block_admit x b)) = max (bl_latest_expiry b) (sg_expiry x)"
    unfolding admit by (auto simp: block_contains_def btree_contains_key_def btree_get_or_insert)
qed

text \<open>A signal is kept until a deadline: a block that holds it may not be dropped earlier.\<close>

definition kept_until :: "ts_store \<Rightarrow> signal_id \<Rightarrow> u64 \<Rightarrow> bool" where
  "kept_until s i e \<longleftrightarrow> list_ex (\<lambda>b. block_contains b i \<and> (e \<le> bl_latest_expiry b)) (store_blocks s)"

lemma kept_until_contains: "kept_until s i e \<Longrightarrow> store_contains s i"
  by (auto simp: kept_until_def store_contains_def store_blocks_def list_ex_iff)

lemma store_contains_blocks: "store_contains s i \<longleftrightarrow> (\<exists>b\<in>set (store_blocks s). block_contains b i)"
  by (auto simp: store_contains_def store_blocks_def list_ex_iff)

text \<open>What admission does to the blocks, in a store whose blocks are well formed.\<close>

lemma store_admit_blocks:
  fixes t :: u64
  assumes "store_inv sha s" "sg_id x = content_address sha (sg_payload x)"
  defines "s' \<equiv> store_admit x t s"
  shows "ts_block_capacity s' = ts_block_capacity s"
    and "list_all (block_inv sha (ts_block_capacity s)) (store_blocks s')" "list_all bl_sealed (ts_sealed s')"
    and "store_contains s' i \<longleftrightarrow> i = sg_id x \<or> store_contains s i"
    and "kept_until s' (sg_id x) (sg_expiry x)" "kept_until s i e \<Longrightarrow> kept_until s' i e"
    and "ts_written s' = btree_or_insert (sg_id x) (sg_expiry x) (ts_written s)"
    and "ts_write_ticks s' = btree_or_insert (sg_id x) t (ts_write_ticks s)"
    and "ts_write_seqs s' = btree_or_insert (sg_id x) (ts_next_seq s) (ts_write_seqs s)"
proof -
  have I: "ts_block_capacity s > 0" "list_all (block_inv sha (ts_block_capacity s)) (store_blocks s)"
      "list_all bl_sealed (ts_sealed s)"
    using assms(1) by (simp_all add: store_inv_def)
  let ?s = "if btree_contains_key (ts_write_seqs s) (sg_id x) then s
      else s\<lparr>ts_write_seqs := btree_insert (sg_id x) (ts_next_seq s) (ts_write_seqs s), ts_next_seq := ts_next_seq s + 1\<rparr>"
  have opn: "block_inv sha (ts_block_capacity s) (ts_open s)" using I(2) by (simp add: store_blocks_def)
  obtain fresh where fresh: "block_new (ts_block_capacity s) = Some fresh" using I(1) by (simp add: block_new_def)
  note F = block_new_inv [OF I(1) fresh, of sha]
  note A = block_admit_open [OF _ _ assms(2)]
  have shape: "s' = ?s\<lparr>ts_written := btree_or_insert (sg_id x) (sg_expiry x) (ts_written s),
      ts_write_ticks := btree_or_insert (sg_id x) t (ts_write_ticks s),
      ts_sealed := (if bl_sealed (ts_open s) then ts_sealed s @ [ts_open s] else ts_sealed s),
      ts_open := snd (block_admit x (if bl_sealed (ts_open s) then fresh else ts_open s))\<rparr>"
    using A(1) [OF opn] opn I(1) fresh
    by (auto simp: s'_def store_admit_def Let_def block_admit_sealed block_inv_def split: prod.split)
  show "ts_block_capacity s' = ts_block_capacity s"
    "ts_written s' = btree_or_insert (sg_id x) (sg_expiry x) (ts_written s)"
    "ts_write_ticks s' = btree_or_insert (sg_id x) t (ts_write_ticks s)"
    "ts_write_seqs s' = btree_or_insert (sg_id x) (ts_next_seq s) (ts_write_seqs s)"
    by (simp_all add: shape btree_or_insert_def)
  show "list_all bl_sealed (ts_sealed s')" using I(3) by (simp add: shape)
  have blocks: "store_blocks s' = (if bl_sealed (ts_open s)
      then snd (block_admit x fresh) # ts_sealed s @ [ts_open s] else snd (block_admit x (ts_open s)) # ts_sealed s)"
    by (simp add: shape store_blocks_def)
  have none: "\<not> block_contains fresh j" for j
    using fresh by (auto simp: block_new_def block_contains_def split: if_splits)
  show "list_all (block_inv sha (ts_block_capacity s)) (store_blocks s')"
    unfolding blocks using I(2) F A(2) [OF opn] A(2) [of "ts_block_capacity s" fresh]
    by (cases "bl_sealed (ts_open s)") (auto simp: store_blocks_def)
  show "store_contains s' i \<longleftrightarrow> i = sg_id x \<or> store_contains s i"
    unfolding store_contains_blocks blocks
    using F A(3) [OF opn, of i] A(3) [of "ts_block_capacity s" fresh i] none
    by (cases "bl_sealed (ts_open s)") (auto simp: store_blocks_def)
  show "kept_until s' (sg_id x) (sg_expiry x)" "kept_until s i e \<Longrightarrow> kept_until s' i e"
    unfolding kept_until_def blocks
    using F A(3,4) [OF opn] A(3,4) [of "ts_block_capacity s" fresh]
    by (cases "bl_sealed (ts_open s)"; auto simp: store_blocks_def list_ex_iff le_max_iff_disj)+
qed

lemma store_admit_written:
  "ts_written (store_admit x t s) = btree_or_insert (sg_id x) (sg_expiry x) (ts_written s)"
  by (simp add: store_admit_def Let_def split: prod.split bool.split)

lemma store_inv_admit:
  assumes "store_inv sha s" "sg_id x = content_address sha (sg_payload x)"
  shows "store_inv sha (store_admit x t s)"
proof -
  note A = store_admit_blocks [OF assms, where t = t]
  have dom: "btree_contains_key (btree_or_insert k v m) i \<longleftrightarrow> i = k \<or> btree_contains_key m i" for k v i and m :: "(signal_id, u64) btree_map"
    by (auto simp: btree_contains_key_def btree_get_or_insert)
  have "was_written s i \<longleftrightarrow> btree_contains_key (ts_write_ticks s) i" "was_written s i \<longleftrightarrow> btree_contains_key (ts_write_seqs s) i"
    "store_contains s i \<longrightarrow> was_written s i" "ts_block_capacity s > 0" for i
    using assms(1) unfolding store_inv_def by blast+
  then show ?thesis
    using A(2,3) A(4)
    by (auto simp: store_inv_def A(1,7,8,9) was_written_def dom)
qed

lemma store_inv_cong:
  assumes "store_inv sha s" "ts_block_capacity t = ts_block_capacity s" "ts_open t = ts_open s"
    and "set (ts_sealed t) \<subseteq> set (ts_sealed s)" "ts_written t = ts_written s"
    and "ts_write_ticks t = ts_write_ticks s" "ts_write_seqs t = ts_write_seqs s"
  shows "store_inv sha t"
proof -
  have "store_contains s i" if "store_contains t i" for i
    using that assms(3,4) by (auto simp: store_contains_def list_ex_iff)
  moreover have "set (store_blocks t) \<subseteq> set (store_blocks s)" using assms(3,4) by (auto simp: store_blocks_def)
  ultimately show ?thesis
    using assms(1,4) by (auto simp: store_inv_def was_written_def assms(2,5-7) list_all_iff)
qed

lemma signal_new_id: "sg_id (signal_new_labeled sha k p l t w) = content_address sha (sg_payload (signal_new_labeled sha k p l t w))"
  by (simp add: signal_new_labeled_def)

text \<open>The window of a signal is the shortest of the policies that match it.\<close>

lemma effective_window:
  "er_window (policies_effective ps kind labels) = None \<longleftrightarrow>
     list_all (\<lambda>p. policy_matches p kind labels \<longrightarrow> rp_window p = None) ps"
  "er_window (policies_effective ps kind labels) = Some w \<Longrightarrow>
     (\<exists>p\<in>set ps. policy_matches p kind labels \<and> rp_window p = Some w)
     \<and> (\<forall>p\<in>set ps. \<forall>v. policy_matches p kind labels \<longrightarrow> rp_window p = Some v \<longrightarrow> w \<le> v)"
proof -
  let ?e = "\<lambda>ps. er_window (policies_effective ps kind labels)"
  have step: "?e (ps @ [p]) = (if policy_matches p kind labels
      then (case rp_window p of None \<Rightarrow> ?e ps | Some v \<Rightarrow> Some (case ?e ps of Some u \<Rightarrow> min u v | None \<Rightarrow> v)) else ?e ps)" for ps p
    by (simp add: policies_effective_def effective_step_def Let_def split: option.split)
  have nil: "?e [] = None" by (simp add: policies_effective_def)
  show "?e ps = None \<longleftrightarrow> list_all (\<lambda>p. policy_matches p kind labels \<longrightarrow> rp_window p = None) ps"
    by (induction ps rule: rev_induct) (auto simp: step nil split: option.splits)
  then have none: "rp_window p = None" if "?e ps = None" "p \<in> set ps" "policy_matches p kind labels" for p ps
    using that by (induction ps rule: rev_induct) (auto simp: step nil split: option.splits if_splits)
  show "?e ps = Some w \<Longrightarrow> (\<exists>p\<in>set ps. policy_matches p kind labels \<and> rp_window p = Some w)
     \<and> (\<forall>p\<in>set ps. \<forall>v. policy_matches p kind labels \<longrightarrow> rp_window p = Some v \<longrightarrow> w \<le> v)"
  proof (induction ps arbitrary: w rule: rev_induct)
    case (snoc p ps)
    show ?case
    proof (cases "policy_matches p kind labels \<and> rp_window p \<noteq> None")
      case True
      then obtain v where v: "rp_window p = Some v" "policy_matches p kind labels" by blast
      show ?thesis
      proof (cases "?e ps")
        case None
        then show ?thesis using snoc.prems v none [OF None] by (auto simp: step)
      next
        case (Some u)
        from snoc.IH [OF this] show ?thesis using snoc.prems v Some by (auto simp: step min_def split: if_splits)
      qed
    next
      case False
      then show ?thesis using snoc by (auto simp: step split: option.splits if_splits)
    qed
  qed (simp add: nil)
qed

text \<open>
  The deadline of a write, stated without the code's own fold: the policies that select a signal
  are those of its kind whose every label it carries, and the window is the least they set, or
  that of the store when none sets one. The sum stops at the largest \<open>u64\<close>.
\<close>

definition policy_selects :: "retention_policy \<Rightarrow> signal_kind \<Rightarrow> signal_label_set \<Rightarrow> bool" where
  "policy_selects p kind labels \<longleftrightarrow>
     rp_kind p = kind \<and> (\<forall>k v. btree_get (rp_selector p) k = Some v \<longrightarrow> btree_get labels k = Some v)"

definition selected_windows :: "retention_policy_set \<Rightarrow> signal_kind \<Rightarrow> signal_label_set \<Rightarrow> u64 set" where
  "selected_windows ps kind labels = {w. \<exists>p\<in>set ps. policy_selects p kind labels \<and> rp_window p = Some w}"

definition write_deadline :: "ts_store \<Rightarrow> signal_kind \<Rightarrow> signal_label_set \<Rightarrow> u64 \<Rightarrow> u64" where
  "write_deadline s kind labels tick =
     (let ws = selected_windows (ts_policies s) kind labels;
          window = (if ws = {} then ts_retention_window s else Min ws)
      in of_nat (min (2 ^ 64 - 1) (unat tick + unat window)))"

lemma policy_matches_selects: "policy_matches p kind labels = policy_selects p kind labels"
  by (auto simp: policy_matches_def policy_selects_def selector_matches_def list_all_iff btree_iter_iff)

lemma finite_selected_windows: "finite (selected_windows ps kind labels)"
  by (rule finite_subset [of _ "(\<lambda>p. the (rp_window p)) ` set ps"])
    (force simp: selected_windows_def image_iff)+

lemma effective_window_Min:
  "er_window (policies_effective ps kind labels) =
     (let ws = selected_windows ps kind labels in if ws = {} then None else Some (Min ws))"
proof (cases "er_window (policies_effective ps kind labels)")
  case None
  then show ?thesis
    using effective_window(1) [of ps kind labels]
    by (auto simp: selected_windows_def policy_matches_selects list_all_iff Let_def)
next
  case (Some w)
  have "w \<in> selected_windows ps kind labels" "\<And>v. v \<in> selected_windows ps kind labels \<Longrightarrow> w \<le> v"
    using effective_window(2) [OF Some] by (auto simp: selected_windows_def policy_matches_selects)
  then have "Min (selected_windows ps kind labels) = w"
    by (intro Min_eqI finite_selected_windows)
  then show ?thesis using Some \<open>w \<in> _\<close> by (auto simp: Let_def)
qed

lemma saturating_add_min: "saturating_add a b = of_nat (min (2 ^ 64 - 1) (unat a + unat b))"
proof (cases "unat a + unat b < 2 ^ 64")
  case True
  then have "\<not> a + b < a" by (simp add: word_less_nat_alt unat_word_ariths)
  moreover have "min (2 ^ 64 - 1) (unat a + unat b) = unat a + unat b" using True by simp
  ultimately show ?thesis by (simp add: saturating_add_def)
next
  case False
  have lt: "unat a < 2 ^ 64" "unat b < 2 ^ 64" using u64_lt by simp_all
  have "(unat a + unat b) mod 2 ^ 64 = (unat a + unat b - 2 ^ 64) mod 2 ^ 64"
    using False by (intro le_mod_geq) simp
  also have "\<dots> = unat a + unat b - 2 ^ 64" using lt by (intro mod_less) linarith
  finally have "(unat a + unat b) mod 2 ^ 64 = unat a + unat b - 2 ^ 64" .
  moreover have "unat a + unat b - 2 ^ 64 < unat a" using lt False by linarith
  ultimately have "a + b < a" by (simp add: word_less_nat_alt unat_word_ariths)
  moreover have "min (2 ^ 64 - 1) (unat a + unat b) = 2 ^ 64 - 1" using False by simp
  moreover have "(of_nat (2 ^ 64 - 1) :: u64) = - 1" by simp
  ultimately show ?thesis unfolding saturating_add_def by metis
qed

lemma write_deadline_effective:
  "write_deadline s kind labels tick =
     saturating_add tick (case er_window (policies_effective (ts_policies s) kind labels) of
       Some w \<Rightarrow> w | None \<Rightarrow> ts_retention_window s)"
  unfolding write_deadline_def saturating_add_min effective_window_Min by (simp add: Let_def)

text \<open>The signal a write makes, and the store it is admitted to.\<close>

lemma write_labeled_cases:
  obtains (dropped) "write_labeled sha k p l t s = (None, s)"
  | (admitted) x s0 where "write_labeled sha k p l t s = (Some (sg_id x), store_admit x t s0)"
      "sg_id x = content_address sha (sg_payload x)" "sg_id x = content_address sha p" "sg_expiry x = write_deadline s k l t"
      "s0 = s \<or> (\<exists>m. s0 = s\<lparr>ts_downsample_last := m\<rparr>)"
proof -
  let ?x = "signal_new_labeled sha k p l t (case er_window (policies_effective (ts_policies s) k l) of
       Some w \<Rightarrow> w | None \<Rightarrow> ts_retention_window s)"
  have x: "sg_id ?x = content_address sha (sg_payload ?x)" "sg_id ?x = content_address sha p"
      "sg_expiry ?x = write_deadline s k l t"
    by (simp_all add: signal_new_labeled_def write_deadline_effective)
  show ?thesis
  proof (cases "downsample_bucket (policies_effective (ts_policies s) k l) k t")
    case None
    then show ?thesis using admitted [OF _ x] by (simp add: write_labeled_def Let_def)
  next
    case (Some key)
    show ?thesis
    proof (cases "btree_contains_key (ts_downsample_last s) key")
      case True
      then show ?thesis using Some by (intro dropped) (simp add: write_labeled_def Let_def)
    next
      case False
      then have "write_labeled sha k p l t s =
          (Some (sg_id ?x), store_admit ?x t (s\<lparr>ts_downsample_last := btree_insert key t (ts_downsample_last s)\<rparr>))"
        using Some by (simp add: write_labeled_def Let_def)
      then show ?thesis by (rule admitted [OF _ x]) blast
    qed
  qed
qed

lemma store_inv_downsample: "store_inv sha s \<Longrightarrow> s0 = s \<or> (\<exists>m. s0 = s\<lparr>ts_downsample_last := m\<rparr>) \<Longrightarrow> store_inv sha s0"
  by (auto intro: store_inv_cong)

lemma kept_until_downsample:
  "s0 = s \<or> (\<exists>m. s0 = s\<lparr>ts_downsample_last := m\<rparr>) \<Longrightarrow> kept_until s0 i e = kept_until s i e"
  by (auto simp: kept_until_def store_blocks_def)

lemma store_exec_inv:
  assumes "store_inv sha s"
  shows "store_inv sha (store_exec sha c s)"
proof (cases c)
  case (StoreWrite k p l t)
  show ?thesis
    unfolding StoreWrite store_exec.simps
    by (rule write_labeled_cases [of sha k p l t s])
      (use assms store_inv_admit store_inv_downsample in auto)
qed (use assms in \<open>auto simp: set_policies_def store_compact_def Let_def intro: store_inv_cong\<close>)

lemma store_exec_kept:
  assumes "store_inv sha s" "kept_until s i e" "\<And>t. c = StoreCompact t \<Longrightarrow> t < e"
  shows "kept_until (store_exec sha c s) i e"
proof (cases c)
  case (StoreWrite k p l t)
  show ?thesis
    unfolding StoreWrite store_exec.simps
  proof (rule write_labeled_cases [of sha k p l t s])
    assume "write_labeled sha k p l t s = (None, s)"
    then show "kept_until (snd (write_labeled sha k p l t s)) i e" using assms(2) by simp
  next
    fix x s0
    assume w: "write_labeled sha k p l t s = (Some (sg_id x), store_admit x t s0)"
      "sg_id x = content_address sha (sg_payload x)" "s0 = s \<or> (\<exists>m. s0 = s\<lparr>ts_downsample_last := m\<rparr>)"
    then show "kept_until (snd (write_labeled sha k p l t s)) i e"
      using store_admit_blocks(6) [OF store_inv_downsample [OF assms(1) w(3)] w(2)] assms(2)
      by (simp add: kept_until_downsample [OF w(3)])
  qed
next
  case (StorePolicies ps)
  then show ?thesis using assms(2) by (simp add: kept_until_def store_blocks_def set_policies_def)
next
  case (StoreCompact t)
  then show ?thesis
    using assms(2) assms(3) [of t] by (auto simp: kept_until_def store_blocks_def store_compact_def list_ex_iff Let_def)
qed

lemma store_new_inv: "store_new cap window = Some s \<Longrightarrow> store_inv sha s"
  using block_new_inv [of cap _ sha]
  by (auto simp: store_new_def block_new_def store_inv_def store_blocks_def store_contains_def was_written_def
      write_tick_of_def write_seq_of_def block_contains_def split: if_splits)

lemma store_run_inv: "store_inv sha s \<Longrightarrow> store_inv sha (fold (store_exec sha) cs s)"
  by (induction cs arbitrary: s) (simp_all add: store_exec_inv)

fun compacts_before :: "u64 \<Rightarrow> store_op \<Rightarrow> bool" where
  "compacts_before e (StoreCompact t) \<longleftrightarrow> t < e"
| "compacts_before e _ \<longleftrightarrow> True"

lemma store_run_kept:
  assumes "store_inv sha s" "kept_until s i e" "list_all (compacts_before e) cs"
  shows "kept_until (fold (store_exec sha) cs s) i e"
  using assms
proof (induction cs arbitrary: s)
  case (Cons c cs)
  have "kept_until (store_exec sha c s) i e" using Cons.prems by (intro store_exec_kept) auto
  then show ?case using Cons by (simp add: store_exec_inv)
qed simp

section \<open>Properties\<close>

text \<open>The deadline of the first write of a signal is recorded, and stays on record.\<close>

lemma store_exec_expiry:
  assumes "expiry_of s i = Some e"
  shows "expiry_of (store_exec sha c s) i = Some e"
proof (cases c)
  case (StoreWrite k p l t)
  show ?thesis
    unfolding StoreWrite store_exec.simps
    by (rule write_labeled_cases [of sha k p l t s])
      (use assms in \<open>auto simp: expiry_of_def store_admit_written btree_get_or_insert\<close>)
qed (use assms in \<open>auto simp: expiry_of_def set_policies_def store_compact_def Let_def\<close>)

lemma store_run_expiry:
  "expiry_of s i = Some e \<Longrightarrow> expiry_of (fold (store_exec sha) cs s) i = Some e"
  by (induction cs arbitrary: s) (simp_all add: store_exec_expiry)

lemma write_records_expiry:
  assumes "write_labeled sha k p l t s = (Some i, s1)" "\<not> was_written s i"
  shows "expiry_of s1 i = Some (write_deadline s k l t)"
proof (rule write_labeled_cases [of sha k p l t s])
  fix x s0
  assume w: "write_labeled sha k p l t s = (Some (sg_id x), store_admit x t s0)"
    "sg_expiry x = write_deadline s k l t" "s0 = s \<or> (\<exists>m. s0 = s\<lparr>ts_downsample_last := m\<rparr>)"
  then have "i = sg_id x" "s1 = store_admit x t s0" "ts_written s0 = ts_written s" using assms(1) by auto
  then show ?thesis
    using assms(2) w(2)
    by (simp add: expiry_of_def was_written_def store_admit_written btree_get_or_insert btree_contains_key_def)
qed (use assms(1) in simp)

text \<open>
  \<^bold>\<open>C40.\<close> Retention is lossless and never early. In every state a store reaches by writes,
  changes of policy and compactions, a signal that is written and not dropped by downsampling is
  held after any further operations in which no compaction is at or past its deadline. The
  deadline is the tick plus the least window that a policy selecting the signal sets, or the
  window of the store if none sets one, and it is the deadline on record for a signal that was
  not written before. What is held was written and carries the address of its payload; blocks
  stay within the capacity, and sealed ones are full; and a compaction keeps exactly the sealed
  blocks whose deadline is still to come.
\<close>

theorem retention_lossless:
  assumes "store_new cap window = Some s0" "s = fold (store_exec sha) cs s0"
    and "write_labeled sha kind payload labels tick s = (Some i, s1)" "e = write_deadline s kind labels tick"
    and "s2 = fold (store_exec sha) ds s1"
  shows "i = content_address sha payload \<and> (list_all (compacts_before e) ds \<longrightarrow> store_contains s2 i)
    \<and> (\<not> was_written s i \<longrightarrow> expiry_of s2 i = Some e)
    \<and> (\<forall>x\<in>set (held_signals s2). was_written s2 (sg_id x) \<and> sg_id x = content_address sha (sg_payload x))
    \<and> list_all (\<lambda>b. block_len b \<le> ts_block_capacity s2) (store_blocks s2)
    \<and> list_all (\<lambda>b. block_len b = ts_block_capacity s2) (ts_sealed s2)
    \<and> ts_sealed (snd (store_compact t s2)) = filter (\<lambda>b. t < bl_latest_expiry b) (ts_sealed s2)"
proof -
  have inv: "store_inv sha s" unfolding assms(2) by (rule store_run_inv [OF store_new_inv [OF assms(1)]])
  have one: "i = content_address sha payload \<and> kept_until s1 i e"
  proof (rule write_labeled_cases [of sha kind payload labels tick s])
    fix x t0
    assume w: "write_labeled sha kind payload labels tick s = (Some (sg_id x), store_admit x tick t0)"
      "sg_id x = content_address sha (sg_payload x)" "sg_id x = content_address sha payload"
      "sg_expiry x = write_deadline s kind labels tick" "t0 = s \<or> (\<exists>m. t0 = s\<lparr>ts_downsample_last := m\<rparr>)"
    show ?thesis
      using store_admit_blocks(5) [OF store_inv_downsample [OF inv w(5)] w(2), where t = tick] w assms(3,4) by simp
  qed (use assms(3) in simp)
  have s1: "s1 = store_exec sha (StoreWrite kind payload labels tick) s" using assms(3) by simp
  then have inv2: "store_inv sha s2" unfolding assms(5) by (simp only: store_run_inv store_exec_inv inv)
  have "store_contains s2 i" if "list_all (compacts_before e) ds"
    using store_run_kept [of sha s1 i e ds] store_exec_inv [OF inv, of "StoreWrite kind payload labels tick"] one that s1
      kept_until_contains unfolding assms(5) by auto
  moreover have "expiry_of s2 i = Some e" if "\<not> was_written s i"
    using write_records_expiry [OF assms(3) that] store_run_expiry unfolding assms(4,5) by blast
  moreover have "was_written s2 (sg_id x) \<and> sg_id x = content_address sha (sg_payload x)" if held: "x \<in> set (held_signals s2)" for x
  proof -
    obtain b j where b: "b \<in> set (store_blocks s2)" "btree_get (bl_signals b) j = Some x"
      using held by (auto simp: held_signals_def store_blocks_def block_signals_def btree_values_iff)
    then have "sg_id x = j" "content_address sha (sg_payload x) = j"
      using inv2 by (auto simp: store_inv_def block_inv_def list_all_iff)
    moreover have "was_written s2 j"
      using inv2 b by (auto simp: store_inv_def store_contains_blocks block_contains_def btree_contains_key_def)
    ultimately show ?thesis by simp
  qed
  moreover have "ts_sealed (snd (store_compact t s2)) = filter (\<lambda>b. t < bl_latest_expiry b) (ts_sealed s2)"
    using inv2 by (auto simp: store_compact_def Let_def list_all_iff store_inv_def intro!: filter_cong)
  moreover have "list_all (\<lambda>b. block_len b \<le> ts_block_capacity s2) (store_blocks s2)"
    "list_all (\<lambda>b. block_len b = ts_block_capacity s2) (ts_sealed s2)"
    using inv2 by (auto simp: store_inv_def block_inv_def list_all_iff store_blocks_def)
  ultimately show ?thesis using one by blast
qed

text \<open>At most one signal is admitted per bucket of a downsampling policy, for as long as the store lives.\<close>

lemma downsample_once:
  assumes "downsample_bucket (policies_effective (ts_policies s) k l) k t = Some key"
    and "btree_contains_key (ts_downsample_last s) key"
  shows "write_labeled sha k p l t s = (None, s)"
  using assms by (simp add: write_labeled_def Let_def)

lemma downsample_recorded:
  assumes "downsample_bucket (policies_effective (ts_policies s) k l) k t = Some key"
  shows "btree_contains_key (ts_downsample_last (snd (write_labeled sha k p l t s))) key"
  using assms
  by (auto simp: write_labeled_def store_admit_def Let_def split: prod.split option.split bool.split)

definition demo_store0 :: ts_store where
  "demo_store0 = the (store_new 2 10)"

text \<open>Three policies: the second sets the least window for logs, the third is for metrics.\<close>

definition demo_policies :: retention_policy_set where
  "demo_policies =
     [\<lparr>rp_kind = Log, rp_selector = selector_everything, rp_window = Some 30, rp_downsample = None\<rparr>,
      \<lparr>rp_kind = Log, rp_selector = selector_everything, rp_window = Some 5, rp_downsample = None\<rparr>,
      \<lparr>rp_kind = Metric, rp_selector = selector_everything, rp_window = Some 1, rp_downsample = None\<rparr>]"

lemma demo_windows: "selected_windows demo_policies Log btree_new = {30, 5}"
  by (auto simp: selected_windows_def demo_policies_def policy_selects_def selector_everything_def)

theorem retention_lossless_witness:
  "let s1 = snd (write_labeled demo_sha Log [1] btree_new 2 (set_policies demo_policies demo_store0));
       s2 = fold (store_exec demo_sha) [StoreWrite Log [2] btree_new 3, StoreWrite Log [3] btree_new 4, StoreCompact 6] s1;
       i = content_address demo_sha [1]
   in store_contains s2 i \<and> expiry_of s2 i = Some 7"
proof -
  let ?s = "set_policies demo_policies demo_store0"
  let ?ds = "[StoreWrite Log [2] btree_new 3, StoreWrite Log [3] btree_new 4, StoreCompact 6]"
  have new: "store_new 2 10 = Some demo_store0" by (simp add: demo_store0_def store_new_def block_new_def)
  have s: "?s = fold (store_exec demo_sha) [StorePolicies demo_policies] demo_store0" by simp
  have e: "7 = write_deadline ?s Log btree_new 2"
    by (simp add: write_deadline_def set_policies_def demo_windows)
  have w: "fst (write_labeled demo_sha Log [1] btree_new 2 ?s) = Some (content_address demo_sha [1])"
    "\<not> was_written ?s (content_address demo_sha [1])"
    by code_simp+
  obtain s1 where s1: "write_labeled demo_sha Log [1] btree_new 2 ?s = (Some (content_address demo_sha [1]), s1)"
    using w(1) by (cases "write_labeled demo_sha Log [1] btree_new 2 ?s") simp
  from retention_lossless [OF new s s1 e refl, of ?ds 0] w(2) show ?thesis by (simp add: s1 Let_def)
qed

section \<open>Where the code and its documentation part\<close>

text \<open>An unlabeled write panics when a policy with the empty selector downsamples its kind.\<close>

lemma unlabeled_write_panics:
  "let p = \<lparr>rp_kind = Log, rp_selector = selector_everything, rp_window = None, rp_downsample = Some 10\<rparr>;
       s = snd (the (store_write demo_sha Log [1] 3 (set_policies [p] demo_store0)))
   in store_write demo_sha Log [2] 4 s = None"
  by code_simp

text \<open>
  A signal written again after its block was dropped is held with the tick of its first write, so
  that a query over the recent past misses it.
\<close>

lemma rewritten_signal_keeps_first_tick:
  "let s = fold (store_exec demo_sha) [StoreWrite Log [1] btree_new 2, StoreWrite Log [2] btree_new 3,
         StoreWrite Log [3] btree_new 4, StoreCompact 20, StoreWrite Log [1] btree_new 90] demo_store0;
       i = content_address demo_sha [1]
   in store_contains s i \<and> write_tick_of s i = Some 2"
  by code_simp

end
