(* ===== verification/Crypto_Sign.thy ===== *)
theory Crypto_Sign
  imports StreamDb
begin

text \<open>
  \<^verbatim>\<open>crates/pillar-crypto/src/sign.rs\<close>: signing and verification over Ed25519.

  The record \<open>crypto\<close> collects the external primitives: SHA-256 (crate \<open>sha2\<close>)
  and, of crate \<open>ed25519_dalek\<close>, the public key of a secret, signing, the check that 32
  bytes encode a public key, and signature verification. \<open>ed25519_ok\<close> states what the
  two crates document: the widths of keys, signatures and digests, and that a signature made with
  a secret verifies under its public key.
\<close>

record crypto =
  c_sha :: sha256
  c_ed_public :: "bytes \<Rightarrow> bytes"
  c_ed_sign :: "bytes \<Rightarrow> bytes \<Rightarrow> bytes"
  c_ed_point :: "bytes \<Rightarrow> bool"
  c_ed_verify :: "bytes \<Rightarrow> bytes \<Rightarrow> bytes \<Rightarrow> bool"

definition ed25519_ok :: "crypto \<Rightarrow> bool" where
  "ed25519_ok c \<longleftrightarrow>
     (\<forall>m. length (c_sha c m) = 32)
     \<and> (\<forall>sk. length sk = 32 \<longrightarrow> length (c_ed_public c sk) = 32 \<and> c_ed_point c (c_ed_public c sk)
         \<and> (\<forall>m. length (c_ed_sign c sk m) = 64 \<and> c_ed_verify c (c_ed_public c sk) m (c_ed_sign c sk m)))"

datatype custody_kind = Unencrypted | Password | Tpm | Passkey | Pkcs11

datatype crypto_error =
    NotImplemented string
  | InvalidKey
  | InvalidLength
  | VerificationFailed
  | DecryptionFailed
  | NotARecipient
  | UnsupportedCustody custody_kind
  | Backend string
  | UnsupportedAlgorithm u8
  | UnsupportedEnvelopeVersion version_error

definition ed25519_secret_bytes :: "crypto \<Rightarrow> bytes \<Rightarrow> bytes" where
  "ed25519_secret_bytes c seed = c_sha c (as_bytes ''pillar-crypto/sign/ed25519/seed-v1'' @ seed)"

text \<open>The result type of \<open>signing_keypair_from_seed\<close> has an error, but no path returns it.\<close>

definition signing_keypair_from_seed :: "crypto \<Rightarrow> bytes \<Rightarrow> crypto_error + (bytes \<times> bytes)" where
  "signing_keypair_from_seed c seed =
     (let sk = ed25519_secret_bytes c seed in Inr (c_ed_public c sk, sk))"

definition crypto_sign :: "crypto \<Rightarrow> bytes \<Rightarrow> bytes \<Rightarrow> crypto_error + bytes" where
  "crypto_sign c secret message =
     (if length secret \<noteq> 32 then Inl InvalidKey else Inr (c_ed_sign c secret message))"

definition crypto_verify :: "crypto \<Rightarrow> bytes \<Rightarrow> bytes \<Rightarrow> bytes \<Rightarrow> crypto_error + unit" where
  "crypto_verify c public message sig =
     (if length public \<noteq> 32 then Inl VerificationFailed
      else if \<not> c_ed_point c public then Inl VerificationFailed
      else if length sig \<noteq> 64 then Inl VerificationFailed
      else if c_ed_verify c public message sig then Inr ()
      else Inl VerificationFailed)"

lemma sign_verifies:
  assumes "ed25519_ok c" "signing_keypair_from_seed c seed = Inr (pk, sk)"
  shows "\<exists>sig. crypto_sign c sk m = Inr sig \<and> crypto_verify c pk m sig = Inr ()"
  using assms
  by (auto simp: ed25519_ok_def signing_keypair_from_seed_def ed25519_secret_bytes_def Let_def
      crypto_sign_def crypto_verify_def)

text \<open>Primitives for the witnesses; a signature shows its key and message.\<close>

definition demo_crypto :: crypto where
  "demo_crypto = \<lparr>c_sha = demo_sha, c_ed_public = (\<lambda>sk. sk),
     c_ed_sign = (\<lambda>sk m. take 64 (sk @ demo_sha m @ replicate 64 0)), c_ed_point = (\<lambda>_. True),
     c_ed_verify = (\<lambda>pk m sig. sig = take 64 (pk @ demo_sha m @ replicate 64 0))\<rparr>"

lemma length_demo_sha [simp]: "length (demo_sha bs) = 32"
  by (simp add: demo_sha_def)

lemma ed25519_ok_demo: "ed25519_ok demo_crypto"
  by (simp add: ed25519_ok_def demo_crypto_def)

end
