(* ===== verification/TrustArtifacts.thy ===== *)
theory TrustArtifacts
  imports Crypto_Sign
begin

text \<open>
  \<^verbatim>\<open>crates/pillar-trust-artifacts/src/lib.rs\<close>: the four signed artifacts, their
  content addresses, and the store that issues, revokes, verifies and meters attestations.

  The hash maps of the store are sorted maps here; where the code lists one
  (\<open>as_explicit_grants\<close>) the order of the result is that of the hash map, which Rust
  leaves open, and the facts below speak of the listed elements only. Additions on \<open>u64\<close>
  are those of a build without overflow checks.
\<close>

section \<open>Identities and signatures\<close>

type_synonym cid = string

record identity_keypair =
  ik_name :: node_id
  ik_public :: bytes
  ik_secret :: bytes

definition name_seed :: "crypto \<Rightarrow> node_id \<Rightarrow> bytes" where
  "name_seed c n = c_sha c (as_bytes ''pillar-trust-artifacts/identity-keyname-seed-v1'' @ as_bytes n)"

record sig =
  tsig_signer :: node_id
  tsig_public :: bytes
  tsig_bytes :: bytes

text \<open>\<open>None\<close> is the panic of an \<open>expect\<close>; under \<open>ed25519_ok\<close> there is none.\<close>

definition identity_for_name :: "crypto \<Rightarrow> node_id \<Rightarrow> identity_keypair option" where
  "identity_for_name c n =
     (case signing_keypair_from_seed c (name_seed c n) of
        Inl _ \<Rightarrow> None
      | Inr (public, secret) \<Rightarrow> Some \<lparr>ik_name = n, ik_public = public, ik_secret = secret\<rparr>)"

definition identity_sign :: "crypto \<Rightarrow> identity_keypair \<Rightarrow> bytes \<Rightarrow> sig option" where
  "identity_sign c k message =
     (case crypto_sign c (ik_secret k) message of
        Inl _ \<Rightarrow> None
      | Inr s \<Rightarrow> Some \<lparr>tsig_signer = ik_name k, tsig_public = ik_public k, tsig_bytes = s\<rparr>)"

definition public_key_for :: "crypto \<Rightarrow> node_id \<Rightarrow> bytes option" where
  "public_key_for c n =
     (case signing_keypair_from_seed c (name_seed c n) of
        Inl _ \<Rightarrow> None
      | Inr (public, secret) \<Rightarrow> Some public)"

definition sign_as :: "crypto \<Rightarrow> node_id \<Rightarrow> bytes \<Rightarrow> sig option" where
  "sign_as c signer message =
     (case identity_for_name c signer of
        None \<Rightarrow> None
      | Some k \<Rightarrow> identity_sign c k message)"

definition verifies_as :: "crypto \<Rightarrow> sig \<Rightarrow> node_id \<Rightarrow> bytes \<Rightarrow> bool" where
  "verifies_as c s expected message =
     (if tsig_signer s \<noteq> expected then False
      else if public_key_for c (tsig_signer s) \<noteq> Some (tsig_public s) then False
      else crypto_verify c (tsig_public s) message (tsig_bytes s) = Inr ())"

section \<open>Content addresses\<close>

text \<open>\<open>hex\<close> is the lower-case rendering also used for op ids.\<close>

definition trust_content_address :: "crypto \<Rightarrow> string list \<Rightarrow> cid" where
  "trust_content_address c parts =
     ''trust:'' @ op_id_to_hex
       (content_address (c_sha c) (as_bytes ''pillar-trust-artifact-v1'' @ frame_strings parts))"

definition artifact_schema_version :: surface_version where
  "artifact_schema_version = 1"

definition min_artifact_schema_version :: surface_version where
  "min_artifact_schema_version = 1"

definition check_artifact_schema_version :: "surface_version \<Rightarrow> version_error + unit" where
  "check_artifact_schema_version v =
     check_supported v min_artifact_schema_version artifact_schema_version"

definition version_part :: string where
  "version_part = dec_string (unat artifact_schema_version)"

datatype capacity = SelfCap | Role string string

fun capacity_tag :: "capacity \<Rightarrow> string" where
  "capacity_tag SelfCap = ''self''"
| "capacity_tag (Role role scope) = ''role:'' @ role @ ''@'' @ scope"

record ta_predicate =
  pr_action :: string
  pr_resource :: string
  pr_quota :: "u64 option"

definition predicate_new :: "string \<Rightarrow> string \<Rightarrow> ta_predicate" where
  "predicate_new action resource = \<lparr>pr_action = action, pr_resource = resource, pr_quota = None\<rparr>"

definition predicate_with_quota :: "ta_predicate \<Rightarrow> u64 \<Rightarrow> ta_predicate" where
  "predicate_with_quota p q = p\<lparr>pr_quota := Some q\<rparr>"

section \<open>The four artifacts\<close>

record certify =
  ce_identity :: node_id
  ce_subkey :: node_id
  ce_sig :: sig

definition certify_parts :: "node_id \<Rightarrow> node_id \<Rightarrow> string list" where
  "certify_parts identity subkey = [''certify'', version_part, identity, subkey]"

definition certify_cid :: "crypto \<Rightarrow> certify \<Rightarrow> cid" where
  "certify_cid c x = trust_content_address c (certify_parts (ce_identity x) (ce_subkey x))"

definition certify_signed :: "crypto \<Rightarrow> node_id \<Rightarrow> node_id \<Rightarrow> certify option" where
  "certify_signed c identity subkey =
     (case sign_as c identity (as_bytes (trust_content_address c (certify_parts identity subkey))) of
        None \<Rightarrow> None
      | Some s \<Rightarrow> Some \<lparr>ce_identity = identity, ce_subkey = subkey, ce_sig = s\<rparr>)"

record trust =
  tr_truster :: node_id
  tr_trustee :: node_id
  tr_depth :: u8
  tr_sig :: sig

definition trust_parts :: "node_id \<Rightarrow> node_id \<Rightarrow> u8 \<Rightarrow> string list" where
  "trust_parts truster trustee depth =
     [''trust'', version_part, truster, trustee, dec_string (unat depth)]"

definition trust_cid :: "crypto \<Rightarrow> trust \<Rightarrow> cid" where
  "trust_cid c x = trust_content_address c (trust_parts (tr_truster x) (tr_trustee x) (tr_depth x))"

definition trust_signed :: "crypto \<Rightarrow> node_id \<Rightarrow> node_id \<Rightarrow> u8 \<Rightarrow> trust option" where
  "trust_signed c truster trustee depth =
     (case sign_as c truster (as_bytes (trust_content_address c (trust_parts truster trustee depth))) of
        None \<Rightarrow> None
      | Some s \<Rightarrow> Some \<lparr>tr_truster = truster, tr_trustee = trustee, tr_depth = depth, tr_sig = s\<rparr>)"

record attest =
  at_issuer :: node_id
  at_capacity :: capacity
  at_authority :: "cid option"
  at_subject :: node_id
  at_predicate :: ta_predicate
  at_scope :: string
  at_epoch :: u64
  at_sig :: sig

definition attest_parts :: "attest \<Rightarrow> string list" where
  "attest_parts a =
     [''attest'', version_part, at_issuer a, capacity_tag (at_capacity a),
      (case at_authority a of None \<Rightarrow> '''' | Some k \<Rightarrow> k),
      at_subject a, pr_action (at_predicate a), pr_resource (at_predicate a),
      (case pr_quota (at_predicate a) of None \<Rightarrow> '''' | Some q \<Rightarrow> dec_string (unat q)),
      at_scope a, dec_string (unat (at_epoch a))]"

definition attest_cid :: "crypto \<Rightarrow> attest \<Rightarrow> cid" where
  "attest_cid c a = trust_content_address c (attest_parts a)"

definition attest_signed_message :: "crypto \<Rightarrow> attest \<Rightarrow> bytes" where
  "attest_signed_message c a = as_bytes (attest_cid c a)"

definition signed_by_issuer :: "crypto \<Rightarrow> attest \<Rightarrow> attest option" where
  "signed_by_issuer c a =
     (case sign_as c (at_issuer a) (attest_signed_message c a) of
        None \<Rightarrow> None
      | Some s \<Rightarrow> Some (a\<lparr>at_sig := s\<rparr>))"

record revoke =
  rv_target :: cid
  rv_sig :: sig

definition revoke_signed_message :: "cid \<Rightarrow> bytes" where
  "revoke_signed_message target =
     as_bytes ''pillar-trust-artifact-revoke-v1:'' @ as_bytes version_part
     @ as_bytes '':'' @ as_bytes target"

definition revoke_signed :: "crypto \<Rightarrow> cid \<Rightarrow> node_id \<Rightarrow> revoke option" where
  "revoke_signed c target signer =
     (case sign_as c signer (revoke_signed_message target) of
        None \<Rightarrow> None
      | Some s \<Rightarrow> Some \<lparr>rv_target = target, rv_sig = s\<rparr>)"

section \<open>The store\<close>

datatype trust_error =
    SignerMismatch
  | CapacityNotHeld node_id
  | AttestStaleEpoch u64 u64
  | UnknownTarget cid
  | NotAQuotaPredicate
  | AttestQuotaExceeded u64 u64

datatype verify_error =
    Broken cid
  | Cycle cid
  | Revoked cid

record trust_proof =
  tp_chain :: "cid list"
  tp_sentence :: string

definition max_chain_len :: nat where
  "max_chain_len = 4096"

record trust_store =
  ts_genesis :: node_id
  ts_attests :: "(cid, attest) btree_map"
  ts_revoked :: "cid btree_set"
  ts_epoch :: u64
  ts_admitted :: "(cid, u64) btree_map"

definition trust_store_new :: "node_id \<Rightarrow> trust_store" where
  "trust_store_new g =
     \<lparr>ts_genesis = g, ts_attests = btree_new, ts_revoked = btree_new, ts_epoch = 0,
      ts_admitted = btree_new\<rparr>"

definition store_certify :: "crypto \<Rightarrow> trust_store \<Rightarrow> certify \<Rightarrow> trust_error + cid" where
  "store_certify c s x =
     (if \<not> verifies_as c (ce_sig x) (ce_identity x) (as_bytes (certify_cid c x))
      then Inl SignerMismatch else Inr (certify_cid c x))"

definition store_trust :: "crypto \<Rightarrow> trust_store \<Rightarrow> trust \<Rightarrow> trust_error + cid" where
  "store_trust c s x =
     (if \<not> verifies_as c (tr_sig x) (tr_truster x) (as_bytes (trust_cid c x))
      then Inl SignerMismatch else Inr (trust_cid c x))"

text \<open>The walk of \<open>verify\<close>, with the loop's \<open>chain\<close>, \<open>seen\<close> and \<open>cur\<close>.\<close>

function verify_walk ::
  "trust_store \<Rightarrow> cid list \<Rightarrow> cid btree_set \<Rightarrow> cid \<Rightarrow> verify_error + cid list" where
  "verify_walk s chain seen cur =
     (if bset_contains seen cur then Inl (Cycle cur)
      else if length chain \<ge> max_chain_len then Inl (Cycle cur)
      else if bset_contains (ts_revoked s) cur then Inl (Revoked cur)
      else case btree_get (ts_attests s) cur of
             None \<Rightarrow> Inl (Broken cur)
           | Some a \<Rightarrow>
               (case at_authority a of
                  None \<Rightarrow> Inr (chain @ [cur])
                | Some parent \<Rightarrow> verify_walk s (chain @ [cur]) (bset_insert cur seen) parent))"
  by pat_completeness auto

termination
  by (relation "measure (\<lambda>(s, chain, seen, cur). max_chain_len - length chain)") auto

declare verify_walk.simps [simp del]

definition attest_phrase :: "attest \<Rightarrow> string" where
  "attest_phrase a =
     at_issuer a @ '' attests '' @ at_subject a @ '' may '' @ pr_action (at_predicate a) @ '' ''
     @ pr_resource (at_predicate a) @ '' as '' @ capacity_tag (at_capacity a) @ '' (scope ''
     @ at_scope a @ '', epoch '' @ dec_string (unat (at_epoch a)) @ '')''"

definition render_sentence :: "cid list \<Rightarrow> trust_store \<Rightarrow> string" where
  "render_sentence chain s =
     (if chain = [] then ''genesis''
      else str_join '' <- ''
        (map attest_phrase (List.map_filter (btree_get (ts_attests s)) chain)
         @ [''rooted at genesis '' @ ts_genesis s]))"

definition verify :: "trust_store \<Rightarrow> cid \<Rightarrow> verify_error + trust_proof" where
  "verify s k =
     (case verify_walk s [] btree_new k of
        Inl e \<Rightarrow> Inl e
      | Inr chain \<Rightarrow> Inr \<lparr>tp_chain = chain, tp_sentence = render_sentence chain s\<rparr>)"

definition verify_ok :: "trust_store \<Rightarrow> cid \<Rightarrow> bool" where
  "verify_ok s k = (case verify s k of Inl _ \<Rightarrow> False | Inr _ \<Rightarrow> True)"

definition holds_capacity :: "crypto \<Rightarrow> trust_store \<Rightarrow> node_id \<Rightarrow> capacity \<Rightarrow> bool" where
  "holds_capacity c s subject cap =
     (if subject = ts_genesis s then True
      else list_ex (\<lambda>a. at_subject a = subject \<and> at_capacity a = cap
             \<and> \<not> bset_contains (ts_revoked s) (attest_cid c a) \<and> verify_ok s (attest_cid c a))
           (btree_values (ts_attests s)))"

definition decide_attest :: "crypto \<Rightarrow> trust_store \<Rightarrow> attest \<Rightarrow> trust_error + cid" where
  "decide_attest c s a =
     (if \<not> verifies_as c (at_sig a) (at_issuer a) (attest_signed_message c a) then Inl SignerMismatch
      else if at_epoch a \<noteq> ts_epoch s then Inl (AttestStaleEpoch (at_epoch a) (ts_epoch s))
      else case at_capacity a of
             SelfCap \<Rightarrow> Inr (attest_cid c a)
           | Role _ _ \<Rightarrow>
               (if at_issuer a \<noteq> ts_genesis s \<and> \<not> holds_capacity c s (at_issuer a) (at_capacity a)
                then Inl (CapacityNotHeld (at_issuer a))
                else Inr (attest_cid c a)))"

definition issue_attest ::
  "crypto \<Rightarrow> trust_store \<Rightarrow> attest \<Rightarrow> (trust_error + cid) \<times> trust_store" where
  "issue_attest c s a =
     (case decide_attest c s a of
        Inl e \<Rightarrow> (Inl e, s)
      | Inr k \<Rightarrow> (Inr k, s\<lparr>ts_attests := btree_insert k a (ts_attests s)\<rparr>))"

definition store_revoke ::
  "crypto \<Rightarrow> trust_store \<Rightarrow> revoke \<Rightarrow> (trust_error + unit) \<times> trust_store" where
  "store_revoke c s r =
     (if \<not> verifies_as c (rv_sig r) (tsig_signer (rv_sig r)) (revoke_signed_message (rv_target r))
      then (Inl SignerMismatch, s)
      else if \<not> btree_contains_key (ts_attests s) (rv_target r)
      then (Inl (UnknownTarget (rv_target r)), s)
      else (Inr (), s\<lparr>ts_revoked := bset_insert (rv_target r) (ts_revoked s),
                     ts_epoch := ts_epoch s + 1\<rparr>))"

definition admitted_amount :: "trust_store \<Rightarrow> cid \<Rightarrow> u64" where
  "admitted_amount s k = (case btree_get (ts_admitted s) k of None \<Rightarrow> 0 | Some n \<Rightarrow> n)"

definition admit_quota ::
  "trust_store \<Rightarrow> cid \<Rightarrow> u64 \<Rightarrow> (trust_error + unit) \<times> trust_store" where
  "admit_quota s k amt =
     (case btree_get (ts_attests s) k of
        None \<Rightarrow> (Inl (UnknownTarget k), s)
      | Some a \<Rightarrow>
          (case pr_quota (at_predicate a) of
             None \<Rightarrow> (Inl NotAQuotaPredicate, s)
           | Some quota \<Rightarrow>
               (case verify s k of
                  Inl _ \<Rightarrow> (Inl (CapacityNotHeld (at_issuer a)), s)
                | Inr _ \<Rightarrow>
                    (let used = admitted_amount s k in
                     if used + amt > quota then (Inl (AttestQuotaExceeded amt (quota - used)), s)
                     else (Inr (), s\<lparr>ts_admitted := btree_insert k (used + amt) (ts_admitted s)\<rparr>)))))"

definition live_attests :: "trust_store \<Rightarrow> (cid \<times> attest) list" where
  "live_attests s =
     filter (\<lambda>(k, a). \<not> bset_contains (ts_revoked s) k \<and> verify_ok s k) (btree_iter (ts_attests s))"

record graph_edge =
  ge_cid :: cid
  ge_from :: node_id
  ge_to :: node_id
  ge_label :: string

definition graph_edges :: "trust_store \<Rightarrow> graph_edge list" where
  "graph_edges s =
     sort_key ge_cid
       (map (\<lambda>(k, a). \<lparr>ge_cid = k, ge_from = at_issuer a, ge_to = at_subject a,
          ge_label = capacity_tag (at_capacity a) @ '':'' @ pr_action (at_predicate a) @ ''(''
            @ pr_resource (at_predicate a) @ '')''\<rparr>) (live_attests s))"

definition attestation :: "trust_store \<Rightarrow> cid \<Rightarrow> attest option" where
  "attestation s k = btree_get (ts_attests s) k"

definition live_attestation_cids :: "trust_store \<Rightarrow> cid list" where
  "live_attestation_cids s = sort (map fst (live_attests s))"

text \<open>Of \<^verbatim>\<open>crates/pillar-rbac/src/lib.rs\<close>, the grant the projection produces.\<close>

type_synonym capability = string

datatype grant_effect = Allow | Deny

record explicit_grant =
  eg_subject :: node_id
  eg_capability :: capability
  eg_effect :: grant_effect

definition as_explicit_grants :: "trust_store \<Rightarrow> explicit_grant list" where
  "as_explicit_grants s =
     map (\<lambda>(k, a). \<lparr>eg_subject = at_subject a, eg_capability = pr_action (at_predicate a),
            eg_effect = Allow\<rparr>)
       (filter (\<lambda>(k, a). case at_capacity a of SelfCap \<Rightarrow> False | Role _ _ \<Rightarrow> True) (live_attests s))"

section \<open>Signatures verify\<close>

lemma public_key_for_Some: "\<exists>pk. public_key_for c n = Some pk"
  by (simp add: public_key_for_def signing_keypair_from_seed_def Let_def)

lemma sign_as_verifies:
  assumes "ed25519_ok c"
  shows "\<exists>s. sign_as c n m = Some s \<and> verifies_as c s n m"
proof -
  let ?sk = "ed25519_secret_bytes c (name_seed c n)"
  have kp: "signing_keypair_from_seed c (name_seed c n) = Inr (c_ed_public c ?sk, ?sk)"
    by (simp add: signing_keypair_from_seed_def Let_def)
  from sign_verifies [OF assms kp, of m] obtain b where
    "crypto_sign c ?sk m = Inr b" "crypto_verify c (c_ed_public c ?sk) m b = Inr ()" by blast
  then show ?thesis
    by (simp add: sign_as_def identity_for_name_def identity_sign_def kp verifies_as_def
        public_key_for_def)
qed

lemma signed_by_issuer_verifies:
  assumes "ed25519_ok c"
  shows "\<exists>b. signed_by_issuer c a = Some b \<and> attest_parts b = attest_parts a
      \<and> verifies_as c (at_sig b) (at_issuer b) (attest_signed_message c b)"
proof -
  from sign_as_verifies [OF assms, of "at_issuer a" "attest_signed_message c a"] obtain s where
    s: "sign_as c (at_issuer a) (attest_signed_message c a) = Some s"
      "verifies_as c s (at_issuer a) (attest_signed_message c a)" by blast
  have parts: "attest_parts (a\<lparr>at_sig := s\<rparr>) = attest_parts a"
    by (simp add: attest_parts_def)
  then have "attest_signed_message c (a\<lparr>at_sig := s\<rparr>) = attest_signed_message c a"
    by (simp add: attest_signed_message_def attest_cid_def)
  with s parts show ?thesis by (simp add: signed_by_issuer_def)
qed

section \<open>The chain a walk certifies\<close>

text \<open>
  The specification of \<open>verify\<close>: the chain of authority pointers from \<open>k\<close>, every
  artifact on it stored and not revoked, ended by an artifact without a pointer.
\<close>

fun auth_chain :: "trust_store \<Rightarrow> cid \<Rightarrow> cid list \<Rightarrow> bool" where
  "auth_chain s k [] \<longleftrightarrow> False"
| "auth_chain s k (x # xs) \<longleftrightarrow>
     x = k \<and> \<not> bset_contains (ts_revoked s) k
     \<and> (case btree_get (ts_attests s) k of
          None \<Rightarrow> False
        | Some a \<Rightarrow> (case at_authority a of None \<Rightarrow> xs = [] | Some p \<Rightarrow> auth_chain s p xs))"

lemma auth_chain_unique: "auth_chain s k xs \<Longrightarrow> auth_chain s k ys \<Longrightarrow> xs = ys"
proof (induction xs arbitrary: k ys)
  case (Cons x xs)
  then show ?case by (cases ys) (auto split: option.splits)
qed simp

lemma auth_chain_suffix:
  "auth_chain s k (us @ x # vs) \<Longrightarrow> auth_chain s x (x # vs)"
proof (induction us arbitrary: k)
  case (Cons u us)
  then show ?case by (cases us) (auto split: option.splits)
qed auto

lemma auth_chain_distinct:
  assumes "auth_chain s k xs"
  shows "distinct xs"
proof (rule ccontr)
  assume "\<not> distinct xs"
  then obtain us ys zs x where xs: "xs = us @ x # ys @ x # zs"
    by (metis append.assoc append_Cons not_distinct_decomp append_Nil)
  have "auth_chain s x (x # ys @ x # zs)"
    using auth_chain_suffix [of s k us x "ys @ x # zs"] assms unfolding xs by blast
  moreover have "auth_chain s x (x # zs)"
    using auth_chain_suffix [of s k "us @ x # ys" x zs] assms unfolding xs by simp
  ultimately have "x # ys @ x # zs = x # zs" by (rule auth_chain_unique)
  then have "length (ys @ x # zs) = length zs" by (metis list.inject)
  then show False by simp
qed

lemma auth_chain_live:
  "auth_chain s k xs \<Longrightarrow> x \<in> set xs \<Longrightarrow>
    \<not> bset_contains (ts_revoked s) x \<and> btree_contains_key (ts_attests s) x"
  by (induction xs arbitrary: k) (auto simp: btree_contains_key_Some split: option.splits)

lemma auth_chain_hd: "auth_chain s k xs \<Longrightarrow> k \<in> set xs"
  by (cases xs) auto

lemma verify_walk_Inr:
  "verify_walk s chain seen cur = Inr full \<longleftrightarrow>
     (\<exists>rest. full = chain @ rest \<and> auth_chain s cur rest \<and> length full \<le> max_chain_len
       \<and> distinct rest \<and> (\<forall>x\<in>set rest. \<not> bset_contains seen x))"
proof (induction s chain seen cur rule: verify_walk.induct)
  case (1 s chain seen cur)
  show ?case
  proof (cases "bset_contains seen cur \<or> length chain \<ge> max_chain_len \<or> bset_contains (ts_revoked s) cur")
    case True
    have "\<not> (auth_chain s cur rest \<and> length (chain @ rest) \<le> max_chain_len
       \<and> (\<forall>x\<in>set rest. \<not> bset_contains seen x))" for rest
      using True by (cases rest) auto
    moreover have "verify_walk s chain seen cur \<noteq> Inr full"
      using True by (subst verify_walk.simps) auto
    ultimately show ?thesis by blast
  next
    case False
    then have step: "verify_walk s chain seen cur =
        (case btree_get (ts_attests s) cur of
             None \<Rightarrow> Inl (Broken cur)
           | Some a \<Rightarrow>
               (case at_authority a of
                  None \<Rightarrow> Inr (chain @ [cur])
                | Some parent \<Rightarrow> verify_walk s (chain @ [cur]) (bset_insert cur seen) parent))"
      by (subst verify_walk.simps) auto
    show ?thesis
    proof (cases "btree_get (ts_attests s) cur")
      case None
      have "\<not> auth_chain s cur rest" for rest using None by (cases rest) auto
      then show ?thesis using None by (simp add: step)
    next
      case (Some a)
      show ?thesis
      proof (cases "at_authority a")
        case None
        have ch: "auth_chain s cur rest \<longleftrightarrow> rest = [cur]" for rest
          using None Some False by (cases rest) auto
        have "verify_walk s chain seen cur = Inr (chain @ [cur])" by (simp add: step None Some)
        then have "verify_walk s chain seen cur = Inr full \<longleftrightarrow> full = chain @ [cur]" by auto
        also have "\<dots> \<longleftrightarrow> (\<exists>rest. full = chain @ rest \<and> rest = [cur]
            \<and> length full \<le> max_chain_len \<and> distinct rest
            \<and> (\<forall>x\<in>set rest. \<not> bset_contains seen x))"
          using False by auto
        finally show ?thesis unfolding ch .
      next
        case (Some p)
        note stored = \<open>btree_get (ts_attests s) cur = Some a\<close>
        have ch: "auth_chain s cur rest \<longleftrightarrow> (\<exists>tl. rest = cur # tl \<and> auth_chain s p tl)" for rest
          using Some stored False by (cases rest) auto
        have "verify_walk s chain seen cur = verify_walk s (chain @ [cur]) (bset_insert cur seen) p"
          by (simp add: step stored Some)
        also have "\<dots> = Inr full \<longleftrightarrow> (\<exists>tl. full = (chain @ [cur]) @ tl \<and> auth_chain s p tl
            \<and> length full \<le> max_chain_len \<and> distinct tl
            \<and> (\<forall>x\<in>set tl. \<not> bset_contains (bset_insert cur seen) x))"
          using 1 [OF _ _ _ stored Some] False by simp
        also have "\<dots> \<longleftrightarrow> (\<exists>rest. full = chain @ rest \<and> auth_chain s cur rest
            \<and> length full \<le> max_chain_len \<and> distinct rest
            \<and> (\<forall>x\<in>set rest. \<not> bset_contains seen x))"
        proof (intro iffI; elim exE conjE)
          fix tl
          assume "full = (chain @ [cur]) @ tl" "auth_chain s p tl" "length full \<le> max_chain_len"
            "distinct tl" "\<forall>x\<in>set tl. \<not> bset_contains (bset_insert cur seen) x"
          then show "\<exists>rest. full = chain @ rest \<and> auth_chain s cur rest
            \<and> length full \<le> max_chain_len \<and> distinct rest
            \<and> (\<forall>x\<in>set rest. \<not> bset_contains seen x)"
            using False by (intro exI [of _ "cur # tl"]) (auto simp del: auth_chain.simps simp: ch)
        next
          fix rest
          assume full: "full = chain @ rest" and len: "length full \<le> max_chain_len"
            and rest: "auth_chain s cur rest" "distinct rest" "\<forall>x\<in>set rest. \<not> bset_contains seen x"
          from rest(1) obtain tl where "rest = cur # tl" "auth_chain s p tl" unfolding ch by blast
          with full len rest show "\<exists>tl. full = (chain @ [cur]) @ tl \<and> auth_chain s p tl
            \<and> length full \<le> max_chain_len \<and> distinct tl
            \<and> (\<forall>x\<in>set tl. \<not> bset_contains (bset_insert cur seen) x)"
            by (intro exI [of _ tl]) auto
        qed
        finally show ?thesis .
      qed
    qed
  qed
qed

lemma verify_Inr:
  "verify s k = Inr p \<longleftrightarrow> auth_chain s k (tp_chain p) \<and> length (tp_chain p) \<le> max_chain_len
     \<and> p = \<lparr>tp_chain = tp_chain p, tp_sentence = render_sentence (tp_chain p) s\<rparr>"
proof -
  have walk: "verify_walk s [] btree_new k = Inr xs \<longleftrightarrow> auth_chain s k xs \<and> length xs \<le> max_chain_len"
    for xs by (auto simp: verify_walk_Inr auth_chain_distinct)
  show ?thesis
  proof (cases "verify_walk s [] btree_new k")
    case (Inl e)
    then have "\<not> (auth_chain s k (tp_chain p) \<and> length (tp_chain p) \<le> max_chain_len)"
      using walk [of "tp_chain p"] by simp
    with Inl show ?thesis by (auto simp: verify_def)
  next
    case (Inr xs)
    with walk [of xs] have xs: "auth_chain s k xs" "length xs \<le> max_chain_len" by auto
    have "p = \<lparr>tp_chain = xs, tp_sentence = render_sentence xs s\<rparr>"
      if "auth_chain s k (tp_chain p)"
        "p = \<lparr>tp_chain = tp_chain p, tp_sentence = render_sentence (tp_chain p) s\<rparr>"
      using auth_chain_unique [OF xs(1) that(1)] that(2) by simp
    with Inr xs show ?thesis by (auto simp: verify_def)
  qed
qed

lemma verify_ok_iff: "verify_ok s k \<longleftrightarrow> (\<exists>xs. auth_chain s k xs \<and> length xs \<le> max_chain_len)"
proof -
  have "verify_ok s k \<longleftrightarrow> (\<exists>p. verify s k = Inr p)"
    by (auto simp: verify_ok_def split: sum.splits)
  also have "\<dots> \<longleftrightarrow> (\<exists>xs. auth_chain s k xs \<and> length xs \<le> max_chain_len)"
    by (metis verify_Inr trust_proof.select_convs(1))
  finally show ?thesis .
qed

text \<open>The artifacts a walk passes before it stops at \<open>y\<close>.\<close>

fun auth_path :: "trust_store \<Rightarrow> cid \<Rightarrow> cid list \<Rightarrow> cid \<Rightarrow> bool" where
  "auth_path s k [] y \<longleftrightarrow> y = k"
| "auth_path s k (x # xs) y \<longleftrightarrow>
     x = k \<and> \<not> bset_contains (ts_revoked s) k
     \<and> (case btree_get (ts_attests s) k of
          None \<Rightarrow> False
        | Some a \<Rightarrow> (case at_authority a of None \<Rightarrow> False | Some p \<Rightarrow> auth_path s p xs y))"

lemma verify_walk_Inl:
  "verify_walk s chain seen cur = Inl e \<Longrightarrow>
     \<exists>pre y. auth_path s cur pre y
       \<and> (e = Revoked y \<and> bset_contains (ts_revoked s) y
          \<or> e = Broken y \<and> btree_get (ts_attests s) y = None
          \<or> e = Cycle y \<and> (bset_contains seen y \<or> y \<in> set pre
              \<or> length chain + length pre \<ge> max_chain_len))"
proof (induction s chain seen cur rule: verify_walk.induct)
  case (1 s chain seen cur)
  show ?case
  proof (cases "\<exists>a p. \<not> bset_contains seen cur \<and> length chain < max_chain_len
      \<and> \<not> bset_contains (ts_revoked s) cur \<and> btree_get (ts_attests s) cur = Some a
      \<and> at_authority a = Some p")
    case False
    have "auth_path s cur [] cur" by simp
    moreover have "e = Revoked cur \<and> bset_contains (ts_revoked s) cur
          \<or> e = Broken cur \<and> btree_get (ts_attests s) cur = None
          \<or> e = Cycle cur \<and> (bset_contains seen cur \<or> length chain \<ge> max_chain_len)"
      using 1(2) False
      by (subst (asm) verify_walk.simps) (auto split: if_splits option.splits)
    ultimately show ?thesis by (intro exI [of _ "[]"] exI [of _ cur]) auto
  next
    case True
    then obtain a p where c: "\<not> bset_contains seen cur" "\<not> max_chain_len \<le> length chain"
      "\<not> bset_contains (ts_revoked s) cur" "btree_get (ts_attests s) cur = Some a"
      "at_authority a = Some p" by auto
    have "verify_walk s (chain @ [cur]) (bset_insert cur seen) p = Inl e"
      using 1(2) c by (subst (asm) verify_walk.simps) simp
    from 1(1) [OF c this] obtain pre y where path: "auth_path s p pre y"
      and e: "e = Revoked y \<and> bset_contains (ts_revoked s) y
          \<or> e = Broken y \<and> btree_get (ts_attests s) y = None
          \<or> e = Cycle y \<and> (bset_contains (bset_insert cur seen) y \<or> y \<in> set pre
              \<or> length (chain @ [cur]) + length pre \<ge> max_chain_len)"
      by blast
    from path c have "auth_path s cur (cur # pre) y" by simp
    with e show ?thesis by (intro exI [of _ "cur # pre"] exI [of _ y]) auto
  qed
qed

lemma verify_Inl:
  assumes "verify s k = Inl e"
  shows "\<exists>pre y. auth_path s k pre y
       \<and> (e = Revoked y \<and> bset_contains (ts_revoked s) y
          \<or> e = Broken y \<and> btree_get (ts_attests s) y = None
          \<or> e = Cycle y \<and> (y \<in> set pre \<or> length pre \<ge> max_chain_len))"
proof -
  have "verify_walk s [] btree_new k = Inl e"
    using assms by (simp add: verify_def split: sum.splits)
  from verify_walk_Inl [OF this] show ?thesis by auto
qed

section \<open>Runs\<close>

datatype ta_op = IssueOp attest | RevokeOp revoke | AdmitOp cid u64

fun ta_exec :: "crypto \<Rightarrow> trust_store \<Rightarrow> ta_op \<Rightarrow> trust_store" where
  "ta_exec c s (IssueOp a) = snd (issue_attest c s a)"
| "ta_exec c s (RevokeOp r) = snd (store_revoke c s r)"
| "ta_exec c s (AdmitOp k amt) = snd (admit_quota s k amt)"

definition ta_run :: "crypto \<Rightarrow> trust_store \<Rightarrow> ta_op list \<Rightarrow> trust_store" where
  "ta_run c s xs = foldl (ta_exec c) s xs"

lemma ta_run_Nil [simp]: "ta_run c s [] = s"
  by (simp add: ta_run_def)

lemma ta_run_Cons [simp]: "ta_run c s (x # xs) = ta_run c (ta_exec c s x) xs"
  by (simp add: ta_run_def)

lemma ta_run_snoc: "ta_run c s (xs @ [x]) = ta_exec c (ta_run c s xs) x"
  by (simp add: ta_run_def)

lemma issue_attest_snd:
  "snd (issue_attest c s a) =
     (case decide_attest c s a of Inl _ \<Rightarrow> s
      | Inr k \<Rightarrow> s\<lparr>ts_attests := btree_insert k a (ts_attests s)\<rparr>)"
  by (simp add: issue_attest_def split: sum.splits)

lemma admit_quota_snd:
  "\<exists>m. snd (admit_quota s k amt) = s\<lparr>ts_admitted := m\<rparr>"
proof -
  have "snd (admit_quota s k amt) = s \<or>
      snd (admit_quota s k amt) = s\<lparr>ts_admitted := btree_insert k (admitted_amount s k + amt) (ts_admitted s)\<rparr>"
    by (simp add: admit_quota_def Let_def split: option.splits sum.splits)
  then show ?thesis by (metis trust_store.surjective trust_store.update_convs(5))
qed

lemma ta_exec_genesis [simp]: "ts_genesis (ta_exec c s x) = ts_genesis s"
proof (cases x)
  case (AdmitOp k amt)
  with admit_quota_snd [of s k amt] show ?thesis by auto
qed (auto simp: issue_attest_snd store_revoke_def split: sum.splits)

lemma ta_run_genesis [simp]: "ts_genesis (ta_run c s xs) = ts_genesis s"
  by (induction xs arbitrary: s) auto

lemma ta_exec_revoked_mono:
  "bset_contains (ts_revoked s) k \<Longrightarrow> bset_contains (ts_revoked (ta_exec c s x)) k"
proof (cases x)
  case (AdmitOp k' amt)
  moreover assume "bset_contains (ts_revoked s) k"
  ultimately show ?thesis using admit_quota_snd [of s k' amt] by auto
qed (auto simp: issue_attest_snd store_revoke_def split: sum.splits)

lemma ta_run_revoked_mono:
  "bset_contains (ts_revoked s) k \<Longrightarrow> bset_contains (ts_revoked (ta_run c s xs)) k"
  by (induction xs arbitrary: s) (auto intro: ta_exec_revoked_mono)

lemma decide_attest_Inr:
  "decide_attest c s a = Inr k \<longleftrightarrow>
     k = attest_cid c a \<and> verifies_as c (at_sig a) (at_issuer a) (attest_signed_message c a)
     \<and> at_epoch a = ts_epoch s
     \<and> (at_capacity a = SelfCap \<or> at_issuer a = ts_genesis s
        \<or> holds_capacity c s (at_issuer a) (at_capacity a))"
  by (cases "at_capacity a") (auto simp: decide_attest_def)

lemma ta_exec_stored:
  assumes "btree_get (ts_attests (ta_exec c s x)) k = Some b"
  shows "btree_get (ts_attests s) k = Some b
    \<or> (x = IssueOp b \<and> decide_attest c s b = Inr k)"
proof (cases x)
  case (AdmitOp k' amt)
  with assms admit_quota_snd [of s k' amt] show ?thesis by auto
next
  case (IssueOp a)
  with assms show ?thesis by (auto simp: issue_attest_snd split: sum.splits if_splits)
next
  case (RevokeOp r)
  with assms show ?thesis by (auto simp: store_revoke_def split: if_splits)
qed

text \<open>Every stored attestation was issued by a call, genuinely signed.\<close>

lemma stored_was_issued:
  assumes "btree_get (ts_attests (ta_run c (trust_store_new g) xs)) k = Some a"
  shows "IssueOp a \<in> set xs \<and> k = attest_cid c a
    \<and> verifies_as c (at_sig a) (at_issuer a) (attest_signed_message c a)"
  using assms
proof (induction xs rule: rev_induct)
  case Nil
  then show ?case by (simp add: trust_store_new_def)
next
  case (snoc x xs)
  from ta_exec_stored [OF snoc.prems [unfolded ta_run_snoc]] show ?case
    using snoc.IH by (auto simp: decide_attest_Inr)
qed

lemma stored_role_rooted:
  assumes "btree_get (ts_attests (ta_run c (trust_store_new g) xs)) k = Some a"
    and "at_capacity a = Role r sc"
  shows "\<exists>b. IssueOp b \<in> set xs \<and> at_issuer b = g \<and> at_capacity b = Role r sc
    \<and> verifies_as c (at_sig b) g (attest_signed_message c b)"
  using assms
proof (induction xs arbitrary: k a rule: rev_induct)
  case Nil
  then show ?case by (simp add: trust_store_new_def)
next
  case (snoc x xs)
  let ?s = "ta_run c (trust_store_new g) xs"
  have g: "ts_genesis ?s = g" by (simp add: trust_store_new_def)
  from ta_exec_stored [OF snoc.prems(1) [unfolded ta_run_snoc]] consider
    "btree_get (ts_attests ?s) k = Some a" | "x = IssueOp a" "decide_attest c ?s a = Inr k" by blast
  then show ?case
  proof cases
    case 1
    from snoc.IH [OF this snoc.prems(2)] show ?thesis by auto
  next
    case 2
    show ?thesis
    proof (cases "at_issuer a = g")
      case True
      with 2 snoc.prems(2) show ?thesis by (auto simp: decide_attest_Inr)
    next
      case False
      with 2 snoc.prems(2) g have "holds_capacity c ?s (at_issuer a) (Role r sc)"
        by (simp add: decide_attest_Inr)
      then obtain b k' where "btree_get (ts_attests ?s) k' = Some b" "at_capacity b = Role r sc"
        using False g by (auto simp: holds_capacity_def list_ex_iff btree_values_iff)
      from snoc.IH [OF this] show ?thesis by auto
    qed
  qed
qed

text \<open>The amount a call admits against \<open>k\<close>, and its sum over a run.\<close>

fun admitted_by :: "crypto \<Rightarrow> trust_store \<Rightarrow> cid \<Rightarrow> ta_op \<Rightarrow> nat" where
  "admitted_by c s k (AdmitOp k' amt) =
     (if k' = k \<and> fst (admit_quota s k amt) = Inr () then unat amt else 0)"
| "admitted_by c s k _ = 0"

fun admitted_total :: "crypto \<Rightarrow> trust_store \<Rightarrow> cid \<Rightarrow> ta_op list \<Rightarrow> nat" where
  "admitted_total c s k [] = 0"
| "admitted_total c s k (x # xs) = admitted_by c s k x + admitted_total c (ta_exec c s x) k xs"

text \<open>
  A call leaves the metered artifact \<open>k\<close> and its budget \<open>q\<close> alone: it issues no
  artifact of that address and asks for amounts that cannot overflow against the budget.
\<close>

fun quota_call :: "crypto \<Rightarrow> cid \<Rightarrow> u64 \<Rightarrow> ta_op \<Rightarrow> bool" where
  "quota_call c k q (IssueOp b) \<longleftrightarrow> attest_cid c b \<noteq> k"
| "quota_call c k q (RevokeOp r) \<longleftrightarrow> True"
| "quota_call c k q (AdmitOp k' amt) \<longleftrightarrow> unat amt + unat q < 2 ^ 64"

lemma quota_call_stored:
  assumes "quota_call c k q x"
  shows "btree_get (ts_attests (ta_exec c s x)) k = btree_get (ts_attests s) k"
proof (cases x)
  case (AdmitOp k' amt)
  with admit_quota_snd [of s k' amt] show ?thesis by auto
next
  case (IssueOp b)
  with assms show ?thesis by (auto simp: issue_attest_snd decide_attest_Inr split: sum.splits)
next
  case (RevokeOp r)
  then show ?thesis by (simp add: store_revoke_def)
qed

lemma admit_quota_cases:
  assumes "btree_get (ts_attests s) k = Some a" "pr_quota (at_predicate a) = Some q"
    and "unat amt + unat q < 2 ^ 64" "admitted_amount s k \<le> q"
  shows "fst (admit_quota s k amt) = Inr () \<longleftrightarrow>
      verify_ok s k \<and> unat (admitted_amount s k) + unat amt \<le> unat q"
    and "unat (admitted_amount (snd (admit_quota s k amt)) k) =
      unat (admitted_amount s k) + (if fst (admit_quota s k amt) = Inr () then unat amt else 0)"
proof -
  have "unat (admitted_amount s k) \<le> unat q" using assms(4) by (simp add: word_le_nat_alt)
  with assms(3) have "unat (admitted_amount s k) + unat amt < 2 ^ 64" by linarith
  then have add: "unat (admitted_amount s k + amt) = unat (admitted_amount s k) + unat amt"
    by (simp add: unat_word_ariths)
  then have gt: "admitted_amount s k + amt > q \<longleftrightarrow> \<not> unat (admitted_amount s k) + unat amt \<le> unat q"
    by (simp add: word_less_nat_alt not_le)
  show "fst (admit_quota s k amt) = Inr () \<longleftrightarrow>
      verify_ok s k \<and> unat (admitted_amount s k) + unat amt \<le> unat q"
    using assms(1,2) gt by (simp add: admit_quota_def verify_ok_def Let_def split: sum.splits)
  show "unat (admitted_amount (snd (admit_quota s k amt)) k) =
      unat (admitted_amount s k) + (if fst (admit_quota s k amt) = Inr () then unat amt else 0)"
    using assms(1,2) add
    by (auto simp: admit_quota_def admitted_amount_def Let_def split: sum.splits)
qed

lemma admit_quota_other:
  "k' \<noteq> k \<Longrightarrow> admitted_amount (snd (admit_quota s k' amt)) k = admitted_amount s k"
  by (simp add: admit_quota_def admitted_amount_def Let_def split: option.splits sum.splits)

lemma ta_exec_admitted:
  assumes "btree_get (ts_attests s) k = Some a" "pr_quota (at_predicate a) = Some q"
    and "admitted_amount s k \<le> q" "quota_call c k q x"
  shows "unat (admitted_amount (ta_exec c s x) k) = unat (admitted_amount s k) + admitted_by c s k x"
    and "admitted_amount (ta_exec c s x) k \<le> q"
proof -
  show eq: "unat (admitted_amount (ta_exec c s x) k) = unat (admitted_amount s k) + admitted_by c s k x"
  proof (cases x)
    case (AdmitOp k' amt)
    show ?thesis
    proof (cases "k' = k")
      case True
      then show ?thesis using admit_quota_cases(2) [OF assms(1,2) _ assms(3), of amt] assms(4) AdmitOp
        by simp
    next
      case False
      then show ?thesis using AdmitOp by (simp add: admit_quota_other)
    qed
  qed (auto simp: issue_attest_snd store_revoke_def admitted_amount_def split: sum.splits)
  have "unat (admitted_amount s k) + admitted_by c s k x \<le> unat q"
  proof (cases "admitted_by c s k x = 0")
    case True
    then show ?thesis using assms(3) by (simp add: word_le_nat_alt)
  next
    case False
    then obtain amt where x: "x = AdmitOp k amt" "fst (admit_quota s k amt) = Inr ()"
      by (cases x) (auto split: if_splits)
    then show ?thesis
      using admit_quota_cases(1) [OF assms(1,2) _ assms(3), of amt] assms(4) by simp
  qed
  then show "admitted_amount (ta_exec c s x) k \<le> q" using eq by (simp add: word_le_nat_alt)
qed

section \<open>Properties\<close>

text \<open>
  \<^bold>\<open>C10.\<close> \<open>verify\<close> returns on every store and is exact: it succeeds with a proof exactly
  when the authority pointers from the artifact form a chain of stored, unrevoked artifacts, at
  most 4096 long, that ends at one without a pointer, and the proof lists that chain; a refusal
  names the artifact where the walk stopped: a revoked one, an unknown one, or one met before (or
  beyond 4096 steps).
\<close>

theorem verify_exact:
  "(verify s k = Inr p \<longleftrightarrow> auth_chain s k (tp_chain p) \<and> length (tp_chain p) \<le> max_chain_len
     \<and> p = \<lparr>tp_chain = tp_chain p, tp_sentence = render_sentence (tp_chain p) s\<rparr>)
   \<and> (verify s k = Inl e \<longrightarrow>
      (\<exists>pre y. auth_path s k pre y
         \<and> (e = Revoked y \<and> bset_contains (ts_revoked s) y
            \<or> e = Broken y \<and> btree_get (ts_attests s) y = None
            \<or> e = Cycle y \<and> (y \<in> set pre \<or> length pre \<ge> max_chain_len))))"
  using verify_Inr [of s k p] verify_Inl [of s k e] by blast

text \<open>
  \<^bold>\<open>C11.\<close> Revocation fails closed for ever: after a successful \<open>revoke\<close>, no later
  sequence of issues, revocations and admissions makes \<open>verify\<close> accept a chain through the
  revoked artifact, and no quota is admitted against it.
\<close>

theorem revocation_fails_closed:
  assumes "fst (store_revoke c s r) = Inr ()"
  shows "(\<forall>k p. verify (ta_run c (snd (store_revoke c s r)) xs) k = Inr p \<longrightarrow> rv_target r \<notin> set (tp_chain p))
    \<and> (\<forall>amt. fst (admit_quota (ta_run c (snd (store_revoke c s r)) xs) (rv_target r) amt) \<noteq> Inr ())"
proof -
  let ?t = "ta_run c (snd (store_revoke c s r)) xs"
  have "bset_contains (ts_revoked (snd (store_revoke c s r))) (rv_target r)"
    using assms by (auto simp: store_revoke_def split: if_splits)
  then have rev: "bset_contains (ts_revoked ?t) (rv_target r)" by (rule ta_run_revoked_mono)
  have out: "rv_target r \<notin> set (tp_chain p)" if v: "verify ?t k = Inr p" for k p
    using v rev auth_chain_live [of ?t k "tp_chain p" "rv_target r"] by (auto simp: verify_Inr)
  have "\<not> verify_ok ?t (rv_target r)"
    using rev by (auto simp: verify_ok_iff dest: auth_chain_live auth_chain_hd)
  then have "fst (admit_quota ?t (rv_target r) amt) \<noteq> Inr ()" for amt
    by (auto simp: admit_quota_def verify_ok_def split: option.splits sum.splits)
  with out show ?thesis by blast
qed

text \<open>
  \<^bold>\<open>C12.\<close> Role capacity never appears from nowhere: in every store reached from a fresh one, an
  identity other than genesis that holds a role in a scope, and every projected explicit grant,
  is backed by a stored attestation in that very role and scope, and genesis itself issued,
  genuinely signed, an attestation in that role and scope.
\<close>

theorem role_capacity_rooted:
  assumes "s = ta_run c (trust_store_new g) xs"
  shows "(subj \<noteq> g \<and> holds_capacity c s subj (Role r sc) \<longrightarrow>
      (\<exists>b. IssueOp b \<in> set xs \<and> at_issuer b = g \<and> at_capacity b = Role r sc
        \<and> verifies_as c (at_sig b) g (attest_signed_message c b)))
    \<and> (\<forall>gr\<in>set (as_explicit_grants s). eg_effect gr = Allow \<and>
      (\<exists>a r' sc' b. IssueOp a \<in> set xs \<and> at_capacity a = Role r' sc'
        \<and> \<not> bset_contains (ts_revoked s) (attest_cid c a) \<and> verify_ok s (attest_cid c a)
        \<and> eg_subject gr = at_subject a \<and> eg_capability gr = pr_action (at_predicate a)
        \<and> IssueOp b \<in> set xs \<and> at_issuer b = g \<and> at_capacity b = Role r' sc'
        \<and> verifies_as c (at_sig b) g (attest_signed_message c b)))"
proof (intro conjI ballI impI)
  assume h: "subj \<noteq> g \<and> holds_capacity c s subj (Role r sc)"
  have "ts_genesis s = g" using assms by (simp add: trust_store_new_def)
  with h obtain k a where "btree_get (ts_attests s) k = Some a" "at_capacity a = Role r sc"
    by (auto simp: holds_capacity_def list_ex_iff btree_values_iff)
  then show "\<exists>b. IssueOp b \<in> set xs \<and> at_issuer b = g \<and> at_capacity b = Role r sc
      \<and> verifies_as c (at_sig b) g (attest_signed_message c b)"
    unfolding assms by (rule stored_role_rooted)
next
  fix gr assume gr: "gr \<in> set (as_explicit_grants s)"
  then show "eg_effect gr = Allow" by (auto simp: as_explicit_grants_def)
  from gr obtain k a where ka: "btree_get (ts_attests s) k = Some a"
    "\<not> bset_contains (ts_revoked s) k" "verify_ok s k"
    "eg_subject gr = at_subject a" "eg_capability gr = pr_action (at_predicate a)"
    and role: "case at_capacity a of SelfCap \<Rightarrow> False | Role _ _ \<Rightarrow> True"
    by (auto simp: as_explicit_grants_def live_attests_def btree_iter_iff)
  from role obtain r' sc' where cap: "at_capacity a = Role r' sc'" by (cases "at_capacity a") auto
  from stored_was_issued [of c g xs k a] ka(1) assms have "IssueOp a \<in> set xs" "k = attest_cid c a"
    by auto
  with ka cap stored_role_rooted [OF ka(1) [unfolded assms] cap]
  show "\<exists>a r' sc' b. IssueOp a \<in> set xs \<and> at_capacity a = Role r' sc'
        \<and> \<not> bset_contains (ts_revoked s) (attest_cid c a) \<and> verify_ok s (attest_cid c a)
        \<and> eg_subject gr = at_subject a \<and> eg_capability gr = pr_action (at_predicate a)
        \<and> IssueOp b \<in> set xs \<and> at_issuer b = g \<and> at_capacity b = Role r' sc'
        \<and> verifies_as c (at_sig b) g (attest_signed_message c b)"
    by blast
qed

text \<open>
  A quota is a budget: over any calls whose amounts cannot overflow against the budget
  (and that do not issue an artifact of the same address), what is admitted against a quota
  attestation, together with what was admitted before, stays within its quota, and the ledger
  records exactly that sum.
\<close>

theorem quota_budget_respected:
  assumes "btree_get (ts_attests s) k = Some a" "pr_quota (at_predicate a) = Some q"
    and "admitted_amount s k \<le> q" "\<And>x. x \<in> set xs \<Longrightarrow> quota_call c k q x"
  shows "unat (admitted_amount s k) + admitted_total c s k xs \<le> unat q
    \<and> unat (admitted_amount (ta_run c s xs) k) = unat (admitted_amount s k) + admitted_total c s k xs"
  using assms
proof (induction xs arbitrary: s)
  case Nil
  then show ?case by (simp add: word_le_nat_alt)
next
  case (Cons x xs)
  have call: "quota_call c k q x" using Cons.prems(4) by simp
  have st: "btree_get (ts_attests (ta_exec c s x)) k = Some a"
    using quota_call_stored [OF call] Cons.prems(1) by simp
  note step = ta_exec_admitted [OF Cons.prems(1-3) call]
  have "\<And>y. y \<in> set xs \<Longrightarrow> quota_call c k q y" using Cons.prems(4) by simp
  from Cons.IH [OF st Cons.prems(2) step(2) this] show ?case using step(1) by simp
qed

section \<open>A concrete store\<close>

text \<open>
  Primitives for the witnesses that keep the last bytes of a message, and four attestations:
  \<open>owner\<close> makes \<open>bob\<close> an operator of \<open>c\<close> with a budget of ten, \<open>bob\<close>
  makes \<open>carol\<close> and \<open>dave\<close> operators, naming his own grant as authority once and
  nothing the other time.
\<close>

definition tail_sha :: sha256 where
  "tail_sha bs = take 32 (of_nat (length bs) # rev bs @ replicate 32 0)"

definition trust_crypto :: crypto where
  "trust_crypto = \<lparr>c_sha = tail_sha, c_ed_public = (\<lambda>sk. sk),
     c_ed_sign = (\<lambda>sk m. take 64 (sk @ tail_sha m @ replicate 64 0)), c_ed_point = (\<lambda>_. True),
     c_ed_verify = (\<lambda>pk m sg. sg = take 64 (pk @ tail_sha m @ replicate 64 0))\<rparr>"

lemma ed25519_ok_trust_crypto: "ed25519_ok trust_crypto"
  by (auto simp: ed25519_ok_def trust_crypto_def tail_sha_def min_def)

definition ta_attest ::
  "node_id \<Rightarrow> capacity \<Rightarrow> cid option \<Rightarrow> node_id \<Rightarrow> u64 option \<Rightarrow> string \<Rightarrow> u64 \<Rightarrow> attest" where
  "ta_attest issuer cap auth subj q sc e =
     the (signed_by_issuer trust_crypto
       \<lparr>at_issuer = issuer, at_capacity = cap, at_authority = auth, at_subject = subj,
        at_predicate = \<lparr>pr_action = ''run'', pr_resource = ''x'', pr_quota = q\<rparr>, at_scope = sc,
        at_epoch = e, at_sig = \<lparr>tsig_signer = [], tsig_public = [], tsig_bytes = []\<rparr>\<rparr>)"

definition ta_bob :: attest where
  "ta_bob = ta_attest ''owner'' (Role ''op'' ''c'') None ''bob'' (Some 10) ''s1'' 0"

definition ta_bob_cid :: cid where
  "ta_bob_cid = attest_cid trust_crypto ta_bob"

definition ta_carol :: attest where
  "ta_carol = ta_attest ''bob'' (Role ''op'' ''c'') (Some ta_bob_cid) ''carol'' None ''s2'' 0"

definition ta_dave :: attest where
  "ta_dave = ta_attest ''bob'' (Role ''op'' ''c'') None ''dave'' None ''s3'' 0"

definition ta_demo_ops :: "ta_op list" where
  "ta_demo_ops = [IssueOp ta_bob, IssueOp ta_carol, IssueOp ta_dave]"

definition ta_demo :: trust_store where
  "ta_demo = ta_run trust_crypto (trust_store_new ''owner'') ta_demo_ops"

definition ta_revoke_bob :: revoke where
  "ta_revoke_bob = the (revoke_signed trust_crypto ta_bob_cid ''mallory'')"

lemma ta_bob_cid_eq [code]:
  "ta_bob_cid = ''trust:12209130000000000000000131730000000000000002303100000000000000027800''"
  by code_simp

lemma ta_bob_eq [code]:
  "ta_bob =
     \<lparr>at_issuer = ''owner'', at_capacity = Role ''op'' ''c'', at_authority = None,
      at_subject = ''bob'',
      at_predicate = \<lparr>pr_action = ''run'', pr_resource = ''x'', pr_quota = Some 10\<rparr>, at_scope = ''s1'',
      at_epoch = 0,
      at_sig = \<lparr>tsig_signer = ''owner'', tsig_public = [66, 115, 47, 105, 100, 101, 110, 116, 105, 116, 121, 45, 107, 101, 121, 110, 97, 109,
        101, 45, 115, 101, 101, 100, 45, 118, 49, 111, 119, 110, 101, 114],
        tsig_bytes = [66, 115, 47, 105, 100, 101, 110, 116, 105, 116, 121, 45, 107, 101, 121, 110, 97, 109,
        101, 45, 115, 101, 101, 100, 45, 118, 49, 111, 119, 110, 101, 114, 74, 48, 48, 56, 55, 50,
        48, 48, 48, 48, 48, 48, 48, 48, 48, 48, 48, 48, 48, 48, 48, 49, 51, 48, 51, 50, 48, 48,
        48, 48, 48, 48]\<rparr>\<rparr>"
  by code_simp

lemma ta_carol_eq [code]:
  "ta_carol =
     \<lparr>at_issuer = ''bob'', at_capacity = Role ''op'' ''c'', at_authority = Some ta_bob_cid,
      at_subject = ''carol'',
      at_predicate = \<lparr>pr_action = ''run'', pr_resource = ''x'', pr_quota = None\<rparr>, at_scope = ''s2'',
      at_epoch = 0,
      at_sig = \<lparr>tsig_signer = ''bob'', tsig_public = [66, 99, 116, 115, 47, 105, 100, 101, 110, 116, 105, 116, 121, 45, 107, 101, 121, 110, 97,
        109, 101, 45, 115, 101, 101, 100, 45, 118, 49, 98, 111, 98],
        tsig_bytes = [66, 99, 116, 115, 47, 105, 100, 101, 110, 116, 105, 116, 121, 45, 107, 101, 121, 110, 97,
        109, 101, 45, 115, 101, 101, 100, 45, 118, 49, 98, 111, 98, 74, 48, 48, 48, 48, 48, 48,
        56, 55, 48, 48, 48, 48, 48, 48, 48, 48, 48, 48, 48, 48, 48, 48, 48, 48, 50, 48, 48, 48,
        48, 48, 48]\<rparr>\<rparr>"
  by code_simp

lemma ta_dave_eq [code]:
  "ta_dave =
     \<lparr>at_issuer = ''bob'', at_capacity = Role ''op'' ''c'', at_authority = None,
      at_subject = ''dave'',
      at_predicate = \<lparr>pr_action = ''run'', pr_resource = ''x'', pr_quota = None\<rparr>, at_scope = ''s3'',
      at_epoch = 0,
      at_sig = \<lparr>tsig_signer = ''bob'', tsig_public = [66, 99, 116, 115, 47, 105, 100, 101, 110, 116, 105, 116, 121, 45, 107, 101, 121, 110, 97,
        109, 101, 45, 115, 101, 101, 100, 45, 118, 49, 98, 111, 98],
        tsig_bytes = [66, 99, 116, 115, 47, 105, 100, 101, 110, 116, 105, 116, 121, 45, 107, 101, 121, 110, 97,
        109, 101, 45, 115, 101, 101, 100, 45, 118, 49, 98, 111, 98, 74, 48, 48, 48, 48, 48, 48,
        56, 55, 48, 48, 48, 48, 48, 48, 48, 48, 48, 48, 48, 48, 48, 48, 48, 48, 50, 48, 48, 48,
        48, 48, 48]\<rparr>\<rparr>"
  by code_simp

definition ta_carol_cid :: cid where
  "ta_carol_cid = attest_cid trust_crypto ta_carol"

lemma ta_carol_cid_eq [code]:
  "ta_carol_cid = ''trust:1220d930000000000000000132730000000000000002000000000000000078000000''"
  by code_simp

definition ta_dave_cid :: cid where
  "ta_dave_cid = attest_cid trust_crypto ta_dave"

lemma ta_dave_cid_eq [code]:
  "ta_dave_cid = ''trust:12208e30000000000000000133730000000000000002000000000000000078000000''"
  by code_simp

definition ta_base :: trust_store where
  "ta_base = ta_run trust_crypto (trust_store_new ''owner'') [IssueOp ta_bob]"

lemma ta_base_eq [code]:
  "ta_base = (trust_store_new ''owner'')\<lparr>ts_attests := btree_insert ta_bob_cid ta_bob btree_new\<rparr>"
  by code_simp

lemma ta_demo_eq [code]:
  "ta_demo = ta_base\<lparr>ts_attests := btree_insert ta_dave_cid ta_dave
     (btree_insert ta_carol_cid ta_carol (ts_attests ta_base))\<rparr>"
  by code_simp

lemma ta_base_facts:
  "btree_get (ts_attests ta_base) ta_bob_cid = Some ta_bob"
  "pr_quota (at_predicate ta_bob) = Some 10"
  "admitted_amount ta_base ta_bob_cid \<le> 10"
  "fst (store_revoke trust_crypto ta_base ta_revoke_bob) = Inr ()"
  by code_simp+

lemma ta_demo_facts:
  "holds_capacity trust_crypto ta_demo ''carol'' (Role ''op'' ''c'')"
  "verify ta_demo ta_carol_cid =
     Inr \<lparr>tp_chain = [ta_carol_cid, ta_bob_cid],
          tp_sentence = ''bob attests carol may run x as role:op@c (scope s2, epoch 0) <- owner attests bob may run x as role:op@c (scope s1, epoch 0) <- rooted at genesis owner''\<rparr>"
  by code_simp+

section \<open>Witnesses and further properties\<close>

theorem verify_exact_witness:
  "auth_chain ta_demo ta_carol_cid [ta_carol_cid, ta_bob_cid]
   \<and> (\<exists>pre y. auth_path ta_base ''nobody'' pre y \<and> btree_get (ts_attests ta_base) y = None)"
proof
  let ?p = "\<lparr>tp_chain = [ta_carol_cid, ta_bob_cid],
          tp_sentence = render_sentence [ta_carol_cid, ta_bob_cid] ta_demo\<rparr>"
  have "verify ta_demo ta_carol_cid = Inr ?p" by code_simp
  with verify_exact [of ta_demo ta_carol_cid ?p "Broken ''nobody''"] show
    "auth_chain ta_demo ta_carol_cid [ta_carol_cid, ta_bob_cid]" by simp
  have "verify ta_base ''nobody'' = Inl (Broken ''nobody'')" by code_simp
  with verify_exact [of ta_base "''nobody''" ?p "Broken ''nobody''"] show
    "\<exists>pre y. auth_path ta_base ''nobody'' pre y \<and> btree_get (ts_attests ta_base) y = None" by auto
qed

theorem revocation_fails_closed_witness:
  "fst (admit_quota (ta_run trust_crypto (snd (store_revoke trust_crypto ta_base ta_revoke_bob))
     [IssueOp ta_bob, AdmitOp ta_bob_cid 1]) (rv_target ta_revoke_bob) 1) \<noteq> Inr ()"
  using revocation_fails_closed [OF ta_base_facts(4)] by blast

theorem role_capacity_rooted_witness:
  "\<exists>b. IssueOp b \<in> set ta_demo_ops \<and> at_issuer b = ''owner'' \<and> at_capacity b = Role ''op'' ''c''
     \<and> verifies_as trust_crypto (at_sig b) ''owner'' (attest_signed_message trust_crypto b)"
  using role_capacity_rooted [OF ta_demo_def, of "''carol''" "''op''" "''c''"] ta_demo_facts(1)
  by simp

definition ta_admissions :: "ta_op list" where
  "ta_admissions = [AdmitOp ta_bob_cid 6, AdmitOp ta_bob_cid 6, AdmitOp ta_bob_cid 4]"

theorem quota_budget_respected_witness:
  "unat (admitted_amount ta_base ta_bob_cid) + admitted_total trust_crypto ta_base ta_bob_cid ta_admissions
     \<le> unat (10 :: u64)"
proof -
  have "quota_call trust_crypto ta_bob_cid 10 x" if "x \<in> set ta_admissions" for x
    using that by (auto simp: ta_admissions_def)
  from quota_budget_respected [OF ta_base_facts(1-3) this] show ?thesis by blast
qed

definition attest_message :: "attest \<Rightarrow> bytes" where
  "attest_message a = as_bytes ''pillar-trust-artifact-v1'' @ frame_strings (attest_parts a)"

lemma op_id_to_hex_inject [simp]: "op_id_to_hex a = op_id_to_hex b \<longleftrightarrow> a = b"
  by (metis from_hex_loop_to_hex option.inject)

lemma attest_cid_message: "attest_cid c a = ''trust:'' @ op_id_to_hex (content_address (c_sha c) (attest_message a))"
  by (simp add: attest_cid_def trust_content_address_def attest_message_def)

lemma quota_part_inject:
  "(case q of None \<Rightarrow> '''' | Some v \<Rightarrow> dec_string (unat (v :: u64)))
     = (case r of None \<Rightarrow> '''' | Some v \<Rightarrow> dec_string (unat v)) \<longleftrightarrow> q = r"
  by (cases q; cases r) (auto simp: word_unat_eq_iff eq_commute [of "[]"])

text \<open>
  A content address commits to what it authorizes: when the hash does not collide on
  the two encodings, attestations with one address agree on issuer, subject, predicate with its
  quota, scope and epoch, on the rendering of the capacity, and on the authority pointer (no
  pointer and the empty one being the same).
\<close>

theorem attest_cid_commits:
  assumes "inj_on (c_sha c) {attest_message a, attest_message b}"
    and "\<And>p. p \<in> set (attest_parts a @ attest_parts b) \<Longrightarrow> length p < 2 ^ 64"
    and "attest_cid c a = attest_cid c b"
  shows "at_issuer a = at_issuer b \<and> at_subject a = at_subject b
    \<and> at_predicate a = at_predicate b \<and> at_scope a = at_scope b \<and> at_epoch a = at_epoch b
    \<and> capacity_tag (at_capacity a) = capacity_tag (at_capacity b)
    \<and> (case at_authority a of None \<Rightarrow> '''' | Some k \<Rightarrow> k)
      = (case at_authority b of None \<Rightarrow> '''' | Some k \<Rightarrow> k)"
proof -
  have "c_sha c (attest_message a) = c_sha c (attest_message b)"
    using assms(3) by (simp add: attest_cid_message content_address_def)
  then have "attest_message a = attest_message b" by (rule inj_onD [OF assms(1)]) simp_all
  then have "frame_strings (attest_parts a) = frame_strings (attest_parts b)"
    by (simp add: attest_message_def)
  moreover have "length (attest_parts a) = length (attest_parts b)" by (simp add: attest_parts_def)
  ultimately have parts: "attest_parts a = attest_parts b"
    using frame_strings_inject assms(2) by blast
  have q: "pr_quota (at_predicate a) = pr_quota (at_predicate b)"
    using parts quota_part_inject [of "pr_quota (at_predicate a)" "pr_quota (at_predicate b)"]
    by (simp add: attest_parts_def)
  have eqs: "at_issuer a = at_issuer b" "at_subject a = at_subject b" "at_scope a = at_scope b"
    "pr_action (at_predicate a) = pr_action (at_predicate b)"
    "pr_resource (at_predicate a) = pr_resource (at_predicate b)"
    "unat (at_epoch a) = unat (at_epoch b)"
    "capacity_tag (at_capacity a) = capacity_tag (at_capacity b)"
    "(case at_authority a of None \<Rightarrow> '''' | Some k \<Rightarrow> k)
      = (case at_authority b of None \<Rightarrow> '''' | Some k \<Rightarrow> k)"
    using parts by (simp_all add: attest_parts_def)
  have "at_predicate a = at_predicate b" by (rule ta_predicate.equality) (simp_all add: eqs q)
  moreover have "at_epoch a = at_epoch b" using eqs(6) by (simp only: word_unat_eq_iff)
  ultimately show ?thesis using eqs by blast
qed

theorem attest_cid_commits_witness:
  "at_subject ta_bob = at_subject (ta_attest ''owner'' (Role ''op'' ''c'') None ''bob'' (Some 10) ''s1'' 0)"
proof -
  have "\<forall>p\<in>set (attest_parts ta_bob). int_length p < 100" by code_simp
  then have "\<And>p. p \<in> set (attest_parts ta_bob @ attest_parts ta_bob) \<Longrightarrow> length p < 2 ^ 64"
    by (force simp: int_length_eq)
  from attest_cid_commits [OF _ this, of trust_crypto] show ?thesis by (simp add: ta_bob_def)
qed

text \<open>
  The address does not separate every pair of attestations: a role and a scope are joined by an
  at sign, so two different capacities have one rendering and one address.
\<close>

theorem attest_cid_ambiguous:
  "\<exists>a b. at_capacity a \<noteq> at_capacity b \<and> attest_cid c a = attest_cid c b"
proof (intro exI conjI)
  let ?a = "ta_bob\<lparr>at_capacity := Role ''a@b'' ''c''\<rparr>"
  let ?b = "ta_bob\<lparr>at_capacity := Role ''a'' ''b@c''\<rparr>"
  show "at_capacity ?a \<noteq> at_capacity ?b" by simp
  show "attest_cid c ?a = attest_cid c ?b" by (simp add: attest_cid_def attest_parts_def)
qed

text \<open>
  Without overflow checks an amount near \<open>2^64\<close> is admitted against a budget of ten and
  lowers the recorded total.
\<close>

theorem quota_overflow_admitted:
  "fst (admit_quota (ta_exec trust_crypto ta_base (AdmitOp ta_bob_cid 5)) ta_bob_cid (- 1)) = Inr ()
   \<and> admitted_amount (ta_run trust_crypto ta_base [AdmitOp ta_bob_cid 5, AdmitOp ta_bob_cid (- 1)])
       ta_bob_cid = 4"
  by code_simp

text \<open>
  Revocation does not check the signer: \<open>mallory\<close>, who issued nothing and is the subject of
  nothing, revokes the grant of \<open>owner\<close> to \<open>bob\<close>. And a delegate whose attestation
  names no authority (\<open>issue_attest\<close> never looks at that field) outlives the revocation of
  its issuer's grant.
\<close>

theorem delegate_survives_revocation:
  "fst (store_revoke trust_crypto ta_demo ta_revoke_bob) = Inr ()
   \<and> tsig_signer (rv_sig ta_revoke_bob) = ''mallory''
   \<and> \<not> holds_capacity trust_crypto (snd (store_revoke trust_crypto ta_demo ta_revoke_bob)) ''bob'' (Role ''op'' ''c'')
   \<and> holds_capacity trust_crypto (snd (store_revoke trust_crypto ta_demo ta_revoke_bob)) ''dave'' (Role ''op'' ''c'')"
  by code_simp

end
