(* ===== verification/Topology.thy ===== *)
theory Topology
  imports TrustArtifacts
begin

text \<open>
  \<^verbatim>\<open>crates/pillar-topology/src/lib.rs\<close>: the configured tier hierarchy, declared and
  attested labels, and the placement decisions derived from them. The two registries are hash maps
  in the source; only \<open>mismatches\<close> lists one, and it sorts the result by node and tier.
\<close>

section \<open>Labels and the hierarchy\<close>

definition attest_action :: string where
  "attest_action = ''topology:label''"

record label =
  lb_tier :: string
  lb_value :: string

definition label_resource :: "label \<Rightarrow> string" where
  "label_resource l = lb_tier l @ ''='' @ lb_value l"

definition label_from_resource :: "string \<Rightarrow> label option" where
  "label_from_resource resource =
     (case split_once CHR ''='' resource of
        None \<Rightarrow> None
      | Some (tier, v) \<Rightarrow> (if tier = [] \<or> v = [] then None else Some \<lparr>lb_tier = tier, lb_value = v\<rparr>))"

record tier_hierarchy =
  th_tiers :: "string list"

datatype tier_error =
    UnknownTier string
  | DuplicateTier string
  | NotAPermutation

definition hierarchy_default :: tier_hierarchy where
  "hierarchy_default =
     \<lparr>th_tiers = [''region'', ''zone'', ''site'', ''room'', ''cage'', ''rack'', ''chassis'', ''node'']\<rparr>"

definition hierarchy_from_order :: "string list \<Rightarrow> tier_hierarchy option" where
  "hierarchy_from_order tiers =
     (if list_ex (\<lambda>t. t = []) tiers then None
      else if \<not> distinct tiers then None
      else if tiers = [] then None
      else Some \<lparr>th_tiers = tiers\<rparr>)"

text \<open>\<open>None\<close> is the panic on an empty hierarchy, which no constructor builds.\<close>

definition hierarchy_leaf :: "tier_hierarchy \<Rightarrow> string option" where
  "hierarchy_leaf h = (if th_tiers h = [] then None else Some (last (th_tiers h)))"

definition tier_rank :: "tier_hierarchy \<Rightarrow> string \<Rightarrow> nat option" where
  "tier_rank h t = position t (th_tiers h)"

definition nests :: "tier_hierarchy \<Rightarrow> string \<Rightarrow> string \<Rightarrow> bool" where
  "nests h coarser finer =
     (case (tier_rank h coarser, tier_rank h finer) of
        (Some a, Some b) \<Rightarrow> a < b
      | _ \<Rightarrow> False)"

definition reorder :: "tier_hierarchy \<Rightarrow> string list \<Rightarrow> tier_error + tier_hierarchy" where
  "reorder h new_order =
     (if length new_order \<noteq> length (th_tiers h)
         \<or> bset_collect (th_tiers h) \<noteq> bset_collect new_order
      then Inl NotAPermutation else Inr (h\<lparr>th_tiers := new_order\<rparr>))"

definition insert_after :: "tier_hierarchy \<Rightarrow> string \<Rightarrow> string \<Rightarrow> tier_error + tier_hierarchy" where
  "insert_after h after tier =
     (if list_ex (\<lambda>t. t = tier) (th_tiers h) then Inl (DuplicateTier tier)
      else case tier_rank h after of
             None \<Rightarrow> Inl (UnknownTier after)
           | Some i \<Rightarrow>
               Inr (h\<lparr>th_tiers := take (i + 1) (th_tiers h) @ tier # drop (i + 1) (th_tiers h)\<rparr>))"

section \<open>Assignments and placements\<close>

datatype assignment = Declared node_id "label list" | Attested attest cid

text \<open>\<open>None\<close> is the panic of a signing \<open>expect\<close>.\<close>

definition assignment_attested ::
  "crypto \<Rightarrow> node_id \<Rightarrow> node_id \<Rightarrow> label \<Rightarrow> capacity \<Rightarrow> cid option \<Rightarrow> string \<Rightarrow> u64 \<Rightarrow> assignment option" where
  "assignment_attested c authority n l cap proof_cid scope ep =
     (case sign_as c [] [] of
        None \<Rightarrow> None
      | Some placeholder \<Rightarrow>
          (case signed_by_issuer c
             \<lparr>at_issuer = authority, at_capacity = cap, at_authority = proof_cid, at_subject = n,
              at_predicate = predicate_new attest_action (label_resource l), at_scope = scope,
              at_epoch = ep, at_sig = placeholder\<rparr> of
             None \<Rightarrow> None
           | Some a \<Rightarrow> Some (Attested a (attest_cid c a))))"

fun assignment_node :: "assignment \<Rightarrow> node_id" where
  "assignment_node (Declared n _) = n"
| "assignment_node (Attested a _) = at_subject a"

record placement =
  pl_labels :: "(string, string) btree_map"

definition placement_at :: "placement \<Rightarrow> string \<Rightarrow> string option" where
  "placement_at p tier = btree_get (pl_labels p) tier"

definition placement_path :: "placement \<Rightarrow> tier_hierarchy \<Rightarrow> label list" where
  "placement_path p h =
     List.map_filter
       (\<lambda>t. map_option (\<lambda>v. \<lparr>lb_tier = t, lb_value = v\<rparr>) (placement_at p t)) (th_tiers h)"

record mismatch =
  mm_node :: node_id
  mm_tier :: string
  mm_declared :: string
  mm_attested :: string

record placement_policy =
  pp_spread_tier :: "string option"
  pp_anti_affinity_tier :: "string option"
  pp_quorum_tier :: "string option"

definition placement_policy_new :: placement_policy where
  "placement_policy_new =
     \<lparr>pp_spread_tier = None, pp_anti_affinity_tier = None, pp_quorum_tier = None\<rparr>"

definition spread_across :: "placement_policy \<Rightarrow> string \<Rightarrow> placement_policy" where
  "spread_across p tier = p\<lparr>pp_spread_tier := Some tier\<rparr>"

definition anti_affinity :: "placement_policy \<Rightarrow> string \<Rightarrow> placement_policy" where
  "anti_affinity p tier = p\<lparr>pp_anti_affinity_tier := Some tier\<rparr>"

definition quorum_over :: "placement_policy \<Rightarrow> string \<Rightarrow> placement_policy" where
  "quorum_over p tier = p\<lparr>pp_quorum_tier := Some tier\<rparr>"

datatype placement_error =
    PlacementUnknownTier string
  | InsufficientDomains string nat nat

datatype topology_error =
    NotAttested
  | WrongAction string
  | MalformedLabel string
  | TopologyUnknownTier string
  | UnverifiedAttestation cid

section \<open>The registry\<close>

type_synonym label_map = "(string, string) btree_map"

record topology =
  to_hierarchy :: tier_hierarchy
  to_declared :: "(node_id, label_map) btree_map"
  to_attested :: "(node_id, label_map) btree_map"

definition topology_new :: "tier_hierarchy \<Rightarrow> topology" where
  "topology_new h = \<lparr>to_hierarchy = h, to_declared = btree_new, to_attested = btree_new\<rparr>"

definition labels_of :: "(node_id, label_map) btree_map \<Rightarrow> node_id \<Rightarrow> label_map" where
  "labels_of m n = (case btree_get m n of None \<Rightarrow> btree_new | Some ls \<Rightarrow> ls)"

definition topology_declare :: "topology \<Rightarrow> node_id \<Rightarrow> label list \<Rightarrow> topology" where
  "topology_declare t n labels =
     t\<lparr>to_declared := btree_insert n
         (fold (\<lambda>l m. if tier_rank (to_hierarchy t) (lb_tier l) \<noteq> None
                      then btree_insert (lb_tier l) (lb_value l) m else m)
            labels (labels_of (to_declared t) n)) (to_declared t)\<rparr>"

definition topology_attest :: "topology \<Rightarrow> assignment \<Rightarrow> trust_store \<Rightarrow> topology_error + topology" where
  "topology_attest t asg store =
     (case asg of
        Declared _ _ \<Rightarrow> Inl NotAttested
      | Attested a k \<Rightarrow>
          if pr_action (at_predicate a) \<noteq> attest_action
          then Inl (WrongAction (pr_action (at_predicate a)))
          else case label_from_resource (pr_resource (at_predicate a)) of
                 None \<Rightarrow> Inl (MalformedLabel (pr_resource (at_predicate a)))
               | Some l \<Rightarrow>
                   if tier_rank (to_hierarchy t) (lb_tier l) = None
                   then Inl (TopologyUnknownTier (lb_tier l))
                   else case verify store k of
                          Inl _ \<Rightarrow> Inl (UnverifiedAttestation k)
                        | Inr _ \<Rightarrow>
                            Inr (t\<lparr>to_attested := btree_insert (at_subject a)
                              (btree_insert (lb_tier l) (lb_value l) (labels_of (to_attested t) (at_subject a)))
                              (to_attested t)\<rparr>))"

fun verify_attested :: "topology \<Rightarrow> assignment \<Rightarrow> trust_store \<Rightarrow> bool" where
  "verify_attested t (Attested a k) store = verify_ok store k"
| "verify_attested t (Declared _ _) store = False"

definition topology_placement :: "topology \<Rightarrow> node_id \<Rightarrow> placement" where
  "topology_placement t n =
     (let declared = (case btree_get (to_declared t) n of None \<Rightarrow> [] | Some d \<Rightarrow> btree_iter d);
          attested = (case btree_get (to_attested t) n of None \<Rightarrow> [] | Some a \<Rightarrow> btree_iter a);
          labels = fold (\<lambda>(k, v). btree_insert k v) declared btree_new
      in \<lparr>pl_labels = fold (\<lambda>(k, v). btree_insert k v) attested labels\<rparr>)"

definition attested_placement :: "topology \<Rightarrow> node_id \<Rightarrow> placement" where
  "attested_placement t n = \<lparr>pl_labels = labels_of (to_attested t) n\<rparr>"

definition node_mismatches :: "topology \<Rightarrow> node_id \<times> label_map \<Rightarrow> mismatch list" where
  "node_mismatches t = (\<lambda>(n, declared).
     case btree_get (to_attested t) n of
       None \<Rightarrow> []
     | Some attested \<Rightarrow>
         List.map_filter (\<lambda>(tier, dval).
           case btree_get attested tier of
             None \<Rightarrow> None
           | Some aval \<Rightarrow>
               if aval \<noteq> dval
               then Some \<lparr>mm_node = n, mm_tier = tier, mm_declared = dval, mm_attested = aval\<rparr>
               else None) (btree_iter declared))"

definition mismatches :: "topology \<Rightarrow> mismatch list" where
  "mismatches t =
     sort_key (\<lambda>m. (mm_node m, mm_tier m))
       (concat (map (node_mismatches t) (btree_iter (to_declared t))))"

abbreviation domain_of :: "topology \<Rightarrow> string \<Rightarrow> node_id \<Rightarrow> string option" where
  "domain_of t tier n \<equiv> placement_at (topology_placement t n) tier"

definition domains_at :: "topology \<Rightarrow> string \<Rightarrow> node_id list \<Rightarrow> string btree_set" where
  "domains_at t tier nodes =
     (if tier_rank (to_hierarchy t) tier = None then btree_new
      else bset_collect (List.map_filter (domain_of t tier) nodes))"

text \<open>The loop of \<open>spread\<close>: \<open>Inr\<close> is its early return, \<open>Inl\<close> its end.\<close>

fun spread_loop ::
  "topology \<Rightarrow> string \<Rightarrow> nat \<Rightarrow> node_id list \<Rightarrow> string btree_set \<Rightarrow> node_id list
     \<Rightarrow> (string btree_set \<times> node_id list) + node_id list" where
  "spread_loop t tier replicas [] used chosen = Inl (used, chosen)"
| "spread_loop t tier replicas (n # ns) used chosen =
     (case domain_of t tier n of
        None \<Rightarrow> spread_loop t tier replicas ns used chosen
      | Some d \<Rightarrow>
          if \<not> bset_contains used d
          then if length (chosen @ [n]) = replicas then Inr (chosen @ [n])
               else spread_loop t tier replicas ns (bset_insert d used) (chosen @ [n])
          else spread_loop t tier replicas ns used chosen)"

definition spread :: "topology \<Rightarrow> node_id list \<Rightarrow> nat \<Rightarrow> string \<Rightarrow> placement_error + node_id list" where
  "spread t candidates replicas tier =
     (if tier_rank (to_hierarchy t) tier = None then Inl (PlacementUnknownTier tier)
      else case spread_loop t tier replicas candidates btree_new [] of
             Inr chosen \<Rightarrow> Inr chosen
           | Inl (used, chosen) \<Rightarrow>
               if length chosen < replicas
               then Inl (InsufficientDomains tier (btree_len used) replicas)
               else Inr chosen)"

definition quorum_is_safe :: "topology \<Rightarrow> node_id list \<Rightarrow> string \<Rightarrow> bool" where
  "quorum_is_safe t members tier =
     (if tier_rank (to_hierarchy t) tier = None then False
      else list_all (\<lambda>n. domain_of t tier n \<noteq> None) members
           \<and> btree_len (domains_at t tier members) \<ge> 2)"

definition rollup_add :: "topology \<Rightarrow> string \<Rightarrow> node_id \<times> u64 \<Rightarrow> (string, u64) btree_map \<Rightarrow> (string, u64) btree_map" where
  "rollup_add t tier = (\<lambda>(n, v) out.
     let d = (case domain_of t tier n of None \<Rightarrow> [] | Some d \<Rightarrow> d);
         old = (case btree_get out d of None \<Rightarrow> 0 | Some x \<Rightarrow> x)
     in btree_insert d (old + v) out)"

definition rollup :: "topology \<Rightarrow> string \<Rightarrow> (node_id \<times> u64) list \<Rightarrow> (string, u64) btree_map" where
  "rollup t tier vs =
     (if tier_rank (to_hierarchy t) tier = None then btree_new
      else fold (rollup_add t tier) vs btree_new)"

section \<open>Facts\<close>

lemma map_of_btree_iter [simp]: "map_of (btree_iter m) = btree_get m"
  by (rule ext) (simp add: btree_get_def)

lemma btree_get_fold_iter:
  "btree_get (fold (\<lambda>(k, v). btree_insert k v) (btree_iter m) b) k =
     (case btree_get m k of Some v \<Rightarrow> Some v | None \<Rightarrow> btree_get b k)"
proof -
  have "map_of (rev (btree_iter m)) = map_of (btree_iter m)"
    by (subst map_of_inject_set) (simp_all add: distinct_fst_btree_iter flip: rev_map)
  then show ?thesis by (simp add: btree_get_fold_insert map_add_def split: option.splits)
qed

lemma domain_of_eq:
  "domain_of t tier n =
     (case btree_get (labels_of (to_attested t) n) tier of
        Some v \<Rightarrow> Some v | None \<Rightarrow> btree_get (labels_of (to_declared t) n) tier)"
proof -
  have iter: "(case btree_get m n of None \<Rightarrow> [] | Some d \<Rightarrow> btree_iter d) = btree_iter (labels_of m n)"
    for m :: "(node_id, label_map) btree_map"
    by (simp add: labels_of_def split: option.splits) (simp add: btree_new.rep_eq)
  show ?thesis
    by (simp add: topology_placement_def placement_at_def Let_def iter btree_get_fold_iter)
      (simp add: btree_get_fold_iter split: option.splits)
qed

text \<open>A hierarchy as every constructor and edit leaves it.\<close>

definition hierarchy_wf :: "tier_hierarchy \<Rightarrow> bool" where
  "hierarchy_wf h \<longleftrightarrow> th_tiers h \<noteq> [] \<and> distinct (th_tiers h)"

lemma nests_iff:
  assumes "distinct (th_tiers h)"
  shows "nests h a b \<longleftrightarrow> (\<exists>i j. i < j \<and> j < length (th_tiers h) \<and> th_tiers h ! i = a \<and> th_tiers h ! j = b)"
proof -
  have "nests h a b \<longleftrightarrow> (\<exists>i j. position a (th_tiers h) = Some i \<and> position b (th_tiers h) = Some j \<and> i < j)"
    by (auto simp: nests_def tier_rank_def split: option.splits)
  also have "\<dots> \<longleftrightarrow> (\<exists>i j. i < j \<and> j < length (th_tiers h) \<and> th_tiers h ! i = a \<and> th_tiers h ! j = b)"
    unfolding position_distinct [OF assms] by (auto intro: less_trans)
  finally show ?thesis .
qed

lemma reorder_Inr:
  assumes "hierarchy_wf h"
  shows "reorder h ts = Inr h' \<longleftrightarrow> mset ts = mset (th_tiers h) \<and> h' = h\<lparr>th_tiers := ts\<rparr>"
proof -
  have "bset_collect (th_tiers h) = bset_collect ts \<longleftrightarrow> set (th_tiers h) = set ts"
    by (metis bset_elems_collect bset_elems_eqD)
  moreover have "length ts = length (th_tiers h) \<and> set (th_tiers h) = set ts
      \<longleftrightarrow> mset ts = mset (th_tiers h)"
  proof
    assume eq: "length ts = length (th_tiers h) \<and> set (th_tiers h) = set ts"
    then have "distinct ts"
      using assms by (metis card_distinct distinct_card hierarchy_wf_def)
    with eq assms show "mset ts = mset (th_tiers h)"
      by (metis hierarchy_wf_def set_eq_iff_mset_eq_distinct)
  next
    assume "mset ts = mset (th_tiers h)"
    then show "length ts = length (th_tiers h) \<and> set (th_tiers h) = set ts"
      by (metis mset_eq_length mset_eq_setD)
  qed
  ultimately show ?thesis by (auto simp: reorder_def)
qed

lemma position_insert:
  assumes "x \<in> set (us @ vs)" "t \<notin> set (us @ vs)"
  shows "position x (us @ t # vs) =
    map_option (\<lambda>k. if k < length us then k else Suc k) (position x (us @ vs))"
proof -
  have "t \<noteq> x" using assms by auto
  then show ?thesis
    by (auto simp: position_append option.map_comp comp_def dest: position_less split: option.splits)
qed

lemma insert_after_Inr:
  assumes "insert_after h after t = Inr h'"
  obtains us vs where "th_tiers h = us @ vs" "th_tiers h' = us @ t # vs"
    "tier_rank h after = Some (length us - 1)" "us \<noteq> []" "last us = after" "t \<notin> set (us @ vs)"
proof -
  from assms obtain i where t: "t \<notin> set (th_tiers h)" and i: "position after (th_tiers h) = Some i"
    and h': "h' = h\<lparr>th_tiers := take (i + 1) (th_tiers h) @ t # drop (i + 1) (th_tiers h)\<rparr>"
    by (auto simp: insert_after_def tier_rank_def list_ex_iff split: if_splits option.splits)
  from i have len: "i < length (th_tiers h)" "th_tiers h ! i = after" by (simp_all add: position_Some)
  show thesis
  proof (rule that [of "take (i + 1) (th_tiers h)" "drop (i + 1) (th_tiers h)"])
    show "last (take (i + 1) (th_tiers h)) = after"
      using len by (simp add: take_Suc_conv_app_nth)
  qed (use t i len h' in \<open>auto simp: tier_rank_def min_def\<close>)
qed

lemma insert_after_nests:
  assumes ins: "insert_after h after t = Inr h'" and ab: "a \<in> set (th_tiers h)" "b \<in> set (th_tiers h)"
  shows "nests h' a b \<longleftrightarrow> nests h a b"
proof -
  from ins obtain us vs where u: "th_tiers h = us @ vs" "th_tiers h' = us @ t # vs" "t \<notin> set (us @ vs)"
    by (rule insert_after_Inr)
  obtain i j where "position a (us @ vs) = Some i" "position b (us @ vs) = Some j"
    using ab u(1) by (metis not_None_eq position_None)
  with u ab show ?thesis by (auto simp: nests_def tier_rank_def position_insert)
qed

text \<open>Nodes in pairwise different failure domains.\<close>

definition spread_set :: "topology \<Rightarrow> string \<Rightarrow> node_id list \<Rightarrow> bool" where
  "spread_set t tier ns \<longleftrightarrow> distinct (map (domain_of t tier) ns) \<and> None \<notin> set (map (domain_of t tier) ns)"

definition node_domains :: "topology \<Rightarrow> string \<Rightarrow> node_id list \<Rightarrow> string set" where
  "node_domains t tier ns = {d. \<exists>n\<in>set ns. domain_of t tier n = Some d}"

lemma node_domains_snoc [simp]:
  "node_domains t tier (ns @ [n]) = node_domains t tier ns \<union> node_domains t tier [n]"
  by (auto simp: node_domains_def)

lemma spread_set_snoc:
  "spread_set t tier (ns @ [n]) \<longleftrightarrow>
     spread_set t tier ns \<and> (\<exists>d. domain_of t tier n = Some d \<and> d \<notin> node_domains t tier ns)"
  by (cases "domain_of t tier n") (force simp: spread_set_def node_domains_def image_iff)+

lemma spread_set_labelled:
  assumes "spread_set t tier ns" "n \<in> set ns"
  shows "domain_of t tier n \<noteq> None"
proof
  assume "domain_of t tier n = None"
  with imageI [OF assms(2), of "domain_of t tier"] assms(1) show False
    by (simp add: spread_set_def)
qed

lemma node_domains_finite: "finite (node_domains t tier ns)"
  by (rule finite_subset [of _ "set (List.map_filter (domain_of t tier) ns)"])
    (auto simp: node_domains_def map_filter_iff)

lemma card_spread_set:
  assumes "spread_set t tier ns"
  shows "card (node_domains t tier ns) = length ns"
proof -
  have "Some ` node_domains t tier ns = set (map (domain_of t tier) ns)"
  proof (intro set_eqI iffI)
    fix x assume x: "x \<in> set (map (domain_of t tier) ns)"
    then obtain n where n: "n \<in> set ns" "domain_of t tier n = x" by auto
    from x assms have "x \<noteq> None" by (metis spread_set_def)
    with n show "x \<in> Some ` node_domains t tier ns" by (auto simp: node_domains_def)
  qed (auto simp: node_domains_def image_iff, metis)
  then have "card (node_domains t tier ns) = card (set (map (domain_of t tier) ns))"
    by (metis card_image inj_Some)
  then show ?thesis using assms by (simp add: spread_set_def distinct_card del: set_map)
qed

lemma domains_at_elems:
  "tier_rank (to_hierarchy t) tier \<noteq> None \<Longrightarrow> bset_elems (domains_at t tier ns) = node_domains t tier ns"
  by (auto simp: domains_at_def node_domains_def map_filter_iff)

text \<open>The loop keeps: \<open>used\<close> are the domains of \<open>chosen\<close>, which are spread and too few.\<close>

lemma spread_loop_spec:
  assumes "spread_set t tier chosen" "bset_elems used = node_domains t tier chosen" "length chosen < r"
  shows "case spread_loop t tier r ns used chosen of
      Inr c \<Rightarrow> spread_set t tier c \<and> length c = r \<and> set c \<subseteq> set chosen \<union> set ns
    | Inl (u, c) \<Rightarrow> spread_set t tier c \<and> length c < r \<and> bset_elems u = node_domains t tier c
        \<and> node_domains t tier c = node_domains t tier (chosen @ ns)"
  using assms
proof (induction ns arbitrary: used chosen)
  case Nil
  then show ?case by simp
next
  case (Cons n ns)
  show ?case
  proof (cases "domain_of t tier n")
    case None
    then have "node_domains t tier (chosen @ n # ns) = node_domains t tier (chosen @ ns)"
      by (auto simp: node_domains_def)
    with None Cons.IH [OF Cons.prems] show ?thesis by (auto split: sum.splits)
  next
    case (Some d)
    have dom: "node_domains t tier (chosen @ n # ns) = insert d (node_domains t tier (chosen @ ns))"
      using Some by (auto simp: node_domains_def)
    have new: "node_domains t tier [n] = {d}" using Some by (auto simp: node_domains_def)
    show ?thesis
    proof (cases "bset_contains used d")
      case True
      then have "d \<in> node_domains t tier (chosen @ ns)"
        using Cons.prems(2) bset_elems_iff [of d used] by (auto simp: node_domains_def)
      with True Some dom Cons.IH [OF Cons.prems] show ?thesis by (auto simp: insert_absorb split: sum.splits)
    next
      case False
      then have fresh: "d \<notin> node_domains t tier chosen"
        using Cons.prems(2) bset_elems_iff [of d used] by auto
      have set1: "spread_set t tier (chosen @ [n])"
        using Cons.prems(1) Some fresh by (simp add: spread_set_snoc)
      show ?thesis
      proof (cases "length (chosen @ [n]) = r")
        case True
        with False Some set1 show ?thesis by auto
      next
        case False
        have used1: "bset_elems (bset_insert d used) = node_domains t tier (chosen @ [n])"
          using Cons.prems(2) new by simp
        have len1: "length (chosen @ [n]) < r" using Cons.prems(3) False by simp
        from Cons.IH [OF set1 used1 len1] show ?thesis
          using False Some \<open>\<not> bset_contains used d\<close> dom by (auto split: sum.splits)
      qed
    qed
  qed
qed

lemma spread_cases:
  assumes "tier_rank (to_hierarchy t) tier \<noteq> None" "0 < r"
  shows "case spread t cs r tier of
      Inr c \<Rightarrow> spread_set t tier c \<and> length c = r \<and> set c \<subseteq> set cs
    | Inl e \<Rightarrow> card (node_domains t tier cs) < r
        \<and> e = InsufficientDomains tier (card (node_domains t tier cs)) r"
proof -
  have start: "spread_set t tier []" "bset_elems btree_new = node_domains t tier []"
    by (simp_all add: spread_set_def node_domains_def)
  show ?thesis
  proof (cases "spread_loop t tier r cs btree_new []")
    case (Inr c)
    with spread_loop_spec [OF start, of r cs] assms show ?thesis by (auto simp: spread_def)
  next
    case (Inl x)
    obtain u c where x: "x = (u, c)" by (cases x)
    with Inl spread_loop_spec [OF start, of r cs] assms
    have c: "spread_set t tier c" "length c < r" "bset_elems u = node_domains t tier cs"
      "node_domains t tier c = node_domains t tier cs" by auto
    from card_spread_set [OF c(1)] c(4) have "card (node_domains t tier cs) = length c" by simp
    with Inl x c assms show ?thesis by (auto simp: spread_def btree_len_bset)
  qed
qed

lemma declare_attested [simp]: "to_attested (topology_declare t n ls) = to_attested t"
  by (simp add: topology_declare_def)

lemma declares_attested [simp]:
  "to_attested (foldl (\<lambda>u (n, ls). topology_declare u n ls) t ds) = to_attested t"
  by (induction ds arbitrary: t) auto

lemma topology_attest_Inr:
  "topology_attest t (Attested a k) store = Inr t' \<longleftrightarrow>
     pr_action (at_predicate a) = attest_action
     \<and> (\<exists>l. label_from_resource (pr_resource (at_predicate a)) = Some l
         \<and> tier_rank (to_hierarchy t) (lb_tier l) \<noteq> None \<and> verify_ok store k
         \<and> t' = t\<lparr>to_attested := btree_insert (at_subject a)
              (btree_insert (lb_tier l) (lb_value l) (labels_of (to_attested t) (at_subject a)))
              (to_attested t)\<rparr>)"
  by (auto simp: topology_attest_def verify_ok_def split: if_splits option.splits sum.splits)

lemma labels_of_insert: "labels_of (btree_insert n ls m) n' = (if n' = n then ls else labels_of m n')"
  by (simp add: labels_of_def)

lemma in_node_mismatches:
  "m \<in> set (node_mismatches t (n, ls)) \<longleftrightarrow>
     mm_node m = n \<and> btree_get ls (mm_tier m) = Some (mm_declared m)
     \<and> btree_get (labels_of (to_attested t) n) (mm_tier m) = Some (mm_attested m)
     \<and> mm_attested m \<noteq> mm_declared m"
proof (cases "btree_get (to_attested t) n")
  case None
  then show ?thesis by (simp add: node_mismatches_def labels_of_def)
next
  case (Some at)
  have "m \<in> set (node_mismatches t (n, ls)) \<longleftrightarrow>
      (\<exists>tier dval aval. btree_get ls tier = Some dval \<and> btree_get at tier = Some aval \<and> aval \<noteq> dval
        \<and> m = \<lparr>mm_node = n, mm_tier = tier, mm_declared = dval, mm_attested = aval\<rparr>)"
  proof -
    have "m \<in> set (node_mismatches t (n, ls)) \<longleftrightarrow>
        (\<exists>tier dval. btree_get ls tier = Some dval \<and>
          (case btree_get at tier of
             None \<Rightarrow> None
           | Some aval \<Rightarrow>
               if aval \<noteq> dval
               then Some \<lparr>mm_node = n, mm_tier = tier, mm_declared = dval, mm_attested = aval\<rparr>
               else None) = Some m)"
      by (simp add: node_mismatches_def Some map_filter_iff Bex_def btree_iter_iff)
    moreover have "(case btree_get at tier of
             None \<Rightarrow> None
           | Some aval \<Rightarrow>
               if aval \<noteq> dval
               then Some \<lparr>mm_node = n, mm_tier = tier, mm_declared = dval, mm_attested = aval\<rparr>
               else None) = Some m \<longleftrightarrow>
        (\<exists>aval. btree_get at tier = Some aval \<and> aval \<noteq> dval
          \<and> m = \<lparr>mm_node = n, mm_tier = tier, mm_declared = dval, mm_attested = aval\<rparr>)" for tier dval
      by (cases "btree_get at tier") auto
    ultimately show ?thesis by simp
  qed
  then show ?thesis using Some by (cases m) (auto simp: labels_of_def)
qed

lemma rollup_fold:
  "btree_get (fold (rollup_add t tier) vs out) d =
     (let own = filter (\<lambda>(n, v). (case domain_of t tier n of None \<Rightarrow> [] | Some x \<Rightarrow> x) = d) vs in
      if own = [] then btree_get out d
      else Some ((case btree_get out d of None \<Rightarrow> 0 | Some x \<Rightarrow> x) + sum_list (map snd own)))"
proof (induction vs arbitrary: out)
  case (Cons nv vs)
  obtain n v where nv: "nv = (n, v)" by (cases nv)
  let ?d = "case domain_of t tier n of None \<Rightarrow> [] | Some x \<Rightarrow> x"
  have step: "rollup_add t tier (n, v) out =
      btree_insert ?d ((case btree_get out ?d of None \<Rightarrow> 0 | Some x \<Rightarrow> x) + v) out"
    by (simp add: rollup_add_def Let_def)
  show ?case
    by (simp add: nv step Cons.IH Let_def add.assoc del: option.case_eq_if)
qed simp

section \<open>Properties\<close>

text \<open>
  \<^bold>\<open>C13.\<close> Edits of the tier order are safe: a hierarchy stays non-empty and free of repetitions;
  \<open>reorder\<close> accepts exactly the permutations of the current tiers; \<open>insert_after\<close>
  leaves the nesting of the old tiers as it was, and puts the new tier right below the named one:
  inside it and inside everything that holds it, and around everything the named tier held.
\<close>

theorem tier_edits_preserve_nesting:
  assumes "hierarchy_wf h"
  shows "(reorder h ts = Inr h' \<longleftrightarrow> mset ts = mset (th_tiers h) \<and> h' = h\<lparr>th_tiers := ts\<rparr>)
    \<and> (reorder h ts = Inr h' \<longrightarrow> hierarchy_wf h')
    \<and> (insert_after h after t = Inr h' \<longrightarrow> hierarchy_wf h'
        \<and> (\<forall>a\<in>set (th_tiers h). \<forall>b\<in>set (th_tiers h). nests h' a b \<longleftrightarrow> nests h a b)
        \<and> nests h' after t \<and> (\<forall>b. nests h after b \<longrightarrow> nests h' t b))"
proof (intro conjI impI)
  show re: "reorder h ts = Inr h' \<longleftrightarrow> mset ts = mset (th_tiers h) \<and> h' = h\<lparr>th_tiers := ts\<rparr>"
    by (rule reorder_Inr [OF assms])
  show "hierarchy_wf h'" if r: "reorder h ts = Inr h'"
  proof -
    from r re have "mset ts = mset (th_tiers h)" "th_tiers h' = ts" by auto
    then show ?thesis using assms unfolding hierarchy_wf_def
      by (metis mset_eq_imp_distinct_iff mset.simps(1) mset_zero_iff)
  qed
  assume ins: "insert_after h after t = Inr h'"
  then obtain us vs where u: "th_tiers h = us @ vs" "th_tiers h' = us @ t # vs" "us \<noteq> []"
    "last us = after" "t \<notin> set (us @ vs)" by (rule insert_after_Inr)
  show wf: "hierarchy_wf h'" using assms u by (auto simp: hierarchy_wf_def)
  show "\<forall>a\<in>set (th_tiers h). \<forall>b\<in>set (th_tiers h). nests h' a b \<longleftrightarrow> nests h a b"
    using insert_after_nests [OF ins] by blast
  have split_us: "us = butlast us @ [after]" using u(3,4) by (metis append_butlast_last_id)
  have d: "distinct (th_tiers h)" "distinct (th_tiers h')" using assms wf by (simp_all add: hierarchy_wf_def)
  have at: "position after (us @ zs) = Some (length us - 1)" for zs
  proof -
    have "after \<notin> set (butlast us)" using d(1) u(1) split_us by (metis append_assoc append_Cons distinct_append not_distinct_conv_prefix)
    then have "position after (butlast us @ [after] @ zs) = Some (length (butlast us))"
      by (simp add: position_append position_None split: option.splits) (metis not_None_eq position_None)
    then show ?thesis using split_us by (metis append_assoc length_butlast)
  qed
  have tpos: "position t (us @ t # vs) = Some (length us)"
    using u(5) by (simp add: position_append split: option.splits) (metis not_None_eq position_None)
  show "nests h' after t"
    using u(3) by (simp add: nests_def tier_rank_def u(2) at tpos)
  show "\<forall>b. nests h after b \<longrightarrow> nests h' t b"
  proof (intro allI impI)
    fix b assume nb: "nests h after b"
    then obtain j where j: "position b (us @ vs) = Some j" "length us - 1 < j"
      by (auto simp: nests_def tier_rank_def u(1) at split: option.splits)
    have "b \<in> set (us @ vs)" using j(1) by (metis not_None_eq position_None)
    with j u(3,5) show "nests h' t b"
      by (simp add: nests_def tier_rank_def u(2) tpos position_insert)
  qed
qed

text \<open>
  Spread, for at least one replica over a known tier: it succeeds exactly when the
  candidates cover that many failure domains, with that many candidates in pairwise different
  domains; otherwise the error reports how many domains there are.
\<close>

theorem spread_correct:
  assumes "tier_rank (to_hierarchy t) tier \<noteq> None" "0 < r"
  shows "((\<exists>c. spread t cs r tier = Inr c) \<longleftrightarrow> r \<le> card (node_domains t tier cs))
    \<and> (spread t cs r tier = Inr c \<longrightarrow>
        length c = r \<and> set c \<subseteq> set cs \<and> distinct (map (domain_of t tier) c)
        \<and> (\<forall>n\<in>set c. domain_of t tier n \<noteq> None))
    \<and> (spread t cs r tier = Inl e \<longrightarrow>
        e = InsufficientDomains tier (card (node_domains t tier cs)) r)"
proof (cases "spread t cs r tier")
  case (Inl e')
  with spread_cases [OF assms, of cs] show ?thesis by auto
next
  case (Inr c')
  with spread_cases [OF assms, of cs] have c: "spread_set t tier c'" "length c' = r" "set c' \<subseteq> set cs"
    by auto
  have sub: "node_domains t tier c' \<subseteq> node_domains t tier cs" using c(3) by (auto simp: node_domains_def)
  have "card (node_domains t tier c') \<le> card (node_domains t tier cs)"
    by (rule card_mono [OF node_domains_finite sub])
  then have "r \<le> card (node_domains t tier cs)"
    using card_spread_set [OF c(1)] c(2) by simp
  moreover have "\<forall>n\<in>set c'. domain_of t tier n \<noteq> None"
    using spread_set_labelled [OF c(1)] by blast
  ultimately show ?thesis using c Inr by (auto simp: spread_set_def)
qed

text \<open>
  Quorum safety: a quorum is safe exactly when the tier is known, every member carries
  a label there, and the members do not all sit in one failure domain: whatever domain is lost,
  some member is outside it.
\<close>

theorem quorum_safe_iff_no_single_domain:
  "quorum_is_safe t ms tier \<longleftrightarrow>
     tier_rank (to_hierarchy t) tier \<noteq> None \<and> ms \<noteq> [] \<and> (\<forall>n\<in>set ms. domain_of t tier n \<noteq> None)
     \<and> (\<forall>d. \<exists>n\<in>set ms. domain_of t tier n \<noteq> Some d)"
proof (cases "tier_rank (to_hierarchy t) tier = None \<or> (\<exists>n\<in>set ms. domain_of t tier n = None)")
  case True
  then show ?thesis by (auto simp: quorum_is_safe_def list_all_iff)
next
  case False
  let ?D = "node_domains t tier ms"
  have fin: "finite ?D" by (rule node_domains_finite)
  have "quorum_is_safe t ms tier \<longleftrightarrow> 2 \<le> card ?D"
    using False by (auto simp: quorum_is_safe_def list_all_iff btree_len_bset domains_at_elems)
  also have "\<dots> \<longleftrightarrow> ?D \<noteq> {} \<and> (\<forall>d. ?D \<noteq> {d})"
  proof -
    have "card ?D = 0 \<longleftrightarrow> ?D = {}" using fin by simp
    moreover have "card ?D = 1 \<longleftrightarrow> (\<exists>d. ?D = {d})" by (simp add: card_1_singleton_iff)
    ultimately show ?thesis by (metis One_nat_def Suc_1 Suc_leI le_antisym not_less_eq_eq zero_le less_one not_le)
  qed
  also have "\<dots> \<longleftrightarrow> ms \<noteq> [] \<and> (\<forall>d. \<exists>n\<in>set ms. domain_of t tier n \<noteq> Some d)"
  proof -
    have ne: "?D \<noteq> {} \<longleftrightarrow> ms \<noteq> []" using False by (cases ms) (auto simp: node_domains_def)
    have lab: "\<exists>d\<in>?D. domain_of t tier n = Some d" if "n \<in> set ms" for n
    proof -
      obtain d where "domain_of t tier n = Some d" using False \<open>n \<in> set ms\<close>
        by (cases "domain_of t tier n") auto
      then show ?thesis using \<open>n \<in> set ms\<close> by (auto simp: node_domains_def)
    qed
    have "?D = {d} \<longleftrightarrow> ms \<noteq> [] \<and> (\<forall>n\<in>set ms. domain_of t tier n = Some d)" for d
    proof
      assume "?D = {d}"
      then show "ms \<noteq> [] \<and> (\<forall>n\<in>set ms. domain_of t tier n = Some d)"
        using ne lab by auto
    next
      assume "ms \<noteq> [] \<and> (\<forall>n\<in>set ms. domain_of t tier n = Some d)"
      then show "?D = {d}" by (cases ms) (auto simp: node_domains_def)
    qed
    then show ?thesis using ne by blast
  qed
  finally show ?thesis using False by simp
qed

text \<open>
  Attested labels are authoritative: an accepted attestation carries a verified chain, the
  label action and a known tier, and its label decides the node's placement at that tier whatever
  any node declares afterwards; \<open>mismatches\<close> lists, sorted by node and tier, exactly the
  tiers where a declaration and an attestation differ.
\<close>

theorem attested_labels_authoritative:
  assumes "topology_attest t (Attested a k) store = Inr t'"
  shows "verify_ok store k \<and> pr_action (at_predicate a) = attest_action
    \<and> (\<exists>l. label_from_resource (pr_resource (at_predicate a)) = Some l
        \<and> tier_rank (to_hierarchy t) (lb_tier l) \<noteq> None
        \<and> (\<forall>ds. domain_of (foldl (\<lambda>u (n, ls). topology_declare u n ls) t' ds) (lb_tier l) (at_subject a)
              = Some (lb_value l)))
    \<and> sorted (map (\<lambda>m. (mm_node m, mm_tier m)) (mismatches t'))
    \<and> (\<forall>m. m \<in> set (mismatches t') \<longleftrightarrow>
        btree_get (labels_of (to_declared t') (mm_node m)) (mm_tier m) = Some (mm_declared m)
        \<and> btree_get (labels_of (to_attested t') (mm_node m)) (mm_tier m) = Some (mm_attested m)
        \<and> mm_attested m \<noteq> mm_declared m)"
proof (intro conjI allI)
  from assms show "verify_ok store k" "pr_action (at_predicate a) = attest_action"
    by (auto simp: topology_attest_Inr)
  from assms show "\<exists>l. label_from_resource (pr_resource (at_predicate a)) = Some l
      \<and> tier_rank (to_hierarchy t) (lb_tier l) \<noteq> None
      \<and> (\<forall>ds. domain_of (foldl (\<lambda>u (n, ls). topology_declare u n ls) t' ds) (lb_tier l) (at_subject a)
            = Some (lb_value l))"
    unfolding topology_attest_Inr domain_of_eq by (auto simp: labels_of_insert)
  show "sorted (map (\<lambda>m. (mm_node m, mm_tier m)) (mismatches t'))"
    by (simp add: mismatches_def)
  fix m
  have "m \<in> set (mismatches t') \<longleftrightarrow>
      (\<exists>n ls. btree_get (to_declared t') n = Some ls \<and> m \<in> set (node_mismatches t' (n, ls)))"
    by (simp add: mismatches_def Bex_def btree_iter_iff)
  then show "m \<in> set (mismatches t') \<longleftrightarrow>
        btree_get (labels_of (to_declared t') (mm_node m)) (mm_tier m) = Some (mm_declared m)
        \<and> btree_get (labels_of (to_attested t') (mm_node m)) (mm_tier m) = Some (mm_attested m)
        \<and> mm_attested m \<noteq> mm_declared m"
    by (cases "btree_get (to_declared t') (mm_node m)") (auto simp: in_node_mismatches labels_of_def)
qed

text \<open>
  Every node's value is added to exactly one domain of a rollup, that of its placement (the empty
  one when it has none): a domain's entry is the sum, modulo \<open>2^64\<close>, of the values of its nodes.
\<close>

theorem rollup_exact:
  assumes "tier_rank (to_hierarchy t) tier \<noteq> None"
  shows "btree_get (rollup t tier vs) d =
    (let own = filter (\<lambda>(n, v). (case domain_of t tier n of None \<Rightarrow> [] | Some x \<Rightarrow> x) = d) vs in
     if own = [] then None else Some (sum_list (map snd own)))"
  using assms by (auto simp: rollup_def rollup_fold Let_def)

section \<open>Witnesses\<close>

definition topo_h :: tier_hierarchy where
  "topo_h = \<lparr>th_tiers = [''zone'', ''rack'', ''node'']\<rparr>"

definition topo_demo :: topology where
  "topo_demo = foldl (\<lambda>u (n, ls). topology_declare u n ls) (topology_new topo_h)
     [(''n1'', [\<lparr>lb_tier = ''rack'', lb_value = ''r1''\<rparr>]), (''n2'', [\<lparr>lb_tier = ''rack'', lb_value = ''r1''\<rparr>]),
      (''n3'', [\<lparr>lb_tier = ''rack'', lb_value = ''r2''\<rparr>])]"

theorem tier_edits_preserve_nesting_witness:
  "nests \<lparr>th_tiers = [''zone'', ''rack'', ''pdu'', ''node'']\<rparr> ''rack'' ''pdu''"
proof -
  have "hierarchy_wf topo_h" by (simp add: hierarchy_wf_def topo_h_def)
  moreover have "insert_after topo_h ''rack'' ''pdu'' =
      Inr \<lparr>th_tiers = [''zone'', ''rack'', ''pdu'', ''node'']\<rparr>"
    by (simp add: insert_after_def topo_h_def tier_rank_def)
  ultimately show ?thesis using tier_edits_preserve_nesting by blast
qed

theorem spread_correct_witness:
  "\<exists>c. spread topo_demo [''n1'', ''n2'', ''n3''] 2 ''rack'' = Inr c \<and> length c = 2
     \<and> distinct (map (domain_of topo_demo ''rack'') c)"
proof -
  have "tier_rank (to_hierarchy topo_demo) ''rack'' \<noteq> None" by code_simp
  moreover have "spread topo_demo [''n1'', ''n2'', ''n3''] 2 ''rack'' = Inr [''n1'', ''n3'']" by code_simp
  ultimately show ?thesis
    using spread_correct [of topo_demo "''rack''" 2 "[''n1'', ''n2'', ''n3'']" "[''n1'', ''n3'']"] by auto
qed

text \<open>
  For zero replicas the loop never meets its stopping length and the call returns one node of every
  domain, where the documentation says \<open>up to replicas\<close>.
\<close>

theorem spread_zero_returns_all:
  "spread topo_demo [''n1'', ''n2'', ''n3''] 0 ''rack'' = Inr [''n1'', ''n3'']"
  by code_simp

text \<open>
  \<open>attest\<close> verifies the address carried beside the attestation and never compares the two: an
  attestation with no signature at all is recorded on the strength of the address of another,
  verified one.
\<close>

definition forged_label :: attest where
  "forged_label =
     \<lparr>at_issuer = ''mallory'', at_capacity = SelfCap, at_authority = None, at_subject = ''n1'',
      at_predicate = predicate_new attest_action ''rack=r9'', at_scope = [], at_epoch = 0,
      at_sig = \<lparr>tsig_signer = [], tsig_public = [], tsig_bytes = []\<rparr>\<rparr>"

definition topo_forged :: topology where
  "topo_forged = topo_demo\<lparr>to_attested := btree_insert ''n1''
     (btree_insert ''rack'' ''r9'' btree_new) btree_new\<rparr>"

theorem forged_label_accepted:
  "topology_attest topo_demo (Attested forged_label ta_bob_cid) ta_base = Inr topo_forged
   \<and> domain_of topo_forged ''rack'' ''n1'' = Some ''r9''
   \<and> \<not> verifies_as trust_crypto (at_sig forged_label) (at_issuer forged_label)
        (attest_signed_message trust_crypto forged_label)"
  by (intro conjI; code_simp)

theorem attested_labels_authoritative_witness:
  "\<exists>l. label_from_resource ''rack=r9'' = Some l \<and> lb_value l = ''r9''
     \<and> domain_of (topology_declare topo_forged ''n1'' [\<lparr>lb_tier = ''rack'', lb_value = ''r1''\<rparr>]) (lb_tier l) ''n1''
         = Some (lb_value l)"
proof -
  have ok: "topology_attest topo_demo (Attested forged_label ta_bob_cid) ta_base = Inr topo_forged"
    by code_simp
  from attested_labels_authoritative [OF ok] obtain l where
    l: "label_from_resource ''rack=r9'' = Some l"
      "\<forall>ds. domain_of (foldl (\<lambda>u (n, ls). topology_declare u n ls) topo_forged ds) (lb_tier l) ''n1''
        = Some (lb_value l)"
    by (auto simp: forged_label_def predicate_new_def)
  moreover have "label_from_resource ''rack=r9'' = Some \<lparr>lb_tier = ''rack'', lb_value = ''r9''\<rparr>"
    by (simp add: label_from_resource_def)
  ultimately show ?thesis
    using l(2) [rule_format, of "[(''n1'', [\<lparr>lb_tier = ''rack'', lb_value = ''r1''\<rparr>])]"] by auto
qed

end
