(* ===== verification/Scheduler.thy ===== *)
theory Scheduler
  imports Topology
begin

text \<open>
  \<^verbatim>\<open>crates/pillar-manifest/src/scheduler.rs\<close>: the one scheduler engine, with
  concurrency policies, the backoff budget, the bounded run history and the placement rule of the
  tier hierarchy; first the operations, then the engine as a state machine.
\<close>

section \<open>Jobs and runs\<close>

datatype job_kind = Workload | Observability

datatype concurrency_policy = Allow | Forbid | Replace

datatype run_status = Running | Succeeded | Failed

record job =
  jb_kind :: job_kind
  jb_policy :: concurrency_policy
  jb_required_tier :: string
  jb_max_backoff :: u32
  jb_history_cap :: nat

definition job_new :: "job_kind \<Rightarrow> concurrency_policy \<Rightarrow> string \<Rightarrow> u32 \<Rightarrow> nat \<Rightarrow> job" where
  "job_new kind policy required_tier max_backoff history_cap =
     \<lparr>jb_kind = kind, jb_policy = policy, jb_required_tier = required_tier,
      jb_max_backoff = max_backoff, jb_history_cap = max history_cap 1\<rparr>"

record run =
  rn_job :: string
  rn_kind :: job_kind
  rn_status :: run_status
  rn_tier :: string

datatype fire_error =
    UnknownJob string
  | FireUnknownTier string
  | TierTooBroad string string
  | ForbiddenWhileRunning

datatype fire_outcome = Fired | Skipped

datatype terminate_error =
    TerminateUnknownJob string
  | NoRunning string
  | BackoffExhausted string

record scheduler =
  sc_hierarchy :: tier_hierarchy
  sc_jobs :: "(string, job) btree_map"
  sc_runs :: "run list"
  sc_backoff :: "(string, u32) btree_map"

section \<open>The engine\<close>

definition scheduler_new :: "tier_hierarchy \<Rightarrow> scheduler" where
  "scheduler_new h = \<lparr>sc_hierarchy = h, sc_jobs = btree_new, sc_runs = [], sc_backoff = btree_new\<rparr>"

definition register_job :: "string \<Rightarrow> job \<Rightarrow> scheduler \<Rightarrow> scheduler" where
  "register_job i j s = s\<lparr>sc_backoff := btree_insert i 0 (sc_backoff s), sc_jobs := btree_insert i j (sc_jobs s)\<rparr>"

definition sched_job :: "scheduler \<Rightarrow> string \<Rightarrow> job option" where
  "sched_job s i = btree_get (sc_jobs s) i"

definition unregister_job :: "string \<Rightarrow> scheduler \<Rightarrow> bool \<times> scheduler" where
  "unregister_job i s =
     (btree_contains_key (sc_jobs s) i,
      s\<lparr>sc_backoff := btree_remove i (sc_backoff s), sc_jobs := btree_remove i (sc_jobs s)\<rparr>)"

definition sched_backoff :: "scheduler \<Rightarrow> string \<Rightarrow> u32" where
  "sched_backoff s i = (case btree_get (sc_backoff s) i of None \<Rightarrow> 0 | Some b \<Rightarrow> b)"

definition admissible_tiers :: "scheduler \<Rightarrow> string \<Rightarrow> string list" where
  "admissible_tiers s i =
     (case btree_get (sc_jobs s) i of
        None \<Rightarrow> []
      | Some j \<Rightarrow>
          (case tier_rank (sc_hierarchy s) (jb_required_tier j) of
             None \<Rightarrow> []
           | Some req_rank \<Rightarrow>
               filter (\<lambda>t. case tier_rank (sc_hierarchy s) t of None \<Rightarrow> False | Some r \<Rightarrow> req_rank \<le> r)
                 (th_tiers (sc_hierarchy s))))"

definition is_running :: "string \<Rightarrow> run \<Rightarrow> bool" where
  "is_running i r \<longleftrightarrow> rn_job r = i \<and> rn_status r = Running"

definition is_terminal :: "string \<Rightarrow> run \<Rightarrow> bool" where
  "is_terminal i r \<longleftrightarrow> rn_job r = i \<and> rn_status r \<noteq> Running"

definition has_running :: "scheduler \<Rightarrow> string \<Rightarrow> bool" where
  "has_running s i = list_ex (is_running i) (sc_runs s)"

definition terminal_count :: "scheduler \<Rightarrow> string \<Rightarrow> nat" where
  "terminal_count s i = length (filter (is_terminal i) (sc_runs s))"

definition vec_remove :: "nat \<Rightarrow> 'a list \<Rightarrow> 'a list" where
  "vec_remove i xs = take i xs @ drop (Suc i) xs"

function prune_terminals :: "string \<Rightarrow> nat \<Rightarrow> run list \<Rightarrow> run list" where
  "prune_terminals i cap rs =
     (let terminal = filter (\<lambda>n. is_terminal i (rs ! n)) [0..<length rs]
      in if length terminal \<le> cap then rs
         else prune_terminals i cap (vec_remove (terminal ! 0) rs))"
  by pat_completeness auto
termination
proof (relation "measure (\<lambda>(i, cap, rs). length rs)")
  fix i :: string and cap :: nat and rs :: "run list" and terminal :: "nat list"
  assume t: "terminal = filter (\<lambda>n. is_terminal i (rs ! n)) [0..<length rs]" and more: "\<not> length terminal \<le> cap"
  have "0 < length terminal" using more by linarith
  then have "terminal ! 0 \<in> set terminal" by (rule nth_mem)
  then have "terminal ! 0 < length rs" using t by simp
  then show "((i, cap, vec_remove (terminal ! 0) rs), i, cap, rs) \<in> measure (\<lambda>(i, cap, rs). length rs)"
    by (simp add: vec_remove_def)
qed simp

declare prune_terminals.simps [simp del]

text \<open>The status change of the loop over all runs, and of the oldest one running.\<close>

definition replace_running :: "string \<Rightarrow> run list \<Rightarrow> run list" where
  "replace_running i rs = map (\<lambda>r. if is_running i r then r\<lparr>rn_status := Failed\<rparr> else r) rs"

fun terminate_one_running :: "string \<Rightarrow> run_status \<Rightarrow> run list \<Rightarrow> terminate_error + run list" where
  "terminate_one_running i st [] = Inl (NoRunning i)"
| "terminate_one_running i st (r # rs) =
     (if is_running i r then Inr (r\<lparr>rn_status := st\<rparr> # rs)
      else (case terminate_one_running i st rs of Inl e \<Rightarrow> Inl e | Inr rs' \<Rightarrow> Inr (r # rs')))"

definition fire :: "string \<Rightarrow> string \<Rightarrow> scheduler \<Rightarrow> (fire_error + fire_outcome) \<times> scheduler" where
  "fire i tier s =
     (case btree_get (sc_jobs s) i of
        None \<Rightarrow> (Inl (UnknownJob i), s)
      | Some j \<Rightarrow>
          (case tier_rank (sc_hierarchy s) tier of
             None \<Rightarrow> (Inl (FireUnknownTier tier), s)
           | Some tier_rk \<Rightarrow>
               (case tier_rank (sc_hierarchy s) (jb_required_tier j) of
                  None \<Rightarrow> (Inl (FireUnknownTier (jb_required_tier j)), s)
                | Some req_rk \<Rightarrow>
                    if tier_rk < req_rk then (Inl (TierTooBroad tier (jb_required_tier j)), s)
                    else if jb_policy j = Forbid \<and> has_running s i then (Inr Skipped, s)
                    else
                      let rs = (if jb_policy j = Replace then replace_running i (sc_runs s) else sc_runs s);
                          new = \<lparr>rn_job = i, rn_kind = jb_kind j, rn_status = Running, rn_tier = tier\<rparr>
                      in (Inr Fired, s\<lparr>sc_runs := prune_terminals i (jb_history_cap j) (rs @ [new])\<rparr>))))"

definition succeed :: "string \<Rightarrow> scheduler \<Rightarrow> (terminate_error + unit) \<times> scheduler" where
  "succeed i s =
     (case btree_get (sc_jobs s) i of
        None \<Rightarrow> (Inl (TerminateUnknownJob i), s)
      | Some j \<Rightarrow>
          (case terminate_one_running i Succeeded (sc_runs s) of
             Inl e \<Rightarrow> (Inl e, s)
           | Inr rs \<Rightarrow>
               (Inr (), s\<lparr>sc_backoff := btree_insert i 0 (sc_backoff s),
                           sc_runs := prune_terminals i (jb_history_cap j) rs\<rparr>)))"

definition fail_run :: "string \<Rightarrow> scheduler \<Rightarrow> (terminate_error + unit) \<times> scheduler" where
  "fail_run i s =
     (case btree_get (sc_jobs s) i of
        None \<Rightarrow> (Inl (TerminateUnknownJob i), s)
      | Some j \<Rightarrow>
          if sched_backoff s i \<ge> jb_max_backoff j then (Inl (BackoffExhausted i), s)
          else
            (case terminate_one_running i Failed (sc_runs s) of
               Inl e \<Rightarrow> (Inl e, s)
             | Inr rs \<Rightarrow>
                 (Inr (), s\<lparr>sc_backoff := btree_insert i (sched_backoff s i + 1) (sc_backoff s),
                             sc_runs := prune_terminals i (jb_history_cap j) rs\<rparr>)))"

section \<open>Retention\<close>

lemma filter_indices: "map ((!) xs) (filter (\<lambda>n. P (xs ! n)) [0..<length xs]) = filter P xs"
proof -
  have "filter P (map ((!) xs) [0..<length xs]) = map ((!) xs) (filter (P \<circ> (!) xs) [0..<length xs])"
    by (rule filter_map)
  then show ?thesis by (simp add: map_nth o_def)
qed

lemma length_filter_indices: "length (filter (\<lambda>n. P (xs ! n)) [0..<length xs]) = length (filter P xs)"
  using arg_cong [OF filter_indices [of xs P], of length] by simp

lemma remove_first:
  assumes "filter P xs \<noteq> []"
  obtains as x bs where "xs = as @ x # bs" "filter P as = []" "P x"
    and "vec_remove (filter (\<lambda>n. P (xs ! n)) [0..<length xs] ! 0) xs = as @ bs"
proof -
  from assms have "\<exists>x\<in>set xs. P x" by (auto simp: filter_empty_conv)
  from split_list_first_prop [OF this] obtain as x bs where
    xs: "xs = as @ x # bs" "P x" "\<forall>y\<in>set as. \<not> P y" by blast
  have "filter (\<lambda>n. P (xs ! n)) [0..<length as] = []"
    using xs(3) by (auto simp: filter_empty_conv xs(1) nth_append)
  moreover have "[0..<length xs] = [0..<length as] @ length as # [Suc (length as)..<length xs]"
    by (rule upt_split_at) (simp add: xs(1))
  ultimately have "filter (\<lambda>n. P (xs ! n)) [0..<length xs] ! 0 = length as"
    using xs(2) by (simp add: xs(1) nth_append)
  then show thesis using that xs by (simp add: vec_remove_def filter_empty_conv)
qed

text \<open>
  The loop keeps exactly the newest terminal runs of the job, as many as the cap allows, and every
  other run, in order.
\<close>

lemma prune_terminals_filters:
  "filter (is_terminal i) (prune_terminals i cap rs) =
     drop (length (filter (is_terminal i) rs) - cap) (filter (is_terminal i) rs)"
  "filter (\<lambda>r. \<not> is_terminal i r) (prune_terminals i cap rs) = filter (\<lambda>r. \<not> is_terminal i r) rs"
proof (induction i cap rs rule: prune_terminals.induct)
  case (1 i cap rs)
  let ?idx = "filter (\<lambda>n. is_terminal i (rs ! n)) [0..<length rs]"
  let ?t = "filter (is_terminal i)" and ?o = "filter (\<lambda>r. \<not> is_terminal i r)"
  have "?t (prune_terminals i cap rs) = drop (length (?t rs) - cap) (?t rs) \<and> ?o (prune_terminals i cap rs) = ?o rs"
  proof (cases "length ?idx \<le> cap")
    case True
    then show ?thesis
      by (simp add: prune_terminals.simps [of i cap rs] Let_def length_filter_indices)
  next
    case False
    have more: "cap < length (?t rs)" using False by (simp add: length_filter_indices)
    then have "?t rs \<noteq> []" by auto
    then obtain as x bs where rs: "rs = as @ x # bs" "?t as = []" "is_terminal i x"
      and rem: "vec_remove (?idx ! 0) rs = as @ bs"
      by (rule remove_first)
    have "prune_terminals i cap rs = prune_terminals i cap (as @ bs)"
      using False by (simp add: prune_terminals.simps [of i cap rs] Let_def rem)
    moreover have "?t rs = x # ?t (as @ bs)" "?o rs = ?o (as @ bs)" using rs by simp_all
    moreover have "length (?t rs) - cap = Suc (length (?t (as @ bs)) - cap)"
      using more calculation(2) by simp
    ultimately show ?thesis
      using 1 [OF refl False] rem by simp
  qed
  then show "?t (prune_terminals i cap rs) = drop (length (?t rs) - cap) (?t rs)"
    and "?o (prune_terminals i cap rs) = ?o rs" by simp_all
qed

lemma length_prune_terminals: "length (filter (is_terminal i) (prune_terminals i cap rs)) \<le> cap"
  by (simp add: prune_terminals_filters)

text \<open>Any selection that leaves out the terminal runs of the job is untouched.\<close>

lemma filter_prune_other:
  assumes "\<And>r. Q r \<Longrightarrow> \<not> is_terminal i r"
  shows "filter Q (prune_terminals i cap rs) = filter Q rs"
proof -
  have "filter Q ys = filter Q (filter (\<lambda>r. \<not> is_terminal i r) ys)" for ys
    using assms by (auto intro: filter_cong)
  then show ?thesis by (metis prune_terminals_filters(2))
qed

lemma set_prune_terminals: "set (prune_terminals i cap rs) \<subseteq> set rs"
proof
  fix r assume r: "r \<in> set (prune_terminals i cap rs)"
  show "r \<in> set rs"
  proof (cases "is_terminal i r")
    case True
    then have "r \<in> set (filter (is_terminal i) (prune_terminals i cap rs))" using r by simp
    then show ?thesis unfolding prune_terminals_filters by (auto dest: in_set_dropD)
  next
    case False
    then have "r \<in> set (filter (\<lambda>r. \<not> is_terminal i r) (prune_terminals i cap rs))" using r by simp
    then show ?thesis unfolding prune_terminals_filters by simp
  qed
qed

section \<open>Termination of one run\<close>

lemma terminate_one_Inr:
  assumes "terminate_one_running i st rs = Inr rs'" "st \<noteq> Running"
  shows "length (filter (is_running i) rs) = Suc (length (filter (is_running i) rs'))"
    and "filter (\<lambda>r. rn_job r \<noteq> i) rs' = filter (\<lambda>r. rn_job r \<noteq> i) rs"
    and "map (\<lambda>r. (rn_job r, rn_kind r, rn_tier r)) rs' = map (\<lambda>r. (rn_job r, rn_kind r, rn_tier r)) rs"
  using assms by (induction rs arbitrary: rs') (auto simp: is_running_def split: if_splits sum.splits)

lemma terminate_one_Inl: "terminate_one_running i st rs = Inl e \<longleftrightarrow> \<not> list_ex (is_running i) rs \<and> e = NoRunning i"
  by (induction rs) (auto split: sum.splits)

section \<open>The engine as a state machine\<close>

text \<open>
  The states that the calls of the engine reach. The second argument remembers, for every id, the
  runs on record when it was last registered: a registration may replace a job, and what ran under
  the old definition stays on record.
\<close>

inductive sched_history :: "tier_hierarchy \<Rightarrow> (string \<Rightarrow> run list) \<Rightarrow> scheduler \<Rightarrow> bool" for h where
  init: "sched_history h (\<lambda>_. []) (scheduler_new h)"
| register: "sched_history h old s \<Longrightarrow> sched_history h (old(i := sc_runs s)) (register_job i j s)"
| unregister: "sched_history h old s \<Longrightarrow> sched_history h old (snd (unregister_job i s))"
| fire: "sched_history h old s \<Longrightarrow> sched_history h old (snd (fire i tier s))"
| succeed: "sched_history h old s \<Longrightarrow> sched_history h old (snd (succeed i s))"
| fail: "sched_history h old s \<Longrightarrow> sched_history h old (snd (fail_run i s))"

definition tier_admissible :: "tier_hierarchy \<Rightarrow> job \<Rightarrow> string \<Rightarrow> bool" where
  "tier_admissible h j t \<longleftrightarrow>
     (case (tier_rank h (jb_required_tier j), tier_rank h t) of (Some a, Some b) \<Rightarrow> a \<le> b | _ \<Rightarrow> False)"

text \<open>
  What holds of the runs of one job under its definition, given the runs \<open>old\<close> from before its
  registration.
\<close>

definition run_fits :: "tier_hierarchy \<Rightarrow> string \<Rightarrow> job \<Rightarrow> run list \<Rightarrow> job_kind \<Rightarrow> string \<Rightarrow> bool" where
  "run_fits h i j old kind tier \<longleftrightarrow> kind = jb_kind j \<and> tier_admissible h j tier
     \<or> (\<exists>q\<in>set old. rn_job q = i \<and> rn_kind q = kind \<and> rn_tier q = tier)"

definition job_ok :: "tier_hierarchy \<Rightarrow> string \<Rightarrow> job \<Rightarrow> run list \<Rightarrow> u32 \<Rightarrow> run list \<Rightarrow> bool" where
  "job_ok h i j old backoff rs \<longleftrightarrow>
     length (filter (is_terminal i) rs) \<le> max (jb_history_cap j) (length (filter (is_terminal i) old))
     \<and> (jb_policy j \<noteq> Allow \<longrightarrow>
          length (filter (is_running i) rs) \<le> max 1 (length (filter (is_running i) old)))
     \<and> backoff \<le> jb_max_backoff j
     \<and> list_all (\<lambda>r. rn_job r = i \<longrightarrow> run_fits h i j old (rn_kind r) (rn_tier r)) rs"

definition sched_inv :: "tier_hierarchy \<Rightarrow> (string \<Rightarrow> run list) \<Rightarrow> scheduler \<Rightarrow> bool" where
  "sched_inv h old s \<longleftrightarrow> sc_hierarchy s = h
     \<and> (\<forall>i j. btree_get (sc_jobs s) i = Some j \<longrightarrow> job_ok h i j (old i) (sched_backoff s i) (sc_runs s))"

text \<open>\<open>job_ok\<close> reads only the runs of its job.\<close>

lemma job_ok_cong:
  assumes "filter (\<lambda>r. rn_job r = i) rs = filter (\<lambda>r. rn_job r = i) rs'"
  shows "job_ok h i j old b rs = job_ok h i j old b rs'"
proof -
  have split: "filter (is_terminal i) xs = filter (is_terminal i) (filter (\<lambda>r. rn_job r = i) xs)"
    "filter (is_running i) xs = filter (is_running i) (filter (\<lambda>r. rn_job r = i) xs)"
    "list_all (\<lambda>r. rn_job r = i \<longrightarrow> Q r) xs = list_all Q (filter (\<lambda>r. rn_job r = i) xs)" for xs Q
    by (auto simp: is_terminal_def is_running_def list_all_iff intro!: filter_cong)
  show ?thesis
    unfolding job_ok_def split [where xs = rs] split [where xs = rs'] assms ..
qed

lemma filter_job_of_others:
  assumes "filter (\<lambda>r. rn_job r \<noteq> i) rs = filter (\<lambda>r. rn_job r \<noteq> i) rs'" "k \<noteq> i"
  shows "filter (\<lambda>r. rn_job r = k) rs = filter (\<lambda>r. rn_job r = k) rs'"
proof -
  have "filter (\<lambda>r. rn_job r = k) xs = filter (\<lambda>r. rn_job r = k) (filter (\<lambda>r. rn_job r \<noteq> i) xs)" for xs
    using assms(2) by (auto intro!: filter_cong)
  then show ?thesis using assms(1) by metis
qed

text \<open>A step that touches only one job keeps the invariant if that job stays well.\<close>

lemma sched_inv_one_job:
  assumes "sched_inv h old s" "sc_hierarchy s' = sc_hierarchy s" "sc_jobs s' = sc_jobs s"
    and "\<And>k. k \<noteq> i \<Longrightarrow> sched_backoff s' k = sched_backoff s k"
    and "filter (\<lambda>r. rn_job r \<noteq> i) (sc_runs s') = filter (\<lambda>r. rn_job r \<noteq> i) (sc_runs s)"
    and "\<And>j. btree_get (sc_jobs s) i = Some j \<Longrightarrow> job_ok h i j (old i) (sched_backoff s' i) (sc_runs s')"
  shows "sched_inv h old s'"
  unfolding sched_inv_def
proof (intro conjI allI impI)
  show "sc_hierarchy s' = h" using assms(1,2) by (simp add: sched_inv_def)
  fix k j assume "btree_get (sc_jobs s') k = Some j"
  then have k: "btree_get (sc_jobs s) k = Some j" using assms(3) by simp
  show "job_ok h k j (old k) (sched_backoff s' k) (sc_runs s')"
  proof (cases "k = i")
    case True
    then show ?thesis using assms(6) k by simp
  next
    case False
    have "job_ok h k j (old k) (sched_backoff s k) (sc_runs s)" using assms(1) k by (simp add: sched_inv_def)
    then show ?thesis
      using job_ok_cong [OF filter_job_of_others [OF assms(5) False]] assms(4) [OF False] by simp
  qed
qed

lemma filter_other_prune:
  "filter (\<lambda>r. rn_job r \<noteq> i) (prune_terminals i cap rs) = filter (\<lambda>r. rn_job r \<noteq> i) rs"
  by (rule filter_prune_other) (simp add: is_terminal_def)

lemma filter_running_prune: "filter (is_running i) (prune_terminals i cap rs) = filter (is_running i) rs"
  by (rule filter_prune_other) (simp add: is_terminal_def is_running_def)

text \<open>After pruning, only the running runs and the placements are left to check.\<close>

lemma job_ok_prune:
  assumes "jb_policy j \<noteq> Allow \<Longrightarrow>
      length (filter (is_running i) rs) \<le> max 1 (length (filter (is_running i) old))"
    and "b \<le> jb_max_backoff j"
    and "list_all (\<lambda>r. rn_job r = i \<longrightarrow> run_fits h i j old (rn_kind r) (rn_tier r)) rs"
  shows "job_ok h i j old b (prune_terminals i (jb_history_cap j) rs)"
  using assms set_prune_terminals [of i "jb_history_cap j" rs] length_prune_terminals [of i "jb_history_cap j" rs]
  unfolding job_ok_def filter_running_prune by (auto simp: list_all_iff le_max_iff_disj)

lemma list_all_of_map:
  assumes "map f xs = map f ys" "list_all (\<lambda>x. P (f x)) ys"
  shows "list_all (\<lambda>x. P (f x)) xs"
proof -
  have "list_all P (map f ys)" using assms(2) by (simp add: list_all_iff)
  then show ?thesis unfolding assms(1) [symmetric] by (simp add: list_all_iff)
qed

lemma terminate_keeps_placements:
  assumes "terminate_one_running i st rs = Inr rs'" "st \<noteq> Running"
    and "list_all (\<lambda>r. rn_job r = i \<longrightarrow> P (rn_kind r) (rn_tier r)) rs"
  shows "list_all (\<lambda>r. rn_job r = i \<longrightarrow> P (rn_kind r) (rn_tier r)) rs'"
  using list_all_of_map [OF terminate_one_Inr(3) [OF assms(1,2)],
      where P = "\<lambda>(a, b, c). a = i \<longrightarrow> P b c"] assms(3)
  by simp

lemma sched_inv_terminate:
  assumes "sched_inv h old s" "btree_get (sc_jobs s) i = Some j"
    and t: "terminate_one_running i st (sc_runs s) = Inr rs" "st \<noteq> Running" and "b \<le> jb_max_backoff j"
  shows "sched_inv h old (s\<lparr>sc_backoff := btree_insert i b (sc_backoff s),
    sc_runs := prune_terminals i (jb_history_cap j) rs\<rparr>)"
proof (rule sched_inv_one_job [OF assms(1), where i = i])
  have ok: "job_ok h i j (old i) (sched_backoff s i) (sc_runs s)" using assms(1,2) by (simp add: sched_inv_def)
  have "job_ok h i j (old i) b (prune_terminals i (jb_history_cap j) rs)"
  proof (rule job_ok_prune [OF _ assms(5)])
    show "length (filter (is_running i) rs) \<le> max 1 (length (filter (is_running i) (old i)))" if "jb_policy j \<noteq> Allow"
      using terminate_one_Inr(1) [OF t] ok that by (simp add: job_ok_def)
    show "list_all (\<lambda>r. rn_job r = i \<longrightarrow> run_fits h i j (old i) (rn_kind r) (rn_tier r)) rs"
      using terminate_keeps_placements [OF t] ok by (simp add: job_ok_def)
  qed
  then show "job_ok h i j' (old i) (sched_backoff (s\<lparr>sc_backoff := btree_insert i b (sc_backoff s),
      sc_runs := prune_terminals i (jb_history_cap j) rs\<rparr>) i)
      (sc_runs (s\<lparr>sc_backoff := btree_insert i b (sc_backoff s),
        sc_runs := prune_terminals i (jb_history_cap j) rs\<rparr>))" if "btree_get (sc_jobs s) i = Some j'" for j'
    using that assms(2) by (simp add: sched_backoff_def)
qed (use terminate_one_Inr(2) [OF t] in \<open>simp_all add: filter_other_prune sched_backoff_def\<close>)

lemma replace_running_facts:
  "filter (is_running i) (replace_running i rs) = []"
  "filter (\<lambda>r. rn_job r \<noteq> i) (replace_running i rs) = filter (\<lambda>r. rn_job r \<noteq> i) rs"
  "map (\<lambda>r. (rn_job r, rn_kind r, rn_tier r)) (replace_running i rs) = map (\<lambda>r. (rn_job r, rn_kind r, rn_tier r)) rs"
  by (induction rs) (auto simp: replace_running_def is_running_def)

lemma fire_Fired:
  assumes "fire i tier s = (Inr Fired, s')"
  obtains j where "btree_get (sc_jobs s) i = Some j" "tier_admissible (sc_hierarchy s) j tier"
    and "jb_policy j = Forbid \<longrightarrow> \<not> has_running s i"
    and "s' = s\<lparr>sc_runs := prune_terminals i (jb_history_cap j)
      ((if jb_policy j = Replace then replace_running i (sc_runs s) else sc_runs s)
        @ [\<lparr>rn_job = i, rn_kind = jb_kind j, rn_status = Running, rn_tier = tier\<rparr>])\<rparr>"
  using assms
  by (auto simp: fire_def Let_def tier_admissible_def not_less split: option.splits if_splits)

lemma fire_not_Fired: "fst (fire i tier s) \<noteq> Inr Fired \<Longrightarrow> snd (fire i tier s) = s"
  by (auto simp: fire_def Let_def split: option.splits if_splits)

lemma sched_inv_fire:
  assumes "sched_inv h old s"
  shows "sched_inv h old (snd (fire i tier s))"
proof (cases "fst (fire i tier s) = Inr Fired")
  case True
  then have "fire i tier s = (Inr Fired, snd (fire i tier s))" by (cases "fire i tier s") simp
  then obtain j where j: "btree_get (sc_jobs s) i = Some j" "tier_admissible (sc_hierarchy s) j tier"
    and forbid: "jb_policy j = Forbid \<longrightarrow> \<not> has_running s i"
    and s': "snd (fire i tier s) = s\<lparr>sc_runs := prune_terminals i (jb_history_cap j)
      ((if jb_policy j = Replace then replace_running i (sc_runs s) else sc_runs s)
        @ [\<lparr>rn_job = i, rn_kind = jb_kind j, rn_status = Running, rn_tier = tier\<rparr>])\<rparr>"
    by (rule fire_Fired)
  define rs where "rs = (if jb_policy j = Replace then replace_running i (sc_runs s) else sc_runs s)"
  define new where "new = \<lparr>rn_job = i, rn_kind = jb_kind j, rn_status = Running, rn_tier = tier\<rparr>"
  have ok: "job_ok h i j (old i) (sched_backoff s i) (sc_runs s)" and h: "sc_hierarchy s = h"
    using assms j(1) by (simp_all add: sched_inv_def)
  have others: "filter (\<lambda>r. rn_job r \<noteq> i) rs = filter (\<lambda>r. rn_job r \<noteq> i) (sc_runs s)"
    by (simp add: rs_def replace_running_facts)
  have running: "filter (is_running i) rs = []" if "jb_policy j \<noteq> Allow"
  proof (cases "jb_policy j = Replace")
    case False
    then have "jb_policy j = Forbid" using that by (cases "jb_policy j") simp_all
    then show ?thesis
      using forbid by (simp add: rs_def has_running_def list_ex_iff filter_empty_conv)
  qed (simp add: rs_def replace_running_facts)
  have placements: "list_all (\<lambda>r. rn_job r = i \<longrightarrow> run_fits h i j (old i) (rn_kind r) (rn_tier r)) rs"
    using ok list_all_of_map [OF replace_running_facts(3) [of i "sc_runs s"],
        where P = "\<lambda>(a, b, c). a = i \<longrightarrow> run_fits h i j (old i) b c"]
    by (simp add: rs_def job_ok_def)
  have step: "sched_inv h old (s\<lparr>sc_runs := prune_terminals i (jb_history_cap j) (rs @ [new])\<rparr>)"
  proof (rule sched_inv_one_job [OF assms, where i = i])
    fix j' assume "btree_get (sc_jobs s) i = Some j'"
    then have "j' = j" using j(1) by simp
    moreover have "job_ok h i j (old i) (sched_backoff s i) (prune_terminals i (jb_history_cap j) (rs @ [new]))"
      using ok j(2) h running placements
      by (intro job_ok_prune) (simp_all add: job_ok_def new_def is_running_def run_fits_def)
    ultimately show "job_ok h i j' (old i) (sched_backoff (s\<lparr>sc_runs := prune_terminals i (jb_history_cap j) (rs @ [new])\<rparr>) i)
        (sc_runs (s\<lparr>sc_runs := prune_terminals i (jb_history_cap j) (rs @ [new])\<rparr>))"
      by (simp add: sched_backoff_def)
  qed (simp_all add: filter_other_prune others sched_backoff_def new_def)
  then show ?thesis unfolding s' rs_def new_def .
next
  case False
  then show ?thesis using assms by (simp add: fire_not_Fired)
qed

lemma sched_inv_succeed: "sched_inv h old s \<Longrightarrow> sched_inv h old (snd (succeed i s))"
  by (auto simp: succeed_def split: option.splits sum.splits intro!: sched_inv_terminate)

lemma sched_inv_fail:
  assumes "sched_inv h old s"
  shows "sched_inv h old (snd (fail_run i s))"
proof -
  have "sched_backoff s i + 1 \<le> jb_max_backoff j" if "\<not> jb_max_backoff j \<le> sched_backoff s i" for j
    using that inc_le [of "sched_backoff s i" "jb_max_backoff j"] by simp
  then show ?thesis
    using assms by (auto simp: fail_run_def split: option.splits sum.splits intro!: sched_inv_terminate)
qed

lemma sched_history_inv: "sched_history h old s \<Longrightarrow> sched_inv h old s"
proof (induction rule: sched_history.induct)
  case init
  show ?case by (simp add: sched_inv_def scheduler_new_def)
next
  case (register old s i j)
  have "job_ok h i j (sc_runs s) 0 (sc_runs s)"
    by (auto simp: job_ok_def list_all_iff run_fits_def)
  then show ?case
    using register.IH by (auto simp: sched_inv_def register_job_def sched_backoff_def)
next
  case (unregister old s i)
  then show ?case by (auto simp: sched_inv_def unregister_job_def sched_backoff_def)
qed (simp_all add: sched_inv_fire sched_inv_succeed sched_inv_fail)

section \<open>Boundary behaviour\<close>

text \<open>
  \<open>fire\<close> does not read the backoff budget: a job that has used it up is fired all the same.
  And a failure beyond the budget does not end the run: it stays on record as running, and under
  the policy \<open>Forbid\<close> the job never fires again.
\<close>

lemma fire_ignores_backoff: "fst (fire i tier (s\<lparr>sc_backoff := b\<rparr>)) = fst (fire i tier s)"
  by (auto simp: fire_def has_running_def Let_def split: option.splits)

lemma exhausted_job_stays_running:
  assumes "btree_get (sc_jobs s) i = Some j" "jb_max_backoff j \<le> sched_backoff s i" "has_running s i"
    and "jb_policy j = Forbid"
  shows "snd (fail_run i s) = s" "fst (fire i tier s) \<noteq> Inr Fired"
  using assms by (auto simp: fail_run_def fire_def Let_def split: option.splits)

text \<open>The error \<open>ForbiddenWhileRunning\<close> is never returned.\<close>

lemma forbidden_never_reported: "fst (fire i tier s) \<noteq> Inl ForbiddenWhileRunning"
  by (simp add: fire_def Let_def split: option.splits)

text \<open>
  A registration that replaces a job leaves its runs alone: two runs that an earlier definition
  allowed are still running under one that forbids it.
\<close>

lemma replaced_job_keeps_running:
  "let s = register_job ''j'' (job_new Workload Allow ''zone'' 3 1) (scheduler_new hierarchy_default);
       s = snd (fire ''j'' ''rack'' (snd (fire ''j'' ''rack'' s)));
       s = register_job ''j'' (job_new Workload Forbid ''zone'' 3 1) s
   in length (filter (is_running ''j'') (sc_runs s)) = 2"
  by code_simp

section \<open>Properties\<close>

lemma admissible_tiers_iff:
  assumes "sched_job s i = Some j"
  shows "t \<in> set (admissible_tiers s i) \<longleftrightarrow> tier_admissible (sc_hierarchy s) j t"
proof -
  have "tier_rank h t = Some r \<Longrightarrow> t \<in> set (th_tiers h)" for h r
    using position_None [of t "th_tiers h"] by (fastforce simp: tier_rank_def)
  then show ?thesis
    using assms by (auto simp: admissible_tiers_def tier_admissible_def sched_job_def split: option.splits)
qed

text \<open>What a firing leaves, whatever was on record before.\<close>

lemma fire_Fired_exact:
  assumes "sched_job s i = Some j" "fst (fire i tier s) = Inr Fired"
  shows "tier \<in> set (admissible_tiers s i)"
    and "terminal_count (snd (fire i tier s)) i \<le> jb_history_cap j"
    and "length (filter (is_running i) (sc_runs (snd (fire i tier s)))) =
      (if jb_policy j = Allow then Suc (length (filter (is_running i) (sc_runs s))) else 1)"
proof -
  have "fire i tier s = (Inr Fired, snd (fire i tier s))" using assms(2) by (cases "fire i tier s") simp
  then obtain j' where j: "btree_get (sc_jobs s) i = Some j'" "tier_admissible (sc_hierarchy s) j' tier"
    and forbid: "jb_policy j' = Forbid \<longrightarrow> \<not> has_running s i"
    and s': "snd (fire i tier s) = s\<lparr>sc_runs := prune_terminals i (jb_history_cap j')
      ((if jb_policy j' = Replace then replace_running i (sc_runs s) else sc_runs s)
        @ [\<lparr>rn_job = i, rn_kind = jb_kind j', rn_status = Running, rn_tier = tier\<rparr>])\<rparr>"
    by (rule fire_Fired)
  have j': "j' = j" using assms(1) j(1) by (simp add: sched_job_def)
  show "tier \<in> set (admissible_tiers s i)" using j(2) j' by (simp add: admissible_tiers_iff [OF assms(1)])
  show "terminal_count (snd (fire i tier s)) i \<le> jb_history_cap j"
    using length_prune_terminals by (simp add: s' j' terminal_count_def)
  have none: "filter (is_running i) (sc_runs s) = []" if "jb_policy j = Forbid"
    using forbid that by (simp add: j' has_running_def list_ex_iff filter_empty_conv)
  show "length (filter (is_running i) (sc_runs (snd (fire i tier s)))) =
      (if jb_policy j = Allow then Suc (length (filter (is_running i) (sc_runs s))) else 1)"
    using none
    by (cases "jb_policy j") (simp_all add: s' j' filter_running_prune replace_running_facts is_running_def)
qed

text \<open>
  \<^bold>\<open>C35.\<close> The engine in every state its calls reach, for every registered job and with the runs
  that were on record under its id when it was last registered (none for a new id; a registration
  that replaces a job leaves them). Its ended runs on record are at most its history cap, or as
  many as were on record at the registration; unless its policy allows more, at most one of its
  runs is running, or as many as were at the registration; its backoff never exceeds its budget;
  and every run on record carries its kind and stands in a tier at least as specific as the one
  it requires, or was there at the registration. A firing is into such a tier, brings the ended
  runs down to the cap and, unless the policy allows more, leaves exactly one run running,
  whatever was on record before.
\<close>

theorem scheduler_reachable_invariant:
  assumes "sched_history h old s" "sched_job s i = Some j" "s' = snd (fire i tier s)"
  shows "terminal_count s i \<le> max (jb_history_cap j) (length (filter (is_terminal i) (old i)))
    \<and> (jb_policy j \<noteq> Allow \<longrightarrow>
        length (filter (is_running i) (sc_runs s)) \<le> max 1 (length (filter (is_running i) (old i))))
    \<and> sched_backoff s i \<le> jb_max_backoff j
    \<and> list_all (\<lambda>r. rn_job r = i \<longrightarrow>
        rn_kind r = jb_kind j \<and> rn_tier r \<in> set (admissible_tiers s i)
        \<or> (\<exists>q\<in>set (old i). rn_job q = i \<and> rn_kind q = rn_kind r \<and> rn_tier q = rn_tier r)) (sc_runs s)
    \<and> (fst (fire i tier s) = Inr Fired \<longrightarrow>
        tier \<in> set (admissible_tiers s i) \<and> terminal_count s' i \<le> jb_history_cap j
        \<and> length (filter (is_running i) (sc_runs s')) =
            (if jb_policy j = Allow then Suc (length (filter (is_running i) (sc_runs s))) else 1))"
proof -
  have h: "sc_hierarchy s = h" and ok: "job_ok h i j (old i) (sched_backoff s i) (sc_runs s)"
    using sched_history_inv [OF assms(1)] assms(2) by (simp_all add: sched_inv_def sched_job_def)
  have "list_all (\<lambda>r. rn_job r = i \<longrightarrow>
        rn_kind r = jb_kind j \<and> rn_tier r \<in> set (admissible_tiers s i)
        \<or> (\<exists>q\<in>set (old i). rn_job q = i \<and> rn_kind q = rn_kind r \<and> rn_tier q = rn_tier r)) (sc_runs s)"
    using ok unfolding job_ok_def run_fits_def admissible_tiers_iff [OF assms(2)] h by blast
  then show ?thesis
    using ok fire_Fired_exact [OF assms(2), of tier] assms(3) by (simp add: job_ok_def terminal_count_def)
qed

definition demo_scheduler :: scheduler where
  "demo_scheduler = snd (fire ''j'' ''rack'' (snd (fire ''j'' ''rack''
     (register_job ''j'' (job_new Workload Replace ''zone'' 3 1)
       (snd (fire ''j'' ''zone'' (register_job ''j'' (job_new Observability Allow ''zone'' 3 5)
         (scheduler_new hierarchy_default))))))))"

text \<open>A job that replaces one with a run in flight: one ended run is kept and one is running.\<close>

theorem scheduler_reachable_invariant_witness:
  "terminal_count demo_scheduler ''j'' \<le> 1
   \<and> length (filter (is_running ''j'') (sc_runs demo_scheduler)) \<le> 1
   \<and> length (sc_runs demo_scheduler) = 2"
proof -
  let ?s = "snd (fire ''j'' ''zone'' (register_job ''j'' (job_new Observability Allow ''zone'' 3 5)
    (scheduler_new hierarchy_default)))"
  let ?old = "((\<lambda>_. [])(''j'' := sc_runs (scheduler_new hierarchy_default)))(''j'' := sc_runs ?s)"
  have r: "sched_history hierarchy_default ?old demo_scheduler"
    unfolding demo_scheduler_def by (intro sched_history.intros)
  have j: "sched_job demo_scheduler ''j'' = Some (job_new Workload Replace ''zone'' 3 1)"
    by code_simp
  have base: "length (filter (is_running ''j'') (sc_runs ?s)) = 1" "length (filter (is_terminal ''j'') (sc_runs ?s)) = 0"
    by code_simp+
  have n: "length (sc_runs demo_scheduler) = 2" by code_simp
  show ?thesis using scheduler_reachable_invariant [OF r j refl] n base by (simp add: job_new_def)
qed

end
