(* ===== verification/HopMin.thy ===== *)
theory HopMin
  imports Topology
begin

text \<open>
  \<^verbatim>\<open>crates/pillar-manifest/src/hop_min.rs\<close>: the optimizer that moves backends
  towards their traffic within the declared spread and capacity, throttled per round and with a
  threshold on the improvement.
\<close>

section \<open>Traffic and placements\<close>

type_synonym traffic_view = "(string, (string, u64) btree_map) btree_map"

definition traffic_new :: traffic_view where
  "traffic_new = btree_new"

definition traffic_observe :: "string \<Rightarrow> string \<Rightarrow> u64 \<Rightarrow> traffic_view \<Rightarrow> traffic_view" where
  "traffic_observe backend domain weight t =
     (let per = (case btree_get t backend of None \<Rightarrow> btree_new | Some m \<Rightarrow> m);
          w = (case btree_get per domain of None \<Rightarrow> 0 | Some w \<Rightarrow> w)
      in btree_insert backend (btree_insert domain (w + weight) per) t)"

definition backend_traffic :: "traffic_view \<Rightarrow> string \<Rightarrow> (string, u64) btree_map option" where
  "backend_traffic t backend = btree_get t backend"

record backend_placement =
  bp_tier :: string
  bp_assignment :: "(string, string) btree_map"
  bp_min_spread :: nat
  bp_capacity :: "(string, nat) btree_map"

definition backend_placement_new ::
  "string \<Rightarrow> (string, string) btree_map \<Rightarrow> nat \<Rightarrow> (string, nat) btree_map \<Rightarrow> backend_placement" where
  "backend_placement_new tier assignment min_spread capacity =
     \<lparr>bp_tier = tier, bp_assignment = assignment, bp_min_spread = max min_spread 1, bp_capacity = capacity\<rparr>"

definition domain_of :: "backend_placement \<Rightarrow> string \<Rightarrow> string option" where
  "domain_of p backend = btree_get (bp_assignment p) backend"

definition occupied_domains :: "backend_placement \<Rightarrow> string btree_set" where
  "occupied_domains p = bset_collect (btree_values (bp_assignment p))"

definition load_of :: "backend_placement \<Rightarrow> string \<Rightarrow> nat" where
  "load_of p domain = length (filter (\<lambda>d. d = domain) (btree_values (bp_assignment p)))"

definition has_room :: "backend_placement \<Rightarrow> string \<Rightarrow> bool" where
  "has_room p domain =
     (case btree_get (bp_capacity p) domain of Some cap \<Rightarrow> load_of p domain < cap | None \<Rightarrow> True)"

definition move_preserves_spread :: "backend_placement \<Rightarrow> string \<Rightarrow> string \<Rightarrow> bool" where
  "move_preserves_spread p backend to =
     (let after = btree_insert backend to (bp_assignment p);
          distinct = btree_len (bset_collect (btree_values after))
      in distinct \<ge> bp_min_spread p)"

record plan =
  pn_max_moves :: nat
  pn_min_improvement :: u64

definition plan_default :: plan where
  "plan_default = \<lparr>pn_max_moves = 1, pn_min_improvement = 1\<rparr>"

record move =
  mv_backend :: string
  mv_from :: string
  mv_to :: string
  mv_improvement :: u64

definition move_less :: "move \<Rightarrow> move \<Rightarrow> bool" where
  "move_less m n \<longleftrightarrow> (mv_backend m, mv_to m, mv_from m) < (mv_backend n, mv_to n, mv_from n)"

definition hierarchy_hops :: "tier_hierarchy \<Rightarrow> string \<Rightarrow> string \<Rightarrow> string \<Rightarrow> u64" where
  "hierarchy_hops h tier a b =
     (if a = b then 0
      else case tier_rank h tier of Some rank \<Rightarrow> 2 * (of_nat rank + 1) | None \<Rightarrow> 2)"

definition sat_add :: "u64 \<Rightarrow> u64 \<Rightarrow> u64" where
  "sat_add a b = (if uint a + uint b < 2 ^ 64 then a + b else 0xFFFFFFFFFFFFFFFF)"

definition sat_mul :: "u64 \<Rightarrow> u64 \<Rightarrow> u64" where
  "sat_mul a b = (if uint a * uint b < 2 ^ 64 then a * b else 0xFFFFFFFFFFFFFFFF)"

definition aggregate_hops ::
  "tier_hierarchy \<Rightarrow> string \<Rightarrow> (string, string) btree_map \<Rightarrow> traffic_view \<Rightarrow> u64" where
  "aggregate_hops h tier assignment traffic =
     fold (\<lambda>(backend, domain) total.
         case backend_traffic traffic backend of
           None \<Rightarrow> total
         | Some per_ingest \<Rightarrow>
             fold (\<lambda>(ingest, weight) total. sat_add total (sat_mul weight (hierarchy_hops h tier domain ingest)))
               (btree_iter per_ingest) total)
       (btree_iter assignment) 0"

definition aggregate_placement_hops :: "tier_hierarchy \<Rightarrow> backend_placement \<Rightarrow> traffic_view \<Rightarrow> u64" where
  "aggregate_placement_hops h p traffic = aggregate_hops h (bp_tier p) (bp_assignment p) traffic"

section \<open>The optimizer\<close>

record optimizer =
  op_hierarchy :: tier_hierarchy
  op_plan :: plan

definition optimizer_new :: "tier_hierarchy \<Rightarrow> plan \<Rightarrow> optimizer" where
  "optimizer_new h pn = \<lparr>op_hierarchy = h, op_plan = pn\<rparr>"

text \<open>The body of the inner loop up to the comparison with the best move so far.\<close>

definition candidate_move ::
  "optimizer \<Rightarrow> traffic_view \<Rightarrow> backend_placement \<Rightarrow> u64 \<Rightarrow> string \<Rightarrow> string \<Rightarrow> string \<Rightarrow> move option" where
  "candidate_move o' traffic p current backend from to =
     (if to = from then None
      else if \<not> has_room p to then None
      else if \<not> move_preserves_spread p backend to then None
      else let trial = btree_insert backend to (bp_assignment p);
               after = aggregate_hops (op_hierarchy o') (bp_tier p) trial traffic
           in if after \<ge> current then None
              else let improvement = current - after
                   in if improvement \<le> pn_min_improvement (op_plan o') then None
                      else Some \<lparr>mv_backend = backend, mv_from = from, mv_to = to, mv_improvement = improvement\<rparr>)"

definition better_move :: "move \<Rightarrow> move option \<Rightarrow> bool" where
  "better_move m best =
     (case best of
        None \<Rightarrow> True
      | Some b \<Rightarrow> mv_improvement m > mv_improvement b \<or> (mv_improvement m = mv_improvement b \<and> move_less m b))"

definition keep_better :: "move option \<Rightarrow> move option \<Rightarrow> move option" where
  "keep_better c best = (case c of None \<Rightarrow> best | Some m \<Rightarrow> if better_move m best then Some m else best)"

definition best_move :: "optimizer \<Rightarrow> traffic_view \<Rightarrow> backend_placement \<Rightarrow> move option" where
  "best_move o' traffic p =
     (let current = aggregate_hops (op_hierarchy o') (bp_tier p) (bp_assignment p) traffic;
          targets = btree_keys (occupied_domains p)
      in fold (\<lambda>(backend, from) best.
             fold (\<lambda>to best. keep_better (candidate_move o' traffic p current backend from to) best) targets best)
           (btree_iter (bp_assignment p)) None)"

definition apply_move :: "move \<Rightarrow> backend_placement \<Rightarrow> backend_placement" where
  "apply_move m p = p\<lparr>bp_assignment := btree_insert (mv_backend m) (mv_to m) (bp_assignment p)\<rparr>"

text \<open>The argument counts the moves the throttle still allows.\<close>

fun optimize_loop ::
  "optimizer \<Rightarrow> traffic_view \<Rightarrow> nat \<Rightarrow> backend_placement \<Rightarrow> move list \<times> backend_placement" where
  "optimize_loop o' traffic 0 p = ([], p)"
| "optimize_loop o' traffic (Suc n) p =
     (case best_move o' traffic p of
        None \<Rightarrow> ([], p)
      | Some m \<Rightarrow> (case optimize_loop o' traffic n (apply_move m p) of (ms, p') \<Rightarrow> (m # ms, p')))"

definition optimize :: "optimizer \<Rightarrow> traffic_view \<Rightarrow> backend_placement \<Rightarrow> move list \<times> backend_placement" where
  "optimize o' traffic p = optimize_loop o' traffic (pn_max_moves (op_plan o')) p"

section \<open>One move\<close>

abbreviation hops :: "optimizer \<Rightarrow> traffic_view \<Rightarrow> backend_placement \<Rightarrow> u64" where
  "hops o' traffic p \<equiv> aggregate_placement_hops (op_hierarchy o') p traffic"

text \<open>A move the bounds allow and the threshold justifies.\<close>

definition valid_move :: "optimizer \<Rightarrow> traffic_view \<Rightarrow> backend_placement \<Rightarrow> move \<Rightarrow> bool" where
  "valid_move o' traffic p m \<longleftrightarrow>
     domain_of p (mv_backend m) = Some (mv_from m) \<and> mv_to m \<noteq> mv_from m
     \<and> bset_contains (occupied_domains p) (mv_to m) \<and> has_room p (mv_to m)
     \<and> move_preserves_spread p (mv_backend m) (mv_to m)
     \<and> uint (hops o' traffic p) = uint (hops o' traffic (apply_move m p)) + uint (mv_improvement m)
     \<and> mv_improvement m > pn_min_improvement (op_plan o')"

lemma uint_diff: "(b :: u64) \<le> a \<Longrightarrow> uint (a - b) = uint a - uint b"
  by (simp add: uint_minus_simple_alt)

lemma candidate_move_valid:
  assumes "domain_of p backend = Some from" "bset_contains (occupied_domains p) to"
  shows "candidate_move o' traffic p (hops o' traffic p) backend from to = Some m \<longleftrightarrow>
    valid_move o' traffic p m \<and> mv_backend m = backend \<and> mv_to m = to"
proof -
  let ?p = "p\<lparr>bp_assignment := btree_insert backend to (bp_assignment p)\<rparr>"
  let ?a = "hops o' traffic ?p" and ?c = "hops o' traffic p"
  have c: "candidate_move o' traffic p ?c backend from to = Some m \<longleftrightarrow>
      to \<noteq> from \<and> has_room p to \<and> move_preserves_spread p backend to \<and> \<not> ?c \<le> ?a
      \<and> \<not> ?c - ?a \<le> pn_min_improvement (op_plan o')
      \<and> m = \<lparr>mv_backend = backend, mv_from = from, mv_to = to, mv_improvement = ?c - ?a\<rparr>"
    by (auto simp: candidate_move_def aggregate_placement_hops_def Let_def)
  have imp: "uint ?c = uint ?a + uint x \<longleftrightarrow> ?a \<le> ?c \<and> x = ?c - ?a" for x
  proof
    assume h: "uint ?c = uint ?a + uint x"
    then have "?a \<le> ?c" by (simp add: word_le_def)
    then show "?a \<le> ?c \<and> x = ?c - ?a" using h uint_diff [of ?a ?c] by (simp add: word_uint_eq_iff)
  qed (use uint_diff [of ?a ?c] in simp)
  show ?thesis
  proof
    assume "candidate_move o' traffic p ?c backend from to = Some m"
    then show "valid_move o' traffic p m \<and> mv_backend m = backend \<and> mv_to m = to"
      unfolding c using assms imp [of "?c - ?a"] by (auto simp: valid_move_def apply_move_def not_le)
  next
    assume v: "valid_move o' traffic p m \<and> mv_backend m = backend \<and> mv_to m = to"
    then have p': "apply_move m p = ?p" by (simp add: apply_move_def)
    have x: "?a \<le> ?c" "mv_improvement m = ?c - ?a"
      using v imp unfolding valid_move_def p' by auto
    then have "?a \<noteq> ?c" using v by (auto simp: valid_move_def)
    then show "candidate_move o' traffic p ?c backend from to = Some m"
      unfolding c using v assms x by (cases m) (auto simp: valid_move_def not_le)
  qed
qed

section \<open>The best move of a round\<close>

definition max_of :: "move set \<Rightarrow> move option \<Rightarrow> bool" where
  "max_of S best \<longleftrightarrow>
     (case best of None \<Rightarrow> S = {} | Some m \<Rightarrow> m \<in> S \<and> (\<forall>n\<in>S. mv_improvement n \<le> mv_improvement m))"

lemma keep_better_max: "max_of S best \<Longrightarrow> max_of (S \<union> set_option c) (keep_better c best)"
  by (auto simp: max_of_def keep_better_def better_move_def not_less split: option.splits)

lemma fold_max_of:
  assumes "\<And>x S best. x \<in> set xs \<Longrightarrow> max_of S best \<Longrightarrow> max_of (S \<union> A x) (g x best)" "max_of S best"
  shows "max_of (S \<union> (\<Union>x\<in>set xs. A x)) (fold g xs best)"
  using assms
proof (induction xs arbitrary: S best)
  case (Cons x xs)
  have "max_of (S \<union> A x) (g x best)" using Cons.prems by simp
  from Cons.IH [OF _ this] show ?case using Cons.prems(1) by (simp add: Un_assoc)
qed simp

lemma best_move_max: "max_of {m. valid_move o' traffic p m} (best_move o' traffic p)"
proof -
  let ?c = "\<lambda>backend from to. candidate_move o' traffic p (hops o' traffic p) backend from to"
  let ?targets = "btree_keys (occupied_domains p)"
  let ?A = "\<lambda>(backend, from). \<Union>to\<in>set ?targets. set_option (?c backend from to)"
  have "max_of ({} \<union> (\<Union>x\<in>set (btree_iter (bp_assignment p)). ?A x))
      (fold (\<lambda>(backend, from) best. fold (\<lambda>to best. keep_better (?c backend from to) best) ?targets best)
        (btree_iter (bp_assignment p)) None)"
  proof (rule fold_max_of)
    fix x :: "string \<times> string" and S best assume "max_of S best"
    moreover obtain backend src where "x = (backend, src)" by fastforce
    ultimately show "max_of (S \<union> ?A x)
        ((\<lambda>(backend, from) best. fold (\<lambda>to best. keep_better (?c backend from to) best) ?targets best) x best)"
      by (auto intro!: fold_max_of keep_better_max)
  qed (simp add: max_of_def)
  moreover have "(\<Union>x\<in>set (btree_iter (bp_assignment p)). ?A x) = {m. valid_move o' traffic p m}"
  proof (intro set_eqI iffI)
    fix m assume "m \<in> (\<Union>x\<in>set (btree_iter (bp_assignment p)). ?A x)"
    then obtain backend src to where "domain_of p backend = Some src"
      "bset_contains (occupied_domains p) to" "?c backend src to = Some m"
      by (auto simp: btree_iter_iff domain_of_def btree_keys_iff)
    then show "m \<in> {m. valid_move o' traffic p m}" using candidate_move_valid by blast
  next
    fix m assume "m \<in> {m. valid_move o' traffic p m}"
    then have v: "valid_move o' traffic p m" by simp
    then have at: "domain_of p (mv_backend m) = Some (mv_from m)" "bset_contains (occupied_domains p) (mv_to m)"
      by (simp_all add: valid_move_def)
    then have "?c (mv_backend m) (mv_from m) (mv_to m) = Some m" using candidate_move_valid v by blast
    then show "m \<in> (\<Union>x\<in>set (btree_iter (bp_assignment p)). ?A x)"
      using at by (auto simp: domain_of_def btree_iter_iff btree_keys_iff
          intro!: bexI [where x = "(mv_backend m, mv_from m)"] bexI [where x = "mv_to m"])
  qed
  ultimately show ?thesis
    by (simp add: best_move_def Let_def aggregate_placement_hops_def)
qed

lemma best_move_Some: "best_move o' traffic p = Some m \<Longrightarrow> valid_move o' traffic p m"
  using best_move_max [of o' traffic p] by (simp add: max_of_def)

lemma best_move_None: "best_move o' traffic p = None \<Longrightarrow> \<not> valid_move o' traffic p m"
  using best_move_max [of o' traffic p] by (auto simp: max_of_def)

section \<open>What a move keeps\<close>

lemma load_of_card: "load_of p d = card {b. domain_of p b = Some d}"
proof -
  have "load_of p d = length (filter (\<lambda>k. the (btree_get (bp_assignment p) k) = d) (btree_keys (bp_assignment p)))"
    by (simp add: load_of_def btree_values_keys filter_map o_def)
  also have "\<dots> = card (set (filter (\<lambda>k. the (btree_get (bp_assignment p) k) = d) (btree_keys (bp_assignment p))))"
    by (rule distinct_card [symmetric]) simp
  also have "set (filter (\<lambda>k. the (btree_get (bp_assignment p) k) = d) (btree_keys (bp_assignment p)))
      = {b. domain_of p b = Some d}"
    by (auto simp: domain_of_def btree_keys_iff btree_contains_key_Some)
  finally show ?thesis .
qed

lemma finite_domain: "finite {b. domain_of p b = Some d}"
  by (rule finite_subset [OF _ finite_dom_btree_get [of "bp_assignment p"]]) (auto simp: domain_of_def)

lemma domain_of_apply: "domain_of (apply_move m p) = (domain_of p)(mv_backend m \<mapsto> mv_to m)"
  by (rule ext) (simp add: domain_of_def apply_move_def)

lemma load_of_apply:
  "load_of (apply_move m p) d \<le> (if d = mv_to m then Suc (load_of p d) else load_of p d)"
proof (cases "d = mv_to m")
  case True
  have "{b. domain_of (apply_move m p) b = Some d} \<subseteq> insert (mv_backend m) {b. domain_of p b = Some d}"
    by (auto simp: domain_of_apply)
  then have "load_of (apply_move m p) d \<le> card (insert (mv_backend m) {b. domain_of p b = Some d})"
    unfolding load_of_card by (intro card_mono) (simp_all add: finite_domain)
  also have "\<dots> \<le> Suc (load_of p d)" unfolding load_of_card by (rule card_insert_le_m1) simp_all
  finally show ?thesis using True by simp
next
  case False
  then have "{b. domain_of (apply_move m p) b = Some d} \<subseteq> {b. domain_of p b = Some d}"
    by (auto simp: domain_of_apply split: if_splits)
  then show ?thesis using False unfolding load_of_card by (auto intro: card_mono finite_domain)
qed

definition capacity_kept :: "backend_placement \<Rightarrow> backend_placement \<Rightarrow> bool" where
  "capacity_kept p p' \<longleftrightarrow>
     list_all (\<lambda>(d, cap). load_of p' d \<le> max cap (load_of p d)) (btree_iter (bp_capacity p))"

lemma occupied_iff: "bset_contains (occupied_domains p) d \<longleftrightarrow> (\<exists>b. domain_of p b = Some d)"
  by (simp add: occupied_domains_def btree_values_iff domain_of_def)

lemma valid_move_keeps:
  assumes v: "valid_move o' traffic p m"
  shows "capacity_kept p (apply_move m p)"
    and "bset_elems (occupied_domains (apply_move m p)) \<subseteq> bset_elems (occupied_domains p)"
    and "dom (domain_of (apply_move m p)) = dom (domain_of p)"
    and "bp_min_spread p \<le> btree_len (occupied_domains (apply_move m p))"
proof -
  have "load_of (apply_move m p) d \<le> max cap (load_of p d)" if "btree_get (bp_capacity p) d = Some cap" for d cap
    using load_of_apply [of m p d] v that by (auto simp: valid_move_def has_room_def split: if_splits)
  then show "capacity_kept p (apply_move m p)"
    by (auto simp: capacity_kept_def list_all_iff btree_iter_iff)
  show "bset_elems (occupied_domains (apply_move m p)) \<subseteq> bset_elems (occupied_domains p)"
    using v by (auto simp: bset_elems_iff occupied_iff domain_of_apply valid_move_def split: if_splits)
  show "dom (domain_of (apply_move m p)) = dom (domain_of p)"
    using v by (auto simp: domain_of_apply valid_move_def)
  show "bp_min_spread p \<le> btree_len (occupied_domains (apply_move m p))"
    using v by (simp add: valid_move_def move_preserves_spread_def occupied_domains_def apply_move_def Let_def)
qed

lemma apply_move_sel [simp]:
  "bp_min_spread (apply_move m p) = bp_min_spread p" "bp_capacity (apply_move m p) = bp_capacity p"
  by (simp_all add: apply_move_def)

lemma capacity_kept_trans:
  "capacity_kept p q \<Longrightarrow> capacity_kept q r \<Longrightarrow> bp_capacity q = bp_capacity p \<Longrightarrow> capacity_kept p r"
  unfolding capacity_kept_def list_all_iff by fastforce

lemma capacity_kept_refl: "capacity_kept p p"
  by (auto simp: capacity_kept_def list_all_iff)

section \<open>Properties\<close>

lemma optimize_loop_sound:
  assumes "optimize_loop o' traffic n p = (ms, p')"
  shows "length ms \<le> n"
    and "list_all (\<lambda>m. mv_improvement m > pn_min_improvement (op_plan o')) ms"
    and "uint (hops o' traffic p) = uint (hops o' traffic p') + sum_list (map (\<lambda>m. uint (mv_improvement m)) ms)"
    and "ms \<noteq> [] \<Longrightarrow> bp_min_spread p \<le> btree_len (occupied_domains p')"
    and "capacity_kept p p'"
    and "dom (domain_of p') = dom (domain_of p)"
    and "bset_elems (occupied_domains p') \<subseteq> bset_elems (occupied_domains p)"
    and "length ms < n \<Longrightarrow> \<not> valid_move o' traffic p' m"
  using assms
proof (atomize (full), induction n arbitrary: p ms)
  case 0
  then show ?case by (simp add: capacity_kept_refl)
next
  case (Suc n)
  show ?case
  proof (cases "best_move o' traffic p")
    case None
    then show ?thesis using Suc.prems best_move_None [OF None] by (simp add: capacity_kept_refl)
  next
    case (Some b)
    note v = best_move_Some [OF Some]
    obtain ms' where r: "optimize_loop o' traffic n (apply_move b p) = (ms', p')" and ms: "ms = b # ms'"
      using Suc.prems Some by (auto split: prod.splits)
    note IH = Suc.IH [OF r]
    show ?thesis
    proof (intro conjI impI)
      show "length ms \<le> Suc n" using IH ms by simp
      show "list_all (\<lambda>m. mv_improvement m > pn_min_improvement (op_plan o')) ms"
        using IH ms v by (simp add: valid_move_def)
      show "uint (hops o' traffic p) = uint (hops o' traffic p') + sum_list (map (\<lambda>m. uint (mv_improvement m)) ms)"
        using IH ms v by (simp add: valid_move_def)
      show "bp_min_spread p \<le> btree_len (occupied_domains p')"
        using IH r valid_move_keeps(4) [OF v] by (cases "ms' = []") (cases n; auto split: option.splits prod.splits)+
      show "capacity_kept p p'"
        using capacity_kept_trans [OF valid_move_keeps(1) [OF v]] IH by simp
      show "dom (domain_of p') = dom (domain_of p)" using IH valid_move_keeps(3) [OF v] by simp
      show "bset_elems (occupied_domains p') \<subseteq> bset_elems (occupied_domains p)"
        using IH valid_move_keeps(2) [OF v] by blast
      show "\<not> valid_move o' traffic p' m" if "length ms < Suc n" using IH ms that by simp
    qed
  qed
qed

text \<open>
  \<^bold>\<open>C36.\<close> A round of the optimizer: it makes at most the allowed number of moves, each of
  which improves the aggregate by more than the threshold, and the aggregate falls by exactly the
  sum of the reported improvements; the declared spread holds after any move, no domain exceeds
  its capacity unless it did before, every backend stays placed and no new domain is used; and a
  round that stops early leaves no move that the bounds allow and the threshold justifies.
\<close>

theorem optimize_sound:
  assumes "optimize o' traffic p = (ms, p')"
  shows "length ms \<le> pn_max_moves (op_plan o')
    \<and> list_all (\<lambda>m. mv_improvement m > pn_min_improvement (op_plan o')) ms
    \<and> uint (hops o' traffic p) = uint (hops o' traffic p') + sum_list (map (\<lambda>m. uint (mv_improvement m)) ms)
    \<and> (ms \<noteq> [] \<longrightarrow> bp_min_spread p \<le> btree_len (occupied_domains p'))
    \<and> capacity_kept p p'
    \<and> dom (domain_of p') = dom (domain_of p)
    \<and> bset_elems (occupied_domains p') \<subseteq> bset_elems (occupied_domains p)
    \<and> (length ms < pn_max_moves (op_plan o') \<longrightarrow> \<not> valid_move o' traffic p' m)"
  using optimize_loop_sound [OF assms [unfolded optimize_def]] by blast

definition demo_placement :: backend_placement where
  "demo_placement = backend_placement_new ''rack''
     (btree_collect [(''b1'', ''r1''), (''b2'', ''r2''), (''b3'', ''r2'')]) 2 btree_new"

definition demo_traffic :: traffic_view where
  "demo_traffic = traffic_observe ''b3'' ''r1'' 10 traffic_new"

definition demo_optimizer :: optimizer where
  "demo_optimizer = optimizer_new \<lparr>th_tiers = [''zone'', ''rack'']\<rparr> \<lparr>pn_max_moves = 3, pn_min_improvement = 1\<rparr>"

theorem optimize_sound_witness:
  "uint (hops demo_optimizer demo_traffic demo_placement) = 40
   \<and> uint (hops demo_optimizer demo_traffic (snd (optimize demo_optimizer demo_traffic demo_placement))) = 0
   \<and> (\<forall>m. \<not> valid_move demo_optimizer demo_traffic (snd (optimize demo_optimizer demo_traffic demo_placement)) m)"
proof -
  let ?ms = "fst (optimize demo_optimizer demo_traffic demo_placement)"
  have "optimize demo_optimizer demo_traffic demo_placement =
      (?ms, snd (optimize demo_optimizer demo_traffic demo_placement))" by simp
  note sound = optimize_sound [OF this]
  have len: "length ?ms < pn_max_moves (op_plan demo_optimizer)" by code_simp
  have s: "sum_list (map (\<lambda>m. uint (mv_improvement m)) ?ms) = 40" by code_simp
  have h: "uint (hops demo_optimizer demo_traffic demo_placement) = 40" by code_simp
  show ?thesis using sound len s h by simp
qed

end
