(* ===== verification/Compat.thy ===== *)
theory Compat
  imports Pillar_Core Rust_Collections
begin

text \<open>
  \<^verbatim>\<open>crates/pillar-crypto/src/compat.rs\<close>: the negotiation of surface versions within
  a compatibility window, the declarations two parties exchange, and the start-up check that a
  build still supports every version of the window.
\<close>

section \<open>Definitions\<close>

type_synonym compat_window = u16

definition version_diff :: "surface_version \<Rightarrow> surface_version \<Rightarrow> u16" where
  "version_diff a b = (if a < b then b - a else a - b)"

record negotiation_refused =
  nr_surface :: string
  nr_local :: surface_version
  nr_remote :: surface_version
  nr_window :: compat_window

record surface_not_declared =
  sn_surface :: string
  sn_missing_local :: bool

datatype negotiation_error =
    NotDeclared surface_not_declared
  | Refused negotiation_refused

definition negotiate_surface ::
  "string \<Rightarrow> surface_version \<Rightarrow> surface_version \<Rightarrow> compat_window \<Rightarrow> negotiation_refused + unit" where
  "negotiate_surface surface local remote window =
     (if version_diff local remote \<le> window then Inr ()
      else Inl \<lparr>nr_surface = surface, nr_local = local, nr_remote = remote, nr_window = window\<rparr>)"

type_synonym declared_versions = "(string, surface_version) btree_map"

definition declared_new :: declared_versions where
  "declared_new = btree_new"

definition declare_version :: "string \<Rightarrow> surface_version \<Rightarrow> declared_versions \<Rightarrow> declared_versions" where
  "declare_version surface version d = btree_insert surface version d"

definition declared_get :: "declared_versions \<Rightarrow> string \<Rightarrow> surface_version option" where
  "declared_get d surface = btree_get d surface"

definition declared_surfaces :: "declared_versions \<Rightarrow> string list" where
  "declared_surfaces d = btree_keys d"

primrec negotiate_all ::
  "declared_versions \<Rightarrow> declared_versions \<Rightarrow> string list \<Rightarrow> compat_window \<Rightarrow> negotiation_error + unit" where
  "negotiate_all local remote [] window = Inr ()"
| "negotiate_all local remote (surface # required) window =
     (case declared_get local surface of
        None \<Rightarrow> Inl (NotDeclared \<lparr>sn_surface = surface, sn_missing_local = True\<rparr>)
      | Some l \<Rightarrow>
          (case declared_get remote surface of
             None \<Rightarrow> Inl (NotDeclared \<lparr>sn_surface = surface, sn_missing_local = False\<rparr>)
           | Some r \<Rightarrow>
               (case negotiate_surface surface l r window of
                  Inl e \<Rightarrow> Inl (Refused e)
                | Inr _ \<Rightarrow> negotiate_all local remote required window)))"

record startup_self_check_failed =
  sc_surface :: string
  sc_current_release :: surface_version
  sc_window :: compat_window
  sc_proposed_min :: surface_version
  sc_required_floor :: surface_version

definition u16_saturating_sub :: "u16 \<Rightarrow> u16 \<Rightarrow> u16" where
  "u16_saturating_sub a b = (if a < b then 0 else a - b)"

definition startup_self_check ::
  "string \<Rightarrow> surface_version \<Rightarrow> surface_version \<Rightarrow> compat_window \<Rightarrow> startup_self_check_failed + unit" where
  "startup_self_check surface current_release proposed_min window =
     (let required_floor = u16_saturating_sub current_release window
      in if proposed_min > required_floor
         then Inl \<lparr>sc_surface = surface, sc_current_release = current_release, sc_window = window,
                    sc_proposed_min = proposed_min, sc_required_floor = required_floor\<rparr>
         else Inr ())"

definition require_supported_and_in_window ::
  "string \<Rightarrow> surface_version \<Rightarrow> surface_version \<Rightarrow> surface_version \<Rightarrow> surface_version \<Rightarrow> compat_window
     \<Rightarrow> negotiation_error + unit" where
  "require_supported_and_in_window surface found mn mx current_release window =
     (case check_supported found mn mx of
        Inl _ \<Rightarrow> Inl (Refused \<lparr>nr_surface = surface, nr_local = mx, nr_remote = found, nr_window = window\<rparr>)
      | Inr _ \<Rightarrow>
          (case negotiate_surface surface found current_release window of
             Inl e \<Rightarrow> Inl (Refused e)
           | Inr _ \<Rightarrow> Inr ()))"

section \<open>The window\<close>

text \<open>The distance of two versions as integers; the subtraction never wraps.\<close>

lemma uint_u16_sub: "(b :: u16) \<le> a \<Longrightarrow> uint (a - b) = uint a - uint b"
  by (simp add: uint_minus_simple_alt)

lemma version_diff_uint: "uint (version_diff a b) = \<bar>uint a - uint b\<bar>"
  using uint_u16_sub [of a b] uint_u16_sub [of b a]
  by (auto simp: version_diff_def word_less_def word_le_def)

lemma version_diff_commute: "version_diff a b = version_diff b a"
  by (simp add: word_uint_eq_iff version_diff_uint abs_minus_commute)

lemma negotiate_surface_Inr [simp]:
  "negotiate_surface surface a b w = Inr () \<longleftrightarrow> \<bar>uint a - uint b\<bar> \<le> uint w"
  by (simp add: negotiate_surface_def word_le_def version_diff_uint)

lemma negotiate_surface_Inl:
  "negotiate_surface surface a b w = Inl e \<longleftrightarrow>
     \<bar>uint a - uint b\<bar> > uint w
     \<and> e = \<lparr>nr_surface = surface, nr_local = a, nr_remote = b, nr_window = w\<rparr>"
  by (auto simp: negotiate_surface_def word_le_def version_diff_uint)

lemma negotiate_surface_symmetric:
  "negotiate_surface surface a b w = Inr () \<longleftrightarrow> negotiate_surface surface b a w = Inr ()"
  by (simp add: abs_minus_commute)

text \<open>One surface of a negotiation links, or fails with its own error.\<close>

definition surface_outcome ::
  "declared_versions \<Rightarrow> declared_versions \<Rightarrow> compat_window \<Rightarrow> string \<Rightarrow> negotiation_error option" where
  "surface_outcome local remote window surface =
     (case (declared_get local surface, declared_get remote surface) of
        (None, _) \<Rightarrow> Some (NotDeclared \<lparr>sn_surface = surface, sn_missing_local = True\<rparr>)
      | (_, None) \<Rightarrow> Some (NotDeclared \<lparr>sn_surface = surface, sn_missing_local = False\<rparr>)
      | (Some l, Some r) \<Rightarrow>
          if \<bar>uint l - uint r\<bar> \<le> uint window then None
          else Some (Refused \<lparr>nr_surface = surface, nr_local = l, nr_remote = r, nr_window = window\<rparr>))"

lemma surface_outcome_None:
  "surface_outcome local remote window surface = None \<longleftrightarrow>
     (\<exists>l r. declared_get local surface = Some l \<and> declared_get remote surface = Some r
        \<and> \<bar>uint l - uint r\<bar> \<le> uint window)"
  by (auto simp: surface_outcome_def split: option.splits)

lemma negotiate_all_first:
  "negotiate_all local remote required window =
     (case List.map_filter (surface_outcome local remote window) required of
        [] \<Rightarrow> Inr () | e # _ \<Rightarrow> Inl e)"
proof (induction required)
  case (Cons s required)
  then show ?case
    by (auto simp: List.map_filter_simps surface_outcome_def negotiate_surface_def word_le_def
        version_diff_uint split: option.splits)
qed (simp add: List.map_filter_simps)

lemma negotiate_all_Inr:
  "negotiate_all local remote required window = Inr () \<longleftrightarrow>
     (\<forall>s\<in>set required. surface_outcome local remote window s = None)"
proof -
  have "List.map_filter f xs = [] \<longleftrightarrow> (\<forall>x\<in>set xs. f x = None)" for f :: "string \<Rightarrow> negotiation_error option" and xs
    by (induction xs) (auto simp: List.map_filter_simps split: option.splits)
  note none = this
  show ?thesis
    unfolding none [symmetric] negotiate_all_first by (cases "List.map_filter (surface_outcome local remote window) required") simp_all
qed

text \<open>
  A build that passes its start-up check supports every version a party may run that is not newer
  than the release and within the window of it.
\<close>

lemma startup_check_covers_window:
  assumes "startup_self_check surface release mn w = Inr ()"
    and "v \<le> release" "negotiate_surface surface release v w = Inr ()"
  shows "check_supported v mn release = Inr ()"
proof -
  have floor: "mn \<le> u16_saturating_sub release w"
    using assms(1) by (simp add: startup_self_check_def Let_def not_less split: if_splits)
  have "u16_saturating_sub release w \<le> v"
  proof (cases "release < w")
    case False
    then have "uint (release - w) = uint release - uint w"
      by (intro uint_u16_sub) simp
    then show ?thesis
      using False assms(2,3) by (simp add: u16_saturating_sub_def word_le_def)
  qed (simp add: u16_saturating_sub_def)
  with floor assms(2) show ?thesis by simp
qed

lemma startup_check_tight:
  assumes "startup_self_check surface release mn w = Inl e"
  shows "\<exists>v. v \<le> release \<and> negotiate_surface surface release v w = Inr () \<and> v < mn"
proof (intro exI conjI)
  let ?v = "u16_saturating_sub release w"
  show "?v < mn"
    using assms by (simp add: startup_self_check_def Let_def split: if_splits)
  have "uint (release - w) = uint release - uint w" if "\<not> release < w"
    using that by (intro uint_u16_sub) simp
  then show "?v \<le> release" "negotiate_surface surface release ?v w = Inr ()"
    by (auto simp: u16_saturating_sub_def word_le_def word_less_def)
qed

text \<open>
  The two refusals of the combined check report the found version on different sides: as the
  remote one when it is out of bounds, as the local one when it is out of the window.
\<close>

lemma combined_check_out_of_bounds:
  "check_supported found mn mx = Inl e \<Longrightarrow>
     require_supported_and_in_window s found mn mx rel w =
       Inl (Refused \<lparr>nr_surface = s, nr_local = mx, nr_remote = found, nr_window = w\<rparr>)"
  by (simp add: require_supported_and_in_window_def)

lemma combined_check_out_of_window:
  "mn \<le> found \<Longrightarrow> found \<le> mx \<Longrightarrow> \<not> version_diff found rel \<le> w \<Longrightarrow>
     require_supported_and_in_window s found mn mx rel w =
       Inl (Refused \<lparr>nr_surface = s, nr_local = found, nr_remote = rel, nr_window = w\<rparr>)"
  by (simp add: require_supported_and_in_window_def negotiate_surface_def check_supported_def not_le [symmetric])

text \<open>The combined check does not run the start-up check: a build that fails that one passes this one.\<close>

lemma combined_check_skips_startup_check:
  "require_supported_and_in_window s 10 10 10 10 2 = Inr ()
   \<and> (\<exists>e. startup_self_check s 10 10 2 = Inl e)"
  by (simp add: require_supported_and_in_window_def negotiate_surface_def version_diff_def
      check_supported_def startup_self_check_def u16_saturating_sub_def Let_def)

end
