(* ===== verification/Coordination.thy ===== *)
theory Coordination
  imports Pillar_Core Rust_Collections
begin

text \<open>
  \<^verbatim>\<open>crates/pillar-coordination/src/lib.rs\<close>: the quorum-fenced lease register.
  One definition per method of \<open>LeaseRegister\<close>; a client's calls are a list of
  \<open>lease_op\<close>, executed by \<open>lease_run\<close>.
\<close>

section \<open>The register\<close>

datatype grant_error = StaleEpoch epoch

record lease_register =
  cluster_size :: nat
  grants :: "(node_id, epoch \<times> node_id) btree_map"
  holders :: "(epoch, node_id) btree_map"

definition lease_new :: "nat \<Rightarrow> lease_register" where
  "lease_new n = \<lparr>cluster_size = n, grants = btree_new, holders = btree_new\<rparr>"

definition is_quorum :: "lease_register \<Rightarrow> nat \<Rightarrow> bool" where
  "is_quorum r votes \<longleftrightarrow> 2 * votes > cluster_size r"

definition lease_grant ::
  "lease_register \<Rightarrow> node_id \<Rightarrow> node_id \<Rightarrow> epoch \<Rightarrow> grant_error + lease_register" where
  "lease_grant r voter candidate e =
     (case btree_get (grants r) voter of
        Some (current, _) \<Rightarrow>
          if e \<le> current then Inl (StaleEpoch current)
          else Inr (r\<lparr>grants := btree_insert voter (e, candidate) (grants r)\<rparr>)
      | None \<Rightarrow> Inr (r\<lparr>grants := btree_insert voter (e, candidate) (grants r)\<rparr>))"

definition lease_votes :: "lease_register \<Rightarrow> node_id \<Rightarrow> epoch \<Rightarrow> nat" where
  "lease_votes r candidate e =
     length (filter (\<lambda>(e', c). e' = e \<and> c = candidate) (btree_values (grants r)))"

definition lease_try_acquire ::
  "lease_register \<Rightarrow> node_id \<Rightarrow> epoch \<Rightarrow> bool \<times> lease_register" where
  "lease_try_acquire r candidate e =
     (case btree_get (holders r) e of
        Some existing \<Rightarrow> (existing = candidate, r)
      | None \<Rightarrow>
          if is_quorum r (lease_votes r candidate e)
          then (True, r\<lparr>holders := btree_insert e candidate (holders r)\<rparr>)
          else (False, r))"

definition lease_holder :: "lease_register \<Rightarrow> epoch \<Rightarrow> node_id option" where
  "lease_holder r e = btree_get (holders r) e"

definition lease_release ::
  "lease_register \<Rightarrow> node_id \<Rightarrow> epoch \<Rightarrow> bool \<times> lease_register" where
  "lease_release r holder e =
     (case btree_get (holders r) e of
        Some existing \<Rightarrow>
          if existing = holder then (True, r\<lparr>holders := btree_remove e (holders r)\<rparr>)
          else (False, r)
      | None \<Rightarrow> (False, r))"

section \<open>Sequences of calls\<close>

datatype lease_op =
    GrantOp node_id node_id epoch
  | AcquireOp node_id epoch
  | ReleaseOp node_id epoch

fun lease_exec :: "lease_register \<Rightarrow> lease_op \<Rightarrow> lease_register" where
  "lease_exec r (GrantOp v c e) = (case lease_grant r v c e of Inl _ \<Rightarrow> r | Inr r' \<Rightarrow> r')"
| "lease_exec r (AcquireOp c e) = snd (lease_try_acquire r c e)"
| "lease_exec r (ReleaseOp h e) = snd (lease_release r h e)"

definition lease_run :: "lease_register \<Rightarrow> lease_op list \<Rightarrow> lease_register" where
  "lease_run r ops = foldl lease_exec r ops"

fun lease_op_voters :: "lease_op \<Rightarrow> node_id set" where
  "lease_op_voters (GrantOp v c e) = {v}"
| "lease_op_voters _ = {}"

text \<open>The grants a run accepted, as a set of facts: the history the safety argument rests on.\<close>

fun lease_granted :: "lease_register \<Rightarrow> lease_op list \<Rightarrow> (node_id \<times> epoch \<times> node_id) set" where
  "lease_granted r [] = {}"
| "lease_granted r (x # xs) =
     (case x of
        GrantOp v c e \<Rightarrow> (case lease_grant r v c e of Inl _ \<Rightarrow> {} | Inr _ \<Rightarrow> {(v, e, c)})
      | _ \<Rightarrow> {}) \<union> lease_granted (lease_exec r x) xs"

section \<open>Single operations\<close>

lemma lease_votes_card:
  "lease_votes r c e = card {v. btree_get (grants r) v = Some (e, c)}"
proof -
  let ?P = "\<lambda>v. btree_get (grants r) v = Some (e, c)"
  have "lease_votes r c e = length (filter ?P (btree_keys (grants r)))"
    unfolding lease_votes_def btree_values_keys filter_map length_map comp_def
    by (rule arg_cong [where f = length], rule filter_cong)
      (auto simp: btree_keys_iff btree_contains_key_Some)
  also have "\<dots> = card (set (filter ?P (btree_keys (grants r))))"
    by (rule distinct_card [symmetric]) simp
  also have "set (filter ?P (btree_keys (grants r))) = {v. ?P v}"
    by (auto simp: btree_keys_iff btree_contains_key_Some)
  finally show ?thesis .
qed

lemma lease_grant_Inr:
  "lease_grant r v c e = Inr r' \<longleftrightarrow>
     (\<forall>e' c'. btree_get (grants r) v = Some (e', c') \<longrightarrow> e' < e)
     \<and> r' = r\<lparr>grants := btree_insert v (e, c) (grants r)\<rparr>"
  by (auto simp: lease_grant_def split: option.splits if_splits)

lemma lease_grant_Inl:
  "lease_grant r v c e = Inl err \<longleftrightarrow>
     (\<exists>e' c'. btree_get (grants r) v = Some (e', c') \<and> e \<le> e' \<and> err = StaleEpoch e')"
  by (auto simp: lease_grant_def split: option.splits if_splits)

lemma lease_try_acquire_fst:
  "fst (lease_try_acquire r c e) \<longleftrightarrow>
     (case lease_holder r e of
        Some h \<Rightarrow> h = c
      | None \<Rightarrow> 2 * card {v. btree_get (grants r) v = Some (e, c)} > cluster_size r)"
  by (auto simp: lease_try_acquire_def lease_holder_def is_quorum_def lease_votes_card
      split: option.splits)

lemma lease_holder_try_acquire:
  "lease_holder (snd (lease_try_acquire r c e)) e' =
     (if e' = e \<and> fst (lease_try_acquire r c e) then Some c else lease_holder r e')"
  by (auto simp: lease_try_acquire_def lease_holder_def split: option.splits)

lemma lease_holder_release:
  "lease_holder (snd (lease_release r h e)) e' =
     (if e' = e \<and> lease_holder r e = Some h then None else lease_holder r e')"
  by (auto simp: lease_release_def lease_holder_def split: option.splits)

lemma lease_exec_cluster_size [simp]: "cluster_size (lease_exec r x) = cluster_size r"
  by (cases x) (auto simp: lease_grant_def lease_try_acquire_def lease_release_def
      split: option.splits sum.splits prod.splits)

lemma lease_run_Nil [simp]: "lease_run r [] = r"
  by (simp add: lease_run_def)

lemma lease_run_Cons [simp]: "lease_run r (x # xs) = lease_run (lease_exec r x) xs"
  by (simp add: lease_run_def)

lemma lease_run_append: "lease_run r (xs @ ys) = lease_run (lease_run r xs) ys"
  by (simp add: lease_run_def)

lemma lease_run_cluster_size [simp]: "cluster_size (lease_run r xs) = cluster_size r"
  by (induction xs arbitrary: r) auto

lemma grants_exec:
  "grants (lease_exec r x) =
     (case x of
        GrantOp v c e \<Rightarrow> (case lease_grant r v c e of
            Inl _ \<Rightarrow> grants r | Inr _ \<Rightarrow> btree_insert v (e, c) (grants r))
      | _ \<Rightarrow> grants r)"
  by (cases x) (auto simp: lease_grant_def lease_try_acquire_def lease_release_def
      split: option.splits if_splits)

section \<open>The history invariant\<close>

text \<open>
  \<open>H\<close> is the set of grants accepted so far. Each voter backs one candidate per epoch, the
  register remembers a voter's last grant only, and a recorded holder was backed by a majority
  of grants of \<open>H\<close>.
\<close>

definition lease_hist_inv :: "(node_id \<times> epoch \<times> node_id) set \<Rightarrow> lease_register \<Rightarrow> bool" where
  "lease_hist_inv H r \<longleftrightarrow>
     finite H
     \<and> (\<forall>v e c. btree_get (grants r) v = Some (e, c) \<longrightarrow> (v, e, c) \<in> H)
     \<and> (\<forall>v e c. (v, e, c) \<in> H \<longrightarrow> (\<exists>e' c'. btree_get (grants r) v = Some (e', c') \<and> e \<le> e'))
     \<and> (\<forall>v e c c'. (v, e, c) \<in> H \<longrightarrow> (v, e, c') \<in> H \<longrightarrow> c = c')
     \<and> (\<forall>e c. lease_holder r e = Some c \<longrightarrow> 2 * card {v. (v, e, c) \<in> H} > cluster_size r)"

lemma lease_hist_inv_new: "lease_hist_inv {} (lease_new n)"
  by (simp add: lease_hist_inv_def lease_new_def lease_holder_def)

lemma finite_voters: "finite H \<Longrightarrow> finite {v. (v, e, c) \<in> H}"
  by (rule finite_subset [of _ "fst ` H"]) force+

lemma lease_hist_invD:
  assumes "lease_hist_inv H r"
  shows "finite H"
    and "btree_get (grants r) v = Some (e, c) \<Longrightarrow> (v, e, c) \<in> H"
    and "(v, e, c) \<in> H \<Longrightarrow> \<exists>e' c'. btree_get (grants r) v = Some (e', c') \<and> e \<le> e'"
    and "(v, e, c) \<in> H \<Longrightarrow> (v, e, c') \<in> H \<Longrightarrow> c = c'"
    and "lease_holder r e = Some c \<Longrightarrow> 2 * card {v. (v, e, c) \<in> H} > cluster_size r"
  using assms unfolding lease_hist_inv_def by blast+

lemma lease_hist_inv_grant:
  assumes inv: "lease_hist_inv H r" and g: "lease_grant r v c e = Inr r'"
  shows "lease_hist_inv (insert (v, e, c) H) r'"
proof -
  note invD = lease_hist_invD [OF inv]
  have r': "r' = r\<lparr>grants := btree_insert v (e, c) (grants r)\<rparr>"
    and above: "\<And>e' c'. btree_get (grants r) v = Some (e', c') \<Longrightarrow> e' < e"
    using g by (auto simp: lease_grant_Inr)
  have below: "e' < e" if "(v, e', c') \<in> H" for e' c'
    using invD(3) [OF that] above by (meson le_less_trans)
  show ?thesis unfolding lease_hist_inv_def
  proof (intro conjI allI impI)
    show "finite (insert (v, e, c) H)" using invD(1) by simp
  next
    fix u e' c'
    assume "btree_get (grants r') u = Some (e', c')"
    then show "(u, e', c') \<in> insert (v, e, c) H"
      using invD(2) [of u] by (auto simp: r' split: if_splits)
  next
    fix u e' c'
    assume "(u, e', c') \<in> insert (v, e, c) H"
    then show "\<exists>e'' c''. btree_get (grants r') u = Some (e'', c'') \<and> e' \<le> e''"
      using invD(3) [of u e' c'] below [of e' c'] by (cases "u = v") (auto simp: r')
  next
    fix u e' c1 c2
    assume "(u, e', c1) \<in> insert (v, e, c) H" "(u, e', c2) \<in> insert (v, e, c) H"
    then show "c1 = c2" using invD(4) below by blast
  next
    fix e' c'
    assume "lease_holder r' e' = Some c'"
    then have "2 * card {u. (u, e', c') \<in> H} > cluster_size r'"
      using invD(5) [of e' c'] by (simp add: r' lease_holder_def)
    moreover have "card {u. (u, e', c') \<in> H} \<le> card {u. (u, e', c') \<in> insert (v, e, c) H}"
      using invD(1) by (intro card_mono finite_voters) auto
    ultimately show "2 * card {u. (u, e', c') \<in> insert (v, e, c) H} > cluster_size r'"
      by linarith
  qed
qed

lemma lease_hist_inv_acquire:
  assumes inv: "lease_hist_inv H r"
  shows "lease_hist_inv H (snd (lease_try_acquire r c e))"
proof -
  let ?r = "snd (lease_try_acquire r c e)"
  have same: "grants ?r = grants r" "cluster_size ?r = cluster_size r"
    using grants_exec [of r "AcquireOp c e"] lease_exec_cluster_size [of r "AcquireOp c e"] by simp_all
  have "card {v. btree_get (grants r) v = Some (e, c)} \<le> card {v. (v, e, c) \<in> H}"
    using inv by (intro card_mono finite_voters) (auto simp: lease_hist_inv_def)
  then have "2 * card {v. (v, e', c') \<in> H} > cluster_size r"
    if "lease_holder ?r e' = Some c'" for e' c'
    using that inv
    by (auto simp: lease_holder_try_acquire lease_try_acquire_fst lease_hist_inv_def
        split: if_splits option.splits)
  with inv show ?thesis by (simp add: lease_hist_inv_def same)
qed

lemma lease_hist_inv_release:
  assumes inv: "lease_hist_inv H r"
  shows "lease_hist_inv H (snd (lease_release r h e))"
proof -
  let ?r = "snd (lease_release r h e)"
  have same: "grants ?r = grants r" "cluster_size ?r = cluster_size r"
    using grants_exec [of r "ReleaseOp h e"] lease_exec_cluster_size [of r "ReleaseOp h e"] by simp_all
  then show ?thesis using inv by (auto simp: lease_hist_inv_def lease_holder_release split: if_splits)
qed

lemma lease_hist_inv_run:
  "lease_hist_inv H r \<Longrightarrow> lease_hist_inv (H \<union> lease_granted r xs) (lease_run r xs)"
proof (induction xs arbitrary: H r)
  case Nil
  then show ?case by simp
next
  case (Cons x xs)
  let ?new = "case x of
        GrantOp v c e \<Rightarrow> (case lease_grant r v c e of Inl _ \<Rightarrow> {} | Inr _ \<Rightarrow> {(v, e, c)})
      | _ \<Rightarrow> {}"
  have "lease_hist_inv (H \<union> ?new) (lease_exec r x)"
    using Cons.prems lease_hist_inv_grant lease_hist_inv_acquire lease_hist_inv_release
    by (cases x) (auto split: sum.splits)
  from Cons.IH [OF this] show ?case by (simp add: Un_assoc)
qed

lemma lease_granted_append:
  "lease_granted r (xs @ ys) = lease_granted r xs \<union> lease_granted (lease_run r xs) ys"
  by (induction xs arbitrary: r) auto

lemma lease_granted_voters:
  "(v, e, c) \<in> lease_granted r xs \<Longrightarrow> v \<in> \<Union> (lease_op_voters ` set xs)"
  by (induction xs arbitrary: r) (auto split: lease_op.splits sum.splits)

text \<open>Two majorities of one epoch's grants share a voter, so they back the same candidate.\<close>

lemma majority_candidate_unique:
  assumes inv: "lease_hist_inv H r"
    and V: "finite V" "card V \<le> n" "\<And>v e c. (v, e, c) \<in> H \<Longrightarrow> v \<in> V"
    and a: "2 * card {v. (v, e, a) \<in> H} > n" and b: "2 * card {v. (v, e, b) \<in> H} > n"
  shows "a = b"
proof -
  have "{v. (v, e, a) \<in> H} \<inter> {v. (v, e, b) \<in> H} \<noteq> {}"
    using V a b by (intro card_majorities_meet [of V _ _ n]) auto
  then obtain v where "(v, e, a) \<in> H" "(v, e, b) \<in> H" by blast
  with inv show ?thesis unfolding lease_hist_inv_def by blast
qed

lemma holder_stable:
  assumes V: "finite V" "card V \<le> n" "\<Union> (lease_op_voters ` set (ops @ later)) \<subseteq> V"
    and a: "lease_holder (lease_run (lease_new n) ops) e = Some a"
    and b: "lease_holder (lease_run (lease_new n) (ops @ later)) e = Some b"
  shows "a = b"
proof -
  let ?r = "lease_new n" and ?H = "lease_granted (lease_new n) ops"
  let ?G = "lease_granted (lease_new n) (ops @ later)"
  have inv: "lease_hist_inv ?H (lease_run ?r ops)" "lease_hist_inv ?G (lease_run ?r (ops @ later))"
    using lease_hist_inv_run [OF lease_hist_inv_new] by simp_all
  have size: "cluster_size (lease_run ?r xs) = n" for xs
    by (simp add: lease_new_def)
  have "card {v. (v, e, a) \<in> ?H} \<le> card {v. (v, e, a) \<in> ?G}"
    using inv(2) by (intro card_mono finite_voters) (auto simp: lease_hist_inv_def lease_granted_append)
  moreover have "2 * card {v. (v, e, a) \<in> ?H} > n" "2 * card {v. (v, e, b) \<in> ?G} > n"
    using inv a b size unfolding lease_hist_inv_def by metis+
  moreover have "v \<in> V" if "(v, e', c) \<in> ?G" for v e' c
    using lease_granted_voters [OF that] V(3) by blast
  ultimately show ?thesis
    using majority_candidate_unique [OF inv(2) V(1,2), of e a b] by simp
qed

text \<open>At any one time no two candidates have a quorum for the same epoch.\<close>

lemma quorum_unique:
  assumes V: "finite V" "card V \<le> n" "\<Union> (lease_op_voters ` set ops) \<subseteq> V"
    and r: "r = lease_run (lease_new n) ops"
    and "is_quorum r (lease_votes r a e)" "is_quorum r (lease_votes r b e)"
  shows "a = b"
proof -
  let ?H = "lease_granted (lease_new n) ops"
  have inv: "lease_hist_inv ?H r" using lease_hist_inv_run [OF lease_hist_inv_new] r by simp
  have "lease_votes r c e \<le> card {v. (v, e, c) \<in> ?H}" for c
    unfolding lease_votes_card
    using lease_hist_invD(1,2) [OF inv] by (intro card_mono finite_voters) auto
  moreover have "cluster_size r = n" by (simp add: r lease_new_def)
  ultimately have "2 * card {v. (v, e, c) \<in> ?H} > n" if "is_quorum r (lease_votes r c e)" for c
    using that by (simp add: is_quorum_def) (meson less_le_trans mult_le_mono2)
  moreover have "v \<in> V" if "(v, e', c) \<in> ?H" for v e' c
    using lease_granted_voters [OF that] V(3) by blast
  ultimately show ?thesis using majority_candidate_unique [OF inv V(1,2)] assms(5,6) by blast
qed

section \<open>The contract of the register's clients\<close>

text \<open>
  The allocator of \<open>pillar-ipam\<close> and the ledger of \<open>pillar-quota-ledger\<close> own a
  register and drive it only through its methods. A component whose every operation acts on its
  register as some list of register calls inherits the exclusion of the register.
\<close>

locale lease_client =
  fixes register :: "'s \<Rightarrow> lease_register"
    and exec :: "'s \<Rightarrow> 'op \<Rightarrow> 's"
    and calls :: "'s \<Rightarrow> 'op \<Rightarrow> lease_op list"
  assumes register_exec: "register (exec s x) = lease_run (register s) (calls s x)"
begin

lemma register_run:
  "\<exists>cs. register (foldl exec s xs) = lease_run (register s) cs
      \<and> set cs \<subseteq> (\<Union>t. \<Union>x\<in>set xs. set (calls t x))"
proof (induction xs arbitrary: s)
  case Nil
  show ?case by (rule exI [of _ "[]"]) simp
next
  case (Cons x xs)
  from Cons.IH [of "exec s x"] obtain cs where
    "register (foldl exec (exec s x) xs) = lease_run (register (exec s x)) cs"
    and sub: "set cs \<subseteq> (\<Union>t. \<Union>x\<in>set xs. set (calls t x))"
    by blast
  then have "register (foldl exec s (x # xs)) = lease_run (register s) (calls s x @ cs)"
    by (simp add: register_exec lease_run_append)
  moreover have "set (calls s x @ cs) \<subseteq> (\<Union>t. \<Union>y\<in>set (x # xs). set (calls t y))"
    using sub by (simp add: subset_iff) blast
  ultimately show ?case by blast
qed

lemma client_holder_stable:
  assumes init: "register s = lease_new n"
    and V: "finite V" "card V \<le> n"
      "\<And>t x. x \<in> set (xs @ ys) \<Longrightarrow> \<Union> (lease_op_voters ` set (calls t x)) \<subseteq> V"
    and a: "lease_holder (register (foldl exec s xs)) e = Some a"
    and b: "lease_holder (register (foldl exec s (xs @ ys))) e = Some b"
  shows "a = b"
proof -
  obtain cs where cs: "register (foldl exec s xs) = lease_run (lease_new n) cs"
    "set cs \<subseteq> (\<Union>t. \<Union>x\<in>set xs. set (calls t x))"
    using register_run [of s xs] init by auto
  obtain ds where ds: "register (foldl exec (foldl exec s xs) ys) = lease_run (lease_run (lease_new n) cs) ds"
    "set ds \<subseteq> (\<Union>t. \<Union>x\<in>set ys. set (calls t x))"
    using register_run [of "foldl exec s xs" ys] cs(1) by auto
  have "\<Union> (lease_op_voters ` set (cs @ ds)) \<subseteq> V"
    using cs(2) ds(2) V(3) by (fastforce simp: subset_iff)
  then show ?thesis
    using holder_stable [OF V(1,2), of cs ds e a b] a b cs(1) ds(1)
    by (simp add: lease_run_append)
qed

lemma client_quorum_unique:
  assumes init: "register s = lease_new n"
    and V: "finite V" "card V \<le> n"
      "\<And>t x. x \<in> set xs \<Longrightarrow> \<Union> (lease_op_voters ` set (calls t x)) \<subseteq> V"
    and r: "r = register (foldl exec s xs)"
    and "is_quorum r (lease_votes r a e)" "is_quorum r (lease_votes r b e)"
  shows "a = b"
proof -
  obtain cs where cs: "register (foldl exec s xs) = lease_run (lease_new n) cs"
    "set cs \<subseteq> (\<Union>t. \<Union>x\<in>set xs. set (calls t x))"
    using register_run [of s xs] init by auto
  have "\<Union> (lease_op_voters ` set cs) \<subseteq> V" using cs(2) V(3) by (fastforce simp: subset_iff)
  then show ?thesis using quorum_unique [OF V(1,2)] cs(1) r assms(6,7) by simp
qed

end

interpretation lease_self: lease_client "\<lambda>r. r" lease_exec "\<lambda>_ x. [x]"
  by unfold_locales simp

section \<open>Properties\<close>

text \<open>
  \<^bold>\<open>C1.\<close> \<open>AtMostOneHolderPerEpoch\<close>: whatever calls are made, in whatever order,
  with releases in between, an epoch that was once held by \<open>a\<close> is never held by another
  node, provided the voters of the calls are at most \<open>cluster_size\<close> distinct nodes.
\<close>

theorem at_most_one_holder_per_epoch:
  assumes "finite V" "card V \<le> n" "\<Union> (lease_op_voters ` set (ops @ later)) \<subseteq> V"
    and "lease_holder (lease_run (lease_new n) ops) e = Some a"
    and "lease_holder (lease_run (lease_new n) (ops @ later)) e = Some b"
  shows "a = b"
  using assms by (rule holder_stable)

text \<open>
  The witness: three voters, the lease is acquired, released, contested by the remaining voter and
  acquired again by the same node.
\<close>

definition lease_demo_ops :: "lease_op list" where
  "lease_demo_ops = [GrantOp ''n1'' ''cA'' 1, GrantOp ''n2'' ''cA'' 1, AcquireOp ''cA'' 1]"

definition lease_demo_later :: "lease_op list" where
  "lease_demo_later =
     [ReleaseOp ''cA'' 1, GrantOp ''n3'' ''cB'' 1, AcquireOp ''cB'' 1, AcquireOp ''cA'' 1]"

lemma lease_demo_holders:
  "lease_holder (lease_run (lease_new 3) lease_demo_ops) 1 = Some ''cA''"
  "lease_holder (lease_run (lease_new 3) (lease_demo_ops @ lease_demo_later)) 1 = Some ''cA''"
  by code_simp+

theorem at_most_one_holder_per_epoch_witness:
  "lease_holder (lease_run (lease_new 3) (lease_demo_ops @ lease_demo_later)) 1 = Some ''cA''
   \<and> (''cA'' :: node_id) = ''cA''"
  using at_most_one_holder_per_epoch [of "{''n1'', ''n2'', ''n3''}" 3 lease_demo_ops lease_demo_later
      1 "''cA''" "''cA''", OF _ _ _ lease_demo_holders] lease_demo_holders(2)
  by (simp add: lease_demo_ops_def lease_demo_later_def)

text \<open>
  The bound on the voters is needed: the register never checks that a voter is one
  of its \<open>cluster_size\<close> nodes. With two outside voters, a register of a cluster of three
  hands one epoch to two nodes in turn.
\<close>

theorem unregistered_voters_split_epoch:
  "\<exists>ops later. length ops = 3 \<and> length later = 4
     \<and> lease_holder (lease_run (lease_new 3) ops) 1 = Some ''cA''
     \<and> lease_holder (lease_run (lease_new 3) (ops @ later)) 1 = Some ''cB''"
proof (intro exI conjI)
  let ?later = "[ReleaseOp ''cA'' 1, GrantOp ''n3'' ''cB'' 1, GrantOp ''n4'' ''cB'' 1,
      AcquireOp ''cB'' 1]"
  show "length lease_demo_ops = 3" by (simp add: lease_demo_ops_def)
  show "length ?later = 4" by simp
  show "lease_holder (lease_run (lease_new 3) lease_demo_ops) 1 = Some ''cA''" by code_simp
  show "lease_holder (lease_run (lease_new 3) (lease_demo_ops @ ?later)) 1 = Some ''cB''" by code_simp
qed

text \<open>
  The decision of \<open>try_acquire\<close> on every branch: it answers yes exactly when
  the candidate already holds the epoch, or nobody does and a strict majority of
  \<open>cluster_size\<close> voters currently back the candidate at that epoch; a yes records the
  candidate, a no changes no holder, and no other epoch is touched.
\<close>

theorem try_acquire_decision:
  "(fst (lease_try_acquire r c e) \<longleftrightarrow>
      lease_holder r e = Some c
      \<or> (lease_holder r e = None
         \<and> 2 * card {v. btree_get (grants r) v = Some (e, c)} > cluster_size r))
   \<and> (\<forall>e'. lease_holder (snd (lease_try_acquire r c e)) e' =
        (if e' = e \<and> fst (lease_try_acquire r c e) then Some c else lease_holder r e'))"
  by (auto simp: lease_try_acquire_fst lease_holder_try_acquire split: option.splits)

lemma lease_exec_voter_mono:
  assumes "btree_get (grants r) v = Some (e, c)"
  shows "\<exists>e' c'. btree_get (grants (lease_exec r x)) v = Some (e', c') \<and> e \<le> e'"
  using assms by (auto simp: grants_exec lease_grant_Inr split: lease_op.splits sum.splits)

lemma lease_run_voter_mono:
  assumes "btree_get (grants r) v = Some (e, c)"
  shows "\<exists>e' c'. btree_get (grants (lease_run r xs)) v = Some (e', c') \<and> e \<le> e'"
  using assms
proof (induction xs arbitrary: r e c)
  case Nil
  then show ?case by simp
next
  case (Cons x xs)
  from lease_exec_voter_mono [OF Cons.prems, of x] obtain e' c' where
    "btree_get (grants (lease_exec r x)) v = Some (e', c')" "e \<le> e'" by blast
  with Cons.IH [of "lease_exec r x" e' c'] show ?case by (auto intro: order_trans)
qed

text \<open>
  A voter's granted epoch never goes back: along any sequence of calls the epoch
  recorded for a voter only grows, so a grant at or below it stays refused for ever.
\<close>

theorem stale_grant_refused_forever:
  assumes "btree_get (grants r) v = Some (e, c)" and "e' \<le> e"
  shows "\<exists>cur. lease_grant (lease_run r ops) v c' e' = Inl (StaleEpoch cur) \<and> e \<le> cur"
  using lease_run_voter_mono [OF assms(1), of ops] assms(2)
  by (auto simp: lease_grant_Inl intro: order_trans)

theorem stale_grant_refused_forever_witness:
  "\<exists>cur. lease_grant (lease_run (lease_run (lease_new 3) lease_demo_ops) lease_demo_later)
      ''n1'' ''cB'' 1 = Inl (StaleEpoch cur) \<and> 1 \<le> cur"
proof -
  have "btree_get (grants (lease_run (lease_new 3) lease_demo_ops)) ''n1'' = Some (1, ''cA'')"
    by code_simp
  from stale_grant_refused_forever [OF this, of 1] show ?thesis by simp
qed

text \<open>
  \<open>release\<close> and \<open>try_acquire\<close> round-trip: the holder of an epoch whose
  majority still stands releases it and takes it again, and the register is what it was; a
  release by anyone else changes nothing.
\<close>

theorem release_reacquire_roundtrip:
  assumes "lease_holder r e = Some h"
    and "2 * card {v. btree_get (grants r) v = Some (e, h)} > cluster_size r"
  shows "lease_release r h e = (True, snd (lease_release r h e))
    \<and> lease_holder (snd (lease_release r h e)) e = None
    \<and> lease_try_acquire (snd (lease_release r h e)) h e = (True, r)
    \<and> (\<forall>other. other = h \<or> lease_release r other e = (False, r))"
proof -
  have rel: "lease_release r h e = (True, r\<lparr>holders := btree_remove e (holders r)\<rparr>)"
    using assms by (simp add: lease_release_def lease_holder_def)
  have "btree_insert e h (btree_remove e (holders r)) = holders r"
    using assms(1) by (intro btree_ext) (auto simp: lease_holder_def)
  then show ?thesis using assms
    by (auto simp: rel lease_holder_def lease_try_acquire_def is_quorum_def lease_votes_card
        lease_release_def)
qed

theorem release_reacquire_roundtrip_witness:
  "lease_try_acquire (snd (lease_release (lease_run (lease_new 3) lease_demo_ops) ''cA'' 1)) ''cA'' 1
     = (True, lease_run (lease_new 3) lease_demo_ops)"
proof -
  let ?r = "lease_run (lease_new 3) lease_demo_ops"
  have "is_quorum ?r (lease_votes ?r ''cA'' 1)" by code_simp
  then have "2 * card {v. btree_get (grants ?r) v = Some (1, ''cA'')} > cluster_size ?r"
    by (simp add: is_quorum_def lease_votes_card)
  from release_reacquire_roundtrip [OF lease_demo_holders(1) this] show ?thesis by simp
qed

end
