(* ===== verification/Ipam.thy ===== *)
theory Ipam
  imports Topology Coordination
begin

text \<open>
  \<^verbatim>\<open>crates/pillar-ipam/src/lib.rs\<close>: delegated address pools, the quorum-fenced allocator
  over one pool, and the topology-scoped allocation over many. An allocator is a client of the
  lease register (locale \<open>lease_client\<close>): the slot of an address is its epoch.

  \<open>allocator_for\<close> returns a mutable reference; here it is the pair of a lookup and
  \<open>put_allocator\<close>, which writes the updated allocator back to the same place. Arithmetic on
  \<open>u128\<close> is that of a build without overflow checks.
\<close>

section \<open>Pools\<close>

datatype ip_addr = V4 u32 | V6 u128

fun is_ipv6 :: "ip_addr \<Rightarrow> bool" where
  "is_ipv6 (V4 _) = False"
| "is_ipv6 (V6 _) = True"

record pool =
  po_base :: ip_addr
  po_len :: u64

datatype alloc_error = OutOfPool ip_addr | Grant grant_error

fun ip_to_u128 :: "ip_addr \<Rightarrow> u128" where
  "ip_to_u128 (V4 v) = ucast v"
| "ip_to_u128 (V6 v) = v"

definition pool_new :: "ip_addr \<Rightarrow> u64 \<Rightarrow> pool" where
  "pool_new base len = \<lparr>po_base = base, po_len = len\<rparr>"

definition pool_is_empty :: "pool \<Rightarrow> bool" where
  "pool_is_empty p \<longleftrightarrow> po_len p = 0"

definition checked_sub :: "u128 \<Rightarrow> u128 \<Rightarrow> u128 option" where
  "checked_sub a b = (if a < b then None else Some (a - b))"

definition index_of :: "pool \<Rightarrow> ip_addr \<Rightarrow> u64 option" where
  "index_of p addr =
     (if is_ipv6 (po_base p) \<noteq> is_ipv6 addr then None
      else case checked_sub (ip_to_u128 addr) (ip_to_u128 (po_base p)) of
             None \<Rightarrow> None
           | Some offset \<Rightarrow> if offset < ucast (po_len p) then Some (ucast offset) else None)"

definition addr_at :: "pool \<Rightarrow> u64 \<Rightarrow> ip_addr option" where
  "addr_at p index =
     (if index \<ge> po_len p then None
      else let raw = ip_to_u128 (po_base p) + ucast index in
           Some (case po_base p of V4 _ \<Rightarrow> V4 (ucast raw) | V6 _ \<Rightarrow> V6 raw))"

definition pool_contains :: "pool \<Rightarrow> ip_addr \<Rightarrow> bool" where
  "pool_contains p addr \<longleftrightarrow> index_of p addr \<noteq> None"

section \<open>The allocator of one pool\<close>

record delegated_allocator =
  da_pool :: pool
  da_register :: lease_register

definition allocator_new :: "pool \<Rightarrow> nat \<Rightarrow> delegated_allocator" where
  "allocator_new p n = \<lparr>da_pool = p, da_register = lease_new n\<rparr>"

definition epoch_of :: "delegated_allocator \<Rightarrow> ip_addr \<Rightarrow> alloc_error + epoch" where
  "epoch_of d addr =
     (case index_of (da_pool d) addr of None \<Rightarrow> Inl (OutOfPool addr) | Some i \<Rightarrow> Inr i)"

definition allocator_grant ::
  "delegated_allocator \<Rightarrow> node_id \<Rightarrow> node_id \<Rightarrow> ip_addr \<Rightarrow> alloc_error + delegated_allocator" where
  "allocator_grant d voter actor addr =
     (case epoch_of d addr of
        Inl e \<Rightarrow> Inl e
      | Inr ep \<Rightarrow>
          (case lease_grant (da_register d) voter actor ep of
             Inl e \<Rightarrow> Inl (Grant e)
           | Inr r \<Rightarrow> Inr (d\<lparr>da_register := r\<rparr>)))"

definition try_allocate ::
  "delegated_allocator \<Rightarrow> node_id \<Rightarrow> ip_addr \<Rightarrow> alloc_error + (bool \<times> delegated_allocator)" where
  "try_allocate d actor addr =
     (case epoch_of d addr of
        Inl e \<Rightarrow> Inl e
      | Inr ep \<Rightarrow>
          (case lease_try_acquire (da_register d) actor ep of
             (ok, r) \<Rightarrow> Inr (ok, d\<lparr>da_register := r\<rparr>)))"

definition allocator_of :: "delegated_allocator \<Rightarrow> ip_addr \<Rightarrow> node_id option" where
  "allocator_of d addr =
     (case index_of (da_pool d) addr of
        None \<Rightarrow> None
      | Some i \<Rightarrow> lease_holder (da_register d) i)"

definition allocator_release ::
  "delegated_allocator \<Rightarrow> node_id \<Rightarrow> ip_addr \<Rightarrow> bool \<times> delegated_allocator" where
  "allocator_release d holder addr =
     (case index_of (da_pool d) addr of
        None \<Rightarrow> (False, d)
      | Some i \<Rightarrow>
          (case lease_release (da_register d) holder i of (ok, r) \<Rightarrow> (ok, d\<lparr>da_register := r\<rparr>)))"

section \<open>Topology-scoped allocation\<close>

datatype scoped_error =
    NoScopeForNode node_id string
  | NoPoolForScope label bool
  | ScopedUnknownTier string
  | Alloc alloc_error

record scoped_pools =
  sp_v4 :: "delegated_allocator option"
  sp_v6 :: "delegated_allocator option"

record scoped_ipam =
  si_tier :: string
  si_pools :: "(string, scoped_pools) btree_map"
  si_topology :: topology

definition ipam_new :: "topology \<Rightarrow> string \<Rightarrow> scoped_error + scoped_ipam" where
  "ipam_new t tier =
     (if tier_rank (to_hierarchy t) tier = None then Inl (ScopedUnknownTier tier)
      else Inr \<lparr>si_tier = tier, si_pools = btree_new, si_topology = t\<rparr>)"

definition bind_pool :: "scoped_ipam \<Rightarrow> string \<Rightarrow> pool \<Rightarrow> nat \<Rightarrow> scoped_ipam" where
  "bind_pool s v p n =
     (let entry = (case btree_get (si_pools s) v of
                     Some e \<Rightarrow> e | None \<Rightarrow> \<lparr>sp_v4 = None, sp_v6 = None\<rparr>);
          alloc = allocator_new p n;
          entry' = (case po_base p of
                      V4 _ \<Rightarrow> entry\<lparr>sp_v4 := Some alloc\<rparr> | V6 _ \<Rightarrow> entry\<lparr>sp_v6 := Some alloc\<rparr>)
      in s\<lparr>si_pools := btree_insert v entry' (si_pools s)\<rparr>)"

definition scope_of :: "scoped_ipam \<Rightarrow> node_id \<Rightarrow> scoped_error + string" where
  "scope_of s n =
     (case domain_of (si_topology s) (si_tier s) n of
        None \<Rightarrow> Inl (NoScopeForNode n (si_tier s))
      | Some v \<Rightarrow> Inr v)"

definition pool_slot :: "bool \<Rightarrow> scoped_pools \<Rightarrow> delegated_allocator option" where
  "pool_slot want_v6 e = (if want_v6 then sp_v6 e else sp_v4 e)"

definition allocator_for :: "scoped_ipam \<Rightarrow> node_id \<Rightarrow> bool \<Rightarrow> scoped_error + (string \<times> delegated_allocator)" where
  "allocator_for s n want_v6 =
     (case scope_of s n of
        Inl e \<Rightarrow> Inl e
      | Inr scope \<Rightarrow>
          (case btree_get (si_pools s) scope of
             None \<Rightarrow> Inl (NoPoolForScope \<lparr>lb_tier = si_tier s, lb_value = scope\<rparr> want_v6)
           | Some entry \<Rightarrow>
               (case pool_slot want_v6 entry of
                  None \<Rightarrow> Inl (NoPoolForScope \<lparr>lb_tier = si_tier s, lb_value = scope\<rparr> want_v6)
                | Some alloc \<Rightarrow> Inr (scope, alloc))))"

definition put_allocator :: "scoped_ipam \<Rightarrow> string \<Rightarrow> bool \<Rightarrow> delegated_allocator \<Rightarrow> scoped_ipam" where
  "put_allocator s scope want_v6 d =
     (case btree_get (si_pools s) scope of
        None \<Rightarrow> s
      | Some entry \<Rightarrow>
          s\<lparr>si_pools := btree_insert scope
              (if want_v6 then entry\<lparr>sp_v6 := Some d\<rparr> else entry\<lparr>sp_v4 := Some d\<rparr>) (si_pools s)\<rparr>)"

definition grant_for ::
  "scoped_ipam \<Rightarrow> node_id \<Rightarrow> node_id \<Rightarrow> ip_addr \<Rightarrow> scoped_error + scoped_ipam" where
  "grant_for s voter n addr =
     (case allocator_for s n (is_ipv6 addr) of
        Inl e \<Rightarrow> Inl e
      | Inr (scope, d) \<Rightarrow>
          (case allocator_grant d voter n addr of
             Inl e \<Rightarrow> Inl (Alloc e)
           | Inr d' \<Rightarrow> Inr (put_allocator s scope (is_ipv6 addr) d')))"

definition allocate_for ::
  "scoped_ipam \<Rightarrow> node_id \<Rightarrow> ip_addr \<Rightarrow> scoped_error + (bool \<times> scoped_ipam)" where
  "allocate_for s n addr =
     (case allocator_for s n (is_ipv6 addr) of
        Inl e \<Rightarrow> Inl e
      | Inr (scope, d) \<Rightarrow>
          (case try_allocate d n addr of
             Inl e \<Rightarrow> Inl (Alloc e)
           | Inr (ok, d') \<Rightarrow> Inr (ok, put_allocator s scope (is_ipv6 addr) d')))"

text \<open>A slot with a non-empty pool of the family; the ranking of \<open>diversity_addrs\<close>.\<close>

definition slot_usable :: "bool \<Rightarrow> scoped_pools \<Rightarrow> bool" where
  "slot_usable want_v6 e =
     (case pool_slot want_v6 e of None \<Rightarrow> False | Some d \<Rightarrow> \<not> pool_is_empty (da_pool d))"

definition domain_preference :: "(string, u64) btree_map option \<Rightarrow> string \<Rightarrow> u64" where
  "domain_preference pref v =
     (case pref of
        None \<Rightarrow> - 1
      | Some m \<Rightarrow> (case btree_get m v of None \<Rightarrow> - 1 | Some x \<Rightarrow> x))"

definition ranked_domains ::
  "scoped_ipam \<Rightarrow> bool \<Rightarrow> (string, u64) btree_map option \<Rightarrow> (string \<times> scoped_pools) list" where
  "ranked_domains s want_v6 pref =
     sort_key (\<lambda>(v, _). (domain_preference pref v, v))
       (filter (\<lambda>(_, e). slot_usable want_v6 e) (btree_iter (si_pools s)))"

fun diversity_loop :: "nat \<Rightarrow> bool \<Rightarrow> (string \<times> scoped_pools) list \<Rightarrow> ip_addr list \<Rightarrow> ip_addr list" where
  "diversity_loop k want_v6 [] out = out"
| "diversity_loop k want_v6 ((_, e) # rest) out =
     (if length out = k then out
      else diversity_loop k want_v6 rest
             (case pool_slot want_v6 e of
                None \<Rightarrow> out
              | Some d \<Rightarrow> (case addr_at (da_pool d) 0 of None \<Rightarrow> out | Some a \<Rightarrow> out @ [a])))"

definition diversity_addrs ::
  "scoped_ipam \<Rightarrow> nat \<Rightarrow> bool \<Rightarrow> (string, u64) btree_map option \<Rightarrow> ip_addr list" where
  "diversity_addrs s k want_v6 pref = diversity_loop k want_v6 (ranked_domains s want_v6 pref) []"

definition available_diversity :: "scoped_ipam \<Rightarrow> bool \<Rightarrow> nat" where
  "available_diversity s want_v6 = length (filter (slot_usable want_v6) (btree_values (si_pools s)))"

section \<open>Slots of a pool\<close>

definition ip_width :: "ip_addr \<Rightarrow> nat" where
  "ip_width a = (if is_ipv6 a then 128 else 32)"

abbreviation ip_val :: "ip_addr \<Rightarrow> nat" where
  "ip_val a \<equiv> unat (ip_to_u128 a)"

lemma unat_ucast_u128:
  "unat (ucast (v :: u32) :: u128) = unat v" "unat (ucast (w :: u64) :: u128) = unat w"
proof -
  have "unat v < 2 ^ LENGTH(32)" "unat w < 2 ^ LENGTH(64)" by (rule unsigned_less)+
  moreover have "(2 :: nat) ^ LENGTH(32) < 2 ^ 128" "(2 :: nat) ^ LENGTH(64) < 2 ^ 128" by simp_all
  ultimately have "unat v < 2 ^ 128" "unat w < 2 ^ 128" by (metis less_trans)+
  then show "unat (ucast v :: u128) = unat v" "unat (ucast w :: u128) = unat w"
    by (simp_all add: unsigned_ucast_eq take_bit_nat_eq_self)
qed

lemma unat_ucast_down:
  "unat (ucast (v :: u128) :: u64) = unat v mod 2 ^ 64" "unat (ucast (v :: u128) :: u32) = unat v mod 2 ^ 32"
  by (simp_all add: unsigned_ucast_eq take_bit_eq_mod)

lemma ip_val_less: "ip_val a < 2 ^ ip_width a"
proof (cases a)
  case (V4 v)
  then show ?thesis using unsigned_less [of v] by (simp add: ip_width_def unat_ucast_u128)
next
  case (V6 v)
  then show ?thesis using unsigned_less [of v] by (simp add: ip_width_def)
qed

lemma ip_eqI: "is_ipv6 a = is_ipv6 b \<Longrightarrow> ip_val a = ip_val b \<Longrightarrow> a = b"
  by (cases a; cases b) (auto simp: unat_ucast_u128 word_unat_eq_iff)

lemma index_of_iff:
  "index_of p a = Some i \<longleftrightarrow>
     is_ipv6 (po_base p) = is_ipv6 a \<and> ip_val (po_base p) + unat i = ip_val a \<and> unat i < unat (po_len p)"
proof -
  let ?a = "ip_to_u128 a" and ?b = "ip_to_u128 (po_base p)"
  have len: "unat (po_len p) < 2 ^ 64" using unsigned_less [of "po_len p"] by simp
  show ?thesis
  proof (cases "?a < ?b")
    case True
    then have "ip_val a < ip_val (po_base p)" by (simp add: word_less_nat_alt)
    then show ?thesis using True by (auto simp: index_of_def checked_sub_def)
  next
    case False
    then have le: "ip_val (po_base p) \<le> ip_val a" by (simp add: word_less_nat_alt)
    then have sub: "unat (?a - ?b) = ip_val a - ip_val (po_base p)"
      by (simp add: unat_sub word_le_nat_alt)
    have lt: "?a - ?b < ucast (po_len p) \<longleftrightarrow> ip_val a - ip_val (po_base p) < unat (po_len p)"
      by (simp add: word_less_nat_alt sub unat_ucast_u128)
    have cast: "(ucast (?a - ?b) :: u64) = i \<longleftrightarrow> ip_val a - ip_val (po_base p) = unat i"
      if "ip_val a - ip_val (po_base p) < unat (po_len p)"
    proof -
      have "(ip_val a - ip_val (po_base p)) mod 2 ^ 64 = ip_val a - ip_val (po_base p)"
        using that len by (intro mod_less) linarith
      then show ?thesis by (simp only: word_unat_eq_iff unat_ucast_down sub)
    qed
    show ?thesis
      using False le lt cast by (auto simp: index_of_def checked_sub_def)
  qed
qed

lemma addr_at_iff:
  "addr_at p i = Some a \<longleftrightarrow>
     is_ipv6 (po_base p) = is_ipv6 a \<and> unat i < unat (po_len p)
     \<and> ip_val a = (ip_val (po_base p) + unat i) mod 2 ^ ip_width a"
proof (cases "po_base p")
  case (V4 b)
  have "unat (ucast b + ucast i :: u128) = unat b + unat i"
  proof -
    have "unat b < 2 ^ 32" "unat i < 2 ^ 64"
      using unsigned_less [of b] unsigned_less [of i] by simp_all
    then have "unat b + unat i < 2 ^ 32 + 2 ^ 64" by linarith
    also have "\<dots> < (2 :: nat) ^ 128" by simp
    finally show ?thesis by (simp add: unat_word_ariths unat_ucast_u128)
  qed
  then have "unat (ucast (ucast b + ucast i :: u128) :: u32) = (unat b + unat i) mod 2 ^ 32"
    by (simp only: unat_ucast_down)
  then show ?thesis using V4
    by (cases a) (auto simp: addr_at_def ip_width_def unat_ucast_u128 word_unat_eq_iff
        word_le_nat_alt)
next
  case (V6 b)
  then show ?thesis
    by (cases a) (auto simp: addr_at_def ip_width_def unat_ucast_u128 word_unat_eq_iff
        word_le_nat_alt unat_word_ariths)
qed

text \<open>A pool whose last address exists.\<close>

definition pool_fits :: "pool \<Rightarrow> bool" where
  "pool_fits p \<longleftrightarrow> ip_val (po_base p) + unat (po_len p) \<le> 2 ^ ip_width (po_base p)"

lemma ip_width_cong: "is_ipv6 a = is_ipv6 b \<Longrightarrow> ip_width a = ip_width b"
  by (simp add: ip_width_def)

section \<open>The allocator as a client of the register\<close>

datatype da_op =
    DaGrant node_id node_id ip_addr
  | DaAllocate node_id ip_addr
  | DaRelease node_id ip_addr

fun da_exec :: "delegated_allocator \<Rightarrow> da_op \<Rightarrow> delegated_allocator" where
  "da_exec d (DaGrant v a x) = (case allocator_grant d v a x of Inl _ \<Rightarrow> d | Inr d' \<Rightarrow> d')"
| "da_exec d (DaAllocate a x) = (case try_allocate d a x of Inl _ \<Rightarrow> d | Inr (_, d') \<Rightarrow> d')"
| "da_exec d (DaRelease a x) = snd (allocator_release d a x)"

fun da_addr :: "da_op \<Rightarrow> ip_addr" where
  "da_addr (DaGrant _ _ x) = x"
| "da_addr (DaAllocate _ x) = x"
| "da_addr (DaRelease _ x) = x"

fun da_voters :: "da_op \<Rightarrow> node_id set" where
  "da_voters (DaGrant v _ _) = {v}"
| "da_voters _ = {}"

text \<open>The register call an operation makes, if the address is in the pool.\<close>

fun da_call :: "da_op \<Rightarrow> epoch \<Rightarrow> lease_op" where
  "da_call (DaGrant v a _) e = GrantOp v a e"
| "da_call (DaAllocate a _) e = AcquireOp a e"
| "da_call (DaRelease a _) e = ReleaseOp a e"

definition da_calls :: "delegated_allocator \<Rightarrow> da_op \<Rightarrow> lease_op list" where
  "da_calls d x = (case index_of (da_pool d) (da_addr x) of None \<Rightarrow> [] | Some i \<Rightarrow> [da_call x i])"

lemma da_exec_eq:
  "da_exec d x = d\<lparr>da_register := lease_run (da_register d) (da_calls d x)\<rparr>"
  by (cases x) (auto simp: da_calls_def allocator_grant_def try_allocate_def allocator_release_def
      epoch_of_def split: option.splits sum.splits prod.splits)

lemma da_exec_pool [simp]: "da_pool (da_exec d x) = da_pool d"
  by (simp add: da_exec_eq)

lemma da_run_pool [simp]: "da_pool (foldl da_exec d xs) = da_pool d"
  by (induction xs arbitrary: d) simp_all

lemma da_calls_voters: "\<Union> (lease_op_voters ` set (da_calls d x)) \<subseteq> da_voters x"
  by (cases x) (auto simp: da_calls_def split: option.splits)

interpretation ipam_alloc: lease_client da_register da_exec da_calls
  by unfold_locales (simp add: da_exec_eq)

section \<open>The scoped allocator as a client of every bound register\<close>

text \<open>The allocator bound to a domain for a family.\<close>

definition bound_at :: "scoped_ipam \<Rightarrow> string \<Rightarrow> bool \<Rightarrow> delegated_allocator option" where
  "bound_at s v w = (case btree_get (si_pools s) v of None \<Rightarrow> None | Some e \<Rightarrow> pool_slot w e)"

datatype si_op =
    GrantFor node_id node_id ip_addr
  | AllocateFor node_id ip_addr
  | ReleaseFor node_id ip_addr

text \<open>\<open>ReleaseFor\<close> is the call sequence of \<open>IpamOperator::release\<close>: \<open>allocator_for\<close>, then \<open>release\<close>.\<close>

definition release_for :: "scoped_ipam \<Rightarrow> node_id \<Rightarrow> ip_addr \<Rightarrow> scoped_ipam" where
  "release_for s n addr =
     (case allocator_for s n (is_ipv6 addr) of
        Inl _ \<Rightarrow> s
      | Inr (scope, d) \<Rightarrow> put_allocator s scope (is_ipv6 addr) (snd (allocator_release d n addr)))"

fun si_exec :: "scoped_ipam \<Rightarrow> si_op \<Rightarrow> scoped_ipam" where
  "si_exec s (GrantFor v n x) = (case grant_for s v n x of Inl _ \<Rightarrow> s | Inr s' \<Rightarrow> s')"
| "si_exec s (AllocateFor n x) = (case allocate_for s n x of Inl _ \<Rightarrow> s | Inr (_, s') \<Rightarrow> s')"
| "si_exec s (ReleaseFor n x) = release_for s n x"

fun si_da :: "si_op \<Rightarrow> node_id \<times> da_op" where
  "si_da (GrantFor v n x) = (n, DaGrant v n x)"
| "si_da (AllocateFor n x) = (n, DaAllocate n x)"
| "si_da (ReleaseFor n x) = (n, DaRelease n x)"

abbreviation si_voters :: "si_op \<Rightarrow> node_id set" where
  "si_voters x \<equiv> da_voters (snd (si_da x))"

lemma allocator_for_Inr:
  "allocator_for s n w = Inr (v, d) \<longleftrightarrow> scope_of s n = Inr v \<and> bound_at s v w = Some d"
  by (auto simp: allocator_for_def bound_at_def split: sum.splits option.splits)

lemma put_allocator_same:
  assumes "bound_at s v w = Some d"
  shows "put_allocator s v w d = s"
proof -
  from assms obtain e where e: "btree_get (si_pools s) v = Some e" "pool_slot w e = Some d"
    by (auto simp: bound_at_def split: option.splits)
  then have "(if w then e\<lparr>sp_v6 := Some d\<rparr> else e\<lparr>sp_v4 := Some d\<rparr>) = e"
    by (cases e) (auto simp: pool_slot_def split: if_splits)
  with e(1) show ?thesis by (simp add: put_allocator_def btree_insert_id)
qed

lemma bound_at_put:
  assumes "bound_at s v w = Some d"
  shows "bound_at (put_allocator s v w d') v' w' = (if v' = v \<and> w' = w then Some d' else bound_at s v' w')"
  using assms by (auto simp: bound_at_def put_allocator_def pool_slot_def split: option.splits)

text \<open>Every call acts on the allocator of the node's own domain, as the plain allocator does.\<close>

lemma si_exec_eq:
  "si_exec s x =
     (case allocator_for s (fst (si_da x)) (is_ipv6 (da_addr (snd (si_da x)))) of
        Inl _ \<Rightarrow> s
      | Inr (v, d) \<Rightarrow> put_allocator s v (is_ipv6 (da_addr (snd (si_da x)))) (da_exec d (snd (si_da x))))"
proof (cases x)
  case (GrantFor vo n a)
  then show ?thesis
    by (auto simp: grant_for_def allocator_for_Inr put_allocator_same split: sum.splits prod.splits)
next
  case (AllocateFor n a)
  then show ?thesis
    by (auto simp: allocate_for_def allocator_for_Inr put_allocator_same split: sum.splits prod.splits)
next
  case (ReleaseFor n a)
  then show ?thesis by (simp add: release_for_def split: sum.splits prod.splits)
qed

lemma si_exec_bound:
  "bound_at (si_exec s x) v w =
     (if scope_of s (fst (si_da x)) = Inr v \<and> w = is_ipv6 (da_addr (snd (si_da x)))
      then map_option (\<lambda>d. da_exec d (snd (si_da x))) (bound_at s v w) else bound_at s v w)"
proof (cases "allocator_for s (fst (si_da x)) (is_ipv6 (da_addr (snd (si_da x))))")
  case (Inl e)
  then have "bound_at s v (is_ipv6 (da_addr (snd (si_da x)))) = None" if "scope_of s (fst (si_da x)) = Inr v"
    using that allocator_for_Inr [of s "fst (si_da x)" "is_ipv6 (da_addr (snd (si_da x)))" v]
    by (cases "bound_at s v (is_ipv6 (da_addr (snd (si_da x))))") auto
  then show ?thesis using Inl by (auto simp: si_exec_eq)
next
  case (Inr vd)
  obtain v' d where vd: "vd = (v', d)" by (cases vd)
  with Inr have b: "scope_of s (fst (si_da x)) = Inr v'"
    "bound_at s v' (is_ipv6 (da_addr (snd (si_da x)))) = Some d" by (simp_all add: allocator_for_Inr)
  then show ?thesis using Inr vd by (auto simp: si_exec_eq bound_at_put [OF b(2)])
qed

definition slot_register :: "string \<Rightarrow> bool \<Rightarrow> scoped_ipam \<Rightarrow> lease_register" where
  "slot_register v w s = (case bound_at s v w of None \<Rightarrow> lease_new 0 | Some d \<Rightarrow> da_register d)"

definition slot_calls :: "string \<Rightarrow> bool \<Rightarrow> scoped_ipam \<Rightarrow> si_op \<Rightarrow> lease_op list" where
  "slot_calls v w s x =
     (if scope_of s (fst (si_da x)) = Inr v \<and> w = is_ipv6 (da_addr (snd (si_da x)))
      then (case bound_at s v w of None \<Rightarrow> [] | Some d \<Rightarrow> da_calls d (snd (si_da x)))
      else [])"

lemma slot_calls_cases:
  "slot_calls v w s x = [] \<or> (\<exists>d. slot_calls v w s x = da_calls d (snd (si_da x)))"
  by (cases "bound_at s v w") (simp_all only: slot_calls_def option.case split: if_split, blast+)

lemma slot_calls_voters: "\<Union> (lease_op_voters ` set (slot_calls v w s x)) \<subseteq> si_voters x"
  using slot_calls_cases [of v w s x] da_calls_voters [of _ "snd (si_da x)"] by fastforce

lemma slot_register_exec:
  "slot_register v w (si_exec s x) = lease_run (slot_register v w s) (slot_calls v w s x)"
proof (cases "scope_of s (fst (si_da x)) = Inr v \<and> w = is_ipv6 (da_addr (snd (si_da x)))")
  case True
  have "bound_at (si_exec s x) v w = map_option (\<lambda>d. da_exec d (snd (si_da x))) (bound_at s v w)"
    by (subst si_exec_bound) (rule if_P [OF True])
  moreover have "slot_calls v w s x = (case bound_at s v w of None \<Rightarrow> [] | Some d \<Rightarrow> da_calls d (snd (si_da x)))"
    unfolding slot_calls_def by (rule if_P [OF True])
  ultimately show ?thesis by (cases "bound_at s v w") (simp_all add: slot_register_def da_exec_eq)
next
  case False
  have "bound_at (si_exec s x) v w = bound_at s v w"
    by (subst si_exec_bound) (rule if_not_P [OF False])
  moreover have "slot_calls v w s x = []"
    unfolding slot_calls_def by (rule if_not_P [OF False])
  ultimately show ?thesis by (simp add: slot_register_def)
qed

interpretation site_pool: lease_client "slot_register v w" si_exec "slot_calls v w"
  for v :: string and w :: bool
  by (rule lease_client.intro) (rule slot_register_exec)

lemma bound_at_run_pool:
  "map_option da_pool (bound_at (foldl si_exec s xs) v w) = map_option da_pool (bound_at s v w)"
  by (induction xs arbitrary: s) (auto simp: si_exec_bound option.map_comp comp_def)

lemma allocate_for_True:
  assumes "allocate_for s n addr = Inr (True, s')"
  obtains v d d' where "scope_of s n = Inr v" "bound_at s v (is_ipv6 addr) = Some d"
    "pool_contains (da_pool d) addr" "da_pool d' = da_pool d" "allocator_of d' addr = Some n"
    "s' = put_allocator s v (is_ipv6 addr) d'"
proof -
  from assms obtain v d d' where a: "allocator_for s n (is_ipv6 addr) = Inr (v, d)"
    "try_allocate d n addr = Inr (True, d')" "s' = put_allocator s v (is_ipv6 addr) d'"
    by (auto simp: allocate_for_def split: sum.splits prod.splits)
  from a(2) obtain i r where i: "index_of (da_pool d) addr = Some i"
    "lease_try_acquire (da_register d) n i = (True, r)" "d' = d\<lparr>da_register := r\<rparr>"
    by (auto simp: try_allocate_def epoch_of_def split: option.splits sum.splits prod.splits)
  then have "allocator_of d' addr = Some n"
    using lease_holder_try_acquire [of "da_register d" n i i] by (simp add: allocator_of_def)
  with a i show thesis
    by (intro that [of v d d']) (auto simp: allocator_for_Inr pool_contains_def)
qed

section \<open>Ranking and diversity\<close>

lemma addr_at_0:
  assumes "\<not> pool_is_empty p"
  shows "addr_at p 0 = Some (po_base p)"
proof -
  have "0 < unat (po_len p)" using assms by (simp add: pool_is_empty_def unat_gt_0)
  then show ?thesis using ip_val_less [of "po_base p"] by (simp add: addr_at_iff)
qed

definition slot_base :: "bool \<Rightarrow> scoped_pools \<Rightarrow> ip_addr" where
  "slot_base w e = (case pool_slot w e of None \<Rightarrow> V4 0 | Some d \<Rightarrow> po_base (da_pool d))"

lemma diversity_loop_eq:
  assumes "\<forall>(v, e)\<in>set xs. slot_usable w e" "length out \<le> k"
  shows "diversity_loop k w xs out = out @ map (\<lambda>(v, e). slot_base w e) (take (k - length out) xs)"
  using assms
proof (induction xs arbitrary: out)
  case (Cons x xs)
  obtain v e where x: "x = (v, e)" by (cases x)
  with Cons.prems(1) obtain d where d: "pool_slot w e = Some d" "\<not> pool_is_empty (da_pool d)"
    by (auto simp: slot_usable_def split: option.splits)
  have base: "slot_base w e = po_base (da_pool d)" by (simp add: slot_base_def d)
  show ?case
  proof (cases "length out = k")
    case False
    with Cons.prems(2) obtain j where j: "k - length out = Suc j" "k - Suc (length out) = j"
      by (metis Suc_diff_Suc diff_Suc_Suc le_neq_implies_less)
    have "diversity_loop k w (x # xs) out = diversity_loop k w xs (out @ [po_base (da_pool d)])"
      using False by (simp add: x d addr_at_0)
    also have "\<dots> = (out @ [po_base (da_pool d)]) @ map (\<lambda>(v, e). slot_base w e) (take j xs)"
      using Cons.IH [of "out @ [po_base (da_pool d)]"] Cons.prems False j by simp
    finally show ?thesis using j by (simp add: x base)
  qed (simp add: x)
qed simp

lemma ranked_usable: "\<forall>(v, e)\<in>set (ranked_domains s w pref). slot_usable w e"
  by (auto simp: ranked_domains_def)

lemma length_ranked: "length (ranked_domains s w pref) = available_diversity s w"
  by (simp add: ranked_domains_def available_diversity_def btree_values_def filter_map comp_def
      case_prod_unfold)

lemma distinct_ranked: "distinct (map fst (ranked_domains s w pref))"
proof -
  have "distinct (map fst (filter P (btree_iter m)))" for P and m :: "(string, scoped_pools) btree_map"
    using distinct_fst_btree_iter [of m] by (simp add: distinct_map_filter)
  then have "distinct (filter P (btree_iter m)) \<and> inj_on fst (set (filter P (btree_iter m)))"
    for P and m :: "(string, scoped_pools) btree_map"
    by (simp add: distinct_map)
  then show ?thesis by (simp add: ranked_domains_def distinct_map)
qed

section \<open>The calls of one allocator\<close>

text \<open>
  A released address can be taken again by the actor that held it, and by nobody else: the votes
  of the first allocation stand, and no voter may vote for the slot again.
\<close>

lemma released_address_stays:
  assumes "finite V" "card V \<le> n" "\<Union> (da_voters ` set (xs @ ys)) \<subseteq> V"
    and "allocator_of (foldl da_exec (allocator_new p n) xs) addr = Some a"
    and "allocator_of (foldl da_exec (allocator_new p n) (xs @ ys)) addr = Some b"
  shows "a = b"
proof -
  obtain i where i: "index_of p addr = Some i"
    using assms(4) by (auto simp: allocator_of_def allocator_new_def split: option.splits)
  have voters: "\<Union> (lease_op_voters ` set (da_calls t x)) \<subseteq> V" if "x \<in> set (xs @ ys)" for t x
    using da_calls_voters [of t x] assms(3) that by blast
  have init: "da_register (allocator_new p n) = lease_new n" by (simp add: allocator_new_def)
  show ?thesis
  proof (rule ipam_alloc.client_holder_stable [OF init assms(1,2) voters])
    show "lease_holder (da_register (foldl da_exec (allocator_new p n) xs)) i = Some a"
      using assms(4) i by (simp add: allocator_of_def) (simp add: allocator_new_def)
    show "lease_holder (da_register (foldl da_exec (allocator_new p n) (xs @ ys))) i = Some b"
      using assms(5) i by (simp add: allocator_of_def del: foldl_append) (simp add: allocator_new_def)
  qed
qed

text \<open>The range of a pool and the slot of an address, as numbers.\<close>

definition in_range :: "pool \<Rightarrow> ip_addr \<Rightarrow> bool" where
  "in_range p x \<longleftrightarrow> is_ipv6 x = is_ipv6 (po_base p)
     \<and> ip_val (po_base p) \<le> ip_val x \<and> ip_val x < ip_val (po_base p) + unat (po_len p)"

definition slot_number :: "pool \<Rightarrow> ip_addr \<Rightarrow> nat" where
  "slot_number p x = ip_val x - ip_val (po_base p)"

lemma index_of_range: "index_of p x = (if in_range p x then Some (of_nat (slot_number p x)) else None)"
proof (cases "in_range p x")
  case True
  have "unat (po_len p) < 2 ^ 64" using u64_lt [of "po_len p"] by simp
  moreover have "slot_number p x < unat (po_len p)" using True unfolding in_range_def slot_number_def by linarith
  ultimately have "slot_number p x < 2 ^ 64" by linarith
  then have "slot_number p x mod 2 ^ LENGTH(64) = slot_number p x" by simp
  then have "unat (of_nat (slot_number p x) :: u64) = slot_number p x" by (simp only: unat_of_nat)
  moreover have "ip_val (po_base p) + slot_number p x = ip_val x" "is_ipv6 (po_base p) = is_ipv6 x"
    using True unfolding in_range_def slot_number_def by linarith+
  ultimately have "index_of p x = Some (of_nat (slot_number p x))"
    using \<open>slot_number p x < unat (po_len p)\<close> by (simp only: index_of_iff)
  then show ?thesis using True by simp
next
  case False
  have "index_of p x \<noteq> Some i" for i
  proof
    assume "index_of p x = Some i"
    then have "in_range p x" unfolding index_of_iff in_range_def by linarith
    then show False using False by simp
  qed
  then have "index_of p x = None" by (cases "index_of p x") blast+
  then show ?thesis using False by simp
qed

lemma slot_number_unat:
  assumes "index_of p x = Some i"
  shows "unat i = slot_number p x"
  using assms unfolding index_of_iff slot_number_def by linarith

lemma da_register_run_size [simp]: "cluster_size (da_register (foldl da_exec d xs)) = cluster_size (da_register d)"
  by (induction xs arbitrary: d) (simp_all add: da_exec_eq)

lemma allocator_of_release:
  "fst (allocator_release d a x) \<longleftrightarrow> allocator_of d x = Some a"
  "allocator_of d x = Some a \<Longrightarrow> allocator_of (snd (allocator_release d a x)) x = None"
  by (auto simp: allocator_release_def allocator_of_def lease_release_def lease_holder_def
      split: option.split)

text \<open>Only the release by its holder ends an allocation.\<close>

lemma da_exec_keeps_holder:
  assumes "allocator_of d x = Some a" "z \<noteq> DaRelease a x"
  shows "allocator_of (da_exec d z) x = Some a"
proof -
  obtain i where i: "index_of (da_pool d) x = Some i" "lease_holder (da_register d) i = Some a"
    using assms(1) by (auto simp: allocator_of_def split: option.splits)
  have same: "da_addr z = x" if "index_of (da_pool d) (da_addr z) = Some i"
    using that i(1) ip_eqI [of "da_addr z" x] by (simp add: index_of_iff)
  have "lease_holder (lease_run (da_register d) (da_calls d z)) i = Some a"
  proof (cases "index_of (da_pool d) (da_addr z)")
    case None
    then show ?thesis using i(2) by (simp add: da_calls_def)
  next
    case (Some j)
    have grant: "lease_holder (case lease_grant r v c e of Inl _ \<Rightarrow> r | Inr r' \<Rightarrow> r') i = lease_holder r i" for r v c e
      by (simp add: lease_grant_def lease_holder_def split: option.split)
    have taken: "\<not> (fst (lease_try_acquire (da_register d) c i) \<and> c \<noteq> a)" for c
      using i(2) by (simp add: lease_try_acquire_fst)
    show ?thesis
      using Some i(2) assms(2) same taken
      by (cases z) (auto simp: da_calls_def grant lease_holder_try_acquire lease_holder_release)
  qed
  then show ?thesis using i(1) by (simp add: allocator_of_def da_exec_eq)
qed

lemma da_run_keeps_holder:
  assumes "allocator_of d x = Some a" "DaRelease a x \<notin> set ys"
  shows "allocator_of (foldl da_exec d ys) x = Some a"
  using assms
proof (induction ys arbitrary: d)
  case (Cons y ys)
  then have "allocator_of (da_exec d y) x = Some a" by (intro da_exec_keeps_holder) auto
  then show ?case using Cons by simp
qed simp

lemma try_allocate_exact:
  "(\<exists>d'. try_allocate d b x = Inr (True, d')) \<longleftrightarrow>
     in_range (da_pool d) x \<and>
     (case allocator_of d x of
        Some a \<Rightarrow> a = b
      | None \<Rightarrow> is_quorum (da_register d) (lease_votes (da_register d) b (of_nat (slot_number (da_pool d) x))))"
  by (auto simp: try_allocate_def epoch_of_def index_of_range allocator_of_def lease_try_acquire_def lease_holder_def
      split: option.splits)

lemma allocator_grant_exact:
  "(\<exists>d'. allocator_grant d v b x = Inr d') \<longleftrightarrow>
     in_range (da_pool d) x \<and>
     (\<forall>e c. btree_get (grants (da_register d)) v = Some (e, c) \<longrightarrow> unat e < slot_number (da_pool d) x)"
proof (cases "index_of (da_pool d) x")
  case None
  then show ?thesis by (auto simp: allocator_grant_def epoch_of_def index_of_range split: if_splits)
next
  case (Some i)
  then have "in_range (da_pool d) x" "unat i = slot_number (da_pool d) x"
    using slot_number_unat by (auto simp: index_of_range split: if_splits)
  then show ?thesis
    using Some by (auto simp: allocator_grant_def epoch_of_def lease_grant_def word_le_nat_alt split: option.splits sum.splits)
qed

section \<open>Properties\<close>

text \<open>
  \<^bold>\<open>C14.\<close> \<open>NoDoubleAllocation\<close>, in every state that grants, allocations and releases reach on
  the allocator of a pool, provided the voters are at most \<open>cluster_size\<close> nodes. No two actors
  can both succeed for an address. An actor succeeds exactly for an address between the base and
  the base plus the length, in the family of the base, that he holds already, or that is free and
  for whose slot, the distance from the base, a majority of the cluster votes for him; a voter's
  grant counts exactly for an address of the pool in a slot above the one he granted last. An
  allocation stands, whatever is called, until its holder releases that very address; then the
  address is free.
\<close>

theorem no_double_allocation:
  assumes "finite V" "card V \<le> n" "\<Union> (da_voters ` set xs) \<subseteq> V"
    and d: "d = foldl da_exec (allocator_new p n) xs"
  shows "(try_allocate d a x = Inr (True, d1) \<and> try_allocate d b x = Inr (True, d2) \<longrightarrow> a = b)
    \<and> ((\<exists>d'. try_allocate d b x = Inr (True, d')) \<longleftrightarrow>
        in_range p x \<and>
        (case allocator_of d x of
           Some a \<Rightarrow> a = b
         | None \<Rightarrow> 2 * card {v. btree_get (grants (da_register d)) v = Some (of_nat (slot_number p x), b)} > n))
    \<and> ((\<exists>d'. allocator_grant d v b x = Inr d') \<longleftrightarrow>
        in_range p x \<and> (\<forall>e c. btree_get (grants (da_register d)) v = Some (e, c) \<longrightarrow> unat e < slot_number p x))
    \<and> (allocator_of d x = Some a \<and> DaRelease a x \<notin> set ys \<longrightarrow> allocator_of (foldl da_exec d ys) x = Some a)
    \<and> (fst (allocator_release d a x) \<longleftrightarrow> allocator_of d x = Some a)
    \<and> (allocator_of d x = Some a \<longrightarrow> allocator_of (snd (allocator_release d a x)) x = None)"
proof -
  have pool: "da_pool d = p" and size: "cluster_size (da_register d) = n"
    by (simp_all add: d allocator_new_def lease_new_def)
  have init: "da_register (allocator_new p n) = lease_new n" by (simp add: allocator_new_def)
  have voters: "\<Union> (lease_op_voters ` set (da_calls t x)) \<subseteq> V" if "x \<in> set xs" for t x
    using da_calls_voters [of t x] assms(3) that by blast
  have exact: "(\<exists>d'. try_allocate d c x = Inr (True, d')) \<longleftrightarrow>
      in_range p x \<and> (case allocator_of d x of Some a \<Rightarrow> a = c
        | None \<Rightarrow> is_quorum (da_register d) (lease_votes (da_register d) c (of_nat (slot_number p x))))" for c
    using try_allocate_exact [of d c x] by (simp only: pool)
  have unique: "a = b" if "try_allocate d a x = Inr (True, d1)" "try_allocate d b x = Inr (True, d2)"
  proof (cases "allocator_of d x")
    case None
    have "da_register d = da_register (foldl da_exec (allocator_new p n) xs)" by (simp add: d)
    from ipam_alloc.client_quorum_unique [OF init assms(1,2) voters this] show ?thesis
      using exact [of a] exact [of b] that None by auto
  qed (use exact [of a] exact [of b] that in auto)
  have quorum: "is_quorum (da_register d) (lease_votes (da_register d) c e) \<longleftrightarrow>
      2 * card {v. btree_get (grants (da_register d)) v = Some (e, c)} > n" for c e
    by (simp add: is_quorum_def size lease_votes_card)
  show ?thesis
    by (intro conjI impI)
      (use unique exact [of b, unfolded quorum] allocator_grant_exact [of d v b x, unfolded pool]
        da_run_keeps_holder [of d x a ys] allocator_of_release [of d] in simp_all)
qed

text \<open>
  The slots of a pool are its addresses: the address at the slot of an address is that
  address; when the pool's last address exists, the slot of the address at a slot is that slot,
  every slot below the length has an address, and membership is exactly lying between the base
  and the base plus the length, in the base's family.
\<close>

theorem pool_slots_exact:
  "(index_of p a = Some i \<longrightarrow> addr_at p i = Some a)
   \<and> (pool_fits p \<longrightarrow>
        (addr_at p i = Some a \<longrightarrow> index_of p a = Some i)
        \<and> (i < po_len p \<longleftrightarrow> addr_at p i \<noteq> None)
        \<and> (pool_contains p a \<longleftrightarrow> is_ipv6 a = is_ipv6 (po_base p)
             \<and> ip_val (po_base p) \<le> ip_val a \<and> ip_val a < ip_val (po_base p) + unat (po_len p)))"
proof (intro conjI impI)
  show "addr_at p i = Some a" if "index_of p a = Some i"
    using that ip_val_less [of a] by (auto simp: index_of_iff addr_at_iff)
next
  assume fits: "pool_fits p"
  show "index_of p a = Some i" if "addr_at p i = Some a"
    using that fits ip_width_cong [of "po_base p" a]
    by (auto simp: index_of_iff addr_at_iff pool_fits_def)
  show "i < po_len p \<longleftrightarrow> addr_at p i \<noteq> None" by (auto simp: addr_at_def Let_def not_le)
  show "pool_contains p a \<longleftrightarrow> is_ipv6 a = is_ipv6 (po_base p)
      \<and> ip_val (po_base p) \<le> ip_val a \<and> ip_val a < ip_val (po_base p) + unat (po_len p)"
  proof
    assume "pool_contains p a"
    then show "is_ipv6 a = is_ipv6 (po_base p)
      \<and> ip_val (po_base p) \<le> ip_val a \<and> ip_val a < ip_val (po_base p) + unat (po_len p)"
      by (auto simp: pool_contains_def index_of_iff)
  next
    assume r: "is_ipv6 a = is_ipv6 (po_base p)
      \<and> ip_val (po_base p) \<le> ip_val a \<and> ip_val a < ip_val (po_base p) + unat (po_len p)"
    let ?k = "ip_val a - ip_val (po_base p)"
    have "?k < unat (po_len p)" using r by linarith
    moreover have "unat (po_len p) < 2 ^ 64" using u64_lt [of "po_len p"] by simp
    ultimately have "?k < 2 ^ 64" by linarith
    then have "?k mod 2 ^ LENGTH(64) = ?k" by simp
    then have "unat (of_nat ?k :: u64) = ?k" by (simp only: unat_of_nat)
    then have "index_of p a = Some (of_nat ?k)" using r \<open>?k < unat (po_len p)\<close> by (simp add: index_of_iff)
    then show "pool_contains p a" by (simp add: pool_contains_def)
  qed
qed

text \<open>
  An allocation never crosses a site: a successful \<open>allocate_for\<close> takes the address
  from the pool bound to the node's own failure domain, records the node as its holder there, and
  leaves the pools of every other domain and family as they were.
\<close>

theorem allocation_stays_in_site:
  assumes "allocate_for s n addr = Inr (True, s')"
  shows "\<exists>v d d'. domain_of (si_topology s) (si_tier s) n = Some v
      \<and> bound_at s v (is_ipv6 addr) = Some d \<and> pool_contains (da_pool d) addr
      \<and> bound_at s' v (is_ipv6 addr) = Some d' \<and> da_pool d' = da_pool d
      \<and> allocator_of d' addr = Some n
      \<and> (\<forall>v' w. v' = v \<and> w = is_ipv6 addr \<or> bound_at s' v' w = bound_at s v' w)"
proof -
  from assms obtain v d d' where a: "scope_of s n = Inr v" "bound_at s v (is_ipv6 addr) = Some d"
    "pool_contains (da_pool d) addr" "da_pool d' = da_pool d" "allocator_of d' addr = Some n"
    "s' = put_allocator s v (is_ipv6 addr) d'" by (rule allocate_for_True)
  from a(1) have "domain_of (si_topology s) (si_tier s) n = Some v"
    by (auto simp: scope_of_def split: option.splits)
  with a show ?thesis
    by (intro exI [of _ v] exI [of _ d] exI [of _ d']) (auto simp: bound_at_put [OF a(2)])
qed

definition scoped_holder :: "scoped_ipam \<Rightarrow> ip_addr \<Rightarrow> node_id \<Rightarrow> bool" where
  "scoped_holder s addr a \<longleftrightarrow> (\<exists>v w d. bound_at s v w = Some d \<and> allocator_of d addr = Some a)"

text \<open>Freshly bound pools, pairwise disjoint, each fenced by at least as many voters as \<open>V\<close> has.\<close>

definition fresh_disjoint :: "node_id set \<Rightarrow> scoped_ipam \<Rightarrow> bool" where
  "fresh_disjoint V s \<longleftrightarrow>
     (\<forall>v w d. bound_at s v w = Some d \<longrightarrow> (\<exists>p n. d = allocator_new p n \<and> card V \<le> n))
     \<and> (\<forall>v w d v' w' d' addr. bound_at s v w = Some d \<longrightarrow> bound_at s v' w' = Some d' \<longrightarrow>
          pool_contains (da_pool d) addr \<longrightarrow> pool_contains (da_pool d') addr \<longrightarrow> v = v' \<and> w = w')"

lemma bound_at_run_init:
  assumes "bound_at (foldl si_exec s xs) v w = Some d"
  obtains d0 where "bound_at s v w = Some d0" "da_pool d0 = da_pool d"
  using assms bound_at_run_pool [of s xs v w] that by (cases "bound_at s v w") auto

lemma allocator_of_slot:
  assumes "bound_at s v w = Some d" "allocator_of d addr = Some a"
  obtains i where "index_of (da_pool d) addr = Some i" "lease_holder (slot_register v w s) i = Some a"
  using assms by (auto simp: allocator_of_def slot_register_def split: option.splits)

text \<open>
  Exclusion across sites and time: over any grants, allocations and releases on a
  topology-scoped IPAM whose freshly bound pools are disjoint, an address held by \<open>a\<close> in any
  site at some time is held by no other node in any site then or later.
\<close>

theorem multi_site_exclusive:
  assumes "finite V" "fresh_disjoint V s" "\<Union> (si_voters ` set (xs @ ys)) \<subseteq> V"
    and "scoped_holder (foldl si_exec s xs) addr a"
    and "scoped_holder (foldl si_exec s (xs @ ys)) addr b"
  shows "a = b"
proof -
  from assms(4) obtain v w d where d: "bound_at (foldl si_exec s xs) v w = Some d" "allocator_of d addr = Some a"
    by (auto simp: scoped_holder_def)
  from assms(5) obtain v' w' d' where d': "bound_at (foldl si_exec s (xs @ ys)) v' w' = Some d'"
    "allocator_of d' addr = Some b" unfolding scoped_holder_def by blast
  obtain i where i: "index_of (da_pool d) addr = Some i"
    "lease_holder (slot_register v w (foldl si_exec s xs)) i = Some a" using d by (rule allocator_of_slot)
  obtain j where j: "index_of (da_pool d') addr = Some j"
    "lease_holder (slot_register v' w' (foldl si_exec s (xs @ ys))) j = Some b" using d' by (rule allocator_of_slot)
  obtain d0 where d0: "bound_at s v w = Some d0" "da_pool d0 = da_pool d" using d(1) by (rule bound_at_run_init)
  obtain e0 where e0: "bound_at s v' w' = Some e0" "da_pool e0 = da_pool d'" using d'(1) by (rule bound_at_run_init)
  have same: "v = v' \<and> w = w'"
    using assms(2) d0 e0 i(1) j(1) unfolding fresh_disjoint_def pool_contains_def by (metis option.distinct(1))
  then have "i = j" using d0 e0 i(1) j(1) by simp
  obtain p n where n: "d0 = allocator_new p n" "card V \<le> n"
    using assms(2) d0(1) unfolding fresh_disjoint_def by blast
  have init: "slot_register v w s = lease_new n" by (simp add: slot_register_def d0(1) n(1) allocator_new_def)
  have voters: "\<Union> (lease_op_voters ` set (slot_calls v w t x)) \<subseteq> V" if "x \<in> set (xs @ ys)" for t x
    using slot_calls_voters [of v w t x] assms(3) that by blast
  show ?thesis
    using site_pool.client_holder_stable [OF init assms(1) n(2) voters i(2)] j(2) same \<open>i = j\<close> by blast
qed

text \<open>
  The diversity query returns the base addresses of the \<open>k\<close> best-ranked usable
  domains (all of them when there are fewer), each domain once, ordered by preference and then by
  name.
\<close>

theorem diversity_query_exact:
  "diversity_addrs s k w pref = map (\<lambda>(v, e). slot_base w e) (take k (ranked_domains s w pref))
   \<and> length (diversity_addrs s k w pref) = min k (available_diversity s w)
   \<and> distinct (map fst (take k (ranked_domains s w pref)))
   \<and> sorted (map (\<lambda>(v, e). (domain_preference pref v, v)) (ranked_domains s w pref))
   \<and> (\<forall>v e. (v, e) \<in> set (ranked_domains s w pref) \<longleftrightarrow>
        btree_get (si_pools s) v = Some e \<and> slot_usable w e)"
proof -
  have eq: "diversity_addrs s k w pref = map (\<lambda>(v, e). slot_base w e) (take k (ranked_domains s w pref))"
    using diversity_loop_eq [OF ranked_usable, of "[]" k] by (simp add: diversity_addrs_def)
  then have "length (diversity_addrs s k w pref) = min k (available_diversity s w)"
    by (simp add: length_ranked min.commute)
  moreover have "distinct (map fst (take k (ranked_domains s w pref)))"
    using distinct_ranked [of s w pref] by (simp flip: take_map)
  moreover have "sorted (map (\<lambda>(v, e). (domain_preference pref v, v)) (ranked_domains s w pref))"
    by (simp add: ranked_domains_def)
  moreover have "(v, e) \<in> set (ranked_domains s w pref) \<longleftrightarrow>
        btree_get (si_pools s) v = Some e \<and> slot_usable w e" for v e
    by (auto simp: ranked_domains_def btree_iter_iff)
  ultimately show ?thesis using eq by blast
qed

section \<open>Witnesses\<close>

definition da_demo_pool :: pool where
  "da_demo_pool = pool_new (V4 0x0A000000) 256"

definition da_demo_ops :: "da_op list" where
  "da_demo_ops = [DaGrant ''n1'' ''cA'' (V4 0x0A000005), DaGrant ''n2'' ''cA'' (V4 0x0A000005),
     DaAllocate ''cA'' (V4 0x0A000005)]"

definition da_demo_later :: "da_op list" where
  "da_demo_later = [DaRelease ''cA'' (V4 0x0A000005), DaGrant ''n3'' ''cB'' (V4 0x0A000005),
     DaAllocate ''cB'' (V4 0x0A000005), DaAllocate ''cA'' (V4 0x0A000005)]"

lemma da_demo_facts:
  "allocator_of (foldl da_exec (allocator_new da_demo_pool 3) da_demo_ops) (V4 0x0A000005) = Some ''cA''"
  "allocator_of (foldl da_exec (allocator_new da_demo_pool 3) (da_demo_ops @ da_demo_later)) (V4 0x0A000005)
     = Some ''cA''"
  by code_simp+

text \<open>The address is held through the calls of another actor, and free once it is released.\<close>

theorem no_double_allocation_witness:
  "let d = foldl da_exec (allocator_new da_demo_pool 3) da_demo_ops;
       d' = foldl da_exec d [DaGrant ''n3'' ''cB'' (V4 0x0A000005), DaAllocate ''cB'' (V4 0x0A000005)]
   in allocator_of d' (V4 0x0A000005) = Some ''cA''
      \<and> allocator_of (snd (allocator_release d ''cA'' (V4 0x0A000005))) (V4 0x0A000005) = None"
  using no_double_allocation [of "{''n1'', ''n2'', ''n3''}" 3 da_demo_ops
      "foldl da_exec (allocator_new da_demo_pool 3) da_demo_ops" da_demo_pool "''cA''" "V4 0x0A000005" _ _ _ _
      "[DaGrant ''n3'' ''cB'' (V4 0x0A000005), DaAllocate ''cB'' (V4 0x0A000005)]"] da_demo_facts(1)
  by (simp add: da_demo_ops_def)

theorem pool_slots_exact_witness:
  "addr_at da_demo_pool 5 = Some (V4 0x0A000005) \<and> index_of da_demo_pool (V4 0x0A000005) = Some 5"
proof -
  have "index_of da_demo_pool (V4 0x0A000005) = Some 5" by code_simp
  with pool_slots_exact [of da_demo_pool "V4 0x0A000005" 5] show ?thesis by blast
qed

text \<open>
  A pool that runs past the last IPv4 address wraps: slot 1 of the pool of two addresses from
  255.255.255.255 is 0.0.0.0, which the pool does not contain.
\<close>

theorem pool_wraps_past_the_end:
  "addr_at (pool_new (V4 (- 1)) 2) 1 = Some (V4 0) \<and> \<not> pool_contains (pool_new (V4 (- 1)) 2) (V4 0)"
  by code_simp

text \<open>Two sites, one pool each; a node of the first site gets an address of the first pool.\<close>

definition si_demo :: scoped_ipam where
  "si_demo = bind_pool (bind_pool \<lparr>si_tier = ''rack'', si_pools = btree_new, si_topology = topo_demo\<rparr>
     ''r1'' da_demo_pool 1) ''r2'' (pool_new (V4 0x0A000100) 256) 1"

definition si_demo_ops :: "si_op list" where
  "si_demo_ops = [GrantFor ''v'' ''n1'' (V4 0x0A000005), AllocateFor ''n1'' (V4 0x0A000005)]"

definition si_demo_later :: "si_op list" where
  "si_demo_later = [AllocateFor ''n2'' (V4 0x0A000005), AllocateFor ''n3'' (V4 0x0A000005)]"

lemma si_demo_bound:
  "bound_at si_demo v w =
     (if w then None else if v = ''r1'' then Some (allocator_new da_demo_pool 1)
      else if v = ''r2'' then Some (allocator_new (pool_new (V4 0x0A000100) 256) 1) else None)"
  by (auto simp: si_demo_def bind_pool_def bound_at_def pool_slot_def da_demo_pool_def pool_new_def Let_def)

lemma si_demo_fresh: "fresh_disjoint {''v''} si_demo"
proof -
  have "False" if "index_of da_demo_pool a = Some i" "index_of (pool_new (V4 0x0A000100) 256) a = Some j" for a i j
    using that by (auto simp: index_of_iff da_demo_pool_def pool_new_def unat_ucast_u128)
  then have dis: "index_of da_demo_pool a = None \<or> index_of (pool_new (V4 0x0A000100) 256) a = None" for a
    by (metis not_None_eq)
  show ?thesis
    unfolding fresh_disjoint_def si_demo_bound pool_contains_def
    using dis by (auto simp: allocator_new_def split: if_splits) (metis option.distinct(1))+
qed

lemma si_demo_holds:
  "bound_at (foldl si_exec si_demo si_demo_ops) ''r1'' False \<noteq> None
   \<and> allocator_of (the (bound_at (foldl si_exec si_demo si_demo_ops) ''r1'' False)) (V4 0x0A000005) = Some ''n1''"
  "bound_at (foldl si_exec si_demo (si_demo_ops @ si_demo_later)) ''r1'' False \<noteq> None
   \<and> allocator_of (the (bound_at (foldl si_exec si_demo (si_demo_ops @ si_demo_later)) ''r1'' False)) (V4 0x0A000005)
     = Some ''n1''"
  by code_simp+

lemma si_demo_holders:
  "scoped_holder (foldl si_exec si_demo si_demo_ops) (V4 0x0A000005) ''n1''"
  "scoped_holder (foldl si_exec si_demo (si_demo_ops @ si_demo_later)) (V4 0x0A000005) ''n1''"
  using si_demo_holds by (force simp: scoped_holder_def)+

theorem multi_site_exclusive_witness:
  "scoped_holder (foldl si_exec si_demo (si_demo_ops @ si_demo_later)) (V4 0x0A000005) ''n1''
   \<and> (''n1'' :: node_id) = ''n1''"
  using multi_site_exclusive [OF _ si_demo_fresh, of si_demo_ops si_demo_later,
      OF _ _ si_demo_holders] si_demo_holders(2)
  by (simp add: si_demo_ops_def si_demo_later_def)

theorem allocation_stays_in_site_witness:
  "\<exists>s' v d'. allocate_for (foldl si_exec si_demo si_demo_ops) ''n1'' (V4 0x0A000005) = Inr (True, s')
     \<and> bound_at s' v False = Some d' \<and> allocator_of d' (V4 0x0A000005) = Some ''n1''"
proof -
  have "case allocate_for (foldl si_exec si_demo si_demo_ops) ''n1'' (V4 0x0A000005) of
      Inl _ \<Rightarrow> False | Inr (ok, _) \<Rightarrow> ok" by code_simp
  then obtain s' where ok: "allocate_for (foldl si_exec si_demo si_demo_ops) ''n1'' (V4 0x0A000005) = Inr (True, s')"
    by (auto split: sum.splits)
  from allocation_stays_in_site [OF ok] ok show ?thesis by auto
qed

end
