(* ===== verification/PillarUdp.thy ===== *)
theory PillarUdp
  imports Compat StreamDb Ipam
begin

unbundle bit_operations_syntax

text \<open>
  \<^verbatim>\<open>crates/pillar-net/src/pillar_udp.rs\<close>, first part: the handshake, the choice of
  a transport, processing once per content address, the routing of exclusive messages, the reply
  set, the forwarding gate and the anti-amplification gate. The redundancy controller and the
  throughput model compute in floating point and are left out.
\<close>

section \<open>Sessions\<close>

definition protocol_version :: surface_version where
  "protocol_version = 2"

definition min_protocol_version :: surface_version where
  "min_protocol_version = 2"

definition protocol_compat_window :: compat_window where
  "protocol_compat_window = 0"

definition protocol_surface :: string where
  "protocol_surface = ''pillar-udp''"

record peer_handshake =
  ph_version :: surface_version

definition peer_handshake_local :: peer_handshake where
  "peer_handshake_local = \<lparr>ph_version = protocol_version\<rparr>"

definition negotiate_session :: "peer_handshake \<Rightarrow> peer_handshake \<Rightarrow> negotiation_refused + unit" where
  "negotiate_session local remote =
     negotiate_surface protocol_surface (ph_version local) (ph_version remote) protocol_compat_window"

type_synonym cid = content_id

definition cid_of :: "sha256 \<Rightarrow> bytes \<Rightarrow> cid" where
  "cid_of sha bs = content_address sha bs"

datatype link_quality = Healthy | Degraded | Adversarial | HighLoss

datatype transport_kind = Quic | PillarUdpTransport

fun select_transport :: "link_quality \<Rightarrow> transport_kind" where
  "select_transport Healthy = Quic"
| "select_transport Degraded = PillarUdpTransport"
| "select_transport Adversarial = PillarUdpTransport"
| "select_transport HighLoss = PillarUdpTransport"

section \<open>Once per content address\<close>

text \<open>\<open>HashSet::insert\<close> reports whether the element is new.\<close>

definition hashset_insert :: "'a \<Rightarrow> 'a set \<Rightarrow> bool \<times> 'a set" where
  "hashset_insert x s = (x \<notin> s, insert x s)"

record dedup_processor =
  dp_seen :: "cid set"

definition dedup_new :: dedup_processor where
  "dedup_new = \<lparr>dp_seen = {}\<rparr>"

definition dedup_process :: "cid \<Rightarrow> dedup_processor \<Rightarrow> bool \<times> dedup_processor" where
  "dedup_process cid p = (case hashset_insert cid (dp_seen p) of (new, s) \<Rightarrow> (new, p\<lparr>dp_seen := s\<rparr>))"

definition dedup_has_seen :: "dedup_processor \<Rightarrow> cid \<Rightarrow> bool" where
  "dedup_has_seen p cid \<longleftrightarrow> cid \<in> dp_seen p"

section \<open>Exclusive messages\<close>

record exclusive_router =
  er_members :: "node_id list"

definition router_new :: "node_id list \<Rightarrow> exclusive_router" where
  "router_new ms = \<lparr>er_members = remdups_adj (sort ms)\<rparr>"

text \<open>The first eight bytes of an address as a big-endian number.\<close>

definition cid_seed :: "cid \<Rightarrow> u64" where
  "cid_seed cid = fold (\<lambda>b acc. push_bit 8 acc OR ucast b) (take 8 cid) 0"

definition router_lease_holder :: "exclusive_router \<Rightarrow> cid \<Rightarrow> node_id option" where
  "router_lease_holder r cid =
     (if er_members r = [] then None
      else Some (er_members r ! (unat (cid_seed cid) mod length (er_members r))))"

fun router_admits :: "exclusive_router \<Rightarrow> side_effect \<Rightarrow> cid \<Rightarrow> node_id \<Rightarrow> bool" where
  "router_admits r Exclusive cid candidate \<longleftrightarrow> router_lease_holder r cid = Some candidate"
| "router_admits r Convergent cid candidate \<longleftrightarrow> list_ex (\<lambda>m. m = candidate) (er_members r)"

definition reply_node_set ::
  "scoped_ipam \<Rightarrow> cid \<Rightarrow> nat \<Rightarrow> bool \<Rightarrow> (string, u64) btree_map option \<Rightarrow> ip_addr list" where
  "reply_node_set ipam cid k want_v6 preference = diversity_addrs ipam k want_v6 preference"

section \<open>Forwarding\<close>

record forward_gate =
  fg_seen :: "cid set"

datatype delivery = Forward u32 | Terminal | Loop

definition forward_gate_new :: forward_gate where
  "forward_gate_new = \<lparr>fg_seen = {}\<rparr>"

definition forward :: "cid \<Rightarrow> u32 \<Rightarrow> forward_gate \<Rightarrow> u32 option \<times> forward_gate" where
  "forward cid ttl g =
     (if ttl = 0 then (None, g)
      else case hashset_insert cid (fg_seen g) of
        (new, s) \<Rightarrow> (if \<not> new then None else Some (ttl - 1), g\<lparr>fg_seen := s\<rparr>))"

definition arrive :: "cid \<Rightarrow> u32 \<Rightarrow> forward_gate \<Rightarrow> delivery \<times> forward_gate" where
  "arrive cid ttl g =
     (case hashset_insert cid (fg_seen g) of
        (new, s) \<Rightarrow>
          (if \<not> new then Loop else if ttl = 0 then Terminal else Forward (ttl - 1), g\<lparr>fg_seen := s\<rparr>))"

section \<open>Anti-amplification\<close>

record anti_amplification =
  aa_factor :: u32
  aa_validated_requests :: u32
  aa_replies_committed :: u32

definition u32_saturating_add :: "u32 \<Rightarrow> u32 \<Rightarrow> u32" where
  "u32_saturating_add a b = (if unat a + unat b < 2 ^ 32 then a + b else 0xFFFFFFFF)"

definition u32_saturating_mul :: "u32 \<Rightarrow> u32 \<Rightarrow> u32" where
  "u32_saturating_mul a b = (if unat a * unat b < 2 ^ 32 then a * b else 0xFFFFFFFF)"

definition anti_amplification_new :: "u32 \<Rightarrow> anti_amplification" where
  "anti_amplification_new factor =
     \<lparr>aa_factor = factor, aa_validated_requests = 0, aa_replies_committed = 0\<rparr>"

definition record_validated_request :: "anti_amplification \<Rightarrow> anti_amplification" where
  "record_validated_request g =
     g\<lparr>aa_validated_requests := u32_saturating_add (aa_validated_requests g) 1\<rparr>"

definition reply_budget :: "anti_amplification \<Rightarrow> u32" where
  "reply_budget g = u32_saturating_mul (aa_factor g) (aa_validated_requests g)"

definition try_commit_reply :: "bool \<Rightarrow> anti_amplification \<Rightarrow> bool \<times> anti_amplification" where
  "try_commit_reply client_validated g =
     (if \<not> client_validated then (False, g)
      else if aa_replies_committed g \<ge> reply_budget g then (False, g)
      else (True, g\<lparr>aa_replies_committed := aa_replies_committed g + 1\<rparr>))"

section \<open>Lemmas\<close>

text \<open>This build talks to exactly the peers that declare its own version.\<close>

lemma negotiate_session_exact:
  "negotiate_session peer_handshake_local h = Inr () \<longleftrightarrow> ph_version h = protocol_version"
  by (auto simp: negotiate_session_def peer_handshake_local_def protocol_compat_window_def word_uint_eq_iff)

lemma sort_dedup_strict: "sorted_wrt (<) (remdups_adj (sort (xs :: 'a::linorder list)))"
proof -
  have "sorted_wrt (<) (remdups_adj ys)" if "sorted ys" for ys :: "'a list"
    using that by (induction ys rule: remdups_adj.induct) (auto simp: less_le)
  then show ?thesis by simp
qed

text \<open>Two nodes with the same membership, listed in whatever order, agree on the holder.\<close>

lemma router_new_cong: "set ms = set ns \<Longrightarrow> router_new ms = router_new ns"
  unfolding router_new_def
  by (rule arg_cong [where f = "\<lambda>x. \<lparr>er_members = x\<rparr>"], rule sorted_wrt_less_set_eq)
    (simp_all add: sort_dedup_strict)

lemma lease_holder_member: "router_lease_holder r cid = Some n \<Longrightarrow> n \<in> set (er_members r)"
  by (auto simp: router_lease_holder_def split: if_splits)

lemma set_router_members [simp]: "set (er_members (router_new ms)) = set ms"
  by (simp add: router_new_def)

text \<open>A sequence of calls on each gate.\<close>

fun dedup_run :: "cid list \<Rightarrow> dedup_processor \<Rightarrow> cid list" where
  "dedup_run [] p = []"
| "dedup_run (c # cs) p =
     (case dedup_process c p of (ok, p') \<Rightarrow> if ok then c # dedup_run cs p' else dedup_run cs p')"

lemma dedup_run_processed:
  "set (dedup_run cs p) = set cs - dp_seen p \<and> distinct (dedup_run cs p)"
  by (induction cs arbitrary: p) (auto simp: dedup_process_def hashset_insert_def)

datatype amplification_op = Validated | Reply bool

primrec amplification_step :: "amplification_op \<Rightarrow> anti_amplification \<Rightarrow> bool \<times> anti_amplification" where
  "amplification_step Validated g = (False, record_validated_request g)"
| "amplification_step (Reply v) g = try_commit_reply v g"

fun amplification_run :: "amplification_op list \<Rightarrow> anti_amplification \<Rightarrow> bool list \<times> anti_amplification" where
  "amplification_run [] g = ([], g)"
| "amplification_run (x # xs) g =
     (case amplification_step x g of (ok, g') \<Rightarrow>
        (case amplification_run xs g' of (oks, g'') \<Rightarrow> (ok # oks, g'')))"

text \<open>The largest \<open>u32\<close>, at which the counters saturate.\<close>

definition u32_max :: nat where
  "u32_max = 2 ^ 32 - 1"

definition amplification_inv :: "nat \<Rightarrow> nat \<Rightarrow> anti_amplification \<Rightarrow> bool" where
  "amplification_inv validated replies g \<longleftrightarrow>
     unat (aa_validated_requests g) = min u32_max validated \<and> unat (aa_replies_committed g) = replies
     \<and> replies \<le> unat (aa_factor g) * validated"

lemma unat_saturating_add1: "unat (u32_saturating_add a 1) = min u32_max (unat a + 1)"
  using unsigned_less [of a, where ?'a = nat]
  by (auto simp: u32_saturating_add_def u32_max_def unat_word_ariths)

lemma unat_saturating_mul: "unat (u32_saturating_mul a b) = min u32_max (unat a * unat b)"
  by (auto simp: u32_saturating_mul_def u32_max_def unat_word_ariths)

text \<open>The exact budget, and with it the exact answer to a request for a reply.\<close>

lemma reply_budget_exact:
  assumes "amplification_inv v r g"
  shows "unat (reply_budget g) = min u32_max (unat (aa_factor g) * min u32_max v)"
  using assms by (simp add: reply_budget_def unat_saturating_mul amplification_inv_def)

lemma try_commit_reply_exact:
  assumes "amplification_inv v r g"
  shows "fst (try_commit_reply b g) \<longleftrightarrow> b \<and> r < min u32_max (unat (aa_factor g) * min u32_max v)"
  using reply_budget_exact [OF assms] assms
  by (auto simp: try_commit_reply_def amplification_inv_def word_le_nat_alt)

lemma amplification_inv_step:
  assumes "amplification_inv v r g" "amplification_step x g = (ok, g')"
  shows "amplification_inv (if x = Validated then v + 1 else v) (if ok then r + 1 else r) g'
    \<and> aa_factor g' = aa_factor g \<and> (ok \<longrightarrow> x = Reply True)"
proof (cases x)
  case Validated
  then show ?thesis
    using assms by (auto simp: amplification_inv_def record_validated_request_def unat_saturating_add1)
next
  case (Reply b)
  show ?thesis
  proof (cases ok)
    case True
    with assms Reply have b: "b" "g' = g\<lparr>aa_replies_committed := aa_replies_committed g + 1\<rparr>"
      by (auto simp: try_commit_reply_def split: if_splits)
    have r: "r < u32_max" "r < unat (aa_factor g) * min u32_max v"
      using try_commit_reply_exact [OF assms(1), of b] assms(2) Reply True by simp_all
    have "unat (aa_factor g) * min u32_max v \<le> unat (aa_factor g) * v" by simp
    then have "r + 1 \<le> unat (aa_factor g) * v" using r(2) by linarith
    moreover have "unat (aa_replies_committed g + 1) = r + 1"
      using r(1) assms(1) by (simp add: unat_word_ariths amplification_inv_def u32_max_def)
    ultimately show ?thesis
      using assms(1) b Reply True by (simp add: amplification_inv_def)
  next
    case False
    then show ?thesis
      using assms Reply by (auto simp: try_commit_reply_def split: if_splits)
  qed
qed

lemma amplification_run_inv:
  assumes "amplification_inv v r g" "amplification_run xs g = (oks, g')"
  shows "amplification_inv (v + length (filter (\<lambda>x. x = Validated) xs)) (r + length (filter id oks)) g'
    \<and> aa_factor g' = aa_factor g
    \<and> list_all2 (\<lambda>x ok. ok \<longrightarrow> x = Reply True) xs oks"
  using assms
proof (induction xs arbitrary: v r g oks)
  case (Cons x xs)
  obtain ok g1 where s: "amplification_step x g = (ok, g1)" by fastforce
  obtain oks1 where r: "amplification_run xs g1 = (oks1, g')" and oks: "oks = ok # oks1"
    using Cons.prems(2) s by (auto split: prod.splits)
  show ?case
    using Cons.IH [OF _ r, of "if x = Validated then v + 1 else v" "if ok then r + 1 else r"]
      amplification_inv_step [OF Cons.prems(1) s] oks
    by (auto split: if_splits)
qed simp

section \<open>Properties\<close>

text \<open>
  \<^bold>\<open>C34.\<close> No amplification: after any calls on a fresh gate, \<open>V\<close> of them recording a
  validated request and \<open>R\<close> of them granted a reply, the replies are at most the factor times the
  requests, and each was granted to a validated client. The counters hold \<open>R\<close> and \<open>V\<close>, the
  latter held at the largest \<open>u32\<close> instead of wrapping, and the next request for a reply is
  granted exactly when the client is validated and \<open>R\<close> is below the factor times the counted
  requests, again held at the largest \<open>u32\<close>.
\<close>

theorem replies_never_amplify:
  assumes "amplification_run xs (anti_amplification_new factor) = (oks, g)"
    and "V = length (filter (\<lambda>x. x = Validated) xs)" "R = length (filter id oks)"
  shows "R \<le> unat factor * V
    \<and> list_all2 (\<lambda>x ok. ok \<longrightarrow> x = Reply True) xs oks
    \<and> unat (aa_replies_committed g) = R
    \<and> unat (aa_validated_requests g) = min (2 ^ 32 - 1) V
    \<and> unat (reply_budget g) = min (2 ^ 32 - 1) (unat factor * min (2 ^ 32 - 1) V)
    \<and> (fst (try_commit_reply client_validated g) \<longleftrightarrow>
        client_validated \<and> R < min (2 ^ 32 - 1) (unat factor * min (2 ^ 32 - 1) V))"
proof -
  have "amplification_inv 0 0 (anti_amplification_new factor)"
    by (simp add: amplification_inv_def anti_amplification_new_def)
  note run = amplification_run_inv [OF this assms(1)]
  then have inv: "amplification_inv V R g" and factor: "aa_factor g = factor"
    unfolding assms(2,3) by (simp_all add: anti_amplification_new_def)
  have "list_all2 (\<lambda>x ok. ok \<longrightarrow> x = Reply True) xs oks" using run by blast
  then show ?thesis
    using reply_budget_exact [OF inv] try_commit_reply_exact [OF inv, of client_validated] inv
    unfolding amplification_inv_def factor u32_max_def by blast
qed

definition demo_gate :: anti_amplification where
  "demo_gate = \<lparr>aa_factor = 0xFFFFFFFF, aa_validated_requests = 2, aa_replies_committed = 2\<rparr>"

theorem replies_never_amplify_witness:
  "amplification_run [Validated, Reply True, Reply False, Validated, Reply True]
       (anti_amplification_new 0xFFFFFFFF) = ([False, True, False, False, True], demo_gate)
     \<and> unat (reply_budget demo_gate) = 2 ^ 32 - 1
     \<and> fst (try_commit_reply True demo_gate)"
proof -
  let ?xs = "[Validated, Reply True, Reply False, Validated, Reply True]"
  have run: "amplification_run ?xs (anti_amplification_new 0xFFFFFFFF) = ([False, True, False, False, True], demo_gate)"
    by (simp add: amplification_run.simps record_validated_request_def try_commit_reply_def reply_budget_def
        u32_saturating_mul_def u32_saturating_add_def anti_amplification_new_def demo_gate_def word_le_nat_alt)
  have V: "2 = length (filter (\<lambda>x. x = Validated) ?xs)" and R: "2 = length (filter id [False, True, False, False, True])"
    by simp_all
  show ?thesis using replies_never_amplify [OF run V R, of True] run by simp
qed

text \<open>
  Exactly once: however often and in whatever order copies of messages arrive at
  a fresh processor, each content address is processed once. An exclusive message has exactly one
  handler when there are members, and every node that knows the same members names the same one.
\<close>

theorem exactly_once:
  "set (dedup_run cs dedup_new) = set cs \<and> distinct (dedup_run cs dedup_new)
   \<and> (ms \<noteq> [] \<longrightarrow> (\<exists>!n. router_admits (router_new ms) Exclusive c n))
   \<and> (router_admits (router_new ms) Exclusive c n \<longrightarrow> n \<in> set ms)
   \<and> (set ns = set ms \<longrightarrow> router_admits (router_new ns) Exclusive c n = router_admits (router_new ms) Exclusive c n)"
proof -
  have "er_members (router_new ms) \<noteq> []" if "ms \<noteq> []"
    using that by (metis set_empty set_router_members)
  then show ?thesis
    using dedup_run_processed [of cs dedup_new] lease_holder_member [of "router_new ms" c n]
      router_new_cong [of ns ms]
    by (auto simp: dedup_new_def router_lease_holder_def)
qed

theorem exactly_once_witness:
  "dedup_run [[1], [2], [1]] dedup_new = [[1], [2]]
   \<and> (\<exists>!n. router_admits (router_new [''b'', ''a'']) Exclusive [1] n)
   \<and> router_admits (router_new [''a'', ''b'', ''a'']) Exclusive [1] ''b'' =
       router_admits (router_new [''b'', ''a'']) Exclusive [1] ''b''"
  using exactly_once [of "[[1], [2], [1]]" "[''b'', ''a'']" "[1]" "''b''" "[''a'', ''b'', ''a'']"]
  by (auto simp: dedup_process_def hashset_insert_def dedup_new_def)

end
