(* ===== verification/UdpShards.thy ===== *)
theory UdpShards
  imports PillarUdp
begin

unbundle bit_operations_syntax

text \<open>
  \<^verbatim>\<open>crates/pillar-net/src/pillar_udp.rs\<close>, second part: the erasure code with its
  version-stamped, content-addressed shards, and the multiplexing of a transfer over several
  senders with its reassembly.
\<close>

section \<open>Shards\<close>

record shard =
  sh_index :: nat
  sh_bytes :: bytes
  sh_cid :: cid

definition shard_payload :: "shard \<Rightarrow> bytes option" where
  "shard_payload s = (if length (sh_bytes s) < 2 then None else Some (drop 2 (sh_bytes s)))"

definition shard_verify :: "sha256 \<Rightarrow> shard \<Rightarrow> bool" where
  "shard_verify sha s = (case shard_payload s of None \<Rightarrow> False | Some p \<Rightarrow> cid_of sha p = sh_cid s)"

datatype shard_error =
    Empty
  | InsufficientShards nat nat
  | MissingLength
  | MalformedVersionStamp
  | UnsupportedProtocolVersion version_error

definition div_ceil :: "nat \<Rightarrow> nat \<Rightarrow> nat" where
  "div_ceil n k = (n + k - 1) div k"

definition on_wire :: "bytes \<Rightarrow> bytes" where
  "on_wire payload = surface_version_to_be_bytes protocol_version @ payload"

text \<open>The \<open>i\<close>-th chunk of the message, filled up with zeros.\<close>

definition data_chunk :: "bytes \<Rightarrow> nat \<Rightarrow> nat \<Rightarrow> bytes" where
  "data_chunk message shard_len i =
     (let start = i * shard_len
      in if start < length message
         then let stop = min (start + shard_len) (length message)
              in take (stop - start) (drop start message) @ replicate (shard_len - (stop - start)) 0
         else replicate shard_len 0)"

text \<open>\<open>for (p, b) in parity.iter_mut().zip(d)\<close>: the bytes past the shorter one stay.\<close>

fun xor_into :: "bytes \<Rightarrow> bytes \<Rightarrow> bytes" where
  "xor_into (p # ps) (b # bs) = (p XOR b) # xor_into ps bs"
| "xor_into ps _ = ps"

definition shard_new :: "sha256 \<Rightarrow> nat \<Rightarrow> bytes \<Rightarrow> shard" where
  "shard_new sha index payload = \<lparr>sh_index = index, sh_bytes = on_wire payload, sh_cid = cid_of sha payload\<rparr>"

definition encode :: "sha256 \<Rightarrow> bytes \<Rightarrow> nat \<Rightarrow> nat \<Rightarrow> shard_error + shard list" where
  "encode sha message k m =
     (if k = 0 \<or> message = [] then Inl Empty
      else
        let shard_len = div_ceil (length message) k;
            data = map (data_chunk message shard_len) [0..<k];
            shards = map (\<lambda>(i, p). shard_new sha i p) (enumerate 0 data);
            parity = fold (\<lambda>d p. xor_into p d) data (replicate shard_len 0)
        in Inr (shards @ map (\<lambda>j. shard_new sha (k + j) parity) [0..<m]))"

text \<open>The version gate over all received shards.\<close>

primrec check_stamps :: "shard list \<Rightarrow> shard_error + unit" where
  "check_stamps [] = Inr ()"
| "check_stamps (s # ss) =
     (case surface_version_from_be_bytes (sh_bytes s) of
        Inl _ \<Rightarrow> Inl MalformedVersionStamp
      | Inr stamp \<Rightarrow>
          (case check_supported stamp min_protocol_version protocol_version of
             Inl e \<Rightarrow> Inl (UnsupportedProtocolVersion e)
           | Inr _ \<Rightarrow> check_stamps ss))"

text \<open>The data positions filled from the verified shards; a later shard overwrites an earlier one.\<close>

definition collect_data :: "nat \<Rightarrow> shard list \<Rightarrow> bytes option list" where
  "collect_data k good =
     fold (\<lambda>s d. if sh_index s < k then d[sh_index s := shard_payload s] else d) good (replicate k None)"

text \<open>The one missing data shard, from the first verified parity shard.\<close>

definition recover_one :: "nat \<Rightarrow> shard list \<Rightarrow> bytes option list \<Rightarrow> bytes option list" where
  "recover_one k good d =
     (case filter (\<lambda>i. d ! i = None) [0..<k] of
        [i] \<Rightarrow>
          (case find (\<lambda>s. k \<le> sh_index s) good of
             None \<Rightarrow> d
           | Some parity \<Rightarrow>
               (case shard_payload parity of
                  None \<Rightarrow> d
                | Some p \<Rightarrow> d[i := Some (fold (\<lambda>x r. xor_into r x) (List.map_filter id d) p)]))
      | _ \<Rightarrow> d)"

definition reconstruct :: "sha256 \<Rightarrow> shard list \<Rightarrow> nat \<Rightarrow> nat \<Rightarrow> shard_error + bytes" where
  "reconstruct sha shards k orig_len =
     (if k = 0 then Inl Empty
      else if orig_len = 0 then Inl MissingLength
      else case check_stamps shards of
        Inl e \<Rightarrow> Inl e
      | Inr _ \<Rightarrow>
          (let good = filter (shard_verify sha) shards
           in if good = [] then Inl (InsufficientShards k 0)
              else
                let d = collect_data k good;
                    d = (if length (filter (\<lambda>x. x \<noteq> None) d) < k then recover_one k good d else d)
                in if list_ex (\<lambda>x. x = None) d
                   then Inl (InsufficientShards k (length (filter (\<lambda>x. x \<noteq> None) d)))
                   else Inr (take orig_len (concat (List.map_filter id d)))))"

section \<open>Multiplexed transfers\<close>

record block_assignment =
  ba_index :: nat
  ba_offset :: nat
  ba_len :: nat
  ba_cid :: cid
  ba_sender :: node_id

record multiplex_plan =
  mp_transfer_cid :: cid
  mp_total_len :: nat
  mp_block_size :: nat
  mp_senders :: "node_id list"
  mp_blocks :: "block_assignment list"

definition multiplex_derive :: "sha256 \<Rightarrow> bytes \<Rightarrow> nat \<Rightarrow> node_id list \<Rightarrow> multiplex_plan option" where
  "multiplex_derive sha transfer block_size senders0 =
     (if block_size = 0 then None
      else let senders = remdups_adj (sort senders0)
           in if senders = [] then None
              else
                let transfer_cid = cid_of sha transfer;
                    start = unat (cid_seed transfer_cid) mod length senders;
                    total_len = length transfer;
                    n_blocks = max (div_ceil total_len block_size) (if total_len = 0 then 0 else 1)
                in Some \<lparr>mp_transfer_cid = transfer_cid, mp_total_len = total_len, mp_block_size = block_size,
                     mp_senders = senders,
                     mp_blocks = map (\<lambda>index.
                       let offset = index * block_size;
                           stop = min (offset + block_size) total_len;
                           bytes = take (stop - offset) (drop offset transfer)
                       in \<lparr>ba_index = index, ba_offset = offset, ba_len = stop - offset, ba_cid = cid_of sha bytes,
                           ba_sender = senders ! ((start + index) mod length senders)\<rparr>) [0..<n_blocks]\<rparr>)"

definition blocks_for :: "multiplex_plan \<Rightarrow> node_id \<Rightarrow> block_assignment list" where
  "blocks_for p sender = filter (\<lambda>b. ba_sender b = sender) (mp_blocks p)"

definition active_paths :: "multiplex_plan \<Rightarrow> nat" where
  "active_paths p = card (set (map ba_sender (mp_blocks p)))"

record reassembler =
  re_total_len :: nat
  re_block_size :: nat
  re_expect :: "block_assignment list"
  re_received :: "bytes option list"

datatype multiplex_error =
    UnknownBlock nat
  | CidMismatch nat
  | LengthMismatch nat nat nat
  | Incomplete nat

definition reassembler_new :: "multiplex_plan \<Rightarrow> reassembler" where
  "reassembler_new p = \<lparr>re_total_len = mp_total_len p, re_block_size = mp_block_size p,
     re_expect = mp_blocks p, re_received = replicate (length (mp_blocks p)) None\<rparr>"

definition reassembler_accept ::
  "sha256 \<Rightarrow> nat \<Rightarrow> bytes \<Rightarrow> reassembler \<Rightarrow> (multiplex_error + unit) \<times> reassembler" where
  "reassembler_accept sha index bs r =
     (if length (re_expect r) \<le> index then (Inl (UnknownBlock index), r)
      else let e = re_expect r ! index
           in if length bs \<noteq> ba_len e then (Inl (LengthMismatch index (ba_len e) (length bs)), r)
              else if cid_of sha bs \<noteq> ba_cid e then (Inl (CidMismatch index), r)
              else (Inr (), r\<lparr>re_received := (re_received r)[index := Some bs]\<rparr>))"

definition reassembler_missing :: "reassembler \<Rightarrow> nat" where
  "reassembler_missing r = length (filter (\<lambda>b. b = None) (re_received r))"

definition reassembler_is_complete :: "reassembler \<Rightarrow> bool" where
  "reassembler_is_complete r \<longleftrightarrow> reassembler_missing r = 0"

text \<open>\<open>out[offset..offset + bytes.len()].copy_from_slice(bytes)\<close>.\<close>

definition copy_at :: "nat \<Rightarrow> bytes \<Rightarrow> bytes \<Rightarrow> bytes" where
  "copy_at offset bs out = take offset out @ bs @ drop (offset + length bs) out"

definition reassemble :: "reassembler \<Rightarrow> multiplex_error + bytes" where
  "reassemble r =
     (let missing = reassembler_missing r
      in if missing \<noteq> 0 then Inl (Incomplete missing)
         else Inr (fold (\<lambda>(index, slot) out. case slot of
                      None \<Rightarrow> out | Some bs \<Rightarrow> copy_at (index * re_block_size r) bs out)
                    (enumerate 0 (re_received r)) (replicate (re_total_len r) 0)))"

section \<open>Cutting and joining\<close>

lemma concat_chunks: "concat (map (\<lambda>i. take b (drop (i * b) xs)) [0..<k]) = take (k * b) xs"
proof (induction k)
  case (Suc k)
  have "take (Suc k * b) xs = take (k * b) xs @ take b (drop (k * b) xs)"
    using take_add [of "k * b" b xs] by (simp add: add.commute)
  then show ?case using Suc by simp
qed simp

lemma le_mult_div_ceil: "0 < k \<Longrightarrow> n \<le> k * div_ceil n k"
proof -
  assume "0 < k"
  then have "(n + k - 1) mod k + 1 \<le> k" by (simp add: Suc_leI)
  moreover have "k * div_ceil n k + (n + k - 1) mod k = n + k - 1"
    by (simp add: div_ceil_def)
  ultimately show ?thesis using \<open>0 < k\<close> by linarith
qed

lemma data_chunk_padded:
  assumes "i < k" "length msg \<le> k * b"
  shows "data_chunk msg b i = take b (drop (i * b) (msg @ replicate (k * b - length msg) 0))"
proof -
  have "Suc i * b \<le> k * b" using assms(1) by (intro mult_le_mono1) simp
  then have fits: "i * b + b \<le> k * b" by (simp add: add.commute)
  show ?thesis
  proof (cases "i * b < length msg")
    case True
    then have "min (i * b + b) (length msg) - i * b = min b (length msg - i * b)" by simp
    then show ?thesis
      using True fits by (simp add: data_chunk_def Let_def min_def take_replicate)
  next
    case False
    then show ?thesis using fits by (simp add: data_chunk_def Let_def min_def)
  qed
qed

lemma concat_data_chunks:
  assumes "length msg \<le> k * b"
  shows "take (length msg) (concat (map (data_chunk msg b) [0..<k])) = msg"
proof -
  have "map (data_chunk msg b) [0..<k] =
      map (\<lambda>i. take b (drop (i * b) (msg @ replicate (k * b - length msg) 0))) [0..<k]"
    using assms by (simp add: data_chunk_padded)
  then show ?thesis by (simp only: concat_chunks) (use assms in simp)
qed

lemma length_data_chunk: "length (data_chunk msg b i) = b"
  by (auto simp: data_chunk_def Let_def min_def)

section \<open>The parity\<close>

lemma length_xor_into [simp]: "length (xor_into p d) = length p"
  by (induction p d rule: xor_into.induct) simp_all

lemma nth_xor_into:
  "i < length p \<Longrightarrow> length d = length p \<Longrightarrow> xor_into p d ! i = p ! i XOR d ! i"
  by (induction p d arbitrary: i rule: xor_into.induct) (auto simp: nth_Cons split: nat.splits)

text \<open>On lists of one length, the order does not matter and a second application undoes the first.\<close>

lemma xor_into_commute:
  assumes "length d = length p" "length e = length p"
  shows "xor_into (xor_into p d) e = xor_into (xor_into p e) d"
  by (rule nth_equalityI) (use assms in \<open>simp_all add: nth_xor_into xor.assoc xor.commute [of "d ! _"]\<close>)

lemma xor_into_twice:
  assumes "length d = length p"
  shows "xor_into (xor_into p d) d = p"
  by (rule nth_equalityI) (use assms in \<open>simp_all add: nth_xor_into xor.assoc\<close>)

abbreviation xor_all :: "bytes list \<Rightarrow> bytes \<Rightarrow> bytes" where
  "xor_all ds p \<equiv> fold (\<lambda>d p. xor_into p d) ds p"

lemma length_xor_all [simp]: "length (xor_all ds p) = length p"
  by (induction ds arbitrary: p) simp_all

lemma xor_all_commute:
  assumes "list_all (\<lambda>d. length d = length p) ds" "length e = length p"
  shows "xor_all ds (xor_into p e) = xor_into (xor_all ds p) e"
  using assms by (induction ds arbitrary: p) (simp_all add: xor_into_commute)

lemma xor_all_twice:
  assumes "list_all (\<lambda>d. length d = length p) ds"
  shows "xor_all ds (xor_all ds p) = p"
  using assms
proof (induction ds arbitrary: p)
  case (Cons d ds)
  have "xor_all (d # ds) (xor_all (d # ds) p) = xor_all ds (xor_into (xor_into (xor_all ds p) d) d)"
    using Cons.prems by (simp add: xor_all_commute)
  also have "\<dots> = xor_all ds (xor_all ds p)"
    using Cons.prems by (simp add: xor_into_twice)
  finally show ?case using Cons by simp
qed simp

text \<open>The parity with all the other data folded in is the missing data.\<close>

lemma xor_recovers:
  assumes "list_all (\<lambda>x. length x = n) (xs @ d # ys)"
  shows "xor_all (xs @ ys) (xor_all (xs @ d # ys) (replicate n 0)) = d"
proof -
  let ?z = "replicate n 0 :: bytes"
  have lens: "list_all (\<lambda>x. length x = n) (xs @ ys)" "length d = n" using assms by simp_all
  have "xor_all (xs @ d # ys) ?z = xor_into (xor_all (xs @ ys) ?z) d"
    using assms by (simp add: xor_all_commute)
  then have "xor_all (xs @ ys) (xor_all (xs @ d # ys) ?z) =
      xor_into (xor_all (xs @ ys) (xor_all (xs @ ys) ?z)) d"
    using lens by (simp add: xor_all_commute del: fold_append fold_simps)
  also have "\<dots> = xor_into ?z d"
    using lens by (simp add: xor_all_twice del: fold_append)
  also have "\<dots> = d"
    by (rule nth_equalityI) (use lens in \<open>simp_all add: nth_xor_into\<close>)
  finally show ?thesis .
qed

section \<open>Reconstruction\<close>

abbreviation chunk_len :: "bytes \<Rightarrow> nat \<Rightarrow> nat" where
  "chunk_len msg k \<equiv> div_ceil (length msg) k"

abbreviation chunk :: "bytes \<Rightarrow> nat \<Rightarrow> nat \<Rightarrow> bytes" where
  "chunk msg k i \<equiv> data_chunk msg (chunk_len msg k) i"

definition parity_of :: "bytes \<Rightarrow> nat \<Rightarrow> bytes" where
  "parity_of msg k = xor_all (map (chunk msg k) [0..<k]) (replicate (chunk_len msg k) 0)"

lemma encode_Inr:
  assumes "encode sha msg k m = Inr shards"
  shows "0 < k" "msg \<noteq> []"
    and "shards = map (\<lambda>i. shard_new sha i (chunk msg k i)) [0..<k]
      @ map (\<lambda>j. shard_new sha (k + j) (parity_of msg k)) [0..<m]"
  using assms by (auto simp: encode_def Let_def parity_of_def enumerate_eq_zip zip_map2 zip_same_conv_map
      split: if_splits)

lemma shard_new_sel [simp]:
  "sh_index (shard_new sha i p) = i" "shard_payload (shard_new sha i p) = Some p"
  "shard_verify sha (shard_new sha i p)"
  by (simp_all add: shard_new_def shard_payload_def shard_verify_def on_wire_def surface_version_to_be_bytes_def)

lemma shard_new_inject [simp]: "shard_new sha i p = shard_new sha j q \<longleftrightarrow> i = j \<and> p = q"
  by (auto simp: shard_new_def on_wire_def)

lemma check_stamps_new [simp]: "check_stamps (shard_new sha i p # ss) = check_stamps ss"
proof -
  have "surface_version_from_be_bytes (on_wire p) = Inr protocol_version"
    unfolding on_wire_def by (rule surface_version_roundtrip)
  moreover have "check_supported protocol_version min_protocol_version protocol_version = Inr ()"
    by (simp add: min_protocol_version_def protocol_version_def)
  ultimately show ?thesis by (simp add: shard_new_def del: check_supported_Inr)
qed

lemma check_stamps_all:
  "check_stamps ss = Inr () \<longleftrightarrow> list_all (\<lambda>s. check_stamps [s] = Inr ()) ss"
  by (induction ss) (simp_all del: check_supported_Inr split: sum.split)

declare check_stamps.simps(2) [simp del]

text \<open>What is collected when every verified data shard holds the payload of its position.\<close>

lemma length_fold_collect:
  "length (fold (\<lambda>s d. if sh_index s < k then d[sh_index s := shard_payload s] else d) ss d) = length d"
  by (induction ss arbitrary: d) simp_all

lemma nth_fold_collect:
  assumes "list_all (\<lambda>s. sh_index s < k \<longrightarrow> shard_payload s = Some (f (sh_index s))) ss"
    and "i < k" "length d = k"
  shows "fold (\<lambda>s d. if sh_index s < k then d[sh_index s := shard_payload s] else d) ss d ! i =
    (if i \<in> sh_index ` set ss then Some (f i) else d ! i)"
  using assms by (induction ss arbitrary: d) (auto simp: nth_list_update)

lemma collect_data_eq:
  assumes "list_all (\<lambda>s. sh_index s < k \<longrightarrow> shard_payload s = Some (f (sh_index s))) ss"
  shows "collect_data k ss = map (\<lambda>i. if i \<in> sh_index ` set ss then Some (f i) else None) [0..<k]"
  by (rule nth_equalityI)
    (simp_all add: collect_data_def length_fold_collect nth_fold_collect [OF assms] del: fold_simps)

lemma filter_map_Some:
  "length (filter (\<lambda>x. x \<noteq> None) (map (\<lambda>i. if P i then Some (f i) else None) xs)) = length (filter P xs)"
  by (induction xs) simp_all

lemma map_filter_present:
  "List.map_filter id (map (\<lambda>i. if P i then Some (f i) else None) xs) = map f (filter P xs)"
  by (induction xs) (simp_all add: List.map_filter_simps)

lemma one_missing:
  assumes "filter (\<lambda>i. \<not> P i) [0..<k] = [i]"
  shows "i < k" "\<not> P i" "filter P [0..<k] = [0..<i] @ [Suc i..<k]"
proof -
  have mem: "{j. j < k \<and> \<not> P j} = {i}"
    using arg_cong [OF assms, of set] by auto
  then show i: "i < k" "\<not> P i" by auto
  have others: "P j" if "j < k" "j \<noteq> i" for j using mem that by auto
  have "filter P [0..<i] = [0..<i]" "filter P [Suc i..<k] = [Suc i..<k]"
    using others i(1) by (auto simp: filter_id_conv)
  then show "filter P [0..<k] = [0..<i] @ [Suc i..<k]"
    using i by (simp add: upt_split_at [OF i(1)])
qed

text \<open>With one position missing, the parity restores it.\<close>

lemma recover_one_missing:
  assumes "filter (\<lambda>i. \<not> P i) [0..<k] = [i]"
    and "find (\<lambda>s. k \<le> sh_index s) good = Some s" "shard_payload s = Some (parity_of msg k)"
  shows "recover_one k good (map (\<lambda>i. if P i then Some (chunk msg k i) else None) [0..<k]) =
    map (\<lambda>i. Some (chunk msg k i)) [0..<k]"
proof -
  let ?d = "map (\<lambda>i. if P i then Some (chunk msg k i) else None) [0..<k]"
  let ?c = "chunk msg k"
  note i = one_missing [OF assms(1)]
  have present: "P j" if "j < k" "j \<noteq> i" for j
  proof (rule ccontr)
    assume "\<not> P j"
    then have "j \<in> set (filter (\<lambda>i. \<not> P i) [0..<k])" using that(1) by simp
    then show False using assms(1) that(2) by simp
  qed
  have "filter (\<lambda>j. ?d ! j = None) [0..<k] = filter (\<lambda>j. \<not> P j) [0..<k]"
    by (rule filter_cong) auto
  then have miss: "filter (\<lambda>j. ?d ! j = None) [0..<k] = [i]" using assms(1) by simp
  have rest: "List.map_filter id ?d = map ?c [0..<i] @ map ?c [Suc i..<k]"
    unfolding map_filter_present i(3) by simp
  have all: "map ?c [0..<k] = map ?c [0..<i] @ ?c i # map ?c [Suc i..<k]"
    by (simp add: upt_split_at [OF i(1)])
  have "xor_all (map ?c [0..<i] @ map ?c [Suc i..<k]) (parity_of msg k) = ?c i"
    unfolding parity_of_def all by (rule xor_recovers) (auto simp: list_all_iff length_data_chunk)
  then have "recover_one k good ?d = ?d[i := Some (?c i)]"
    unfolding recover_one_def miss rest using assms(2,3) by simp
  also have "\<dots> = map (\<lambda>i. Some (?c i)) [0..<k]"
    by (rule nth_equalityI)
      (use i(1) present in \<open>auto simp: nth_list_update\<close>)
  finally show ?thesis .
qed

text \<open>Reconstruction as a function of the positions that are present and of the parity.\<close>

lemma reconstruct_present:
  assumes "0 < k" "msg \<noteq> []" "check_stamps rs = Inr ()"
    and data: "collect_data k (filter (shard_verify sha) rs) =
      map (\<lambda>i. if P i then Some (chunk msg k i) else None) [0..<k]"
    and parity: "find (\<lambda>s. k \<le> sh_index s) (filter (shard_verify sha) rs) = sp"
      "\<And>s. sp = Some s \<Longrightarrow> shard_payload s = Some (parity_of msg k)"
  shows "reconstruct sha rs k (length msg) =
    (let have = length (filter P [0..<k])
     in if have = k \<or> (have + 1 = k \<and> sp \<noteq> None) then Inr msg else Inl (InsufficientShards k have))"
proof -
  let ?good = "filter (shard_verify sha) rs"
  let ?d = "map (\<lambda>i. if P i then Some (chunk msg k i) else None) [0..<k]"
  let ?have = "length (filter P [0..<k])"
  let ?full = "map (\<lambda>i. Some (chunk msg k i)) [0..<k]"
  have counts: "?have + length (filter (\<lambda>i. \<not> P i) [0..<k]) = k"
    using sum_length_filter_compl [of P "[0..<k]"] by simp
  have whole: "take (length msg) (concat (List.map_filter id ?full)) = msg"
    using concat_data_chunks [OF le_mult_div_ceil [OF assms(1)], of msg] map_filter_present [of "\<lambda>_. True" "chunk msg k" "[0..<k]"]
    by simp
  have full: "?d = ?full" if "?have = k"
  proof -
    have "filter (\<lambda>i. \<not> P i) [0..<k] = []" using counts that by simp
    then show ?thesis by (auto simp: filter_empty_conv)
  qed
  have empty: "?have = 0 \<and> sp = None" if "?good = []"
  proof -
    have "replicate k None = ?d" using data that by (simp add: collect_data_def)
    then have eq: "replicate k None ! i = ?d ! i" for i by simp
    have "\<not> P i" if "i < k" for i using eq [of i] that by (cases "P i") simp_all
    then show ?thesis using that parity(1) by (auto simp: filter_empty_conv)
  qed
  have recovered: "recover_one k ?good ?d = ?full" if "?have + 1 = k" "sp \<noteq> None"
  proof -
    have "length (filter (\<lambda>i. \<not> P i) [0..<k]) = 1" using counts that(1) by simp
    then obtain i where "filter (\<lambda>i. \<not> P i) [0..<k] = [i]" by (auto simp: length_Suc_conv)
    then show ?thesis using recover_one_missing parity that(2) by blast
  qed
  have stays: "recover_one k ?good ?d = ?d" if "\<not> (?have + 1 = k \<and> sp \<noteq> None)"
  proof -
    have "filter (\<lambda>j. ?d ! j = None) [0..<k] = filter (\<lambda>j. \<not> P j) [0..<k]"
      by (rule filter_cong) auto
    then show ?thesis
      using that counts parity(1) unfolding recover_one_def
      by (auto split: list.splits option.splits)
  qed
  have none: "list_ex (\<lambda>x. x = None) ?d \<longleftrightarrow> ?have \<noteq> k"
  proof -
    have "list_ex (\<lambda>x. x = None) ?d \<longleftrightarrow> filter (\<lambda>i. \<not> P i) [0..<k] \<noteq> []"
      by (auto simp: list_ex_iff filter_empty_conv)
    then show ?thesis using counts by auto
  qed
  have le: "?have \<le> k" using counts by simp
  have no: "\<not> list_ex (\<lambda>x. x = None) ?full" by (auto simp: list_ex_iff)
  define d where "d = ?d"
  define f where "f = ?full"
  show ?thesis
    using assms(1-3) empty whole full recovered stays none le no filter_map_Some [of P "chunk msg k" "[0..<k]"]
    unfolding reconstruct_def data Let_def d_def [symmetric] f_def [symmetric] by auto
qed

lemma encoded_shards:
  assumes "encode sha msg k m = Inr shards"
  shows "take k shards = map (\<lambda>i. shard_new sha i (chunk msg k i)) [0..<k]"
    and "drop k shards = map (\<lambda>j. shard_new sha (k + j) (parity_of msg k)) [0..<m]"
    and "s \<in> set shards \<Longrightarrow> shard_verify sha s \<and> check_stamps [s] = Inr ()"
    and "s \<in> set shards \<Longrightarrow> sh_index s < k \<Longrightarrow> s = shard_new sha (sh_index s) (chunk msg k (sh_index s))"
    and "s \<in> set shards \<Longrightarrow> k \<le> sh_index s \<Longrightarrow> shard_payload s = Some (parity_of msg k) \<and> s \<in> set (drop k shards)"
  using encode_Inr(3) [OF assms] by auto

text \<open>
  \<^bold>\<open>C32.\<close> The erasure code: from any selection of the shards of a message, in any order,
  with repetitions and with shards that fail verification mixed in, the message comes back exactly
  when all data shards but at most one are there and the one is covered by a parity shard;
  otherwise the number of data shards that are there is reported.
\<close>

theorem erasure_code_recovers:
  assumes enc: "encode sha msg k m = Inr shards"
    and rs: "list_all (\<lambda>s. s \<in> set shards \<or> (check_stamps [s] = Inr () \<and> \<not> shard_verify sha s)) rs"
  shows "reconstruct sha rs k (length msg) =
    (let have = length (filter (\<lambda>s. s \<in> set rs) (take k shards))
     in if have = k \<or> (have + 1 = k \<and> list_ex (\<lambda>s. s \<in> set rs) (drop k shards)) then Inr msg
        else Inl (InsufficientShards k have))"
proof -
  note sh = encoded_shards [OF enc]
  let ?good = "filter (shard_verify sha) rs"
  let ?P = "\<lambda>i. shard_new sha i (chunk msg k i) \<in> set rs"
  have good: "s \<in> set shards" if "s \<in> set ?good" for s
    using that rs by (auto simp: list_all_iff)
  have stamps: "check_stamps rs = Inr ()"
    using rs sh(3) unfolding check_stamps_all [of rs] list_all_iff by blast
  have positions: "i \<in> sh_index ` set ?good \<longleftrightarrow> ?P i" if "i < k" for i
  proof
    assume "i \<in> sh_index ` set ?good"
    then obtain s where s: "s \<in> set ?good" "i = sh_index s" by blast
    then have "s = shard_new sha i (chunk msg k i)" using sh(4) [OF good [OF s(1)]] that by simp
    then show "?P i" using s(1) by simp
  next
    assume "?P i"
    then show "i \<in> sh_index ` set ?good" by (intro image_eqI [where x = "shard_new sha i (chunk msg k i)"]) simp_all
  qed
  have payloads: "list_all (\<lambda>s. sh_index s < k \<longrightarrow> shard_payload s = Some (chunk msg k (sh_index s))) ?good"
    unfolding list_all_iff using sh(4) [OF good] shard_new_sel(2) by metis
  have data: "collect_data k ?good = map (\<lambda>i. if ?P i then Some (chunk msg k i) else None) [0..<k]"
    unfolding collect_data_eq [OF payloads] using positions by simp
  have have_eq: "length (filter (\<lambda>s. s \<in> set rs) (take k shards)) = length (filter ?P [0..<k])"
    unfolding sh(1) by (simp add: filter_map o_def)
  have parity: "find (\<lambda>s. k \<le> sh_index s) ?good \<noteq> None \<longleftrightarrow> list_ex (\<lambda>s. s \<in> set rs) (drop k shards)"
  proof
    assume "find (\<lambda>s. k \<le> sh_index s) ?good \<noteq> None"
    then obtain s where s: "s \<in> set ?good" "k \<le> sh_index s" by (auto simp: find_None_iff)
    then show "list_ex (\<lambda>s. s \<in> set rs) (drop k shards)"
      using sh(5) [OF good [OF s(1)] s(2)] by (auto simp: list_ex_iff)
  next
    assume "list_ex (\<lambda>s. s \<in> set rs) (drop k shards)"
    then obtain j where "shard_new sha (k + j) (parity_of msg k) \<in> set ?good"
      unfolding sh(2) by (auto simp: list_ex_iff)
    then show "find (\<lambda>s. k \<le> sh_index s) ?good \<noteq> None"
      unfolding find_None_iff using le_add1 [of k j] shard_new_sel(1) by metis
  qed
  have payload: "shard_payload s = Some (parity_of msg k)" if "find (\<lambda>s. k \<le> sh_index s) ?good = Some s" for s
  proof -
    have "s \<in> set ?good" "k \<le> sh_index s"
      using that unfolding find_Some_iff by (metis nth_mem, metis)
    then show ?thesis using sh(5) good by blast
  qed
  show ?thesis
    using reconstruct_present [OF encode_Inr(1,2) [OF enc] stamps data refl payload]
    unfolding have_eq parity .
qed

theorem erasure_code_recovers_witness:
  "reconstruct (\<lambda>x. x) (map (shard_new (\<lambda>x. x) 2) [[4]] @ map (shard_new (\<lambda>x. x) 0) [[5]]) 2 2 = Inr [5, 1]"
proof -
  have enc: "encode (\<lambda>x. x) [5, 1] 2 1 =
      Inr [shard_new (\<lambda>x. x) 0 [5], shard_new (\<lambda>x. x) 1 [1], shard_new (\<lambda>x. x) 2 [4]]"
    by (simp add: encode_def div_ceil_def data_chunk_def Let_def enumerate_eq_zip upt_rec)
  have "list_all (\<lambda>s. s \<in> set [shard_new (\<lambda>x. x) 0 [5], shard_new (\<lambda>x. x) 1 [1], shard_new (\<lambda>x. x) 2 [4]]
      \<or> (check_stamps [s] = Inr () \<and> \<not> shard_verify (\<lambda>x. x) s)) [shard_new (\<lambda>x. x) 2 [4], shard_new (\<lambda>x. x) 0 [5]]"
    by simp
  from erasure_code_recovers [OF enc this] show ?thesis by (simp add: numeral_2_eq_2)
qed

section \<open>The plan of a transfer\<close>

definition block_bytes :: "multiplex_plan \<Rightarrow> bytes \<Rightarrow> nat \<Rightarrow> bytes" where
  "block_bytes p transfer i =
     take (ba_len (mp_blocks p ! i)) (drop (ba_offset (mp_blocks p ! i)) transfer)"

lemma less_div_ceil: "0 < b \<Longrightarrow> i < div_ceil n b \<longleftrightarrow> i * b < n"
proof -
  assume b: "0 < b"
  have "i < div_ceil n b \<longleftrightarrow> Suc i * b \<le> n + b - 1"
    unfolding div_ceil_def using b by (metis Suc_le_eq less_eq_div_iff_mult_less_eq)
  then show ?thesis using b by auto
qed

lemma n_blocks_eq: "0 < b \<Longrightarrow> max (div_ceil n b) (if n = 0 then 0 else 1) = div_ceil n b"
  using less_div_ceil [of b 0 n] by (auto simp: max_def)

lemma derive_Some:
  assumes "multiplex_derive sha transfer b ss = Some p"
  shows "0 < b" "mp_total_len p = length transfer" "mp_block_size p = b"
    and "length (mp_blocks p) = div_ceil (length transfer) b"
    and "mp_senders p = remdups_adj (sort ss)" "mp_senders p \<noteq> []"
    and "i < length (mp_blocks p) \<Longrightarrow> ba_offset (mp_blocks p ! i) = i * b"
    and "i < length (mp_blocks p) \<Longrightarrow> block_bytes p transfer i = take b (drop (i * b) transfer)"
    and "i < length (mp_blocks p) \<Longrightarrow> ba_len (mp_blocks p ! i) = length (block_bytes p transfer i)"
    and "i < length (mp_blocks p) \<Longrightarrow> ba_cid (mp_blocks p ! i) = cid_of sha (block_bytes p transfer i)"
    and "i < length (mp_blocks p) \<Longrightarrow> ba_sender (mp_blocks p ! i) =
      mp_senders p ! ((unat (cid_seed (cid_of sha transfer)) + i) mod length (mp_senders p))"
proof -
  let ?n = "div_ceil (length transfer) b"
  show b: "0 < b" using assms by (simp add: multiplex_derive_def split: if_splits)
  let ?block = "\<lambda>index. let offset = index * b; stop = min (offset + b) (length transfer);
      bytes = take (stop - offset) (drop offset transfer); senders = remdups_adj (sort ss)
    in \<lparr>ba_index = index, ba_offset = offset, ba_len = stop - offset, ba_cid = cid_of sha bytes,
        ba_sender = senders ! ((unat (cid_seed (cid_of sha transfer)) mod length senders + index) mod length senders)\<rparr>"
  show "mp_total_len p = length transfer" "mp_block_size p = b"
    "mp_senders p = remdups_adj (sort ss)" "mp_senders p \<noteq> []"
    using assms b by (auto simp: multiplex_derive_def Let_def split: if_splits)
  note senders = this(3)
  have blocks: "mp_blocks p = map ?block [0..<?n]"
    using assms b by (auto simp: multiplex_derive_def Let_def n_blocks_eq split: if_splits)
  show "length (mp_blocks p) = ?n" by (simp add: blocks)
  assume i: "i < length (mp_blocks p)"
  then have "i * b < length transfer" using less_div_ceil [OF b] by (simp add: blocks)
  then have part: "min (i * b + b) (length transfer) - i * b = min b (length transfer - i * b)" by auto
  have at: "mp_blocks p ! i = ?block i" using i by (simp add: blocks)
  show "ba_offset (mp_blocks p ! i) = i * b" by (simp add: at Let_def)
  have bb: "block_bytes p transfer i = take (min b (length transfer - i * b)) (drop (i * b) transfer)"
    by (simp add: block_bytes_def at Let_def part)
  then show "block_bytes p transfer i = take b (drop (i * b) transfer)"
    by (metis length_drop min.commute take_all_iff take_take order_refl)
  show "ba_len (mp_blocks p ! i) = length (block_bytes p transfer i)"
    by (simp add: bb) (simp add: at Let_def part)
  show "ba_cid (mp_blocks p ! i) = cid_of sha (block_bytes p transfer i)"
    unfolding bb by (simp add: at Let_def part)
  show "ba_sender (mp_blocks p ! i) =
      mp_senders p ! ((unat (cid_seed (cid_of sha transfer)) + i) mod length (mp_senders p))"
    unfolding senders by (simp add: at Let_def mod_add_left_eq)
qed

section \<open>Reassembly\<close>

definition reassembler_run :: "sha256 \<Rightarrow> (nat \<times> bytes) list \<Rightarrow> reassembler \<Rightarrow> reassembler" where
  "reassembler_run sha offers r = fold (\<lambda>(i, bs) r. snd (reassembler_accept sha i bs r)) offers r"

text \<open>Offers of which none collides with another content under the address of a block.\<close>

definition no_second_preimage :: "sha256 \<Rightarrow> multiplex_plan \<Rightarrow> bytes \<Rightarrow> (nat \<times> bytes) list \<Rightarrow> bool" where
  "no_second_preimage sha p transfer offers \<longleftrightarrow>
     list_all (\<lambda>(i, bs). i < length (mp_blocks p) \<and> cid_of sha bs = ba_cid (mp_blocks p ! i)
       \<longrightarrow> bs = block_bytes p transfer i) offers"

lemma reassembler_run_received:
  assumes d: "multiplex_derive sha transfer b ss = Some p" and "no_second_preimage sha p transfer offers"
  shows "reassembler_run sha offers (reassembler_new p) = (reassembler_new p)\<lparr>re_received :=
    map (\<lambda>i. if (i, block_bytes p transfer i) \<in> set offers then Some (block_bytes p transfer i) else None)
      [0..<length (mp_blocks p)]\<rparr>"
  using assms(2)
proof (induction offers rule: rev_induct)
  case Nil
  show ?case by (simp add: reassembler_run_def reassembler_new_def map_replicate_const)
next
  case (snoc o' offers)
  obtain j bs where o': "o' = (j, bs)" by fastforce
  let ?n = "length (mp_blocks p)" and ?blk = "block_bytes p transfer"
  let ?rec = "\<lambda>os. map (\<lambda>i. if (i, ?blk i) \<in> set os then Some (?blk i) else None) [0..<?n]"
  have IH: "reassembler_run sha offers (reassembler_new p) = (reassembler_new p)\<lparr>re_received := ?rec offers\<rparr>"
    using snoc by (simp add: no_second_preimage_def)
  have ok: "j < ?n \<Longrightarrow> cid_of sha bs = ba_cid (mp_blocks p ! j) \<Longrightarrow> bs = ?blk j"
    using snoc.prems by (simp add: no_second_preimage_def o')
  have same: "?rec (offers @ [o']) = ?rec offers" if "\<not> (j < ?n \<and> bs = ?blk j)"
    using that by (auto simp: o')
  have upd: "?rec (offers @ [o']) = (?rec offers)[j := Some bs]" if "j < ?n" "bs = ?blk j"
    using that by (intro nth_equalityI) (auto simp: o' nth_list_update)
  have run: "reassembler_run sha (offers @ [o']) (reassembler_new p) =
      snd (reassembler_accept sha j bs ((reassembler_new p)\<lparr>re_received := ?rec offers\<rparr>))"
    using IH by (simp add: reassembler_run_def o')
  show ?case
  proof (cases "j < ?n \<and> bs = ?blk j")
    case True
    then show ?thesis
      unfolding run using upd derive_Some(9,10) [OF d, of j]
      by (simp add: reassembler_accept_def reassembler_new_def Let_def)
  next
    case False
    then show ?thesis
      unfolding run same [OF False] using ok
      by (auto simp: reassembler_accept_def reassembler_new_def Let_def)
  qed
qed

lemma copy_blocks:
  assumes "0 < b" "j \<le> div_ceil (length tr) b"
  shows "fold (\<lambda>i. copy_at (i * b) (take b (drop (i * b) tr))) [0..<j] (replicate (length tr) 0) =
    take (j * b) tr @ replicate (length tr - j * b) 0"
  using assms(2)
proof (induction j)
  case (Suc j)
  then have less: "j * b < length tr" using less_div_ceil [OF assms(1), of j "length tr"] by simp
  have "take (Suc j * b) tr = take (j * b) tr @ take b (drop (j * b) tr)"
    using take_add [of "j * b" b tr] by (simp add: add.commute)
  moreover have "length tr - j * b - min (length tr - j * b) b = length tr - Suc j * b"
    by (simp add: min_def add.commute)
  ultimately show ?case using Suc less by (simp add: copy_at_def min_def)
qed simp

text \<open>The paths of a plan: consecutive blocks go to consecutive senders, so all of them are used.\<close>

lemma card_rotation: "0 < l \<Longrightarrow> card ((\<lambda>i. (s + i) mod l) ` {..<n}) = min n (l :: nat)"
proof -
  assume l: "0 < l"
  have inj: "inj_on (\<lambda>i. (s + i) mod l) {..<l}"
  proof (rule inj_onI)
    fix i j assume ij: "i \<in> {..<l}" "j \<in> {..<l}" and eq: "(s + i) mod l = (s + j) mod l"
    have "(int s + int i) mod int l = (int s + int j) mod int l"
      using arg_cong [OF eq, of int] by (simp add: of_nat_mod)
    then have "((int s + int i) - int s) mod int l = ((int s + int j) - int s) mod int l"
      by (rule mod_diff_cong) simp
    then show "i = j" using ij by simp
  qed
  show ?thesis
  proof (cases "n \<le> l")
    case True
    then have "inj_on (\<lambda>i. (s + i) mod l) {..<n}" by (intro inj_on_subset [OF inj]) auto
    then show ?thesis using True by (simp add: card_image)
  next
    case False
    let ?img = "\<lambda>k. (\<lambda>i. (s + i) mod l) ` {..<k}"
    have "card (?img l) \<le> card (?img n)" using False by (intro card_mono) auto
    moreover have "card (?img l) = l" using inj by (simp add: card_image)
    moreover have "card (?img n) \<le> card {..<l}" using l by (intro card_mono) auto
    ultimately show ?thesis using False by simp
  qed
qed

lemma active_paths_eq:
  assumes "multiplex_derive sha transfer b ss = Some p"
  shows "active_paths p = min (length (mp_blocks p)) (card (set ss))"
proof -
  note d = derive_Some [OF assms]
  let ?s = "unat (cid_seed (cid_of sha transfer))" and ?l = "length (mp_senders p)"
  have dist: "distinct (mp_senders p)"
    using sort_dedup_strict [of ss] d(5) by (simp add: strict_sorted_iff)
  have l: "?l = card (set ss)"
    using distinct_card [OF dist] d(5) by simp
  have "set (map ba_sender (mp_blocks p)) = (\<lambda>i. ba_sender (mp_blocks p ! i)) ` {..<length (mp_blocks p)}"
    unfolding set_map image_image [of ba_sender "(!) (mp_blocks p)", symmetric]
    by (rule arg_cong [where f = "image ba_sender"]) (auto simp: set_conv_nth)
  also have "\<dots> = (!) (mp_senders p) ` ((\<lambda>i. (?s + i) mod ?l) ` {..<length (mp_blocks p)})"
    unfolding image_image by (rule image_cong) (use d(11) in auto)
  finally have "active_paths p = card ((!) (mp_senders p) ` ((\<lambda>i. (?s + i) mod ?l) ` {..<length (mp_blocks p)}))"
    by (simp add: active_paths_def)
  also have "\<dots> = card ((\<lambda>i. (?s + i) mod ?l) ` {..<length (mp_blocks p)})"
    using dist d(6) by (intro card_image) (auto simp: inj_on_def nth_eq_iff_index_eq)
  also have "\<dots> = min (length (mp_blocks p)) ?l"
    using d(6) by (intro card_rotation) simp
  finally show ?thesis by (simp add: l)
qed

text \<open>
  \<^bold>\<open>C33.\<close> A multiplexed transfer: whatever blocks are offered, in whatever order and from
  whatever path, the client returns the transfer exactly when every block of the plan has been
  offered with its bytes, and otherwise reports how many are missing; bytes that do not belong to a
  block never enter the result, provided no offer is a second preimage of a block. The plan spreads
  over as many senders as it has blocks for.
\<close>

theorem multiplex_reassembles:
  assumes "multiplex_derive sha transfer b ss = Some p" "no_second_preimage sha p transfer offers"
  shows "reassemble (reassembler_run sha offers (reassembler_new p)) =
      (let missing = length (filter (\<lambda>i. (i, block_bytes p transfer i) \<notin> set offers) [0..<length (mp_blocks p)])
       in if missing = 0 then Inr transfer else Inl (Incomplete missing))
    \<and> active_paths p = min (length (mp_blocks p)) (card (set ss))"
proof
  note d = derive_Some [OF assms(1)]
  let ?n = "length (mp_blocks p)" and ?blk = "block_bytes p transfer"
  let ?slot = "\<lambda>i. if (i, ?blk i) \<in> set offers then Some (?blk i) else None"
  let ?r = "reassembler_run sha offers (reassembler_new p)"
  have rec: "re_received ?r = map ?slot [0..<?n]" "re_total_len ?r = length transfer" "re_block_size ?r = b"
    unfolding reassembler_run_received [OF assms] using d(2,3) by (simp_all add: reassembler_new_def)
  have missing: "reassembler_missing ?r = length (filter (\<lambda>i. (i, ?blk i) \<notin> set offers) [0..<?n])"
    by (simp add: reassembler_missing_def rec(1) filter_map o_def)
  have joined: "fold (\<lambda>(i, slot) out. case slot of None \<Rightarrow> out | Some bs \<Rightarrow> copy_at (i * b) bs out)
      (enumerate 0 (map ?slot [0..<?n])) (replicate (length transfer) 0) = transfer"
    if "\<forall>i<?n. (i, ?blk i) \<in> set offers"
  proof -
    have "enumerate 0 (map ?slot [0..<?n]) = map (\<lambda>i. (i, Some (take b (drop (i * b) transfer)))) [0..<?n]"
      using that d(8) by (simp add: enumerate_eq_zip zip_map2 zip_same_conv_map)
    then show ?thesis
      using copy_blocks [OF d(1), of ?n transfer] le_mult_div_ceil [OF d(1), of "length transfer"] d(4)
      by (simp add: fold_map o_def mult.commute)
  qed
  show "reassemble ?r = (let missing = length (filter (\<lambda>i. (i, ?blk i) \<notin> set offers) [0..<?n])
       in if missing = 0 then Inr transfer else Inl (Incomplete missing))"
    unfolding reassemble_def missing rec Let_def using joined by (auto simp: filter_empty_conv)
  show "active_paths p = min ?n (card (set ss))" by (rule active_paths_eq [OF assms(1)])
qed

definition demo_plan :: multiplex_plan where
  "demo_plan = \<lparr>mp_transfer_cid = cid_of (\<lambda>x. x) [1, 2, 3], mp_total_len = 3, mp_block_size = 2,
     mp_senders = [''a''], mp_blocks =
       [\<lparr>ba_index = 0, ba_offset = 0, ba_len = 2, ba_cid = cid_of (\<lambda>x. x) [1, 2], ba_sender = ''a''\<rparr>,
        \<lparr>ba_index = 1, ba_offset = 2, ba_len = 1, ba_cid = cid_of (\<lambda>x. x) [3], ba_sender = ''a''\<rparr>]\<rparr>"

theorem multiplex_reassembles_witness:
  "reassemble (reassembler_run (\<lambda>x. x) [(1, [3]), (0, [7, 7]), (0, [1, 2])] (reassembler_new demo_plan)) = Inr [1, 2, 3]"
proof -
  have upt: "[0..<2] = [0, Suc 0]" "[0..<Suc (Suc 0)] = [0, Suc 0]" by (simp_all add: upt_rec)
  have n2: "div_ceil (Suc (Suc (Suc 0))) 2 = 2" by (simp add: div_ceil_def)
  have d: "multiplex_derive (\<lambda>x. x) [1, 2, 3] 2 [''a''] = Some demo_plan"
    by (simp add: multiplex_derive_def demo_plan_def Let_def n2 upt)
  have n: "no_second_preimage (\<lambda>x. x) demo_plan [1, 2, 3] [(1, [3]), (0, [7, 7]), (0, [1, 2])]"
    by (simp add: no_second_preimage_def demo_plan_def block_bytes_def cid_of_def content_address_def)
  have "filter (\<lambda>i. (i, block_bytes demo_plan [1, 2, 3] i) \<notin> set [(1, [3]), (0, [7, 7]), (0, [1, 2])])
      [0..<length (mp_blocks demo_plan)] = []"
    by (simp add: demo_plan_def block_bytes_def upt)
  then show ?thesis using multiplex_reassembles [OF d n] by (simp add: Let_def)
qed

end
