(* ===== verification/Cells.thy ===== *)
theory Cells
  imports Compat "HOL-Library.Option_ord"
begin

text \<open>
  \<^verbatim>\<open>crates/pillar-cells/src/lib.rs\<close>: a cell with its members, its group key as an
  epoch counter with the members each epoch is sealed to, the objects placed in it, cross-cell
  grants, published roots and the name pointer; first the operations, then the cell as a state
  machine over them.
\<close>

section \<open>Data\<close>

datatype seal_scope =
    PerNode "node_id btree_set"
  | PerCell "string btree_set"
  | PerUser "string btree_set"

datatype vis_class = Public | CellEncrypted | RecipientSealed seal_scope

datatype grant_mode = ReadOnly | ReadWrite

datatype grant_scope = AllObjects | Tags "string btree_set"

text \<open>\<open>obj_tags.intersection(t).next().is_some()\<close>.\<close>

fun scope_covers :: "grant_scope \<Rightarrow> string btree_set \<Rightarrow> bool" where
  "scope_covers AllObjects obj_tags = True"
| "scope_covers (Tags t) obj_tags = list_ex (bset_contains t) (btree_keys obj_tags)"

datatype grant = Grant (gr_user: string) (gr_mode: grant_mode) (gr_scope: grant_scope)

text \<open>The derived order: the user, then the mode, then the scope; sets compare as their sorted elements.\<close>

primrec scope_key :: "grant_scope \<Rightarrow> string list option" where
  "scope_key AllObjects = None"
| "scope_key (Tags t) = Some (btree_keys t)"

definition grant_key :: "grant \<Rightarrow> string \<times> bool \<times> string list option" where
  "grant_key g = (gr_user g, gr_mode g = ReadWrite, scope_key (gr_scope g))"

lemma btree_keys_inject: "btree_keys (s :: 'a::linorder btree_set) = btree_keys t \<Longrightarrow> s = t"
  by (rule bset_ext) (metis btree_keys_iff)

lemma grant_key_inject: "grant_key g = grant_key h \<Longrightarrow> g = h"
proof -
  assume eq: "grant_key g = grant_key h"
  have "gr_mode g = gr_mode h"
    using eq by (cases "gr_mode g"; cases "gr_mode h") (simp_all add: grant_key_def)
  moreover have "gr_scope g = gr_scope h"
    using eq by (cases "gr_scope g"; cases "gr_scope h") (auto simp: grant_key_def dest: btree_keys_inject)
  ultimately show "g = h" using eq by (simp add: grant_key_def grant.expand)
qed

instantiation grant :: linorder
begin

definition less_eq_grant :: "grant \<Rightarrow> grant \<Rightarrow> bool" where
  "less_eq_grant g h \<longleftrightarrow> grant_key g \<le> grant_key h"

definition less_grant :: "grant \<Rightarrow> grant \<Rightarrow> bool" where
  "less_grant g h \<longleftrightarrow> grant_key g < grant_key h"

instance
  by standard (auto simp: less_eq_grant_def less_grant_def less_le_not_le intro: grant_key_inject antisym)

end

type_synonym object_id = string
type_synonym cell_root = string

datatype cell_error =
    RotationFence
  | MembershipPrecondition
  | AlreadyPlaced object_id
  | GrantPrecondition
  | RootPrecondition cell_root
  | CompatRefused negotiation_error

section \<open>The cell\<close>

record cell =
  members :: "node_id btree_set"
  key_epoch :: u64
  epoch_members :: "(u64, node_id btree_set) btree_map"
  rotating :: bool
  obj_class :: "(object_id, vis_class) btree_map"
  obj_epoch :: "(object_id, u64) btree_map"
  obj_tags :: "(object_id, string btree_set) btree_map"
  placed :: "object_id btree_set"
  grants :: "grant btree_set"
  published :: "cell_root btree_set"
  name_ptr :: "cell_root option"

definition cell_new :: cell where
  "cell_new = \<lparr>members = btree_new, key_epoch = 0, epoch_members = btree_insert 0 btree_new btree_new,
     rotating = False, obj_class = btree_new, obj_epoch = btree_new, obj_tags = btree_new,
     placed = btree_new, grants = btree_new, published = btree_new, name_ptr = None\<rparr>"

definition admit :: "node_id \<Rightarrow> cell \<Rightarrow> (cell_error + unit) \<times> cell" where
  "admit node c =
     (if rotating c then (Inl RotationFence, c)
      else if bset_contains (members c) node then (Inl MembershipPrecondition, c)
      else let ms = bset_insert node (members c)
           in (Inr (), c\<lparr>members := ms, epoch_members := btree_insert (key_epoch c) ms (epoch_members c)\<rparr>))"

definition admit_versioned ::
  "node_id \<Rightarrow> declared_versions \<Rightarrow> declared_versions \<Rightarrow> string list \<Rightarrow> compat_window \<Rightarrow> cell
     \<Rightarrow> (cell_error + unit) \<times> cell" where
  "admit_versioned node local remote required window c =
     (case negotiate_all local remote required window of
        Inl e \<Rightarrow> (Inl (CompatRefused e), c)
      | Inr _ \<Rightarrow> admit node c)"

definition leave :: "node_id \<Rightarrow> cell \<Rightarrow> (cell_error + unit) \<times> cell" where
  "leave node c =
     (if rotating c then (Inl RotationFence, c)
      else if \<not> bset_contains (members c) node then (Inl MembershipPrecondition, c)
      else let ms = btree_remove node (members c); e = key_epoch c + 1
           in (Inr (), c\<lparr>members := ms, key_epoch := e, epoch_members := btree_insert e ms (epoch_members c)\<rparr>))"

definition begin_rotate :: "cell \<Rightarrow> (cell_error + unit) \<times> cell" where
  "begin_rotate c =
     (if rotating c then (Inl RotationFence, c) else (Inr (), c\<lparr>rotating := True\<rparr>))"

definition end_rotate :: "cell \<Rightarrow> (cell_error + unit) \<times> cell" where
  "end_rotate c =
     (if \<not> rotating c then (Inl RotationFence, c)
      else let e = key_epoch c + 1
           in (Inr (), c\<lparr>key_epoch := e, epoch_members := btree_insert e (members c) (epoch_members c),
                          rotating := False\<rparr>))"

definition is_member :: "cell \<Rightarrow> node_id \<Rightarrow> bool" where
  "is_member c node = bset_contains (members c) node"

definition place_object ::
  "object_id \<Rightarrow> vis_class \<Rightarrow> string btree_set \<Rightarrow> cell \<Rightarrow> (cell_error + unit) \<times> cell" where
  "place_object x cls tags c =
     (if rotating c then (Inl RotationFence, c)
      else if bset_contains (placed c) x then (Inl (AlreadyPlaced x), c)
      else (Inr (), c\<lparr>obj_class := btree_insert x cls (obj_class c),
                       obj_epoch := btree_insert x (key_epoch c) (obj_epoch c),
                       obj_tags := btree_insert x tags (obj_tags c),
                       placed := bset_insert x (placed c)\<rparr>))"

definition node_can_decrypt :: "cell \<Rightarrow> node_id \<Rightarrow> object_id \<Rightarrow> bool" where
  "node_can_decrypt c node x =
     (if \<not> bset_contains (placed c) x then False
      else case btree_get (obj_class c) x of
        Some Public \<Rightarrow> True
      | Some CellEncrypted \<Rightarrow>
          (let e = (case btree_get (obj_epoch c) x of None \<Rightarrow> 0 | Some e \<Rightarrow> e)
           in case btree_get (epoch_members c) e of None \<Rightarrow> False | Some m \<Rightarrow> bset_contains m node)
      | Some (RecipientSealed (PerNode rcpt)) \<Rightarrow> bset_contains rcpt node
      | Some (RecipientSealed _) \<Rightarrow> False
      | None \<Rightarrow> False)"

definition add_grant :: "grant \<Rightarrow> cell \<Rightarrow> (cell_error + unit) \<times> cell" where
  "add_grant g c =
     (if bset_contains (grants c) g then (Inl GrantPrecondition, c)
      else (Inr (), c\<lparr>grants := bset_insert g (grants c)\<rparr>))"

definition revoke_grant :: "grant \<Rightarrow> cell \<Rightarrow> (cell_error + unit) \<times> cell" where
  "revoke_grant g c =
     (if bset_contains (grants c) g then (Inr (), c\<lparr>grants := btree_remove g (grants c)\<rparr>)
      else (Inl GrantPrecondition, c))"

definition tags_of :: "cell \<Rightarrow> object_id \<Rightarrow> string btree_set" where
  "tags_of c x = (case btree_get (obj_tags c) x of None \<Rightarrow> btree_new | Some t \<Rightarrow> t)"

definition user_can_read :: "cell \<Rightarrow> string \<Rightarrow> object_id \<Rightarrow> bool" where
  "user_can_read c user x =
     list_ex (\<lambda>g. gr_user g = user \<and> scope_covers (gr_scope g) (tags_of c x)) (btree_keys (grants c))"

definition user_can_write :: "cell \<Rightarrow> string \<Rightarrow> object_id \<Rightarrow> bool" where
  "user_can_write c user x =
     list_ex (\<lambda>g. gr_user g = user \<and> gr_mode g = ReadWrite \<and> scope_covers (gr_scope g) (tags_of c x))
       (btree_keys (grants c))"

definition publish_root :: "cell_root \<Rightarrow> cell \<Rightarrow> (cell_error + unit) \<times> cell" where
  "publish_root r c =
     (if bset_contains (published c) r then (Inl (RootPrecondition r), c)
      else (Inr (), c\<lparr>published := bset_insert r (published c)\<rparr>))"

definition set_name_ptr :: "cell_root \<Rightarrow> cell \<Rightarrow> (cell_error + unit) \<times> cell" where
  "set_name_ptr r c =
     (if \<not> bset_contains (published c) r then (Inl (RootPrecondition r), c)
      else (Inr (), c\<lparr>name_ptr := Some r\<rparr>))"

definition is_published :: "cell \<Rightarrow> cell_root \<Rightarrow> bool" where
  "is_published c r = bset_contains (published c) r"

section \<open>The cell as a state machine\<close>

datatype cell_op =
    OpAdmit node_id
  | OpAdmitVersioned node_id declared_versions declared_versions "string list" compat_window
  | OpLeave node_id
  | OpBeginRotate
  | OpEndRotate
  | OpPlace object_id vis_class "string btree_set"
  | OpAddGrant grant
  | OpRevokeGrant grant
  | OpPublish cell_root
  | OpSetName cell_root

fun cell_apply :: "cell_op \<Rightarrow> cell \<Rightarrow> (cell_error + unit) \<times> cell" where
  "cell_apply (OpAdmit n) = admit n"
| "cell_apply (OpAdmitVersioned n l r req w) = admit_versioned n l r req w"
| "cell_apply (OpLeave n) = leave n"
| "cell_apply OpBeginRotate = begin_rotate"
| "cell_apply OpEndRotate = end_rotate"
| "cell_apply (OpPlace x cls tags) = place_object x cls tags"
| "cell_apply (OpAddGrant g) = add_grant g"
| "cell_apply (OpRevokeGrant g) = revoke_grant g"
| "cell_apply (OpPublish r) = publish_root r"
| "cell_apply (OpSetName r) = set_name_ptr r"

definition cell_step :: "cell_op \<Rightarrow> cell \<Rightarrow> cell" where
  "cell_step o' c = snd (cell_apply o' c)"

definition cell_run :: "cell_op list \<Rightarrow> cell" where
  "cell_run os = fold cell_step os cell_new"

lemmas cell_op_defs = admit_def admit_versioned_def leave_def begin_rotate_def end_rotate_def
  place_object_def add_grant_def revoke_grant_def publish_root_def set_name_ptr_def

lemma cell_run_Nil [simp]: "cell_run [] = cell_new"
  by (simp add: cell_run_def)

lemma cell_run_snoc [simp]: "cell_run (os @ [x]) = cell_step x (cell_run os)"
  by (simp add: cell_run_def)

text \<open>A refused operation leaves the cell as it was.\<close>

lemma cell_error_keeps_state: "cell_apply x c = (Inl e, c') \<Longrightarrow> c' = c"
  by (cases x) (auto simp: cell_op_defs Let_def split: if_splits sum.splits)

text \<open>
  The part of the invariant on keys: the current epoch is sealed to the current members, and no
  epoch is newer. The part on objects: class, epoch and tags are known for exactly the placed
  objects, and no object carries an epoch newer than the current one. The name pointer resolves.
\<close>

definition epochs_inv :: "cell \<Rightarrow> bool" where
  "epochs_inv c \<longleftrightarrow>
     (\<forall>e. btree_contains_key (epoch_members c) e \<longleftrightarrow> e \<le> key_epoch c)
     \<and> btree_get (epoch_members c) (key_epoch c) = Some (members c)"

definition objects_inv :: "cell \<Rightarrow> bool" where
  "objects_inv c \<longleftrightarrow>
     (\<forall>x. btree_contains_key (obj_class c) x \<longleftrightarrow> bset_contains (placed c) x)
     \<and> (\<forall>x. btree_contains_key (obj_epoch c) x \<longleftrightarrow> bset_contains (placed c) x)
     \<and> (\<forall>x. btree_contains_key (obj_tags c) x \<longleftrightarrow> bset_contains (placed c) x)
     \<and> (\<forall>x e. btree_get (obj_epoch c) x = Some e \<longrightarrow> e \<le> key_epoch c)"

definition name_inv :: "cell \<Rightarrow> bool" where
  "name_inv c \<longleftrightarrow> (\<forall>r. name_ptr c = Some r \<longrightarrow> is_published c r)"

definition cell_inv :: "cell \<Rightarrow> bool" where
  "cell_inv c \<longleftrightarrow> epochs_inv c \<and> objects_inv c \<and> name_inv c"

text \<open>
  What a step does to the keys: it keeps the epoch and the members that are there, or it opens the
  next epoch; either way the epoch it ends in is sealed to the members it leaves.
\<close>

definition keeps_epoch :: "cell \<Rightarrow> cell \<Rightarrow> bool" where
  "keeps_epoch c c' \<longleftrightarrow>
     key_epoch c' = key_epoch c \<and> (\<forall>n. is_member c n \<longrightarrow> is_member c' n)"

definition opens_epoch :: "cell \<Rightarrow> cell \<Rightarrow> bool" where
  "opens_epoch c c' \<longleftrightarrow> key_epoch c' = key_epoch c + 1"

lemma admit_epoch:
  assumes "epochs_inv c"
  shows "keeps_epoch c (snd (admit n c))"
    and "btree_get (epoch_members (snd (admit n c))) =
      (btree_get (epoch_members c))(key_epoch (snd (admit n c)) \<mapsto> members (snd (admit n c)))"
  using assms by (auto simp: admit_def keeps_epoch_def is_member_def Let_def epochs_inv_def)

lemma cell_step_epoch:
  assumes "epochs_inv c"
  shows "keeps_epoch c (cell_step x c) \<or> opens_epoch c (cell_step x c)"
    and "btree_get (epoch_members (cell_step x c)) =
      (btree_get (epoch_members c))(key_epoch (cell_step x c) \<mapsto> members (cell_step x c))"
proof -
  note admits = admit_epoch [OF assms]
  have same: "(btree_get (epoch_members c))(key_epoch c \<mapsto> members c) = btree_get (epoch_members c)"
    using assms by (simp add: epochs_inv_def fun_upd_idem)
  have "keeps_epoch c c" by (simp add: keeps_epoch_def)
  note facts = admits same this
  show "keeps_epoch c (cell_step x c) \<or> opens_epoch c (cell_step x c)"
    by (cases x) (insert facts, simp_all add: cell_step_def admit_versioned_def leave_def begin_rotate_def
      end_rotate_def place_object_def add_grant_def revoke_grant_def publish_root_def set_name_ptr_def
      keeps_epoch_def opens_epoch_def is_member_def Let_def split: sum.splits)
  show "btree_get (epoch_members (cell_step x c)) =
      (btree_get (epoch_members c))(key_epoch (cell_step x c) \<mapsto> members (cell_step x c))"
    by (cases x) (insert facts, simp_all add: cell_step_def admit_versioned_def leave_def begin_rotate_def
      end_rotate_def place_object_def add_grant_def revoke_grant_def publish_root_def set_name_ptr_def
      Let_def split: sum.splits)
qed

lemma cell_step_epoch_le:
  assumes "epochs_inv c" "unat (key_epoch c) + 1 < 2 ^ 64"
  shows "unat (key_epoch (cell_step x c)) \<le> unat (key_epoch c) + 1"
    and "key_epoch c \<le> key_epoch (cell_step x c)"
  using cell_step_epoch(1) [OF assms(1), of x] assms(2)
  by (auto simp: keeps_epoch_def opens_epoch_def unat_u64_succ word_le_nat_alt)

lemma epochs_inv_step:
  assumes "epochs_inv c" "unat (key_epoch c) + 1 < 2 ^ 64"
  shows "epochs_inv (cell_step x c)"
proof -
  let ?c = "cell_step x c"
  have inv: "btree_contains_key (epoch_members c) e \<longleftrightarrow> e \<le> key_epoch c" for e
    using assms(1) by (simp add: epochs_inv_def)
  have "btree_contains_key (epoch_members ?c) e \<longleftrightarrow> e = key_epoch ?c \<or> e \<le> key_epoch c" for e
    using cell_step_epoch(2) [OF assms(1), of x] inv [of e] by (auto simp: btree_contains_key_def)
  moreover have "e = key_epoch ?c \<or> e \<le> key_epoch c \<longleftrightarrow> e \<le> key_epoch ?c" for e
    using cell_step_epoch(1) [OF assms(1), of x] u64_less_succ [OF assms(2), of e]
      unat_u64_succ [OF assms(2)]
    by (auto simp: keeps_epoch_def opens_epoch_def le_less word_less_nat_alt)
  ultimately show ?thesis
    using cell_step_epoch(2) [OF assms(1), of x] by (simp add: epochs_inv_def)
qed

text \<open>Only placing an object changes what is known of objects, and only of that one.\<close>

lemma cell_step_objects:
  "\<not> (\<exists>y cls tags. x = OpPlace y cls tags) \<Longrightarrow>
     obj_class (cell_step x c) = obj_class c \<and> obj_epoch (cell_step x c) = obj_epoch c
     \<and> obj_tags (cell_step x c) = obj_tags c \<and> placed (cell_step x c) = placed c"
  by (cases x) (simp_all add: cell_step_def cell_op_defs Let_def split: sum.splits)

lemma objects_inv_step:
  assumes "objects_inv c" "epochs_inv c" "unat (key_epoch c) + 1 < 2 ^ 64"
  shows "objects_inv (cell_step x c)"
proof (cases "\<exists>y cls tags. x = OpPlace y cls tags")
  case True
  then show ?thesis
    using assms(1) by (auto simp: objects_inv_def cell_step_def place_object_def split: if_splits)
next
  case False
  then show ?thesis
    using assms(1) cell_step_objects [OF False, of c] order_trans [OF _ cell_step_epoch_le(2) [OF assms(2,3), of x]]
    by (auto simp: objects_inv_def)
qed

lemma name_inv_step: "name_inv c \<Longrightarrow> name_inv (cell_step x c)"
  by (cases x) (auto simp: name_inv_def is_published_def cell_step_def cell_op_defs Let_def split: sum.splits)

lemma cell_inv_step:
  "cell_inv c \<Longrightarrow> unat (key_epoch c) + 1 < 2 ^ 64 \<Longrightarrow> cell_inv (cell_step x c)"
  by (simp add: cell_inv_def epochs_inv_step objects_inv_step name_inv_step)

lemma cell_inv_new: "cell_inv cell_new"
  by (simp add: cell_inv_def epochs_inv_def objects_inv_def name_inv_def cell_new_def)

text \<open>A run of fewer than \<open>2\<^sup>6\<^sup>4\<close> operations does not exhaust the epoch counter.\<close>

lemma cell_run_inv:
  assumes "length os < 2 ^ 64"
  shows "cell_inv (cell_run os) \<and> unat (key_epoch (cell_run os)) \<le> length os"
  using assms
proof (induction os rule: rev_induct)
  case Nil
  then show ?case using cell_inv_new by (simp add: cell_new_def)
next
  case (snoc x os)
  then have IH: "cell_inv (cell_run os)" "unat (key_epoch (cell_run os)) + 1 < 2 ^ 64"
    "unat (key_epoch (cell_run os)) \<le> length os"
    by auto
  then show ?case
    using cell_inv_step [OF IH(1,2), of x] cell_step_epoch_le(1) [OF _ IH(2), of x]
    by (simp add: cell_inv_def)
qed

section \<open>Who can decrypt\<close>

text \<open>The state after the first \<open>k\<close> operations of a run.\<close>

abbreviation run_at :: "cell_op list \<Rightarrow> nat \<Rightarrow> cell" where
  "run_at os k \<equiv> cell_run (take k os)"

definition member_during :: "cell_op list \<Rightarrow> u64 \<Rightarrow> node_id \<Rightarrow> bool" where
  "member_during os e n \<longleftrightarrow>
     list_ex (\<lambda>k. key_epoch (run_at os k) = e \<and> is_member (run_at os k) n) [0..<Suc (length os)]"

lemma member_during_iff:
  "member_during os e n \<longleftrightarrow>
     (\<exists>k\<le>length os. key_epoch (run_at os k) = e \<and> is_member (run_at os k) n)"
  by (simp only: member_during_def list_ex_iff set_upt Bex_def atLeastLessThan_iff less_Suc_eq_le) simp

lemma member_during_snoc:
  "member_during (os @ [x]) e n \<longleftrightarrow>
     member_during os e n
     \<or> (key_epoch (cell_run (os @ [x])) = e \<and> is_member (cell_run (os @ [x])) n)"
  by (auto simp: member_during_def list_ex_iff less_Suc_eq)

lemma cell_run_snoc_facts:
  assumes "length (os @ [x]) < 2 ^ 64"
  shows "epochs_inv (cell_run os)" "unat (key_epoch (cell_run os)) + 1 < 2 ^ 64"
  using cell_run_inv [of os] assms by (auto simp: cell_inv_def)

text \<open>
  Whom an epoch is sealed to: exactly the nodes that were members at some moment while it was the
  current one.
\<close>

lemma epoch_members_history:
  assumes "length os < 2 ^ 64"
  shows "(\<exists>m. btree_get (epoch_members (cell_run os)) e = Some m \<and> bset_contains m n)
    \<longleftrightarrow> member_during os e n"
  using assms
proof (induction os rule: rev_induct)
  case Nil
  show ?case by (auto simp: member_during_def cell_new_def is_member_def)
next
  case (snoc x os)
  let ?c = "cell_run os" and ?c' = "cell_step x (cell_run os)"
  note facts = cell_run_snoc_facts [OF snoc.prems]
  have inv: "btree_get (epoch_members ?c) (key_epoch ?c) = Some (members ?c)"
    "\<And>e. btree_contains_key (epoch_members ?c) e \<Longrightarrow> e \<le> key_epoch ?c"
    using facts(1) by (simp_all add: epochs_inv_def)
  have IH: "(\<exists>m. btree_get (epoch_members ?c) e = Some m \<and> bset_contains m n) \<longleftrightarrow> member_during os e n"
    using snoc by simp
  note upd = cell_step_epoch(2) [OF facts(1), of x]
  show ?case
  proof (cases "e = key_epoch ?c'")
    case False
    then show ?thesis using IH by (simp add: member_during_snoc upd)
  next
    case True
    from cell_step_epoch(1) [OF facts(1), of x] have "member_during os e n \<Longrightarrow> is_member ?c' n"
    proof
      assume "keeps_epoch ?c ?c'" and h: "member_during os e n"
      then show "is_member ?c' n"
        using IH inv(1) True by (auto simp: keeps_epoch_def is_member_def)
    next
      assume "opens_epoch ?c ?c'" and h: "member_during os e n"
      then have "btree_contains_key (epoch_members ?c) (key_epoch ?c + 1)"
        using IH True by (auto simp: opens_epoch_def btree_contains_key_def)
      then have "key_epoch ?c + 1 \<le> key_epoch ?c" by (rule inv(2))
      then show "is_member ?c' n"
        using unat_u64_succ [OF facts(2)] by (simp add: word_le_nat_alt)
    qed
    then show ?thesis
      using True by (auto simp: member_during_snoc upd is_member_def)
  qed
qed

text \<open>An object keeps the class and the epoch it was placed with.\<close>

definition object_is :: "object_id \<Rightarrow> vis_class \<Rightarrow> u64 \<Rightarrow> cell \<Rightarrow> bool" where
  "object_is x cls e c \<longleftrightarrow> bset_contains (placed c) x
     \<and> btree_get (obj_class c) x = Some cls \<and> btree_get (obj_epoch c) x = Some e"

lemma object_is_step: "object_is x cls e c \<Longrightarrow> object_is x cls e (cell_step o' c)"
  by (cases "\<exists>y cls tags. o' = OpPlace y cls tags")
    (use cell_step_objects [of o' c] in \<open>auto simp: object_is_def cell_step_def place_object_def\<close>)

lemma object_is_fold: "object_is x cls e c \<Longrightarrow> object_is x cls e (fold cell_step os c)"
  by (induction os arbitrary: c) (simp_all add: object_is_step)

lemma object_is_placed:
  assumes "fst (cell_apply (OpPlace x cls tags) (cell_run pre)) = Inr ()"
  shows "object_is x cls (key_epoch (cell_run pre)) (cell_run (pre @ OpPlace x cls tags # post))"
proof -
  have "object_is x cls (key_epoch (cell_run pre)) (cell_step (OpPlace x cls tags) (cell_run pre))"
    using assms by (auto simp: object_is_def cell_step_def place_object_def split: if_splits)
  then show ?thesis by (simp add: cell_run_def object_is_fold)
qed

text \<open>The nodes a class entitles, for an object placed in epoch \<open>e\<close> of a run.\<close>

primrec entitled :: "cell_op list \<Rightarrow> u64 \<Rightarrow> node_id \<Rightarrow> vis_class \<Rightarrow> bool" where
  "entitled os e n Public = True"
| "entitled os e n CellEncrypted = member_during os e n"
| "entitled os e n (RecipientSealed scope) =
     (case scope of PerNode r \<Rightarrow> bset_contains r n | PerCell _ \<Rightarrow> False | PerUser _ \<Rightarrow> False)"

lemma decrypt_iff_entitled:
  assumes "length os < 2 ^ 64" "object_is x cls e (cell_run os)"
  shows "node_can_decrypt (cell_run os) n x \<longleftrightarrow> entitled os e n cls"
  using assms(2) epoch_members_history [OF assms(1), of e n]
  by (cases cls) (auto simp: node_can_decrypt_def object_is_def split: option.splits seal_scope.splits)

text \<open>Without an admission, a node that is not a member does not become one.\<close>

fun admits_node :: "node_id \<Rightarrow> cell_op \<Rightarrow> bool" where
  "admits_node n (OpAdmit m) \<longleftrightarrow> m = n"
| "admits_node n (OpAdmitVersioned m l r req w) \<longleftrightarrow> m = n"
| "admits_node n _ \<longleftrightarrow> False"

lemma not_admitted_step:
  "\<not> admits_node n x \<Longrightarrow> \<not> is_member c n \<Longrightarrow> \<not> is_member (cell_step x c) n"
  by (cases x) (auto simp: is_member_def cell_step_def cell_op_defs Let_def btree_contains_key_def
    bset_insert_def split: sum.splits)

lemma list_ex_take: "list_ex P (take k xs) \<Longrightarrow> list_ex P xs"
  by (auto simp: list_ex_iff dest: in_set_takeD)

lemma not_admitted_fold:
  "\<not> list_ex (admits_node n) os \<Longrightarrow> \<not> is_member c n \<Longrightarrow> \<not> is_member (fold cell_step os c) n"
  by (induction os arbitrary: c) (simp_all add: not_admitted_step)

text \<open>Epochs never go back along a run.\<close>

lemma key_epoch_mono:
  assumes "length (os @ ps) < 2 ^ 64"
  shows "key_epoch (cell_run os) \<le> key_epoch (cell_run (os @ ps))"
  using assms
proof (induction ps rule: rev_induct)
  case (snoc x ps)
  have "length ((os @ ps) @ [x]) < 2 ^ 64" using snoc.prems by simp
  note facts = cell_run_snoc_facts [OF this]
  have "key_epoch (cell_run (os @ ps)) \<le> key_epoch (cell_run ((os @ ps) @ [x]))"
    using cell_step_epoch_le(2) [OF facts, of x] unfolding cell_run_snoc .
  moreover have "key_epoch (cell_run os) \<le> key_epoch (cell_run (os @ ps))" using snoc by simp
  ultimately show ?case by simp
qed simp

section \<open>Grants\<close>

lemma user_can_read_iff:
  "user_can_read c u x \<longleftrightarrow>
     (\<exists>g. bset_contains (grants c) g \<and> gr_user g = u \<and> scope_covers (gr_scope g) (tags_of c x))"
  by (auto simp: user_can_read_def list_ex_iff btree_keys_iff)

lemma user_can_write_iff:
  "user_can_write c u x \<longleftrightarrow>
     (\<exists>g. bset_contains (grants c) g \<and> gr_user g = u \<and> gr_mode g = ReadWrite
        \<and> scope_covers (gr_scope g) (tags_of c x))"
  by (auto simp: user_can_write_def list_ex_iff btree_keys_iff)

lemma scope_covers_tags [simp]:
  "scope_covers (Tags t) tags \<longleftrightarrow> bset_elems t \<inter> bset_elems tags \<noteq> {}"
  by (auto simp: list_ex_iff bset_elems_iff btree_keys_iff)

lemma write_implies_read: "user_can_write c u x \<Longrightarrow> user_can_read c u x"
  by (auto simp: user_can_read_iff user_can_write_iff)

text \<open>Adding a grant gives its user what it covers and nothing else; revoking it undoes it.\<close>

lemma add_grant_exact:
  assumes "add_grant g c = (Inr (), c')"
  shows "user_can_read c' u x \<longleftrightarrow>
      user_can_read c u x \<or> (gr_user g = u \<and> scope_covers (gr_scope g) (tags_of c x))"
    and "user_can_write c' u x \<longleftrightarrow>
      user_can_write c u x \<or> (gr_user g = u \<and> gr_mode g = ReadWrite \<and> scope_covers (gr_scope g) (tags_of c x))"
  using assms by (auto simp: add_grant_def user_can_read_iff user_can_write_iff tags_of_def split: if_splits)

lemma revoke_add_grant:
  assumes "add_grant g c = (Inr (), c')"
  shows "revoke_grant g c' = (Inr (), c)"
  using assms by (cases "btree_get (grants c) g")
    (auto simp: add_grant_def revoke_grant_def bset_insert_def btree_contains_key_def
      btree_remove_insert_id split: if_splits)

section \<open>Properties\<close>

text \<open>
  \<^bold>\<open>C28.\<close> Visibility: after any run of fewer than \<open>2\<^sup>6\<^sup>4\<close> operations, a node
  can decrypt a placed object exactly when the object's class entitles it. A public object is open
  to every node; an object under the group key is open to exactly the nodes that were members at
  some moment of the run while the epoch of its placement was current; an object sealed to nodes is
  open to those nodes; one sealed to cells or users is open to no node. An object that is not
  placed is open to none.
\<close>

theorem visibility_sound:
  assumes "length (pre @ OpPlace x cls tags # post) < 2 ^ 64"
    and "fst (cell_apply (OpPlace x cls tags) (cell_run pre)) = Inr ()"
  shows "(node_can_decrypt (cell_run (pre @ OpPlace x cls tags # post)) n x \<longleftrightarrow>
      entitled (pre @ OpPlace x cls tags # post) (key_epoch (cell_run pre)) n cls)
    \<and> \<not> node_can_decrypt (cell_run pre) n x"
  using decrypt_iff_entitled [OF assms(1) object_is_placed [OF assms(2)]] assms(2)
  by (auto simp: node_can_decrypt_def place_object_def split: if_splits)

definition demo_pre :: "cell_op list" where
  "demo_pre = [OpAdmit ''a'', OpAdmit ''b'', OpLeave ''a'']"

definition demo_post :: "cell_op list" where
  "demo_post = [OpAdmit ''c'', OpLeave ''b'', OpAdmit ''a'']"

theorem visibility_sound_witness:
  "node_can_decrypt (cell_run (demo_pre @ OpPlace ''x'' CellEncrypted btree_new # demo_post)) ''c'' ''x''
   \<and> \<not> node_can_decrypt (cell_run (demo_pre @ OpPlace ''x'' CellEncrypted btree_new # demo_post)) ''a'' ''x''"
proof -
  have "fst (cell_apply (OpPlace ''x'' CellEncrypted btree_new) (cell_run demo_pre)) = Inr ()"
    by code_simp
  note sound = visibility_sound [OF _ this, of demo_post]
  have "entitled (demo_pre @ OpPlace ''x'' CellEncrypted btree_new # demo_post) (key_epoch (cell_run demo_pre)) ''c'' CellEncrypted"
    by code_simp
  moreover have "\<not> entitled (demo_pre @ OpPlace ''x'' CellEncrypted btree_new # demo_post) (key_epoch (cell_run demo_pre)) ''a'' CellEncrypted"
    by code_simp
  ultimately show ?thesis using sound by (simp add: demo_pre_def demo_post_def)
qed

text \<open>
  \<^bold>\<open>C29.\<close> Forward secrecy: once a member has left, no object placed under the group
  key afterwards is ever open to it, as long as it is not admitted again.
\<close>

theorem forward_secrecy_on_leave:
  fixes pre mid post n x tags
  defines "left \<equiv> pre @ OpLeave n # mid"
  defines "os \<equiv> left @ OpPlace x CellEncrypted tags # post"
  assumes len: "length os < 2 ^ 64"
    and leaves: "fst (cell_apply (OpLeave n) (cell_run pre)) = Inr ()"
    and placed: "fst (cell_apply (OpPlace x CellEncrypted tags) (cell_run left)) = Inr ()"
    and out: "\<not> list_ex (admits_node n) (mid @ post)"
  shows "\<not> node_can_decrypt (cell_run os) n x"
proof
  assume "node_can_decrypt (cell_run os) n x"
  then obtain k where k: "k \<le> length os" "key_epoch (run_at os k) = key_epoch (cell_run left)"
    "is_member (run_at os k) n"
    using decrypt_iff_entitled [OF len object_is_placed [OF placed, of post, folded os_def]]
    by (auto simp: member_during_iff)
  let ?c = "cell_run (pre @ [OpLeave n])"
  have inv: "epochs_inv (cell_run pre)" "unat (key_epoch (cell_run pre)) + 1 < 2 ^ 64"
    using cell_run_snoc_facts [of pre "OpLeave n"] len by (simp_all add: os_def left_def)
  have c: "key_epoch ?c = key_epoch (cell_run pre) + 1" "\<not> is_member ?c n"
    using leaves by (auto simp: cell_step_def leave_def Let_def is_member_def btree_contains_key_def split: if_splits)
  show False
  proof (cases "k \<le> length pre")
    case True
    then have "take k os @ drop k pre = pre" by (simp add: os_def left_def)
    then have "key_epoch (run_at os k) \<le> key_epoch (cell_run pre)"
      using key_epoch_mono [of "take k os" "drop k pre"] len by (simp add: os_def left_def)
    moreover have "key_epoch ?c \<le> key_epoch (cell_run left)"
      using key_epoch_mono [of "pre @ [OpLeave n]" mid] len by (simp add: os_def left_def)
    ultimately show False
      using k(2) c(1) unat_u64_succ [OF inv(2)] by (simp add: word_le_nat_alt)
  next
    case False
    let ?rest = "mid @ OpPlace x CellEncrypted tags # post"
    have "take k os = (pre @ [OpLeave n]) @ take (k - Suc (length pre)) ?rest"
      using False by (simp add: os_def left_def take_Cons' )
    then have "run_at os k = fold cell_step (take (k - Suc (length pre)) ?rest) ?c"
      by (simp add: cell_run_def)
    moreover have "\<not> list_ex (admits_node n) (take (k - Suc (length pre)) ?rest)"
    proof
      assume "list_ex (admits_node n) (take (k - Suc (length pre)) ?rest)"
      from list_ex_take [OF this] show False using out by simp
    qed
    ultimately show False
      using not_admitted_fold [OF _ c(2)] k(3) by metis
  qed
qed

theorem forward_secrecy_on_leave_witness:
  "\<not> node_can_decrypt (cell_run ([OpAdmit ''a'', OpAdmit ''b''] @ OpLeave ''a'' #
      [OpBeginRotate, OpEndRotate] @ OpPlace ''x'' CellEncrypted btree_new # [OpAdmit ''c''])) ''a'' ''x''"
proof -
  have "fst (cell_apply (OpLeave ''a'') (cell_run [OpAdmit ''a'', OpAdmit ''b''])) = Inr ()"
    "fst (cell_apply (OpPlace ''x'' CellEncrypted btree_new)
       (cell_run ([OpAdmit ''a'', OpAdmit ''b''] @ OpLeave ''a'' # [OpBeginRotate, OpEndRotate]))) = Inr ()"
    by code_simp+
  then show ?thesis
    using forward_secrecy_on_leave [of "[OpAdmit ''a'', OpAdmit ''b'']" "''a''" "[OpBeginRotate, OpEndRotate]"
      "''x''" btree_new "[OpAdmit ''c'']"] by simp
qed

end
