(* ===== verification/CellMigration.thy ===== *)
theory CellMigration
  imports Compat StreamDb
begin

text \<open>
  \<^verbatim>\<open>crates/pillar-cells/src/migration.rs\<close> and
  \<^verbatim>\<open>crates/pillar-cells/src/federation.rs\<close>: the rolling migration of a view inside a
  cell, from an old op-log to a new one, and the gate on exchanges between cells.
\<close>

section \<open>Rolling migration inside a cell\<close>

datatype view_choice = OldView | NewView

datatype migration_error = NotReady | AlreadyBuilding

record migration =
  mi_surface :: string
  mi_target_version :: surface_version
  mi_window :: compat_window
  mi_liveness_timeout :: u64
  mi_members :: "node_id btree_set"
  mi_old_log :: oplog
  mi_new_log :: "oplog option"
  mi_declared :: "node_id btree_set"
  mi_last_seen :: "(node_id, u64) btree_map"
  mi_now :: u64
  mi_cut_over :: bool

definition migration_new ::
  "string \<Rightarrow> surface_version \<Rightarrow> compat_window \<Rightarrow> u64 \<Rightarrow> node_id list \<Rightarrow> migration" where
  "migration_new surface target_version window liveness_timeout ms =
     (let members = bset_collect ms;
          last_seen = btree_collect (map (\<lambda>m. (m, 0)) (btree_keys members))
      in \<lparr>mi_surface = surface, mi_target_version = target_version, mi_window = window,
          mi_liveness_timeout = liveness_timeout, mi_members = members, mi_old_log = oplog_new,
          mi_new_log = None, mi_declared = btree_new, mi_last_seen = last_seen, mi_now = 0,
          mi_cut_over = False\<rparr>)"

definition add_member :: "node_id \<Rightarrow> migration \<Rightarrow> migration" where
  "add_member node m = m\<lparr>mi_last_seen := btree_insert node (mi_now m) (mi_last_seen m),
     mi_members := bset_insert node (mi_members m)\<rparr>"

definition migration_append :: "sha256 \<Rightarrow> bytes \<Rightarrow> migration \<Rightarrow> migration" where
  "migration_append sha payload m =
     m\<lparr>mi_old_log := snd (oplog_append sha (mi_old_log m) payload),
        mi_new_log := map_option (\<lambda>l. snd (oplog_append sha l payload)) (mi_new_log m)\<rparr>"

definition begin_build_new_view :: "migration \<Rightarrow> (migration_error + unit) \<times> migration" where
  "begin_build_new_view m =
     (if mi_new_log m \<noteq> None then (Inl AlreadyBuilding, m)
      else (Inr (), m\<lparr>mi_new_log := Some (mi_old_log m)\<rparr>))"

definition new_view_built :: "migration \<Rightarrow> bool" where
  "new_view_built m \<longleftrightarrow> mi_new_log m \<noteq> None"

definition heartbeat :: "node_id \<Rightarrow> migration \<Rightarrow> migration" where
  "heartbeat node m = m\<lparr>mi_last_seen := btree_insert node (mi_now m) (mi_last_seen m)\<rparr>"

definition declare_member_version ::
  "node_id \<Rightarrow> surface_version \<Rightarrow> migration \<Rightarrow> (negotiation_refused + unit) \<times> migration" where
  "declare_member_version node declared m =
     (let m = heartbeat node m
      in case negotiate_surface (mi_surface m) (mi_target_version m) declared (mi_window m) of
           Inl e \<Rightarrow> (Inl e, m)
         | Inr _ \<Rightarrow> (Inr (), m\<lparr>mi_declared := bset_insert node (mi_declared m)\<rparr>))"

definition advance_time :: "u64 \<Rightarrow> migration \<Rightarrow> migration" where
  "advance_time tick m = (if tick > mi_now m then m\<lparr>mi_now := tick\<rparr> else m)"

definition u64_saturating_sub :: "u64 \<Rightarrow> u64 \<Rightarrow> u64" where
  "u64_saturating_sub a b = (if a < b then 0 else a - b)"

definition is_live :: "migration \<Rightarrow> node_id \<Rightarrow> bool" where
  "is_live m node =
     (case btree_get (mi_last_seen m) node of
        Some seen \<Rightarrow> u64_saturating_sub (mi_now m) seen \<le> mi_liveness_timeout m
      | None \<Rightarrow> False)"

definition live_members :: "migration \<Rightarrow> node_id btree_set" where
  "live_members m = bset_collect (filter (is_live m) (btree_keys (mi_members m)))"

definition ready_for_cutover :: "migration \<Rightarrow> bool" where
  "ready_for_cutover m =
     (if mi_cut_over m then True
      else mi_new_log m \<noteq> None \<and> list_all (bset_contains (mi_declared m)) (btree_keys (live_members m)))"

definition attempt_cutover :: "migration \<Rightarrow> (migration_error + unit) \<times> migration" where
  "attempt_cutover m =
     (if \<not> ready_for_cutover m then (Inl NotReady, m)
      else if \<not> mi_cut_over m then (Inr (), m\<lparr>mi_cut_over := True, mi_old_log := oplog_new\<rparr>)
      else (Inr (), m))"

definition view_for :: "migration \<Rightarrow> node_id \<Rightarrow> view_choice option" where
  "view_for m node =
     (if \<not> bset_contains (mi_members m) node then None
      else if mi_cut_over m then Some NewView
      else case mi_new_log m of
        None \<Rightarrow> Some OldView
      | Some _ \<Rightarrow> if bset_contains (mi_declared m) node then Some NewView else Some OldView)"

definition read_view :: "migration \<Rightarrow> node_id \<Rightarrow> oplog option" where
  "read_view m node =
     (case view_for m node of
        None \<Rightarrow> None
      | Some OldView \<Rightarrow> Some (mi_old_log m)
      | Some NewView \<Rightarrow> mi_new_log m)"

section \<open>The migration as a state machine\<close>

datatype migration_op =
    MAddMember node_id
  | MAppend bytes
  | MBuild
  | MDeclare node_id surface_version
  | MHeartbeat node_id
  | MAdvance u64
  | MCutover

primrec migration_step :: "sha256 \<Rightarrow> migration_op \<Rightarrow> migration \<Rightarrow> migration" where
  "migration_step sha (MAddMember n) m = add_member n m"
| "migration_step sha (MAppend p) m = migration_append sha p m"
| "migration_step sha MBuild m = snd (begin_build_new_view m)"
| "migration_step sha (MDeclare n v) m = snd (declare_member_version n v m)"
| "migration_step sha (MHeartbeat n) m = heartbeat n m"
| "migration_step sha (MAdvance t) m = advance_time t m"
| "migration_step sha MCutover m = snd (attempt_cutover m)"

text \<open>What every member is meant to read: the log of all payloads appended so far.\<close>

primrec migration_spec :: "sha256 \<Rightarrow> migration_op \<Rightarrow> oplog \<Rightarrow> oplog" where
  "migration_spec sha (MAddMember n) l = l"
| "migration_spec sha (MAppend p) l = snd (oplog_append sha l p)"
| "migration_spec sha MBuild l = l"
| "migration_spec sha (MDeclare n v) l = l"
| "migration_spec sha (MHeartbeat n) l = l"
| "migration_spec sha (MAdvance t) l = l"
| "migration_spec sha MCutover l = l"

text \<open>
  The views against the specification: before the cutover the old view is the log and so is the
  new one once it is built; after it the new view exists and is the log.
\<close>

definition views_of :: "oplog \<Rightarrow> migration \<Rightarrow> bool" where
  "views_of l m \<longleftrightarrow>
     (if mi_cut_over m then mi_new_log m = Some l
      else mi_old_log m = l \<and> (mi_new_log m = None \<or> mi_new_log m = Some l))"

lemmas migration_defs = add_member_def migration_append_def begin_build_new_view_def heartbeat_def
  declare_member_version_def advance_time_def attempt_cutover_def Let_def

lemma views_of_step:
  "views_of l m \<Longrightarrow> views_of (migration_spec sha x l) (migration_step sha x m)"
  by (cases x) (auto simp: views_of_def migration_defs ready_for_cutover_def split: sum.splits if_splits)

lemma views_of_run:
  "views_of l m \<Longrightarrow> views_of (fold (migration_spec sha) xs l) (fold (migration_step sha) xs m)"
  by (induction xs arbitrary: l m) (simp_all add: views_of_step)

lemma views_of_new: "views_of oplog_new (migration_new surface v w t ms)"
  by (simp add: views_of_def migration_new_def Let_def)

lemma read_view_of:
  assumes "views_of l m"
  shows "read_view m n = (if bset_contains (mi_members m) n then Some l else None)"
  using assms by (auto simp: read_view_def view_for_def views_of_def split: option.splits)

lemma fold_migration_spec:
  "fold (migration_spec sha) xs l =
     fold (\<lambda>p l. snd (oplog_append sha l p)) (List.map_filter (\<lambda>x. case x of MAppend p \<Rightarrow> Some p | _ \<Rightarrow> None) xs) l"
proof (induction xs arbitrary: l)
  case (Cons x xs)
  then show ?case by (cases x) (simp_all add: List.map_filter_simps)
qed (simp add: List.map_filter_simps)

lemma members_step: "bset_contains (mi_members m) n \<Longrightarrow> bset_contains (mi_members (migration_step sha x m)) n"
  by (cases x) (auto simp: migration_defs split: sum.splits)

lemma members_run:
  "bset_contains (mi_members m) n \<Longrightarrow> bset_contains (mi_members (fold (migration_step sha) xs m)) n"
  by (induction xs arbitrary: m) (simp_all add: members_step)

lemma mi_members_new [simp]: "bset_contains (mi_members (migration_new surface v w t ms)) n \<longleftrightarrow> n \<in> set ms"
  by (simp add: migration_new_def Let_def)

text \<open>The liveness window as integers.\<close>

lemma uint_u64_sub: "(b :: u64) \<le> a \<Longrightarrow> uint (a - b) = uint a - uint b"
  by (simp add: uint_minus_simple_alt)

lemma is_live_iff:
  "is_live m n \<longleftrightarrow>
     (\<exists>seen. btree_get (mi_last_seen m) n = Some seen
        \<and> uint (mi_now m) \<le> uint seen + uint (mi_liveness_timeout m))"
proof (cases "btree_get (mi_last_seen m) n")
  case (Some seen)
  then show ?thesis
    using uint_u64_sub [of seen "mi_now m"]
    by (auto simp: is_live_def u64_saturating_sub_def word_le_def word_less_def add_increasing2)
qed (simp add: is_live_def)

lemma ready_iff:
  "ready_for_cutover m \<longleftrightarrow>
     mi_cut_over m \<or> (new_view_built m
       \<and> (\<forall>n. bset_contains (mi_members m) n \<and> is_live m n \<longrightarrow> bset_contains (mi_declared m) n))"
  by (auto simp: ready_for_cutover_def new_view_built_def list_all_iff btree_keys_iff live_members_def)

section \<open>Exchanges between cells\<close>

datatype federation_error =
    NoWindow string
  | CellNotDeclared string string
  | ExchangeRefused negotiation_refused

record federation =
  fe_window :: "(string, compat_window) btree_map"
  fe_declared :: "(string, (string, surface_version) btree_map) btree_map"
  fe_exchange_log :: oplog

definition federation_new :: federation where
  "federation_new = \<lparr>fe_window = btree_new, fe_declared = btree_new, fe_exchange_log = oplog_new\<rparr>"

definition set_window :: "string \<Rightarrow> compat_window \<Rightarrow> federation \<Rightarrow> federation" where
  "set_window surface window f = f\<lparr>fe_window := btree_insert surface window (fe_window f)\<rparr>"

definition window_for :: "federation \<Rightarrow> string \<Rightarrow> compat_window option" where
  "window_for f surface = btree_get (fe_window f) surface"

definition declare_cell_version :: "string \<Rightarrow> string \<Rightarrow> surface_version \<Rightarrow> federation \<Rightarrow> federation" where
  "declare_cell_version cell surface version f =
     (let d = (case btree_get (fe_declared f) cell of None \<Rightarrow> btree_new | Some d \<Rightarrow> d)
      in f\<lparr>fe_declared := btree_insert cell (btree_insert surface version d) (fe_declared f)\<rparr>)"

definition declared_version :: "federation \<Rightarrow> string \<Rightarrow> string \<Rightarrow> surface_version option" where
  "declared_version f cell surface =
     (case btree_get (fe_declared f) cell of None \<Rightarrow> None | Some d \<Rightarrow> btree_get d surface)"

definition can_exchange :: "federation \<Rightarrow> string \<Rightarrow> string \<Rightarrow> string \<Rightarrow> federation_error + unit" where
  "can_exchange f a b surface =
     (case window_for f surface of
        None \<Rightarrow> Inl (NoWindow surface)
      | Some window \<Rightarrow>
          (case declared_version f a surface of
             None \<Rightarrow> Inl (CellNotDeclared surface a)
           | Some va \<Rightarrow>
               (case declared_version f b surface of
                  None \<Rightarrow> Inl (CellNotDeclared surface b)
                | Some vb \<Rightarrow>
                    (case negotiate_surface surface va vb window of
                       Inl e \<Rightarrow> Inl (ExchangeRefused e)
                     | Inr _ \<Rightarrow> Inr ()))))"

definition reachable_surfaces :: "federation \<Rightarrow> string \<Rightarrow> string \<Rightarrow> string list \<Rightarrow> string list" where
  "reachable_surfaces f a b candidates = filter (\<lambda>s. can_exchange f a b s = Inr ()) candidates"

definition record_exchange ::
  "sha256 \<Rightarrow> string \<Rightarrow> string \<Rightarrow> string \<Rightarrow> bytes \<Rightarrow> federation \<Rightarrow> (federation_error + unit) \<times> federation" where
  "record_exchange sha a b surface payload f =
     (case can_exchange f a b surface of
        Inl e \<Rightarrow> (Inl e, f)
      | Inr _ \<Rightarrow> (Inr (), f\<lparr>fe_exchange_log := snd (oplog_append sha (fe_exchange_log f) payload)\<rparr>))"

definition exchange_log_root :: "sha256 \<Rightarrow> federation \<Rightarrow> merkle_root" where
  "exchange_log_root sha f = oplog_root sha (fe_exchange_log f)"

definition exchange_count :: "federation \<Rightarrow> nat" where
  "exchange_count f = oplog_len (fe_exchange_log f)"

lemma can_exchange_Inr:
  "can_exchange f a b surface = Inr () \<longleftrightarrow>
     (\<exists>w va vb. window_for f surface = Some w \<and> declared_version f a surface = Some va
        \<and> declared_version f b surface = Some vb \<and> \<bar>uint va - uint vb\<bar> \<le> uint w)"
  by (auto simp: can_exchange_def negotiate_surface_def word_le_def version_diff_uint split: option.splits)

lemma can_exchange_symmetric: "can_exchange f a b s = Inr () \<longleftrightarrow> can_exchange f b a s = Inr ()"
  unfolding can_exchange_Inr by (metis abs_minus_commute)

lemma declared_version_declare:
  "declared_version (declare_cell_version c s v f) d t =
     (if d = c \<and> t = s then Some v else declared_version f d t)"
  by (simp add: declared_version_def declare_cell_version_def Let_def split: option.splits)

text \<open>A new version of one surface decides nothing on the other surfaces, nor between other cells.\<close>

lemma declare_keeps_other_exchanges:
  "t \<noteq> s \<or> (a \<noteq> c \<and> b \<noteq> c) \<Longrightarrow>
     can_exchange (declare_cell_version c s v f) a b t = can_exchange f a b t"
proof -
  have "window_for (declare_cell_version c s v f) t = window_for f t"
    by (simp add: window_for_def declare_cell_version_def Let_def)
  then show "t \<noteq> s \<or> (a \<noteq> c \<and> b \<noteq> c) \<Longrightarrow> ?thesis"
    by (cases "window_for f t"; cases "declared_version f a t")
      (auto simp: can_exchange_def declared_version_declare)
qed

text \<open>The steps of a federation.\<close>

datatype federation_op =
    FWindow string compat_window
  | FDeclare string string surface_version
  | FExchange string string string bytes

primrec federation_step :: "sha256 \<Rightarrow> federation_op \<Rightarrow> federation \<Rightarrow> federation" where
  "federation_step sha (FWindow s w) f = set_window s w f"
| "federation_step sha (FDeclare c s v) f = declare_cell_version c s v f"
| "federation_step sha (FExchange a b s p) f = snd (record_exchange sha a b s p f)"

text \<open>The payloads a run lets through, decided by the declarations in force at each attempt.\<close>

fun admitted_payloads :: "sha256 \<Rightarrow> federation_op list \<Rightarrow> federation \<Rightarrow> bytes list" where
  "admitted_payloads sha [] f = []"
| "admitted_payloads sha (x # xs) f =
     (case x of
        FExchange a b s p \<Rightarrow> (if can_exchange f a b s = Inr () then [p] else [])
      | _ \<Rightarrow> []) @ admitted_payloads sha xs (federation_step sha x f)"

lemma federation_log:
  "fe_exchange_log (fold (federation_step sha) xs f) =
     fold (\<lambda>p l. snd (oplog_append sha l p)) (admitted_payloads sha xs f) (fe_exchange_log f)"
proof (induction xs arbitrary: f)
  case (Cons x xs)
  have "fe_exchange_log (federation_step sha x f) =
      fold (\<lambda>p l. snd (oplog_append sha l p))
        (case x of FExchange a b s p \<Rightarrow> (if can_exchange f a b s = Inr () then [p] else []) | _ \<Rightarrow> [])
        (fe_exchange_log f)"
    by (cases x) (auto simp: set_window_def declare_cell_version_def record_exchange_def Let_def split: sum.splits)
  then show ?case using Cons.IH [of "federation_step sha x f"] by (cases x) simp_all
qed simp

section \<open>Properties\<close>

text \<open>
  \<^bold>\<open>C30.\<close> A rolling migration never orphans a reader: whatever the order of appends,
  declarations, heartbeats, clock ticks, the build of the new view and attempts to cut over, every
  tracked member reads the log of exactly the payloads appended so far, from whichever of the two
  views it is served; a node that is not tracked reads nothing.
\<close>

theorem rolling_migration_reads_all:
  "read_view (fold (migration_step sha) xs (migration_new surface v w t ms)) n =
     (if n \<in> set ms \<or> MAddMember n \<in> set xs
      then Some (fold (\<lambda>p l. snd (oplog_append sha l p))
        (List.map_filter (\<lambda>x. case x of MAppend p \<Rightarrow> Some p | _ \<Rightarrow> None) xs) oplog_new)
      else None)"
proof -
  have step: "bset_contains (mi_members (migration_step sha x m)) n \<longleftrightarrow>
      bset_contains (mi_members m) n \<or> x = MAddMember n" for x m
    by (cases x) (auto simp: migration_defs split: sum.splits)
  have "bset_contains (mi_members (fold (migration_step sha) xs m)) n \<longleftrightarrow>
      bset_contains (mi_members m) n \<or> MAddMember n \<in> set xs" for m
    by (induction xs arbitrary: m) (auto simp: step)
  then show ?thesis
    using read_view_of [OF views_of_run [OF views_of_new]] by (simp add: fold_migration_spec)
qed

text \<open>
  \<^bold>\<open>C31.\<close> The cutover waits for every live member and for no other: once the new view is
  built, if the clock moves past the timeout of each member that has not declared support, the
  cutover succeeds; and while a live member has not declared it, the cutover is refused and changes
  nothing.
\<close>

theorem cutover_waits_for_the_living:
  assumes "new_view_built m" "\<not> mi_cut_over m" "mi_now m < tick"
  shows "list_all (\<lambda>n. bset_contains (mi_declared m) n
        \<or> (case btree_get (mi_last_seen m) n of
             None \<Rightarrow> True | Some seen \<Rightarrow> uint seen + uint (mi_liveness_timeout m) < uint tick))
        (btree_keys (mi_members m))
      \<longleftrightarrow> fst (attempt_cutover (advance_time tick m)) = Inr ()"
    (is "?silent \<longleftrightarrow> ?ok")
proof -
  have "?ok \<longleftrightarrow> ready_for_cutover (m\<lparr>mi_now := tick\<rparr>)"
    using assms(3) by (simp add: advance_time_def attempt_cutover_def)
  also have "\<dots> \<longleftrightarrow> (\<forall>n. bset_contains (mi_members m) n \<and> is_live (m\<lparr>mi_now := tick\<rparr>) n
      \<longrightarrow> bset_contains (mi_declared m) n)"
    using assms by (simp add: ready_iff new_view_built_def)
  also have "\<dots> \<longleftrightarrow> ?silent"
    unfolding list_all_iff Ball_def btree_keys_iff is_live_iff
    by (simp add: not_le [symmetric] split: option.splits) blast
  finally show ?thesis by simp
qed

definition demo_migration :: migration where
  "demo_migration = fold (migration_step (\<lambda>x. x)) [MDeclare ''a'' 2, MBuild]
     (migration_new ''view'' 2 0 3 [''a'', ''b''])"

theorem cutover_waits_for_the_living_witness:
  "fst (attempt_cutover (advance_time 4 demo_migration)) = Inr ()
   \<and> fst (attempt_cutover (advance_time 3 demo_migration)) \<noteq> Inr ()"
proof -
  have st: "new_view_built demo_migration" "\<not> mi_cut_over demo_migration"
    "mi_now demo_migration < 3" "mi_now demo_migration < 4"
    by code_simp+
  have "list_all (\<lambda>n. bset_contains (mi_declared demo_migration) n
        \<or> (case btree_get (mi_last_seen demo_migration) n of
             None \<Rightarrow> True | Some seen \<Rightarrow> uint seen + uint (mi_liveness_timeout demo_migration) < uint (4::u64)))
        (btree_keys (mi_members demo_migration))"
    "\<not> list_all (\<lambda>n. bset_contains (mi_declared demo_migration) n
        \<or> (case btree_get (mi_last_seen demo_migration) n of
             None \<Rightarrow> True | Some seen \<Rightarrow> uint seen + uint (mi_liveness_timeout demo_migration) < uint (3::u64)))
        (btree_keys (mi_members demo_migration))"
    by code_simp+
  then show ?thesis
    using cutover_waits_for_the_living [OF st(1,2,4)] cutover_waits_for_the_living [OF st(1,2,3)] by blast
qed

section \<open>Boundary behaviour\<close>

text \<open>A refused declaration does not withdraw an accepted one: the member stays on the new view.\<close>

lemma refused_declaration_keeps_support:
  assumes "declare_member_version n v m = (Inl e, m')"
  shows "mi_declared m' = mi_declared m \<and> view_for m' k = view_for m k"
  using assms by (auto simp: declare_member_version_def heartbeat_def view_for_def Let_def split: sum.splits)

text \<open>After the cutover the old log, cleared once, is appended to again although no one reads it.\<close>

lemma old_log_grows_after_cutover:
  assumes "mi_cut_over m"
  shows "oplog_contains (mi_old_log (migration_append sha p m)) (content_address sha p)"
    and "view_for (migration_append sha p m) n \<noteq> Some OldView"
  using assms by (simp_all add: migration_append_def view_for_def oplog_append_def oplog_contains_def
      op_new_def btree_or_insert_def Let_def)

text \<open>Two exchanges with the same payload are one entry of the content-addressed log.\<close>

lemma repeated_exchange_counted_once:
  assumes "can_exchange f a b s = Inr ()" "can_exchange f c d t = Inr ()"
  shows "exchange_count (snd (record_exchange sha c d t p (snd (record_exchange sha a b s p f)))) =
    exchange_count (snd (record_exchange sha a b s p f))"
proof -
  let ?f = "f\<lparr>fe_exchange_log := snd (oplog_append sha (fe_exchange_log f) p)\<rparr>"
  have "can_exchange ?f c d t = Inr ()"
    using assms(2) unfolding can_exchange_Inr by (simp add: window_for_def declared_version_def)
  then show ?thesis
    using assms(1) by (simp add: record_exchange_def exchange_count_def oplog_append_def Let_def btree_or_insert_def)
qed

end
