(* ===== verification/SqlViews.thy ===== *)
theory SqlViews
  imports DocWrites Rust_Text
begin

text \<open>
  \<^verbatim>\<open>crates/pillar-sqlviews/src/lib.rs\<close>: view definitions kept as documents of the
  collection \<open>__catalog\<close>, and rows, sums and graph walks read from the document surface of
  the keyed store.

  The JSON form of a view definition is a parameter: \<open>venc\<close> serializes it and \<open>vdec\<close>
  parses a payload. Sums are \<open>i64\<close>, read as signed words that wrap, as the release
  profile compiles them.
\<close>

section \<open>The interface of the document surface\<close>

text \<open>
  What a reader relies on: the listings name exactly the live documents and fields, in order.
\<close>

locale document_surface =
  fixes get :: "'s \<Rightarrow> string \<Rightarrow> string \<Rightarrow> string \<Rightarrow> kvalue option"
    and fields :: "'s \<Rightarrow> string \<Rightarrow> string \<Rightarrow> string list"
    and ids :: "'s \<Rightarrow> string \<Rightarrow> string list"
  assumes fields_exact: "set (fields s c i) = {f. get s c i f \<noteq> None}"
    and ids_exact: "set (ids s c) = {i. \<exists>f. get s c i f \<noteq> None}"
    and fields_sorted: "sorted (fields s c i)" "distinct (fields s c i)"
    and ids_sorted: "sorted (ids s c)" "distinct (ids s c)"
begin

text \<open>The listings are functions of the fields read, so a listing holds nothing of its own.\<close>

lemma fields_determined:
  assumes "\<And>f. get s c i f = get t c i f"
  shows "fields s c i = fields t c i"
  using assms by (intro sorted_distinct_set_unique) (simp_all add: fields_exact fields_sorted)

lemma ids_determined:
  assumes "\<And>i f. get s c i f = get t c i f"
  shows "ids s c = ids t c"
  using assms by (intro sorted_distinct_set_unique) (simp_all add: ids_exact ids_sorted)

end

interpretation docs: document_surface "doc_get_field dec" "doc_fields dec" "doc_ids dec" for dec
proof
  fix s c i
  show "set (doc_fields dec s c i) = {f. doc_get_field dec s c i f \<noteq> None}"
    and "set (doc_ids dec s c) = {i. \<exists>f. doc_get_field dec s c i f \<noteq> None}"
    and "sorted (doc_fields dec s c i)" "distinct (doc_fields dec s c i)"
    and "sorted (doc_ids dec s c)" "distinct (doc_ids dec s c)"
    using listings_exact [of dec s c i] by simp_all
qed

section \<open>View definitions and the catalog\<close>

definition catalog_collection :: string where
  "catalog_collection = ''__catalog''"

definition catalog_def_field :: string where
  "catalog_def_field = ''def''"

record sql_filter =
  sf_field :: string
  sf_value :: bytes

record view_definition =
  vd_source :: string
  vd_filter :: "sql_filter option"
  vd_project :: "string list option"

definition view_over :: "string \<Rightarrow> view_definition" where
  "view_over source = \<lparr>vd_source = source, vd_filter = None, vd_project = None\<rparr>"

definition view_filtered_eq :: "view_definition \<Rightarrow> string \<Rightarrow> bytes \<Rightarrow> view_definition" where
  "view_filtered_eq d field v = d\<lparr>vd_filter := Some \<lparr>sf_field = field, sf_value = v\<rparr>\<rparr>"

definition view_projecting :: "view_definition \<Rightarrow> string list \<Rightarrow> view_definition" where
  "view_projecting d fs = d\<lparr>vd_project := Some fs\<rparr>"

type_synonym view_encoder = "view_definition \<Rightarrow> bytes"
type_synonym view_decoder = "bytes \<Rightarrow> view_definition option"

definition view_encode :: "view_encoder \<Rightarrow> view_definition \<Rightarrow> kvalue" where
  "view_encode venc d = Scalar (venc d)"

definition view_decode :: "view_decoder \<Rightarrow> kvalue \<Rightarrow> view_definition option" where
  "view_decode vdec v = (case v of Scalar b \<Rightarrow> vdec b | Nested _ \<Rightarrow> None)"

definition create_view ::
  "view_encoder \<Rightarrow> encoder \<Rightarrow> sha256 \<Rightarrow> keyed_store \<Rightarrow> string \<Rightarrow> view_definition \<Rightarrow> hlc \<Rightarrow> keyed_store" where
  "create_view venc enc sha s name d h =
     snd (doc_put_field enc sha s catalog_collection name catalog_def_field (view_encode venc d) h)"

definition drop_view :: "encoder \<Rightarrow> sha256 \<Rightarrow> keyed_store \<Rightarrow> string \<Rightarrow> hlc \<Rightarrow> keyed_store" where
  "drop_view enc sha s name h =
     snd (doc_delete_field enc sha s catalog_collection name catalog_def_field h)"

definition view_def :: "view_decoder \<Rightarrow> decoder \<Rightarrow> keyed_store \<Rightarrow> string \<Rightarrow> view_definition option" where
  "view_def vdec dec s name =
     (case doc_get_field dec s catalog_collection name catalog_def_field of
        None \<Rightarrow> None
      | Some v \<Rightarrow> view_decode vdec v)"

definition list_views :: "view_decoder \<Rightarrow> decoder \<Rightarrow> keyed_store \<Rightarrow> string list" where
  "list_views vdec dec s =
     filter (\<lambda>i. view_def vdec dec s i \<noteq> None) (doc_ids dec s catalog_collection)"

section \<open>Rows\<close>

record sql_row =
  row_id :: string
  row_fields :: "(string, kvalue) btree_map"

text \<open>The test at the head of the loop: a document that fails it is skipped.\<close>

definition passes_filter ::
  "decoder \<Rightarrow> keyed_store \<Rightarrow> string \<Rightarrow> sql_filter option \<Rightarrow> string \<Rightarrow> bool" where
  "passes_filter dec s collection flt i =
     (case flt of
        None \<Rightarrow> True
      | Some f \<Rightarrow>
          (case doc_query dec s collection i (sf_field f) of
             Some (Scalar v) \<Rightarrow> v = sf_value f
           | _ \<Rightarrow> False))"

definition collect_field ::
  "decoder \<Rightarrow> keyed_store \<Rightarrow> string \<Rightarrow> string \<Rightarrow> string
     \<Rightarrow> (string, kvalue) btree_map \<Rightarrow> (string, kvalue) btree_map" where
  "collect_field dec s collection i f m =
     (case doc_query dec s collection i f of
        None \<Rightarrow> m
      | Some v \<Rightarrow> btree_insert f v m)"

definition project_row ::
  "decoder \<Rightarrow> keyed_store \<Rightarrow> string \<Rightarrow> string list option \<Rightarrow> string \<Rightarrow> sql_row" where
  "project_row dec s collection prj i =
     (let field_names = (case prj of Some p \<Rightarrow> p | None \<Rightarrow> doc_fields dec s collection i)
      in \<lparr>row_id = i, row_fields = fold (collect_field dec s collection i) field_names btree_new\<rparr>)"

definition project_collection ::
  "decoder \<Rightarrow> keyed_store \<Rightarrow> string \<Rightarrow> sql_filter option \<Rightarrow> string list option \<Rightarrow> sql_row list" where
  "project_collection dec s collection flt prj =
     map (project_row dec s collection prj)
       (filter (passes_filter dec s collection flt) (doc_ids dec s collection))"

definition materialize :: "decoder \<Rightarrow> keyed_store \<Rightarrow> view_definition \<Rightarrow> sql_row list" where
  "materialize dec s d = project_collection dec s (vd_source d) (vd_filter d) (vd_project d)"

definition materialize_view ::
  "view_decoder \<Rightarrow> decoder \<Rightarrow> keyed_store \<Rightarrow> string \<Rightarrow> sql_row list option" where
  "materialize_view vdec dec s name =
     (case view_def vdec dec s name of None \<Rightarrow> None | Some d \<Rightarrow> Some (materialize dec s d))"

section \<open>Sums\<close>

type_synonym i64 = "64 word"

text \<open>What a scalar contributes: its decimal value, or nothing.\<close>

definition scalar_i64 :: "kvalue option \<Rightarrow> int" where
  "scalar_i64 v =
     (case v of
        Some (Scalar b) \<Rightarrow>
          (case from_utf8 b of None \<Rightarrow> 0 | Some _ \<Rightarrow> (case parse_i64 b of None \<Rightarrow> 0 | Some n \<Rightarrow> n))
      | _ \<Rightarrow> 0)"

definition field_as_i64 :: "sql_row \<Rightarrow> string \<Rightarrow> i64" where
  "field_as_i64 row field = of_int (scalar_i64 (btree_get (row_fields row) field))"

definition aggregate_sum ::
  "decoder \<Rightarrow> keyed_store \<Rightarrow> string \<Rightarrow> string \<Rightarrow> sql_filter option \<Rightarrow> i64" where
  "aggregate_sum dec s collection field flt =
     sum_list (map (\<lambda>r. field_as_i64 r field) (project_collection dec s collection flt (Some [field])))"

definition group_step ::
  "string \<Rightarrow> string \<Rightarrow> sql_row \<Rightarrow> (bytes, i64) btree_map \<Rightarrow> (bytes, i64) btree_map" where
  "group_step group_field sum_field row groups =
     (case btree_get (row_fields row) group_field of
        Some (Scalar b) \<Rightarrow>
          (let prev = (case btree_get groups b of None \<Rightarrow> 0 | Some n \<Rightarrow> n)
           in btree_insert b (prev + field_as_i64 row sum_field) groups)
      | _ \<Rightarrow> groups)"

definition aggregate_group_by_sum ::
  "decoder \<Rightarrow> keyed_store \<Rightarrow> string \<Rightarrow> string \<Rightarrow> string \<Rightarrow> (bytes \<times> i64) list" where
  "aggregate_group_by_sum dec s collection group_field sum_field =
     (let rows = project_collection dec s collection None (Some [group_field, sum_field])
      in btree_iter (fold (group_step group_field sum_field) rows btree_new))"

section \<open>Graph walks\<close>

record sql_edge =
  edge_from :: string
  edge_to :: string

definition scalar_text :: "kvalue option \<Rightarrow> string option" where
  "scalar_text v = (case v of Some (Scalar b) \<Rightarrow> from_utf8 b | _ \<Rightarrow> None)"

definition row_edge :: "sql_row \<Rightarrow> sql_edge option" where
  "row_edge row =
     (case scalar_text (btree_get (row_fields row) ''from'') of
        None \<Rightarrow> None
      | Some a \<Rightarrow>
          (case scalar_text (btree_get (row_fields row) ''to'') of
             None \<Rightarrow> None
           | Some b \<Rightarrow> Some \<lparr>edge_from = a, edge_to = b\<rparr>))"

definition read_edges :: "decoder \<Rightarrow> keyed_store \<Rightarrow> string \<Rightarrow> sql_edge list" where
  "read_edges dec s edge_collection =
     List.map_filter row_edge (project_collection dec s edge_collection None None)"

text \<open>The two nested \<open>for\<close> loops over the frontier and the edges.\<close>

definition expand_edge ::
  "string \<Rightarrow> string \<Rightarrow> sql_edge \<Rightarrow> string btree_set \<times> string list \<Rightarrow> string btree_set \<times> string list" where
  "expand_edge start node e st =
     (case st of (visited, next_nodes) \<Rightarrow>
        if edge_from e = node \<and> \<not> bset_contains visited (edge_to e) \<and> edge_to e \<noteq> start
        then (bset_insert (edge_to e) visited, next_nodes @ [edge_to e])
        else (visited, next_nodes))"

definition expand_frontier ::
  "sql_edge list \<Rightarrow> string \<Rightarrow> string list \<Rightarrow> string btree_set \<Rightarrow> string btree_set \<times> string list" where
  "expand_frontier edges start frontier visited =
     fold (\<lambda>node. fold (expand_edge start node) edges) frontier (visited, [])"

abbreviation edge_rel :: "sql_edge list \<Rightarrow> (string \<times> string) set" where
  "edge_rel edges \<equiv> (\<lambda>e. (edge_from e, edge_to e)) ` set edges"

definition expanded :: "string \<Rightarrow> string set \<Rightarrow> string btree_set \<times> string list
    \<Rightarrow> string btree_set \<times> string list \<Rightarrow> bool" where
  "expanded start T st st' \<longleftrightarrow>
     bset_elems (fst st') = bset_elems (fst st) \<union> (T - {start})
     \<and> set (snd st') = set (snd st) \<union> (T - {start} - bset_elems (fst st))"

lemma expanded_trans:
  assumes "expanded start A st st'" "expanded start B st' st''"
  shows "expanded start (A \<union> B) st st''"
  using assms unfolding expanded_def by blast

lemma expanded_edges:
  "expanded start {edge_to e |e. e \<in> set edges \<and> edge_from e = node} st
     (fold (expand_edge start node) edges st)"
proof (induction edges arbitrary: st)
  case (Cons e edges)
  have "expanded start (if edge_from e = node then {edge_to e} else {}) st (expand_edge start node e st)"
    by (cases st) (auto simp: expanded_def expand_edge_def bset_elems_iff)
  moreover have "{edge_to d |d. d \<in> set (e # edges) \<and> edge_from d = node} =
      (if edge_from e = node then {edge_to e} else {}) \<union> {edge_to d |d. d \<in> set edges \<and> edge_from d = node}"
    by auto
  ultimately show ?case using expanded_trans [OF _ Cons.IH] by simp
qed (simp add: expanded_def)

lemma expanded_frontier:
  "expanded start (edge_rel edges `` set frontier) (visited, [])
     (expand_frontier edges start frontier visited)"
proof -
  have "expanded start (edge_rel edges `` set frontier) st
      (fold (\<lambda>node. fold (expand_edge start node) edges) frontier st)" for st
  proof (induction frontier arbitrary: st)
    case (Cons n frontier)
    have "edge_rel edges `` set (n # frontier) =
        {edge_to e |e. e \<in> set edges \<and> edge_from e = n} \<union> edge_rel edges `` set frontier"
      by auto
    then show ?case using expanded_trans [OF expanded_edges Cons.IH] by simp
  qed (simp add: expanded_def)
  then show ?thesis by (simp add: expand_frontier_def)
qed

lemma expand_frontier_sets:
  assumes "expand_frontier edges start frontier visited = (visited', next_nodes)"
  shows "bset_elems visited' = bset_elems visited \<union> (edge_rel edges `` set frontier - {start})"
    and "set next_nodes = edge_rel edges `` set frontier - {start} - bset_elems visited"
  using expanded_frontier [of start edges frontier visited] assms by (auto simp: expanded_def)

function traverse_loop ::
  "sql_edge list \<Rightarrow> string \<Rightarrow> nat option \<Rightarrow> string btree_set \<Rightarrow> string list \<Rightarrow> nat \<Rightarrow> string btree_set" where
  "traverse_loop edges start max_depth visited frontier depth =
     (if (case max_depth of Some m \<Rightarrow> m \<le> depth | None \<Rightarrow> False) then visited
      else
        (case expand_frontier edges start frontier visited of
           (visited', next_nodes) \<Rightarrow>
             if next_nodes = [] then visited'
             else traverse_loop edges start max_depth visited' next_nodes (depth + 1)))"
  by pat_completeness auto
termination
proof (relation "measure (\<lambda>(edges, start, m, visited, frontier, d).
    card (edge_to ` set edges - bset_elems visited))")
  fix edges :: "sql_edge list" and start frontier and max_depth :: "nat option" and depth :: nat and visited visited' :: "string btree_set" and next_nodes
  assume eq: "(visited', next_nodes) = expand_frontier edges start frontier visited" and "next_nodes \<noteq> []"
  note sets = expand_frontier_sets [of edges start frontier visited visited' next_nodes]
  obtain n where n: "n \<in> set next_nodes" using \<open>next_nodes \<noteq> []\<close> by (cases next_nodes) auto
  then have "n \<in> edge_to ` set edges - bset_elems visited" "n \<in> bset_elems visited'"
    and "bset_elems visited \<subseteq> bset_elems visited'"
    using sets eq by auto
  then have "edge_to ` set edges - bset_elems visited' \<subset> edge_to ` set edges - bset_elems visited"
    by blast
  then show "((edges, start, max_depth, visited', next_nodes, depth + 1),
      (edges, start, max_depth, visited, frontier, depth))
      \<in> measure (\<lambda>(edges, start, m, visited, frontier, d). card (edge_to ` set edges - bset_elems visited))"
    by (auto intro: psubset_card_mono)
qed simp

declare traverse_loop.simps [simp del]

definition traverse :: "decoder \<Rightarrow> keyed_store \<Rightarrow> string \<Rightarrow> string \<Rightarrow> nat option \<Rightarrow> string list" where
  "traverse dec s edge_collection start max_depth =
     btree_keys (traverse_loop (read_edges dec s edge_collection) start max_depth btree_new [start] 0)"

section \<open>Rows are a function of the fields\<close>

lemma doc_query_cong:
  assumes "\<And>f. doc_get_field dec s c i f = doc_get_field dec t c i f"
  shows "doc_query dec s c i p = doc_query dec t c i p"
  using assms by (simp add: doc_query_def doc_get_field_def)

lemma project_collection_cong:
  assumes "\<And>i f. doc_get_field dec s c i f = doc_get_field dec t c i f"
  shows "project_collection dec s c flt prj = project_collection dec t c flt prj"
proof -
  have query: "doc_query dec s c i p = doc_query dec t c i p" for i p
    using assms by (rule doc_query_cong)
  then have pass: "passes_filter dec s c flt = passes_filter dec t c flt"
    by (simp add: passes_filter_def fun_eq_iff split: option.split)
  have "collect_field dec s c = collect_field dec t c"
    by (simp add: fun_eq_iff collect_field_def query)
  moreover have "doc_fields dec s c i = doc_fields dec t c i" for i
    using assms by (rule docs.fields_determined)
  ultimately have "project_row dec s c prj = project_row dec t c prj"
    by (intro ext) (simp add: project_row_def split: option.split)
  then show ?thesis
    using pass docs.ids_determined [of dec s c t] assms by (simp add: project_collection_def)
qed

lemma get_collect_fields:
  "btree_get (fold (collect_field dec s c i) fs m) f =
     (if f \<in> set fs \<and> doc_query dec s c i f \<noteq> None then doc_query dec s c i f else btree_get m f)"
  by (induction fs arbitrary: m) (auto simp: collect_field_def split: option.splits)

lemma get_row_fields:
  "btree_get (row_fields (project_row dec s c prj i)) f =
     (if (case prj of Some p \<Rightarrow> f \<in> set p | None \<Rightarrow> doc_get_field dec s c i f \<noteq> None)
      then doc_query dec s c i f else None)"
  using docs.fields_exact [of dec s c i]
  by (auto simp: project_row_def get_collect_fields split: option.splits)

lemma row_id_project_row [simp]: "row_id (project_row dec s c prj i) = i"
  by (simp add: project_row_def)

section \<open>Reachability\<close>

primrec hops :: "('a \<times> 'a) set \<Rightarrow> 'a \<Rightarrow> nat \<Rightarrow> 'a set" where
  "hops E a 0 = {a}"
| "hops E a (Suc d) = hops E a d \<union> E `` hops E a d"

lemma hops_relpow: "hops E a d = {x. \<exists>k\<le>d. (a, x) \<in> E ^^ k}"
proof (induction d)
  case (Suc d)
  have "x \<in> E `` {y. \<exists>k\<le>d. (a, y) \<in> E ^^ k} \<longleftrightarrow> (\<exists>k\<le>d. (a, x) \<in> E ^^ Suc k)" for x
    by (auto simp: relcomp_unfold Image_iff)
  moreover have "(\<exists>k\<le>Suc d. (a, x) \<in> E ^^ k) \<longleftrightarrow>
      (\<exists>k\<le>d. (a, x) \<in> E ^^ k) \<or> (\<exists>k\<le>d. (a, x) \<in> E ^^ Suc k)" for x
    by (metis Suc_le_mono le_SucI not0_implies_Suc zero_le)
  ultimately show ?case using Suc by auto
qed auto

lemma hops_closed:
  assumes "hops E a (Suc d) = hops E a d"
  shows "d \<le> n \<Longrightarrow> hops E a n = hops E a d"
proof (induction n rule: dec_induct)
  case (step n)
  then show ?case using assms by simp
qed simp

lemma hops_rtrancl: "(\<Union>d. hops E a d) = E\<^sup>* `` {a}"
  using order_refl by (fastforce simp: hops_relpow rtrancl_power)

text \<open>
  What the loop keeps: the visited nodes are the start's neighbourhood of the current depth, and
  every edge that leaves it starts in the frontier.
\<close>

definition walk_inv :: "(string \<times> string) set \<Rightarrow> string \<Rightarrow> string set \<Rightarrow> string set \<Rightarrow> nat \<Rightarrow> bool" where
  "walk_inv E start V F d \<longleftrightarrow>
     V = hops E start d - {start} \<and> F \<subseteq> hops E start d
     \<and> E `` hops E start d \<subseteq> hops E start d \<union> E `` F"

lemma start_in_hops [simp]: "a \<in> hops E a d"
  by (induction d) auto

lemma walk_inv_step:
  assumes "walk_inv E start V F d"
  shows "V \<union> (E `` F - {start}) = hops E start (Suc d) - {start}"
    and "walk_inv E start (V \<union> (E `` F - {start})) (E `` F - {start} - V) (Suc d)"
    and "E `` F - {start} - V = {} \<Longrightarrow> hops E start (Suc d) = hops E start d"
  using assms start_in_hops [of start E d] unfolding walk_inv_def hops.simps by blast+

lemma traverse_loop_hops:
  assumes "walk_inv (edge_rel edges) start (bset_elems visited) (set frontier) d"
  shows "bset_elems (traverse_loop edges start m visited frontier d) =
    (case m of None \<Rightarrow> (\<Union>n. hops (edge_rel edges) start n)
       | Some n \<Rightarrow> hops (edge_rel edges) start (max n d)) - {start}"
  using assms
proof (induction edges start m visited frontier d rule: traverse_loop.induct)
  case (1 edges start m visited frontier d)
  let ?E = "edge_rel edges"
  obtain visited' next_nodes where ex: "expand_frontier edges start frontier visited = (visited', next_nodes)"
    by fastforce
  note sets = expand_frontier_sets [OF ex]
  note step = walk_inv_step [OF 1(2), folded sets]
  show ?case
  proof (cases "case m of Some n \<Rightarrow> n \<le> d | None \<Rightarrow> False")
    case True
    then show ?thesis using 1(2) by (subst traverse_loop.simps) (auto simp: walk_inv_def max_def split: option.splits)
  next
    case go: False
    show ?thesis
    proof (cases "next_nodes = []")
      case True
      then have stop: "hops ?E start (Suc d) = hops ?E start d" using step(3) by simp
      have same: "hops ?E start n = hops ?E start d" if "d \<le> n" for n
        using that by (rule hops_closed [OF stop])
      have "(\<Union>n. hops ?E start n) = hops ?E start d"
      proof (intro equalityI UN_least)
        show "hops ?E start n \<subseteq> hops ?E start d" for n
          using same [of "max n d"] by (auto simp: hops_relpow)
      qed auto
      moreover have "traverse_loop edges start m visited frontier d = visited'"
        using go True ex by (subst traverse_loop.simps) simp
      ultimately show ?thesis
        using step(1) stop same [of "max _ d"] by (auto split: option.split)
    next
      case False
      have "bset_elems (traverse_loop edges start m visited' next_nodes (d + 1)) =
          (case m of None \<Rightarrow> (\<Union>n. hops ?E start n) | Some n \<Rightarrow> hops ?E start (max n (d + 1))) - {start}"
        by (rule 1(1) [OF go ex [symmetric] False]) (use step(2) in simp)
      moreover have "max n (d + 1) = max n d" if "m = Some n" for n using go that by simp
      ultimately show ?thesis
        using go False ex by (subst traverse_loop.simps) (auto split: option.splits)
    qed
  qed
qed

section \<open>Properties\<close>

text \<open>
  \<^bold>\<open>C21.\<close> Graph walks find exactly the reachable nodes: a walk of at most \<open>n\<close> hops lists
  the nodes other than the start that some path of at most \<open>n\<close> edges reaches, a walk without
  a bound those that any path reaches, each once and in order.
\<close>

theorem traverse_reachability:
  "set (traverse dec s c start (Some n)) =
     {x. x \<noteq> start \<and> (\<exists>k\<le>n. (start, x) \<in> edge_rel (read_edges dec s c) ^^ k)}
   \<and> set (traverse dec s c start None) =
     {x. x \<noteq> start \<and> (start, x) \<in> (edge_rel (read_edges dec s c))\<^sup>*}
   \<and> sorted_wrt (<) (traverse dec s c start m)"
proof -
  let ?E = "edge_rel (read_edges dec s c)"
  have inv: "walk_inv ?E start (bset_elems btree_new) (set [start]) 0" by (auto simp: walk_inv_def)
  have elems: "set (traverse dec s c start m) =
      (case m of None \<Rightarrow> (\<Union>n. hops ?E start n) | Some n \<Rightarrow> hops ?E start n) - {start}" for m
    using traverse_loop_hops [OF inv, of m]
    by (simp add: traverse_def flip: bset_elems_def split: option.splits)
  show ?thesis
    using elems [of "Some n"] elems [of None] hops_rtrancl [of ?E start] hops_relpow [of ?E start n]
    by (auto simp: traverse_def)
qed

text \<open>
  A view holds no data of its own: its rows are the live documents of its
  source that pass its filter, each once and in order of their ids; a row holds under each field
  name it projects, and nothing else, what a query of the source answers; and two stores that
  read alike in the source give the same rows.
\<close>

theorem view_is_pure_fold:
  assumes "\<And>i f. doc_get_field dec t (vd_source d) i f = doc_get_field dec s (vd_source d) i f"
  shows "materialize dec t d = materialize dec s d
    \<and> sorted (map row_id (materialize dec s d)) \<and> distinct (map row_id (materialize dec s d))
    \<and> row_id ` set (materialize dec s d) =
        {i. (\<exists>f. doc_get_field dec s (vd_source d) i f \<noteq> None)
            \<and> (case vd_filter d of None \<Rightarrow> True
                | Some p \<Rightarrow> doc_query dec s (vd_source d) i (sf_field p) = Some (Scalar (sf_value p)))}
    \<and> (\<forall>r\<in>set (materialize dec s d). \<forall>f. btree_get (row_fields r) f =
        (if (case vd_project d of
               Some p \<Rightarrow> f \<in> set p
             | None \<Rightarrow> doc_get_field dec s (vd_source d) (row_id r) f \<noteq> None)
         then doc_query dec s (vd_source d) (row_id r) f else None))"
proof (intro conjI ballI allI)
  show "materialize dec t d = materialize dec s d"
    unfolding materialize_def using assms by (rule project_collection_cong)
  have ids: "map row_id (materialize dec s d) =
      filter (passes_filter dec s (vd_source d) (vd_filter d)) (doc_ids dec s (vd_source d))"
    by (simp add: materialize_def project_collection_def comp_def)
  show "sorted (map row_id (materialize dec s d))" "distinct (map row_id (materialize dec s d))"
    by (simp_all add: ids docs.ids_sorted sorted_wrt_filter)
  have pass: "passes_filter dec s (vd_source d) (vd_filter d) i \<longleftrightarrow>
      (case vd_filter d of None \<Rightarrow> True
       | Some p \<Rightarrow> doc_query dec s (vd_source d) i (sf_field p) = Some (Scalar (sf_value p)))" for i
    by (auto simp: passes_filter_def split: option.splits kvalue.splits)
  have "row_id ` set (materialize dec s d) = set (map row_id (materialize dec s d))" by simp
  then show "row_id ` set (materialize dec s d) =
      {i. (\<exists>f. doc_get_field dec s (vd_source d) i f \<noteq> None)
          \<and> (case vd_filter d of None \<Rightarrow> True
              | Some p \<Rightarrow> doc_query dec s (vd_source d) i (sf_field p) = Some (Scalar (sf_value p)))}"
    by (auto simp: ids docs.ids_exact pass)
  show "btree_get (row_fields r) f =
      (if (case vd_project d of Some p \<Rightarrow> f \<in> set p
             | None \<Rightarrow> doc_get_field dec s (vd_source d) (row_id r) f \<noteq> None)
       then doc_query dec s (vd_source d) (row_id r) f else None)"
    if "r \<in> set (materialize dec s d)" for r f
    using that by (auto simp: materialize_def project_collection_def get_row_fields split: option.splits)
qed

definition demo_users :: "keyed_op list" where
  "demo_users =
     [put_op ''u'' ''a'' ''on'' (Scalar [1]) (hlc_new 1 0 ''n''),
      put_op ''u'' ''b'' ''on'' (Scalar [0]) (hlc_new 2 0 ''n'')]"

theorem view_is_pure_fold_witness:
  "row_id ` set (materialize (table_dec demo_users) (table_store demo_users demo_users)
     (view_filtered_eq (view_over ''u'') ''on'' [1])) = {''a''}"
proof -
  let ?s = "table_store demo_users demo_users" and ?dec = "table_dec demo_users"
  let ?d = "view_filtered_eq (view_over ''u'') ''on'' [1]"
  have "row_id ` set (materialize ?dec ?s ?d) =
      {i. (\<exists>f. doc_get_field ?dec ?s ''u'' i f \<noteq> None) \<and> doc_query ?dec ?s ''u'' i ''on'' = Some (Scalar [1])}"
    using view_is_pure_fold [of ?dec ?s ?d ?s] by (simp add: view_filtered_eq_def view_over_def)
  also have "\<dots> = set (filter (\<lambda>i. doc_query ?dec ?s ''u'' i ''on'' = Some (Scalar [1])) (doc_ids ?dec ?s ''u''))"
    by (auto simp: docs.ids_exact)
  also have "\<dots> = {''a''}" by code_simp
  finally show ?thesis .
qed

section \<open>The catalog\<close>

lemma materialize_append_other:
  assumes "fresh_write enc dec sha s k" "stamps_distinct dec s" "vd_source d \<noteq> ko_collection k"
  shows "materialize dec (snd (append_op enc sha s k)) d = materialize dec s d"
  using assms unfolding materialize_def
  by (intro project_collection_cong doc_get_append_other) auto

text \<open>
  Data definition is a write like any other: a view created with the newest stamp
  of its name is the one found under the name and is listed; no other name changes, and no view
  over a collection other than the catalog gives different rows, so creating a view migrates
  nothing. A view dropped so is found no more and its rows are gone, while every other name and
  every such view stay as they were.
\<close>

theorem catalog_writes:
  assumes "fresh_write enc dec sha s (put_op catalog_collection n catalog_def_field (Scalar (venc d)) h)"
    and "fresh_write enc dec sha s (tomb_op catalog_collection n catalog_def_field h)"
    and "newest_write dec s (tomb_op catalog_collection n catalog_def_field h)"
    and "stamps_distinct dec s" "vdec (venc d) = Some d"
  shows "let made = create_view venc enc sha s n d h; gone = drop_view enc sha s n h in
    view_def vdec dec made n = Some d \<and> n \<in> set (list_views vdec dec made)
    \<and> view_def vdec dec gone n = None \<and> materialize_view vdec dec gone n = None
    \<and> (\<forall>m. m \<noteq> n \<longrightarrow> view_def vdec dec made m = view_def vdec dec s m
        \<and> view_def vdec dec gone m = view_def vdec dec s m)
    \<and> (\<forall>v. vd_source v \<noteq> catalog_collection \<longrightarrow>
        materialize dec made v = materialize dec s v \<and> materialize dec gone v = materialize dec s v)"
proof -
  let ?p = "put_op catalog_collection n catalog_def_field (Scalar (venc d)) h"
    and ?t = "tomb_op catalog_collection n catalog_def_field h"
  have new: "newest_write dec s ?p" using assms(3) by (simp add: newest_write_def)
  have made: "create_view venc enc sha s n d h = snd (append_op enc sha s ?p)"
    and gone: "drop_view enc sha s n h = snd (append_op enc sha s ?t)"
    by (simp_all add: create_view_def drop_view_def doc_put_field_def doc_delete_field_def view_encode_def)
  have read: "doc_get_field dec (snd (append_op enc sha s ?p)) catalog_collection n catalog_def_field
      = Some (Scalar (venc d))"
    "doc_get_field dec (snd (append_op enc sha s ?t)) catalog_collection n catalog_def_field = None"
    using doc_get_append_newest [OF assms(1) assms(4) new] doc_get_append_newest [OF assms(2) assms(4,3)]
    by simp_all
  then have "view_def vdec dec (snd (append_op enc sha s ?p)) n = Some d"
    "view_def vdec dec (snd (append_op enc sha s ?t)) n = None"
    using assms(5) by (simp_all add: view_def_def view_decode_def)
  moreover have "n \<in> set (doc_ids dec (snd (append_op enc sha s ?p)) catalog_collection)"
    using read(1) by (auto simp: docs.ids_exact)
  moreover have "view_def vdec dec (snd (append_op enc sha s k)) m = view_def vdec dec s m"
    if "m \<noteq> n" "k \<in> {?p, ?t}" for m k
    using that assms(1,2) doc_get_append_other [OF _ assms(4), of enc sha k] by (auto simp: view_def_def)
  moreover have "materialize dec (snd (append_op enc sha s k)) v = materialize dec s v"
    if "vd_source v \<noteq> catalog_collection" "k \<in> {?p, ?t}" for v k
    using that assms(1,2) materialize_append_other [OF _ assms(4), of enc sha k] by auto
  ultimately show ?thesis
    by (simp add: Let_def made gone list_views_def materialize_view_def)
qed

definition demo_catalog :: "keyed_op list" where
  "demo_catalog = demo_users @
     [put_op catalog_collection ''v'' catalog_def_field (Scalar [5]) (hlc_new 3 0 ''n''),
      tomb_op catalog_collection ''v'' catalog_def_field (hlc_new 3 0 ''n'')]"

lemma demo_users_table:
  "stamps_distinct (table_dec demo_catalog) (table_store demo_catalog demo_users)"
  by (rule stamps_distinct_table) (auto simp: demo_catalog_def demo_users_def hlc_new_def)

theorem catalog_writes_witness:
  "view_def (\<lambda>b. if b = [5] then Some (view_over ''u'') else None) (table_dec demo_catalog)
     (create_view (\<lambda>_. [5]) (table_enc demo_catalog) demo_sha (table_store demo_catalog demo_users) ''v''
       (view_over ''u'') (hlc_new 3 0 ''n'')) ''v'' = Some (view_over ''u'')"
proof -
  let ?s = "table_store demo_catalog demo_users"
  let ?p = "put_op catalog_collection ''v'' catalog_def_field (Scalar [5]) (hlc_new 3 0 ''n'')"
    and ?t = "tomb_op catalog_collection ''v'' catalog_def_field (hlc_new 3 0 ''n'')"
  have "fresh_write (table_enc demo_catalog) (table_dec demo_catalog) demo_sha ?s ?p"
    and "fresh_write (table_enc demo_catalog) (table_dec demo_catalog) demo_sha ?s ?t"
    by (rule fresh_write_table; simp add: demo_catalog_def demo_users_def)+
  moreover have "newest_write (table_dec demo_catalog) ?s ?t" by code_simp
  ultimately show ?thesis
    using catalog_writes [of "table_enc demo_catalog" "table_dec demo_catalog" demo_sha ?s "''v''"
        "hlc_new 3 0 ''n''" "\<lambda>_. [5]" "view_over ''u''"
        "\<lambda>b. if b = [5] then Some (view_over ''u'') else None"] demo_users_table
    by (simp add: Let_def)
qed

section \<open>Sums over rows\<close>

lemma sum_list_of_int: "sum_list (map (\<lambda>x. of_int (f x)) xs) = (of_int (sum_list (map f xs)) :: i64)"
  by (induction xs) simp_all

lemma sint_of_int_in_range:
  assumes "- (2 ^ 63) \<le> n" "n < 2 ^ 63"
  shows "sint (of_int n :: i64) = n"
  using assms by (simp add: sint_sbintrunc' signed_take_bit_int_eq_self)

lemma get_group_fold:
  "btree_get (fold (group_step g f) rows m) b =
     (let rs = filter (\<lambda>r. btree_get (row_fields r) g = Some (Scalar b)) rows
      in if rs = [] then btree_get m b
         else Some ((case btree_get m b of None \<Rightarrow> 0 | Some n \<Rightarrow> n) + sum_list (map (\<lambda>r. field_as_i64 r f) rs)))"
proof (induction rows arbitrary: m)
  case (Cons r rows)
  show ?case
    unfolding fold_Cons comp_def Cons.IH
    by (auto simp: group_step_def Let_def split: option.splits kvalue.splits)
qed simp

text \<open>
  Counters are queries: the sum of a field adds, over the live documents that pass
  the filter, the decimal value each holds there and nothing for the others; read as a signed
  number it is that total whenever the total fits 64 bits. Grouping gives, in order, one entry for
  each scalar that some document holds in the grouping field, and its sum is over exactly the
  documents that hold that scalar.
\<close>

theorem sums_exact:
  assumes "tot = (\<Sum>i\<leftarrow>filter (passes_filter dec s c flt) (doc_ids dec s c). scalar_i64 (doc_query dec s c i f))"
    and "- (2 ^ 63) \<le> tot" "tot < 2 ^ 63"
  shows "sint (aggregate_sum dec s c f flt) = tot
    \<and> sorted_wrt (<) (map fst (aggregate_group_by_sum dec s c g f))
    \<and> map_of (aggregate_group_by_sum dec s c g f) b =
        (let members = filter (\<lambda>i. doc_query dec s c i g = Some (Scalar b)) (doc_ids dec s c)
         in if members = [] then None
            else Some (of_int (\<Sum>i\<leftarrow>members. scalar_i64 (doc_query dec s c i f))))"
proof (intro conjI)
  have field: "field_as_i64 (project_row dec s c (Some fs) i) f = of_int (scalar_i64 (doc_query dec s c i f))"
    if "f \<in> set fs" for fs i
    using that by (simp add: field_as_i64_def get_row_fields)
  have "aggregate_sum dec s c f flt = of_int tot"
    unfolding aggregate_sum_def assms(1) sum_list_of_int [symmetric]
    by (simp add: project_collection_def comp_def field)
  then show "sint (aggregate_sum dec s c f flt) = tot" using assms(2,3) by (simp add: sint_of_int_in_range)
  show "sorted_wrt (<) (map fst (aggregate_group_by_sum dec s c g f))"
    by (simp add: aggregate_group_by_sum_def Let_def)
  have "map_of (aggregate_group_by_sum dec s c g f) b =
      btree_get (fold (group_step g f) (project_collection dec s c None (Some [g, f])) btree_new) b"
    by (simp add: aggregate_group_by_sum_def btree_get_def Let_def)
  then show "map_of (aggregate_group_by_sum dec s c g f) b =
      (let members = filter (\<lambda>i. doc_query dec s c i g = Some (Scalar b)) (doc_ids dec s c)
       in if members = [] then None
          else Some (of_int (\<Sum>i\<leftarrow>members. scalar_i64 (doc_query dec s c i f))))"
    unfolding get_group_fold
    by (simp add: project_collection_def filter_map comp_def get_row_fields passes_filter_def Let_def
        field sum_list_of_int)
qed

definition demo_counts :: "keyed_op list" where
  "demo_counts =
     [put_op ''k'' ''a'' ''n'' (Scalar [0x34, 0x32]) (hlc_new 1 0 ''n''),
      put_op ''k'' ''b'' ''n'' (Scalar [0x2D, 0x32]) (hlc_new 2 0 ''n'')]"

theorem sums_exact_witness:
  "sint (aggregate_sum (table_dec demo_counts) (table_store demo_counts demo_counts) ''k'' ''n'' None) = 40"
proof -
  let ?s = "table_store demo_counts demo_counts" and ?dec = "table_dec demo_counts"
  have total: "40 = (\<Sum>i\<leftarrow>filter (passes_filter ?dec ?s ''k'' None) (doc_ids ?dec ?s ''k'').
      scalar_i64 (doc_query ?dec ?s ''k'' i ''n''))" by code_simp
  show ?thesis using sums_exact [OF total] by simp
qed

text \<open>
  A field whose name holds a dot is listed among the fields of its document, but a view without
  a projection looks it up as a path: the row has no such entry unless the part before the dot is
  itself a nested field.
\<close>

lemma dotted_field_lost:
  assumes "CHR ''.'' \<notin> set a" "doc_get_field dec s c i a = None"
  shows "btree_get (row_fields (project_row dec s c None i)) (a @ CHR ''.'' # b) = None"
  using assms(2) split_once_dot_append [OF assms(1)]
  by (simp add: get_row_fields doc_query_def doc_get_field_def)

end
