(* ===== verification/CoFold.thy ===== *)
theory CoFold
  imports StreamDb Coordination
begin

text \<open>
  \<^verbatim>\<open>crates/pillar-streamdb/src/cofold.rs\<close>: the strict co-partition-and-fold reducer
  and its two invariants. The trait \<open>CoFoldInvariant\<close> is the function \<open>admit\<close> that
  the reducer is parameterised with; its contract is the locale \<open>cofold_invariant\<close>,
  interpreted on \<open>UniqueOnce\<close> and \<open>QuotaCeiling\<close>.
\<close>

section \<open>Errors and invariants\<close>

datatype cofold_error =
    Policy policy_violation
  | NotFenced bytes epoch "epoch option"
  | DuplicateKey bytes
  | QuotaExceeded bytes u64 u64

type_synonym 'i cofold_admit = "'i \<Rightarrow> bytes \<Rightarrow> bytes \<Rightarrow> cofold_error + 'i"

record unique_once =
  uo_admitted :: "bytes btree_set"

definition unique_once_new :: unique_once where
  "unique_once_new = \<lparr>uo_admitted = btree_new\<rparr>"

definition unique_once_contains :: "unique_once \<Rightarrow> bytes \<Rightarrow> bool" where
  "unique_once_contains u key = bset_contains (uo_admitted u) key"

definition unique_once_admit :: "unique_once cofold_admit" where
  "unique_once_admit u key payload =
     (if bset_contains (uo_admitted u) key then Inl (DuplicateKey key)
      else Inr (u\<lparr>uo_admitted := bset_insert key (uo_admitted u)\<rparr>))"

record quota_ceiling =
  qc_ceiling :: u64
  qc_counts :: "(bytes, u64) btree_map"

definition quota_ceiling_new :: "u64 \<Rightarrow> quota_ceiling" where
  "quota_ceiling_new c = \<lparr>qc_ceiling = c, qc_counts = btree_new\<rparr>"

definition quota_ceiling_count :: "quota_ceiling \<Rightarrow> bytes \<Rightarrow> u64" where
  "quota_ceiling_count q key = (case btree_get (qc_counts q) key of Some n \<Rightarrow> n | None \<Rightarrow> 0)"

text \<open>The addition is the wrapping one of an unchecked build.\<close>

definition quota_ceiling_admit :: "quota_ceiling cofold_admit" where
  "quota_ceiling_admit q key payload =
     (let n = quota_ceiling_count q key + 1 in
      if n > qc_ceiling q then Inl (QuotaExceeded key (qc_ceiling q) n)
      else Inr (q\<lparr>qc_counts := btree_insert key n (qc_counts q)\<rparr>))"

section \<open>The reducer\<close>

record 'i strict_cofold =
  cf_stream :: stream
  cf_invariant :: 'i
  cf_held :: "(bytes, epoch) btree_map"

definition cofold_new :: "'i \<Rightarrow> 'i strict_cofold" where
  "cofold_new i0 = \<lparr>cf_stream = stream_with_policy Strict, cf_invariant = i0, cf_held = btree_new\<rparr>"

definition cofold_held_epoch :: "'i strict_cofold \<Rightarrow> bytes \<Rightarrow> epoch option" where
  "cofold_held_epoch cf key = btree_get (cf_held cf) key"

definition cofold_acquire ::
  "'i strict_cofold \<Rightarrow> bytes \<Rightarrow> lease_register \<Rightarrow> node_id \<Rightarrow> epoch
     \<Rightarrow> bool \<times> 'i strict_cofold \<times> lease_register" where
  "cofold_acquire cf key lease candidate e =
     (case lease_try_acquire lease candidate e of (ok, lease') \<Rightarrow>
        if ok then (True, cf\<lparr>cf_held := btree_insert key e (cf_held cf)\<rparr>, lease')
        else (False, cf, lease'))"

definition cofold_frame :: "bytes \<Rightarrow> bytes \<Rightarrow> bytes" where
  "cofold_frame key payload = u32_to_be_bytes (of_nat (length key)) @ key @ payload"

definition cofold_try_admit ::
  "'i cofold_admit \<Rightarrow> sha256 \<Rightarrow> 'i strict_cofold \<Rightarrow> bytes \<Rightarrow> epoch \<Rightarrow> bytes
     \<Rightarrow> (cofold_error + op_id) \<times> 'i strict_cofold" where
  "cofold_try_admit admit sha cf key e payload =
     (let held = btree_get (cf_held cf) key in
      if held \<noteq> Some e then (Inl (NotFenced key e held), cf)
      else case admit (cf_invariant cf) key payload of
             Inl err \<Rightarrow> (Inl err, cf)
           | Inr advanced \<Rightarrow>
               (let cf' = cf\<lparr>cf_invariant := advanced\<rparr> in
                case stream_try_append sha (cf_stream cf) (cofold_frame key payload) Exclusive of
                  Inl violation \<Rightarrow> (Inl (Policy violation), cf')
                | Inr (i, s) \<Rightarrow> (Inr i, cf'\<lparr>cf_stream := s\<rparr>)))"

definition cofold_view :: "'i strict_cofold \<Rightarrow> view" where
  "cofold_view cf = stream_view (cf_stream cf)"

section \<open>Sequences of calls\<close>

datatype cofold_op = CfLease lease_op | CfAcquire bytes node_id epoch | CfAdmit bytes epoch bytes

text \<open>
  One call: on the shared lease register, an \<open>acquire\<close> or an admission; and the
  key and payload it admitted.
\<close>

fun cofold_exec ::
  "'i cofold_admit \<Rightarrow> sha256 \<Rightarrow> 'i strict_cofold \<times> lease_register \<Rightarrow> cofold_op
     \<Rightarrow> 'i strict_cofold \<times> lease_register" where
  "cofold_exec admit sha (cf, r) (CfLease x) = (cf, lease_exec r x)"
| "cofold_exec admit sha (cf, r) (CfAcquire key c e) = snd (cofold_acquire cf key r c e)"
| "cofold_exec admit sha (cf, r) (CfAdmit key e p) = (snd (cofold_try_admit admit sha cf key e p), r)"

definition cofold_run ::
  "'i cofold_admit \<Rightarrow> sha256 \<Rightarrow> 'i strict_cofold \<times> lease_register \<Rightarrow> cofold_op list
     \<Rightarrow> 'i strict_cofold \<times> lease_register" where
  "cofold_run admit sha st xs = foldl (cofold_exec admit sha) st xs"

fun cofold_admits ::
  "'i cofold_admit \<Rightarrow> sha256 \<Rightarrow> 'i strict_cofold \<times> lease_register \<Rightarrow> cofold_op \<Rightarrow> (bytes \<times> bytes) list" where
  "cofold_admits admit sha (cf, r) (CfAdmit key e p) =
     (case fst (cofold_try_admit admit sha cf key e p) of Inl _ \<Rightarrow> [] | Inr _ \<Rightarrow> [(key, p)])"
| "cofold_admits admit sha (cf, r) _ = []"

text \<open>The keys and payloads of the successful admissions of a run, in order.\<close>

fun cofold_admitted ::
  "'i cofold_admit \<Rightarrow> sha256 \<Rightarrow> 'i strict_cofold \<times> lease_register \<Rightarrow> cofold_op list
     \<Rightarrow> (bytes \<times> bytes) list" where
  "cofold_admitted admit sha st [] = []"
| "cofold_admitted admit sha st (x # xs) =
     cofold_admits admit sha st x @ cofold_admitted admit sha (cofold_exec admit sha st x) xs"

section \<open>One call\<close>

text \<open>A stream declared strict admits every effect, so the policy error never shows.\<close>

lemma try_append_strict:
  "stream_policy s = Some Strict \<Longrightarrow>
     stream_try_append sha s p eff =
       Inr (content_address sha p, s\<lparr>stream_log := snd (oplog_append sha (stream_log s) p)\<rparr>)"
  by (cases eff) (simp_all add: stream_try_append_def stream_effective_policy_def
      oplog_append_def op_new_def Let_def)

lemma try_admit_strict:
  assumes "stream_policy (cf_stream cf) = Some Strict"
  shows "cofold_try_admit admit sha cf key e p =
    (if btree_get (cf_held cf) key \<noteq> Some e then (Inl (NotFenced key e (btree_get (cf_held cf) key)), cf)
     else case admit (cf_invariant cf) key p of
            Inl err \<Rightarrow> (Inl err, cf)
          | Inr i \<Rightarrow> (Inr (content_address sha (cofold_frame key p)),
               cf\<lparr>cf_invariant := i, cf_stream := (cf_stream cf)\<lparr>stream_log :=
                 snd (oplog_append sha (stream_log (cf_stream cf)) (cofold_frame key p))\<rparr>\<rparr>))"
  by (simp add: cofold_try_admit_def Let_def try_append_strict [OF assms] split: sum.splits)

lemma cofold_exec_policy:
  "stream_policy (cf_stream (fst st)) = Some Strict \<Longrightarrow>
     stream_policy (cf_stream (fst (cofold_exec admit sha st x))) = Some Strict"
  by (cases st; cases x)
    (auto simp: cofold_acquire_def try_admit_strict split: prod.splits if_splits sum.splits)

lemma cofold_run_policy:
  "stream_policy (cf_stream (fst st)) = Some Strict \<Longrightarrow>
     stream_policy (cf_stream (fst (cofold_run admit sha st xs))) = Some Strict"
  unfolding cofold_run_def
  by (induction xs arbitrary: st) (simp_all add: cofold_exec_policy)

lemma cofold_new_policy [simp]: "stream_policy (cf_stream (cofold_new i)) = Some Strict"
  by (simp add: cofold_new_def stream_with_policy_def)

section \<open>The contract of an invariant\<close>

text \<open>
  \<open>used i k\<close> is how much of its per-key allowance \<open>cap i\<close> the fold state
  \<open>i\<close> has spent for \<open>k\<close>. An admission spends one unit of its own key, only below
  the allowance, and never touches another key: the invariant is local to its partition.
\<close>

locale cofold_invariant =
  fixes admit :: "'i cofold_admit"
    and used :: "'i \<Rightarrow> bytes \<Rightarrow> nat"
    and cap :: "'i \<Rightarrow> nat"
    and sane :: "'i \<Rightarrow> bool"
  assumes admit_used: "sane i \<Longrightarrow> admit i k p = Inr i' \<Longrightarrow>
      used i k < cap i \<and> used i' = (used i)(k := Suc (used i k)) \<and> cap i' = cap i \<and> sane i'"
    and admit_refuses: "sane i \<Longrightarrow> admit i k p = Inl err \<Longrightarrow> cap i \<le> used i k"
begin

lemma exec_spends:
  assumes "sane (cf_invariant cf)" "used (cf_invariant cf) k \<le> cap (cf_invariant cf)"
    and "stream_policy (cf_stream cf) = Some Strict"
    and "cofold_exec admit sha (cf, r) x = (cf', r')"
  shows "sane (cf_invariant cf') \<and> cap (cf_invariant cf') = cap (cf_invariant cf)
    \<and> used (cf_invariant cf') k =
        used (cf_invariant cf) k + count_list (map fst (cofold_admits admit sha (cf, r) x)) k
    \<and> used (cf_invariant cf') k \<le> cap (cf_invariant cf')"
proof (cases x)
  case (CfAcquire key c e)
  then show ?thesis
    using assms by (auto simp: cofold_acquire_def split: prod.splits if_splits)
next
  case (CfAdmit key e p)
  show ?thesis
  proof (cases "\<exists>i. admit (cf_invariant cf) key p = Inr i")
    case True
    then obtain i where i: "admit (cf_invariant cf) key p = Inr i" by blast
    show ?thesis
      using assms CfAdmit admit_used [OF assms(1) i] i
      by (auto simp: try_admit_strict split: if_splits)
  next
    case False
    then show ?thesis
      using assms CfAdmit by (auto simp: try_admit_strict split: if_splits sum.splits)
  qed
qed (use assms in auto)

lemma admitted_within_cap:
  assumes "sane (cf_invariant cf)" "used (cf_invariant cf) k \<le> cap (cf_invariant cf)"
    and "stream_policy (cf_stream cf) = Some Strict"
  shows "used (cf_invariant cf) k + count_list (map fst (cofold_admitted admit sha (cf, r) xs)) k
    \<le> cap (cf_invariant cf)"
  using assms
proof (induction xs arbitrary: cf r)
  case Nil
  then show ?case by simp
next
  case (Cons x xs)
  obtain cf' r' where next_st: "cofold_exec admit sha (cf, r) x = (cf', r')" by fastforce
  note step = exec_spends [OF Cons.prems next_st]
  have "stream_policy (cf_stream cf') = Some Strict"
    using cofold_exec_policy [of "(cf, r)" admit sha x] Cons.prems(3) next_st by simp
  then show ?case
    using Cons.IH [of cf' r'] step next_st by (simp add: count_list_append)
qed

end

interpretation unique: cofold_invariant unique_once_admit
  "\<lambda>u k. if unique_once_contains u k then 1 else 0" "\<lambda>_. 1" "\<lambda>_. True"
  by unfold_locales
    (auto simp: unique_once_admit_def unique_once_contains_def fun_eq_iff split: if_splits)

lemma quota_count_insert:
  "quota_ceiling_count (q\<lparr>qc_counts := btree_insert k n (qc_counts q)\<rparr>) k' =
     (if k' = k then n else quota_ceiling_count q k')"
  by (simp add: quota_ceiling_count_def)

interpretation quota: cofold_invariant quota_ceiling_admit
  "\<lambda>q k. unat (quota_ceiling_count q k)" "\<lambda>q. unat (qc_ceiling q)"
  "\<lambda>q. unat (qc_ceiling q) + 1 < 2 ^ 64 \<and> (\<forall>k. quota_ceiling_count q k \<le> qc_ceiling q)"
proof
  have no_wrap: "unat (quota_ceiling_count q k + 1) = Suc (unat (quota_ceiling_count q k))"
    if "unat (qc_ceiling q) + 1 < 2 ^ 64 \<and> (\<forall>k. quota_ceiling_count q k \<le> qc_ceiling q)" for q k
  proof -
    have "unat (quota_ceiling_count q k) + 1 < 2 ^ 64"
      using that by (metis add_le_cancel_right le_less_trans word_le_nat_alt)
    then show ?thesis by (simp add: unat_word_ariths)
  qed
  fix i i' :: quota_ceiling and k p err
  assume sane: "unat (qc_ceiling i) + 1 < 2 ^ 64 \<and> (\<forall>k. quota_ceiling_count i k \<le> qc_ceiling i)"
  show "unat (quota_ceiling_count i k) < unat (qc_ceiling i)
      \<and> (\<lambda>k. unat (quota_ceiling_count i' k)) =
          (\<lambda>k. unat (quota_ceiling_count i k))(k := Suc (unat (quota_ceiling_count i k)))
      \<and> unat (qc_ceiling i') = unat (qc_ceiling i)
      \<and> unat (qc_ceiling i') + 1 < 2 ^ 64 \<and> (\<forall>k. quota_ceiling_count i' k \<le> qc_ceiling i')"
    if "quota_ceiling_admit i k p = Inr i'"
    using that sane no_wrap [OF sane, of k]
    by (auto simp: quota_ceiling_admit_def Let_def quota_count_insert fun_eq_iff word_le_nat_alt
        not_less split: if_splits)
  show "unat (qc_ceiling i) \<le> unat (quota_ceiling_count i k)"
    if "quota_ceiling_admit i k p = Inl err"
    using that no_wrap [OF sane, of k]
    by (auto simp: quota_ceiling_admit_def Let_def word_less_nat_alt split: if_splits)
qed

section \<open>The log of a run\<close>

abbreviation "cofold_log st \<equiv> stream_log (cf_stream (fst st))"

lemma cofold_log_exec:
  assumes "stream_policy (cf_stream cf) = Some Strict" "oplog_wf sha (cofold_log (cf, r))"
    and "inj_on sha (oplog_payloads (cofold_log (cf, r))
          \<union> (\<lambda>(k, p). cofold_frame k p) ` set (cofold_admits admit sha (cf, r) x))"
  shows "oplog_wf sha (cofold_log (cofold_exec admit sha (cf, r) x))
    \<and> oplog_payloads (cofold_log (cofold_exec admit sha (cf, r) x)) =
        oplog_payloads (cofold_log (cf, r))
          \<union> (\<lambda>(k, p). cofold_frame k p) ` set (cofold_admits admit sha (cf, r) x)"
  using assms
  by (cases x)
    (auto simp: cofold_acquire_def try_admit_strict oplog_payloads_append oplog_wf_append
      split: prod.splits if_splits sum.splits)

lemma cofold_log_run:
  assumes "stream_policy (cf_stream (fst st)) = Some Strict" "oplog_wf sha (cofold_log st)"
    and "inj_on sha (oplog_payloads (cofold_log st)
          \<union> (\<lambda>(k, p). cofold_frame k p) ` set (cofold_admitted admit sha st xs))"
  shows "oplog_payloads (cofold_log (cofold_run admit sha st xs)) =
    oplog_payloads (cofold_log st)
      \<union> (\<lambda>(k, p). cofold_frame k p) ` set (cofold_admitted admit sha st xs)"
  using assms
proof (induction xs arbitrary: st)
  case Nil
  then show ?case by (simp add: cofold_run_def)
next
  case (Cons x xs)
  obtain cf r where st: "st = (cf, r)" by fastforce
  let ?st = "cofold_exec admit sha (cf, r) x"
  have here: "oplog_wf sha (cofold_log ?st)
    \<and> oplog_payloads (cofold_log ?st) = oplog_payloads (cofold_log (cf, r))
          \<union> (\<lambda>(k, p). cofold_frame k p) ` set (cofold_admits admit sha (cf, r) x)"
  proof (rule cofold_log_exec)
    show "stream_policy (cf_stream cf) = Some Strict" "oplog_wf sha (cofold_log (cf, r))"
      using Cons.prems(1,2) st by simp_all
    show "inj_on sha (oplog_payloads (cofold_log (cf, r))
        \<union> (\<lambda>(k, p). cofold_frame k p) ` set (cofold_admits admit sha (cf, r) x))"
      by (rule inj_on_subset [OF Cons.prems(3)]) (auto simp: st)
  qed
  have "oplog_payloads (cofold_log (cofold_run admit sha ?st xs)) =
    oplog_payloads (cofold_log ?st)
      \<union> (\<lambda>(k, p). cofold_frame k p) ` set (cofold_admitted admit sha ?st xs)"
  proof (rule Cons.IH)
    show "stream_policy (cf_stream (fst ?st)) = Some Strict"
      using Cons.prems(1) st by (intro cofold_exec_policy) simp
    show "oplog_wf sha (cofold_log ?st)" using here by blast
    show "inj_on sha (oplog_payloads (cofold_log ?st)
        \<union> (\<lambda>(k, p). cofold_frame k p) ` set (cofold_admitted admit sha ?st xs))"
      by (rule inj_on_subset [OF Cons.prems(3)]) (use here st in auto)
  qed
  then show ?case using here st by (auto simp: cofold_run_def)
qed

lemma cofold_frame_inject:
  assumes "length k < 2 ^ 32" "length k' < 2 ^ 32" "cofold_frame k p = cofold_frame k' p'"
  shows "k = k' \<and> p = p'"
proof -
  have "u32_to_be_bytes (of_nat (length k)) = u32_to_be_bytes (of_nat (length k'))"
    and rest: "k @ p = k' @ p'"
    using assms(3) by (simp_all add: cofold_frame_def append_eq_append_conv)
  then have "unat (of_nat (length k) :: u32) = unat (of_nat (length k') :: u32)" by simp
  then have "length k = length k'" using assms(1,2) by (simp add: unat_of_nat)
  then show ?thesis using rest by simp
qed

section \<open>Properties\<close>

text \<open>
  Exactly-once admission: over any sequence of calls on a fresh
  \<open>UniqueOnce\<close> reducer and a lease register in any state, no key is admitted twice.
\<close>

theorem unique_once_at_most_once:
  "count_list (map fst (cofold_admitted unique_once_admit sha (cofold_new unique_once_new, r) xs)) k \<le> 1"
proof -
  let ?c = "cofold_new unique_once_new"
  have "unique_once_contains (cf_invariant ?c) k = False"
    by (simp add: cofold_new_def unique_once_new_def unique_once_contains_def)
  then show ?thesis
    using unique.admitted_within_cap [of ?c k sha r xs] by simp
qed

text \<open>
  \<^bold>\<open>C4.\<close> Hard quota ceiling: over any sequence of calls on a fresh \<open>QuotaCeiling\<close>
  reducer, no key is admitted more often than its ceiling, which is below the greatest
  64-bit count.
\<close>

theorem quota_ceiling_never_exceeded:
  assumes "unat c + 1 < 2 ^ 64"
  shows "count_list (map fst (cofold_admitted quota_ceiling_admit sha
      (cofold_new (quota_ceiling_new c), r) xs)) k \<le> unat c"
proof -
  let ?c = "cofold_new (quota_ceiling_new c)"
  have "cf_invariant ?c = quota_ceiling_new c" by (simp add: cofold_new_def)
  moreover have "quota_ceiling_count (quota_ceiling_new c) k = 0" for k
    by (simp add: quota_ceiling_new_def quota_ceiling_count_def)
  moreover have "qc_ceiling (quota_ceiling_new c) = c" by (simp add: quota_ceiling_new_def)
  ultimately show ?thesis
    using quota.admitted_within_cap [of ?c k sha r xs] assms by simp
qed

definition cofold_demo_ops :: "cofold_op list" where
  "cofold_demo_ops =
     [CfLease (GrantOp ''v1'' ''solo'' 1), CfAcquire [7] ''solo'' 1,
      CfAdmit [7] 1 [1], CfAdmit [7] 1 [2], CfAdmit [7] 1 [3]]"

theorem quota_ceiling_never_exceeded_witness:
  "count_list (map fst (cofold_admitted quota_ceiling_admit demo_sha
      (cofold_new (quota_ceiling_new 2), lease_new 1) cofold_demo_ops)) [7] \<le> unat (2 :: u64)
   \<and> cofold_admitted quota_ceiling_admit demo_sha
      (cofold_new (quota_ceiling_new 2), lease_new 1) cofold_demo_ops = [([7], [1]), ([7], [2])]"
proof
  show "count_list (map fst (cofold_admitted quota_ceiling_admit demo_sha
      (cofold_new (quota_ceiling_new 2), lease_new 1) cofold_demo_ops)) [7] \<le> unat (2 :: u64)"
    by (rule quota_ceiling_never_exceeded) simp
  show "cofold_admitted quota_ceiling_admit demo_sha
      (cofold_new (quota_ceiling_new 2), lease_new 1) cofold_demo_ops = [([7], [1]), ([7], [2])]"
    by code_simp
qed

text \<open>
  The log of a run holds one framed op for each admitted key and payload and
  nothing else: what was refused leaves no trace. Keys shorter than 2^32 bytes and their payloads
  are read off the frames without ambiguity.
\<close>

theorem cofold_log_records_admissions:
  assumes "inj_on sha ((\<lambda>(k, p). cofold_frame k p) ` set (cofold_admitted admit sha (cofold_new i, r) xs))"
    and "\<And>k p. (k, p) \<in> set (cofold_admitted admit sha (cofold_new i, r) xs) \<Longrightarrow> length k < 2 ^ 32"
    and "length key < 2 ^ 32"
  shows "cofold_frame key payload
      \<in> op_payload ` set (view_order (cofold_view (fst (cofold_run admit sha (cofold_new i, r) xs))))
    \<longleftrightarrow> (key, payload) \<in> set (cofold_admitted admit sha (cofold_new i, r) xs)"
proof -
  let ?A = "set (cofold_admitted admit sha (cofold_new i, r) xs)"
  have empty: "cofold_log (cofold_new i, r) = oplog_new"
    by (simp add: cofold_new_def stream_with_policy_def)
  have "oplog_payloads oplog_new = {}" by (auto simp: oplog_payloads_iff)
  then have "oplog_payloads (cofold_log (cofold_run admit sha (cofold_new i, r) xs)) =
      (\<lambda>(k, p). cofold_frame k p) ` ?A"
    using cofold_log_run [of "(cofold_new i, r)" sha admit xs] assms(1)
    by (simp add: empty [simplified] oplog_wf_new)
  moreover have "cofold_frame key payload \<in> (\<lambda>(k, p). cofold_frame k p) ` ?A \<longleftrightarrow> (key, payload) \<in> ?A"
  proof
    assume "cofold_frame key payload \<in> (\<lambda>(k, p). cofold_frame k p) ` ?A"
    then obtain k p where kp: "(k, p) \<in> ?A" "cofold_frame key payload = cofold_frame k p" by auto
    from cofold_frame_inject [OF assms(3) assms(2) [OF kp(1)] kp(2)] kp(1)
    show "(key, payload) \<in> ?A" by simp
  qed (force intro: image_eqI)
  ultimately show ?thesis
    by (simp add: oplog_payloads_def cofold_view_def view_order_def stream_view_def)
qed

theorem cofold_log_records_admissions_witness:
  "cofold_frame [7] [3]
      \<notin> op_payload ` set (view_order (cofold_view (fst (cofold_run quota_ceiling_admit demo_sha
           (cofold_new (quota_ceiling_new 2), lease_new 1) cofold_demo_ops))))"
proof -
  have run: "cofold_admitted quota_ceiling_admit demo_sha
      (cofold_new (quota_ceiling_new 2), lease_new 1) cofold_demo_ops = [([7], [1]), ([7], [2])]"
    by code_simp
  have "inj_on demo_sha ((\<lambda>(k, p). cofold_frame k p) ` set [([7], [1]), ([7], [2])])"
    by (rule inj_on_subset [OF demo_sha_inj]) (auto simp: cofold_frame_def)
  moreover have "length k < 2 ^ 32" if "(k, p) \<in> set [([7], [1]), ([7], [2])]" for k p :: bytes
    using that by auto
  ultimately show ?thesis
    using cofold_log_records_admissions [of demo_sha quota_ceiling_admit "quota_ceiling_new 2"
        "lease_new 1" cofold_demo_ops "[7]" "[3]"] unfolding run by simp
qed

text \<open>
  Admission, case by case, after any sequence of calls on a fresh reducer with any
  invariant: a claimed epoch other than the recorded one is refused as not fenced, an op the
  invariant refuses is refused with its error, both without any change; every other op is admitted
  under the address of its frame. The stream's policy never refuses.
\<close>

theorem cofold_admission_decision:
  assumes "cofold_run admit sha (cofold_new i, r) xs = (cf, r')"
  shows "cofold_try_admit admit sha cf key e p =
    (if cofold_held_epoch cf key \<noteq> Some e then (Inl (NotFenced key e (cofold_held_epoch cf key)), cf)
     else case admit (cf_invariant cf) key p of
            Inl err \<Rightarrow> (Inl err, cf)
          | Inr i' \<Rightarrow> (Inr (content_address sha (cofold_frame key p)),
               cf\<lparr>cf_invariant := i', cf_stream := (cf_stream cf)\<lparr>stream_log :=
                 snd (oplog_append sha (stream_log (cf_stream cf)) (cofold_frame key p))\<rparr>\<rparr>))"
proof -
  have "stream_policy (cf_stream cf) = Some Strict"
    using cofold_run_policy [of "(cofold_new i, r)" admit sha xs] assms by simp
  then show ?thesis by (simp add: try_admit_strict cofold_held_epoch_def)
qed

theorem cofold_admission_decision_witness:
  "fst (cofold_try_admit unique_once_admit demo_sha
      (fst (cofold_run unique_once_admit demo_sha (cofold_new unique_once_new, lease_new 1) []))
      [7] 1 [1]) = Inl (NotFenced [7] 1 None)"
proof -
  have run: "cofold_run unique_once_admit demo_sha (cofold_new unique_once_new, lease_new 1) []
      = (cofold_new unique_once_new, lease_new 1)" by (simp add: cofold_run_def)
  have "cofold_held_epoch (cofold_new unique_once_new) [7] = None"
    by (simp add: cofold_held_epoch_def cofold_new_def)
  then show ?thesis
    using cofold_admission_decision [OF run, of "[7]" 1 "[1]"] by (simp add: cofold_run_def)
qed

text \<open>
  The recorded epoch of a key can go back: node \<open>n1\<close> holds epoch 1, node
  \<open>n2\<close> then epoch 2 with every voter behind it; when \<open>n1\<close> asks for epoch 1 again
  the register still answers yes, the reducer records epoch 1, admits \<open>n1\<close> and refuses
  \<open>n2\<close> as not fenced.
\<close>

theorem stale_holder_readmitted:
  "let v = [''v1'', ''v2'', ''v3''];
       setup = map (\<lambda>x. CfLease (GrantOp x ''n1'' 1)) v @ [CfAcquire [7] ''n1'' 1]
         @ map (\<lambda>x. CfLease (GrantOp x ''n2'' 2)) v @ [CfAcquire [7] ''n2'' 2];
       st = cofold_run (quota_ceiling_admit) sha (cofold_new (quota_ceiling_new 9), lease_new 3) setup;
       st' = cofold_exec quota_ceiling_admit sha st (CfAcquire [7] ''n1'' 1)
   in cofold_held_epoch (fst st) [7] = Some 2 \<and> cofold_held_epoch (fst st') [7] = Some 1
      \<and> fst (cofold_try_admit quota_ceiling_admit sha (fst st') [7] 1 p)
          = Inr (content_address sha (cofold_frame [7] p))
      \<and> fst (cofold_try_admit quota_ceiling_admit sha (fst st') [7] 2 p)
          = Inl (NotFenced [7] 2 (Some 1))"
  by code_simp

end
