(* ===== verification/Rbac.thy ===== *)
theory Rbac
  imports WotAuthority TrustArtifacts
begin

text \<open>
  \<^verbatim>\<open>crates/pillar-rbac/src/lib.rs\<close> and \<^verbatim>\<open>key_export.rs\<close>: the decider that
  composes explicit grants, depth policies over the web of trust and the step-up factor, and the
  key-export role built on it. The decider's verdict is related to delegation chains through the
  facts of \<open>WotAuthority\<close>; its explicit grants are what \<open>as_explicit_grants\<close> of the trust store
  projects. The argument \<open>iter\<close> is the iteration order of the edge set.
\<close>

section \<open>Policies and requests\<close>

type_synonym rbac_group = node_id

datatype resource_class = Compute | Network | Storage | AllClasses

definition resource_classes :: "resource_class list" where
  "resource_classes = [Compute, Network, Storage, AllClasses]"

type_synonym label_set = "string btree_set"

definition label_set_new :: "string list \<Rightarrow> label_set" where
  "label_set_new labels = bset_collect labels"

definition label_set_matches :: "label_set \<Rightarrow> string btree_set \<Rightarrow> bool" where
  "label_set_matches ls subject_labels \<longleftrightarrow> list_all (bset_contains subject_labels) (btree_keys ls)"

datatype policy_target =
    TargetNode node_id
  | TargetGroup rbac_group
  | TargetLabelSet label_set
  | TargetResourceClass resource_class

fun specificity :: "policy_target \<Rightarrow> u8" where
  "specificity (TargetNode _) = 0"
| "specificity (TargetGroup _) = 1"
| "specificity (TargetLabelSet _) = 2"
| "specificity (TargetResourceClass Compute) = 3"
| "specificity (TargetResourceClass Network) = 3"
| "specificity (TargetResourceClass Storage) = 3"
| "specificity (TargetResourceClass AllClasses) = 4"

record policy_event =
  pe_target :: policy_target
  pe_capability :: capability
  pe_depth_threshold :: u8

datatype decision = DecisionAllow | DecisionDeny

record step_up_assertion =
  su_verified_at_secs :: u64
  su_credential_id :: bytes

record rbac_request =
  rq_subject :: node_id
  rq_capability :: capability
  rq_resource_class :: resource_class
  rq_subject_labels :: "string btree_set"
  rq_now_secs :: u64
  rq_step_up :: "step_up_assertion option"

definition request_new :: "node_id \<Rightarrow> capability \<Rightarrow> rbac_request" where
  "request_new subject capability =
     \<lparr>rq_subject = subject, rq_capability = capability, rq_resource_class = AllClasses,
      rq_subject_labels = btree_new, rq_now_secs = 0, rq_step_up = None\<rparr>"

definition with_resource_class :: "resource_class \<Rightarrow> rbac_request \<Rightarrow> rbac_request" where
  "with_resource_class class r = r\<lparr>rq_resource_class := class\<rparr>"

definition with_labels :: "string btree_set \<Rightarrow> rbac_request \<Rightarrow> rbac_request" where
  "with_labels labels r = r\<lparr>rq_subject_labels := labels\<rparr>"

definition at_time :: "u64 \<Rightarrow> rbac_request \<Rightarrow> rbac_request" where
  "at_time now r = r\<lparr>rq_now_secs := now\<rparr>"

definition with_step_up :: "step_up_assertion \<Rightarrow> rbac_request \<Rightarrow> rbac_request" where
  "with_step_up a r = r\<lparr>rq_step_up := Some a\<rparr>"

definition owns_node :: "(edge set \<Rightarrow> edge list) \<Rightarrow> wot_authority \<Rightarrow> node_id \<Rightarrow> node_id \<Rightarrow> bool" where
  "owns_node iter authority user_primary node = owns iter authority user_primary node"

datatype confidentiality = CellEncrypted | Public

fun is_public_collection_read_allowed :: "confidentiality \<Rightarrow> bool" where
  "is_public_collection_read_allowed Public = True"
| "is_public_collection_read_allowed CellEncrypted = False"

section \<open>Shipped defaults\<close>

datatype rbac_error = MissingDefaultPolicy resource_class

definition default_policy_for_class :: "policy_event list \<Rightarrow> resource_class \<Rightarrow> rbac_error + policy_event" where
  "default_policy_for_class defaults class =
     (case find (\<lambda>p. case pe_target p of TargetResourceClass rc \<Rightarrow> rc = class | _ \<Rightarrow> False) defaults of
        None \<Rightarrow> Inl (MissingDefaultPolicy class)
      | Some p \<Rightarrow> Inr p)"

definition default_resource_class_policies :: "capability \<Rightarrow> policy_event list" where
  "default_resource_class_policies cap =
     map (\<lambda>class. \<lparr>pe_target = TargetResourceClass class, pe_capability = cap,
            pe_depth_threshold = (if class = AllClasses then 3 else 2)\<rparr>) resource_classes"

section \<open>Step-up\<close>

record step_up_policy =
  sp_required :: "capability btree_set"
  sp_max_age_secs :: u64

definition step_up_policy_new :: "capability list \<Rightarrow> u64 \<Rightarrow> step_up_policy" where
  "step_up_policy_new caps max_age = \<lparr>sp_required = bset_collect caps, sp_max_age_secs = max_age\<rparr>"

definition requires_step_up :: "step_up_policy \<Rightarrow> capability \<Rightarrow> bool" where
  "requires_step_up p cap = bset_contains (sp_required p) cap"

text \<open>\<open>now_secs.checked_sub(verified_at)\<close>: \<open>None\<close> when the assertion is dated in the future.\<close>

definition assertion_is_fresh :: "step_up_policy \<Rightarrow> step_up_assertion \<Rightarrow> u64 \<Rightarrow> bool" where
  "assertion_is_fresh p a now =
     (case (if su_verified_at_secs a \<le> now then Some (now - su_verified_at_secs a) else None) of
        Some age \<Rightarrow> age \<le> sp_max_age_secs p
      | None \<Rightarrow> False)"

section \<open>The decider\<close>

record rbac_decider =
  rd_authority :: wot_authority
  rd_policies :: "policy_event list"
  rd_grants :: "explicit_grant list"
  rd_step_up :: step_up_policy

definition decider_new ::
  "wot_authority \<Rightarrow> policy_event list \<Rightarrow> explicit_grant list \<Rightarrow> rbac_decider" where
  "decider_new authority policies grants =
     \<lparr>rd_authority = authority, rd_policies = policies, rd_grants = grants,
      rd_step_up = \<lparr>sp_required = btree_new, sp_max_age_secs = 0\<rparr>\<rparr>"

definition with_step_up_policy :: "step_up_policy \<Rightarrow> rbac_decider \<Rightarrow> rbac_decider" where
  "with_step_up_policy p d = d\<lparr>rd_step_up := p\<rparr>"

text \<open>The scan over the grants, with the allow seen so far.\<close>

fun scan_grants ::
  "explicit_grant list \<Rightarrow> node_id \<Rightarrow> capability \<Rightarrow> grant_effect option \<Rightarrow> grant_effect option" where
  "scan_grants [] subject cap allow = allow"
| "scan_grants (g # gs) subject cap allow =
     (if eg_subject g = subject \<and> eg_capability g = cap then
        (case eg_effect g of
           Deny \<Rightarrow> Some Deny
         | Allow \<Rightarrow> scan_grants gs subject cap (Some Allow))
      else scan_grants gs subject cap allow)"

definition decider_explicit_grant :: "rbac_decider \<Rightarrow> node_id \<Rightarrow> capability \<Rightarrow> grant_effect option" where
  "decider_explicit_grant d subject cap = scan_grants (rd_grants d) subject cap None"

fun target_applies ::
  "(edge set \<Rightarrow> edge list) \<Rightarrow> rbac_decider \<Rightarrow> policy_target \<Rightarrow> rbac_request \<Rightarrow> bool" where
  "target_applies iter d (TargetNode node) r \<longleftrightarrow> node = rq_subject r"
| "target_applies iter d (TargetGroup g) r \<longleftrightarrow> is_group_member iter (rd_authority d) g (rq_subject r)"
| "target_applies iter d (TargetLabelSet ls) r \<longleftrightarrow> label_set_matches ls (rq_subject_labels r)"
| "target_applies iter d (TargetResourceClass AllClasses) r \<longleftrightarrow> True"
| "target_applies iter d (TargetResourceClass class) r \<longleftrightarrow> class = rq_resource_class r"

text \<open>\<open>Iterator::min_by_key\<close>: the first of the least elements.\<close>

fun min_by_key :: "('a \<Rightarrow> 'b::linorder) \<Rightarrow> 'a list \<Rightarrow> 'a option" where
  "min_by_key f [] = None"
| "min_by_key f (x # xs) =
     (case min_by_key f xs of
        None \<Rightarrow> Some x
      | Some y \<Rightarrow> if f x \<le> f y then Some x else Some y)"

definition most_specific_satisfied_policy ::
  "(edge set \<Rightarrow> edge list) \<Rightarrow> rbac_decider \<Rightarrow> rbac_request \<Rightarrow> u8 \<Rightarrow> policy_event option" where
  "most_specific_satisfied_policy iter d r depth =
     min_by_key (\<lambda>p. specificity (pe_target p))
       (filter (\<lambda>p. depth \<ge> pe_depth_threshold p)
         (filter (\<lambda>p. target_applies iter d (pe_target p) r)
           (filter (\<lambda>p. pe_capability p = rq_capability r) (rd_policies d))))"

definition satisfies_depth_default ::
  "(edge set \<Rightarrow> edge list) \<Rightarrow> rbac_decider \<Rightarrow> rbac_request \<Rightarrow> bool" where
  "satisfies_depth_default iter d r =
     (case reachable_depth iter (rd_authority d) (rq_subject r) of
        None \<Rightarrow> False
      | Some depth \<Rightarrow> most_specific_satisfied_policy iter d r depth \<noteq> None)"

definition satisfies_step_up :: "rbac_decider \<Rightarrow> rbac_request \<Rightarrow> bool" where
  "satisfies_step_up d r =
     (if \<not> requires_step_up (rd_step_up d) (rq_capability r) then True
      else case rq_step_up r of
        Some a \<Rightarrow> assertion_is_fresh (rd_step_up d) a (rq_now_secs r)
      | None \<Rightarrow> False)"

definition decide :: "(edge set \<Rightarrow> edge list) \<Rightarrow> rbac_decider \<Rightarrow> rbac_request \<Rightarrow> decision" where
  "decide iter d r =
     (case decider_explicit_grant d (rq_subject r) (rq_capability r) of
        Some Deny \<Rightarrow> DecisionDeny
      | Some Allow \<Rightarrow> if satisfies_step_up d r then DecisionAllow else DecisionDeny
      | None \<Rightarrow>
          if satisfies_depth_default iter d r \<and> satisfies_step_up d r then DecisionAllow else DecisionDeny)"

definition predict :: "(edge set \<Rightarrow> edge list) \<Rightarrow> rbac_decider \<Rightarrow> rbac_request \<Rightarrow> decision" where
  "predict iter d r = decide iter d r"

datatype exercised = ExplicitAllow | ExplicitDeny | WotDepthDefault u8 u8 | StepUpRequired | DenyAll

definition explain :: "(edge set \<Rightarrow> edge list) \<Rightarrow> rbac_decider \<Rightarrow> rbac_request \<Rightarrow> exercised" where
  "explain iter d r =
     (case decider_explicit_grant d (rq_subject r) (rq_capability r) of
        Some Deny \<Rightarrow> ExplicitDeny
      | Some Allow \<Rightarrow> if satisfies_step_up d r then ExplicitAllow else StepUpRequired
      | None \<Rightarrow>
          (case reachable_depth iter (rd_authority d) (rq_subject r) of
             None \<Rightarrow> DenyAll
           | Some depth \<Rightarrow>
               (case most_specific_satisfied_policy iter d r depth of
                  Some policy \<Rightarrow>
                    if satisfies_step_up d r then WotDepthDefault depth (pe_depth_threshold policy)
                    else StepUpRequired
                | None \<Rightarrow> DenyAll)))"

fun exercised_display :: "exercised \<Rightarrow> string" where
  "exercised_display ExplicitAllow = ''explicit grant (allow)''"
| "exercised_display ExplicitDeny = ''explicit grant (deny)''"
| "exercised_display (WotDepthDefault depth threshold) =
     ''WoT-depth default (reachable at depth '' @ dec_string (unat depth) @ '', threshold ''
       @ dec_string (unat threshold) @ '')''"
| "exercised_display StepUpRequired = ''step-up re-authentication required (no fresh assertion)''"
| "exercised_display DenyAll = ''none (deny-all default)''"

section \<open>Key export\<close>

definition cell_key_export_capability :: capability where
  "cell_key_export_capability = ''cell:key-export''"

definition key_export_step_up_max_age_secs :: u64 where
  "key_export_step_up_max_age_secs = 120"

definition key_export_step_up_policy :: step_up_policy where
  "key_export_step_up_policy =
     step_up_policy_new [cell_key_export_capability] key_export_step_up_max_age_secs"

definition authorize_key_export ::
  "(edge set \<Rightarrow> edge list) \<Rightarrow> rbac_decider \<Rightarrow> node_id \<Rightarrow> u64 \<Rightarrow> step_up_assertion option \<Rightarrow> decision" where
  "authorize_key_export iter d subject now step_up =
     (let req = at_time now (with_resource_class AllClasses (request_new subject cell_key_export_capability));
          req = (case step_up of Some a \<Rightarrow> with_step_up a req | None \<Rightarrow> req)
      in decide iter d req)"

section \<open>The lattice\<close>

lemma scan_grants_eq:
  "scan_grants gs s cap allow =
     (if \<exists>g\<in>set gs. eg_subject g = s \<and> eg_capability g = cap \<and> eg_effect g = Deny then Some Deny
      else if \<exists>g\<in>set gs. eg_subject g = s \<and> eg_capability g = cap then Some Allow
      else allow)"
proof (induction gs arbitrary: allow)
  case (Cons g gs)
  show ?case
    by (cases "eg_subject g = s \<and> eg_capability g = cap"; cases "eg_effect g") (auto simp add: Cons.IH)
qed simp

definition named_grant :: "rbac_decider \<Rightarrow> rbac_request \<Rightarrow> grant_effect \<Rightarrow> bool" where
  "named_grant d r e \<longleftrightarrow> (\<exists>g\<in>set (rd_grants d).
     eg_subject g = rq_subject r \<and> eg_capability g = rq_capability r \<and> eg_effect g = e)"

lemma explicit_grant_eq:
  "decider_explicit_grant d (rq_subject r) (rq_capability r) =
     (if named_grant d r Deny then Some Deny else if named_grant d r Allow then Some Allow else None)"
proof -
  have "(\<exists>g\<in>set (rd_grants d). eg_subject g = rq_subject r \<and> eg_capability g = rq_capability r) \<longleftrightarrow>
      named_grant d r Deny \<or> named_grant d r Allow"
  proof -
    have "e = Deny \<or> e = Allow" for e by (cases e) simp_all
    then show ?thesis unfolding named_grant_def by blast
  qed
  then show ?thesis
    unfolding decider_explicit_grant_def scan_grants_eq named_grant_def [symmetric] by auto
qed

lemma min_by_key_None: "min_by_key f xs = None \<longleftrightarrow> xs = []"
  by (cases xs) (auto split: option.splits)

lemma min_by_key_Some:
  "min_by_key f xs = Some x \<Longrightarrow> x \<in> set xs \<and> (\<forall>y\<in>set xs. f x \<le> f y)"
  by (induction xs arbitrary: x) (fastforce split: option.splits if_splits simp: min_by_key_None)+

definition policy_satisfied ::
  "(edge set \<Rightarrow> edge list) \<Rightarrow> rbac_decider \<Rightarrow> rbac_request \<Rightarrow> u8 \<Rightarrow> policy_event \<Rightarrow> bool" where
  "policy_satisfied iter d r depth p \<longleftrightarrow> p \<in> set (rd_policies d) \<and> pe_capability p = rq_capability r
     \<and> target_applies iter d (pe_target p) r \<and> pe_depth_threshold p \<le> depth"

lemma most_specific_None:
  "most_specific_satisfied_policy iter d r depth = None \<longleftrightarrow> (\<nexists>p. policy_satisfied iter d r depth p)"
  by (auto simp: most_specific_satisfied_policy_def min_by_key_None policy_satisfied_def filter_empty_conv)

lemma most_specific_Some:
  "most_specific_satisfied_policy iter d r depth = Some p \<Longrightarrow> policy_satisfied iter d r depth p
     \<and> (\<forall>q. policy_satisfied iter d r depth q \<longrightarrow> specificity (pe_target p) \<le> specificity (pe_target q))"
  unfolding most_specific_satisfied_policy_def policy_satisfied_def
  by (drule min_by_key_Some) auto

text \<open>
  The rule the documentation gives for the third rung: some policy that applies to the request is
  met at the budget, and no policy that applies is more specific. Ties are resolved in favour of a
  policy that is met.
\<close>

definition policy_applies ::
  "(edge set \<Rightarrow> edge list) \<Rightarrow> rbac_decider \<Rightarrow> rbac_request \<Rightarrow> policy_event \<Rightarrow> bool" where
  "policy_applies iter d r p \<longleftrightarrow> p \<in> set (rd_policies d) \<and> pe_capability p = rq_capability r
     \<and> target_applies iter d (pe_target p) r"

definition most_specific_met ::
  "(edge set \<Rightarrow> edge list) \<Rightarrow> rbac_decider \<Rightarrow> rbac_request \<Rightarrow> u8 \<Rightarrow> bool" where
  "most_specific_met iter d r b \<longleftrightarrow>
     (\<exists>p. policy_applies iter d r p \<and> pe_depth_threshold p \<le> b
        \<and> (\<forall>q. policy_applies iter d r q \<longrightarrow> specificity (pe_target p) \<le> specificity (pe_target q)))"

text \<open>
  Policies that only loosen: of two that apply, the more specific one asks for no more depth. The
  shipped defaults with overrides for a node or a group that grant more are of this form.
\<close>

definition overrides_loosen :: "(edge set \<Rightarrow> edge list) \<Rightarrow> rbac_decider \<Rightarrow> rbac_request \<Rightarrow> bool" where
  "overrides_loosen iter d r \<longleftrightarrow>
     (\<forall>p q. policy_applies iter d r p \<and> policy_applies iter d r q
        \<and> specificity (pe_target p) < specificity (pe_target q) \<longrightarrow> pe_depth_threshold p \<le> pe_depth_threshold q)"

lemma policy_satisfied_applies:
  "policy_satisfied iter d r b p \<longleftrightarrow> policy_applies iter d r p \<and> pe_depth_threshold p \<le> b"
  by (auto simp: policy_satisfied_def policy_applies_def)

lemma most_specific_met_satisfied:
  assumes "most_specific_met iter d r b"
  shows "\<exists>p. policy_satisfied iter d r b p"
  using assms by (auto simp: most_specific_met_def policy_satisfied_applies)

lemma satisfied_most_specific_met:
  assumes "overrides_loosen iter d r" "policy_satisfied iter d r b q"
  shows "most_specific_met iter d r b"
proof -
  let ?A = "Collect (policy_applies iter d r)" and ?f = "\<lambda>p. specificity (pe_target p)"
  have fin: "finite ?A"
    by (rule finite_subset [of _ "set (rd_policies d)"]) (auto simp: policy_applies_def)
  have q: "q \<in> ?A" "pe_depth_threshold q \<le> b" using assms(2) by (simp_all add: policy_satisfied_applies)
  have "Min (?f ` ?A) \<in> ?f ` ?A" using fin q(1) by (intro Min_in) auto
  then obtain p where p: "p \<in> ?A" "?f p = Min (?f ` ?A)" by auto
  have least: "?f p \<le> ?f x" if "policy_applies iter d r x" for x
    using fin that by (simp add: p(2))
  show ?thesis
  proof (cases "?f p = ?f q")
    case True
    then show ?thesis using q least by (auto simp: most_specific_met_def)
  next
    case False
    then have "?f p < ?f q" using least [of q] q(1) by simp
    then have "pe_depth_threshold p \<le> b"
      using assms(1) p(1) q order_trans unfolding overrides_loosen_def by blast
    then show ?thesis using p(1) least by (auto simp: most_specific_met_def)
  qed
qed

text \<open>The budget of the depth default, as the budgets of delegation chains from the owner.\<close>

definition chain_budget :: "wot_authority \<Rightarrow> node_id \<Rightarrow> u8 \<Rightarrow> node_id \<Rightarrow> u8 \<Rightarrow> bool" where
  "chain_budget w own n subject b \<longleftrightarrow> own \<notin> wa_revoked_keys w \<and> subject \<notin> wa_revoked_keys w
     \<and> (\<exists>k. delegated (live_edges w) own n k subject b)"

lemma depth_default_iff:
  assumes "hash_iter iter" and "rd_authority d = foldl wot_exec (wot_new own n) xs"
  shows "satisfies_depth_default iter d r \<longleftrightarrow>
    (\<exists>b p. chain_budget (rd_authority d) own n (rq_subject r) b \<and> policy_satisfied iter d r b p)"
proof -
  let ?w = "rd_authority d"
  have inv: "wot_inv ?w" "wa_owner ?w = own" "wa_max_depth ?w = n"
    using assms(2) wot_inv_run [OF wot_inv_new] by (auto simp: wot_new_def)
  have mono: "policy_satisfied iter d r b' p" if "policy_satisfied iter d r b p" "b \<le> b'" for b b' p
    using that by (auto simp: policy_satisfied_def)
  show ?thesis
  proof (cases "own \<notin> wa_revoked_keys ?w \<and> rq_subject r \<notin> wa_revoked_keys ?w")
    case False
    then show ?thesis
      using reachable_depth_revoked [of ?w "rq_subject r" iter] inv(2)
      by (auto simp: satisfies_depth_default_def chain_budget_def)
  next
    case True
    then have best: "best_budget (live_edges ?w) own n (rq_subject r) (reachable_depth iter ?w (rq_subject r))"
      using reachable_depth_best [OF assms(1) inv(1), of "rq_subject r"] inv by simp
    then show ?thesis
      using True mono
      by (cases "reachable_depth iter ?w (rq_subject r)")
        (auto simp: best_budget_def satisfies_depth_default_def most_specific_None chain_budget_def, blast+)
  qed
qed

lemma reachable_chain:
  assumes "hash_iter iter" and "rd_authority d = foldl wot_exec (wot_new own n) xs"
    and "reachable_depth iter (rd_authority d) subject = Some b"
  shows "chain_budget (rd_authority d) own n subject b"
proof -
  let ?w = "rd_authority d"
  have inv: "wot_inv ?w" "wa_owner ?w = own" "wa_max_depth ?w = n"
    using assms(2) wot_inv_run [OF wot_inv_new] by (auto simp: wot_new_def)
  have live: "own \<notin> wa_revoked_keys ?w \<and> subject \<notin> wa_revoked_keys ?w"
    using reachable_depth_revoked [of ?w subject iter] inv(2) assms(3) by auto
  then have "best_budget (live_edges ?w) own n subject (Some b)"
    using reachable_depth_best [OF assms(1) inv(1), of subject] inv assms(3) by simp
  then show ?thesis using live by (auto simp: chain_budget_def best_budget_def)
qed

lemma explain_names_policy:
  assumes "hash_iter iter" and "rd_authority d = foldl wot_exec (wot_new own n) xs"
    and "explain iter d r = WotDepthDefault b t"
  shows "chain_budget (rd_authority d) own n (rq_subject r) b
    \<and> (\<exists>p. policy_satisfied iter d r b p \<and> pe_depth_threshold p = t
         \<and> (\<forall>q. policy_satisfied iter d r b q \<longrightarrow> specificity (pe_target p) \<le> specificity (pe_target q)))"
proof -
  obtain p where "reachable_depth iter (rd_authority d) (rq_subject r) = Some b"
    "most_specific_satisfied_policy iter d r b = Some p" "pe_depth_threshold p = t"
    using assms(3) by (auto simp: explain_def split: option.splits grant_effect.splits if_splits)
  then show ?thesis using most_specific_Some reachable_chain [OF assms(1,2)] by blast
qed

text \<open>
  \<^bold>\<open>C17.\<close> The precedence lattice, for every authority reached by its own operations. A grant
  that denies the request denies it. Otherwise a grant that allows it allows it, exactly if the
  step-up factor is met. With no grant, the request is denied unless the step-up factor is met
  and some policy for its capability that applies is met by the budget of a delegation chain from
  the owner over unrevoked edges with both keys unrevoked; and it is allowed if, with the factor,
  the most specific policy that applies is met by such a budget. Where a more specific policy
  never asks for more depth than a less specific one, this is exact: the depth default is then the
  documented rule. The prediction equals the decision, and the explanation names an allowing rung
  exactly when the decision allows; where that is the depth default, it gives the budget of such a
  chain and the threshold of a policy met by it, than which no other policy met is more specific.
\<close>

theorem decide_lattice:
  assumes "hash_iter iter" and "rd_authority d = foldl wot_exec (wot_new own n) xs"
  shows "(named_grant d r Deny \<longrightarrow> decide iter d r = DecisionDeny \<and> explain iter d r = ExplicitDeny)
    \<and> (\<not> named_grant d r Deny \<and> named_grant d r Allow \<longrightarrow>
        (decide iter d r = DecisionAllow \<longleftrightarrow> satisfies_step_up d r))
    \<and> (\<not> named_grant d r Deny \<and> \<not> named_grant d r Allow \<longrightarrow>
        (decide iter d r = DecisionAllow \<longrightarrow> satisfies_step_up d r \<and>
           (\<exists>b p. chain_budget (rd_authority d) own n (rq_subject r) b
              \<and> policy_applies iter d r p \<and> pe_depth_threshold p \<le> b))
        \<and> (satisfies_step_up d r \<and>
           (\<exists>b. chain_budget (rd_authority d) own n (rq_subject r) b \<and> most_specific_met iter d r b) \<longrightarrow>
           decide iter d r = DecisionAllow)
        \<and> (overrides_loosen iter d r \<longrightarrow>
           (decide iter d r = DecisionAllow \<longleftrightarrow> satisfies_step_up d r \<and>
              (\<exists>b. chain_budget (rd_authority d) own n (rq_subject r) b \<and> most_specific_met iter d r b))))
    \<and> predict iter d r = decide iter d r
    \<and> (decide iter d r = DecisionAllow \<longleftrightarrow>
        explain iter d r = ExplicitAllow \<or> (\<exists>b t. explain iter d r = WotDepthDefault b t))
    \<and> (explain iter d r = WotDepthDefault b t \<longrightarrow>
        chain_budget (rd_authority d) own n (rq_subject r) b
        \<and> (\<exists>p. policy_applies iter d r p \<and> pe_depth_threshold p = t \<and> t \<le> b
             \<and> (\<forall>q. policy_applies iter d r q \<and> pe_depth_threshold q \<le> b \<longrightarrow>
                  specificity (pe_target p) \<le> specificity (pe_target q))))"
proof -
  let ?c = "chain_budget (rd_authority d) own n (rq_subject r)"
  have rung3: "decide iter d r = DecisionAllow \<longleftrightarrow>
      satisfies_step_up d r \<and> (\<exists>b p. ?c b \<and> policy_satisfied iter d r b p)"
    if "\<not> named_grant d r Deny" "\<not> named_grant d r Allow"
    using that by (auto simp: decide_def explicit_grant_eq depth_default_iff [OF assms])
  have sound: "decide iter d r = DecisionAllow \<longrightarrow> satisfies_step_up d r \<and>
      (\<exists>b p. ?c b \<and> policy_applies iter d r p \<and> pe_depth_threshold p \<le> b)"
    if "\<not> named_grant d r Deny" "\<not> named_grant d r Allow"
    using rung3 [OF that] by (simp add: policy_satisfied_applies)
  have complete: "satisfies_step_up d r \<and> (\<exists>b. ?c b \<and> most_specific_met iter d r b) \<longrightarrow> decide iter d r = DecisionAllow"
    if "\<not> named_grant d r Deny" "\<not> named_grant d r Allow"
    using rung3 [OF that] most_specific_met_satisfied by blast
  have loosen: "overrides_loosen iter d r \<longrightarrow> (decide iter d r = DecisionAllow \<longleftrightarrow>
      satisfies_step_up d r \<and> (\<exists>b. ?c b \<and> most_specific_met iter d r b))"
    if "\<not> named_grant d r Deny" "\<not> named_grant d r Allow"
    using rung3 [OF that] complete [OF that] satisfied_most_specific_met by blast
  have "decide iter d r = DecisionAllow \<longleftrightarrow>
        explain iter d r = ExplicitAllow \<or> (\<exists>b t. explain iter d r = WotDepthDefault b t)"
    by (simp add: decide_def explain_def satisfies_depth_default_def split: option.split grant_effect.split)
  moreover have "named_grant d r Deny \<longrightarrow> decide iter d r = DecisionDeny \<and> explain iter d r = ExplicitDeny"
    "\<not> named_grant d r Deny \<and> named_grant d r Allow \<longrightarrow> (decide iter d r = DecisionAllow \<longleftrightarrow> satisfies_step_up d r)"
    by (simp_all add: decide_def explain_def explicit_grant_eq)
  moreover have "explain iter d r = WotDepthDefault b t \<longrightarrow> ?c b
      \<and> (\<exists>p. policy_applies iter d r p \<and> pe_depth_threshold p = t \<and> t \<le> b
           \<and> (\<forall>q. policy_applies iter d r q \<and> pe_depth_threshold q \<le> b \<longrightarrow>
                specificity (pe_target p) \<le> specificity (pe_target q)))"
    using explain_names_policy [OF assms, of r b t] unfolding policy_satisfied_applies by blast
  ultimately show ?thesis
    using sound complete loosen by (simp only: predict_def) blast
qed

text \<open>
  The key-export role. With the export policy attached, export is authorised exactly when
  a step-up proof is presented that is not dated in the future and at most 120 seconds old, no
  grant denies the export capability to the subject, and a grant or a satisfied depth policy for
  exactly that capability allows it.
\<close>

theorem key_export_needs_fresh_step_up:
  assumes "d' = with_step_up_policy key_export_step_up_policy d"
    and "r = at_time now (request_new subject cell_key_export_capability)"
  shows "authorize_key_export iter d' subject now step_up = DecisionAllow \<longleftrightarrow>
    (\<exists>a. step_up = Some a \<and> unat (su_verified_at_secs a) \<le> unat now
       \<and> unat now - unat (su_verified_at_secs a) \<le> 120)
    \<and> \<not> named_grant d r Deny \<and> (named_grant d r Allow \<or> satisfies_depth_default iter d r)"
proof -
  let ?r = "case step_up of Some a \<Rightarrow> with_step_up a r | None \<Rightarrow> r"
  have req: "authorize_key_export iter d' subject now step_up = decide iter d' ?r"
    using assms(2) by (simp add: authorize_key_export_def with_resource_class_def request_new_def at_time_def
        split: option.split)
  have grants: "named_grant d' ?r e \<longleftrightarrow> named_grant d r e" for e
    using assms(1) by (simp add: named_grant_def with_step_up_policy_def with_step_up_def split: option.split)
  have target: "target_applies iter d' t ?r \<longleftrightarrow> target_applies iter d t r" for t
    using assms(1)
    by (cases "(iter, d, t, r)" rule: target_applies.cases)
      (simp_all add: with_step_up_policy_def with_step_up_def split: option.split)
  have "most_specific_satisfied_policy iter d' ?r b = most_specific_satisfied_policy iter d r b" for b
    unfolding most_specific_satisfied_policy_def target
    using assms(1) by (simp add: with_step_up_policy_def with_step_up_def split: option.split)
  then have depth: "satisfies_depth_default iter d' ?r \<longleftrightarrow> satisfies_depth_default iter d r"
    using assms(1)
    by (simp add: satisfies_depth_default_def with_step_up_policy_def with_step_up_def split: option.split)
  have fresh: "satisfies_step_up d' ?r \<longleftrightarrow> (\<exists>a. step_up = Some a
       \<and> unat (su_verified_at_secs a) \<le> unat now \<and> unat now - unat (su_verified_at_secs a) \<le> 120)"
    using assms
    by (auto simp: satisfies_step_up_def requires_step_up_def with_step_up_policy_def with_step_up_def
        key_export_step_up_policy_def step_up_policy_new_def at_time_def request_new_def
        assertion_is_fresh_def key_export_step_up_max_age_secs_def word_le_nat_alt unat_sub
        split: option.split)
  show ?thesis
    unfolding req decide_def explicit_grant_eq grants depth fresh by auto
qed

section \<open>Witnesses\<close>

definition rbac_demo :: rbac_decider where
  "rbac_demo = decider_new (foldl wot_exec (wot_new ''owner'' 3) wot_demo_ops)
     [\<lparr>pe_target = TargetResourceClass AllClasses, pe_capability = ''read'', pe_depth_threshold = 3\<rparr>,
      \<lparr>pe_target = TargetNode ''bob'', pe_capability = ''read'', pe_depth_threshold = 1\<rparr>]
     [\<lparr>eg_subject = ''carol'', eg_capability = cell_key_export_capability, eg_effect = Allow\<rparr>]"

lemma rbac_demo_loosens: "overrides_loosen sorted_list_of_set rbac_demo r"
  by (auto simp: overrides_loosen_def policy_applies_def rbac_demo_def decider_new_def)

theorem decide_lattice_witness:
  "\<exists>b. chain_budget (rd_authority rbac_demo) ''owner'' 3 ''bob'' b
     \<and> most_specific_met sorted_list_of_set rbac_demo (request_new ''bob'' ''read'') b"
proof -
  let ?r = "request_new ''bob'' ''read''"
  have "decide sorted_list_of_set rbac_demo ?r = DecisionAllow" by code_simp
  moreover have "\<not> named_grant rbac_demo ?r Allow" "\<not> named_grant rbac_demo ?r Deny"
    by (simp_all add: named_grant_def rbac_demo_def decider_new_def request_new_def)
  moreover have "rd_authority rbac_demo = foldl wot_exec (wot_new ''owner'' 3) wot_demo_ops"
    by (simp add: rbac_demo_def decider_new_def)
  from decide_lattice [OF hash_iter_sorted this, of ?r] rbac_demo_loosens calculation
  have "\<exists>b. chain_budget (rd_authority rbac_demo) ''owner'' 3 (rq_subject ?r) b
      \<and> most_specific_met sorted_list_of_set rbac_demo ?r b" by blast
  then show ?thesis by (simp add: request_new_def)
qed

theorem key_export_needs_fresh_step_up_witness:
  "authorize_key_export sorted_list_of_set (with_step_up_policy key_export_step_up_policy rbac_demo) ''carol'' 500
      (Some \<lparr>su_verified_at_secs = 400, su_credential_id = []\<rparr>) = DecisionAllow
   \<and> authorize_key_export sorted_list_of_set (with_step_up_policy key_export_step_up_policy rbac_demo) ''carol'' 500
      (Some \<lparr>su_verified_at_secs = 379, su_credential_id = []\<rparr>) \<noteq> DecisionAllow"
proof -
  let ?r = "at_time 500 (request_new ''carol'' cell_key_export_capability)"
  have "named_grant rbac_demo ?r Allow \<and> \<not> named_grant rbac_demo ?r Deny"
    by (simp add: named_grant_def rbac_demo_def decider_new_def request_new_def at_time_def)
  then show ?thesis
    using key_export_needs_fresh_step_up [OF refl refl, of sorted_list_of_set rbac_demo "''carol''" 500]
    by simp
qed

section \<open>Where the code and its documentation part\<close>

text \<open>
  A more specific policy never tightens a decision: a node policy that the subject misses is
  ignored while the catch-all policy is met.
\<close>

theorem specific_policy_does_not_override:
  "decide sorted_list_of_set
     (decider_new (foldl wot_exec (wot_new ''owner'' 3) wot_demo_ops)
       [\<lparr>pe_target = TargetNode ''bob'', pe_capability = ''read'', pe_depth_threshold = 3\<rparr>,
        \<lparr>pe_target = TargetResourceClass AllClasses, pe_capability = ''read'', pe_depth_threshold = 0\<rparr>] [])
     (request_new ''bob'' ''read'') = DecisionAllow"
  by code_simp

text \<open>A subject whose grant was revoked is not authoritative, yet the depth default still allows it.\<close>

theorem revoked_grant_still_allowed:
  "decide sorted_list_of_set
     (decider_new (revoke_grant ''bob'' (foldl wot_exec (wot_new ''owner'' 3) wot_demo_ops))
       [\<lparr>pe_target = TargetResourceClass AllClasses, pe_capability = ''read'', pe_depth_threshold = 0\<rparr>] [])
     (request_new ''bob'' ''read'') = DecisionAllow
   \<and> \<not> is_authoritative sorted_list_of_set
       (revoke_grant ''bob'' (foldl wot_exec (wot_new ''owner'' 3) wot_demo_ops)) ''bob''"
  by (rule conjI) code_simp+

end
