(* ===== verification/RbacGrants.thy ===== *)
theory RbacGrants
  imports SqlViews CoFold Rbac
begin

text \<open>
  \<^verbatim>\<open>crates/pillar-rbac/src/document_sql_migration.rs\<close>: explicit grants kept as documents
  of the keyed store, read back through the view \<open>effective_grants\<close> and handed to the
  decider; revocation is admitted by the strict co-fold with the invariant \<open>UniqueOnce\<close>
  before the document is deleted.
\<close>

section \<open>Grant documents\<close>

definition grants_collection :: string where
  "grants_collection = ''rbac_grants''"

definition effective_grants_view :: string where
  "effective_grants_view = ''effective_grants''"

definition grant_field_subject :: string where
  "grant_field_subject = ''subject''"

definition grant_field_capability :: string where
  "grant_field_capability = ''capability''"

definition grant_field_effect :: string where
  "grant_field_effect = ''effect''"

lemmas grant_fields = grant_field_subject_def grant_field_capability_def grant_field_effect_def

definition grant_key :: "node_id \<Rightarrow> capability \<Rightarrow> string" where
  "grant_key subject capability = subject @ '':'' @ capability"

fun effect_bytes :: "grant_effect \<Rightarrow> bytes" where
  "effect_bytes Allow = as_bytes ''allow''"
| "effect_bytes Deny = as_bytes ''deny''"

definition effect_from_bytes :: "bytes \<Rightarrow> grant_effect option" where
  "effect_from_bytes b =
     (if b = as_bytes ''allow'' then Some Allow
      else if b = as_bytes ''deny'' then Some Deny else None)"

definition put_grant ::
  "encoder \<Rightarrow> sha256 \<Rightarrow> keyed_store \<Rightarrow> node_id \<Rightarrow> capability \<Rightarrow> grant_effect \<Rightarrow> hlc \<Rightarrow> keyed_store" where
  "put_grant enc sha s subject capability eff h =
     (let i = grant_key subject capability;
          s = snd (doc_put_field enc sha s grants_collection i grant_field_subject (Scalar (as_bytes subject)) h);
          s = snd (doc_put_field enc sha s grants_collection i grant_field_capability (Scalar (as_bytes capability)) h)
      in snd (doc_put_field enc sha s grants_collection i grant_field_effect (Scalar (effect_bytes eff)) h))"

text \<open>A refused admission returns before the document is touched.\<close>

definition revoke_grant_doc ::
  "encoder \<Rightarrow> sha256 \<Rightarrow> unique_once strict_cofold \<Rightarrow> keyed_store \<Rightarrow> node_id \<Rightarrow> capability \<Rightarrow> epoch \<Rightarrow> hlc
     \<Rightarrow> (cofold_error + unit) \<times> unique_once strict_cofold \<times> keyed_store" where
  "revoke_grant_doc enc sha cf s subject capability e h =
     (let i = grant_key subject capability in
      case cofold_try_admit unique_once_admit sha cf (as_bytes i) e (as_bytes ''revoke'') of
        (Inl err, cf') \<Rightarrow> (Inl err, cf', s)
      | (Inr _, cf') \<Rightarrow>
          (let s = snd (doc_delete_field enc sha s grants_collection i grant_field_subject h);
               s = snd (doc_delete_field enc sha s grants_collection i grant_field_capability h);
               s = snd (doc_delete_field enc sha s grants_collection i grant_field_effect h)
           in (Inr (), cf', s)))"

definition acquire_revoke_epoch ::
  "unique_once strict_cofold \<Rightarrow> node_id \<Rightarrow> capability \<Rightarrow> lease_register \<Rightarrow> node_id \<Rightarrow> epoch
     \<Rightarrow> bool \<times> unique_once strict_cofold \<times> lease_register" where
  "acquire_revoke_epoch cf subject capability lease candidate e =
     cofold_acquire cf (as_bytes (grant_key subject capability)) lease candidate e"

definition ensure_effective_grants_view ::
  "view_encoder \<Rightarrow> encoder \<Rightarrow> sha256 \<Rightarrow> keyed_store \<Rightarrow> hlc \<Rightarrow> keyed_store" where
  "ensure_effective_grants_view venc enc sha s h =
     create_view venc enc sha s effective_grants_view (view_over grants_collection) h"

definition grant_field_str :: "(string, kvalue) btree_map \<Rightarrow> string \<Rightarrow> string option" where
  "grant_field_str fm f = (case btree_get fm f of Some (Scalar b) \<Rightarrow> from_utf8 b | _ \<Rightarrow> None)"

definition row_grant :: "(string, kvalue) btree_map \<Rightarrow> explicit_grant option" where
  "row_grant fm =
     (case grant_field_str fm grant_field_subject of
        None \<Rightarrow> None
      | Some subject \<Rightarrow>
          (case grant_field_str fm grant_field_capability of
             None \<Rightarrow> None
           | Some capability \<Rightarrow>
               (case btree_get fm grant_field_effect of
                  Some (Scalar b) \<Rightarrow>
                    map_option (\<lambda>eff. \<lparr>eg_subject = subject, eg_capability = capability, eg_effect = eff\<rparr>)
                      (effect_from_bytes b)
                | _ \<Rightarrow> None)))"

definition effective_grants :: "view_decoder \<Rightarrow> decoder \<Rightarrow> keyed_store \<Rightarrow> explicit_grant list" where
  "effective_grants vdec dec s =
     (case materialize_view vdec dec s effective_grants_view of
        None \<Rightarrow> []
      | Some rows \<Rightarrow> List.map_filter (\<lambda>row. row_grant (row_fields row)) rows)"

section \<open>Reading grants through the view\<close>

text \<open>The grant a document stands for, from its fields alone.\<close>

definition doc_grant :: "decoder \<Rightarrow> keyed_store \<Rightarrow> string \<Rightarrow> explicit_grant option" where
  "doc_grant dec s i = row_grant (row_fields (project_row dec s grants_collection None i))"

lemma get_undotted_field:
  assumes "CHR ''.'' \<notin> set f"
  shows "btree_get (row_fields (project_row dec s c None i)) f = doc_get_field dec s c i f"
proof -
  have "split_once_dot f = None" using assms by (simp add: split_once_dot_def)
  then show ?thesis
    by (auto simp: get_row_fields doc_query_def doc_get_field_def get_path_def split: option.split)
qed

lemma doc_grant_cong:
  assumes "\<And>f. f \<in> {grant_field_subject, grant_field_capability, grant_field_effect} \<Longrightarrow>
    doc_get_field dec s grants_collection i f = doc_get_field dec t grants_collection i f"
  shows "doc_grant dec s i = doc_grant dec t i"
proof -
  have "btree_get (row_fields (project_row dec s grants_collection None i)) f =
      btree_get (row_fields (project_row dec t grants_collection None i)) f"
    if "f \<in> {grant_field_subject, grant_field_capability, grant_field_effect}" for f
    using assms [OF that] that by (auto simp: get_undotted_field grant_fields)
  note same = this [of grant_field_subject] this [of grant_field_capability] this [of grant_field_effect]
  show ?thesis
    unfolding doc_grant_def row_grant_def grant_field_str_def by (simp only: same insert_iff simp_thms)
qed

lemma doc_grant_fields:
  assumes "doc_get_field dec s grants_collection i grant_field_subject = Some (Scalar (as_bytes subject))"
    and "doc_get_field dec s grants_collection i grant_field_capability = Some (Scalar (as_bytes capability))"
    and "doc_get_field dec s grants_collection i grant_field_effect = Some (Scalar (effect_bytes eff))"
    and "utf8_valid (as_bytes subject)" "utf8_valid (as_bytes capability)"
  shows "doc_grant dec s i = Some \<lparr>eg_subject = subject, eg_capability = capability, eg_effect = eff\<rparr>"
proof -
  have "effect_from_bytes (effect_bytes eff) = Some eff"
    by (cases eff) (simp_all add: effect_from_bytes_def as_bytes_inject)
  then show ?thesis
    using assms by (simp add: doc_grant_def row_grant_def grant_field_str_def get_undotted_field grant_fields
        from_utf8_def)
qed

lemma doc_grant_None:
  "doc_get_field dec s grants_collection i grant_field_effect = None \<Longrightarrow> doc_grant dec s i = None"
  by (simp add: doc_grant_def row_grant_def get_undotted_field grant_fields split: option.split)

lemma set_effective_grants:
  assumes "view_def vdec dec s effective_grants_view = Some (view_over grants_collection)"
  shows "g \<in> set (effective_grants vdec dec s) \<longleftrightarrow> (\<exists>i. doc_grant dec s i = Some g)"
proof -
  have "effective_grants vdec dec s =
      List.map_filter (doc_grant dec s) (doc_ids dec s grants_collection)"
    using assms
    by (simp add: effective_grants_def materialize_view_def materialize_def view_over_def
        project_collection_def passes_filter_def List.map_filter_def filter_map comp_def doc_grant_def)
  moreover have "i \<in> set (doc_ids dec s grants_collection)" if "doc_grant dec s i = Some g" for i
  proof -
    have "doc_get_field dec s grants_collection i grant_field_effect \<noteq> None"
      using that doc_grant_None by fastforce
    then show ?thesis by (auto simp: docs.ids_exact)
  qed
  ultimately show ?thesis by (force simp: List.map_filter_def)
qed

section \<open>Writes of a grant document\<close>

abbreviation grant_puts :: "node_id \<Rightarrow> capability \<Rightarrow> grant_effect \<Rightarrow> hlc \<Rightarrow> keyed_op list" where
  "grant_puts subject capability eff h \<equiv>
     [put_op grants_collection (grant_key subject capability) grant_field_subject (Scalar (as_bytes subject)) h,
      put_op grants_collection (grant_key subject capability) grant_field_capability (Scalar (as_bytes capability)) h,
      put_op grants_collection (grant_key subject capability) grant_field_effect (Scalar (effect_bytes eff)) h]"

abbreviation grant_tombs :: "node_id \<Rightarrow> capability \<Rightarrow> hlc \<Rightarrow> keyed_op list" where
  "grant_tombs subject capability h \<equiv>
     [tomb_op grants_collection (grant_key subject capability) grant_field_subject h,
      tomb_op grants_collection (grant_key subject capability) grant_field_capability h,
      tomb_op grants_collection (grant_key subject capability) grant_field_effect h]"

lemma put_grant_writes:
  "put_grant enc sha s subject capability eff h =
     doc_writes enc sha s (grant_puts subject capability eff h)"
  by (simp add: put_grant_def doc_put_field_def Let_def)

lemma revoke_grant_doc_writes:
  "revoke_grant_doc enc sha cf s subject capability e h =
     (case cofold_try_admit unique_once_admit sha cf (as_bytes (grant_key subject capability)) e
         (as_bytes ''revoke'') of
        (Inl err, cf') \<Rightarrow> (Inl err, cf', s)
      | (Inr _, cf') \<Rightarrow> (Inr (), cf', doc_writes enc sha s (grant_tombs subject capability h)))"
  by (simp add: revoke_grant_doc_def doc_delete_field_def Let_def split: prod.split sum.split)

text \<open>A write of grant fields under one document leaves the catalog and the other documents.\<close>

lemma grant_writes_frame:
  assumes "fresh_writes enc dec sha s ks"
    and "list_all (\<lambda>k. ko_collection k = grants_collection \<and> ko_id k = i) ks"
  shows "view_def vdec dec (doc_writes enc sha s ks) n = view_def vdec dec s n"
    and "j \<noteq> i \<Longrightarrow> doc_grant dec (doc_writes enc sha s ks) j = doc_grant dec s j"
proof -
  have other: "doc_get_field dec (doc_writes enc sha s ks) c j f = doc_get_field dec s c j f"
    if "c \<noteq> grants_collection \<or> j \<noteq> i" for c j f
  proof -
    have "find (\<lambda>k. op_target k = (c, j, f)) ks = None"
      using that assms(2) by (auto simp: find_None_iff op_target_def list_all_iff)
    then show ?thesis by (simp add: doc_get_writes [OF assms(1)])
  qed
  show "view_def vdec dec (doc_writes enc sha s ks) n = view_def vdec dec s n"
    by (simp add: view_def_def other catalog_collection_def grants_collection_def)
  show "doc_grant dec (doc_writes enc sha s ks) j = doc_grant dec s j" if "j \<noteq> i"
    using that by (intro doc_grant_cong other) simp
qed

abbreviation other_grants :: "decoder \<Rightarrow> keyed_store \<Rightarrow> string \<Rightarrow> explicit_grant set" where
  "other_grants dec s i \<equiv> {g. \<exists>j. j \<noteq> i \<and> doc_grant dec s j = Some g}"

lemma effective_after_writes:
  assumes "view_def vdec dec s effective_grants_view = Some (view_over grants_collection)"
    and "fresh_writes enc dec sha s ks"
    and "list_all (\<lambda>k. ko_collection k = grants_collection \<and> ko_id k = i) ks"
  shows "set (effective_grants vdec dec (doc_writes enc sha s ks)) =
    set_option (doc_grant dec (doc_writes enc sha s ks) i) \<union> other_grants dec s i"
proof -
  note frame = grant_writes_frame [OF assms(2,3)]
  have "g \<in> set (effective_grants vdec dec (doc_writes enc sha s ks)) \<longleftrightarrow>
      (\<exists>j. doc_grant dec (doc_writes enc sha s ks) j = Some g)" for g
    by (rule set_effective_grants) (use frame(1) assms(1) in simp)
  then show ?thesis using frame(2) by (auto simp: set_eq_iff elem_set) metis+
qed

lemma put_grant_effective:
  assumes view: "view_def vdec dec s effective_grants_view = Some (view_over grants_collection)"
    and fresh: "fresh_writes enc dec sha s (grant_puts subject capability eff h)"
    and utf8: "utf8_valid (as_bytes subject)" "utf8_valid (as_bytes capability)"
  shows "set (effective_grants vdec dec (put_grant enc sha s subject capability eff h)) =
    insert \<lparr>eg_subject = subject, eg_capability = capability, eg_effect = eff\<rparr>
      (other_grants dec s (grant_key subject capability))"
proof -
  have "doc_grant dec (doc_writes enc sha s (grant_puts subject capability eff h))
      (grant_key subject capability) = Some \<lparr>eg_subject = subject, eg_capability = capability, eg_effect = eff\<rparr>"
    by (rule doc_grant_fields; (unfold doc_get_writes [OF fresh])?)
      (simp_all add: op_target_def grant_fields written_value_def utf8)
  then show ?thesis
    by (simp add: put_grant_writes effective_after_writes [OF view fresh] del: doc_writes_simps)
qed

lemma revoke_effective:
  assumes view: "view_def vdec dec s effective_grants_view = Some (view_over grants_collection)"
    and fresh: "fresh_writes enc dec sha s (grant_tombs subject capability h)"
  shows "set (effective_grants vdec dec (doc_writes enc sha s (grant_tombs subject capability h))) =
    other_grants dec s (grant_key subject capability)"
proof -
  have "doc_grant dec (doc_writes enc sha s (grant_tombs subject capability h)) (grant_key subject capability) = None"
    by (rule doc_grant_None; unfold doc_get_writes [OF fresh])
      (simp add: op_target_def grant_fields written_value_def)
  then show ?thesis by (simp add: effective_after_writes [OF view fresh] del: doc_writes_simps)
qed

lemma unique_once_admit_Inr:
  "unique_once_admit u key p = Inr u' \<Longrightarrow> unique_once_contains u' key \<and> \<not> unique_once_contains u key"
  by (auto simp: unique_once_admit_def unique_once_contains_def split: if_splits)

text \<open>A key whose revocation was admitted is refused from then on, with the store as it was.\<close>

lemma second_revoke_refused:
  assumes "stream_policy (cf_stream cf) = Some Strict"
    and "unique_once_contains (cf_invariant cf) (as_bytes (grant_key subject capability))"
  shows "\<exists>err. revoke_grant_doc enc sha cf s subject capability e h = (Inl err, cf, s)"
  using assms(2) unfolding revoke_grant_doc_writes try_admit_strict [OF assms(1)]
  by (simp add: unique_once_admit_def unique_once_contains_def)

section \<open>Properties\<close>

text \<open>
  A grant document reaches the decider: once the view is defined, a grant put
  with the newest stamp of its document is among the effective grants, beside exactly the grants
  of the other documents, and a decider built on them denies every request of the subject for a
  capability denied so, whatever its policies, its web of trust and its step-up factor say.
\<close>

theorem grant_document_decides:
  assumes "view_def vdec dec s effective_grants_view = Some (view_over grants_collection)"
    and "fresh_writes enc dec sha s (grant_puts subject capability eff h)"
    and "utf8_valid (as_bytes subject)" "utf8_valid (as_bytes capability)"
    and "s' = put_grant enc sha s subject capability eff h"
    and "rq_subject r = subject" "rq_capability r = capability"
  shows "set (effective_grants vdec dec s') =
      insert \<lparr>eg_subject = subject, eg_capability = capability, eg_effect = eff\<rparr>
        {g. \<exists>j. j \<noteq> grant_key subject capability \<and> doc_grant dec s j = Some g}
    \<and> (eff = Deny \<longrightarrow>
        decide iter (with_step_up_policy p (decider_new authority policies (effective_grants vdec dec s'))) r
          = DecisionDeny)"
proof
  show eff: "set (effective_grants vdec dec s') =
      insert \<lparr>eg_subject = subject, eg_capability = capability, eg_effect = eff\<rparr>
        {g. \<exists>j. j \<noteq> grant_key subject capability \<and> doc_grant dec s j = Some g}"
    unfolding assms(5) by (rule put_grant_effective [OF assms(1-4)])
  let ?d = "with_step_up_policy p (decider_new authority policies (effective_grants vdec dec s'))"
  show "eff = Deny \<longrightarrow> decide iter ?d r = DecisionDeny"
  proof
    assume "eff = Deny"
    then have "named_grant ?d r Deny"
      using eff assms(6,7) by (force simp: named_grant_def with_step_up_policy_def decider_new_def)
    then show "decide iter ?d r = DecisionDeny" by (simp add: decide_def explicit_grant_eq)
  qed
qed

definition demo_grants :: "keyed_op list" where
  "demo_grants =
     put_op catalog_collection effective_grants_view catalog_def_field (Scalar [5]) (hlc_new 1 0 ''n'')
     # grant_puts ''a'' ''r'' Deny (hlc_new 2 0 ''n'') @ grant_tombs ''a'' ''r'' (hlc_new 3 0 ''n'')"

definition demo_vdec :: view_decoder where
  "demo_vdec b = (if b = [5] then Some (view_over grants_collection) else None)"

lemma demo_grants_view:
  "view_def demo_vdec (table_dec demo_grants) (table_store demo_grants [hd demo_grants]) effective_grants_view
     = Some (view_over grants_collection)"
  by code_simp

lemma demo_grants_stamps:
  "stamps_distinct (table_dec demo_grants) (table_store demo_grants [hd demo_grants])"
  by (rule stamps_distinct_table) (auto simp: demo_grants_def)

lemma demo_grants_fresh:
  "fresh_writes (table_enc demo_grants) (table_dec demo_grants) demo_sha
     (table_store demo_grants [hd demo_grants]) (grant_puts ''a'' ''r'' Deny (hlc_new 2 0 ''n''))"
proof (rule fresh_writes_table)
  show "list_all (newest_write (table_dec demo_grants) (table_store demo_grants [hd demo_grants]))
      (grant_puts ''a'' ''r'' Deny (hlc_new 2 0 ''n''))" by code_simp
  show "stamps_distinct (table_dec demo_grants) (table_store demo_grants [hd demo_grants])"
    by (rule demo_grants_stamps)
qed (auto simp: demo_grants_def op_target_def grant_fields)

theorem grant_document_decides_witness:
  "decide sorted_list_of_set (with_step_up_policy key_export_step_up_policy
     (decider_new (wot_new ''a'' 3) [] (effective_grants demo_vdec (table_dec demo_grants)
       (put_grant (table_enc demo_grants) demo_sha (table_store demo_grants [hd demo_grants]) ''a'' ''r'' Deny
         (hlc_new 2 0 ''n''))))) (request_new ''a'' ''r'') = DecisionDeny"
  using grant_document_decides [OF demo_grants_view demo_grants_fresh _ _ refl, of "request_new ''a'' ''r''"]
  by (simp add: request_new_def as_bytes_def)

text \<open>
  \<^bold>\<open>C22.\<close> Revocation is fenced and final for its key: on a reducer with the strict policy, a
  revocation is refused exactly when the caller's epoch is not the recorded one or the key was
  revoked before, and then neither the reducer nor the store changes; an admitted one, stamped
  newest, leaves exactly the grants of the other documents, and no later revocation of the key is
  admitted, whatever epoch is acquired.
\<close>

theorem revocation_fenced:
  assumes strict: "stream_policy (cf_stream cf) = Some Strict"
    and view: "view_def vdec dec s effective_grants_view = Some (view_over grants_collection)"
    and fresh: "fresh_writes enc dec sha s (grant_tombs subject capability h)"
    and key: "key = as_bytes (grant_key subject capability)"
    and run: "revoke_grant_doc enc sha cf s subject capability e h = (res, cf', s')"
  shows "(res = Inr () \<longleftrightarrow>
        cofold_held_epoch cf key = Some e \<and> \<not> unique_once_contains (cf_invariant cf) key)
    \<and> (res \<noteq> Inr () \<longrightarrow> cf' = cf \<and> s' = s)
    \<and> (res = Inr () \<longrightarrow>
        set (effective_grants vdec dec s') =
          {g. \<exists>j. j \<noteq> grant_key subject capability \<and> doc_grant dec s j = Some g}
        \<and> (\<exists>err. revoke_grant_doc enc sha (fst (snd (cofold_acquire cf' key lease candidate e'))) s'
              subject capability e' h' = (Inl err, fst (snd (cofold_acquire cf' key lease candidate e')), s')))"
proof (cases "cofold_held_epoch cf key = Some e \<and> \<not> unique_once_contains (cf_invariant cf) key")
  case True
  then have inr: "res = Inr ()" and s': "s' = doc_writes enc sha s (grant_tombs subject capability h)"
    and cf': "unique_once_contains (cf_invariant cf') key" "stream_policy (cf_stream cf') = Some Strict"
    using run strict unfolding revoke_grant_doc_writes try_admit_strict [OF strict]
    by (auto simp: cofold_held_epoch_def unique_once_admit_def unique_once_contains_def
        simp flip: key simp del: doc_writes_simps)
  let ?acq = "fst (snd (cofold_acquire cf' key lease candidate e'))"
  have "unique_once_contains (cf_invariant ?acq) key" "stream_policy (cf_stream ?acq) = Some Strict"
    using cf' by (simp_all add: cofold_acquire_def split: prod.split)
  then have "\<exists>err. revoke_grant_doc enc sha ?acq s' subject capability e' h' = (Inl err, ?acq, s')"
    unfolding key by (intro second_revoke_refused)
  then show ?thesis using True inr revoke_effective [OF view fresh] s' by blast
next
  case False
  then have "res \<noteq> Inr ()" "cf' = cf" "s' = s"
    using run unfolding revoke_grant_doc_writes try_admit_strict [OF strict]
    by (auto simp: cofold_held_epoch_def unique_once_admit_def unique_once_contains_def
        simp flip: key split: if_splits)
  then show ?thesis using False by blast
qed

definition demo_revoker :: "unique_once strict_cofold" where
  "demo_revoker = (cofold_new unique_once_new)
     \<lparr>cf_held := btree_insert (as_bytes (grant_key ''a'' ''r'')) 1 btree_new\<rparr>"

lemma demo_tombs_fresh:
  "fresh_writes (table_enc demo_grants) (table_dec demo_grants) demo_sha
     (table_store demo_grants [hd demo_grants]) (grant_tombs ''a'' ''r'' (hlc_new 3 0 ''n''))"
proof (rule fresh_writes_table)
  show "list_all (newest_write (table_dec demo_grants) (table_store demo_grants [hd demo_grants]))
      (grant_tombs ''a'' ''r'' (hlc_new 3 0 ''n''))" by code_simp
  show "stamps_distinct (table_dec demo_grants) (table_store demo_grants [hd demo_grants])"
    by (rule demo_grants_stamps)
qed (auto simp: demo_grants_def op_target_def grant_fields)

theorem revocation_fenced_witness:
  "fst (revoke_grant_doc (table_enc demo_grants) demo_sha demo_revoker
     (table_store demo_grants [hd demo_grants]) ''a'' ''r'' 1 (hlc_new 3 0 ''n'')) = Inr ()"
proof -
  have strict: "stream_policy (cf_stream demo_revoker) = Some Strict"
    and held: "cofold_held_epoch demo_revoker (as_bytes (grant_key ''a'' ''r'')) = Some 1"
      "\<not> unique_once_contains (cf_invariant demo_revoker) (as_bytes (grant_key ''a'' ''r''))"
    by (simp_all add: demo_revoker_def cofold_new_def stream_with_policy_def cofold_held_epoch_def
        unique_once_contains_def unique_once_new_def)
  obtain res cf' s' where run: "revoke_grant_doc (table_enc demo_grants) demo_sha demo_revoker
      (table_store demo_grants [hd demo_grants]) ''a'' ''r'' 1 (hlc_new 3 0 ''n'') = (res, cf', s')"
    by (metis prod_cases3)
  show ?thesis
    using revocation_fenced [OF strict demo_grants_view demo_tombs_fresh refl run] held run by simp
qed

text \<open>
  The fence outlives the grant: a grant put again after its revocation, with a later stamp, is
  effective, and every attempt to revoke it is refused.
\<close>

lemma regrant_cannot_be_revoked:
  assumes "stream_policy (cf_stream cf) = Some Strict"
    and "unique_once_contains (cf_invariant cf) (as_bytes (grant_key subject capability))"
    and "view_def vdec dec s effective_grants_view = Some (view_over grants_collection)"
    and "fresh_writes enc dec sha s (grant_puts subject capability Allow h)"
    and "utf8_valid (as_bytes subject)" "utf8_valid (as_bytes capability)"
    and "s' = put_grant enc sha s subject capability Allow h"
  shows "\<lparr>eg_subject = subject, eg_capability = capability, eg_effect = Allow\<rparr> \<in> set (effective_grants vdec dec s')
    \<and> (\<exists>err. revoke_grant_doc enc sha cf s' subject capability e h' = (Inl err, cf, s'))"
  using second_revoke_refused [OF assms(1,2)] put_grant_effective [OF assms(3-6)] assms(7) by blast

text \<open>Two grants can share a document: the key does not escape the colon.\<close>

lemma grant_key_ambiguous: "grant_key ''a:b'' ''c'' = grant_key ''a'' ''b:c''"
  by (simp add: grant_key_def)

end
