(* ===== verification/EventLog.thy ===== *)
theory EventLog
  imports Crypto_Sign
begin

text \<open>
  \<^verbatim>\<open>crates/pillar-eventlog/src/lib.rs\<close>: signed, hash-linked events and the log that
  admits them.
\<close>

section \<open>Events\<close>

type_synonym author = string
type_synonym event_id = bytes

record event_content =
  ec_author :: author
  ec_seq :: u64
  ec_prev :: "event_id option"
  ec_parents :: "event_id btree_set"
  ec_payload :: bytes

definition ec_links :: "event_content \<Rightarrow> event_id btree_set" where
  "ec_links e =
     (case ec_prev e of Some p \<Rightarrow> bset_insert p (ec_parents e) | None \<Rightarrow> ec_parents e)"

definition prev_bytes :: "event_id option \<Rightarrow> bytes" where
  "prev_bytes p = (case p of Some i \<Rightarrow> 1 # i | None \<Rightarrow> [0])"

definition canonical_bytes :: "event_content \<Rightarrow> bytes" where
  "canonical_bytes e =
     u64_to_le_bytes (of_nat (length (as_bytes (ec_author e)))) @ as_bytes (ec_author e)
     @ u64_to_le_bytes (ec_seq e)
     @ prev_bytes (ec_prev e)
     @ u64_to_le_bytes (of_nat (btree_len (ec_parents e)))
     @ concat (btree_keys (ec_parents e))
     @ ec_payload e"

definition ec_id :: "crypto \<Rightarrow> event_content \<Rightarrow> event_id" where
  "ec_id c e = content_address (c_sha c) (canonical_bytes e)"

definition ec_for_fixture ::
  "author \<Rightarrow> u64 \<Rightarrow> event_id option \<Rightarrow> event_id btree_set \<Rightarrow> bytes \<Rightarrow> event_content" where
  "ec_for_fixture a n p ps pl =
     \<lparr>ec_author = a, ec_seq = n, ec_prev = p, ec_parents = ps, ec_payload = pl\<rparr>"

section \<open>Signatures\<close>

definition author_signing_keypair :: "crypto \<Rightarrow> author \<Rightarrow> crypto_error + (bytes \<times> bytes)" where
  "author_signing_keypair c a =
     signing_keypair_from_seed c (as_bytes (''pillar-eventlog/author-signing-seed::'' @ a))"

record ev_signature =
  sig_author :: author
  sig_bytes :: bytes

text \<open>\<open>None\<close> is the panic of one of the two \<open>expect\<close>s.\<close>

definition signature_sign :: "crypto \<Rightarrow> author \<Rightarrow> event_content \<Rightarrow> ev_signature option" where
  "signature_sign c a e =
     (case author_signing_keypair c a of
        Inl _ \<Rightarrow> None
      | Inr (public, secret) \<Rightarrow>
          (case crypto_sign c secret (ec_id c e) of
             Inl _ \<Rightarrow> None
           | Inr s \<Rightarrow> Some \<lparr>sig_author = a, sig_bytes = s\<rparr>))"

definition signature_verifies :: "crypto \<Rightarrow> ev_signature \<Rightarrow> event_content \<Rightarrow> bool" where
  "signature_verifies c s e =
     (if sig_author s \<noteq> ec_author e then False
      else case author_signing_keypair c (sig_author s) of
             Inl _ \<Rightarrow> False
           | Inr (public, secret) \<Rightarrow> crypto_verify c public (ec_id c e) (sig_bytes s) = Inr ())"

definition relabel_for_fixture :: "author \<Rightarrow> ev_signature \<Rightarrow> ev_signature" where
  "relabel_for_fixture a s = \<lparr>sig_author = a, sig_bytes = sig_bytes s\<rparr>"

record event =
  ev_schema_version :: surface_version
  ev_content :: event_content
  ev_signature :: ev_signature

definition event_schema_version :: surface_version where
  "event_schema_version = 1"

definition event_min_schema_version :: surface_version where
  "event_min_schema_version = 1"

definition event_stamped :: "event_content \<Rightarrow> ev_signature \<Rightarrow> event" where
  "event_stamped e s =
     \<lparr>ev_schema_version = event_schema_version, ev_content = e, ev_signature = s\<rparr>"

definition event_is_authentic :: "crypto \<Rightarrow> event \<Rightarrow> bool" where
  "event_is_authentic c e = signature_verifies c (ev_signature e) (ev_content e)"

datatype event_error =
    TamperedSignature
  | IdMismatch
  | MalformedChainLink
  | GapOrBrokenPrev
  | DanglingParent
  | UnsupportedSchemaVersion version_error

section \<open>The log\<close>

record event_log =
  el_store :: oplog
  el_events :: "(event_id, event) btree_map"
  el_height :: "(author, u64) btree_map"
  el_tip :: "(author, event_id) btree_map"
  el_by_seq :: "(author \<times> u64, event_id) btree_map"

definition event_log_new :: event_log where
  "event_log_new = \<lparr>el_store = oplog_new, el_events = btree_new, el_height = btree_new,
     el_tip = btree_new, el_by_seq = btree_new\<rparr>"

definition event_log_len :: "event_log \<Rightarrow> nat" where
  "event_log_len l = btree_len (el_events l)"

definition event_log_contains :: "event_log \<Rightarrow> event_id \<Rightarrow> bool" where
  "event_log_contains l i = btree_contains_key (el_events l) i"

definition event_log_get :: "event_log \<Rightarrow> event_id \<Rightarrow> event option" where
  "event_log_get l i = btree_get (el_events l) i"

definition event_log_tip :: "event_log \<Rightarrow> author \<Rightarrow> event_id option" where
  "event_log_tip l a = btree_get (el_tip l) a"

definition chain_height :: "event_log \<Rightarrow> author \<Rightarrow> u64" where
  "chain_height l a = (case btree_get (el_height l) a of Some h \<Rightarrow> h | None \<Rightarrow> 0)"

definition chain_authors :: "event_log \<Rightarrow> author list" where
  "chain_authors l = btree_keys (el_height l)"

text \<open>The check of the same-author link.\<close>

definition ingest_chain_check :: "event_log \<Rightarrow> event_content \<Rightarrow> event_error option" where
  "ingest_chain_check l e =
     (case ec_prev e of
        None \<Rightarrow>
          if ec_seq e \<noteq> 0 then Some MalformedChainLink
          else if chain_height l (ec_author e) \<noteq> 0 then Some GapOrBrokenPrev
          else None
      | Some prev_id \<Rightarrow>
          if ec_seq e = 0 then Some MalformedChainLink
          else if btree_get (el_tip l) (ec_author e) \<noteq> Some prev_id then Some GapOrBrokenPrev
          else (case btree_get (el_events l) prev_id of
                  Some p \<Rightarrow>
                    if ec_author (ev_content p) = ec_author e \<and> ec_seq (ev_content p) = ec_seq e - 1
                    then None else Some GapOrBrokenPrev
                | None \<Rightarrow> Some GapOrBrokenPrev))"

text \<open>The loop over the parents leaves at the first that is absent or of the same author.\<close>

fun ingest_parent_check :: "event_log \<Rightarrow> author \<Rightarrow> event_id list \<Rightarrow> event_error option" where
  "ingest_parent_check l a [] = None"
| "ingest_parent_check l a (i # is) =
     (case btree_get (el_events l) i of
        Some p \<Rightarrow>
          if ec_author (ev_content p) \<noteq> a then ingest_parent_check l a is else Some DanglingParent
      | None \<Rightarrow> Some DanglingParent)"

text \<open>\<open>seq + 1\<close> wraps, as in an unchecked build.\<close>

definition ingest_admit :: "crypto \<Rightarrow> event_log \<Rightarrow> event \<Rightarrow> event_log" where
  "ingest_admit c l e =
     (let a = ec_author (ev_content e); n = ec_seq (ev_content e); i = ec_id c (ev_content e) in
      l\<lparr>el_store := snd (oplog_append (c_sha c) (el_store l) (canonical_bytes (ev_content e))),
        el_height := btree_insert a (n + 1) (el_height l),
        el_tip := btree_insert a i (el_tip l),
        el_by_seq := btree_insert (a, n) i (el_by_seq l),
        el_events := btree_insert i e (el_events l)\<rparr>)"

definition ingest :: "crypto \<Rightarrow> event_log \<Rightarrow> event \<Rightarrow> (event_error + event_id) \<times> event_log" where
  "ingest c l e =
     (case check_supported (ev_schema_version e) event_min_schema_version event_schema_version of
        Inl err \<Rightarrow> (Inl (UnsupportedSchemaVersion err), l)
      | Inr _ \<Rightarrow>
          (let i = ec_id c (ev_content e) in
           if btree_contains_key (el_events l) i then (Inr i, l)
           else if \<not> event_is_authentic c e then (Inl TamperedSignature, l)
           else if sig_author (ev_signature e) \<noteq> ec_author (ev_content e) then (Inl TamperedSignature, l)
           else (case ingest_chain_check l (ev_content e) of
                   Some err \<Rightarrow> (Inl err, l)
                 | None \<Rightarrow>
                     (case ingest_parent_check l (ec_author (ev_content e))
                             (btree_keys (ec_parents (ev_content e))) of
                        Some err \<Rightarrow> (Inl err, l)
                      | None \<Rightarrow> (Inr i, ingest_admit c l e)))))"

text \<open>\<open>append\<close> builds the next event of an author; \<open>None\<close> is a panic.\<close>

definition append_content :: "event_log \<Rightarrow> author \<Rightarrow> bytes \<Rightarrow> event_content" where
  "append_content l a payload =
     \<lparr>ec_author = a, ec_seq = chain_height l a, ec_prev = btree_get (el_tip l) a,
      ec_parents = bset_collect (map snd (filter (\<lambda>(b, _). b \<noteq> a) (btree_iter (el_tip l)))),
      ec_payload = payload\<rparr>"

definition event_log_append ::
  "crypto \<Rightarrow> event_log \<Rightarrow> author \<Rightarrow> bytes \<Rightarrow> event_id option \<times> event_log" where
  "event_log_append c l a payload =
     (let content = append_content l a payload in
      case signature_sign c a content of
        None \<Rightarrow> (None, l)
      | Some s \<Rightarrow>
          (case ingest c l (event_stamped content s) of
             (Inl _, l') \<Rightarrow> (None, l')
           | (Inr i, l') \<Rightarrow> (Some i, l')))"

definition insert_unchecked :: "crypto \<Rightarrow> event_log \<Rightarrow> event \<Rightarrow> event_log" where
  "insert_unchecked c l e =
     (let a = ec_author (ev_content e); n = ec_seq (ev_content e); i = ec_id c (ev_content e);
          nxt = max (chain_height l a) (n + 1) in
      l\<lparr>el_height := btree_insert a nxt (el_height l),
        el_by_seq := btree_insert (a, n) i (el_by_seq l),
        el_events := btree_insert i e (el_events l)\<rparr>)"

section \<open>Happens-before\<close>

definition event_links :: "event_log \<Rightarrow> event_id \<Rightarrow> event_id list" where
  "event_links l i =
     (case btree_get (el_events l) i of Some e \<Rightarrow> btree_keys (ec_links (ev_content e)) | None \<Rightarrow> [])"

text \<open>
  The walk of \<open>ancestors\<close>. The list is the stack, its head the top: \<open>extend\<close>
  pushes the links one by one, so the last link ends on top. An id outside the log has no links, so
  the walk visits at most the held events and their links.
\<close>

definition walk_bound :: "event_log \<Rightarrow> event_id list \<Rightarrow> event_id set" where
  "walk_bound l stack = set stack \<union> (\<Union>i\<in>set (btree_keys (el_events l)). set (event_links l i))"

lemma finite_walk_bound [simp]: "finite (walk_bound l stack)"
  by (simp add: walk_bound_def)

lemma event_links_bound: "set (event_links l i) \<subseteq> walk_bound l stack"
proof (cases "btree_get (el_events l) i")
  case None
  then show ?thesis by (simp add: event_links_def)
next
  case (Some e)
  then have "i \<in> set (btree_keys (el_events l))" by (simp add: btree_keys_iff btree_contains_key_def)
  then show ?thesis by (auto simp: walk_bound_def)
qed

function ancestors_loop :: "event_log \<Rightarrow> event_id list \<Rightarrow> event_id btree_set \<Rightarrow> event_id btree_set" where
  "ancestors_loop l [] seen = seen"
| "ancestors_loop l (cur # stack) seen =
     (if bset_contains seen cur then ancestors_loop l stack seen
      else ancestors_loop l (rev (event_links l cur) @ stack) (bset_insert cur seen))"
  by pat_completeness auto
termination
proof (relation "inv_image (finite_psubset <*lex*> measure length)
    (\<lambda>(l, stack, seen). (walk_bound l stack - bset_elems seen, stack))")
  show "wf (inv_image (finite_psubset <*lex*> measure length)
    (\<lambda>(l, stack, seen). (walk_bound l stack - bset_elems seen, stack)))"
    by (intro wf_inv_image wf_lex_prod wf_finite_psubset wf_measure)
  fix l cur stack and seen :: "event_id btree_set"
  show "((l, stack, seen), (l, cur # stack, seen)) \<in> inv_image (finite_psubset <*lex*> measure length)
      (\<lambda>(l, stack, seen). (walk_bound l stack - bset_elems seen, stack))" if "bset_contains seen cur"
  proof -
    have "walk_bound l (cur # stack) - bset_elems seen = walk_bound l stack - bset_elems seen"
      using that by (auto simp: walk_bound_def bset_elems_iff)
    then show ?thesis by simp
  qed
  show "((l, rev (event_links l cur) @ stack, bset_insert cur seen), (l, cur # stack, seen))
      \<in> inv_image (finite_psubset <*lex*> measure length)
      (\<lambda>(l, stack, seen). (walk_bound l stack - bset_elems seen, stack))" if "\<not> bset_contains seen cur"
  proof -
    have "walk_bound l (rev (event_links l cur) @ stack) \<subseteq> walk_bound l (cur # stack)"
      using event_links_bound [of l cur "cur # stack"] by (auto simp: walk_bound_def)
    moreover have "cur \<in> walk_bound l (cur # stack) - bset_elems seen"
      using that by (simp add: walk_bound_def bset_elems_iff)
    ultimately show ?thesis by (auto simp: finite_psubset_def)
  qed
qed

definition ancestors :: "event_log \<Rightarrow> event_id \<Rightarrow> event_id btree_set" where
  "ancestors l i = ancestors_loop l (rev (event_links l i)) btree_new"

definition happens_before :: "event_log \<Rightarrow> event_id \<Rightarrow> event_id \<Rightarrow> bool" where
  "happens_before l i j = bset_contains (ancestors l j) i"

section \<open>The integrity invariant\<close>

abbreviation ev_author :: "event \<Rightarrow> author" where "ev_author e \<equiv> ec_author (ev_content e)"
abbreviation ev_seq :: "event \<Rightarrow> u64" where "ev_seq e \<equiv> ec_seq (ev_content e)"

text \<open>
  Every held event is stored under its content address, signed by its author and of a supported
  schema; the index by author and position is exact, without gaps up to the chain height; the tip is
  the last event of the chain; \<open>prev\<close> is the predecessor in the chain; every parent is a held
  event of another author; and the links are well-founded. The shared store holds the same ids.
\<close>

definition event_log_inv :: "crypto \<Rightarrow> event_log \<Rightarrow> bool" where
  "event_log_inv c l \<longleftrightarrow>
     (\<forall>i e. btree_get (el_events l) i = Some e \<longrightarrow>
        ec_id c (ev_content e) = i \<and> event_is_authentic c e \<and> ev_schema_version e = 1)
     \<and> (\<forall>i e. btree_get (el_events l) i = Some e \<longrightarrow> btree_get (el_by_seq l) (ev_author e, ev_seq e) = Some i)
     \<and> (\<forall>a n i. btree_get (el_by_seq l) (a, n) = Some i \<longrightarrow>
          (\<exists>e. btree_get (el_events l) i = Some e \<and> ev_author e = a \<and> ev_seq e = n))
     \<and> (\<forall>a n. btree_get (el_by_seq l) (a, n) \<noteq> None \<longleftrightarrow> n < chain_height l a)
     \<and> (\<forall>a. btree_get (el_tip l) a =
          (if chain_height l a = 0 then None else btree_get (el_by_seq l) (a, chain_height l a - 1)))
     \<and> (\<forall>i e. btree_get (el_events l) i = Some e \<longrightarrow> ec_prev (ev_content e) =
          (if ev_seq e = 0 then None else btree_get (el_by_seq l) (ev_author e, ev_seq e - 1)))
     \<and> (\<forall>i e p. btree_get (el_events l) i = Some e \<longrightarrow> bset_contains (ec_parents (ev_content e)) p \<longrightarrow>
          (\<exists>e'. btree_get (el_events l) p = Some e' \<and> ev_author e' \<noteq> ev_author e))
     \<and> (\<exists>rank :: event_id \<Rightarrow> nat. \<forall>i x. x \<in> set (event_links l i) \<longrightarrow> rank x < rank i)
     \<and> (\<forall>i. btree_contains_key (ops (el_store l)) i \<longleftrightarrow> btree_contains_key (el_events l) i)
     \<and> (\<forall>a. btree_get (el_height l) a \<noteq> Some 0)"

lemma event_log_invI:
  assumes "\<And>i e. btree_get (el_events l) i = Some e \<Longrightarrow>
      ec_id c (ev_content e) = i \<and> event_is_authentic c e \<and> ev_schema_version e = 1"
    and "\<And>i e. btree_get (el_events l) i = Some e \<Longrightarrow> btree_get (el_by_seq l) (ev_author e, ev_seq e) = Some i"
    and "\<And>a n i. btree_get (el_by_seq l) (a, n) = Some i \<Longrightarrow>
      \<exists>e. btree_get (el_events l) i = Some e \<and> ev_author e = a \<and> ev_seq e = n"
    and "\<And>a n. btree_get (el_by_seq l) (a, n) \<noteq> None \<longleftrightarrow> n < chain_height l a"
    and "\<And>a. btree_get (el_tip l) a =
      (if chain_height l a = 0 then None else btree_get (el_by_seq l) (a, chain_height l a - 1))"
    and "\<And>i e. btree_get (el_events l) i = Some e \<Longrightarrow> ec_prev (ev_content e) =
      (if ev_seq e = 0 then None else btree_get (el_by_seq l) (ev_author e, ev_seq e - 1))"
    and "\<And>i e p. btree_get (el_events l) i = Some e \<Longrightarrow> bset_contains (ec_parents (ev_content e)) p \<Longrightarrow>
      \<exists>e'. btree_get (el_events l) p = Some e' \<and> ev_author e' \<noteq> ev_author e"
    and "\<And>i x. x \<in> set (event_links l i) \<Longrightarrow> (rank :: event_id \<Rightarrow> nat) x < rank i"
    and "\<And>i. btree_contains_key (ops (el_store l)) i \<longleftrightarrow> btree_contains_key (el_events l) i"
    and "\<And>a. btree_get (el_height l) a \<noteq> Some 0"
  shows "event_log_inv c l"
  unfolding event_log_inv_def using assms by blast

lemma event_log_invD:
  assumes "event_log_inv c l"
  shows inv_id: "btree_get (el_events l) i = Some e \<Longrightarrow> ec_id c (ev_content e) = i"
    and inv_authentic: "btree_get (el_events l) i = Some e \<Longrightarrow> event_is_authentic c e"
    and inv_schema: "btree_get (el_events l) i = Some e \<Longrightarrow> ev_schema_version e = 1"
    and inv_by_seq: "btree_get (el_events l) i = Some e \<Longrightarrow>
      btree_get (el_by_seq l) (ev_author e, ev_seq e) = Some i"
    and inv_at: "btree_get (el_by_seq l) (a, n) = Some i \<Longrightarrow>
      \<exists>e. btree_get (el_events l) i = Some e \<and> ev_author e = a \<and> ev_seq e = n"
    and inv_no_gaps: "btree_get (el_by_seq l) (a, n) \<noteq> None \<longleftrightarrow> n < chain_height l a"
    and inv_tip: "btree_get (el_tip l) a =
      (if chain_height l a = 0 then None else btree_get (el_by_seq l) (a, chain_height l a - 1))"
    and inv_prev: "btree_get (el_events l) i = Some e \<Longrightarrow> ec_prev (ev_content e) =
      (if ev_seq e = 0 then None else btree_get (el_by_seq l) (ev_author e, ev_seq e - 1))"
    and inv_parent: "btree_get (el_events l) i = Some e \<Longrightarrow> bset_contains (ec_parents (ev_content e)) p \<Longrightarrow>
      \<exists>e'. btree_get (el_events l) p = Some e' \<and> ev_author e' \<noteq> ev_author e"
    and inv_rank: "\<exists>rank :: event_id \<Rightarrow> nat. \<forall>i x. x \<in> set (event_links l i) \<longrightarrow> rank x < rank i"
    and inv_store: "btree_contains_key (ops (el_store l)) i \<longleftrightarrow> btree_contains_key (el_events l) i"
    and inv_height: "btree_get (el_height l) a \<noteq> Some 0"
  using assms unfolding event_log_inv_def by blast+

lemma by_seq_iff:
  assumes "event_log_inv c l"
  shows "btree_get (el_by_seq l) (a, n) = Some i \<longleftrightarrow>
    (\<exists>e. btree_get (el_events l) i = Some e \<and> ev_author e = a \<and> ev_seq e = n)"
  using inv_at [OF assms] inv_by_seq [OF assms] by blast

lemma below_height_iff:
  assumes "event_log_inv c l"
  shows "n < chain_height l a \<longleftrightarrow>
    (\<exists>i e. btree_get (el_events l) i = Some e \<and> ev_author e = a \<and> ev_seq e = n)"
  using inv_no_gaps [OF assms, of a n] by (auto simp: by_seq_iff [OF assms])

lemma event_log_inv_new: "event_log_inv c event_log_new"
  by (rule event_log_invI [where rank = "\<lambda>_. 0"])
    (simp_all add: event_log_new_def chain_height_def event_links_def btree_contains_key_def)

lemma set_btree_keys_links:
  "set (btree_keys (ec_links e)) = set_option (ec_prev e) \<union> bset_elems (ec_parents e)"
  by (auto simp: ec_links_def btree_keys_iff bset_elems_iff split: option.splits)

lemma event_links_iff:
  "x \<in> set (event_links l i) \<longleftrightarrow>
     (\<exists>e. btree_get (el_events l) i = Some e
        \<and> (ec_prev (ev_content e) = Some x \<or> bset_contains (ec_parents (ev_content e)) x))"
  by (cases "btree_get (el_events l) i")
    (auto simp: event_links_def set_btree_keys_links bset_elems_iff)

lemma inv_link_held:
  assumes "event_log_inv c l" "x \<in> set (event_links l i)"
  shows "btree_contains_key (el_events l) x"
proof -
  obtain e where e: "btree_get (el_events l) i = Some e"
    and x: "ec_prev (ev_content e) = Some x \<or> bset_contains (ec_parents (ev_content e)) x"
    using assms(2) unfolding event_links_iff by blast
  from x show ?thesis
  proof
    assume "ec_prev (ev_content e) = Some x"
    then have "btree_get (el_by_seq l) (ev_author e, ev_seq e - 1) = Some x"
      using inv_prev [OF assms(1) e] by (auto split: if_splits)
    from inv_at [OF assms(1) this] show ?thesis by (auto simp: btree_contains_key_def)
  next
    assume "bset_contains (ec_parents (ev_content e)) x"
    then show ?thesis
      using inv_parent [OF assms(1) e, of x] by (auto simp: btree_contains_key_Some)
  qed
qed

lemma parent_check_iff:
  "ingest_parent_check l a is = None \<longleftrightarrow>
     (\<forall>i\<in>set is. \<exists>p. btree_get (el_events l) i = Some p \<and> ev_author p \<noteq> a)"
  by (induction "is") (auto split: option.splits)

text \<open>In a log with the invariant, the chain check is that the event is the author's next one.\<close>

lemma chain_check_iff:
  assumes "event_log_inv c l"
  shows "ingest_chain_check l e = None \<longleftrightarrow>
    ec_seq e = chain_height l (ec_author e) \<and> ec_prev e = btree_get (el_tip l) (ec_author e)"
proof (cases "chain_height l (ec_author e) = 0")
  case True
  then have "btree_get (el_tip l) (ec_author e) = None" by (simp add: inv_tip [OF assms])
  with True show ?thesis
    by (auto simp: ingest_chain_check_def split: option.splits if_splits)
next
  case False
  let ?a = "ec_author e" and ?h = "chain_height l (ec_author e)"
  have "?h - 1 < ?h" using False by (rule u64_pred_less)
  then obtain t where t: "btree_get (el_by_seq l) (?a, ?h - 1) = Some t"
    using inv_no_gaps [OF assms, of ?a "?h - 1"] by auto
  obtain p where p: "btree_get (el_events l) t = Some p" "ev_author p = ?a" "ev_seq p = ?h - 1"
    using inv_at [OF assms t] by blast
  have tip: "btree_get (el_tip l) ?a = Some t" using False t by (simp add: inv_tip [OF assms])
  have "?h - 1 = ec_seq e - 1 \<longleftrightarrow> ec_seq e = ?h" by auto
  then show ?thesis
    using False p tip by (auto simp: ingest_chain_check_def split: option.splits if_splits)
qed

lemma chain_height_admit:
  "chain_height (ingest_admit c l e) a = (if a = ev_author e then ev_seq e + 1 else chain_height l a)"
  by (simp add: ingest_admit_def Let_def chain_height_def)

lemma admit_sel:
  "btree_get (el_events (ingest_admit c l e)) = (btree_get (el_events l))(ec_id c (ev_content e) \<mapsto> e)"
  "btree_get (el_by_seq (ingest_admit c l e)) =
     (btree_get (el_by_seq l))((ev_author e, ev_seq e) \<mapsto> ec_id c (ev_content e))"
  "btree_get (el_tip (ingest_admit c l e)) = (btree_get (el_tip l))(ev_author e \<mapsto> ec_id c (ev_content e))"
  "btree_get (el_height (ingest_admit c l e)) = (btree_get (el_height l))(ev_author e \<mapsto> ev_seq e + 1)"
  "btree_contains_key (ops (el_store (ingest_admit c l e))) i \<longleftrightarrow>
     i = ec_id c (ev_content e) \<or> btree_contains_key (ops (el_store l)) i"
  by (auto simp: ingest_admit_def Let_def btree_contains_key_def get_oplog_append ec_id_def split: if_splits)

text \<open>What \<open>ingest\<close> asks of a new event, given the invariant.\<close>

definition admissible :: "crypto \<Rightarrow> event_log \<Rightarrow> event \<Rightarrow> bool" where
  "admissible c l e \<longleftrightarrow>
     ev_schema_version e = 1 \<and> event_is_authentic c e
     \<and> ev_seq e = chain_height l (ev_author e)
     \<and> ec_prev (ev_content e) = btree_get (el_tip l) (ev_author e)
     \<and> (\<forall>p\<in>set (btree_keys (ec_parents (ev_content e))).
          \<exists>x. btree_get (el_events l) p = Some x \<and> ev_author x \<noteq> ev_author e)"

lemma admit_rank:
  assumes "event_log_inv c l" "\<not> btree_contains_key (el_events l) (ec_id c (ev_content e))"
    and held: "\<And>x. x \<in> set (btree_keys (ec_links (ev_content e))) \<Longrightarrow> btree_contains_key (el_events l) x"
  shows "\<exists>rank :: event_id \<Rightarrow> nat. \<forall>i x. x \<in> set (event_links (ingest_admit c l e) i) \<longrightarrow> rank x < rank i"
proof -
  let ?i = "ec_id c (ev_content e)" and ?K = "btree_keys (ec_links (ev_content e))"
  obtain rank :: "event_id \<Rightarrow> nat"
    where rank: "\<And>i x. x \<in> set (event_links l i) \<Longrightarrow> rank x < rank i"
    using inv_rank [OF assms(1)] by blast
  let ?r = "rank(?i := Suc (sum_list (map rank ?K)))"
  have links: "event_links (ingest_admit c l e) i = (if i = ?i then ?K else event_links l i)" for i
    by (simp add: event_links_def admit_sel)
  have "?r x < ?r i" if "x \<in> set (event_links (ingest_admit c l e) i)" for i x
  proof (cases "i = ?i")
    case True
    then have "x \<in> set ?K" using that by (simp add: links)
    then have "x \<noteq> ?i" using held assms(2) by blast
    moreover have "rank x \<le> sum_list (map rank ?K)"
      using \<open>x \<in> set ?K\<close> by (simp add: member_le_sum_list)
    ultimately show ?thesis using True by simp
  next
    case False
    then have "x \<in> set (event_links l i)" using that by (simp add: links)
    moreover from this have "x \<noteq> ?i" using inv_link_held [OF assms(1)] assms(2) by blast
    ultimately show ?thesis using False rank by simp
  qed
  then show ?thesis by blast
qed

lemma admissible_links_held:
  assumes "event_log_inv c l" "admissible c l e" "x \<in> set (btree_keys (ec_links (ev_content e)))"
  shows "btree_contains_key (el_events l) x"
proof -
  consider "ec_prev (ev_content e) = Some x" | "x \<in> set (btree_keys (ec_parents (ev_content e)))"
    using assms(3) by (auto simp: set_btree_keys_links bset_elems_def)
  then show ?thesis
  proof cases
    case 1
    then have "btree_get (el_tip l) (ev_author e) = Some x" using assms(2) by (simp add: admissible_def)
    then have "btree_get (el_by_seq l) (ev_author e, chain_height l (ev_author e) - 1) = Some x"
      by (auto simp: inv_tip [OF assms(1)] split: if_splits)
    from inv_at [OF assms(1) this] show ?thesis by (auto simp: btree_contains_key_def)
  next
    case 2
    then show ?thesis using assms(2) by (auto simp: admissible_def btree_contains_key_def)
  qed
qed

lemma event_log_inv_admit:
  assumes inv: "event_log_inv c l" and ok: "admissible c l e"
    and new: "\<not> btree_contains_key (el_events l) (ec_id c (ev_content e))"
    and bound: "unat (ev_seq e) + 1 < 2 ^ 64"
  shows "event_log_inv c (ingest_admit c l e)"
proof -
  let ?l = "ingest_admit c l e" and ?a = "ev_author e" and ?i = "ec_id c (ev_content e)"
  have seq: "ev_seq e = chain_height l ?a" and prev: "ec_prev (ev_content e) = btree_get (el_tip l) ?a"
    using ok by (simp_all add: admissible_def)
  have free: "btree_get (el_by_seq l) (?a, ev_seq e) = None"
    using inv_no_gaps [OF inv, of ?a "ev_seq e"] seq by simp
  have fresh: "(ev_author x, ev_seq x) \<noteq> (?a, ev_seq e)" if "btree_get (el_events l) i = Some x" for i x
    using inv_by_seq [OF inv that] free by (metis option.distinct(1))
  have newNone: "btree_get (el_events l) ?i = None" using new by (simp add: btree_contains_key_def)
  obtain rank :: "event_id \<Rightarrow> nat" where rank: "\<And>i x. x \<in> set (event_links ?l i) \<Longrightarrow> rank x < rank i"
    using admit_rank [OF inv new admissible_links_held [OF inv ok]] by blast
  show ?thesis
  proof (rule event_log_invI [where rank = rank])
    show "ec_id c (ev_content x) = i \<and> event_is_authentic c x \<and> ev_schema_version x = 1"
      if "btree_get (el_events ?l) i = Some x" for i x
      using that ok inv_id [OF inv] inv_authentic [OF inv] inv_schema [OF inv]
      by (auto simp: admit_sel admissible_def split: if_splits)
    show "btree_get (el_by_seq ?l) (ev_author x, ev_seq x) = Some i"
      if "btree_get (el_events ?l) i = Some x" for i x
      using that fresh inv_by_seq [OF inv] by (auto simp: admit_sel split: if_splits)
    show "\<exists>x. btree_get (el_events ?l) i = Some x \<and> ev_author x = a \<and> ev_seq x = n"
      if "btree_get (el_by_seq ?l) (a, n) = Some i" for a n i
      using that newNone inv_at [OF inv, of a n i] by (auto simp: admit_sel split: if_splits)
    show "btree_get (el_by_seq ?l) (a, n) \<noteq> None \<longleftrightarrow> n < chain_height ?l a" for a n
      using inv_no_gaps [OF inv, of a n] seq u64_less_succ [OF bound, of n]
      by (auto simp: admit_sel chain_height_admit)
    show "btree_get (el_tip ?l) a =
        (if chain_height ?l a = 0 then None else btree_get (el_by_seq ?l) (a, chain_height ?l a - 1))" for a
      using inv_tip [OF inv, of a] u64_succ_neq_0 [OF bound] by (auto simp: admit_sel chain_height_admit)
    show "ec_prev (ev_content x) =
        (if ev_seq x = 0 then None else btree_get (el_by_seq ?l) (ev_author x, ev_seq x - 1))"
      if "btree_get (el_events ?l) i = Some x" for i x
    proof (cases "i = ?i")
      case True
      then have "x = e" using that by (simp add: admit_sel)
      moreover have "ev_seq e - 1 \<noteq> ev_seq e" by (simp add: eq_diff_eq)
      ultimately show ?thesis using prev seq inv_tip [OF inv, of ?a] by (simp add: admit_sel)
    next
      case False
      then have x: "btree_get (el_events l) i = Some x" using that by (simp add: admit_sel)
      have "btree_get (el_by_seq l) (ev_author x, ev_seq x - 1) \<noteq> None" if nz: "ev_seq x \<noteq> 0"
      proof -
        have "ev_seq x < chain_height l (ev_author x)"
          using inv_no_gaps [OF inv, of "ev_author x" "ev_seq x"] inv_by_seq [OF inv x] by simp
        then have "ev_seq x - 1 < chain_height l (ev_author x)"
          using u64_pred_less [OF nz] by (rule less_trans [rotated])
        then show ?thesis using inv_no_gaps [OF inv, of "ev_author x" "ev_seq x - 1"] by simp
      qed
      then have "(ev_author x, ev_seq x - 1) \<noteq> (?a, ev_seq e)" if "ev_seq x \<noteq> 0"
        using that free by auto
      then show ?thesis using inv_prev [OF inv x] by (auto simp: admit_sel)
    qed
    show "\<exists>e'. btree_get (el_events ?l) p = Some e' \<and> ev_author e' \<noteq> ev_author x"
      if "btree_get (el_events ?l) i = Some x" "bset_contains (ec_parents (ev_content x)) p" for i x p
    proof -
      have "\<exists>y. btree_get (el_events l) p = Some y \<and> ev_author y \<noteq> ev_author x"
        using that ok inv_parent [OF inv, of i x p]
        by (auto simp: admit_sel admissible_def btree_keys_iff split: if_splits)
      then obtain y where y: "btree_get (el_events l) p = Some y" "ev_author y \<noteq> ev_author x" by blast
      then have "p \<noteq> ?i" using newNone by auto
      then show ?thesis using y by (simp add: admit_sel)
    qed
    show "rank x < rank i" if "x \<in> set (event_links ?l i)" for i x by (rule rank [OF that])
    show "btree_contains_key (ops (el_store ?l)) i \<longleftrightarrow> btree_contains_key (el_events ?l) i" for i
      using inv_store [OF inv, of i] by (simp add: admit_sel) (auto simp: btree_contains_key_def admit_sel)
    show "btree_get (el_height ?l) a \<noteq> Some 0" for a
      using inv_height [OF inv, of a] u64_succ_neq_0 [OF bound] by (auto simp: admit_sel)
  qed
qed

section \<open>Ingest and append under the invariant\<close>

lemma schema_check:
  "check_supported v event_min_schema_version event_schema_version =
     (if v = 1 then Inr () else Inl (Unsupported v 1 1))"
proof -
  have "\<not> (v < 1 \<or> v > 1) \<longleftrightarrow> v = 1" for v :: u16 by (meson less_irrefl neqE)
  then show ?thesis
    by (auto simp: check_supported_def event_min_schema_version_def event_schema_version_def)
qed

lemma authentic_author: "event_is_authentic c e \<Longrightarrow> sig_author (ev_signature e) = ev_author e"
  by (auto simp: event_is_authentic_def signature_verifies_def split: if_splits)

lemma ingest_cases:
  assumes "event_log_inv c l"
  obtains
    (schema) "ev_schema_version e \<noteq> 1"
      "ingest c l e = (Inl (UnsupportedSchemaVersion (Unsupported (ev_schema_version e) 1 1)), l)"
  | (held) "ev_schema_version e = 1" "btree_contains_key (el_events l) (ec_id c (ev_content e))"
      "ingest c l e = (Inr (ec_id c (ev_content e)), l)"
  | (admit) "\<not> btree_contains_key (el_events l) (ec_id c (ev_content e))" "admissible c l e"
      "ingest c l e = (Inr (ec_id c (ev_content e)), ingest_admit c l e)"
  | (refuse) err where "ev_schema_version e = 1"
      "\<not> btree_contains_key (el_events l) (ec_id c (ev_content e))" "\<not> admissible c l e"
      "err \<in> {TamperedSignature, MalformedChainLink, GapOrBrokenPrev, DanglingParent}"
      "ingest c l e = (Inl err, l)"
proof (cases "ev_schema_version e = 1 \<and> \<not> btree_contains_key (el_events l) (ec_id c (ev_content e))
    \<and> event_is_authentic c e")
  case False
  then consider "ev_schema_version e \<noteq> 1"
    | "ev_schema_version e = 1" "btree_contains_key (el_events l) (ec_id c (ev_content e))"
    | "ev_schema_version e = 1" "\<not> btree_contains_key (el_events l) (ec_id c (ev_content e))"
      "\<not> event_is_authentic c e" by blast
  then show ?thesis
  proof cases
    case 1
    then show ?thesis using that(1) by (simp add: ingest_def schema_check)
  next
    case 2
    then show ?thesis using that(2) by (simp add: ingest_def schema_check Let_def)
  next
    case 3
    then show ?thesis
      using that(4) [of TamperedSignature] by (simp add: ingest_def schema_check Let_def admissible_def)
  qed
next
  case True
  have chain_err: "err \<in> {MalformedChainLink, GapOrBrokenPrev}"
    if "ingest_chain_check l (ev_content e) = Some err" for err
    using that by (auto simp: ingest_chain_check_def split: option.splits if_splits)
  have parent_err: "err = DanglingParent" if "ingest_parent_check l a is = Some err" for err a "is"
    using that by (induction "is") (auto split: option.splits if_splits)
  have base: "ingest c l e = (case ingest_chain_check l (ev_content e) of
        Some err \<Rightarrow> (Inl err, l)
      | None \<Rightarrow> (case ingest_parent_check l (ev_author e) (btree_keys (ec_parents (ev_content e))) of
            Some err \<Rightarrow> (Inl err, l)
          | None \<Rightarrow> (Inr (ec_id c (ev_content e)), ingest_admit c l e)))"
    using True authentic_author [of c e] by (simp add: ingest_def schema_check Let_def)
  show ?thesis
  proof (cases "admissible c l e")
    case ok: True
    then have "ingest_chain_check l (ev_content e) = None"
      "ingest_parent_check l (ev_author e) (btree_keys (ec_parents (ev_content e))) = None"
      by (auto simp: chain_check_iff [OF assms] parent_check_iff admissible_def)
    then show ?thesis using that(3) True ok base by simp
  next
    case no: False
    then have "ingest_chain_check l (ev_content e) \<noteq> None
      \<or> ingest_parent_check l (ev_author e) (btree_keys (ec_parents (ev_content e))) \<noteq> None"
      using True by (auto simp: chain_check_iff [OF assms] parent_check_iff admissible_def)
    then obtain err where "ingest c l e = (Inl err, l)"
      "err \<in> {TamperedSignature, MalformedChainLink, GapOrBrokenPrev, DanglingParent}"
      using base chain_err parent_err by (fastforce split: option.splits)
    then show ?thesis using that(4) True no by blast
  qed
qed

lemma ingest_admissible:
  assumes "event_log_inv c l" "admissible c l e"
    and "\<not> btree_contains_key (el_events l) (ec_id c (ev_content e))"
  shows "ingest c l e = (Inr (ec_id c (ev_content e)), ingest_admit c l e)"
  using assms(1) by (cases rule: ingest_cases [where e = e])
    (use assms(2,3) in \<open>auto simp: admissible_def\<close>)

lemma ingest_inv:
  assumes "event_log_inv c l" "\<And>a. unat (chain_height l a) \<le> n" "n + 1 < 2 ^ 64"
  shows "event_log_inv c (snd (ingest c l e)) \<and> (\<forall>a. unat (chain_height (snd (ingest c l e)) a) \<le> Suc n)"
  using assms(1)
proof (cases rule: ingest_cases [where e = e])
  case admit
  have seq: "ev_seq e = chain_height l (ev_author e)" using admit(2) by (simp add: admissible_def)
  then have bound: "unat (ev_seq e) + 1 < 2 ^ 64"
    using assms(2) [of "ev_author e"] assms(3) by simp
  have "unat (chain_height (ingest_admit c l e) a) \<le> Suc n" for a
    using assms(2) [of a] assms(2) [of "ev_author e"] seq unat_u64_succ [OF bound]
    by (simp add: chain_height_admit)
  then show ?thesis using event_log_inv_admit [OF assms(1) admit(2,1) bound] admit(3) by simp
qed (use assms in \<open>auto simp: le_SucI\<close>)

text \<open>The locally built event is admissible.\<close>

lemma append_parents:
  "p \<in> set (btree_keys (ec_parents (append_content l a payload))) \<longleftrightarrow>
     (\<exists>b. b \<noteq> a \<and> btree_get (el_tip l) b = Some p)"
proof -
  have "p \<in> set (map snd (filter (\<lambda>(b, _). b \<noteq> a) (btree_iter (el_tip l)))) \<longleftrightarrow>
      (\<exists>b. b \<noteq> a \<and> (b, p) \<in> set (btree_iter (el_tip l)))" by force
  then show ?thesis by (simp add: append_content_def btree_keys_iff btree_iter_iff)
qed

lemma signature_sign_ok:
  assumes "ed25519_ok c"
  obtains s where "signature_sign c a e = Some s"
    "ec_author e = a \<Longrightarrow> signature_verifies c s e"
proof -
  obtain pk sk where kp: "author_signing_keypair c a = Inr (pk, sk)"
    by (simp add: author_signing_keypair_def signing_keypair_from_seed_def Let_def)
  from sign_verifies [OF assms kp [unfolded author_signing_keypair_def], of "ec_id c e"]
  obtain sig where "crypto_sign c sk (ec_id c e) = Inr sig" "crypto_verify c pk (ec_id c e) sig = Inr ()"
    by blast
  then show thesis
    using that [of "\<lparr>sig_author = a, sig_bytes = sig\<rparr>"] kp
    by (simp add: signature_sign_def signature_verifies_def)
qed

lemma inv_tip_event:
  assumes "event_log_inv c l" "btree_get (el_tip l) b = Some p"
  shows "\<exists>x. btree_get (el_events l) p = Some x \<and> ev_author x = b"
proof -
  have "btree_get (el_by_seq l) (b, chain_height l b - 1) = Some p"
    using assms(2) inv_tip [OF assms(1), of b] by (auto split: if_splits)
  from inv_at [OF assms(1) this] show ?thesis by blast
qed

lemma append_event:
  assumes "ed25519_ok c" "event_log_inv c l"
  obtains e where "ev_content e = append_content l a payload" "admissible c l e"
    "event_log_append c l a payload =
       (case ingest c l e of (Inl _, l') \<Rightarrow> (None, l') | (Inr i, l') \<Rightarrow> (Some i, l'))"
proof -
  let ?ct = "append_content l a payload"
  obtain s where s: "signature_sign c a ?ct = Some s" "signature_verifies c s ?ct"
    using signature_sign_ok [OF assms(1), of a ?ct] by (auto simp: append_content_def)
  have "\<exists>x. btree_get (el_events l) p = Some x \<and> ev_author x \<noteq> a"
    if "p \<in> set (btree_keys (ec_parents ?ct))" for p
    using that inv_tip_event [OF assms(2)] unfolding append_parents by metis
  then have "admissible c l (event_stamped ?ct s)"
    using s(2) by (simp add: admissible_def event_stamped_def event_schema_version_def
        event_is_authentic_def) (simp add: append_content_def)
  then show thesis
    using that [of "event_stamped ?ct s"] s(1)
    by (simp add: event_log_append_def Let_def event_stamped_def)
qed

lemma append_never_fails_lemma:
  assumes "ed25519_ok c" "event_log_inv c l"
  shows "fst (event_log_append c l a payload) = Some (ec_id c (append_content l a payload))"
proof -
  from append_event [OF assms] obtain e where e: "ev_content e = append_content l a payload"
    "admissible c l e" "event_log_append c l a payload =
       (case ingest c l e of (Inl _, l') \<Rightarrow> (None, l') | (Inr i, l') \<Rightarrow> (Some i, l'))" by blast
  have "ev_schema_version e = 1" using e(2) by (simp add: admissible_def)
  with assms(2) show ?thesis by (cases rule: ingest_cases [where e = e]) (use e in auto)
qed

section \<open>Runs\<close>

datatype el_op = IngestOp event | AppendOp author bytes

fun el_exec :: "crypto \<Rightarrow> event_log \<Rightarrow> el_op \<Rightarrow> event_log" where
  "el_exec c l (IngestOp e) = snd (ingest c l e)"
| "el_exec c l (AppendOp a payload) = snd (event_log_append c l a payload)"

definition el_run :: "crypto \<Rightarrow> event_log \<Rightarrow> el_op list \<Rightarrow> event_log" where
  "el_run c l xs = foldl (el_exec c) l xs"

lemma el_exec_inv:
  assumes "event_log_inv c l" "\<And>a. unat (chain_height l a) \<le> n" "n + 1 < 2 ^ 64"
  shows "event_log_inv c (el_exec c l x) \<and> (\<forall>a. unat (chain_height (el_exec c l x) a) \<le> Suc n)"
proof (cases x)
  case (IngestOp e)
  then show ?thesis using ingest_inv [OF assms] by simp
next
  case (AppendOp a payload)
  have "snd (event_log_append c l a payload) = (case signature_sign c a (append_content l a payload) of
      None \<Rightarrow> l | Some s \<Rightarrow> snd (ingest c l (event_stamped (append_content l a payload) s)))"
    by (simp add: event_log_append_def Let_def split: option.splits prod.splits sum.splits)
  then show ?thesis
    using AppendOp ingest_inv [OF assms] assms(1,2) by (auto simp: le_SucI split: option.splits)
qed

lemma el_run_inv_gen:
  assumes "event_log_inv c l" "\<And>a. unat (chain_height l a) \<le> n" "n + length xs < 2 ^ 64"
  shows "event_log_inv c (el_run c l xs)"
  using assms
proof (induction xs arbitrary: l n)
  case Nil
  then show ?case by (simp add: el_run_def)
next
  case (Cons x xs)
  have "event_log_inv c (el_exec c l x) \<and> (\<forall>a. unat (chain_height (el_exec c l x) a) \<le> Suc n)"
    by (rule el_exec_inv) (use Cons.prems in auto)
  then have "event_log_inv c (el_run c (el_exec c l x) xs)"
    using Cons.prems(3) by (intro Cons.IH [of _ "Suc n"]) auto
  then show ?case by (simp add: el_run_def)
qed

lemma el_run_inv: "length xs < 2 ^ 64 \<Longrightarrow> event_log_inv c (el_run c event_log_new xs)"
  by (rule el_run_inv_gen [where n = 0])
    (simp_all add: event_log_inv_new, simp add: chain_height_def event_log_new_def)

section \<open>The causal order\<close>

definition link_rel :: "event_log \<Rightarrow> (event_id \<times> event_id) set" where
  "link_rel l = {(x, i). x \<in> set (event_links l i)}"

lemma ancestors_loop_closed:
  assumes "\<And>x. x \<in> bset_elems seen \<Longrightarrow> set (event_links l x) \<subseteq> bset_elems seen \<union> set stack"
  shows "bset_elems seen \<union> set stack \<subseteq> bset_elems (ancestors_loop l stack seen)
    \<and> (\<forall>x\<in>bset_elems (ancestors_loop l stack seen).
         set (event_links l x) \<subseteq> bset_elems (ancestors_loop l stack seen))"
  using assms
proof (induction l stack seen rule: ancestors_loop.induct)
  case (1 l seen)
  then show ?case by auto
next
  case (2 l cur stack seen)
  show ?case
  proof (cases "bset_contains seen cur")
    case True
    then have "cur \<in> bset_elems seen" by (simp add: bset_elems_iff)
    then show ?thesis using "2.IH"(1) [OF True] "2.prems" True by (force simp: insert_absorb)
  next
    case False
    have "set (event_links l x) \<subseteq> bset_elems (bset_insert cur seen) \<union> set (rev (event_links l cur) @ stack)"
      if "x \<in> bset_elems (bset_insert cur seen)" for x
      using that "2.prems" [of x] by auto
    from "2.IH"(2) [OF False this] show ?thesis using False by simp
  qed
qed

lemma ancestors_loop_least:
  assumes "bset_elems seen \<union> set stack \<subseteq> T" "\<And>x. x \<in> T \<Longrightarrow> set (event_links l x) \<subseteq> T"
  shows "bset_elems (ancestors_loop l stack seen) \<subseteq> T"
  using assms
proof (induction l stack seen rule: ancestors_loop.induct)
  case (1 l seen)
  then show ?case by simp
next
  case (2 l cur stack seen)
  then show ?case by (cases "bset_contains seen cur") auto
qed

lemma ancestors_trancl: "bset_elems (ancestors l i) = {x. (x, i) \<in> (link_rel l)\<^sup>+}"
proof (rule antisym)
  let ?T = "{x. (x, i) \<in> (link_rel l)\<^sup>+}"
  have "set (event_links l x) \<subseteq> ?T" if "x \<in> ?T" for x
    using that by (auto simp: link_rel_def intro: trancl_into_trancl2)
  moreover have "set (event_links l i) \<subseteq> ?T" by (auto simp: link_rel_def)
  ultimately show "bset_elems (ancestors l i) \<subseteq> ?T"
    unfolding ancestors_def by (intro ancestors_loop_least) auto
  let ?A = "bset_elems (ancestors l i)"
  have closed: "set (event_links l i) \<subseteq> ?A" "\<And>x. x \<in> ?A \<Longrightarrow> set (event_links l x) \<subseteq> ?A"
    using ancestors_loop_closed [of btree_new l "rev (event_links l i)"] by (auto simp: ancestors_def)
  have "x \<in> ?A" if "(x, j) \<in> (link_rel l)\<^sup>+" "j = i" for x j
    using that
  proof (induction rule: converse_trancl_induct)
    case (base y)
    then show ?case using closed(1) by (auto simp: link_rel_def)
  next
    case (step y z)
    then show ?case using closed(2) by (auto simp: link_rel_def)
  qed
  then show "?T \<subseteq> ?A" by blast
qed

lemma happens_before_trancl: "happens_before l i j \<longleftrightarrow> (i, j) \<in> (link_rel l)\<^sup>+"
  using ancestors_trancl [of l j] by (auto simp: happens_before_def bset_elems_iff [symmetric])

lemma link_rel_rank:
  assumes "event_log_inv c l"
  obtains rank :: "event_id \<Rightarrow> nat" where "\<And>i j. (i, j) \<in> (link_rel l)\<^sup>+ \<Longrightarrow> rank i < rank j"
proof -
  obtain rank :: "event_id \<Rightarrow> nat" where r: "\<And>i x. x \<in> set (event_links l i) \<Longrightarrow> rank x < rank i"
    using inv_rank [OF assms] by blast
  have "rank i < rank j" if "(i, j) \<in> (link_rel l)\<^sup>+" for i j
    using that by induction (auto simp: link_rel_def dest: r)
  then show thesis using that by blast
qed

section \<open>Canonical bytes\<close>

lemma canonical_bytes_author_seq:
  assumes "canonical_bytes e = canonical_bytes f"
    and "length (ec_author e) < 2 ^ 64" "length (ec_author f) < 2 ^ 64"
  shows "ec_author e = ec_author f \<and> ec_seq e = ec_seq f"
proof -
  have "u64_to_le_bytes (of_nat (length (ec_author e))) = u64_to_le_bytes (of_nat (length (ec_author f)))"
    and rest: "as_bytes (ec_author e) @ u64_to_le_bytes (ec_seq e) @ prev_bytes (ec_prev e)
      @ u64_to_le_bytes (of_nat (btree_len (ec_parents e))) @ concat (btree_keys (ec_parents e)) @ ec_payload e
     = as_bytes (ec_author f) @ u64_to_le_bytes (ec_seq f) @ prev_bytes (ec_prev f)
      @ u64_to_le_bytes (of_nat (btree_len (ec_parents f))) @ concat (btree_keys (ec_parents f)) @ ec_payload f"
    using assms(1) by (simp_all add: canonical_bytes_def append_eq_append_conv)
  then have "unat (of_nat (length (ec_author e)) :: u64) = unat (of_nat (length (ec_author f)) :: u64)" by simp
  then have "length (ec_author e) = length (ec_author f)" using assms(2,3) by (simp add: unat_of_nat)
  with rest show ?thesis by (simp add: append_eq_append_conv)
qed

lemma concat_fixed_width_inject:
  assumes "\<And>x. x \<in> set xs \<union> set ys \<Longrightarrow> length x = n" "length xs = length ys"
    and "concat xs @ us = concat ys @ vs"
  shows "xs = ys \<and> us = vs"
  using assms(2,1,3)
proof (induction xs ys rule: list_induct2)
  case (Cons x xs y ys)
  then have "length x = length y" by simp
  then show ?case using Cons by (auto simp: append_eq_append_conv)
qed simp

text \<open>Links as wide as content addresses.\<close>

definition content_wide :: "event_content \<Rightarrow> bool" where
  "content_wide e \<longleftrightarrow> length (ec_author e) < 2 ^ 64 \<and> btree_len (ec_parents e) < 2 ^ 64
     \<and> (case ec_prev e of None \<Rightarrow> True | Some p \<Rightarrow> length p = 34)
     \<and> list_all (\<lambda>p. length p = 34) (btree_keys (ec_parents e))"

lemma canonical_bytes_inject:
  fixes e f :: event_content
  assumes eq: "canonical_bytes e = canonical_bytes f" and wide: "content_wide e" "content_wide f"
  shows "e = f"
proof -
  have as: "ec_author e = ec_author f" "ec_seq e = ec_seq f"
    using canonical_bytes_author_seq [OF eq] wide by (auto simp: content_wide_def)
  then have tail: "prev_bytes (ec_prev e) @ u64_to_le_bytes (of_nat (btree_len (ec_parents e)))
      @ concat (btree_keys (ec_parents e)) @ ec_payload e
     = prev_bytes (ec_prev f) @ u64_to_le_bytes (of_nat (btree_len (ec_parents f)))
      @ concat (btree_keys (ec_parents f)) @ ec_payload f"
    using eq by (simp add: canonical_bytes_def)
  have prev: "ec_prev e = ec_prev f"
    using tail wide by (auto simp: prev_bytes_def content_wide_def append_eq_append_conv split: option.splits)
  then have "u64_to_le_bytes (of_nat (btree_len (ec_parents e))) = u64_to_le_bytes (of_nat (btree_len (ec_parents f)))"
    and rest: "concat (btree_keys (ec_parents e)) @ ec_payload e = concat (btree_keys (ec_parents f)) @ ec_payload f"
    using tail by (simp_all add: append_eq_append_conv)
  then have "unat (of_nat (btree_len (ec_parents e)) :: u64) = unat (of_nat (btree_len (ec_parents f)) :: u64)" by simp
  then have "btree_len (ec_parents e) = btree_len (ec_parents f)"
    using wide by (simp add: content_wide_def unat_of_nat)
  then have "length (btree_keys (ec_parents e)) = length (btree_keys (ec_parents f))"
    by (simp add: btree_len_def btree_keys_def)
  then have keys: "btree_keys (ec_parents e) = btree_keys (ec_parents f)" "ec_payload e = ec_payload f"
    using concat_fixed_width_inject [OF _ _ rest, of 34] wide
    by (auto simp: content_wide_def list_all_iff)
  have "ec_parents e = ec_parents f" using keys(1) by (intro bset_ext) (metis btree_keys_iff)
  then show ?thesis using as prev keys(2) by (cases e; cases f) simp
qed

section \<open>Properties\<close>

definition el_demo_ops :: "el_op list" where
  "el_demo_ops = [AppendOp ''a'' [1], AppendOp ''b'' [2], AppendOp ''a'' [3]]"

definition el_demo :: event_log where
  "el_demo = el_run demo_crypto event_log_new el_demo_ops"

lemma el_demo_inv: "event_log_inv demo_crypto el_demo"
  unfolding el_demo_def by (rule el_run_inv) (simp add: el_demo_ops_def)

text \<open>
  \<^bold>\<open>C6.\<close> Integrity of every reachable log (fewer than 2^64 calls): each held event is
  stored under its content address and signed by its author; an author has one event per position and
  no gaps below its height; \<open>prev\<close> is absent exactly at position 0 and otherwise the
  author's preceding event; each parent is a held event of another author.
\<close>

theorem reachable_log_integrity:
  assumes "length xs < 2 ^ 64" "el_run c event_log_new xs = l"
  shows "(\<forall>i e. event_log_get l i = Some e \<longrightarrow> ec_id c (ev_content e) = i \<and> event_is_authentic c e)
    \<and> (\<forall>i e j f. event_log_get l i = Some e \<longrightarrow> event_log_get l j = Some f
         \<longrightarrow> ev_author e = ev_author f \<longrightarrow> ev_seq e = ev_seq f \<longrightarrow> i = j)
    \<and> (\<forall>a n. (\<exists>i e. event_log_get l i = Some e \<and> ev_author e = a \<and> ev_seq e = n) \<longleftrightarrow> n < chain_height l a)
    \<and> (\<forall>i e. event_log_get l i = Some e \<longrightarrow>
         (case ec_prev (ev_content e) of
            None \<Rightarrow> ev_seq e = 0
          | Some p \<Rightarrow> \<exists>f. event_log_get l p = Some f \<and> ev_author f = ev_author e \<and> ev_seq f + 1 = ev_seq e))
    \<and> (\<forall>i e p. event_log_get l i = Some e \<longrightarrow> bset_contains (ec_parents (ev_content e)) p
         \<longrightarrow> (\<exists>f. event_log_get l p = Some f \<and> ev_author f \<noteq> ev_author e))"
proof -
  have inv: "event_log_inv c l" using el_run_inv [OF assms(1), of c] assms(2) by simp
  note D = inv_id [OF inv] inv_authentic [OF inv] inv_by_seq [OF inv] inv_at [OF inv]
    inv_no_gaps [OF inv] inv_prev [OF inv] inv_parent [OF inv]
  have chain: "(\<exists>i e. btree_get (el_events l) i = Some e \<and> ev_author e = a \<and> ev_seq e = n)
      \<longleftrightarrow> n < chain_height l a" for a n
    using below_height_iff [OF inv] by blast
  have prev: "case ec_prev (ev_content e) of None \<Rightarrow> ev_seq e = 0
      | Some p \<Rightarrow> \<exists>f. btree_get (el_events l) p = Some f \<and> ev_author f = ev_author e \<and> ev_seq f + 1 = ev_seq e"
    if e: "btree_get (el_events l) i = Some e" for i e
  proof (cases "ev_seq e = 0")
    case False
    have "ev_seq e < chain_height l (ev_author e)" using chain e by blast
    then have "ev_seq e - 1 < chain_height l (ev_author e)"
      by (rule less_trans [OF u64_pred_less [OF False]])
    then obtain p where "btree_get (el_by_seq l) (ev_author e, ev_seq e - 1) = Some p"
      using D(5) [of "ev_author e" "ev_seq e - 1"] by auto
    then show ?thesis using D(6) [OF e] False D(4) [of "ev_author e" "ev_seq e - 1" p] by auto
  qed (use D(6) [OF e] in simp)
  show ?thesis
    unfolding event_log_get_def
  proof (intro conjI allI impI)
    show "i = j" if "btree_get (el_events l) i = Some e" "btree_get (el_events l) j = Some f"
      "ev_author e = ev_author f" "ev_seq e = ev_seq f" for i e j f
      using D(3) [OF that(1)] D(3) [OF that(2)] that(3,4) by simp
  qed (fact D(1) D(2) chain prev D(7))+
qed

theorem reachable_log_integrity_witness:
  "event_is_authentic demo_crypto (the (event_log_get el_demo (the (event_log_tip el_demo ''a''))))
   \<and> chain_height el_demo ''a'' = 2"
proof -
  have len: "length el_demo_ops < 2 ^ 64" by (simp add: el_demo_ops_def)
  obtain e where "event_log_get el_demo (the (event_log_tip el_demo ''a'')) = Some e"
  proof -
    have "event_log_get el_demo (the (event_log_tip el_demo ''a'')) \<noteq> None" by code_simp
    then show thesis using that by blast
  qed
  then have "event_is_authentic demo_crypto (the (event_log_get el_demo (the (event_log_tip el_demo ''a''))))"
    using reachable_log_integrity [OF len el_demo_def [symmetric]] by simp
  moreover have "chain_height el_demo ''a'' = 2" by code_simp
  ultimately show ?thesis ..
qed

text \<open>
  Ingest, case by case, in a log with the integrity invariant: an unsupported schema
  is refused with its stamp; a held event is accepted again without any change; a new event is
  admitted exactly when its author's signature covers it, its position and \<open>prev\<close> link are
  the next of its author's chain and all its parents are held events of other authors; every other
  event is refused and the log left alone.
\<close>

theorem ingest_decision:
  assumes "event_log_inv c l"
  shows "if ev_schema_version e \<noteq> 1
      then ingest c l e = (Inl (UnsupportedSchemaVersion (Unsupported (ev_schema_version e) 1 1)), l)
      else if event_log_contains l (ec_id c (ev_content e)) then ingest c l e = (Inr (ec_id c (ev_content e)), l)
      else if event_is_authentic c e \<and> ev_seq e = chain_height l (ev_author e)
        \<and> ec_prev (ev_content e) = event_log_tip l (ev_author e)
        \<and> list_all (\<lambda>p. case event_log_get l p of None \<Rightarrow> False | Some x \<Rightarrow> ev_author x \<noteq> ev_author e)
            (btree_keys (ec_parents (ev_content e)))
      then ingest c l e = (Inr (ec_id c (ev_content e)), ingest_admit c l e)
      else \<exists>err. ingest c l e = (Inl err, l)
        \<and> err \<in> {TamperedSignature, MalformedChainLink, GapOrBrokenPrev, DanglingParent}"
proof -
  have "admissible c l e \<longleftrightarrow> ev_schema_version e = 1 \<and> event_is_authentic c e
      \<and> ev_seq e = chain_height l (ev_author e)
      \<and> ec_prev (ev_content e) = event_log_tip l (ev_author e)
      \<and> list_all (\<lambda>p. case event_log_get l p of None \<Rightarrow> False | Some x \<Rightarrow> ev_author x \<noteq> ev_author e)
          (btree_keys (ec_parents (ev_content e)))"
    by (auto simp: admissible_def event_log_tip_def event_log_get_def list_all_iff split: option.splits)
  note adm = this
  show ?thesis
    using assms
    by (cases rule: ingest_cases [where e = e]) (auto simp: event_log_contains_def adm)
qed

theorem ingest_decision_witness:
  "ingest demo_crypto el_demo (event_stamped (append_content el_demo ''a'' [9])
      \<lparr>sig_author = ''b'', sig_bytes = []\<rparr>) = (Inl TamperedSignature, el_demo)"
proof -
  let ?e = "event_stamped (append_content el_demo ''a'' [9]) \<lparr>sig_author = ''b'', sig_bytes = []\<rparr>"
  have no: "\<not> event_is_authentic demo_crypto ?e" "ev_schema_version ?e = 1"
    "\<not> event_log_contains el_demo (ec_id demo_crypto (ev_content ?e))" by code_simp+
  have "\<exists>err. ingest demo_crypto el_demo ?e = (Inl err, el_demo)
      \<and> err \<in> {TamperedSignature, MalformedChainLink, GapOrBrokenPrev, DanglingParent}"
    using ingest_decision [OF el_demo_inv, of ?e] no by simp
  moreover have "fst (ingest demo_crypto el_demo ?e) = Inl TamperedSignature" by code_simp
  ultimately show ?thesis by auto
qed

text \<open>
  The causal order of a reachable log: \<open>happens_before\<close> is the transitive
  closure of the hash links, and a strict partial order, so the links have no cycle.
\<close>

theorem happens_before_strict_order:
  assumes "length xs < 2 ^ 64" "el_run c event_log_new xs = l"
  shows "(happens_before l i j \<longleftrightarrow> (i, j) \<in> {(x, y). x \<in> set (event_links l y)}\<^sup>+)
    \<and> \<not> happens_before l i i
    \<and> (happens_before l i j \<longrightarrow> \<not> happens_before l j i)
    \<and> (happens_before l i j \<longrightarrow> happens_before l j k \<longrightarrow> happens_before l i k)"
proof -
  have "event_log_inv c l" using el_run_inv [OF assms(1), of c] assms(2) by simp
  then obtain rank :: "event_id \<Rightarrow> nat"
    where "\<And>i j. (i, j) \<in> (link_rel l)\<^sup>+ \<Longrightarrow> rank i < rank j" using link_rel_rank by blast
  then show ?thesis
    unfolding happens_before_trancl link_rel_def [symmetric]
    by (metis less_asym less_irrefl trancl_trans)
qed

theorem happens_before_strict_order_witness:
  "\<not> happens_before el_demo (the (event_log_tip el_demo ''a'')) (the (event_log_tip el_demo ''b''))
   \<and> happens_before el_demo (the (event_log_tip el_demo ''b'')) (the (event_log_tip el_demo ''a''))"
proof -
  have len: "length el_demo_ops < 2 ^ 64" by (simp add: el_demo_ops_def)
  have hb: "happens_before el_demo (the (event_log_tip el_demo ''b'')) (the (event_log_tip el_demo ''a''))"
    by code_simp
  then show ?thesis
    using happens_before_strict_order [OF len el_demo_def [symmetric]] by blast
qed

text \<open>
  Canonical bytes are unambiguous when links are as wide as content addresses (34
  bytes): contents with equal bytes are equal, so an id, and a signature over it, fixes every field.
\<close>

theorem canonical_bytes_unambiguous:
  assumes "content_wide e" "content_wide f" "canonical_bytes e = canonical_bytes f"
  shows "ec_author e = ec_author f \<and> ec_seq e = ec_seq f \<and> ec_prev e = ec_prev f
    \<and> ec_parents e = ec_parents f \<and> ec_payload e = ec_payload f"
proof -
  have "event_content.truncate e = event_content.truncate f"
    by (rule canonical_bytes_inject)
      (use assms in \<open>simp_all add: canonical_bytes_def content_wide_def event_content.defs\<close>)
  then show ?thesis by (simp add: event_content.defs)
qed

theorem canonical_bytes_unambiguous_witness:
  "ec_payload (append_content el_demo ''a'' [9]) = [9]"
proof -
  let ?e = "append_content el_demo ''a'' [9]"
  have "btree_len (ec_parents ?e) = 1" "list_all (\<lambda>p. length p = 34) (btree_keys (ec_parents ?e))"
    "case ec_prev ?e of None \<Rightarrow> True | Some p \<Rightarrow> length p = 34" by code_simp+
  moreover have "length (ec_author ?e) < 2 ^ 64" by (simp add: append_content_def)
  ultimately have wide: "content_wide ?e" by (simp add: content_wide_def)
  have "ec_payload ?e = ec_payload (ec_for_fixture ''a'' (ec_seq ?e) (ec_prev ?e) (ec_parents ?e) [9])"
    using canonical_bytes_unambiguous [OF wide, of
        "ec_for_fixture ''a'' (ec_seq ?e) (ec_prev ?e) (ec_parents ?e) [9]"] wide
    by (simp add: append_content_def ec_for_fixture_def)
  then show ?thesis by (simp add: ec_for_fixture_def)
qed

text \<open>
  Without that width the bytes are ambiguous, because the \<open>prev\<close> link has no
  length prefix: a signature over one content also verifies a content with another link and another
  payload, whatever the primitives.
\<close>

theorem canonical_bytes_ambiguous:
  "let e = ec_for_fixture a n (Some []) btree_new (0 # pl);
       f = ec_for_fixture a n (Some [0]) btree_new pl
   in e \<noteq> f \<and> ec_id c e = ec_id c f
      \<and> (\<forall>s. signature_verifies c s e = signature_verifies c s f)"
proof -
  have "u64_to_le_bytes 0 = [0, 0, 0, 0, 0, 0, 0, 0]" by code_simp
  moreover have "btree_len (btree_new :: event_id btree_set) = 0"
    "btree_keys (btree_new :: event_id btree_set) = []" by code_simp+
  ultimately have "canonical_bytes (ec_for_fixture a n (Some []) btree_new (0 # pl)) =
      canonical_bytes (ec_for_fixture a n (Some [0]) btree_new pl)"
    by (simp add: canonical_bytes_def ec_for_fixture_def prev_bytes_def)
  then have id: "ec_id c (ec_for_fixture a n (Some []) btree_new (0 # pl)) =
      ec_id c (ec_for_fixture a n (Some [0]) btree_new pl)" by (simp add: ec_id_def)
  have auth: "ec_author (ec_for_fixture a n p ps q) = a" for p ps q by (simp add: ec_for_fixture_def)
  have "signature_verifies c s (ec_for_fixture a n (Some []) btree_new (0 # pl)) =
      signature_verifies c s (ec_for_fixture a n (Some [0]) btree_new pl)" for s
    unfolding signature_verifies_def id auth ..
  then show ?thesis by (simp add: id Let_def) (simp add: ec_for_fixture_def)
qed

lemma append_content_fresh:
  assumes inv: "event_log_inv c l"
    and inj: "inj_on (c_sha c) (insert (canonical_bytes (append_content l a payload))
          (canonical_bytes ` ev_content ` set (btree_values (el_events l))))"
    and names: "length a < 2 ^ 64" "\<And>e. e \<in> set (btree_values (el_events l)) \<Longrightarrow> length (ev_author e) < 2 ^ 64"
  shows "\<not> btree_contains_key (el_events l) (ec_id c (append_content l a payload))"
proof
  let ?ct = "append_content l a payload"
  assume "btree_contains_key (el_events l) (ec_id c ?ct)"
  then obtain e where e: "btree_get (el_events l) (ec_id c ?ct) = Some e"
    by (auto simp: btree_contains_key_def)
  then have mem: "e \<in> set (btree_values (el_events l))" by (auto simp: btree_values_iff)
  have "c_sha c (canonical_bytes (ev_content e)) = c_sha c (canonical_bytes ?ct)"
    using inv_id [OF inv e] by (simp add: ec_id_def)
  then have "canonical_bytes (ev_content e) = canonical_bytes ?ct"
    by (rule inj_onD [OF inj]) (use mem in auto)
  then have "ev_author e = ec_author ?ct \<and> ev_seq e = ec_seq ?ct"
    using names mem by (intro canonical_bytes_author_seq) (auto simp: append_content_def)
  then have "btree_get (el_by_seq l) (a, chain_height l a) \<noteq> None"
    using inv_by_seq [OF inv e] by (simp add: append_content_def)
  then show False using inv_no_gaps [OF inv, of a "chain_height l a"] by simp
qed

text \<open>
  Authoring never fails: \<open>append\<close> on a log with the integrity invariant
  returns the id of a new event that is the author's next one and its new tip, that carries the
  payload, and that happens after every tip of the log as it was; no held event changes. The
  primitives behave as documented and the digest has no collision on the contents involved.
\<close>

theorem append_extends_chain:
  assumes "ed25519_ok c" "event_log_inv c l"
    and "inj_on (c_sha c) (insert (canonical_bytes (append_content l a payload))
          (canonical_bytes ` ev_content ` set (btree_values (el_events l))))"
    and "length a < 2 ^ 64" "\<And>e. e \<in> set (btree_values (el_events l)) \<Longrightarrow> length (ev_author e) < 2 ^ 64"
    and "event_log_append c l a payload = (r, l')"
  shows "\<exists>i e. r = Some i \<and> event_log_get l i = None \<and> event_log_get l' i = Some e
    \<and> ev_author e = a \<and> ec_payload (ev_content e) = payload \<and> ev_seq e = chain_height l a
    \<and> event_log_tip l' a = Some i
    \<and> (\<forall>b q. event_log_tip l b = Some q \<longrightarrow> happens_before l' q i)
    \<and> (\<forall>j x. event_log_get l j = Some x \<longrightarrow> event_log_get l' j = Some x)"
proof -
  let ?ct = "append_content l a payload" and ?i = "ec_id c (append_content l a payload)"
  obtain e where e: "ev_content e = ?ct" "admissible c l e"
    and app: "event_log_append c l a payload =
       (case ingest c l e of (Inl _, l') \<Rightarrow> (None, l') | (Inr i, l') \<Rightarrow> (Some i, l'))"
    using append_event [OF assms(1,2)] by blast
  have new: "\<not> btree_contains_key (el_events l) ?i"
    by (rule append_content_fresh [OF assms(2-5)])
  have "ingest c l e = (Inr ?i, ingest_admit c l e)"
    using ingest_admissible [OF assms(2) e(2)] e(1) new by simp
  then have res: "r = Some ?i" "l' = ingest_admit c l e" using app assms(6) by simp_all
  have links: "event_links l' ?i = btree_keys (ec_links ?ct)"
    by (simp add: res(2) event_links_def admit_sel e(1))
  have "happens_before l' q ?i" if q: "event_log_tip l b = Some q" for b q
  proof -
    have "q \<in> set (btree_keys (ec_links ?ct))"
    proof (cases "b = a")
      case True
      then show ?thesis using q by (simp add: set_btree_keys_links append_content_def event_log_tip_def)
    next
      case False
      then have "q \<in> set (btree_keys (ec_parents ?ct))"
        using q unfolding append_parents event_log_tip_def by blast
      then show ?thesis by (simp add: set_btree_keys_links bset_elems_def)
    qed
    then show ?thesis unfolding happens_before_trancl by (auto simp: link_rel_def links)
  qed
  moreover have "event_log_get l ?i = None" using new by (simp add: event_log_get_def btree_contains_key_def)
  moreover have "ec_author ?ct = a" "ec_seq ?ct = chain_height l a" "ec_payload ?ct = payload"
    by (simp_all add: append_content_def)
  ultimately show ?thesis
    using e(1) new by (intro exI [of _ ?i] exI [of _ e])
      (auto simp: res event_log_get_def event_log_tip_def admit_sel btree_contains_key_def)
qed

theorem append_extends_chain_witness:
  "fst (event_log_append demo_crypto event_log_new ''a'' [9])
     = event_log_tip (snd (event_log_append demo_crypto event_log_new ''a'' [9])) ''a''"
proof -
  have "btree_values (el_events event_log_new) = []" by code_simp
  then have "\<exists>i e. fst (event_log_append demo_crypto event_log_new ''a'' [9]) = Some i
      \<and> event_log_get event_log_new i = None
      \<and> event_log_get (snd (event_log_append demo_crypto event_log_new ''a'' [9])) i = Some e
      \<and> ev_author e = ''a'' \<and> ec_payload (ev_content e) = [9] \<and> ev_seq e = chain_height event_log_new ''a''
      \<and> event_log_tip (snd (event_log_append demo_crypto event_log_new ''a'' [9])) ''a'' = Some i
      \<and> (\<forall>b q. event_log_tip event_log_new b = Some q \<longrightarrow>
           happens_before (snd (event_log_append demo_crypto event_log_new ''a'' [9])) q i)
      \<and> (\<forall>j x. event_log_get event_log_new j = Some x \<longrightarrow>
           event_log_get (snd (event_log_append demo_crypto event_log_new ''a'' [9])) j = Some x)"
    by (intro append_extends_chain [OF ed25519_ok_demo event_log_inv_new]) auto
  then show ?thesis by auto
qed

end
