(* ===== verification/AntiEntropy.thy ===== *)
theory AntiEntropy
  imports EventLog
begin

text \<open>
  \<^verbatim>\<open>crates/pillar-eventlog/src/antientropy.rs\<close>: digests, the transfer of what a peer
  misses in causal order, and reconciliation of two replicas.
\<close>

section \<open>Digests\<close>

record log_digest =
  ld_heights :: "(author, u64) btree_map"

definition digest_height :: "log_digest \<Rightarrow> author \<Rightarrow> u64" where
  "digest_height d a = (case btree_get (ld_heights d) a of Some h \<Rightarrow> h | None \<Rightarrow> 0)"

definition digest_authors :: "log_digest \<Rightarrow> author list" where
  "digest_authors d = btree_keys (ld_heights d)"

definition event_log_digest :: "event_log \<Rightarrow> log_digest" where
  "event_log_digest l = \<lparr>ld_heights = el_height l\<rparr>"

definition event_at :: "event_log \<Rightarrow> author \<Rightarrow> u64 \<Rightarrow> event option" where
  "event_at l a n =
     (case btree_get (el_by_seq l) (a, n) of
        None \<Rightarrow> None
      | Some i \<Rightarrow> btree_get (el_events l) i)"

section \<open>What a peer misses\<close>

text \<open>The range \<open>from..to\<close> of 64-bit positions.\<close>

definition seq_range :: "u64 \<Rightarrow> u64 \<Rightarrow> u64 list" where
  "seq_range m n = map of_nat [unat m..<unat n]"

definition missing_ids :: "event_log \<Rightarrow> log_digest \<Rightarrow> event_id btree_set" where
  "missing_ids l d = bset_collect (concat (map
     (\<lambda>(a, local_height).
        List.map_filter (\<lambda>n. btree_get (el_by_seq l) (a, n)) (seq_range (digest_height d a) local_height))
     (btree_iter (el_height l))))"

text \<open>
  The depth-first emission: its state is the set of emitted ids and the list of emitted events.
  A call inserts its id into the visiting set, lets the calls it makes use that set, and takes the id
  out again before it returns, so the set is an argument here.
\<close>

type_synonym emit_state = "event_id btree_set \<times> event list"

definition missing_links :: "event_id btree_set \<Rightarrow> event \<Rightarrow> event_id list" where
  "missing_links missing e =
     filter (bset_contains missing)
       ((case ec_prev (ev_content e) of Some p \<Rightarrow> [p] | None \<Rightarrow> [])
        @ btree_keys (ec_parents (ev_content e)))"

definition unvisited :: "event_log \<Rightarrow> event_id btree_set \<Rightarrow> nat" where
  "unvisited l visiting = card (set (btree_keys (el_events l)) - bset_elems visiting)"

lemma unvisited_insert:
  assumes "\<not> bset_contains visiting i" "btree_get (el_events l) i = Some e"
  shows "unvisited l (bset_insert i visiting) < unvisited l visiting"
proof -
  let ?U = "set (btree_keys (el_events l)) - bset_elems visiting"
  have "i \<in> ?U" using assms by (simp add: btree_keys_iff btree_contains_key_def bset_elems_iff)
  then have "card (?U - {i}) < card ?U" by (intro card_Diff1_less) simp_all
  moreover have "set (btree_keys (el_events l)) - bset_elems (bset_insert i visiting) = ?U - {i}" by auto
  ultimately show ?thesis by (simp add: unvisited_def)
qed

function emit_in_causal_order ::
    "event_log \<Rightarrow> event_id btree_set \<Rightarrow> event_id btree_set \<Rightarrow> event_id \<Rightarrow> emit_state \<Rightarrow> emit_state"
  and emit_all ::
    "event_log \<Rightarrow> event_id btree_set \<Rightarrow> event_id btree_set \<Rightarrow> event_id list \<Rightarrow> emit_state \<Rightarrow> emit_state"
where
  "emit_in_causal_order l missing visiting i st =
     (if bset_contains (fst st) i \<or> bset_contains visiting i then st
      else case btree_get (el_events l) i of
             None \<Rightarrow> st
           | Some e \<Rightarrow>
               (let st' = emit_all l missing (bset_insert i visiting) (missing_links missing e) st in
                if bset_contains (fst st') i then st'
                else (bset_insert i (fst st'), snd st' @ [e])))"
| "emit_all l missing visiting [] st = st"
| "emit_all l missing visiting (j # js) st =
     emit_all l missing visiting js (emit_in_causal_order l missing visiting j st)"
  by pat_completeness auto

termination
proof (relation "inv_image (less_than <*lex*> less_than)
    (case_sum (\<lambda>(l, missing, visiting, i, st). (unvisited l visiting, 0))
       (\<lambda>(l, missing, visiting, js, st). (unvisited l visiting, Suc (length js))))")
qed (auto simp: unvisited_insert)

definition events_missing_from :: "event_log \<Rightarrow> log_digest \<Rightarrow> event list" where
  "events_missing_from l d =
     (let missing = missing_ids l d in
      snd (emit_all l missing btree_new (btree_keys missing) (btree_new, [])))"

section \<open>Synchronization\<close>

definition sync_from :: "crypto \<Rightarrow> event_log \<Rightarrow> event_log \<Rightarrow> nat \<times> event_log" where
  "sync_from c l sender =
     (let wanted = events_missing_from sender (event_log_digest l);
          l' = fold (\<lambda>e l. snd (ingest c l e)) wanted l
      in (event_log_len l' - event_log_len l, l'))"

text \<open>The loop of \<open>reconcile\<close>, with fuel; \<open>None\<close> is fuel that ran out.\<close>

fun reconcile ::
  "nat \<Rightarrow> crypto \<Rightarrow> event_log \<Rightarrow> event_log \<Rightarrow> nat \<Rightarrow> (nat \<times> event_log \<times> event_log) option" where
  "reconcile 0 c a b transferred = None"
| "reconcile (Suc fuel) c a b transferred =
     (case sync_from c a b of (a_pulled, a') \<Rightarrow>
        (case sync_from c b a' of (b_pulled, b') \<Rightarrow>
           (let total = transferred + (a_pulled + b_pulled) in
            if a_pulled = 0 \<and> b_pulled = 0 then Some (total, a', b')
            else reconcile fuel c a' b' total)))"

section \<open>The transferred events\<close>

lemma set_seq_range: "n \<in> set (seq_range m h) \<longleftrightarrow> m \<le> n \<and> n < h"
proof
  assume "n \<in> set (seq_range m h)"
  then obtain k where k: "n = of_nat k" "unat m \<le> k" "k < unat h" by (auto simp: seq_range_def)
  then have "k < 18446744073709551616" using u64_lt [of h] by linarith
  then have "unat n = k" using k(1) by (simp add: unat_of_nat)
  then show "m \<le> n \<and> n < h" using k by (simp add: word_le_nat_alt word_less_nat_alt)
next
  assume "m \<le> n \<and> n < h"
  then have "n = of_nat (unat n)" "unat n \<in> set [unat m..<unat h]"
    by (auto simp: word_le_nat_alt word_less_nat_alt)
  then show "n \<in> set (seq_range m h)" unfolding seq_range_def by (metis image_eqI set_map)
qed

lemma missing_ids_iff:
  assumes "event_log_inv c l"
  shows "bset_contains (missing_ids l d) i \<longleftrightarrow>
    (\<exists>e. btree_get (el_events l) i = Some e \<and> digest_height d (ev_author e) \<le> ev_seq e)"
proof -
  have "bset_contains (missing_ids l d) i \<longleftrightarrow>
      (\<exists>a h n. btree_get (el_height l) a = Some h \<and> digest_height d a \<le> n \<and> n < h
         \<and> btree_get (el_by_seq l) (a, n) = Some i)"
  proof -
    have "bset_contains (missing_ids l d) i \<longleftrightarrow> (\<exists>x\<in>set (btree_iter (el_height l)).
        i \<in> set (List.map_filter (\<lambda>n. btree_get (el_by_seq l) (fst x, n))
          (seq_range (digest_height d (fst x)) (snd x))))"
      by (simp add: missing_ids_def case_prod_beta)
    also have "\<dots> \<longleftrightarrow> (\<exists>x\<in>set (btree_iter (el_height l)). \<exists>n. digest_height d (fst x) \<le> n \<and> n < snd x
        \<and> btree_get (el_by_seq l) (fst x, n) = Some i)"
      unfolding map_filter_iff Bex_def set_seq_range by blast
    finally show ?thesis unfolding Bex_def split_paired_Ex btree_iter_iff fst_conv snd_conv by blast
  qed
  also have "\<dots> \<longleftrightarrow> (\<exists>a n. digest_height d a \<le> n \<and> btree_get (el_by_seq l) (a, n) = Some i)"
  proof -
    have "\<exists>h. btree_get (el_height l) a = Some h \<and> n < h" if "btree_get (el_by_seq l) (a, n) = Some i" for a n
      using inv_no_gaps [OF assms, of a n] that by (auto simp: chain_height_def split: option.splits)
    then show ?thesis by blast
  qed
  also have "\<dots> \<longleftrightarrow> (\<exists>e. btree_get (el_events l) i = Some e \<and> digest_height d (ev_author e) \<le> ev_seq e)"
    using inv_at [OF assms] inv_by_seq [OF assms] by metis
  finally show ?thesis .
qed

text \<open>A list of events in causal order, given the ids that are there before it.\<close>

fun causal_list :: "crypto \<Rightarrow> event_id set \<Rightarrow> event list \<Rightarrow> bool" where
  "causal_list c P [] \<longleftrightarrow> True"
| "causal_list c P (e # es) \<longleftrightarrow>
     set (btree_keys (ec_links (ev_content e))) \<subseteq> P \<and> causal_list c (insert (ec_id c (ev_content e)) P) es"

abbreviation eids :: "crypto \<Rightarrow> event list \<Rightarrow> event_id list" where
  "eids c es \<equiv> map (\<lambda>e. ec_id c (ev_content e)) es"

lemma causal_list_snoc:
  "causal_list c P (es @ [e]) \<longleftrightarrow>
     causal_list c P es \<and> set (btree_keys (ec_links (ev_content e))) \<subseteq> P \<union> set (eids c es)"
  by (induction es arbitrary: P) auto

definition emit_ok :: "crypto \<Rightarrow> event_log \<Rightarrow> event_id btree_set \<Rightarrow> emit_state \<Rightarrow> bool" where
  "emit_ok c l missing st \<longleftrightarrow>
     bset_elems (fst st) = set (eids c (snd st)) \<and> distinct (eids c (snd st))
     \<and> (\<forall>e\<in>set (snd st). btree_get (el_events l) (ec_id c (ev_content e)) = Some e
          \<and> bset_contains missing (ec_id c (ev_content e)))
     \<and> causal_list c (- bset_elems missing) (snd st)"

lemma missing_links_iff:
  "j \<in> set (missing_links missing e) \<longleftrightarrow>
     bset_contains missing j \<and> j \<in> set (btree_keys (ec_links (ev_content e)))"
  by (auto simp: missing_links_def set_btree_keys_links bset_elems_def split: option.splits)

lemma emit_ok_push:
  assumes "emit_ok c l missing st" "btree_get (el_events l) i = Some e" "ec_id c (ev_content e) = i"
    and "bset_contains missing i" "\<not> bset_contains (fst st) i"
    and "set (missing_links missing e) \<subseteq> bset_elems (fst st)"
  shows "emit_ok c l missing (bset_insert i (fst st), snd st @ [e])"
proof -
  have "set (btree_keys (ec_links (ev_content e))) \<subseteq> - bset_elems missing \<union> set (eids c (snd st))"
    using assms(1,6) by (auto simp: emit_ok_def missing_links_iff bset_elems_iff)
  moreover have "i \<notin> set (eids c (snd st))"
    using assms(1,5) by (auto simp: emit_ok_def bset_elems_iff [symmetric])
  ultimately show ?thesis
    using assms(1-4) by (auto simp: emit_ok_def causal_list_snoc)
qed

lemma emit_correct:
  assumes inv: "event_log_inv c l"
    and rank: "\<And>i x. x \<in> set (event_links l i) \<Longrightarrow> (rank :: event_id \<Rightarrow> nat) x < rank i"
    and held: "\<And>i. bset_contains missing i \<Longrightarrow> btree_get (el_events l) i \<noteq> None"
  shows "emit_ok c l missing st \<Longrightarrow> bset_contains missing i \<Longrightarrow>
      (\<And>v. bset_contains visiting v \<Longrightarrow> rank i < rank v) \<Longrightarrow>
      emit_ok c l missing (emit_in_causal_order l missing visiting i st)
      \<and> insert i (bset_elems (fst st)) \<subseteq> bset_elems (fst (emit_in_causal_order l missing visiting i st))"
    and "emit_ok c l missing st \<Longrightarrow>
      (\<And>j. j \<in> set js \<Longrightarrow> bset_contains missing j \<and> (\<forall>v. bset_contains visiting v \<longrightarrow> rank j < rank v)) \<Longrightarrow>
      emit_ok c l missing (emit_all l missing visiting js st)
      \<and> set js \<union> bset_elems (fst st) \<subseteq> bset_elems (fst (emit_all l missing visiting js st))"
  using inv rank held
proof (induction l missing visiting i st and l missing visiting js st
    rule: emit_in_causal_order_emit_all.induct)
  case (1 l missing visiting i st)
  show ?case
  proof (cases "bset_contains (fst st) i")
    case True
    then show ?thesis using "1.prems" by (auto simp: bset_elems_iff)
  next
    case False
    have not_vis: "\<not> bset_contains visiting i" using "1.prems"(3) by blast
    obtain e where e: "btree_get (el_events l) i = Some e"
      using "1.prems"(6) [OF "1.prems"(2)] by blast
    define st' where "st' = emit_all l missing (bset_insert i visiting) (missing_links missing e) st"
    have rec: "emit_ok c l missing st'
        \<and> set (missing_links missing e) \<union> bset_elems (fst st) \<subseteq> bset_elems (fst st')"
      unfolding st'_def
    proof (rule "1.IH")
      show "\<not> (bset_contains (fst st) i \<or> bset_contains visiting i)" using False not_vis by simp
      show "btree_get (el_events l) i = Some e" by (rule e)
      show "bset_contains missing j \<and> (\<forall>v. bset_contains (bset_insert i visiting) v \<longrightarrow> rank j < rank v)"
        if "j \<in> set (missing_links missing e)" for j
      proof -
        have "j \<in> set (event_links l i)" using that e by (simp add: missing_links_iff event_links_def)
        then have "rank j < rank i" by (rule "1.prems"(5))
        then show ?thesis
          using that "1.prems"(3) by (auto simp: missing_links_iff dest: less_trans)
      qed
    qed (use "1.prems" in auto)
    have step: "emit_in_causal_order l missing visiting i st =
        (if bset_contains (fst st') i then st' else (bset_insert i (fst st'), snd st' @ [e]))"
      using False not_vis e by (simp add: st'_def Let_def)
    show ?thesis
      unfolding step using rec emit_ok_push [of c l missing st' i e] "1.prems"(2) e
        inv_id [OF "1.prems"(4) e] by (auto simp: bset_elems_iff)
  qed
next
  case (2 l missing visiting st)
  then show ?case by simp
next
  case (3 l missing visiting j js st)
  have "emit_ok c l missing (emit_in_causal_order l missing visiting j st)
      \<and> insert j (bset_elems (fst st)) \<subseteq> bset_elems (fst (emit_in_causal_order l missing visiting j st))"
    by (rule "3.IH"(1)) (use "3.prems" in auto)
  moreover from this have "emit_ok c l missing (emit_all l missing visiting js (emit_in_causal_order l missing visiting j st))
      \<and> set js \<union> bset_elems (fst (emit_in_causal_order l missing visiting j st))
        \<subseteq> bset_elems (fst (emit_all l missing visiting js (emit_in_causal_order l missing visiting j st)))"
    by (intro "3.IH"(2)) (use "3.prems" in auto)
  ultimately show ?case by auto
qed

lemma events_missing_from_spec:
  assumes inv: "event_log_inv c l"
  shows "set (eids c (events_missing_from l d)) = bset_elems (missing_ids l d)"
    and "distinct (eids c (events_missing_from l d))"
    and "\<And>e. e \<in> set (events_missing_from l d) \<Longrightarrow> btree_get (el_events l) (ec_id c (ev_content e)) = Some e"
    and "causal_list c (- bset_elems (missing_ids l d)) (events_missing_from l d)"
proof -
  obtain rank :: "event_id \<Rightarrow> nat" where rank: "\<And>i x. x \<in> set (event_links l i) \<Longrightarrow> rank x < rank i"
    using inv_rank [OF inv] by blast
  let ?M = "missing_ids l d"
  let ?st = "emit_all l ?M btree_new (btree_keys ?M) (btree_new, [])"
  have held: "btree_get (el_events l) i \<noteq> None" if "bset_contains ?M i" for i
    using that by (auto simp: missing_ids_iff [OF inv])
  have "emit_ok c l ?M ?st \<and> set (btree_keys ?M) \<union> bset_elems (fst (btree_new, [] :: event list))
      \<subseteq> bset_elems (fst ?st)"
    by (rule emit_correct(2) [OF inv rank held])
      (auto simp: emit_ok_def btree_keys_iff)
  moreover have "snd ?st = events_missing_from l d" by (simp add: events_missing_from_def Let_def)
  ultimately show "set (eids c (events_missing_from l d)) = bset_elems ?M"
    "distinct (eids c (events_missing_from l d))"
    "\<And>e. e \<in> set (events_missing_from l d) \<Longrightarrow> btree_get (el_events l) (ec_id c (ev_content e)) = Some e"
    "causal_list c (- bset_elems ?M) (events_missing_from l d)"
    by (auto simp: emit_ok_def bset_elems_def bset_elems_iff [symmetric])
qed

section \<open>Synchronizing consistent replicas\<close>

text \<open>
  Two logs are consistent when an id and a chain position determine each other across them: no
  author has signed two events for one position, and no id names two events.
\<close>

definition el_consistent :: "event_log \<Rightarrow> event_log \<Rightarrow> bool" where
  "el_consistent l s \<longleftrightarrow>
     (\<forall>i e j f. btree_get (el_events l) i = Some e \<longrightarrow> btree_get (el_events s) j = Some f \<longrightarrow>
        (i = j \<longleftrightarrow> ev_author e = ev_author f \<and> ev_seq e = ev_seq f))"

lemma el_consistentD:
  "el_consistent l s \<Longrightarrow> btree_get (el_events l) i = Some e \<Longrightarrow> btree_get (el_events s) j = Some f \<Longrightarrow>
     i = j \<longleftrightarrow> ev_author e = ev_author f \<and> ev_seq e = ev_seq f"
  unfolding el_consistent_def by blast

text \<open>
  The receiver after it ingested the events \<open>P\<close>: what it held before, and the sender's
  events of \<open>P\<close>.
\<close>

definition sync_state :: "crypto \<Rightarrow> event_log \<Rightarrow> event_log \<Rightarrow> event_id set \<Rightarrow> event_log \<Rightarrow> bool" where
  "sync_state c l s P k \<longleftrightarrow> event_log_inv c k
     \<and> (\<forall>i. btree_get (el_events k) i =
          (if btree_contains_key (el_events l) i then btree_get (el_events l) i
           else if i \<in> P then btree_get (el_events s) i else None))"

lemma digest_height_digest [simp]: "digest_height (event_log_digest l) a = chain_height l a"
  by (simp add: digest_height_def event_log_digest_def chain_height_def)

lemma sync_state_get:
  assumes "sync_state c l s P k" "btree_get (el_events k) i = Some e"
  shows "btree_get (el_events l) i = Some e \<or> i \<in> P \<and> btree_get (el_events s) i = Some e"
  using assms by (auto simp: sync_state_def split: if_splits)

lemma sync_state_old:
  "sync_state c l s P k \<Longrightarrow> btree_get (el_events l) i = Some e \<Longrightarrow> btree_get (el_events k) i = Some e"
  by (simp add: sync_state_def btree_contains_key_def)

lemma missing_not_held:
  assumes l: "event_log_inv c l" and s: "event_log_inv c s" and con: "el_consistent l s"
    and e: "btree_get (el_events s) i = Some e" and m: "bset_contains (missing_ids s (event_log_digest l)) i"
  shows "btree_get (el_events l) i = None"
proof (rule ccontr)
  assume "btree_get (el_events l) i \<noteq> None"
  then obtain f where f: "btree_get (el_events l) i = Some f" by blast
  then have "ev_author f = ev_author e" "ev_seq f = ev_seq e" using el_consistentD [OF con f e] by auto
  moreover have "ev_seq f < chain_height l (ev_author f)" using below_height_iff [OF l] f by blast
  moreover have "chain_height l (ev_author e) \<le> ev_seq e"
    using m e by (auto simp: missing_ids_iff [OF s])
  ultimately show False by simp
qed

lemma sync_state_new:
  assumes l: "event_log_inv c l" and s: "event_log_inv c s" and con: "el_consistent l s"
    and k: "sync_state c l s P k" and P: "P \<subseteq> bset_elems (missing_ids s (event_log_digest l))"
    and i: "i \<in> P" "btree_get (el_events s) i = Some e"
  shows "btree_get (el_events k) i = Some e"
proof -
  have "btree_get (el_events l) i = None"
    using missing_not_held [OF l s con i(2)] P i(1) by (auto simp: bset_elems_iff)
  then show ?thesis using k i by (simp add: sync_state_def btree_contains_key_def)
qed

text \<open>An event of the sender that is below the receiver's height is held by the receiver.\<close>

lemma not_missing_held:
  assumes l: "event_log_inv c l" and s: "event_log_inv c s" and con: "el_consistent l s"
    and e: "btree_get (el_events s) i = Some e" and m: "\<not> bset_contains (missing_ids s (event_log_digest l)) i"
  shows "\<exists>f. btree_get (el_events l) i = Some f \<and> ev_author f = ev_author e \<and> ev_seq f = ev_seq e"
proof -
  have "ev_seq e < chain_height l (ev_author e)" using m e by (auto simp: missing_ids_iff [OF s])
  then obtain j f where f: "btree_get (el_events l) j = Some f" "ev_author f = ev_author e" "ev_seq f = ev_seq e"
    using below_height_iff [OF l] by blast
  then have "j = i" using el_consistentD [OF con f(1) e] by simp
  then show ?thesis using f by blast
qed

text \<open>A link of a sender's event is in the receiver once the earlier transfers are.\<close>

lemma sync_link:
  assumes l: "event_log_inv c l" and s: "event_log_inv c s" and con: "el_consistent l s"
    and k: "sync_state c l s P k" and P: "P \<subseteq> bset_elems (missing_ids s (event_log_digest l))"
    and x: "btree_get (el_events s) i = Some e" "i \<in> - bset_elems (missing_ids s (event_log_digest l)) \<union> P"
  shows "\<exists>f. btree_get (el_events k) i = Some f \<and> ev_author f = ev_author e \<and> ev_seq f = ev_seq e"
proof (cases "i \<in> P")
  case True
  then show ?thesis using sync_state_new [OF l s con k P True x(1)] by blast
next
  case False
  then show ?thesis
    using not_missing_held [OF l s con x(1)] sync_state_old [OF k] x(2) by (auto simp: bset_elems_iff)
qed

lemma sync_step:
  assumes l: "event_log_inv c l" and s: "event_log_inv c s" and con: "el_consistent l s"
    and k: "sync_state c l s P k" and P: "P \<subseteq> bset_elems (missing_ids s (event_log_digest l))"
    and e: "btree_get (el_events s) i = Some e" "bset_contains (missing_ids s (event_log_digest l)) i" "i \<notin> P"
    and links: "set (btree_keys (ec_links (ev_content e))) \<subseteq> - bset_elems (missing_ids s (event_log_digest l)) \<union> P"
  shows "sync_state c l s (insert i P) (snd (ingest c k e))"
proof -
  let ?a = "ev_author e" and ?n = "ev_seq e"
  have invk: "event_log_inv c k" using k by (simp add: sync_state_def)
  have id: "ec_id c (ev_content e) = i" by (rule inv_id [OF s e(1)])
  have old: "btree_get (el_events l) i = None" by (rule missing_not_held [OF l s con e(1,2)])
  then have new: "btree_get (el_events k) i = None"
    using k e(3) by (simp add: sync_state_def btree_contains_key_def)
  note link = sync_link [OF l s con k P]
  have free: "\<not> ?n < chain_height k ?a"
  proof
    assume "?n < chain_height k ?a"
    then obtain j f where f: "btree_get (el_events k) j = Some f" "ev_author f = ?a" "ev_seq f = ?n"
      using below_height_iff [OF invk] by blast
    from sync_state_get [OF k f(1)] show False
    proof
      assume lf: "btree_get (el_events l) j = Some f"
      then have "?n < chain_height l ?a" using below_height_iff [OF l] f by blast
      then show False using e by (auto simp: missing_ids_iff [OF s])
    next
      assume sf: "j \<in> P \<and> btree_get (el_events s) j = Some f"
      then have "btree_get (el_by_seq s) (?a, ?n) = Some j" "btree_get (el_by_seq s) (?a, ?n) = Some i"
        using e(1) f by (auto simp: by_seq_iff [OF s])
      then show False using sf e(3) by simp
    qed
  qed
  have pos: "?n = chain_height k ?a \<and> ec_prev (ev_content e) = btree_get (el_tip k) ?a"
  proof (cases "?n = 0")
    case True
    then have "chain_height k ?a = 0" using free by (simp add: word_greater_zero_iff)
    then show ?thesis using True inv_prev [OF s e(1)] inv_tip [OF invk, of ?a] by simp
  next
    case False
    have "?n < chain_height s ?a" using below_height_iff [OF s] e(1) by blast
    then have "?n - 1 < chain_height s ?a" by (rule less_trans [OF u64_pred_less [OF False]])
    then obtain p f where p: "btree_get (el_events s) p = Some f" "ev_author f = ?a" "ev_seq f = ?n - 1"
      using below_height_iff [OF s] by blast
    then have prev: "ec_prev (ev_content e) = Some p"
      using inv_prev [OF s e(1)] False inv_by_seq [OF s p(1)] by simp
    then have "p \<in> - bset_elems (missing_ids s (event_log_digest l)) \<union> P"
      using links by (auto simp: set_btree_keys_links)
    then obtain g where g: "btree_get (el_events k) p = Some g" "ev_author g = ?a" "ev_seq g = ?n - 1"
      using link [OF p(1)] p(2,3) by auto
    then have "?n - 1 < chain_height k ?a" using below_height_iff [OF invk] by blast
    then have h: "?n = chain_height k ?a"
      using free False by (metis add_diff_cancel_right' diff_add_cancel inc_le not_less order.antisym)
    then show ?thesis
      using False prev inv_tip [OF invk, of ?a] inv_by_seq [OF invk g(1)] g(2,3) by simp
  qed
  have "\<exists>x. btree_get (el_events k) p = Some x \<and> ev_author x \<noteq> ?a"
    if p: "p \<in> set (btree_keys (ec_parents (ev_content e)))" for p
  proof -
    obtain f where f: "btree_get (el_events s) p = Some f" "ev_author f \<noteq> ?a"
      using inv_parent [OF s e(1)] p unfolding btree_keys_iff by blast
    have "p \<in> - bset_elems (missing_ids s (event_log_digest l)) \<union> P"
      using p links by (auto simp: set_btree_keys_links bset_elems_def)
    then show ?thesis using link [OF f(1)] f(2) by auto
  qed
  then have "admissible c k e"
    using pos inv_schema [OF s e(1)] inv_authentic [OF s e(1)] by (auto simp: admissible_def)
  then have ing: "snd (ingest c k e) = ingest_admit c k e"
    using ingest_admissible [OF invk] new id by (simp add: btree_contains_key_def)
  have "unat ?n + 1 < 2 ^ 64"
  proof -
    have "?n < chain_height s ?a" using below_height_iff [OF s] e(1) by blast
    then have "unat ?n < unat (chain_height s ?a)" by (simp add: word_less_nat_alt)
    then have "unat ?n + 1 < 18446744073709551616" using u64_lt [of "chain_height s ?a"] by linarith
    then show ?thesis by simp
  qed
  then have "event_log_inv c (ingest_admit c k e)"
    using \<open>admissible c k e\<close> new id by (intro event_log_inv_admit [OF invk]) (auto simp: btree_contains_key_def)
  then show ?thesis
    using k old e(1) by (auto simp: ing sync_state_def admit_sel id btree_contains_key_def)
qed

lemma sync_loop:
  assumes l: "event_log_inv c l" and s: "event_log_inv c s" and con: "el_consistent l s"
    and k: "sync_state c l s P k" and P: "P \<subseteq> bset_elems (missing_ids s (event_log_digest l))"
    and es: "\<And>e. e \<in> set es \<Longrightarrow> btree_get (el_events s) (ec_id c (ev_content e)) = Some e"
      "set (eids c es) \<subseteq> bset_elems (missing_ids s (event_log_digest l))"
      "distinct (eids c es)" "set (eids c es) \<inter> P = {}"
      "causal_list c (- bset_elems (missing_ids s (event_log_digest l)) \<union> P) es"
  shows "sync_state c l s (P \<union> set (eids c es)) (fold (\<lambda>e l. snd (ingest c l e)) es k)"
  using k P es
proof (induction es arbitrary: k P)
  case Nil
  then show ?case by simp
next
  case (Cons e es)
  let ?i = "ec_id c (ev_content e)"
  have "sync_state c l s (insert ?i P) (snd (ingest c k e))"
    by (rule sync_step [OF l s con Cons.prems(1,2)])
      (use Cons.prems in \<open>auto simp: bset_elems_iff\<close>)
  moreover have "causal_list c (- bset_elems (missing_ids s (event_log_digest l)) \<union> insert ?i P) es"
    using Cons.prems(7) by simp
  ultimately have "sync_state c l s (insert ?i P \<union> set (eids c es))
      (fold (\<lambda>e l. snd (ingest c l e)) es (snd (ingest c k e)))"
    using Cons.prems by (intro Cons.IH) auto
  then show ?case by simp
qed

lemma sync_from_state:
  assumes "event_log_inv c l" "event_log_inv c s" "el_consistent l s"
  shows "sync_state c l s (bset_elems (missing_ids s (event_log_digest l))) (snd (sync_from c l s))"
proof -
  have "sync_state c l s {} l" using assms(1) by (simp add: sync_state_def btree_contains_key_def)
  from sync_loop [OF assms this, of "events_missing_from s (event_log_digest l)"]
  show ?thesis
    using events_missing_from_spec [where d = "event_log_digest l", OF assms(2)]
    by (simp add: sync_from_def Let_def)
qed

text \<open>After a round the receiver holds what either held, and keeps its own copies.\<close>

lemma sync_from_get:
  assumes "event_log_inv c l" "event_log_inv c s" "el_consistent l s"
  shows "btree_get (el_events (snd (sync_from c l s))) i =
    (case btree_get (el_events l) i of Some e \<Rightarrow> Some e | None \<Rightarrow> btree_get (el_events s) i)"
proof (cases "btree_get (el_events l) i")
  case None
  have "btree_get (el_events s) i = None" if "\<not> bset_contains (missing_ids s (event_log_digest l)) i"
    using not_missing_held [OF assms _ that] None by (metis option.exhaust option.distinct(1))
  then show ?thesis
    using sync_from_state [OF assms] None
    by (auto simp: sync_state_def btree_contains_key_def bset_elems_iff)
next
  case (Some e)
  then show ?thesis using sync_state_old [OF sync_from_state [OF assms] Some] by simp
qed

lemma sync_from_inv:
  "event_log_inv c l \<Longrightarrow> event_log_inv c s \<Longrightarrow> el_consistent l s \<Longrightarrow> event_log_inv c (snd (sync_from c l s))"
  using sync_from_state by (simp add: sync_state_def)

lemma el_consistent_self: "event_log_inv c l \<Longrightarrow> el_consistent l l"
  unfolding el_consistent_def
  by (intro allI impI iffI) (simp, metis inv_by_seq option.inject)

lemma el_consistent_sym: "el_consistent l s \<Longrightarrow> el_consistent s l"
  unfolding el_consistent_def by metis

lemma el_consistent_sync:
  assumes "event_log_inv c l" "event_log_inv c s" "el_consistent l s" "el_consistent t l" "el_consistent t s"
  shows "el_consistent t (snd (sync_from c l s))"
  unfolding el_consistent_def
proof (intro allI impI)
  fix i e j f
  assume t: "btree_get (el_events t) i = Some e" "btree_get (el_events (snd (sync_from c l s))) j = Some f"
  then have "btree_get (el_events l) j = Some f \<or> btree_get (el_events s) j = Some f"
    by (auto simp: sync_from_get [OF assms(1-3)] split: option.splits)
  then show "i = j \<longleftrightarrow> ev_author e = ev_author f \<and> ev_seq e = ev_seq f"
    using el_consistentD [OF assms(4) t(1)] el_consistentD [OF assms(5) t(1)] by blast
qed

abbreviation el_ids :: "event_log \<Rightarrow> event_id set" where
  "el_ids l \<equiv> set (btree_keys (el_events l))"

lemma el_ids_iff: "i \<in> el_ids l \<longleftrightarrow> btree_get (el_events l) i \<noteq> None"
  by (simp add: btree_keys_iff btree_contains_key_def)

lemma sync_ids:
  assumes "event_log_inv c l" "event_log_inv c s" "el_consistent l s"
  shows "el_ids (snd (sync_from c l s)) = el_ids l \<union> el_ids s"
  by (rule set_eqI) (simp add: el_ids_iff sync_from_get [OF assms] split: option.splits)

lemma sync_len:
  assumes "event_log_inv c l" "event_log_inv c s" "el_consistent l s"
  shows "fst (sync_from c l s) = card (el_ids s - el_ids l)"
proof -
  have "card (el_ids (snd (sync_from c l s))) = card (el_ids l) + card (el_ids s - el_ids l)"
    unfolding sync_ids [OF assms]
    by (metis Un_Diff_cancel card_Un_disjoint Diff_disjoint List.finite_set finite_Diff)
  then show ?thesis
    by (simp add: sync_from_def Let_def event_log_len_def btree_len_card dom_btree_get)
qed

lemma sync_from_nothing:
  assumes "missing_ids s (event_log_digest l) = btree_new"
  shows "sync_from c l s = (0, l)"
proof -
  have "btree_keys (btree_new :: event_id btree_set) = []" by (simp add: btree_keys_def btree_new.rep_eq)
  then have "events_missing_from s (event_log_digest l) = []"
    by (simp add: events_missing_from_def Let_def assms)
  then show ?thesis by (simp add: sync_from_def)
qed

lemma sync_from_same:
  assumes inv: "event_log_inv c l" "event_log_inv c s" and con: "el_consistent l s" and "el_ids s \<subseteq> el_ids l"
  shows "sync_from c l s = (0, l)"
proof (rule sync_from_nothing, rule bset_ext)
  fix i
  have "\<not> bset_contains (missing_ids s (event_log_digest l)) i"
  proof
    assume m: "bset_contains (missing_ids s (event_log_digest l)) i"
    then obtain e where e: "btree_get (el_events s) i = Some e"
      unfolding missing_ids_iff [OF inv(2)] by blast
    then have "i \<in> el_ids s" by (simp add: el_ids_iff)
    then have "i \<in> el_ids l" using assms(4) by blast
    then show False using missing_not_held [OF inv con e m] by (simp add: el_ids_iff)
  qed
  then show "bset_contains (missing_ids s (event_log_digest l)) i \<longleftrightarrow> bset_contains btree_new i" by simp
qed

section \<open>Properties\<close>

text \<open>
  The transfer of one round: the events sent to a peer are exactly the held ones
  beyond its advertised heights, each once, and in causal order, so that every link of an event is to
  one the peer already has or to one earlier in the list.
\<close>

theorem transfer_exact_and_causal:
  assumes "event_log_inv c l"
  shows "set (eids c (events_missing_from l d)) =
      {i. \<exists>e. event_log_get l i = Some e \<and> digest_height d (ev_author e) \<le> ev_seq e}
    \<and> distinct (eids c (events_missing_from l d))
    \<and> (\<forall>pre e post. events_missing_from l d = pre @ e # post \<longrightarrow>
         (\<forall>x\<in>set (btree_keys (ec_links (ev_content e))).
            x \<in> set (eids c pre) \<or> (\<forall>f. event_log_get l x = Some f \<longrightarrow> ev_seq f < digest_height d (ev_author f))))"
proof -
  note spec = events_missing_from_spec [where d = d, OF assms]
  have split: "set (btree_keys (ec_links (ev_content e))) \<subseteq> P \<union> set (eids c pre)"
    if "causal_list c P (pre @ e # post)" for P pre e post
    using that by (induction pre arbitrary: P) auto
  have "x \<in> set (eids c pre) \<or> (\<forall>f. event_log_get l x = Some f \<longrightarrow> ev_seq f < digest_height d (ev_author f))"
    if "events_missing_from l d = pre @ e # post" "x \<in> set (btree_keys (ec_links (ev_content e)))" for pre e post x
  proof -
    have "x \<in> - bset_elems (missing_ids l d) \<union> set (eids c pre)"
      using split [of "- bset_elems (missing_ids l d)" pre e post] spec(4) that by auto
    then show ?thesis
      by (auto simp: bset_elems_iff missing_ids_iff [OF assms] event_log_get_def)
  qed
  moreover have "bset_elems (missing_ids l d) =
      {i. \<exists>e. event_log_get l i = Some e \<and> digest_height d (ev_author e) \<le> ev_seq e}"
    by (auto simp: bset_elems_iff missing_ids_iff [OF assms] event_log_get_def)
  ultimately show ?thesis using spec(1,2) by blast
qed

theorem transfer_exact_and_causal_witness:
  "distinct (eids demo_crypto (events_missing_from el_demo (event_log_digest event_log_new)))
   \<and> length (events_missing_from el_demo (event_log_digest event_log_new)) = 3"
proof
  show "distinct (eids demo_crypto (events_missing_from el_demo (event_log_digest event_log_new)))"
    using transfer_exact_and_causal [OF el_demo_inv] by blast
  show "length (events_missing_from el_demo (event_log_digest event_log_new)) = 3" by code_simp
qed

text \<open>
  \<^bold>\<open>C7.\<close> Reconciliation converges: two replicas with the integrity invariant that are
  consistent (no author signed two events for one position, no id names two events) are brought, within
  two rounds, to hold exactly the events that either held; the call returns, and counts each
  transferred event once.
\<close>

theorem reconcile_converges:
  assumes "event_log_inv c a" "event_log_inv c b" "el_consistent a b"
  shows "\<exists>n a' b'. reconcile (Suc (Suc fuel)) c a b 0 = Some (n, a', b')
    \<and> (\<forall>i. event_log_contains a' i \<longleftrightarrow> event_log_contains a i \<or> event_log_contains b i)
    \<and> (\<forall>i. event_log_contains b' i \<longleftrightarrow> event_log_contains a i \<or> event_log_contains b i)
    \<and> event_log_inv c a' \<and> event_log_inv c b'
    \<and> n = card (set (btree_keys (el_events b)) - set (btree_keys (el_events a)))
        + card (set (btree_keys (el_events a)) - set (btree_keys (el_events b)))"
proof -
  define a' where "a' = snd (sync_from c a b)"
  define b' where "b' = snd (sync_from c b a')"
  have inv_a: "event_log_inv c a'" unfolding a'_def by (rule sync_from_inv [OF assms])
  have con_ba: "el_consistent b a'"
    unfolding a'_def by (rule el_consistent_sync [OF assms el_consistent_sym [OF assms(3)]
          el_consistent_self [OF assms(2)]])
  have inv_b: "event_log_inv c b'" unfolding b'_def by (rule sync_from_inv [OF assms(2) inv_a con_ba])
  have con_ab: "el_consistent a' b'"
    unfolding b'_def by (rule el_consistent_sync [OF assms(2) inv_a con_ba el_consistent_sym [OF con_ba]
          el_consistent_self [OF inv_a]])
  have ids: "el_ids a' = el_ids a \<union> el_ids b" "el_ids b' = el_ids a \<union> el_ids b"
    using sync_ids [OF assms] sync_ids [OF assms(2) inv_a con_ba] by (auto simp: a'_def b'_def)
  have first: "sync_from c a b = (card (el_ids b - el_ids a), a')"
    "sync_from c b a' = (card (el_ids a - el_ids b), b')"
    using sync_len [OF assms] sync_len [OF assms(2) inv_a con_ba] ids(1)
    by (auto simp: a'_def b'_def prod_eq_iff Un_Diff)
  have second: "sync_from c a' b' = (0, a')" "sync_from c b' a' = (0, b')"
    using sync_from_same [OF inv_a inv_b con_ab] sync_from_same [OF inv_b inv_a el_consistent_sym [OF con_ab]]
    by (simp_all add: ids)
  have "reconcile (Suc (Suc fuel)) c a b 0 =
      Some (card (el_ids b - el_ids a) + card (el_ids a - el_ids b), a', b')"
    by (simp add: first second Let_def del: card_eq_0_iff)
  then show ?thesis
    using inv_a inv_b ids by (auto simp: event_log_contains_def btree_keys_iff [symmetric])
qed

theorem reconcile_converges_witness:
  "\<exists>n a' b'. reconcile 2 demo_crypto el_demo event_log_new 0 = Some (n, a', b')
    \<and> (\<forall>i. event_log_contains b' i \<longleftrightarrow> event_log_contains el_demo i \<or> event_log_contains event_log_new i)"
proof -
  have "el_consistent el_demo event_log_new"
    by (simp add: el_consistent_def event_log_new_def)
  from reconcile_converges [OF el_demo_inv event_log_inv_new this, of 0] show ?thesis
    by (auto simp: numeral_2_eq_2)
qed

text \<open>
  Replicas with the same heights exchange nothing: reconciliation returns at once with
  both unchanged, also when an author signed different events for one position and the two replicas
  hold different ones.
\<close>

theorem equal_heights_exchange_nothing:
  assumes "event_log_inv c a" "event_log_inv c b" "el_height a = el_height b"
  shows "reconcile (Suc fuel) c a b 0 = Some (0, a, b)"
proof -
  have none: "missing_ids s (event_log_digest l) = btree_new"
    if inv: "event_log_inv c s" and h: "el_height s = el_height l" for s l
  proof (rule bset_ext)
    fix i
    have "chain_height s x = chain_height l x" for x using h by (simp add: chain_height_def)
    then have "\<not> bset_contains (missing_ids s (event_log_digest l)) i"
      unfolding missing_ids_iff [OF inv] using below_height_iff [OF inv] by (auto simp: not_le)
    then show "bset_contains (missing_ids s (event_log_digest l)) i \<longleftrightarrow> bset_contains btree_new i" by simp
  qed
  show ?thesis
    using sync_from_nothing [OF none [OF assms(2)]] sync_from_nothing [OF none [OF assms(1)]] assms(3)
    by simp
qed

definition el_fork :: "bytes \<Rightarrow> event_log" where
  "el_fork p = el_run demo_crypto event_log_new [AppendOp ''m'' p]"

theorem equal_heights_exchange_nothing_witness:
  "reconcile 1 demo_crypto (el_fork [1]) (el_fork [2]) 0 = Some (0, el_fork [1], el_fork [2])
   \<and> event_log_tip (el_fork [1]) ''m'' \<noteq> event_log_tip (el_fork [2]) ''m''"
proof
  have inv: "event_log_inv demo_crypto (el_fork p)" for p
    unfolding el_fork_def by (rule el_run_inv) simp
  have "el_height (el_fork [1]) = el_height (el_fork [2])" by code_simp
  from equal_heights_exchange_nothing [OF inv inv this, of 0]
  show "reconcile 1 demo_crypto (el_fork [1]) (el_fork [2]) 0 = Some (0, el_fork [1], el_fork [2])"
    by simp
  show "event_log_tip (el_fork [1]) ''m'' \<noteq> event_log_tip (el_fork [2]) ''m''" by code_simp
qed

end
