(* ===== verification/AuditView.thy ===== *)
theory AuditView
  imports AntiEntropy Rust_Text
begin

text \<open>
  \<^verbatim>\<open>crates/pillar-eventlog/src/audit.rs\<close>: audit records as payloads and the audit view
  of an event log.
\<close>

section \<open>Audit records\<close>

record audit_record =
  ar_actor :: string
  ar_action :: string
  ar_timestamp :: u64
  ar_target :: string

definition audit_record_new :: "string \<Rightarrow> string \<Rightarrow> u64 \<Rightarrow> string \<Rightarrow> audit_record" where
  "audit_record_new actor action ts tgt =
     \<lparr>ar_actor = actor, ar_action = action, ar_timestamp = ts, ar_target = tgt\<rparr>"

definition put_str :: "string \<Rightarrow> bytes" where
  "put_str s = u64_to_le_bytes (of_nat (length (as_bytes s))) @ as_bytes s"

definition to_payload :: "audit_record \<Rightarrow> bytes" where
  "to_payload r =
     concat (map put_str [ar_actor r, ar_action r, ar_target r]) @ u64_to_le_bytes (ar_timestamp r)"

definition take_str :: "bytes \<Rightarrow> nat \<Rightarrow> (string \<times> nat) option" where
  "take_str bs off =
     (case usize_checked_add off 8 of None \<Rightarrow> None | Some len_end \<Rightarrow>
      (case slice_get bs off len_end of None \<Rightarrow> None | Some lb \<Rightarrow>
      (case usize_checked_add len_end (unat (u64_from_le_bytes lb)) of None \<Rightarrow> None | Some s_end \<Rightarrow>
      (case slice_get bs len_end s_end of None \<Rightarrow> None | Some sb \<Rightarrow>
      (case from_utf8 sb of None \<Rightarrow> None | Some s \<Rightarrow> Some (s, s_end))))))"

definition from_payload :: "bytes \<Rightarrow> audit_record option" where
  "from_payload bs =
     (case take_str bs 0 of None \<Rightarrow> None | Some (actor, off1) \<Rightarrow>
      (case take_str bs off1 of None \<Rightarrow> None | Some (action, off2) \<Rightarrow>
      (case take_str bs off2 of None \<Rightarrow> None | Some (tgt, off3) \<Rightarrow>
      (case usize_checked_add off3 8 of None \<Rightarrow> None | Some ts_end \<Rightarrow>
      (case slice_get bs off3 ts_end of None \<Rightarrow> None | Some tb \<Rightarrow>
         if ts_end \<noteq> length bs then None
         else Some \<lparr>ar_actor = actor, ar_action = action,
                ar_timestamp = u64_from_le_bytes tb, ar_target = tgt\<rparr>)))))"

section \<open>The audit view\<close>

datatype audit_entry =
    Verified event_id author audit_record
  | Rejected event_id author

fun entry_verified :: "audit_entry \<Rightarrow> audit_record option" where
  "entry_verified (Verified _ _ r) = Some r"
| "entry_verified (Rejected _ _) = None"

fun entry_is_verified :: "audit_entry \<Rightarrow> bool" where
  "entry_is_verified (Verified _ _ _) = True"
| "entry_is_verified (Rejected _ _) = False"

fun entry_event :: "audit_entry \<Rightarrow> event_id" where
  "entry_event (Verified i _ _) = i"
| "entry_event (Rejected i _) = i"

text \<open>The body of the inner loop; \<open>None\<close> is a \<open>continue\<close>.\<close>

definition audit_entry_at :: "crypto \<Rightarrow> event_log \<Rightarrow> author \<Rightarrow> u64 \<Rightarrow> audit_entry option" where
  "audit_entry_at c l a n =
     (case event_at l a n of
        None \<Rightarrow> None
      | Some e \<Rightarrow>
          (case from_payload (ec_payload (ev_content e)) of
             None \<Rightarrow> None
           | Some r \<Rightarrow>
               if event_is_authentic c e
               then Some (Verified (ec_id c (ev_content e)) (ev_author e) r)
               else Some (Rejected (ec_id c (ev_content e)) (ev_author e))))"

definition audit_view :: "crypto \<Rightarrow> event_log \<Rightarrow> audit_entry list" where
  "audit_view c l =
     concat (map (\<lambda>a. List.map_filter (audit_entry_at c l a) (seq_range 0 (chain_height l a)))
       (sort (chain_authors l)))"

definition audit_trail :: "crypto \<Rightarrow> event_log \<Rightarrow> audit_entry list" where
  "audit_trail c l = filter entry_is_verified (audit_view c l)"

section \<open>Decoding\<close>

lemma usize_checked_add_eq: "usize_checked_add m n = (if m + n < 2 ^ 64 then Some (m + n) else None)"
proof -
  have "int m + int n < 2 ^ 64 \<longleftrightarrow> m + n < 2 ^ 64" by simp linarith
  then show ?thesis by (simp only: usize_checked_add_def)
qed

lemma take_str_iff:
  assumes "length bs < 2 ^ 64"
  shows "take_str bs off = Some (s, off') \<longleftrightarrow>
    utf8_valid (as_bytes s) \<and> off' = off + 8 + length s \<and> off' \<le> length bs
    \<and> take (8 + length s) (drop off bs) = put_str s"
proof (cases "off + 8 \<le> length bs")
  case False
  then show ?thesis by (auto simp: take_str_def usize_checked_add_eq slice_get_def split: option.splits)
next
  case True
  define lb where "lb = take 8 (drop off bs)"
  define n where "n = unat (u64_from_le_bytes lb)"
  have len_lb: "length lb = 8" using True by (simp add: lb_def)
  have of_n: "u64_to_le_bytes (of_nat n) = lb"
    using u64_to_from_le_bytes [OF len_lb] by (simp add: n_def)
  have split: "take (8 + m) (drop off bs) = lb @ take m (drop (off + 8) bs)" for m
    by (simp only: lb_def take_add drop_drop) (simp add: add.commute)
  have head: "take_str bs off = (if off + 8 + n \<le> length bs \<and> utf8_valid (take n (drop (off + 8) bs))
      then Some (bytes_to_string (take n (drop (off + 8) bs)), off + 8 + n) else None)"
    using True assms
    by (auto simp: take_str_def usize_checked_add_eq slice_get_def from_utf8_def
        simp flip: lb_def n_def split: option.splits)
  show ?thesis
  proof
    assume "take_str bs off = Some (s, off')"
    then have ok: "off + 8 + n \<le> length bs" "utf8_valid (take n (drop (off + 8) bs))"
      "s = bytes_to_string (take n (drop (off + 8) bs))" "off' = off + 8 + n"
      by (auto simp: head split: if_splits)
    have len: "length s = n" using ok(1,3) by simp
    show "utf8_valid (as_bytes s) \<and> off' = off + 8 + length s \<and> off' \<le> length bs
        \<and> take (8 + length s) (drop off bs) = put_str s"
      using ok len split [of n] of_n by (simp add: put_str_def)
  next
    assume rhs: "utf8_valid (as_bytes s) \<and> off' = off + 8 + length s \<and> off' \<le> length bs
        \<and> take (8 + length s) (drop off bs) = put_str s"
    then have parts: "lb = u64_to_le_bytes (of_nat (length s))"
      "take (length s) (drop (off + 8) bs) = as_bytes s"
      using len_lb by (simp_all add: split put_str_def append_eq_append_conv)
    have "length s < 2 ^ 64" using rhs assms by linarith
    then have "n = length s" by (simp add: n_def parts(1) unat_of_nat)
    then show "take_str bs off = Some (s, off')" using rhs parts(2) by (simp add: head)
  qed
qed

lemma length_put_str [simp]: "length (put_str s) = 8 + length s"
  by (simp add: put_str_def)

definition record_utf8 :: "audit_record \<Rightarrow> bool" where
  "record_utf8 r \<longleftrightarrow> utf8_valid (as_bytes (ar_actor r)) \<and> utf8_valid (as_bytes (ar_action r))
     \<and> utf8_valid (as_bytes (ar_target r))"

lemma from_payload_to_payload:
  fixes r :: audit_record
  assumes "length (to_payload r) < 2 ^ 64" "record_utf8 r"
  shows "from_payload (to_payload r) = Some r"
proof -
  let ?bs = "to_payload r"
  have s1: "take_str ?bs 0 = Some (ar_actor r, 8 + length (ar_actor r))"
    using assms by (simp add: take_str_iff) (simp add: to_payload_def record_utf8_def)
  have s2: "take_str ?bs (8 + length (ar_actor r)) =
      Some (ar_action r, 8 + length (ar_actor r) + 8 + length (ar_action r))"
    using assms by (simp add: take_str_iff) (simp add: to_payload_def record_utf8_def)
  have s3: "take_str ?bs (8 + length (ar_actor r) + 8 + length (ar_action r)) =
      Some (ar_target r, 8 + length (ar_actor r) + 8 + length (ar_action r) + 8 + length (ar_target r))"
    using assms by (simp add: take_str_iff) (simp add: to_payload_def record_utf8_def)
  have len: "length ?bs = 8 + length (ar_actor r) + 8 + length (ar_action r) + 8 + length (ar_target r) + 8"
    by (simp add: to_payload_def)
  have ts: "slice_get ?bs (8 + length (ar_actor r) + 8 + length (ar_action r) + 8 + length (ar_target r))
      (8 + length (ar_actor r) + 8 + length (ar_action r) + 8 + length (ar_target r) + 8) =
      Some (u64_to_le_bytes (ar_timestamp r))"
    unfolding slice_get_def len by (simp add: to_payload_def)
  show ?thesis
    unfolding from_payload_def s1 s2 s3 option.case prod.case usize_checked_add_eq
    using assms(1) ts len by simp
qed

lemma to_payload_from_payload:
  fixes r :: audit_record
  assumes "length bs < 2 ^ 64" "from_payload bs = Some r"
  shows "bs = to_payload r \<and> record_utf8 r"
proof -
  obtain o1 o2 o3 where t: "take_str bs 0 = Some (ar_actor r, o1)" "take_str bs o1 = Some (ar_action r, o2)"
    "take_str bs o2 = Some (ar_target r, o3)" "o3 + 8 = length bs"
    "ar_timestamp r = u64_from_le_bytes (drop o3 bs)"
    using assms(2)
    by (auto simp: from_payload_def usize_checked_add_eq slice_get_def split: option.splits if_splits prod.splits)
  note T = t(1-3) [unfolded take_str_iff [OF assms(1)]]
  have ts: "drop o3 bs = u64_to_le_bytes (ar_timestamp r)"
    using t(4,5) u64_to_from_le_bytes [of "drop o3 bs"] by simp
  have "bs = take (8 + length (ar_actor r)) (drop 0 bs) @ drop o1 bs"
    using T(1) by (metis append_take_drop_id drop_0 add_0)
  also have "drop o1 bs = take (8 + length (ar_action r)) (drop o1 bs) @ drop o2 bs"
    using T(2) by (metis append_take_drop_id drop_drop add.commute add.left_commute)
  also have "drop o2 bs = take (8 + length (ar_target r)) (drop o2 bs) @ drop o3 bs"
    using T(3) by (metis append_take_drop_id drop_drop add.commute add.left_commute)
  finally have "bs = put_str (ar_actor r) @ put_str (ar_action r) @ put_str (ar_target r)
      @ u64_to_le_bytes (ar_timestamp r)"
    using T ts by metis
  then show ?thesis using T by (simp add: to_payload_def record_utf8_def)
qed

section \<open>The view of a log\<close>

lemma sort_chain_authors: "sort (chain_authors l) = chain_authors l"
  using btree_keys_sorted [of "el_height l"]
  by (intro sorted_sort_id) (simp add: chain_authors_def strict_sorted_iff)

lemma audit_view_iff:
  "x \<in> set (audit_view c l) \<longleftrightarrow>
     (\<exists>a n. a \<in> set (chain_authors l) \<and> n < chain_height l a \<and> audit_entry_at c l a n = Some x)"
  by (simp add: audit_view_def map_filter_iff Bex_def set_seq_range)

lemma event_at_iff:
  assumes "event_log_inv c l"
  shows "event_at l a n = Some e \<longleftrightarrow>
    btree_get (el_events l) (ec_id c (ev_content e)) = Some e \<and> ev_author e = a \<and> ev_seq e = n"
proof
  assume "event_at l a n = Some e"
  then obtain i where i: "btree_get (el_by_seq l) (a, n) = Some i" "btree_get (el_events l) i = Some e"
    by (auto simp: event_at_def split: option.splits)
  moreover have "ec_id c (ev_content e) = i" by (rule inv_id [OF assms i(2)])
  ultimately show "btree_get (el_events l) (ec_id c (ev_content e)) = Some e \<and> ev_author e = a \<and> ev_seq e = n"
    by (auto simp: by_seq_iff [OF assms])
next
  assume "btree_get (el_events l) (ec_id c (ev_content e)) = Some e \<and> ev_author e = a \<and> ev_seq e = n"
  then show "event_at l a n = Some e"
    using inv_by_seq [OF assms, of "ec_id c (ev_content e)" e] by (simp add: event_at_def)
qed

lemma in_chain_authors:
  assumes "event_log_inv c l" "n < chain_height l a"
  shows "a \<in> set (chain_authors l)"
  using assms(2) by (cases "btree_get (el_height l) a")
    (auto simp: chain_height_def chain_authors_def btree_keys_iff btree_contains_key_def)

section \<open>Properties\<close>

text \<open>
  The payload codec is exact: a payload (shorter than 2^64 bytes) decodes to a record
  exactly when it is the record's encoding and the record's strings are UTF-8. So encoding then
  decoding returns the record, and truncated, padded or garbled payloads decode to nothing.
\<close>

theorem audit_payload_exact:
  fixes r :: audit_record
  assumes "length bs < 2 ^ 64"
  shows "from_payload bs = Some r \<longleftrightarrow> bs = to_payload r \<and> record_utf8 r"
  using to_payload_from_payload [OF assms] from_payload_to_payload assms by blast

theorem audit_payload_exact_witness:
  "from_payload (to_payload (audit_record_new ''alice'' ''login'' 7 ''s1''))
     = Some (audit_record_new ''alice'' ''login'' 7 ''s1'')
   \<and> from_payload (to_payload (audit_record_new ''alice'' ''login'' 7 ''s1'') @ [0]) = None"
proof
  let ?r = "audit_record_new ''alice'' ''login'' 7 ''s1''"
  have "length (to_payload ?r) < 2 ^ 64" by (simp add: to_payload_def audit_record_new_def)
  moreover have "record_utf8 ?r" by code_simp
  ultimately show "from_payload (to_payload ?r) = Some ?r" using audit_payload_exact by blast
  show "from_payload (to_payload ?r @ [0]) = None" by code_simp
qed

text \<open>
  The audit view never presents a forged entry: in any log, also one with events
  inserted without checks, a verified line comes from a held event whose author's signature covers it
  and whose payload encodes the record; a rejected line from one whose signature does not verify.
\<close>

theorem audit_view_sound:
  "x \<in> set (audit_view c l) \<longleftrightarrow>
     (\<exists>a n e r. a \<in> set (chain_authors l) \<and> n < chain_height l a \<and> event_at l a n = Some e
        \<and> from_payload (ec_payload (ev_content e)) = Some r
        \<and> x = (if event_is_authentic c e then Verified (ec_id c (ev_content e)) (ev_author e) r
               else Rejected (ec_id c (ev_content e)) (ev_author e)))"
proof -
  have "audit_entry_at c l a n = Some x \<longleftrightarrow>
      (\<exists>e r. event_at l a n = Some e \<and> from_payload (ec_payload (ev_content e)) = Some r
        \<and> x = (if event_is_authentic c e then Verified (ec_id c (ev_content e)) (ev_author e) r
               else Rejected (ec_id c (ev_content e)) (ev_author e)))" for a n
    by (auto simp: audit_entry_at_def split: option.splits)
  then show ?thesis unfolding audit_view_iff by blast
qed

lemma event_at_held:
  assumes "event_log_inv c l"
  shows "event_at l a n = Some e \<longleftrightarrow>
      event_log_get l (ec_id c (ev_content e)) = Some e \<and> ev_author e = a \<and> ev_seq e = n"
  unfolding event_log_get_def by (rule event_at_iff [OF assms])

text \<open>
  The view as a list of events: the held audit events, strictly increasing in author and sequence
  number. A list is determined by its members and such an order.
\<close>

definition audit_event :: "event \<Rightarrow> bool" where
  "audit_event e \<longleftrightarrow> from_payload (ec_payload (ev_content e)) \<noteq> None"

definition audit_line :: "crypto \<Rightarrow> event \<Rightarrow> audit_entry" where
  "audit_line c e = Verified (ec_id c (ev_content e)) (ev_author e) (the (from_payload (ec_payload (ev_content e))))"

definition chain_events :: "event_log \<Rightarrow> author \<Rightarrow> event list" where
  "chain_events l a = filter audit_event (List.map_filter (event_at l a) (seq_range 0 (chain_height l a)))"

definition view_events :: "event_log \<Rightarrow> event list" where
  "view_events l = concat (map (chain_events l) (chain_authors l))"

lemma map_filter_audit_entries:
  assumes "event_log_inv c l"
  shows "List.map_filter (audit_entry_at c l a) ns = map (audit_line c) (filter audit_event (List.map_filter (event_at l a) ns))"
proof (induction ns)
  case (Cons n ns)
  show ?case
  proof (cases "event_at l a n")
    case (Some e)
    then have "ev_author e = a" "event_is_authentic c e"
      using inv_authentic [OF assms] by (auto simp: event_at_held [OF assms] event_log_get_def)
    then show ?thesis
      using Cons Some
      by (cases "from_payload (ec_payload (ev_content e))")
        (simp_all add: List.map_filter_simps audit_entry_at_def audit_event_def audit_line_def)
  qed (use Cons in \<open>simp add: List.map_filter_simps audit_entry_at_def\<close>)
qed (simp add: List.map_filter_simps)

lemma audit_view_events:
  assumes "event_log_inv c l"
  shows "audit_view c l = map (audit_line c) (view_events l)"
  unfolding audit_view_def sort_chain_authors view_events_def map_concat map_map comp_def chain_events_def
    map_filter_audit_entries [OF assms] by simp

lemma set_view_events:
  assumes "event_log_inv c l"
  shows "set (view_events l) = {e. event_log_get l (ec_id c (ev_content e)) = Some e \<and> audit_event e}"
proof -
  have "(\<exists>a n. a \<in> set (chain_authors l) \<and> n < chain_height l a \<and> event_at l a n = Some e) \<longleftrightarrow>
      event_log_get l (ec_id c (ev_content e)) = Some e" for e
    using in_chain_authors [OF assms] below_height_iff [OF assms]
    by (auto simp: event_at_held [OF assms] event_log_get_def)
  then show ?thesis
    by (auto simp: view_events_def chain_events_def map_filter_iff set_seq_range Bex_def)
qed

lemma sorted_wrt_map_filter:
  assumes "sorted_wrt R xs" "\<And>x y u v. R x y \<Longrightarrow> f x = Some u \<Longrightarrow> f y = Some v \<Longrightarrow> Q u v"
  shows "sorted_wrt Q (List.map_filter f xs)"
  using assms(1)
proof (induction xs)
  case (Cons x xs)
  have "Q u v" if "f x = Some u" "y \<in> set xs" "f y = Some v" for u v y
    using assms(2) [of x y u v] that Cons.prems by simp
  then show ?case using Cons by (auto simp: List.map_filter_simps map_filter_iff split: option.split)
qed (simp add: List.map_filter_simps)

lemma sorted_wrt_concat_map:
  assumes "sorted_wrt R as" "\<And>a. sorted_wrt Q (f a)"
    and "\<And>a b x y. R a b \<Longrightarrow> x \<in> set (f a) \<Longrightarrow> y \<in> set (f b) \<Longrightarrow> Q x y"
  shows "sorted_wrt Q (concat (map f as))"
  using assms(1) by (induction as) (auto simp: sorted_wrt_append assms(2) dest: assms(3))

lemma sorted_seq_range: "sorted_wrt (<) (seq_range m n)"
proof -
  have "(of_nat i :: u64) < of_nat j" if "i < j" "j < unat n" for i j
  proof -
    have "j < 18446744073709551616" using that(2) u64_lt [of n] by linarith
    then show ?thesis using that(1) by (simp add: word_less_nat_alt unat_of_nat)
  qed
  then show ?thesis
    unfolding seq_range_def sorted_wrt_map
    by (intro sorted_wrt_mono_rel [OF _ sorted_wrt_upt]) auto
qed

text \<open>The code goes by the name of the author and within a chain by the sequence number.\<close>

lemma view_events_by_name:
  assumes "event_log_inv c l"
  shows "sorted_wrt (\<lambda>d e. (ev_author d, ev_seq d) < (ev_author e, ev_seq e)) (view_events l)"
  unfolding view_events_def
proof (rule sorted_wrt_concat_map [where R = "(<)"])
  show "sorted_wrt (<) (chain_authors l)" by (simp add: chain_authors_def btree_keys_sorted)
  show "sorted_wrt (\<lambda>d e. (ev_author d, ev_seq d) < (ev_author e, ev_seq e)) (chain_events l a)" for a
    unfolding chain_events_def
    by (intro sorted_wrt_filter sorted_wrt_map_filter [OF sorted_seq_range])
      (simp add: event_at_held [OF assms])
  show "(ev_author x, ev_seq x) < (ev_author y, ev_seq y)"
    if "a < b" "x \<in> set (chain_events l a)" "y \<in> set (chain_events l b)" for a b x y
    using that by (auto simp: chain_events_def map_filter_iff event_at_held [OF assms])
qed

lemma sorted_key_distinct:
  fixes f :: "'a \<Rightarrow> 'b::linorder"
  shows "sorted_wrt (\<lambda>x y. f x < f y) xs \<Longrightarrow> distinct xs"
  by (induction xs) auto

lemma sorted_key_unique:
  fixes f :: "'a \<Rightarrow> 'b::linorder"
  assumes "sorted_wrt (\<lambda>x y. f x < f y) xs" "sorted_wrt (\<lambda>x y. f x < f y) ys" "set xs = set ys"
  shows "xs = ys"
  using assms
proof (induction xs arbitrary: ys)
  case (Cons x xs)
  then obtain y zs where ys: "ys = y # zs" by (cases ys) auto
  have "x = y"
    using Cons.prems by (simp add: ys) (metis insert_iff less_asym)
  moreover have "x \<notin> set xs" "y \<notin> set zs" using Cons.prems(1,2) by (auto simp: ys)
  ultimately have "set xs = set zs" using Cons.prems(3) ys by (auto simp: insert_eq_iff)
  then show ?case using Cons ys \<open>x = y\<close> by simp
qed simp

text \<open>
  \<^bold>\<open>C9.\<close> In a log with the integrity invariant the audit view is complete, in order and the same
  on every replica. It has one line for each held event whose payload is an audit record, with the
  id, the author and the record of that event, and no other line; the lines of an author are in
  the order of his chain; every line is verified, so that the trail is the view; and any replica
  that holds the same events renders the same list.
\<close>

theorem audit_view_complete:
  assumes "event_log_inv c l"
  shows "\<exists>es. audit_view c l =
        map (\<lambda>e. Verified (ec_id c (ev_content e)) (ev_author e) (the (from_payload (ec_payload (ev_content e))))) es
      \<and> distinct es
      \<and> set es = {e. \<exists>i. event_log_get l i = Some e \<and> from_payload (ec_payload (ev_content e)) \<noteq> None}
      \<and> sorted_wrt (\<lambda>d e. ev_author d = ev_author e \<longrightarrow> ev_seq d < ev_seq e) es
      \<and> audit_trail c l = audit_view c l
      \<and> (\<forall>l'. event_log_inv c l' \<and> (\<forall>i. event_log_get l' i = event_log_get l i) \<longrightarrow>
            audit_view c l' = audit_view c l)"
proof (intro exI [of _ "view_events l"] conjI allI impI)
  have line: "audit_line c = (\<lambda>e. Verified (ec_id c (ev_content e)) (ev_author e)
      (the (from_payload (ec_payload (ev_content e)))))" by (simp add: audit_line_def fun_eq_iff)
  show "audit_view c l = map (\<lambda>e. Verified (ec_id c (ev_content e)) (ev_author e)
      (the (from_payload (ec_payload (ev_content e))))) (view_events l)"
    unfolding line [symmetric] by (rule audit_view_events [OF assms])
  note sorted = view_events_by_name [OF assms]
  show "distinct (view_events l)"
    by (rule sorted_key_distinct [OF sorted])
  show "sorted_wrt (\<lambda>d e. ev_author d = ev_author e \<longrightarrow> ev_seq d < ev_seq e) (view_events l)"
    by (rule sorted_wrt_mono_rel [OF _ sorted]) auto
  show "set (view_events l) = {e. \<exists>i. event_log_get l i = Some e \<and> from_payload (ec_payload (ev_content e)) \<noteq> None}"
    using inv_id [OF assms] by (auto simp: set_view_events [OF assms] audit_event_def event_log_get_def)
  show "audit_trail c l = audit_view c l"
    unfolding audit_trail_def audit_view_events [OF assms]
    by (rule filter_True) (auto simp: audit_line_def)
  fix l'
  assume l': "event_log_inv c l' \<and> (\<forall>i. event_log_get l' i = event_log_get l i)"
  then have "view_events l' = view_events l"
    by (intro sorted_key_unique [OF view_events_by_name sorted]) (auto simp: set_view_events [OF assms] set_view_events)
  then show "audit_view c l' = audit_view c l"
    using l' by (simp add: audit_view_events [OF assms] audit_view_events)
qed

text \<open>A log of three audit events of two authors and one event that is none.\<close>

definition audit_demo_ops :: "el_op list" where
  "audit_demo_ops =
     [AppendOp ''b'' (to_payload (audit_record_new ''bob'' ''login'' 9 ''s1'')),
      AppendOp ''a'' (to_payload (audit_record_new ''al'' ''read'' 5 ''x'')), AppendOp ''a'' [1],
      AppendOp ''b'' (to_payload (audit_record_new ''bob'' ''drop'' 2 ''t''))]"

definition audit_demo :: event_log where
  "audit_demo = el_run demo_crypto event_log_new audit_demo_ops"

lemma audit_demo_inv: "event_log_inv demo_crypto audit_demo"
  unfolding audit_demo_def by (rule el_run_inv) (simp add: audit_demo_ops_def)

theorem audit_view_complete_witness:
  "map entry_verified (audit_trail demo_crypto audit_demo) =
     [Some (audit_record_new ''al'' ''read'' 5 ''x''), Some (audit_record_new ''bob'' ''login'' 9 ''s1''),
      Some (audit_record_new ''bob'' ''drop'' 2 ''t'')]"
proof -
  have "map entry_verified (audit_view demo_crypto audit_demo) =
     [Some (audit_record_new ''al'' ''read'' 5 ''x''), Some (audit_record_new ''bob'' ''login'' 9 ''s1''),
      Some (audit_record_new ''bob'' ''drop'' 2 ''t'')]"
    by code_simp
  then show ?thesis using audit_view_complete [OF audit_demo_inv] by metis
qed

end
