(* ===== verification/CausalOrder.thy ===== *)
theory CausalOrder
  imports AntiEntropy
begin

text \<open>
  \<^verbatim>\<open>EventLog::events_in_causal_order\<close> of \<^verbatim>\<open>crates/pillar-eventlog/src/lib.rs\<close>:
  Kahn's topological sort over the hash links, with the ready set ordered by author, position and id.
\<close>

section \<open>The algorithm\<close>

definition held_links :: "event_log \<Rightarrow> event_id \<Rightarrow> event_id list" where
  "held_links l i = filter (btree_contains_key (el_events l)) (event_links l i)"

definition push_dependent ::
  "event_id \<Rightarrow> event_id \<Rightarrow> (event_id, event_id list) btree_map \<Rightarrow> (event_id, event_id list) btree_map" where
  "push_dependent i link m =
     btree_insert link ((case btree_get m link of Some is \<Rightarrow> is | None \<Rightarrow> []) @ [i]) m"

definition kahn_remaining :: "event_log \<Rightarrow> (event_id, nat) btree_map" where
  "kahn_remaining l =
     fold (\<lambda>i m. btree_insert i (length (held_links l i)) m) (btree_keys (el_events l)) btree_new"

definition kahn_dependents :: "event_log \<Rightarrow> (event_id, event_id list) btree_map" where
  "kahn_dependents l =
     fold (\<lambda>i m. fold (push_dependent i) (held_links l i) m) (btree_keys (el_events l)) btree_new"

text \<open>The index \<open>self.events[id]\<close> is only used for held ids.\<close>

definition kahn_key :: "event_log \<Rightarrow> event_id \<Rightarrow> string \<times> u64 \<times> event_id" where
  "kahn_key l i =
     (let e = ev_content (the (btree_get (el_events l) i)) in (ec_author e, ec_seq e, i))"

text \<open>
  \<open>binary_search_by\<close> on the sorted ready list, then \<open>insert\<close>: before the first entry
  whose key is not smaller.
\<close>

definition ready_insert :: "event_log \<Rightarrow> event_id \<Rightarrow> event_id list \<Rightarrow> event_id list" where
  "ready_insert l i ready =
     takeWhile (\<lambda>p. kahn_key l p < kahn_key l i) ready @ i # dropWhile (\<lambda>p. kahn_key l p < kahn_key l i) ready"

text \<open>
  The loop over the children of a taken event: the counts it decrements and the children that
  become ready. A count is positive when it is decremented (\<open>kahn_step\<close>), so the subtraction
  on naturals is the one of the code.
\<close>

fun kahn_children ::
  "event_id list \<Rightarrow> (event_id, nat) btree_map \<Rightarrow> event_id list
     \<Rightarrow> (event_id, nat) btree_map \<times> event_id list" where
  "kahn_children [] rem newly = (rem, newly)"
| "kahn_children (ch # chs) rem newly =
     (case btree_get rem ch of
        None \<Rightarrow> kahn_children chs rem newly
      | Some n \<Rightarrow>
          kahn_children chs (btree_insert ch (n - 1) rem) (if n - 1 = 0 then newly @ [ch] else newly))"

text \<open>The main loop, with fuel; \<open>None\<close> is fuel that ran out.\<close>

fun kahn_loop ::
  "event_log \<Rightarrow> (event_id, event_id list) btree_map \<Rightarrow> nat \<Rightarrow> event_id list
     \<Rightarrow> (event_id, nat) btree_map \<Rightarrow> event_id list \<Rightarrow> event_id list option" where
  "kahn_loop l deps fuel [] rem order = Some order"
| "kahn_loop l deps 0 (i # ready) rem order = None"
| "kahn_loop l deps (Suc fuel) (i # ready) rem order =
     (case btree_get deps i of
        None \<Rightarrow> kahn_loop l deps fuel ready rem (order @ [i])
      | Some children \<Rightarrow>
          (case kahn_children children rem [] of (rem', newly) \<Rightarrow>
             kahn_loop l deps fuel (fold (ready_insert l) newly ready) rem' (order @ [i])))"

definition events_in_causal_order :: "event_log \<Rightarrow> event list option" where
  "events_in_causal_order l =
     (let rem = kahn_remaining l;
          ready = sort_key (kahn_key l) (map fst (filter (\<lambda>(i, n). n = 0) (btree_iter rem)))
      in map_option (map (\<lambda>i. the (btree_get (el_events l) i)))
           (kahn_loop l (kahn_dependents l) (btree_len (el_events l)) ready rem []))"

section \<open>The tables\<close>

lemma set_held_links:
  "event_log_inv c l \<Longrightarrow> set (held_links l i) = set (event_links l i)"
  using inv_link_held by (auto simp: held_links_def)

lemma distinct_held_links [simp]: "distinct (held_links l i)"
  by (simp add: held_links_def event_links_def split: option.splits)

lemma get_kahn_remaining:
  "btree_get (kahn_remaining l) i =
     (if i \<in> el_ids l then Some (length (held_links l i)) else None)"
proof -
  have "btree_get (fold (\<lambda>i m. btree_insert i (f i) m) xs m) i =
      (if i \<in> set xs then Some (f i) else btree_get m i)" for f and xs :: "event_id list" and m :: "(event_id, nat) btree_map"
    by (induction xs arbitrary: m) auto
  then show ?thesis by (simp add: kahn_remaining_def)
qed

lemma get_push_all:
  "distinct links \<Longrightarrow> btree_get (fold (push_dependent i) links m) x =
     (if x \<in> set links then Some ((case btree_get m x of Some is \<Rightarrow> is | None \<Rightarrow> []) @ [i])
      else btree_get m x)"
  by (induction links arbitrary: m) (auto simp: push_dependent_def)

lemma get_kahn_dependents:
  "(case btree_get (kahn_dependents l) x of Some is \<Rightarrow> is | None \<Rightarrow> []) =
     filter (\<lambda>i. x \<in> set (held_links l i)) (btree_keys (el_events l))"
proof -
  have "(case btree_get (fold (\<lambda>i m. fold (push_dependent i) (held_links l i) m) xs m) x of
        Some is \<Rightarrow> is | None \<Rightarrow> []) =
      (case btree_get m x of Some is \<Rightarrow> is | None \<Rightarrow> []) @ filter (\<lambda>i. x \<in> set (held_links l i)) xs"
    for xs m
    by (induction xs arbitrary: m) (auto simp: get_push_all)
  then show ?thesis by (simp add: kahn_dependents_def)
qed

lemma kahn_children_spec:
  assumes "distinct chs" "\<And>ch. ch \<in> set chs \<Longrightarrow> btree_get rem ch \<noteq> None"
    "kahn_children chs rem newly = (rem', newly')"
  shows "btree_get rem' i = (if i \<in> set chs then map_option (\<lambda>n. n - 1) (btree_get rem i) else btree_get rem i)
    \<and> newly' = newly @ filter (\<lambda>ch. the (btree_get rem ch) - 1 = 0) chs"
  using assms
proof (induction chs arbitrary: rem newly)
  case (Cons ch chs)
  obtain n where n: "btree_get rem ch = Some n" using Cons.prems(2) by force
  let ?rem = "btree_insert ch (n - 1) rem"
  have "btree_get rem' i = (if i \<in> set chs then map_option (\<lambda>n. n - 1) (btree_get ?rem i) else btree_get ?rem i)
      \<and> newly' = (if n - 1 = 0 then newly @ [ch] else newly) @ filter (\<lambda>ch. the (btree_get ?rem ch) - 1 = 0) chs"
    using Cons.prems n by (intro Cons.IH) auto
  moreover have "filter (\<lambda>x. the (btree_get ?rem x) - 1 = 0) chs = filter (\<lambda>x. the (btree_get rem x) - 1 = 0) chs"
    using Cons.prems(1) by (intro filter_cong) auto
  ultimately show ?case using Cons.prems(1) n by auto
qed simp

lemma set_ready_insert: "set (fold (ready_insert l) newly ready) = set newly \<union> set ready"
  and distinct_ready_insert:
    "distinct newly \<Longrightarrow> distinct ready \<Longrightarrow> set newly \<inter> set ready = {} \<Longrightarrow>
       distinct (fold (ready_insert l) newly ready)"
proof -
  have one: "set (ready_insert l i ready) = insert i (set ready)" for i ready
    unfolding ready_insert_def by (metis Un_insert_right list.simps(15) set_append takeWhile_dropWhile_id)
  show "set (fold (ready_insert l) newly ready) = set newly \<union> set ready"
    by (induction newly arbitrary: ready) (auto simp: one)
  have dist: "distinct (ready_insert l i ready)" if "distinct ready" "i \<notin> set ready" for i ready
  proof -
    have "distinct (xs @ i # ys)" if "distinct (xs @ ys)" "i \<notin> set (xs @ ys)" for xs ys :: "event_id list"
      using that by auto
    from this [of "takeWhile (\<lambda>p. kahn_key l p < kahn_key l i) ready"
        "dropWhile (\<lambda>p. kahn_key l p < kahn_key l i) ready"] that
    show ?thesis by (simp add: ready_insert_def)
  qed
  show "distinct newly \<Longrightarrow> distinct ready \<Longrightarrow> set newly \<inter> set ready = {} \<Longrightarrow>
      distinct (fold (ready_insert l) newly ready)"
    by (induction newly arbitrary: ready) (auto simp: dist one)
qed

section \<open>The loop\<close>

text \<open>A list of ids in which every link of an id stands before it.\<close>

fun links_before :: "event_log \<Rightarrow> event_id set \<Rightarrow> event_id list \<Rightarrow> bool" where
  "links_before l P [] \<longleftrightarrow> True"
| "links_before l P (i # is) \<longleftrightarrow> set (event_links l i) \<subseteq> P \<and> links_before l (insert i P) is"

lemma links_before_snoc:
  "links_before l P (is @ [i]) \<longleftrightarrow> links_before l P is \<and> set (event_links l i) \<subseteq> P \<union> set is"
  by (induction "is" arbitrary: P) auto

definition kahn_inv ::
  "event_log \<Rightarrow> event_id list \<Rightarrow> (event_id, nat) btree_map \<Rightarrow> event_id list \<Rightarrow> bool" where
  "kahn_inv l ready rem order \<longleftrightarrow>
     distinct (order @ ready) \<and> set (order @ ready) \<subseteq> el_ids l \<and> links_before l {} order
     \<and> (\<forall>i. btree_get rem i =
          (if i \<in> el_ids l then Some (card (set (event_links l i) - set order)) else None))
     \<and> (\<forall>i\<in>el_ids l. i \<in> set (order @ ready) \<longleftrightarrow> set (event_links l i) \<subseteq> set order)"

lemma kahn_inv_start:
  assumes inv: "event_log_inv c l"
  shows "kahn_inv l (sort_key (kahn_key l) (map fst (filter (\<lambda>(i, n). n = 0) (btree_iter (kahn_remaining l)))))
    (kahn_remaining l) []"
proof -
  let ?R = "map fst (filter (\<lambda>(i, n). n = 0) (btree_iter (kahn_remaining l)))"
  have len: "length (held_links l i) = card (set (event_links l i))" for i
    using distinct_card [OF distinct_held_links, of l i] set_held_links [OF inv] by simp
  have "i \<in> set ?R \<longleftrightarrow> (i, 0) \<in> set (btree_iter (kahn_remaining l))" for i by force
  then have R: "i \<in> set ?R \<longleftrightarrow> i \<in> el_ids l \<and> set (event_links l i) = {}" for i
    by (simp add: btree_iter_iff get_kahn_remaining len)
  have "distinct ?R"
    using btree_iter_sorted [of "kahn_remaining l"] by (simp add: distinct_map_filter strict_sorted_iff)
  then show ?thesis
    using R by (auto simp: kahn_inv_def get_kahn_remaining len)
qed

text \<open>Taking the first ready event.\<close>

lemma kahn_step:
  assumes inv: "event_log_inv c l" and k: "kahn_inv l (i # ready) rem order"
    and ch: "kahn_children (filter (\<lambda>j. i \<in> set (held_links l j)) (btree_keys (el_events l))) rem [] = (rem', newly)"
  shows "kahn_inv l (fold (ready_insert l) newly ready) rem' (order @ [i])
    \<and> (\<forall>j\<in>el_ids l. i \<in> set (event_links l j) \<longrightarrow> the (btree_get rem j) > 0)"
proof -
  let ?C = "filter (\<lambda>j. i \<in> set (held_links l j)) (btree_keys (el_events l))"
  let ?L = "\<lambda>j. set (event_links l j)"
  have K: "distinct (order @ i # ready)" "set (order @ i # ready) \<subseteq> el_ids l" "links_before l {} order"
    "\<And>j. btree_get rem j = (if j \<in> el_ids l then Some (card (?L j - set order)) else None)"
    "\<And>j. j \<in> el_ids l \<Longrightarrow> j \<in> set (order @ i # ready) \<longleftrightarrow> ?L j \<subseteq> set order"
    using k by (auto simp: kahn_inv_def)
  have C: "j \<in> set ?C \<longleftrightarrow> j \<in> el_ids l \<and> i \<in> ?L j" for j by (auto simp: set_held_links [OF inv])
  have split: "?L j - set order = insert i (?L j - set (order @ [i]))" if "i \<in> ?L j" for j
    using that K(1) by auto
  have card: "card (?L j - set order) = Suc (card (?L j - set (order @ [i])))" if "i \<in> ?L j" for j
    unfolding split [OF that] by (rule card_insert_disjoint) auto
  have same: "?L j - set (order @ [i]) = ?L j - set order" if "i \<notin> ?L j" for j using that by auto
  have fresh: "j \<notin> set (order @ i # ready)" if "j \<in> el_ids l" "i \<in> ?L j" for j
    using K(5) [OF that(1)] that(2) K(1) by auto
  have spec: "btree_get rem' j = (if j \<in> set ?C then map_option (\<lambda>n. n - 1) (btree_get rem j) else btree_get rem j)"
    "newly = filter (\<lambda>ch. the (btree_get rem ch) - 1 = 0) ?C" for j
    using kahn_children_spec [OF _ _ ch, of j] by (auto simp: K(4) C)
  have rem': "btree_get rem' j = (if j \<in> el_ids l then Some (card (?L j - set (order @ [i]))) else None)" for j
  proof (cases "i \<in> ?L j")
    case True
    then show ?thesis unfolding spec(1) C using card [OF True] by (simp add: K(4))
  next
    case False
    then show ?thesis unfolding spec(1) C using same [OF False] by (simp add: K(4))
  qed
  have newly: "j \<in> set newly \<longleftrightarrow> j \<in> el_ids l \<and> i \<in> ?L j \<and> ?L j \<subseteq> set (order @ [i])" for j
    unfolding spec(2) using C [of j] card [of j] by (auto simp: K(4))
  have new_disj: "set newly \<inter> set ready = {}" "set newly \<inter> set (order @ [i]) = {}"
    using fresh newly by auto
  have "distinct newly" unfolding spec(2) by simp
  then have dist: "distinct ((order @ [i]) @ fold (ready_insert l) newly ready)"
    using K(1) new_disj distinct_ready_insert [of newly ready l] by (auto simp: set_ready_insert)
  have i_links: "?L i \<subseteq> set order" using K(5) [of i] K(2) by auto
  have iff: "j \<in> set ((order @ [i]) @ fold (ready_insert l) newly ready) \<longleftrightarrow> ?L j \<subseteq> set (order @ [i])"
    if j: "j \<in> el_ids l" for j
    using K(5) [OF j] newly [of j] j by (auto simp: set_ready_insert)
  have "the (btree_get rem j) > 0" if "j \<in> el_ids l" "i \<in> ?L j" for j
    using card [OF that(2)] that(1) by (simp add: K(4))
  then show ?thesis
    using dist K(2,3) newly i_links iff rem'
    by (auto simp: kahn_inv_def links_before_snoc set_ready_insert)
qed

text \<open>When nothing is ready, everything was taken: the links are well-founded.\<close>

lemma kahn_done:
  assumes inv: "event_log_inv c l" and k: "kahn_inv l [] rem order"
  shows "set order = el_ids l"
proof
  show "set order \<subseteq> el_ids l" using k by (simp add: kahn_inv_def)
  obtain rank :: "event_id \<Rightarrow> nat" where rank: "\<And>i x. x \<in> set (event_links l i) \<Longrightarrow> rank x < rank i"
    using inv_rank [OF inv] by blast
  have "i \<in> set order" if "i \<in> el_ids l" for i
    using that
  proof (induction i rule: measure_induct_rule [of rank])
    case (less i)
    have "x \<in> set order" if "x \<in> set (event_links l i)" for x
      using less.IH [OF rank [OF that]] inv_link_held [OF inv that] by (simp add: btree_keys_iff)
    then show ?case using less.prems k by (auto simp: kahn_inv_def)
  qed
  then show "el_ids l \<subseteq> set order" by blast
qed

lemma kahn_loop_correct:
  assumes inv: "event_log_inv c l" and k: "kahn_inv l ready rem order"
    and fuel: "card (el_ids l) \<le> fuel + length order"
  shows "\<exists>is. kahn_loop l (kahn_dependents l) fuel ready rem order = Some is
    \<and> distinct is \<and> set is = el_ids l \<and> links_before l {} is"
  using k fuel
proof (induction fuel arbitrary: ready rem order)
  case 0
  have "length (order @ ready) \<le> card (el_ids l)"
    using 0(1) by (metis kahn_inv_def card_mono distinct_card List.finite_set)
  then have "length ready = 0" using 0(2) by (simp del: length_0_conv)
  then have "ready = []" by simp
  then have k: "kahn_inv l [] rem order" using 0(1) by simp
  show ?case using k kahn_done [OF inv k] \<open>ready = []\<close> by (simp add: kahn_inv_def)
next
  case (Suc fuel)
  show ?case
  proof (cases ready)
    case Nil
    then have k: "kahn_inv l [] rem order" using Suc.prems(1) by simp
    show ?thesis using k kahn_done [OF inv k] Nil by (simp add: kahn_inv_def)
  next
    case (Cons i rest)
    let ?C = "filter (\<lambda>j. i \<in> set (held_links l j)) (btree_keys (el_events l))"
    obtain rem' newly where ch: "kahn_children ?C rem [] = (rem', newly)" by fastforce
    have step: "kahn_inv l (fold (ready_insert l) newly rest) rem' (order @ [i])"
      using kahn_step [OF inv _ ch] Suc.prems(1) Cons by blast
    have loop: "kahn_loop l (kahn_dependents l) (Suc fuel) ready rem order =
        kahn_loop l (kahn_dependents l) fuel (fold (ready_insert l) newly rest) rem' (order @ [i])"
    proof (cases "btree_get (kahn_dependents l) i")
      case None
      then have "?C = []" using get_kahn_dependents [of l i] by simp
      then show ?thesis using None ch Cons by simp
    next
      case (Some cs)
      then have "cs = ?C" using get_kahn_dependents [of l i] by simp
      then show ?thesis using Some ch Cons by simp
    qed
    show ?thesis unfolding loop using Suc.prems(2) by (intro Suc.IH step) simp
  qed
qed

lemma links_before_closed:
  assumes "links_before l P (xs @ i # ys)" "\<And>x. x \<in> P \<Longrightarrow> set (event_links l x) \<subseteq> P"
  shows "set (event_links l i) \<subseteq> P \<union> set xs \<and> (\<forall>x\<in>P \<union> set xs. set (event_links l x) \<subseteq> P \<union> set xs)"
  using assms
proof (induction xs arbitrary: P)
  case (Cons x xs)
  have "set (event_links l i) \<subseteq> insert x P \<union> set xs
      \<and> (\<forall>y\<in>insert x P \<union> set xs. set (event_links l y) \<subseteq> insert x P \<union> set xs)"
    by (rule Cons.IH) (use Cons.prems in auto)
  then show ?case by simp
qed simp

lemma links_before_ancestors:
  assumes "links_before l {} (xs @ i # ys)" "(j, i) \<in> (link_rel l)\<^sup>+"
  shows "j \<in> set xs"
proof -
  have closed: "set (event_links l i) \<subseteq> set xs" "\<And>x. x \<in> set xs \<Longrightarrow> set (event_links l x) \<subseteq> set xs"
    using links_before_closed [OF assms(1)] by auto
  show ?thesis
    using assms(2)
  proof (induction rule: converse_trancl_induct)
    case (base y)
    then show ?case using closed(1) by (auto simp: link_rel_def)
  next
    case (step y z)
    then show ?case using closed(2) by (auto simp: link_rel_def)
  qed
qed

section \<open>Properties\<close>

text \<open>
  \<^bold>\<open>C8.\<close> The causal listing of a log with the integrity invariant ends, lists every held
  event exactly once, and never lists an event before one that happens before it.
\<close>

theorem causal_order_correct:
  assumes "event_log_inv c l"
  shows "\<exists>es. events_in_causal_order l = Some es
    \<and> distinct (eids c es) \<and> set (eids c es) = el_ids l
    \<and> (\<forall>e\<in>set es. event_log_get l (ec_id c (ev_content e)) = Some e)
    \<and> (\<forall>pre e post f. es = pre @ e # post \<longrightarrow> f \<in> set post
         \<longrightarrow> \<not> happens_before l (ec_id c (ev_content f)) (ec_id c (ev_content e)))"
proof -
  obtain "is" where k: "kahn_loop l (kahn_dependents l) (btree_len (el_events l))
      (sort_key (kahn_key l) (map fst (filter (\<lambda>(i, n). n = 0) (btree_iter (kahn_remaining l)))))
      (kahn_remaining l) [] = Some is" "distinct is" "set is = el_ids l" "links_before l {} is"
    using kahn_loop_correct [OF assms kahn_inv_start [OF assms], of "btree_len (el_events l)"]
    by (auto simp: btree_len_card dom_btree_get)
  let ?es = "map (\<lambda>i. the (btree_get (el_events l) i)) is"
  have es: "events_in_causal_order l = Some ?es"
    by (simp add: events_in_causal_order_def Let_def k(1))
  have get: "btree_get (el_events l) i = Some (the (btree_get (el_events l) i))" if "i \<in> set is" for i
    using that k(3) by (auto simp: btree_keys_iff btree_contains_key_def)
  have ids: "eids c ?es = is"
    using inv_id [OF assms get] by (simp add: comp_def map_idI)
  have "\<not> happens_before l (ec_id c (ev_content f)) (ec_id c (ev_content e))"
    if f: "?es = pre @ e # post" "f \<in> set post" for pre e post f
  proof
    assume "happens_before l (ec_id c (ev_content f)) (ec_id c (ev_content e))"
    moreover have split: "is = eids c pre @ ec_id c (ev_content e) # eids c post"
      using ids f(1) by (metis list.simps(9) map_append)
    ultimately have "ec_id c (ev_content f) \<in> set (eids c pre)"
      using links_before_ancestors [of l "eids c pre" "ec_id c (ev_content e)" "eids c post"] k(4)
      by (simp add: happens_before_trancl)
    moreover have "ec_id c (ev_content f) \<in> set (eids c post)" using f(2) by simp
    moreover have "set (eids c pre) \<inter> set (eids c post) = {}" using k(2) unfolding split by auto
    ultimately show False by blast
  qed
  moreover have "event_log_get l (ec_id c (ev_content e)) = Some e" if mem: "e \<in> set ?es" for e
  proof -
    obtain i where i: "i \<in> set is" "e = the (btree_get (el_events l) i)" using mem by auto
    then show ?thesis using get inv_id [OF assms] by (metis event_log_get_def)
  qed
  moreover have "distinct (eids c ?es)" "set (eids c ?es) = el_ids l" unfolding ids by (fact k(2), fact k(3))
  ultimately show ?thesis using es by blast
qed

theorem causal_order_correct_witness:
  "\<exists>es. events_in_causal_order el_demo = Some es \<and> set (eids demo_crypto es) = el_ids el_demo"
  using causal_order_correct [OF el_demo_inv] by blast

end
