(* ===== verification/IpamOperator.thy ===== *)
theory IpamOperator
  imports Ipam
begin

text \<open>
  \<^verbatim>\<open>crates/pillar-ipam/src/operator.rs\<close>: the operator surface, which records every
  allocation under a name. Each verb returns its result and the new state; the \<open>Display\<close>
  texts of the errors are not modelled.
\<close>

section \<open>The surface\<close>

record binding =
  bi_node :: node_id
  bi_addr :: ip_addr
  bi_allocated :: bool

datatype operator_error =
    AddressAlreadyRecorded ip_addr string
  | NotAllocated ip_addr
  | NotRecorded string
  | Scoped scoped_error

record ipam_operator =
  io_ipam :: scoped_ipam
  io_records :: "(string, binding) btree_map"

definition operator_new :: "scoped_ipam \<Rightarrow> ipam_operator" where
  "operator_new s = \<lparr>io_ipam = s, io_records = btree_new\<rparr>"

definition ensure_free :: "ipam_operator \<Rightarrow> string \<Rightarrow> ip_addr \<Rightarrow> operator_error + unit" where
  "ensure_free o' name addr =
     (case find (\<lambda>(n, b). bi_addr b = addr \<and> n \<noteq> name) (btree_iter (io_records o')) of
        Some (n, _) \<Rightarrow> Inl (AddressAlreadyRecorded addr n)
      | None \<Rightarrow> Inr ())"

definition operator_allocate ::
  "ipam_operator \<Rightarrow> string \<Rightarrow> node_id \<Rightarrow> ip_addr \<Rightarrow> (operator_error + binding) \<times> ipam_operator" where
  "operator_allocate o' name n addr =
     (case ensure_free o' name addr of
        Inl e \<Rightarrow> (Inl e, o')
      | Inr _ \<Rightarrow>
          (case allocate_for (io_ipam o') n addr of
             Inl e \<Rightarrow> (Inl (Scoped e), o')
           | Inr (allocated, s) \<Rightarrow>
               if \<not> allocated then (Inl (NotAllocated addr), o'\<lparr>io_ipam := s\<rparr>)
               else let b = \<lparr>bi_node = n, bi_addr = addr, bi_allocated = True\<rparr> in
                    (Inr b, o'\<lparr>io_ipam := s, io_records := btree_insert name b (io_records o')\<rparr>)))"

definition operator_reserve ::
  "ipam_operator \<Rightarrow> string \<Rightarrow> node_id \<Rightarrow> ip_addr \<Rightarrow> (operator_error + binding) \<times> ipam_operator" where
  "operator_reserve o' name n addr =
     (case ensure_free o' name addr of
        Inl e \<Rightarrow> (Inl e, o')
      | Inr _ \<Rightarrow>
          (case allocate_for (io_ipam o') n addr of
             Inl e \<Rightarrow> (Inl (Scoped e), o')
           | Inr (allocated, s) \<Rightarrow>
               let b = \<lparr>bi_node = n, bi_addr = addr, bi_allocated = allocated\<rparr> in
               (Inr b, o'\<lparr>io_ipam := s, io_records := btree_insert name b (io_records o')\<rparr>)))"

definition operator_release ::
  "ipam_operator \<Rightarrow> string \<Rightarrow> (operator_error + binding) \<times> ipam_operator" where
  "operator_release o' name =
     (case btree_get (io_records o') name of
        None \<Rightarrow> (Inl (NotRecorded name), o')
      | Some b \<Rightarrow>
          let o1 = o'\<lparr>io_records := btree_remove name (io_records o')\<rparr> in
          (case allocator_for (io_ipam o1) (bi_node b) (is_ipv6 (bi_addr b)) of
             Inl _ \<Rightarrow> (Inr b, o1)
           | Inr (scope, d) \<Rightarrow>
               (Inr b, o1\<lparr>io_ipam := put_allocator (io_ipam o1) scope (is_ipv6 (bi_addr b))
                  (snd (allocator_release d (bi_node b) (bi_addr b)))\<rparr>)))"

definition operator_get :: "ipam_operator \<Rightarrow> string \<Rightarrow> binding option" where
  "operator_get o' name = btree_get (io_records o') name"

definition recorded_addr :: "ipam_operator \<Rightarrow> string \<Rightarrow> ip_addr option" where
  "recorded_addr o' name = map_option bi_addr (btree_get (io_records o') name)"

definition operator_list :: "ipam_operator \<Rightarrow> (string \<times> binding) list" where
  "operator_list o' = btree_iter (io_records o')"

definition operator_len :: "ipam_operator \<Rightarrow> nat" where
  "operator_len o' = btree_len (io_records o')"

section \<open>Runs and the invariant\<close>

datatype io_op =
    OpAllocate string node_id ip_addr
  | OpReserve string node_id ip_addr
  | OpRelease string
  | OpGrant node_id node_id ip_addr

text \<open>\<open>OpGrant\<close> records a voter's grant through \<open>ipam_mut\<close>.\<close>

fun io_exec :: "ipam_operator \<Rightarrow> io_op \<Rightarrow> ipam_operator" where
  "io_exec o' (OpAllocate name n a) = snd (operator_allocate o' name n a)"
| "io_exec o' (OpReserve name n a) = snd (operator_reserve o' name n a)"
| "io_exec o' (OpRelease name) = snd (operator_release o' name)"
| "io_exec o' (OpGrant v n a) = o'\<lparr>io_ipam := si_exec (io_ipam o') (GrantFor v n a)\<rparr>"

definition holds_in_site :: "scoped_ipam \<Rightarrow> node_id \<Rightarrow> ip_addr \<Rightarrow> bool" where
  "holds_in_site s n addr \<longleftrightarrow>
     (\<exists>v d. scope_of s n = Inr v \<and> bound_at s v (is_ipv6 addr) = Some d \<and> allocator_of d addr = Some n)"

text \<open>An address is recorded once, and a live record is held by its node in the node's own site.\<close>

definition operator_inv :: "ipam_operator \<Rightarrow> bool" where
  "operator_inv o' \<longleftrightarrow>
     (\<forall>n1 n2 b1 b2. operator_get o' n1 = Some b1 \<longrightarrow> operator_get o' n2 = Some b2 \<longrightarrow>
        bi_addr b1 = bi_addr b2 \<longrightarrow> n1 = n2)
     \<and> (\<forall>name b. operator_get o' name = Some b \<longrightarrow> bi_allocated b \<longrightarrow>
        holds_in_site (io_ipam o') (bi_node b) (bi_addr b))"

lemma ensure_free_Inr:
  "ensure_free o' name addr = Inr u \<longleftrightarrow>
     (\<forall>n b. operator_get o' n = Some b \<longrightarrow> bi_addr b = addr \<longrightarrow> n = name)"
  by (auto simp: ensure_free_def operator_get_def find_None_iff btree_iter_iff find_Some_iff
      split: option.splits) (metis btree_iter_iff case_prodD nth_mem)+

lemma put_allocator_scope [simp]:
  "si_topology (put_allocator s v w d) = si_topology s" "si_tier (put_allocator s v w d) = si_tier s"
  by (simp_all add: put_allocator_def split: option.splits)

lemma scope_of_put [simp]: "scope_of (put_allocator s v w d) n = scope_of s n"
  by (simp add: scope_of_def split: option.splits)

lemma scope_of_exec [simp]: "scope_of (si_exec s x) n = scope_of s n"
  by (simp add: si_exec_eq split: sum.splits prod.splits)

lemma si_exec_keeps_hold:
  assumes "holds_in_site s n addr" "x \<noteq> ReleaseFor n addr"
  shows "holds_in_site (si_exec s x) n addr"
proof -
  from assms(1) obtain v d where v: "scope_of s n = Inr v" "bound_at s v (is_ipv6 addr) = Some d"
    "allocator_of d addr = Some n" by (auto simp: holds_in_site_def)
  have "snd (si_da x) \<noteq> DaRelease n addr" using assms(2) by (cases x) auto
  with v(3) have "allocator_of (da_exec d (snd (si_da x))) addr = Some n" by (rule da_exec_keeps_holder)
  with v show ?thesis by (auto simp: holds_in_site_def si_exec_bound)
qed

lemma allocate_for_si_exec:
  "allocate_for s n addr = Inr (ok, s') \<Longrightarrow> s' = si_exec s (AllocateFor n addr)"
  by simp

lemma allocate_for_holds:
  assumes "allocate_for s n addr = Inr (True, s')"
  shows "holds_in_site s' n addr"
proof -
  from assms obtain v d d' where a: "scope_of s n = Inr v" "bound_at s v (is_ipv6 addr) = Some d"
    "pool_contains (da_pool d) addr" "da_pool d' = da_pool d" "allocator_of d' addr = Some n"
    "s' = put_allocator s v (is_ipv6 addr) d'" by (rule allocate_for_True)
  then show ?thesis by (simp add: holds_in_site_def bound_at_put [OF a(2)])
qed

lemma operator_inv_update:
  assumes inv: "operator_inv o'" and free: "ensure_free o' name (bi_addr b) = Inr ()"
    and keep: "\<And>n addr. holds_in_site (io_ipam o') n addr \<Longrightarrow> holds_in_site s n addr"
    and live: "bi_allocated b \<Longrightarrow> holds_in_site s (bi_node b) (bi_addr b)"
  shows "operator_inv (o'\<lparr>io_ipam := s, io_records := btree_insert name b (io_records o')\<rparr>)"
  unfolding operator_inv_def
proof (intro conjI allI impI)
  let ?o = "o'\<lparr>io_ipam := s, io_records := btree_insert name b (io_records o')\<rparr>"
  have get: "operator_get ?o n = (if n = name then Some b else operator_get o' n)" for n
    by (simp add: operator_get_def)
  have other: "n = name" if "operator_get o' n = Some b'" "bi_addr b' = bi_addr b" for n b'
    using free that by (auto simp: ensure_free_Inr)
  show "n1 = n2" if "operator_get ?o n1 = Some b1" "operator_get ?o n2 = Some b2" "bi_addr b1 = bi_addr b2"
    for n1 n2 b1 b2
    using that inv other unfolding get operator_inv_def by (metis option.inject)
  show "holds_in_site (io_ipam ?o) (bi_node b') (bi_addr b')"
    if "operator_get ?o n = Some b'" "bi_allocated b'" for n b'
    using that inv keep live unfolding get operator_inv_def by (auto split: if_splits)
qed

lemma allocate_for_keeps:
  assumes "allocate_for s n addr = Inr (ok, s')" "holds_in_site s m a"
  shows "holds_in_site s' m a"
  using si_exec_keeps_hold [OF assms(2), of "AllocateFor n addr"] assms(1) by simp

lemma operator_inv_ipam:
  assumes "operator_inv o'" "\<And>n addr. holds_in_site (io_ipam o') n addr \<Longrightarrow> holds_in_site s n addr"
  shows "operator_inv (o'\<lparr>io_ipam := s\<rparr>)"
  using assms unfolding operator_inv_def operator_get_def by auto

lemma operator_inv_allocate:
  assumes "operator_inv o'"
  shows "operator_inv (snd (operator_allocate o' name n addr))"
proof (cases "ensure_free o' name addr")
  case (Inl e)
  then show ?thesis using assms by (simp add: operator_allocate_def)
next
  case (Inr u)
  then show ?thesis
  proof (cases "allocate_for (io_ipam o') n addr")
    case (Inr r)
    obtain ok s where r: "r = (ok, s)" by (cases r)
    note keep = allocate_for_keeps [OF Inr [unfolded r]]
    show ?thesis
    proof (cases ok)
      case True
      then show ?thesis
        using \<open>ensure_free o' name addr = Inr u\<close> Inr r keep
          operator_inv_update [OF assms, of name "\<lparr>bi_node = n, bi_addr = addr, bi_allocated = True\<rparr>" s]
          allocate_for_holds [of "io_ipam o'" n addr s]
        by (simp add: operator_allocate_def Let_def)
    next
      case False
      then show ?thesis
        using \<open>ensure_free o' name addr = Inr u\<close> Inr r operator_inv_ipam [OF assms keep]
        by (simp add: operator_allocate_def)
    qed
  qed (use assms in \<open>simp add: operator_allocate_def\<close>)
qed

lemma operator_inv_reserve:
  assumes "operator_inv o'"
  shows "operator_inv (snd (operator_reserve o' name n addr))"
proof (cases "ensure_free o' name addr")
  case (Inl e)
  then show ?thesis using assms by (simp add: operator_reserve_def)
next
  case (Inr u)
  then show ?thesis
  proof (cases "allocate_for (io_ipam o') n addr")
    case (Inr r)
    obtain ok s where r: "r = (ok, s)" by (cases r)
    note keep = allocate_for_keeps [OF Inr [unfolded r]]
    show ?thesis
      using \<open>ensure_free o' name addr = Inr u\<close> Inr r keep
        operator_inv_update [OF assms, of name "\<lparr>bi_node = n, bi_addr = addr, bi_allocated = ok\<rparr>" s]
        allocate_for_holds [of "io_ipam o'" n addr s]
      by (simp add: operator_reserve_def Let_def)
  qed (use assms in \<open>simp add: operator_reserve_def\<close>)
qed

lemma operator_release_state:
  assumes "operator_get o' name = Some b"
  shows "snd (operator_release o' name) =
    o'\<lparr>io_ipam := si_exec (io_ipam o') (ReleaseFor (bi_node b) (bi_addr b)),
       io_records := btree_remove name (io_records o')\<rparr>"
  using assms
  by (auto simp: operator_release_def operator_get_def release_for_def Let_def split: sum.splits prod.splits)

lemma operator_inv_release:
  assumes inv: "operator_inv o'"
  shows "operator_inv (snd (operator_release o' name))"
proof (cases "operator_get o' name")
  case None
  then show ?thesis using inv by (simp add: operator_release_def operator_get_def)
next
  case (Some b)
  let ?o = "snd (operator_release o' name)"
  have get: "operator_get ?o n = (if n = name then None else operator_get o' n)" for n
    by (simp add: operator_release_state [OF Some] operator_get_def)
  show ?thesis
    unfolding operator_inv_def
  proof (intro conjI allI impI)
    show "n1 = n2" if "operator_get ?o n1 = Some b1" "operator_get ?o n2 = Some b2" "bi_addr b1 = bi_addr b2"
      for n1 n2 b1 b2
      using that inv unfolding get operator_inv_def by (metis option.distinct(1))
    show "holds_in_site (io_ipam ?o) (bi_node b') (bi_addr b')"
      if b': "operator_get ?o n = Some b'" "bi_allocated b'" for n b'
    proof -
      have n: "n \<noteq> name" "operator_get o' n = Some b'" using b'(1) unfolding get by (auto split: if_splits)
      then have "bi_addr b' \<noteq> bi_addr b" using inv Some unfolding operator_inv_def by blast
      moreover have "holds_in_site (io_ipam o') (bi_node b') (bi_addr b')"
        using inv n(2) b'(2) unfolding operator_inv_def by blast
      ultimately show ?thesis
        using si_exec_keeps_hold [of "io_ipam o'" "bi_node b'" "bi_addr b'" "ReleaseFor (bi_node b) (bi_addr b)"]
        by (simp add: operator_release_state [OF Some])
    qed
  qed
qed

lemma operator_inv_exec: "operator_inv o' \<Longrightarrow> operator_inv (io_exec o' x)"
proof (cases x)
  case (OpGrant v n a)
  assume "operator_inv o'"
  then show ?thesis using OpGrant si_exec_keeps_hold
    by (simp del: si_exec.simps) (rule operator_inv_ipam, auto simp del: si_exec.simps)
qed (simp_all add: operator_inv_allocate operator_inv_reserve operator_inv_release)

section \<open>Properties\<close>

text \<open>
  Records are sound at all times: starting from an empty surface, after any grants,
  allocations, reservations and releases no address is recorded under two names, and every record
  marked allocated is held by its node in the pool of the node's own failure domain.
\<close>

theorem operator_records_sound:
  "operator_inv (foldl io_exec (operator_new s) xs)"
proof -
  have "operator_inv o' \<Longrightarrow> operator_inv (foldl io_exec o' xs)" for o'
    by (induction xs arbitrary: o') (simp_all add: operator_inv_exec)
  moreover have "operator_inv (operator_new s)"
    by (simp add: operator_inv_def operator_new_def operator_get_def)
  ultimately show ?thesis by blast
qed

text \<open>
  The verbs, case by case: an allocation or reservation of an address recorded under
  another name is refused with the first such name and changes nothing; a successful one is read
  back under its name and leaves the other records alone; a refused one records nothing; a release
  returns the record, clears it and leaves the others.
\<close>

theorem operator_verbs_decide:
  "(fst (operator_allocate o' name n addr) = Inr b \<longrightarrow>
      b = \<lparr>bi_node = n, bi_addr = addr, bi_allocated = True\<rparr>
      \<and> operator_get (snd (operator_allocate o' name n addr)) name = Some b
      \<and> recorded_addr (snd (operator_allocate o' name n addr)) name = Some addr)
   \<and> (fst (operator_reserve o' name n addr) = Inr b \<longrightarrow>
      bi_node b = n \<and> bi_addr b = addr
      \<and> operator_get (snd (operator_reserve o' name n addr)) name = Some b)
   \<and> (\<forall>e. fst (operator_allocate o' name n addr) = Inl e \<longrightarrow>
      io_records (snd (operator_allocate o' name n addr)) = io_records o')
   \<and> (\<forall>m. m = name \<or>
      operator_get (snd (operator_allocate o' name n addr)) m = operator_get o' m
      \<and> operator_get (snd (operator_reserve o' name n addr)) m = operator_get o' m
      \<and> operator_get (snd (operator_release o' name)) m = operator_get o' m)
   \<and> ((\<exists>m b'. m \<noteq> name \<and> operator_get o' m = Some b' \<and> bi_addr b' = addr) \<longleftrightarrow>
      (\<exists>m. operator_allocate o' name n addr = (Inl (AddressAlreadyRecorded addr m), o')
        \<and> operator_reserve o' name n addr = (Inl (AddressAlreadyRecorded addr m), o')))
   \<and> operator_get (snd (operator_release o' name)) name = None
   \<and> fst (operator_release o' name) =
      (case operator_get o' name of None \<Rightarrow> Inl (NotRecorded name) | Some b' \<Rightarrow> Inr b')"
proof (intro conjI impI allI)
  show "b = \<lparr>bi_node = n, bi_addr = addr, bi_allocated = True\<rparr>"
    "operator_get (snd (operator_allocate o' name n addr)) name = Some b"
    "recorded_addr (snd (operator_allocate o' name n addr)) name = Some addr"
    if "fst (operator_allocate o' name n addr) = Inr b"
    using that by (auto simp: operator_allocate_def Let_def operator_get_def recorded_addr_def
        split: sum.splits if_splits prod.splits)
  show "bi_node b = n" "bi_addr b = addr" "operator_get (snd (operator_reserve o' name n addr)) name = Some b"
    if "fst (operator_reserve o' name n addr) = Inr b"
    using that by (auto simp: operator_reserve_def Let_def operator_get_def split: sum.splits prod.splits)
  show "io_records (snd (operator_allocate o' name n addr)) = io_records o'"
    if "fst (operator_allocate o' name n addr) = Inl e" for e
    using that by (auto simp: operator_allocate_def Let_def split: sum.splits if_splits prod.splits)
  show "m = name \<or>
      operator_get (snd (operator_allocate o' name n addr)) m = operator_get o' m
      \<and> operator_get (snd (operator_reserve o' name n addr)) m = operator_get o' m
      \<and> operator_get (snd (operator_release o' name)) m = operator_get o' m" for m
    by (auto simp: operator_allocate_def operator_reserve_def operator_release_def Let_def operator_get_def
        split: sum.splits prod.splits option.splits)
  show "operator_get (snd (operator_release o' name)) name = None"
    by (auto simp: operator_release_def operator_get_def Let_def split: option.splits sum.splits prod.splits)
  show "fst (operator_release o' name) =
      (case operator_get o' name of None \<Rightarrow> Inl (NotRecorded name) | Some b' \<Rightarrow> Inr b')"
    by (auto simp: operator_release_def operator_get_def Let_def split: option.splits sum.splits prod.splits)
  show "(\<exists>m b'. m \<noteq> name \<and> operator_get o' m = Some b' \<and> bi_addr b' = addr) \<longleftrightarrow>
      (\<exists>m. operator_allocate o' name n addr = (Inl (AddressAlreadyRecorded addr m), o')
        \<and> operator_reserve o' name n addr = (Inl (AddressAlreadyRecorded addr m), o'))"
  proof (cases "ensure_free o' name addr")
    case (Inl e)
    then obtain m where "e = AddressAlreadyRecorded addr m"
      by (auto simp: ensure_free_def split: option.splits)
    moreover have "\<exists>m b'. m \<noteq> name \<and> operator_get o' m = Some b' \<and> bi_addr b' = addr"
      using Inl ensure_free_Inr [of o' name addr "()"] by auto
    ultimately show ?thesis using Inl by (auto simp: operator_allocate_def operator_reserve_def)
  next
    case (Inr u)
    then have "\<nexists>m b'. m \<noteq> name \<and> operator_get o' m = Some b' \<and> bi_addr b' = addr"
      using ensure_free_Inr [of o' name addr u] by blast
    moreover have "fst (operator_allocate o' name n addr) \<noteq> Inl (AddressAlreadyRecorded addr m)" for m
      using Inr by (auto simp: operator_allocate_def Let_def split: sum.splits if_splits prod.splits)
    ultimately show ?thesis by (metis fst_conv)
  qed
qed

theorem operator_verbs_decide_witness:
  "recorded_addr (snd (operator_allocate (operator_new (foldl si_exec si_demo si_demo_ops)) ''vip'' ''n1'' (V4 0x0A000005))) ''vip''
     = Some (V4 0x0A000005)"
proof -
  let ?o = "operator_new (foldl si_exec si_demo si_demo_ops)"
  have "fst (operator_allocate ?o ''vip'' ''n1'' (V4 0x0A000005)) =
      Inr \<lparr>bi_node = ''n1'', bi_addr = V4 0x0A000005, bi_allocated = True\<rparr>" by code_simp
  with operator_verbs_decide [of ?o "''vip''" "''n1''" "V4 0x0A000005"
      "\<lparr>bi_node = ''n1'', bi_addr = V4 0x0A000005, bi_allocated = True\<rparr>"]
  show ?thesis by blast
qed

text \<open>
  Allocating a second address under a name overwrites the record of the first without releasing
  it: the node keeps holding an address no record names, and no verb can give it back.
\<close>

definition io_leak :: ipam_operator where
  "io_leak = foldl io_exec (operator_new si_demo)
     [OpGrant ''v'' ''n1'' (V4 0x0A000005), OpAllocate ''vip'' ''n1'' (V4 0x0A000005),
      OpGrant ''v'' ''n1'' (V4 0x0A000006), OpAllocate ''vip'' ''n1'' (V4 0x0A000006), OpRelease ''vip'']"

theorem rebinding_leaks_the_first_address:
  "operator_list io_leak = []
   \<and> map_option (\<lambda>d. allocator_of d (V4 0x0A000005)) (bound_at (io_ipam io_leak) ''r1'' False) = Some (Some ''n1'')"
  by code_simp

end
