(* ===== verification/QuotaLedger.thy ===== *)
theory QuotaLedger
  imports TrustArtifacts Coordination
begin

text \<open>
  \<^verbatim>\<open>crates/pillar-quota-ledger/src/lib.rs\<close>: the reservation ledger of one quota
  attestation. The ledger is a client of the lease register (locale \<open>lease_client\<close>): the slot
  of a reservation is its epoch. Every admission and release is appended to the op-log.
\<close>

section \<open>The ledger\<close>

record reservation_id =
  ri_budget :: cid
  ri_slot :: u64

datatype ledger_error =
    NotAQuotaBudget
  | WouldExceedBudget u64 u64
  | NotQuorumFenced
  | LedgerGrant grant_error
  | UnknownReservation reservation_id

record reservation =
  rs_slot :: u64
  rs_candidate :: node_id
  rs_amount :: u64

record quota_ledger =
  ql_budget_cid :: cid
  ql_budget :: u64
  ql_register :: lease_register
  ql_next_slot :: u64
  ql_outstanding :: "(u64, reservation) btree_map"
  ql_log :: oplog

definition for_budget :: "crypto \<Rightarrow> attest \<Rightarrow> nat \<Rightarrow> ledger_error + quota_ledger" where
  "for_budget c a n =
     (case pr_quota (at_predicate a) of
        None \<Rightarrow> Inl NotAQuotaBudget
      | Some budget \<Rightarrow>
          Inr \<lparr>ql_budget_cid = attest_cid c a, ql_budget = budget, ql_register = lease_new n,
               ql_next_slot = 0, ql_outstanding = btree_new, ql_log = oplog_new\<rparr>)"

definition reserved :: "quota_ledger \<Rightarrow> u64" where
  "reserved l = sum_list (map rs_amount (btree_values (ql_outstanding l)))"

definition available :: "quota_ledger \<Rightarrow> u64" where
  "available l = ql_budget l - reserved l"

definition record_entry :: "crypto \<Rightarrow> quota_ledger \<Rightarrow> string \<Rightarrow> quota_ledger" where
  "record_entry c l entry = l\<lparr>ql_log := snd (oplog_append (c_sha c) (ql_log l) (as_bytes entry))\<rparr>"

definition ledger_grant :: "quota_ledger \<Rightarrow> node_id \<Rightarrow> node_id \<Rightarrow> ledger_error + quota_ledger" where
  "ledger_grant l voter candidate =
     (case lease_grant (ql_register l) voter candidate (ql_next_slot l) of
        Inl e \<Rightarrow> Inl (LedgerGrant e)
      | Inr r \<Rightarrow> Inr (l\<lparr>ql_register := r\<rparr>))"

definition nul :: string where
  "nul = [CHR 0x00]"

definition admit_entry :: "cid \<Rightarrow> u64 \<Rightarrow> node_id \<Rightarrow> u64 \<Rightarrow> string" where
  "admit_entry k slot candidate amount =
     ''admit'' @ nul @ k @ nul @ dec_string (unat slot) @ nul @ candidate @ nul @ dec_string (unat amount)"

definition release_entry :: "cid \<Rightarrow> u64 \<Rightarrow> u64 \<Rightarrow> string" where
  "release_entry k slot amount =
     ''release'' @ nul @ k @ nul @ dec_string (unat slot) @ nul @ dec_string (unat amount)"

definition ledger_admit ::
  "crypto \<Rightarrow> quota_ledger \<Rightarrow> node_id \<Rightarrow> u64 \<Rightarrow> (ledger_error + reservation_id) \<times> quota_ledger" where
  "ledger_admit c l candidate amount =
     (if amount > available l
      then (Inl (WouldExceedBudget amount (available l)), l\<lparr>ql_next_slot := ql_next_slot l + 1\<rparr>)
      else let slot = ql_next_slot l in
           case lease_try_acquire (ql_register l) candidate slot of
             (False, r) \<Rightarrow>
               (Inl NotQuorumFenced, l\<lparr>ql_register := r, ql_next_slot := ql_next_slot l + 1\<rparr>)
           | (True, r) \<Rightarrow>
               (Inr \<lparr>ri_budget = ql_budget_cid l, ri_slot = slot\<rparr>,
                record_entry c
                  (l\<lparr>ql_register := r, ql_next_slot := ql_next_slot l + 1,
                     ql_outstanding := btree_insert slot
                       \<lparr>rs_slot = slot, rs_candidate = candidate, rs_amount = amount\<rparr> (ql_outstanding l)\<rparr>)
                  (admit_entry (ql_budget_cid l) slot candidate amount)))"

definition ledger_release ::
  "crypto \<Rightarrow> quota_ledger \<Rightarrow> reservation_id \<Rightarrow> (ledger_error + u64) \<times> quota_ledger" where
  "ledger_release c l i =
     (if ri_budget i \<noteq> ql_budget_cid l then (Inl (UnknownReservation i), l)
      else case btree_get (ql_outstanding l) (ri_slot i) of
             None \<Rightarrow> (Inl (UnknownReservation i), l)
           | Some res \<Rightarrow>
               (Inr (rs_amount res),
                record_entry c (l\<lparr>ql_outstanding := btree_remove (ri_slot i) (ql_outstanding l)\<rparr>)
                  (release_entry (ql_budget_cid l) (rs_slot res) (rs_amount res))))"

definition is_outstanding :: "quota_ledger \<Rightarrow> reservation_id \<Rightarrow> bool" where
  "is_outstanding l i \<longleftrightarrow>
     ri_budget i = ql_budget_cid l \<and> btree_contains_key (ql_outstanding l) (ri_slot i)"

section \<open>Runs\<close>

datatype ql_op =
    LedgerGrantOp node_id node_id
  | LedgerAdmitOp node_id u64
  | LedgerReleaseOp reservation_id

fun ql_exec :: "crypto \<Rightarrow> quota_ledger \<Rightarrow> ql_op \<Rightarrow> quota_ledger" where
  "ql_exec c l (LedgerGrantOp v n) = (case ledger_grant l v n of Inl _ \<Rightarrow> l | Inr l' \<Rightarrow> l')"
| "ql_exec c l (LedgerAdmitOp n amt) = snd (ledger_admit c l n amt)"
| "ql_exec c l (LedgerReleaseOp i) = snd (ledger_release c l i)"

fun ql_voters :: "ql_op \<Rightarrow> node_id set" where
  "ql_voters (LedgerGrantOp v _) = {v}"
| "ql_voters _ = {}"

fun ql_calls :: "quota_ledger \<Rightarrow> ql_op \<Rightarrow> lease_op list" where
  "ql_calls l (LedgerGrantOp v n) = [GrantOp v n (ql_next_slot l)]"
| "ql_calls l (LedgerAdmitOp n amt) = (if amt > available l then [] else [AcquireOp n (ql_next_slot l)])"
| "ql_calls l (LedgerReleaseOp i) = []"

interpretation ledger: lease_client ql_register "ql_exec c" ql_calls
  for c :: crypto
proof
  fix l x
  show "ql_register (ql_exec c l x) = lease_run (ql_register l) (ql_calls l x)"
    by (cases x) (auto simp: ledger_grant_def ledger_admit_def ledger_release_def record_entry_def Let_def
        split: sum.splits prod.splits option.splits bool.splits)
qed

section \<open>The balance\<close>

text \<open>The sum of the outstanding amounts, without wrap-around.\<close>

definition outstanding_total :: "(u64, reservation) btree_map \<Rightarrow> nat" where
  "outstanding_total m = (\<Sum>(k, r)\<in>set (btree_iter m). unat (rs_amount r))"

lemma total_conv: "outstanding_total m = (\<Sum>k\<in>dom (btree_get m). unat (rs_amount (the (btree_get m k))))"
proof -
  have "set (btree_iter m) = (\<lambda>k. (k, the (btree_get m k))) ` dom (btree_get m)"
    by (force simp: btree_iter_iff image_iff)
  then show ?thesis
    unfolding outstanding_total_def by (simp add: sum.reindex inj_on_def)
qed

lemma total_insert_fresh:
  assumes "btree_get m k = None"
  shows "outstanding_total (btree_insert k r m) = outstanding_total m + unat (rs_amount r)"
proof -
  have "dom (btree_get (btree_insert k r m)) = insert k (dom (btree_get m))" by auto
  moreover have "k \<notin> dom (btree_get m)" using assms by auto
  moreover have "(\<Sum>j\<in>dom (btree_get m). unat (rs_amount (the (btree_get (btree_insert k r m) j))))
      = (\<Sum>j\<in>dom (btree_get m). unat (rs_amount (the (btree_get m j))))"
    using assms by (intro sum.cong) auto
  ultimately show ?thesis by (simp add: total_conv)
qed

lemma total_remove:
  assumes "btree_get m k = Some r"
  shows "outstanding_total (btree_remove k m) + unat (rs_amount r) = outstanding_total m"
proof -
  have "btree_insert k r (btree_remove k m) = m"
    using assms by (intro btree_ext) auto
  then show ?thesis using total_insert_fresh [of "btree_remove k m" k r] by simp
qed

lemma total_insert_le:
  "outstanding_total (btree_insert k r m) \<le> outstanding_total m + unat (rs_amount r)"
proof (cases "btree_get m k")
  case (Some r0)
  have "btree_insert k r m = btree_insert k r (btree_remove k m)" by (intro btree_ext) auto
  then show ?thesis
    using total_insert_fresh [of "btree_remove k m" k r] total_remove [OF Some] by simp
qed (simp add: total_insert_fresh)

lemma reserved_of_nat: "reserved l = of_nat (outstanding_total (ql_outstanding l))"
proof -
  have "sum_list (map rs_amount (map snd xs)) = (of_nat (\<Sum>(k, r)\<leftarrow>xs. unat (rs_amount r)) :: u64)"
    for xs :: "(u64 \<times> reservation) list"
    by (induction xs) auto
  moreover have "(\<Sum>(k, r)\<leftarrow>btree_iter m. unat (rs_amount r)) = outstanding_total m"
    for m :: "(u64, reservation) btree_map"
    using distinct_fst_btree_iter [of m]
    by (simp add: outstanding_total_def sum_list_distinct_conv_sum_set distinct_map)
  ultimately show ?thesis by (simp add: reserved_def btree_values_def)
qed

text \<open>The invariant of the ledger.\<close>

definition ledger_inv :: "quota_ledger \<Rightarrow> bool" where
  "ledger_inv l \<longleftrightarrow> outstanding_total (ql_outstanding l) \<le> unat (ql_budget l)"

lemma ledger_inv_available:
  assumes "ledger_inv l"
  shows "unat (reserved l) = outstanding_total (ql_outstanding l)"
    and "unat (available l) = unat (ql_budget l) - outstanding_total (ql_outstanding l)"
proof -
  have "outstanding_total (ql_outstanding l) < 2 ^ 64"
    using assms u64_lt [of "ql_budget l"] unfolding ledger_inv_def by (simp add: le_less_trans)
  then show r: "unat (reserved l) = outstanding_total (ql_outstanding l)"
    by (simp add: reserved_of_nat unat_of_nat)
  have "reserved l \<le> ql_budget l" using assms r by (simp add: ledger_inv_def word_le_nat_alt)
  then show "unat (available l) = unat (ql_budget l) - outstanding_total (ql_outstanding l)"
    by (simp add: available_def unat_sub r)
qed

lemma outstanding_record [simp]:
  "ql_outstanding (record_entry c l e) = ql_outstanding l" "ql_budget (record_entry c l e) = ql_budget l"
  "ql_next_slot (record_entry c l e) = ql_next_slot l" "ql_register (record_entry c l e) = ql_register l"
  "ql_budget_cid (record_entry c l e) = ql_budget_cid l"
  by (simp_all add: record_entry_def)

text \<open>An admission, case by case.\<close>

lemma ledger_admit_cases:
  obtains (over) "amt > available l"
      "ledger_admit c l n amt = (Inl (WouldExceedBudget amt (available l)), l\<lparr>ql_next_slot := ql_next_slot l + 1\<rparr>)"
  | (unfenced) "amt \<le> available l" "\<not> fst (lease_try_acquire (ql_register l) n (ql_next_slot l))"
      "ledger_admit c l n amt = (Inl NotQuorumFenced,
         l\<lparr>ql_register := snd (lease_try_acquire (ql_register l) n (ql_next_slot l)), ql_next_slot := ql_next_slot l + 1\<rparr>)"
  | (admitted) "amt \<le> available l" "fst (lease_try_acquire (ql_register l) n (ql_next_slot l))"
      "fst (ledger_admit c l n amt) = Inr \<lparr>ri_budget = ql_budget_cid l, ri_slot = ql_next_slot l\<rparr>"
      "snd (ledger_admit c l n amt) = record_entry c
         (l\<lparr>ql_register := snd (lease_try_acquire (ql_register l) n (ql_next_slot l)),
            ql_next_slot := ql_next_slot l + 1,
            ql_outstanding := btree_insert (ql_next_slot l)
              \<lparr>rs_slot = ql_next_slot l, rs_candidate = n, rs_amount = amt\<rparr> (ql_outstanding l)\<rparr>)
         (admit_entry (ql_budget_cid l) (ql_next_slot l) n amt)"
proof (cases "amt > available l")
  case True
  then show ?thesis by (intro over) (simp_all add: ledger_admit_def)
next
  case False
  obtain ok r where r: "lease_try_acquire (ql_register l) n (ql_next_slot l) = (ok, r)"
    by (cases "lease_try_acquire (ql_register l) n (ql_next_slot l)")
  show ?thesis
  proof (cases ok)
    case True
    then show ?thesis using False r by (intro admitted) (simp_all add: ledger_admit_def Let_def)
  next
    case not_ok: False
    then show ?thesis using False r by (intro unfenced) (simp_all add: ledger_admit_def Let_def)
  qed
qed

lemma ledger_inv_exec:
  assumes "ledger_inv l"
  shows "ledger_inv (ql_exec c l x) \<and> ql_budget (ql_exec c l x) = ql_budget l"
proof (cases x)
  case (LedgerGrantOp v n)
  then show ?thesis using assms by (auto simp: ledger_grant_def ledger_inv_def split: sum.splits)
next
  case (LedgerAdmitOp n amt)
  show ?thesis
  proof (cases rule: ledger_admit_cases [of l amt c n])
    case admitted
    have "unat amt \<le> unat (ql_budget l) - outstanding_total (ql_outstanding l)"
      using admitted(1) ledger_inv_available(2) [OF assms] by (simp add: word_le_nat_alt)
    then have "outstanding_total (btree_insert (ql_next_slot l)
        \<lparr>rs_slot = ql_next_slot l, rs_candidate = n, rs_amount = amt\<rparr> (ql_outstanding l)) \<le> unat (ql_budget l)"
      using total_insert_le [of "ql_next_slot l" "\<lparr>rs_slot = ql_next_slot l, rs_candidate = n, rs_amount = amt\<rparr>"
          "ql_outstanding l"] assms by (simp add: ledger_inv_def)
    then show ?thesis using LedgerAdmitOp admitted(4) by (simp add: ledger_inv_def)
  qed (use LedgerAdmitOp assms in \<open>simp_all add: ledger_inv_def\<close>)
next
  case (LedgerReleaseOp i)
  show ?thesis
  proof (cases "btree_get (ql_outstanding l) (ri_slot i)")
    case (Some res)
    then show ?thesis
      using LedgerReleaseOp assms total_remove [OF Some] by (auto simp: ledger_release_def ledger_inv_def)
  qed (use LedgerReleaseOp assms in \<open>simp add: ledger_release_def\<close>)
qed

lemma ledger_inv_run:
  "ledger_inv l \<Longrightarrow> ledger_inv (foldl (ql_exec c) l xs) \<and> ql_budget (foldl (ql_exec c) l xs) = ql_budget l"
  by (induction xs arbitrary: l) (simp_all add: ledger_inv_exec)

lemma ledger_inv_new: "for_budget c a n = Inr l \<Longrightarrow> ledger_inv l \<and> pr_quota (at_predicate a) = Some (ql_budget l)"
  by (auto simp: for_budget_def ledger_inv_def outstanding_total_def btree_new.rep_eq split: option.splits)

section \<open>Slots\<close>

text \<open>Every slot in use is below the next one, and fenced to the candidate of its reservation.\<close>

definition slots_inv :: "quota_ledger \<Rightarrow> bool" where
  "slots_inv l \<longleftrightarrow>
     (\<forall>k r. btree_get (ql_outstanding l) k = Some r \<longrightarrow> rs_slot r = k \<and> k < ql_next_slot l
        \<and> lease_holder (ql_register l) k = Some (rs_candidate r))"

lemma holder_kept:
  assumes "lease_holder (ql_register l) k = Some h"
  shows "lease_holder (ql_register (ql_exec c l x)) k = Some h"
proof -
  have grant: "lease_holder r' k = lease_holder r k" if "lease_grant r v n e = Inr r'" for r r' v n e
    using that by (auto simp: lease_grant_Inr lease_holder_def)
  show ?thesis
    unfolding ledger.register_exec using assms
    by (cases x) (auto simp: lease_holder_try_acquire lease_try_acquire_fst grant split: sum.splits)
qed

lemma next_slot_exec:
  "ql_next_slot (ql_exec c l x) = ql_next_slot l + (case x of LedgerAdmitOp _ _ \<Rightarrow> 1 | _ \<Rightarrow> 0)"
proof (cases x)
  case (LedgerAdmitOp n amt)
  show ?thesis by (cases rule: ledger_admit_cases [of l amt c n]) (simp_all add: LedgerAdmitOp)
qed (auto simp: ledger_grant_def ledger_release_def split: sum.splits option.splits)

lemma next_slot_bounds:
  assumes "unat (ql_next_slot l) + 1 < 2 ^ 64"
  shows "unat (ql_next_slot l) \<le> unat (ql_next_slot (ql_exec c l x))"
    and "unat (ql_next_slot (ql_exec c l x)) \<le> unat (ql_next_slot l) + 1"
proof -
  have "ql_next_slot (ql_exec c l x) = ql_next_slot l \<or> ql_next_slot (ql_exec c l x) = ql_next_slot l + 1"
    unfolding next_slot_exec by (cases x) simp_all
  then show "unat (ql_next_slot l) \<le> unat (ql_next_slot (ql_exec c l x))"
    "unat (ql_next_slot (ql_exec c l x)) \<le> unat (ql_next_slot l) + 1"
    using unat_u64_succ [OF assms] by auto
qed

lemma outstanding_exec:
  assumes "btree_get (ql_outstanding (ql_exec c l x)) k = Some r"
  shows "btree_get (ql_outstanding l) k = Some r
    \<or> (k = ql_next_slot l \<and> rs_slot r = k \<and> lease_holder (ql_register (ql_exec c l x)) k = Some (rs_candidate r)
       \<and> (\<exists>n amt. x = LedgerAdmitOp n amt))"
proof (cases x)
  case (LedgerAdmitOp n amt)
  show ?thesis
  proof (cases rule: ledger_admit_cases [of l amt c n])
    case admitted
    then show ?thesis using assms LedgerAdmitOp
      by (auto simp: lease_holder_try_acquire split: if_splits)
  qed (use assms LedgerAdmitOp in simp_all)
qed (use assms in \<open>auto simp: ledger_grant_def ledger_release_def split: sum.splits option.splits if_splits\<close>)

lemma slots_inv_exec:
  assumes inv: "slots_inv l" and room: "unat (ql_next_slot l) + 1 < 2 ^ 64"
  shows "slots_inv (ql_exec c l x)"
  unfolding slots_inv_def
proof (intro allI impI)
  fix k r assume k: "btree_get (ql_outstanding (ql_exec c l x)) k = Some r"
  have grow: "ql_next_slot l \<le> ql_next_slot (ql_exec c l x)"
    using next_slot_bounds(1) [OF room] by (simp add: word_le_nat_alt)
  from outstanding_exec [OF k] show "rs_slot r = k \<and> k < ql_next_slot (ql_exec c l x)
        \<and> lease_holder (ql_register (ql_exec c l x)) k = Some (rs_candidate r)"
  proof
    assume "btree_get (ql_outstanding l) k = Some r"
    with inv have "rs_slot r = k" "k < ql_next_slot l" "lease_holder (ql_register l) k = Some (rs_candidate r)"
      by (auto simp: slots_inv_def)
    then show ?thesis using grow holder_kept by (auto intro: less_le_trans)
  next
    assume new: "k = ql_next_slot l \<and> rs_slot r = k
        \<and> lease_holder (ql_register (ql_exec c l x)) k = Some (rs_candidate r) \<and> (\<exists>n amt. x = LedgerAdmitOp n amt)"
    then obtain n amt where "x = LedgerAdmitOp n amt" by blast
    then have "ql_next_slot (ql_exec c l x) = ql_next_slot l + 1"
      unfolding next_slot_exec by simp
    then have "ql_next_slot l < ql_next_slot (ql_exec c l x)"
      using unat_u64_succ [OF room] by (simp add: word_less_nat_alt)
    with new show ?thesis by blast
  qed
qed

lemma slots_inv_run:
  assumes "slots_inv l" "unat (ql_next_slot l) + length xs < 2 ^ 64"
  shows "slots_inv (foldl (ql_exec c) l xs)
    \<and> unat (ql_next_slot l) \<le> unat (ql_next_slot (foldl (ql_exec c) l xs))
    \<and> unat (ql_next_slot (foldl (ql_exec c) l xs)) \<le> unat (ql_next_slot l) + length xs"
  using assms
proof (induction xs arbitrary: l)
  case (Cons x xs)
  have room: "unat (ql_next_slot l) + 1 < 2 ^ 64" using Cons.prems(2) by simp
  note ns = next_slot_bounds [OF room, of c x]
  have "unat (ql_next_slot (ql_exec c l x)) + length xs < 2 ^ 64" using ns(2) Cons.prems(2) by simp
  from Cons.IH [OF slots_inv_exec [OF Cons.prems(1) room] this] ns show ?case by auto
qed simp

text \<open>A slot below the next one is never used again.\<close>

lemma old_slot_stable:
  assumes "unat (ql_next_slot l) + length ys < 2 ^ 64" "k < ql_next_slot l"
    and "btree_get (ql_outstanding (foldl (ql_exec c) l ys)) k = Some r'"
  shows "btree_get (ql_outstanding l) k = Some r'"
  using assms
proof (induction ys arbitrary: l)
  case (Cons x ys)
  have room: "unat (ql_next_slot l) + 1 < 2 ^ 64" using Cons.prems(1) by simp
  note ns = next_slot_bounds [OF room, of c x]
  have "btree_get (ql_outstanding (ql_exec c l x)) k = Some r'"
  proof (rule Cons.IH)
    show "unat (ql_next_slot (ql_exec c l x)) + length ys < 2 ^ 64" using ns(2) Cons.prems(1) by simp
    show "k < ql_next_slot (ql_exec c l x)" using ns(1) Cons.prems(2) by (simp add: word_less_nat_alt)
    show "btree_get (ql_outstanding (foldl (ql_exec c) (ql_exec c l x) ys)) k = Some r'"
      using Cons.prems(3) by simp
  qed
  from outstanding_exec [OF this] Cons.prems(2) show ?case by auto
qed simp

section \<open>Properties\<close>

text \<open>
  \<^bold>\<open>C15.\<close> The ledger never overspends: whatever grants, admissions and releases are made, the
  outstanding reservations sum up to at most the quota of the attestation, the reported
  reservation is that sum and the reported availability the rest, without wrap-around.
\<close>

theorem ledger_never_overspends:
  assumes "for_budget c a n = Inr l0" and "l = foldl (ql_exec c) l0 xs"
  shows "pr_quota (at_predicate a) = Some (ql_budget l)
    \<and> outstanding_total (ql_outstanding l) \<le> unat (ql_budget l)
    \<and> unat (reserved l) = outstanding_total (ql_outstanding l)
    \<and> unat (available l) + outstanding_total (ql_outstanding l) = unat (ql_budget l)"
proof -
  have new: "ledger_inv l0" "pr_quota (at_predicate a) = Some (ql_budget l0)"
    using ledger_inv_new [OF assms(1)] by auto
  then have inv: "ledger_inv l" "ql_budget l = ql_budget l0"
    using ledger_inv_run [of l0 c xs] assms(2) by auto
  then show ?thesis using new(2) ledger_inv_available [OF inv(1)] by (simp add: ledger_inv_def)
qed

text \<open>
  An admission is decided by the two gates: in every ledger reached by fewer than
  \<open>2^64\<close> calls it succeeds exactly when the amount is available and a strict majority of the
  voters grants the pending slot to the candidate; it then lowers the availability by exactly the
  amount, and releasing the reservation it returned gives exactly that amount back.
\<close>

theorem admission_and_release:
  assumes "for_budget c a n = Inr l0" "length xs + 1 < 2 ^ 64" "l = foldl (ql_exec c) l0 xs"
  shows "(fst (ledger_admit c l cand amt) = Inr \<lparr>ri_budget = ql_budget_cid l, ri_slot = ql_next_slot l\<rparr> \<longleftrightarrow>
      amt \<le> available l \<and> fst (lease_try_acquire (ql_register l) cand (ql_next_slot l)))
    \<and> (fst (ledger_admit c l cand amt) = Inr i \<longrightarrow>
        unat (available (snd (ledger_admit c l cand amt))) + unat amt = unat (available l)
        \<and> is_outstanding (snd (ledger_admit c l cand amt)) i
        \<and> fst (ledger_release c (snd (ledger_admit c l cand amt)) i) = Inr amt
        \<and> available (snd (ledger_release c (snd (ledger_admit c l cand amt)) i)) = available l)
    \<and> (fst (ledger_admit c l cand amt) = Inl e \<longrightarrow>
        available (snd (ledger_admit c l cand amt)) = available l)"
proof -
  have new: "ledger_inv l0" using ledger_inv_new [OF assms(1)] by simp
  have start: "slots_inv l0" "unat (ql_next_slot l0) = 0"
    using assms(1) by (auto simp: for_budget_def slots_inv_def split: option.splits)
  have inv: "ledger_inv l" "slots_inv l"
    using ledger_inv_run [OF new, of c xs] slots_inv_run [OF start(1), of xs c] start(2) assms(2,3) by auto
  have fresh: "btree_get (ql_outstanding l) (ql_next_slot l) = None"
    using inv(2) by (cases "btree_get (ql_outstanding l) (ql_next_slot l)") (auto simp: slots_inv_def)
  show ?thesis
  proof (cases rule: ledger_admit_cases [of l amt c cand])
    case admitted
    let ?l = "snd (ledger_admit c l cand amt)"
    let ?r = "\<lparr>rs_slot = ql_next_slot l, rs_candidate = cand, rs_amount = amt\<rparr>"
    have out: "ql_outstanding ?l = btree_insert (ql_next_slot l) ?r (ql_outstanding l)"
      "ql_budget ?l = ql_budget l" "ql_budget_cid ?l = ql_budget_cid l" using admitted(4) by simp_all
    have tot: "outstanding_total (ql_outstanding ?l) = outstanding_total (ql_outstanding l) + unat amt"
      using total_insert_fresh [OF fresh, of ?r] out(1) by simp
    have inv1: "ledger_inv ?l" using ledger_inv_exec [OF inv(1), of c "LedgerAdmitOp cand amt"] by simp
    have "unat (available ?l) + unat amt = unat (available l)"
      using ledger_inv_available(2) [OF inv1] ledger_inv_available(2) [OF inv(1)] tot inv1 out(2)
      by (simp add: ledger_inv_def)
    moreover have "btree_remove (ql_next_slot l) (btree_insert (ql_next_slot l) ?r (ql_outstanding l)) = ql_outstanding l"
      using fresh by (rule btree_remove_insert_id)
    ultimately show ?thesis
      using admitted(1-3) out
      by (auto simp: is_outstanding_def ledger_release_def available_def reserved_def)
  qed (auto simp: available_def reserved_def)
qed

text \<open>
  No double spend: over fewer than \<open>2^64\<close> calls a slot is never used for two
  reservations, and the slot of an outstanding reservation is fenced to its candidate for ever.
\<close>

theorem slots_never_reused:
  assumes "for_budget c a n = Inr l0" "length (xs @ ys) < 2 ^ 64"
    and "btree_get (ql_outstanding (foldl (ql_exec c) l0 xs)) k = Some r"
  shows "lease_holder (ql_register (foldl (ql_exec c) l0 (xs @ ys))) k = Some (rs_candidate r)
    \<and> (\<forall>r'. btree_get (ql_outstanding (foldl (ql_exec c) l0 (xs @ ys))) k = Some r' \<longrightarrow> r' = r)"
proof -
  let ?l = "foldl (ql_exec c) l0 xs"
  have start: "slots_inv l0" "unat (ql_next_slot l0) = 0"
    using assms(1) by (auto simp: for_budget_def slots_inv_def split: option.splits)
  have inv: "slots_inv ?l" "unat (ql_next_slot ?l) \<le> length xs"
    using slots_inv_run [OF start(1), of xs c] start(2) assms(2) by auto
  have k: "k < ql_next_slot ?l" "lease_holder (ql_register ?l) k = Some (rs_candidate r)"
    using inv(1) assms(3) by (auto simp: slots_inv_def)
  have "lease_holder (ql_register (foldl (ql_exec c) l ys)) k = Some h"
    if "lease_holder (ql_register l) k = Some h" for l h
    using that by (induction ys arbitrary: l) (simp_all add: holder_kept del: ql_exec.simps)
  then have "lease_holder (ql_register (foldl (ql_exec c) l0 (xs @ ys))) k = Some (rs_candidate r)"
    using k(2) by simp
  moreover have "r' = r" if "btree_get (ql_outstanding (foldl (ql_exec c) l0 (xs @ ys))) k = Some r'" for r'
    using old_slot_stable [of ?l ys k c r'] that inv(2) assms(2,3) k(1) by simp
  ultimately show ?thesis by blast
qed

section \<open>Witnesses\<close>

definition ql_demo :: quota_ledger where
  "ql_demo = (case for_budget trust_crypto ta_bob 1 of Inr l \<Rightarrow> l | Inl _ \<Rightarrow> undefined)"

lemma ql_demo_new: "for_budget trust_crypto ta_bob 1 = Inr ql_demo"
  by (simp add: ql_demo_def for_budget_def ta_bob_eq)

definition ql_demo_ops :: "ql_op list" where
  "ql_demo_ops = [LedgerGrantOp ''v'' ''w1'', LedgerAdmitOp ''w1'' 6]"

lemma ql_demo_start:
  "ql_demo = \<lparr>ql_budget_cid = ta_bob_cid, ql_budget = 10, ql_register = lease_new 1, ql_next_slot = 0,
     ql_outstanding = btree_new, ql_log = oplog_new\<rparr>"
  by (simp add: ql_demo_def for_budget_def ta_bob_eq ta_bob_cid_def)

lemma ql_demo_run:
  "btree_get (ql_outstanding (foldl (ql_exec trust_crypto) ql_demo ql_demo_ops)) 0 =
     Some \<lparr>rs_slot = 0, rs_candidate = ''w1'', rs_amount = 6\<rparr>"
  unfolding ql_demo_start by code_simp

theorem ledger_never_overspends_witness:
  "unat (reserved (foldl (ql_exec trust_crypto) ql_demo ql_demo_ops)) \<le> 10"
proof -
  let ?l = "foldl (ql_exec trust_crypto) ql_demo ql_demo_ops"
  have "pr_quota (at_predicate ta_bob) = Some 10" by (simp add: ta_bob_eq)
  then have "ql_budget ?l = 10"
    using ledger_never_overspends [OF ql_demo_new refl, of ql_demo_ops] by simp
  then show ?thesis
    using ledger_never_overspends [OF ql_demo_new refl, of ql_demo_ops] by (simp del: ql_exec.simps)
qed

theorem slots_never_reused_witness:
  "lease_holder (ql_register (foldl (ql_exec trust_crypto) ql_demo
      (ql_demo_ops @ [LedgerGrantOp ''v'' ''w2'', LedgerAdmitOp ''w2'' 6]))) 0 = Some ''w1''"
  using slots_never_reused [OF ql_demo_new _ ql_demo_run,
      of "[LedgerGrantOp ''v'' ''w2'', LedgerAdmitOp ''w2'' 6]"]
  by (simp add: ql_demo_ops_def del: ql_exec.simps)

theorem admission_and_release_witness:
  "\<exists>i. fst (ledger_admit trust_crypto (foldl (ql_exec trust_crypto) ql_demo [LedgerGrantOp ''v'' ''w1'']) ''w1'' 6) = Inr i
    \<and> is_outstanding (snd (ledger_admit trust_crypto
        (foldl (ql_exec trust_crypto) ql_demo [LedgerGrantOp ''v'' ''w1'']) ''w1'' 6)) i"
proof -
  let ?l = "foldl (ql_exec trust_crypto) ql_demo [LedgerGrantOp ''v'' ''w1'']"
  have "fst (ledger_admit trust_crypto ?l ''w1'' 6) = Inr \<lparr>ri_budget = ta_bob_cid, ri_slot = 0\<rparr>"
    unfolding ql_demo_start by code_simp
  then show ?thesis
    using admission_and_release [OF ql_demo_new _ refl, of "[LedgerGrantOp ''v'' ''w1'']" "''w1''" 6
        "\<lparr>ri_budget = ta_bob_cid, ri_slot = 0\<rparr>"] by auto
qed

text \<open>A request over the budget uses up the pending slot.\<close>

theorem refused_admission_consumes_slot:
  "available l < amt \<Longrightarrow> ql_next_slot (snd (ledger_admit c l n amt)) = ql_next_slot l + 1"
  by (simp add: ledger_admit_def)

end
