(* ===== verification/Tsig.thy ===== *)
theory Tsig
  imports Crypto_Sign
begin

text \<open>
  \<^verbatim>\<open>crates/pillar-wot-authority/src/tsig.rs\<close>: the trust-signature subpacket of an OpenPGP
  certification, decoded from a hashed subpacket area and accepted only behind a verified
  signature. The decoder is shown to accept exactly the areas of a grammar: a sequence of
  subpackets, each behind one of the one-, two- and five-octet length headers of the format.
\<close>

section \<open>The decoder\<close>

record trust_signature =
  ts_level :: u8
  ts_amount :: u8

definition full_trust_amount :: u8 where
  "full_trust_amount = 120"

definition trust_signature_type :: u8 where
  "trust_signature_type = 5"

datatype tsig_error =
    MalformedLength
  | TruncatedSubpacket
  | NoTrustSignature
  | MalformedTrustSignature
  | PartialTrust u8
  | SignatureVerificationFailed

record raw_subpacket =
  sp_kind :: u8
  sp_body :: bytes

definition u32_from_be_bytes :: "bytes \<Rightarrow> nat" where
  "u32_from_be_bytes bs = le_val (rev bs)"

definition read_subpacket_length :: "bytes \<Rightarrow> tsig_error + nat \<times> nat" where
  "read_subpacket_length data =
     (case data of
        [] \<Rightarrow> Inl MalformedLength
      | first # rest \<Rightarrow>
          if unat first \<le> 191 then Inr (unat first, 1)
          else if unat first \<le> 223 then
            (case rest of
               [] \<Rightarrow> Inl MalformedLength
             | second # _ \<Rightarrow> Inr ((unat first - 192) * 256 + unat second + 192, 2))
          else if first = 255 then
            (if length data < 5 then Inl MalformedLength
             else Inr (u32_from_be_bytes (take 4 rest), 5))
          else Inl MalformedLength)"

function subpackets :: "bytes \<Rightarrow> tsig_error + raw_subpacket list" where
  "subpackets data =
     (if data = [] then Inr []
      else case read_subpacket_length data of
        Inl e \<Rightarrow> Inl e
      | Inr (body_len, header_len) \<Rightarrow>
          if body_len = 0 then Inl MalformedLength
          else if length (drop header_len data) < body_len then Inl TruncatedSubpacket
          else
            let rest = drop header_len data; chunk = take body_len rest in
            case subpackets (drop body_len rest) of
              Inl e \<Rightarrow> Inl e
            | Inr out \<Rightarrow> Inr (\<lparr>sp_kind = and (hd chunk) 0x7f, sp_body = tl chunk\<rparr> # out))"
  by pat_completeness auto
termination
  by (relation "measure length") auto

declare subpackets.simps [simp del]

definition parse_trust_signature :: "bytes \<Rightarrow> tsig_error + trust_signature" where
  "parse_trust_signature data =
     (case subpackets data of
        Inl e \<Rightarrow> Inl e
      | Inr subs \<Rightarrow>
          (case find (\<lambda>s. sp_kind s = trust_signature_type) subs of
             None \<Rightarrow> Inl NoTrustSignature
           | Some tsig \<Rightarrow>
               (case sp_body tsig of
                  [level, amount] \<Rightarrow>
                    if amount < full_trust_amount then Inl (PartialTrust amount)
                    else Inr \<lparr>ts_level = level, ts_amount = amount\<rparr>
                | _ \<Rightarrow> Inl MalformedTrustSignature)))"

definition verify_and_parse_trust_signature ::
  "crypto \<Rightarrow> bytes \<Rightarrow> bytes \<Rightarrow> bytes \<Rightarrow> bytes \<Rightarrow> tsig_error + trust_signature" where
  "verify_and_parse_trust_signature c signer signed_material signature area =
     (case crypto_verify c signer signed_material signature of
        Inl _ \<Rightarrow> Inl SignatureVerificationFailed
      | Inr _ \<Rightarrow> parse_trust_signature area)"

section \<open>The grammar\<close>

text \<open>The headers a length may be written with.\<close>

definition length_headers :: "nat \<Rightarrow> bytes set" where
  "length_headers n =
     (if n \<le> 191 then {[of_nat n]} else {})
     \<union> (if 192 \<le> n \<and> n \<le> 8383 then {[of_nat (192 + (n - 192) div 256), of_nat ((n - 192) mod 256)]} else {})
     \<union> (if n < 2 ^ 32 then {255 # u32_to_be_bytes (of_nat n)} else {})"

inductive subpacket_area :: "bytes \<Rightarrow> raw_subpacket list \<Rightarrow> bool" where
  empty: "subpacket_area [] []"
| subpacket: "h \<in> length_headers (Suc (length body)) \<Longrightarrow> subpacket_area rest subs \<Longrightarrow>
     subpacket_area (h @ t # body @ rest) (\<lparr>sp_kind = and t 0x7f, sp_body = body\<rparr> # subs)"

lemma unat_u8_less: "unat (w :: u8) < 256"
  using unsigned_less [of w] by simp

lemma read_header:
  assumes "h \<in> length_headers n"
  shows "read_subpacket_length (h @ x) = Inr (n, length h)"
proof -
  consider (one) "n \<le> 191" "h = [of_nat n]"
    | (two) "192 \<le> n" "n \<le> 8383" "h = [of_nat (192 + (n - 192) div 256), of_nat ((n - 192) mod 256)]"
    | (five) "n < 2 ^ 32" "h = 255 # u32_to_be_bytes (of_nat n)"
    using assms by (auto simp: length_headers_def split: if_splits)
  then show ?thesis
  proof cases
    case one
    then show ?thesis by (simp add: read_subpacket_length_def unat_of_nat_u8)
  next
    case two
    define q where "q = (n - 192) div 256"
    define m where "m = (n - 192) mod 256"
    have "q \<le> 31" "m < 256" using two by (auto simp: q_def m_def)
    moreover have "q * 256 + m + 192 = n" using two by (simp add: q_def m_def)
    moreover have "unat (of_nat (192 + q) :: u8) = 192 + q" using \<open>q \<le> 31\<close> unat_of_nat_u8 [of "192 + q"] by simp
    moreover have "unat (of_nat m :: u8) = m" using \<open>m < 256\<close> unat_of_nat_u8 [of m] by simp
    ultimately show ?thesis
      using two(3) unfolding q_def [symmetric] m_def [symmetric]
      by (simp add: read_subpacket_length_def del: of_nat_add)
  next
    case five
    have "le_val (le_bytes 4 (unat (of_nat n :: u32))) = n"
      using five(1) by (simp add: le_val_le_bytes unsigned_of_nat take_bit_nat_eq_self)
    then show ?thesis
      using five(2) by (simp add: read_subpacket_length_def u32_from_be_bytes_def u32_to_be_bytes_def)
  qed
qed

lemma header_read:
  assumes "read_subpacket_length data = Inr (n, k)"
  shows "k \<le> length data \<and> take k data \<in> length_headers n"
proof -
  obtain a rest where data: "data = a # rest" using assms by (cases data) (auto simp: read_subpacket_length_def)
  consider (one) "unat a \<le> 191" | (two) "192 \<le> unat a" "unat a \<le> 223" | (five) "unat a > 223"
    by linarith
  then show ?thesis
  proof cases
    case one
    then show ?thesis using assms data by (auto simp: read_subpacket_length_def length_headers_def)
  next
    case two
    then obtain b r where r: "rest = b # r" "n = (unat a - 192) * 256 + unat b + 192" "k = 2"
      using assms data by (auto simp: read_subpacket_length_def split: list.splits)
    have "(n - 192) div 256 = unat a - 192" "(n - 192) mod 256 = unat b" "192 \<le> n" "n \<le> 8383"
      using r(2) two unat_u8_less [of b] by auto
    moreover have "(of_nat (192 + (unat a - 192)) :: u8) = a" using two by simp
    ultimately show ?thesis using data r by (auto simp: length_headers_def simp del: of_nat_add)
  next
    case five
    then have a: "a = 255" "4 \<le> length rest" "n = u32_from_be_bytes (take 4 rest)" "k = 5"
      using assms data by (auto simp: read_subpacket_length_def split: if_splits)
    let ?h = "take 4 rest"
    have len: "length (rev ?h) = 4" using a(2) by simp
    have n: "n < 2 ^ 32" using le_val_bound [of "rev ?h"] a(2,3) by (simp add: u32_from_be_bytes_def)
    have "u32_to_be_bytes (of_nat n) = rev (le_bytes 4 n)"
      using n by (simp add: u32_to_be_bytes_def unsigned_of_nat take_bit_nat_eq_self)
    also have "\<dots> = ?h"
      using le_bytes_le_val [of "rev ?h"] len a(3) by (simp add: u32_from_be_bytes_def)
    finally show ?thesis using a n data by (auto simp: length_headers_def)
  qed
qed

lemma subpackets_complete: "subpacket_area area subs \<Longrightarrow> subpackets area = Inr subs"
proof (induction rule: subpacket_area.induct)
  case (subpacket h body rest subs t)
  have h: "h \<noteq> []" using subpacket.hyps(1) by (auto simp: length_headers_def split: if_splits)
  show ?case
    using h read_header [OF subpacket.hyps(1), of "t # body @ rest"] subpacket.IH
    by (subst subpackets.simps) (simp add: Let_def)
qed (simp add: subpackets.simps)

lemma subpackets_sound: "subpackets area = Inr subs \<Longrightarrow> subpacket_area area subs"
proof (induction area arbitrary: subs rule: subpackets.induct)
  case (1 data)
  show ?case
  proof (cases "data = []")
    case True
    then show ?thesis using 1(2) by (simp add: subpackets.simps subpacket_area.empty)
  next
    case False
    obtain n k where nk: "read_subpacket_length data = Inr (n, k)" "n \<noteq> 0" "\<not> length (drop k data) < n"
      using 1(2) False by (subst (asm) subpackets.simps) (auto split: sum.splits if_splits)
    obtain out where out: "subpackets (drop n (drop k data)) = Inr out"
      "subs = \<lparr>sp_kind = and (hd (take n (drop k data))) 0x7f, sp_body = tl (take n (drop k data))\<rparr> # out"
      using 1(2) False nk by (subst (asm) subpackets.simps) (auto simp: Let_def split: sum.splits)
    have area: "subpacket_area (drop n (drop k data)) out"
      using 1(1) [OF False nk(1) refl nk(2,3) refl refl out(1)] .
    obtain t body where tb: "take n (drop k data) = t # body"
      using nk(2,3) by (cases "take n (drop k data)") auto
    then have "Suc (length body) = n" using nk(3) by (metis length_Cons length_take min.absorb2 not_less)
    then have "take k data \<in> length_headers (Suc (length body))" using header_read [OF nk(1)] by simp
    then have "subpacket_area (take k data @ t # body @ drop n (drop k data)) subs"
      using subpacket_area.subpacket [OF _ area] out(2) tb by simp
    moreover have "t # body @ drop n (drop k data) = drop k data"
      using tb append_take_drop_id [of n "drop k data"] by simp
    ultimately show ?thesis by simp
  qed
qed

lemma subpackets_errors:
  "subpackets area = Inl e \<Longrightarrow> e = MalformedLength \<or> e = TruncatedSubpacket"
proof (induction area arbitrary: e rule: subpackets.induct)
  case (1 data)
  have "read_subpacket_length data = Inl e \<Longrightarrow> e = MalformedLength" for e
    by (auto simp: read_subpacket_length_def split: list.splits if_splits)
  then show ?case
    using 1 by (subst (asm) (2) subpackets.simps) (auto simp: Let_def split: sum.splits if_splits, blast)
qed

lemma subpackets_iff: "subpackets area = Inr subs \<longleftrightarrow> subpacket_area area subs"
  using subpackets_complete subpackets_sound by blast

text \<open>
  The decoder ends on every input and accepts exactly the grammar: it returns a list of
  subpackets precisely when the area is their concatenation, each behind one of the headers of its
  length. So an area has at most one reading, every encoding of a list of subpackets decodes to
  that list, and an area of any other shape is refused as malformed or truncated.
\<close>

theorem subpackets_exact:
  "(subpackets area = Inr subs \<longleftrightarrow> subpacket_area area subs)
   \<and> (case subpackets area of Inl e \<Rightarrow> e = MalformedLength \<or> e = TruncatedSubpacket | Inr _ \<Rightarrow> True)"
proof (rule conjI [OF subpackets_iff])
  show "case subpackets area of Inl e \<Rightarrow> e = MalformedLength \<or> e = TruncatedSubpacket | Inr _ \<Rightarrow> True"
    using subpackets_errors [of area] by (cases "subpackets area") simp_all
qed

lemma find_split:
  "find P xs = Some x \<longleftrightarrow> P x \<and> (\<exists>pre post. xs = pre @ x # post \<and> list_all (\<lambda>y. \<not> P y) pre)"
proof
  show "find P xs = Some x \<Longrightarrow> P x \<and> (\<exists>pre post. xs = pre @ x # post \<and> list_all (\<lambda>y. \<not> P y) pre)"
  proof (induction xs)
    case (Cons y ys)
    show ?case
    proof (cases "P y")
      case True
      then have "y # ys = [] @ x # ys \<and> list_all (\<lambda>y. \<not> P y) []" using Cons.prems by simp
      then show ?thesis using True Cons.prems by fastforce
    next
      case False
      then obtain pre post where "P x" "ys = pre @ x # post" "list_all (\<lambda>y. \<not> P y) pre"
        using Cons by auto
      then have "P x" "y # ys = (y # pre) @ x # post \<and> list_all (\<lambda>y. \<not> P y) (y # pre)" using False by simp_all
      then show ?thesis by blast
    qed
  qed simp
  assume "P x \<and> (\<exists>pre post. xs = pre @ x # post \<and> list_all (\<lambda>y. \<not> P y) pre)"
  then obtain pre post where x: "P x" "xs = pre @ x # post" "list_all (\<lambda>y. \<not> P y) pre" by blast
  have "list_all (\<lambda>y. \<not> P y) pre \<Longrightarrow> find P (pre @ x # post) = Some x" using x(1)
    by (induction pre) auto
  then show "find P xs = Some x" using x by simp
qed

lemma parse_trust_signature_Inr:
  "parse_trust_signature area = Inr ts \<longleftrightarrow>
     (\<exists>subs s. subpacket_area area subs \<and> find (\<lambda>s. sp_kind s = 5) subs = Some s
        \<and> sp_body s = [ts_level ts, ts_amount ts] \<and> 120 \<le> unat (ts_amount ts))"
proof -
  have "(case b of [level, amount] \<Rightarrow> if amount < full_trust_amount then Inl (PartialTrust amount)
            else Inr \<lparr>ts_level = level, ts_amount = amount\<rparr> | _ \<Rightarrow> Inl MalformedTrustSignature) = Inr ts
      \<longleftrightarrow> b = [ts_level ts, ts_amount ts] \<and> 120 \<le> unat (ts_amount ts)" for b
    by (cases ts) (auto simp: full_trust_amount_def word_less_nat_alt not_less split: list.splits)
  then show ?thesis
    unfolding parse_trust_signature_def trust_signature_type_def subpackets_iff [symmetric]
    by (cases "subpackets area") (simp_all split: option.split)
qed

text \<open>
  A received certification yields a trust signature exactly when its signature verifies
  under the key of the claimed signer and the first trust-signature subpacket of a well-formed
  area has two octets, the level and an amount of at least 120.
\<close>

theorem trust_signature_accepted:
  "verify_and_parse_trust_signature c signer m sig area = Inr ts \<longleftrightarrow>
     crypto_verify c signer m sig = Inr ()
     \<and> (\<exists>pre post. subpacket_area area (pre @ \<lparr>sp_kind = 5, sp_body = [ts_level ts, ts_amount ts]\<rparr> # post)
          \<and> list_all (\<lambda>s. sp_kind s \<noteq> 5) pre)
     \<and> 120 \<le> unat (ts_amount ts)"
proof -
  have "verify_and_parse_trust_signature c signer m sig area = Inr ts \<longleftrightarrow>
      crypto_verify c signer m sig = Inr () \<and> parse_trust_signature area = Inr ts"
    by (simp add: verify_and_parse_trust_signature_def split: sum.splits)
  moreover have raw: "(\<exists>subs s. A subs \<and> (sp_kind s = 5 \<and> Q subs s) \<and> sp_body s = b \<and> R) \<longleftrightarrow>
      (\<exists>subs. A subs \<and> Q subs \<lparr>sp_kind = 5, sp_body = b\<rparr>) \<and> R" for A Q b R
    by (metis raw_subpacket.surjective raw_subpacket.simps(1,2) old.unit.exhaust)
  ultimately show ?thesis
    unfolding parse_trust_signature_Inr find_split raw by blast
qed

end
