(* ===== verification/KeyDistribution.thy ===== *)
theory KeyDistribution
  imports DocWrites
begin

text \<open>
  \<^verbatim>\<open>crates/pillar-key-distribution/src/lib.rs\<close>: the ledger of offered, accepted and
  admitted key artifacts with the nodes each is sealed to, as a state machine.

  Offers live in a keyed store, one key per record, written with the ledger's own clock; the
  serialization is the pair of arguments \<open>enc\<close> and \<open>dec\<close> of the keyed store.
\<close>

section \<open>Artifacts and records\<close>

datatype artifact_kind = RootKey | Operational

record artifact =
  ar_id :: string
  ar_kind :: artifact_kind

definition artifact_new :: "string \<Rightarrow> artifact_kind \<Rightarrow> artifact" where
  "artifact_new i k = \<lparr>ar_id = i, ar_kind = k\<rparr>"

definition artifact_is_root :: "artifact \<Rightarrow> bool" where
  "artifact_is_root a \<longleftrightarrow> ar_kind a = RootKey"

definition offers_collection :: string where
  "offers_collection = ''key-offers''"

datatype record_key = RecordKey (rk_user: string) (rk_cell: string) (rk_artifact: string)

text \<open>The derived order of the fields.\<close>

instantiation record_key :: linorder
begin

definition less_eq_record_key :: "record_key \<Rightarrow> record_key \<Rightarrow> bool" where
  "less_eq_record_key r s \<longleftrightarrow>
     (rk_user r, rk_cell r, rk_artifact r) \<le> (rk_user s, rk_cell s, rk_artifact s)"

definition less_record_key :: "record_key \<Rightarrow> record_key \<Rightarrow> bool" where
  "less_record_key r s \<longleftrightarrow>
     (rk_user r, rk_cell r, rk_artifact r) < (rk_user s, rk_cell s, rk_artifact s)"

instance
proof
  fix r s :: record_key
  show "r \<le> s \<Longrightarrow> s \<le> r \<Longrightarrow> r = s"
    unfolding less_eq_record_key_def by (cases r; cases s) (metis order_antisym prod.inject record_key.sel)
qed (auto simp: less_eq_record_key_def less_record_key_def less_le_not_le linear)

end

definition record_key_display :: "record_key \<Rightarrow> string" where
  "record_key_display r = rk_user r @ ''/'' @ rk_cell r @ ''/'' @ rk_artifact r"

record cell_policy =
  cp_user_selector :: "string btree_set"
  cp_node_allow :: "node_id btree_set"

definition cell_policy_new :: cell_policy where
  "cell_policy_new = \<lparr>cp_user_selector = btree_new, cp_node_allow = btree_new\<rparr>"

definition policy_add_user :: "string \<Rightarrow> cell_policy \<Rightarrow> cell_policy" where
  "policy_add_user u p = p\<lparr>cp_user_selector := bset_insert u (cp_user_selector p)\<rparr>"

definition policy_remove_user :: "string \<Rightarrow> cell_policy \<Rightarrow> cell_policy" where
  "policy_remove_user u p = p\<lparr>cp_user_selector := btree_remove u (cp_user_selector p)\<rparr>"

definition policy_admits :: "cell_policy \<Rightarrow> string \<Rightarrow> bool" where
  "policy_admits p u = bset_contains (cp_user_selector p) u"

datatype kd_error =
    UnknownCell string
  | UnknownArtifact string
  | RootArtifactNotDistributable string
  | UserNotSelected string string
  | InvalidTransition record_key string
  | KdNotARecipient
  | KdCrypto string

text \<open>A call ends with a value, an error, or the panic of an index that is not there.\<close>

datatype 'a kd_result = KdOk 'a | KdErr kd_error | KdPanic

section \<open>The ledger\<close>

record kd_ledger =
  kd_cells :: "(string, cell_policy) btree_map"
  kd_artifacts :: "(string, artifact) btree_map"
  kd_foreign_nodes :: "node_id btree_set"
  kd_offered :: keyed_store
  kd_offered_clock :: u64
  kd_accepted :: "record_key btree_set"
  kd_admitted :: "record_key btree_set"
  kd_cross_confirmed :: "record_key btree_set"
  kd_sealed_to :: "(record_key, node_id btree_set) btree_map"

definition is_cross_owner :: "node_id btree_set \<Rightarrow> node_id btree_set \<Rightarrow> bool" where
  "is_cross_owner allow foreign \<longleftrightarrow> list_ex (bset_contains foreign) (btree_keys allow)"

definition desired_seal :: "node_id btree_set \<Rightarrow> node_id btree_set \<Rightarrow> bool \<Rightarrow> node_id btree_set" where
  "desired_seal allow foreign confirmed =
     (if confirmed \<or> \<not> is_cross_owner allow foreign then allow
      else bset_collect (filter (\<lambda>n. \<not> bset_contains foreign n) (btree_keys allow)))"

definition kd_new :: "node_id btree_set \<Rightarrow> kd_ledger" where
  "kd_new foreign = \<lparr>kd_cells = btree_new, kd_artifacts = btree_new, kd_foreign_nodes = foreign,
     kd_offered = keyed_store_new, kd_offered_clock = 0, kd_accepted = btree_new,
     kd_admitted = btree_new, kd_cross_confirmed = btree_new, kd_sealed_to = btree_new\<rparr>"

text \<open>\<open>cell_mut\<close> registers the cell and hands out its policy, here to the function \<open>f\<close>.\<close>

definition kd_cell_mut :: "string \<Rightarrow> (cell_policy \<Rightarrow> cell_policy) \<Rightarrow> kd_ledger \<Rightarrow> kd_ledger" where
  "kd_cell_mut cell f s =
     (let p = (case btree_get (kd_cells s) cell of None \<Rightarrow> cell_policy_new | Some p \<Rightarrow> p)
      in s\<lparr>kd_cells := btree_insert cell (f p) (kd_cells s)\<rparr>)"

definition kd_register_artifact :: "artifact \<Rightarrow> kd_ledger \<Rightarrow> kd_ledger" where
  "kd_register_artifact a s = s\<lparr>kd_artifacts := btree_insert (ar_id a) a (kd_artifacts s)\<rparr>"

definition kd_offer_present :: "decoder \<Rightarrow> kd_ledger \<Rightarrow> record_key \<Rightarrow> bool" where
  "kd_offer_present dec s r \<longleftrightarrow> kv_get dec (kd_offered s) offers_collection (record_key_display r) \<noteq> None"

text \<open>The addition is the wrapping one of an unchecked build.\<close>

definition kd_next_offered_hlc :: "kd_ledger \<Rightarrow> hlc \<times> kd_ledger" where
  "kd_next_offered_hlc s =
     (let t = kd_offered_clock s + 1
      in (hlc_new t 0 ''key-distribution-ledger'', s\<lparr>kd_offered_clock := t\<rparr>))"

definition kd_insert_offered :: "encoder \<Rightarrow> sha256 \<Rightarrow> record_key \<Rightarrow> kd_ledger \<Rightarrow> kd_ledger" where
  "kd_insert_offered enc sha r s =
     (case kd_next_offered_hlc s of (h, s) \<Rightarrow>
        s\<lparr>kd_offered := snd (kv_put enc sha (kd_offered s) offers_collection (record_key_display r)
           (as_bytes ''offered'') h)\<rparr>)"

definition kd_remove_offered :: "encoder \<Rightarrow> sha256 \<Rightarrow> record_key \<Rightarrow> kd_ledger \<Rightarrow> kd_ledger" where
  "kd_remove_offered enc sha r s =
     (case kd_next_offered_hlc s of (h, s) \<Rightarrow>
        s\<lparr>kd_offered := snd (kv_delete enc sha (kd_offered s) offers_collection (record_key_display r) h)\<rparr>)"

definition kd_offered_kv_keys :: "decoder \<Rightarrow> kd_ledger \<Rightarrow> string list" where
  "kd_offered_kv_keys dec s = kv_keys dec (kd_offered s) offers_collection"

text \<open>The loop over the admitted records of a cell, whose policy the caller has just written.\<close>

definition kd_reseal_one :: "node_id btree_set \<Rightarrow> record_key \<Rightarrow> kd_ledger \<Rightarrow> kd_ledger" where
  "kd_reseal_one allow r s =
     s\<lparr>kd_sealed_to := btree_insert r
        (desired_seal allow (kd_foreign_nodes s) (bset_contains (kd_cross_confirmed s) r)) (kd_sealed_to s)\<rparr>"

definition kd_reseal_admitted_records_of :: "string \<Rightarrow> node_id btree_set \<Rightarrow> kd_ledger \<Rightarrow> kd_ledger" where
  "kd_reseal_admitted_records_of cell allow s =
     fold (kd_reseal_one allow) (filter (\<lambda>r. rk_cell r = cell) (btree_keys (kd_admitted s))) s"

definition kd_edit_allowlist ::
  "(node_id btree_set \<Rightarrow> node_id btree_set) \<Rightarrow> string \<Rightarrow> kd_ledger \<Rightarrow> unit kd_result \<times> kd_ledger" where
  "kd_edit_allowlist f cell s =
     (case btree_get (kd_cells s) cell of
        None \<Rightarrow> (KdErr (UnknownCell cell), s)
      | Some p \<Rightarrow>
          (let allow = f (cp_node_allow p);
               s = s\<lparr>kd_cells := btree_insert cell (p\<lparr>cp_node_allow := allow\<rparr>) (kd_cells s)\<rparr>
           in (KdOk (), kd_reseal_admitted_records_of cell allow s)))"

definition kd_add_node_to_allowlist :: "string \<Rightarrow> node_id \<Rightarrow> kd_ledger \<Rightarrow> unit kd_result \<times> kd_ledger" where
  "kd_add_node_to_allowlist cell node = kd_edit_allowlist (bset_insert node) cell"

definition kd_remove_node_from_allowlist :: "string \<Rightarrow> node_id \<Rightarrow> kd_ledger \<Rightarrow> unit kd_result \<times> kd_ledger" where
  "kd_remove_node_from_allowlist cell node = kd_edit_allowlist (btree_remove node) cell"

definition kd_offer ::
  "encoder \<Rightarrow> decoder \<Rightarrow> sha256 \<Rightarrow> string \<Rightarrow> string \<Rightarrow> string \<Rightarrow> kd_ledger \<Rightarrow> unit kd_result \<times> kd_ledger" where
  "kd_offer enc dec sha user cell art s =
     (case btree_get (kd_artifacts s) art of
        None \<Rightarrow> (KdErr (UnknownArtifact art), s)
      | Some a \<Rightarrow>
          if artifact_is_root a then (KdErr (RootArtifactNotDistributable art), s)
          else case btree_get (kd_cells s) cell of
            None \<Rightarrow> (KdErr (UnknownCell cell), s)
          | Some p \<Rightarrow>
              if \<not> policy_admits p user then (KdErr (UserNotSelected user cell), s)
              else let r = RecordKey user cell art in
                if kd_offer_present dec s r \<or> bset_contains (kd_admitted s) r
                then (KdErr (InvalidTransition r ''already offered or already admitted''), s)
                else (KdOk (), kd_insert_offered enc sha r s))"

definition kd_accept :: "decoder \<Rightarrow> record_key \<Rightarrow> kd_ledger \<Rightarrow> unit kd_result \<times> kd_ledger" where
  "kd_accept dec r s =
     (if \<not> kd_offer_present dec s r then (KdErr (InvalidTransition r ''not offered''), s)
      else if bset_contains (kd_accepted s) r then (KdErr (InvalidTransition r ''already accepted''), s)
      else (KdOk (), s\<lparr>kd_accepted := bset_insert r (kd_accepted s)\<rparr>))"

definition kd_cross_owner :: "kd_ledger \<Rightarrow> record_key \<Rightarrow> bool" where
  "kd_cross_owner s r =
     (case btree_get (kd_cells s) (rk_cell r) of
        Some p \<Rightarrow> is_cross_owner (cp_node_allow p) (kd_foreign_nodes s)
      | None \<Rightarrow> False)"

definition kd_confirm_cross_owner :: "decoder \<Rightarrow> record_key \<Rightarrow> kd_ledger \<Rightarrow> unit kd_result \<times> kd_ledger" where
  "kd_confirm_cross_owner dec r s =
     (if \<not> kd_offer_present dec s r then (KdErr (InvalidTransition r ''not offered''), s)
      else if \<not> kd_cross_owner s r then (KdErr (InvalidTransition r ''not cross-owner''), s)
      else if bset_contains (kd_cross_confirmed s) r
        then (KdErr (InvalidTransition r ''already confirmed''), s)
      else let s = s\<lparr>kd_cross_confirmed := bset_insert r (kd_cross_confirmed s)\<rparr> in
        if bset_contains (kd_admitted s) r then
          (case btree_get (kd_cells s) (rk_cell r) of
             None \<Rightarrow> (KdPanic, s)
           | Some p \<Rightarrow> (KdOk (), s\<lparr>kd_sealed_to := btree_insert r (cp_node_allow p) (kd_sealed_to s)\<rparr>))
        else (KdOk (), s))"

definition kd_admit :: "decoder \<Rightarrow> record_key \<Rightarrow> kd_ledger \<Rightarrow> unit kd_result \<times> kd_ledger" where
  "kd_admit dec r s =
     (case btree_get (kd_artifacts s) (rk_artifact r) of
        None \<Rightarrow> (KdErr (UnknownArtifact (rk_artifact r)), s)
      | Some a \<Rightarrow>
          if artifact_is_root a then (KdErr (RootArtifactNotDistributable (rk_artifact r)), s)
          else if \<not> kd_offer_present dec s r then (KdErr (InvalidTransition r ''not offered''), s)
          else if \<not> bset_contains (kd_accepted s) r then (KdErr (InvalidTransition r ''not accepted''), s)
          else if bset_contains (kd_admitted s) r then (KdErr (InvalidTransition r ''already admitted''), s)
          else if kd_cross_owner s r \<and> \<not> bset_contains (kd_cross_confirmed s) r then
            (KdErr (InvalidTransition r ''cross-owner offer requires ConfirmCrossOwner before Admit''), s)
          else let s = s\<lparr>kd_admitted := bset_insert r (kd_admitted s)\<rparr> in
            case btree_get (kd_cells s) (rk_cell r) of
              None \<Rightarrow> (KdPanic, s)
            | Some p \<Rightarrow>
                (KdOk (), s\<lparr>kd_sealed_to := btree_insert r
                   (desired_seal (cp_node_allow p) (kd_foreign_nodes s)
                     (bset_contains (kd_cross_confirmed s) r)) (kd_sealed_to s)\<rparr>))"

definition kd_revoke_offer ::
  "encoder \<Rightarrow> decoder \<Rightarrow> sha256 \<Rightarrow> record_key \<Rightarrow> kd_ledger \<Rightarrow> unit kd_result \<times> kd_ledger" where
  "kd_revoke_offer enc dec sha r s =
     (if \<not> kd_offer_present dec s r then (KdErr (InvalidTransition r ''not offered''), s)
      else let s = kd_remove_offered enc sha r s in
        (KdOk (), s\<lparr>kd_admitted := btree_remove r (kd_admitted s),
           kd_sealed_to := btree_insert r btree_new (kd_sealed_to s)\<rparr>))"

definition kd_seal_of :: "kd_ledger \<Rightarrow> record_key \<Rightarrow> node_id btree_set" where
  "kd_seal_of s r = (case btree_get (kd_sealed_to s) r of Some t \<Rightarrow> t | None \<Rightarrow> btree_new)"

definition kd_is_admitted :: "kd_ledger \<Rightarrow> record_key \<Rightarrow> bool" where
  "kd_is_admitted s r = bset_contains (kd_admitted s) r"

definition kd_is_accepted :: "kd_ledger \<Rightarrow> record_key \<Rightarrow> bool" where
  "kd_is_accepted s r = bset_contains (kd_accepted s) r"

definition kd_is_offered :: "decoder \<Rightarrow> kd_ledger \<Rightarrow> record_key \<Rightarrow> bool" where
  "kd_is_offered dec s r = kd_offer_present dec s r"

section \<open>The ledger as a state machine\<close>

text \<open>
  The policy that \<open>cell_mut\<close> hands out is edited by its own methods, which add and remove a user;
  a caller that assigns a whole new policy is looked at in \<open>replaced_policy_keeps_seals\<close>.
\<close>

datatype kd_call =
    CallAddUser string string
  | CallRemoveUser string string
  | CallRegister artifact
  | CallAddNode string node_id
  | CallRemoveNode string node_id
  | CallOffer string string string
  | CallAccept record_key
  | CallConfirm record_key
  | CallAdmit record_key
  | CallRevoke record_key

fun kd_exec :: "encoder \<Rightarrow> decoder \<Rightarrow> sha256 \<Rightarrow> kd_call \<Rightarrow> kd_ledger \<Rightarrow> unit kd_result \<times> kd_ledger" where
  "kd_exec enc dec sha (CallAddUser cell u) s = (KdOk (), kd_cell_mut cell (policy_add_user u) s)"
| "kd_exec enc dec sha (CallRemoveUser cell u) s = (KdOk (), kd_cell_mut cell (policy_remove_user u) s)"
| "kd_exec enc dec sha (CallRegister a) s = (KdOk (), kd_register_artifact a s)"
| "kd_exec enc dec sha (CallAddNode cell n) s = kd_add_node_to_allowlist cell n s"
| "kd_exec enc dec sha (CallRemoveNode cell n) s = kd_remove_node_from_allowlist cell n s"
| "kd_exec enc dec sha (CallOffer u cell a) s = kd_offer enc dec sha u cell a s"
| "kd_exec enc dec sha (CallAccept r) s = kd_accept dec r s"
| "kd_exec enc dec sha (CallConfirm r) s = kd_confirm_cross_owner dec r s"
| "kd_exec enc dec sha (CallAdmit r) s = kd_admit dec r s"
| "kd_exec enc dec sha (CallRevoke r) s = kd_revoke_offer enc dec sha r s"

fun call_records :: "kd_call \<Rightarrow> record_key set" where
  "call_records (CallOffer u cell a) = {RecordKey u cell a}"
| "call_records (CallAccept r) = {r}"
| "call_records (CallConfirm r) = {r}"
| "call_records (CallAdmit r) = {r}"
| "call_records (CallRevoke r) = {r}"
| "call_records _ = {}"

text \<open>The states that calls on the records of \<open>R\<close> reach while the clock stays below \<open>N\<close>.\<close>

inductive kd_reachable ::
  "encoder \<Rightarrow> decoder \<Rightarrow> sha256 \<Rightarrow> node_id btree_set \<Rightarrow> record_key set \<Rightarrow> nat \<Rightarrow> kd_ledger \<Rightarrow> bool"
  for enc dec sha foreign R N where
  kd_init: "kd_reachable enc dec sha foreign R N (kd_new foreign)"
| kd_step: "kd_reachable enc dec sha foreign R N s \<Longrightarrow> call_records call \<subseteq> R \<Longrightarrow>
    unat (kd_offered_clock s) < N \<Longrightarrow>
    kd_reachable enc dec sha foreign R N (snd (kd_exec enc dec sha call s))"

section \<open>The offers in the keyed store\<close>

definition offer_op :: "string \<Rightarrow> u64 \<Rightarrow> bool \<Rightarrow> keyed_op" where
  "offer_op key t b = \<lparr>ko_collection = offers_collection, ko_id = key, ko_field = kv_field,
     ko_hlc = hlc_new t 0 ''key-distribution-ledger'',
     ko_kind = (if b then Put (Scalar (as_bytes ''offered'')) else Tomb)\<rparr>"

definition offer_ops :: "record_key set \<Rightarrow> nat \<Rightarrow> keyed_op set" where
  "offer_ops R n = {offer_op (record_key_display r) t b |r t b. r \<in> R \<and> unat t \<le> n}"

text \<open>
  What the ledger needs of its surroundings: a name without a slash in front of the last part, ops
  that are parsed back, a digest without collisions on them, and a clock that does not wrap.
\<close>

definition record_plain :: "record_key \<Rightarrow> bool" where
  "record_plain r \<longleftrightarrow> CHR ''/'' \<notin> set (rk_user r) \<and> CHR ''/'' \<notin> set (rk_cell r)"

definition offers_ok :: "encoder \<Rightarrow> decoder \<Rightarrow> sha256 \<Rightarrow> record_key set \<Rightarrow> nat \<Rightarrow> bool" where
  "offers_ok enc dec sha R N \<longleftrightarrow>
     N < 2 ^ 64 \<and> (\<forall>r\<in>R. record_plain r) \<and> (\<forall>k\<in>offer_ops R N. dec (enc k) = Some k)
     \<and> inj_on sha (enc ` offer_ops R N)"

definition offers_wf ::
  "encoder \<Rightarrow> decoder \<Rightarrow> sha256 \<Rightarrow> record_key set \<Rightarrow> kd_ledger \<Rightarrow> bool" where
  "offers_wf enc dec sha R s \<longleftrightarrow>
     oplog_wf sha (ks_log (kd_offered s)) \<and> stamps_distinct dec (kd_offered s)
     \<and> oplog_payloads (ks_log (kd_offered s)) \<subseteq> enc ` offer_ops R (unat (kd_offered_clock s))"

lemma takeWhile_slash: "CHR ''/'' \<notin> set u \<Longrightarrow> takeWhile (\<lambda>c. c \<noteq> CHR ''/'') (u @ CHR ''/'' # x) = u"
  by (induction u) auto

lemma slash_split_inject:
  assumes "CHR ''/'' \<notin> set u" "CHR ''/'' \<notin> set v" "u @ CHR ''/'' # x = v @ CHR ''/'' # y"
  shows "u = v \<and> x = y"
  using assms takeWhile_slash [of u x] takeWhile_slash [of v y] by auto

lemma record_key_display_inject:
  assumes "record_plain r" "record_plain q" "record_key_display r = record_key_display q"
  shows "r = q"
proof -
  have "rk_user r = rk_user q
      \<and> rk_cell r @ CHR ''/'' # rk_artifact r = rk_cell q @ CHR ''/'' # rk_artifact q"
    using assms by (intro slash_split_inject) (simp_all add: record_plain_def record_key_display_def)
  moreover from this have "rk_cell r = rk_cell q \<and> rk_artifact r = rk_artifact q"
    using assms by (intro slash_split_inject) (simp_all add: record_plain_def)
  ultimately show ?thesis by (cases r; cases q) simp
qed

lemma offer_ops_mono: "m \<le> n \<Longrightarrow> offer_ops R m \<subseteq> offer_ops R n"
  by (fastforce simp: offer_ops_def)

text \<open>The ledger is a writer with a clock of its own.\<close>

definition offer_write :: "record_key set \<Rightarrow> keyed_op \<Rightarrow> bool" where
  "offer_write R k \<longleftrightarrow> (\<exists>r\<in>R. \<exists>t b. k = offer_op (record_key_display r) t b)"

lemma offer_op_write:
  "r \<in> R \<Longrightarrow> offer_write R (offer_op (record_key_display r) t b)"
  "ko_hlc (offer_op key t b) = hlc_new t 0 ''key-distribution-ledger''"
  "ko_collection (offer_op key t b) = offers_collection" "ko_id (offer_op key t b) = key"
  "ko_field (offer_op key t b) = kv_field"
  "ko_kind (offer_op key t b) = (if b then Put (Scalar (as_bytes ''offered'')) else Tomb)"
  by (auto simp: offer_write_def offer_op_def)

lemma offer_ops_clocked: "offer_ops R n = clocked_ops ''key-distribution-ledger'' (offer_write R) n"
proof (intro equalityI subsetI)
  fix k
  assume "k \<in> offer_ops R n"
  then show "k \<in> clocked_ops ''key-distribution-ledger'' (offer_write R) n"
    by (auto simp: offer_ops_def clocked_ops_def offer_op_write)
next
  fix k
  assume "k \<in> clocked_ops ''key-distribution-ledger'' (offer_write R) n"
  then obtain r t u b where "k = offer_op (record_key_display r) t b" "r \<in> R"
      "ko_hlc k = hlc_new u 0 ''key-distribution-ledger''" "unat u \<le> n"
    by (auto simp: clocked_ops_def offer_write_def)
  moreover from this have "t = u" by (simp add: offer_op_write hlc_new_def)
  ultimately show "k \<in> offer_ops R n" unfolding offer_ops_def by blast
qed

lemma offers_ok_clocked:
  "offers_ok enc dec sha R N \<Longrightarrow> clocked_ok enc dec sha ''key-distribution-ledger'' (offer_write R) N"
  by (simp add: offers_ok_def clocked_ok_def offer_ops_clocked)

lemma offers_wf_clocked:
  "offers_wf enc dec sha R s \<longleftrightarrow>
     clocked_wf enc dec sha ''key-distribution-ledger'' (offer_write R) (kd_offered_clock s) (kd_offered s)"
  by (simp add: offers_wf_def clocked_wf_def offer_ops_clocked)

lemma offer_append:
  assumes "offers_ok enc dec sha R N" "offers_wf enc dec sha R s"
    and "unat (kd_offered_clock s) < N" "r \<in> R"
    and k: "k = offer_op (record_key_display r) (kd_offered_clock s + 1) b"
  shows "offers_wf enc dec sha R
      (s\<lparr>kd_offered_clock := kd_offered_clock s + 1, kd_offered := snd (append_op enc sha (kd_offered s) k)\<rparr>)"
  using clocked_append(3) [OF offers_ok_clocked [OF assms(1)] _ assms(3)] assms(2,4)
  by (simp add: offers_wf_clocked k offer_op_write)

lemma kv_get_append_offer:
  assumes "offers_ok enc dec sha R N" "offers_wf enc dec sha R s"
    and "unat (kd_offered_clock s) < N" "r \<in> R"
    and k: "k = offer_op (record_key_display r) (kd_offered_clock s + 1) b"
  shows "kv_get dec (snd (append_op enc sha (kd_offered s) k)) offers_collection key =
    (if key = record_key_display r then (if b then Some (as_bytes ''offered'') else None)
     else kv_get dec (kd_offered s) offers_collection key)"
  using kv_get_clocked [OF offers_ok_clocked [OF assms(1)] _ assms(3)] assms(2,4)
  by (simp add: offers_wf_clocked k offer_op_write)

lemma insert_offered_op:
  "kd_insert_offered enc sha r s =
     s\<lparr>kd_offered_clock := kd_offered_clock s + 1,
       kd_offered := snd (append_op enc sha (kd_offered s)
         (offer_op (record_key_display r) (kd_offered_clock s + 1) True))\<rparr>"
  by (simp add: kd_insert_offered_def kd_next_offered_hlc_def kv_put_def offer_op_def Let_def)

lemma remove_offered_op:
  "kd_remove_offered enc sha r s =
     s\<lparr>kd_offered_clock := kd_offered_clock s + 1,
       kd_offered := snd (append_op enc sha (kd_offered s)
         (offer_op (record_key_display r) (kd_offered_clock s + 1) False))\<rparr>"
  by (simp add: kd_remove_offered_def kd_next_offered_hlc_def kv_delete_def offer_op_def Let_def)

text \<open>On plain records the store is the set of the offered ones.\<close>

lemma offers_as_set:
  assumes "offers_ok enc dec sha R N" "offers_wf enc dec sha R s"
    and "unat (kd_offered_clock s) < N" "r \<in> R" "q \<in> R"
  shows "kd_offer_present dec (kd_insert_offered enc sha r s) q \<longleftrightarrow> q = r \<or> kd_offer_present dec s q"
    and "kd_offer_present dec (kd_remove_offered enc sha r s) q \<longleftrightarrow> q \<noteq> r \<and> kd_offer_present dec s q"
    and "offers_wf enc dec sha R (kd_insert_offered enc sha r s)"
    and "offers_wf enc dec sha R (kd_remove_offered enc sha r s)"
proof -
  have "record_key_display q = record_key_display r \<longleftrightarrow> q = r"
    using assms by (auto simp: offers_ok_def intro: record_key_display_inject)
  then show "kd_offer_present dec (kd_insert_offered enc sha r s) q \<longleftrightarrow> q = r \<or> kd_offer_present dec s q"
    "kd_offer_present dec (kd_remove_offered enc sha r s) q \<longleftrightarrow> q \<noteq> r \<and> kd_offer_present dec s q"
    using kv_get_append_offer [OF assms(1-4) refl]
    by (simp_all add: kd_offer_present_def insert_offered_op remove_offered_op)
  show "offers_wf enc dec sha R (kd_insert_offered enc sha r s)"
    "offers_wf enc dec sha R (kd_remove_offered enc sha r s)"
    using offer_append [OF assms(1-4) refl] by (simp_all add: insert_offered_op remove_offered_op)
qed

section \<open>Seal targets\<close>

lemma bset_elems_desired_seal:
  "bset_elems (desired_seal allow foreign confirmed) =
     (if confirmed then bset_elems allow else bset_elems allow - bset_elems foreign)"
proof -
  have "is_cross_owner allow foreign \<longleftrightarrow> bset_elems allow \<inter> bset_elems foreign \<noteq> {}"
    by (auto simp: is_cross_owner_def list_ex_iff bset_elems_def btree_keys_iff)
  then show ?thesis by (auto simp: desired_seal_def bset_elems_def btree_keys_iff)
qed

lemma reseal_fields [simp]:
  "kd_cells (fold (kd_reseal_one allow) rs s) = kd_cells s"
  "kd_artifacts (fold (kd_reseal_one allow) rs s) = kd_artifacts s"
  "kd_foreign_nodes (fold (kd_reseal_one allow) rs s) = kd_foreign_nodes s"
  "kd_offered (fold (kd_reseal_one allow) rs s) = kd_offered s"
  "kd_offered_clock (fold (kd_reseal_one allow) rs s) = kd_offered_clock s"
  "kd_accepted (fold (kd_reseal_one allow) rs s) = kd_accepted s"
  "kd_admitted (fold (kd_reseal_one allow) rs s) = kd_admitted s"
  "kd_cross_confirmed (fold (kd_reseal_one allow) rs s) = kd_cross_confirmed s"
  by (induction rs arbitrary: s) (simp_all add: kd_reseal_one_def)

lemma get_resealed:
  "btree_get (kd_sealed_to (fold (kd_reseal_one allow) rs s)) r =
     (if r \<in> set rs
      then Some (desired_seal allow (kd_foreign_nodes s) (bset_contains (kd_cross_confirmed s) r))
      else btree_get (kd_sealed_to s) r)"
  by (induction rs arbitrary: s) (simp_all add: kd_reseal_one_def)

section \<open>The invariant\<close>

definition cell_allow :: "kd_ledger \<Rightarrow> string \<Rightarrow> node_id btree_set" where
  "cell_allow s cell = (case btree_get (kd_cells s) cell of Some p \<Rightarrow> cp_node_allow p | None \<Rightarrow> btree_new)"

definition seal_matches :: "kd_ledger \<Rightarrow> record_key \<Rightarrow> bool" where
  "seal_matches s r \<longleftrightarrow>
     kd_seal_of s r =
       (if kd_is_admitted s r
        then desired_seal (cell_allow s (rk_cell r)) (kd_foreign_nodes s) (bset_contains (kd_cross_confirmed s) r)
        else btree_new)"

definition kd_inv :: "decoder \<Rightarrow> node_id btree_set \<Rightarrow> record_key set \<Rightarrow> kd_ledger \<Rightarrow> bool" where
  "kd_inv dec foreign R s \<longleftrightarrow>
     kd_foreign_nodes s = foreign
     \<and> (\<forall>r. seal_matches s r)
     \<and> (\<forall>r. kd_is_admitted s r \<longrightarrow> r \<in> R \<and> kd_offer_present dec s r \<and> kd_is_accepted s r)
     \<and> (\<forall>r\<in>R. kd_offer_present dec s r \<longrightarrow> btree_contains_key (kd_cells s) (rk_cell r))"

lemmas kd_inv_simps = kd_inv_def seal_matches_def kd_seal_of_def kd_is_admitted_def kd_is_accepted_def
  kd_offer_present_def cell_allow_def

lemma kd_inv_new: "kd_inv dec foreign R (kd_new foreign)"
  by (simp add: kd_inv_simps kd_new_def kv_get_new)

lemma kd_inv_cell_mut:
  assumes "kd_inv dec foreign R s" "\<And>p. cp_node_allow (f p) = cp_node_allow p"
  shows "kd_inv dec foreign R (kd_cell_mut cell f s)"
proof -
  have "cell_allow (kd_cell_mut cell f s) c = cell_allow s c" for c
    using assms(2) by (simp add: cell_allow_def kd_cell_mut_def cell_policy_new_def Let_def split: option.split)
  then show ?thesis
    using assms(1) by (simp add: kd_inv_def seal_matches_def kd_seal_of_def kd_is_admitted_def
        kd_is_accepted_def kd_offer_present_def) (auto simp: kd_cell_mut_def Let_def)
qed

lemma kd_inv_edit_allowlist:
  assumes "kd_inv dec foreign R s"
  shows "kd_inv dec foreign R (snd (kd_edit_allowlist f cell s))"
proof (cases "btree_get (kd_cells s) cell")
  case (Some p)
  have allow: "cell_allow (snd (kd_edit_allowlist f cell s)) c =
      (if c = cell then f (cp_node_allow p) else cell_allow s c)" for c
    using Some by (simp add: cell_allow_def kd_edit_allowlist_def kd_reseal_admitted_records_of_def Let_def)
  have sealed: "btree_get (kd_sealed_to (snd (kd_edit_allowlist f cell s))) r =
      (if kd_is_admitted s r \<and> rk_cell r = cell
       then Some (desired_seal (f (cp_node_allow p)) (kd_foreign_nodes s) (bset_contains (kd_cross_confirmed s) r))
       else btree_get (kd_sealed_to s) r)" for r
    using Some by (simp add: kd_edit_allowlist_def kd_reseal_admitted_records_of_def get_resealed Let_def
        kd_is_admitted_def btree_keys_iff)
  have same: "kd_foreign_nodes (snd (kd_edit_allowlist f cell s)) = kd_foreign_nodes s"
    "kd_admitted (snd (kd_edit_allowlist f cell s)) = kd_admitted s"
    "kd_accepted (snd (kd_edit_allowlist f cell s)) = kd_accepted s"
    "kd_cross_confirmed (snd (kd_edit_allowlist f cell s)) = kd_cross_confirmed s"
    "kd_offered (snd (kd_edit_allowlist f cell s)) = kd_offered s"
    "btree_contains_key (kd_cells (snd (kd_edit_allowlist f cell s))) c
       \<longleftrightarrow> c = cell \<or> btree_contains_key (kd_cells s) c" for c
    using Some by (simp_all add: kd_edit_allowlist_def kd_reseal_admitted_records_of_def Let_def)
  have "seal_matches (snd (kd_edit_allowlist f cell s)) r" for r
  proof -
    have "seal_matches s r" using assms by (simp add: kd_inv_def)
    then show ?thesis by (simp add: seal_matches_def kd_seal_of_def sealed allow same kd_is_admitted_def)
  qed
  then show ?thesis
    using assms by (simp add: kd_inv_def same kd_is_admitted_def kd_is_accepted_def kd_offer_present_def)
qed (use assms in \<open>simp add: kd_edit_allowlist_def\<close>)

lemma kd_inv_offer:
  assumes "kd_inv dec foreign R s" "offers_ok enc dec sha R N" "offers_wf enc dec sha R s"
    and "unat (kd_offered_clock s) < N" "RecordKey u cell a \<in> R"
  shows "kd_inv dec foreign R (snd (kd_offer enc dec sha u cell a s))"
proof (cases "fst (kd_offer enc dec sha u cell a s) = KdOk ()")
  case True
  let ?r = "RecordKey u cell a" and ?s' = "kd_insert_offered enc sha (RecordKey u cell a) s"
  have s': "snd (kd_offer enc dec sha u cell a s) = ?s'" and cell: "btree_contains_key (kd_cells s) cell"
    using True by (auto simp: kd_offer_def Let_def btree_contains_key_Some split: option.splits if_splits)
  have same: "kd_cells ?s' = kd_cells s" "kd_foreign_nodes ?s' = kd_foreign_nodes s"
    "kd_admitted ?s' = kd_admitted s" "kd_accepted ?s' = kd_accepted s"
    "kd_cross_confirmed ?s' = kd_cross_confirmed s" "kd_sealed_to ?s' = kd_sealed_to s"
    by (simp_all add: insert_offered_op)
  have present: "kd_offer_present dec ?s' q \<longleftrightarrow> q = ?r \<or> kd_offer_present dec s q" if "q \<in> R" for q
    by (rule offers_as_set(1) [OF assms(2-5) that])
  show ?thesis
    using assms(1,5) cell present unfolding s'
    by (auto simp: kd_inv_def seal_matches_def kd_seal_of_def kd_is_admitted_def kd_is_accepted_def
        cell_allow_def same)
qed (use assms in \<open>auto simp: kd_offer_def Let_def split: option.splits if_splits\<close>)

lemma kd_inv_accept:
  assumes "kd_inv dec foreign R s"
  shows "kd_inv dec foreign R (snd (kd_accept dec r s))"
  using assms by (auto simp: kd_accept_def kd_inv_simps)

lemma kd_inv_confirm:
  assumes "kd_inv dec foreign R s" "r \<in> R"
  shows "kd_inv dec foreign R (snd (kd_confirm_cross_owner dec r s))
    \<and> fst (kd_confirm_cross_owner dec r s) \<noteq> KdPanic"
proof (cases "kd_offer_present dec s r \<and> kd_cross_owner s r \<and> \<not> bset_contains (kd_cross_confirmed s) r")
  case True
  then obtain p where p: "btree_get (kd_cells s) (rk_cell r) = Some p"
    using assms by (auto simp: kd_inv_def btree_contains_key_Some)
  let ?c = "s\<lparr>kd_cross_confirmed := bset_insert r (kd_cross_confirmed s)\<rparr>"
  let ?s' = "if bset_contains (kd_admitted s) r
      then ?c\<lparr>kd_sealed_to := btree_insert r (cp_node_allow p) (kd_sealed_to s)\<rparr> else ?c"
  have out: "kd_confirm_cross_owner dec r s = (KdOk (), ?s')"
    using True p by (simp add: kd_confirm_cross_owner_def Let_def)
  have "seal_matches s q" for q using assms(1) by (simp add: kd_inv_def)
  then have "seal_matches ?s' q" for q
    using p by (cases "q = r")
      (simp_all add: seal_matches_def kd_seal_of_def kd_is_admitted_def cell_allow_def desired_seal_def)
  then have "kd_inv dec foreign R ?s'"
    using assms(1) by (simp add: kd_inv_def kd_is_admitted_def kd_is_accepted_def kd_offer_present_def)
  then show ?thesis unfolding out by simp
qed (use assms in \<open>auto simp: kd_confirm_cross_owner_def\<close>)

lemma kd_inv_admit:
  assumes "kd_inv dec foreign R s" "r \<in> R"
  shows "kd_inv dec foreign R (snd (kd_admit dec r s)) \<and> fst (kd_admit dec r s) \<noteq> KdPanic"
proof (cases "fst (kd_admit dec r s) = KdOk () \<or> fst (kd_admit dec r s) = KdPanic")
  case True
  then have r: "kd_offer_present dec s r" "bset_contains (kd_accepted s) r"
    by (auto simp: kd_admit_def Let_def split: option.splits if_splits)
  then obtain p where p: "btree_get (kd_cells s) (rk_cell r) = Some p"
    using assms by (auto simp: kd_inv_def btree_contains_key_Some)
  let ?s' = "s\<lparr>kd_admitted := bset_insert r (kd_admitted s), kd_sealed_to := btree_insert r
      (desired_seal (cp_node_allow p) (kd_foreign_nodes s) (bset_contains (kd_cross_confirmed s) r))
      (kd_sealed_to s)\<rparr>"
  have out: "kd_admit dec r s = (KdOk (), ?s')"
    using True p by (auto simp: kd_admit_def Let_def split: option.splits if_splits)
  have "seal_matches s q" for q using assms(1) by (simp add: kd_inv_def)
  then have "seal_matches ?s' q" for q
    using p by (simp add: seal_matches_def kd_seal_of_def kd_is_admitted_def cell_allow_def)
  then have "kd_inv dec foreign R ?s'"
    using assms r by (auto simp: kd_inv_def kd_is_admitted_def kd_is_accepted_def kd_offer_present_def)
  then show ?thesis by (simp add: out)
qed (use assms in \<open>auto simp: kd_admit_def Let_def split: option.splits if_splits\<close>)

lemma kd_inv_revoke:
  assumes "kd_inv dec foreign R s" "offers_ok enc dec sha R N" "offers_wf enc dec sha R s"
    and "unat (kd_offered_clock s) < N" "r \<in> R"
  shows "kd_inv dec foreign R (snd (kd_revoke_offer enc dec sha r s))"
proof (cases "kd_offer_present dec s r")
  case True
  let ?t = "kd_remove_offered enc sha r s"
  let ?s' = "?t\<lparr>kd_admitted := btree_remove r (kd_admitted s), kd_sealed_to := btree_insert r btree_new (kd_sealed_to s)\<rparr>"
  have s': "snd (kd_revoke_offer enc dec sha r s) = ?s'"
    using True by (simp add: kd_revoke_offer_def Let_def remove_offered_op)
  have same: "kd_cells ?t = kd_cells s" "kd_foreign_nodes ?t = kd_foreign_nodes s"
    "kd_accepted ?t = kd_accepted s" "kd_cross_confirmed ?t = kd_cross_confirmed s"
    by (simp_all add: remove_offered_op)
  have present: "kd_offer_present dec ?s' q \<longleftrightarrow> q \<noteq> r \<and> kd_offer_present dec s q" if "q \<in> R" for q
    using offers_as_set(2) [OF assms(2-5) that] by (simp add: kd_offer_present_def)
  have admitted: "kd_is_admitted ?s' q \<longleftrightarrow> q \<noteq> r \<and> kd_is_admitted s q" for q
    by (simp add: kd_is_admitted_def btree_contains_key_def)
  have "seal_matches s q" for q using assms(1) by (simp add: kd_inv_def)
  then have "seal_matches ?s' q" for q
    by (simp add: seal_matches_def admitted kd_seal_of_def cell_allow_def same)
  then show ?thesis
    using assms(1) present admitted unfolding s' by (auto simp: kd_inv_def kd_is_accepted_def same)
qed (use assms in \<open>simp add: kd_revoke_offer_def\<close>)

lemma offers_wf_cong:
  "kd_offered t = kd_offered s \<Longrightarrow> kd_offered_clock t = kd_offered_clock s \<Longrightarrow>
     offers_wf enc dec sha R t \<longleftrightarrow> offers_wf enc dec sha R s"
  by (simp add: offers_wf_def)

lemma kd_exec_inv:
  assumes "offers_ok enc dec sha R N" "kd_inv dec foreign R s" "offers_wf enc dec sha R s"
    and "call_records call \<subseteq> R" "unat (kd_offered_clock s) < N"
  shows "kd_inv dec foreign R (snd (kd_exec enc dec sha call s))"
    and "offers_wf enc dec sha R (snd (kd_exec enc dec sha call s))"
proof -
  show "kd_inv dec foreign R (snd (kd_exec enc dec sha call s))"
  proof (cases call)
    case (CallRegister a)
    then show ?thesis using assms(2) by (simp add: kd_inv_simps kd_register_artifact_def)
  qed (use assms in \<open>auto simp: kd_add_node_to_allowlist_def kd_remove_node_from_allowlist_def
      policy_add_user_def policy_remove_user_def
      intro: kd_inv_cell_mut kd_inv_edit_allowlist kd_inv_offer kd_inv_accept kd_inv_revoke
      dest: kd_inv_confirm kd_inv_admit\<close>)
  show "offers_wf enc dec sha R (snd (kd_exec enc dec sha call s))"
  proof (cases call)
    case (CallOffer u cell a)
    then have "RecordKey u cell a \<in> R" using assms(4) by simp
    from offers_as_set(3) [OF assms(1,3,5) this this] show ?thesis
      using CallOffer assms(3) by (simp add: kd_offer_def Let_def split: option.split)
  next
    case (CallRevoke r)
    then have "r \<in> R" using assms(4) by simp
    from offers_as_set(4) [OF assms(1,3,5) this this] show ?thesis
      using CallRevoke assms(3) by (simp add: kd_revoke_offer_def Let_def offers_wf_def)
  qed (use assms(3) in \<open>auto simp: offers_wf_def kd_cell_mut_def kd_register_artifact_def Let_def
      kd_add_node_to_allowlist_def kd_remove_node_from_allowlist_def kd_edit_allowlist_def
      kd_reseal_admitted_records_of_def kd_accept_def kd_confirm_cross_owner_def kd_admit_def
      split: option.split\<close>)
qed

lemma kd_reachable_inv:
  assumes "kd_reachable enc dec sha foreign R N s" "offers_ok enc dec sha R N"
  shows "kd_inv dec foreign R s \<and> offers_wf enc dec sha R s"
  using assms
proof (induction rule: kd_reachable.induct)
  case kd_init
  have "offers_wf enc dec sha R (kd_new foreign)"
    by (simp add: offers_wf_clocked kd_new_def clocked_wf_new)
  then show ?case by (simp add: kd_inv_new)
next
  case (kd_step s call)
  then show ?case using kd_exec_inv by blast
qed

section \<open>Properties of the ledger\<close>

text \<open>
  \<^bold>\<open>C24.\<close> Seals follow the policy, in every state the ledger reaches by calls on records with
  plain names: an admitted record is sealed to the allow-list of its cell, without its foreign
  nodes unless the record is confirmed, and any other record to nobody; an unconfirmed record is
  never sealed to a foreign node; and an admitted record was offered and accepted, and is still
  offered.
\<close>

theorem seals_follow_policy:
  assumes "kd_reachable enc dec sha foreign R N s" "offers_ok enc dec sha R N"
    and "confirmed = bset_contains (kd_cross_confirmed s) r"
  shows "bset_elems (kd_seal_of s r) =
      (if kd_is_admitted s r
       then bset_elems (cell_allow s (rk_cell r)) - (if confirmed then {} else bset_elems foreign)
       else {})
    \<and> (\<not> confirmed \<longrightarrow> bset_elems (kd_seal_of s r) \<inter> bset_elems foreign = {})
    \<and> (kd_is_admitted s r \<longrightarrow> r \<in> R \<and> kd_is_offered dec s r \<and> kd_is_accepted s r)"
proof -
  have inv: "kd_inv dec foreign R s" using kd_reachable_inv [OF assms(1,2)] by simp
  then have "seal_matches s r" "kd_foreign_nodes s = foreign" by (simp_all add: kd_inv_def)
  then have "bset_elems (kd_seal_of s r) =
      (if kd_is_admitted s r
       then bset_elems (cell_allow s (rk_cell r)) - (if confirmed then {} else bset_elems foreign) else {})"
    using assms(3) by (simp add: seal_matches_def bset_elems_desired_seal)
  then show ?thesis using inv by (auto simp: kd_inv_def kd_is_offered_def)
qed

lemma kd_error_keeps_state:
  assumes "fst (kd_exec enc dec sha call s) = KdErr e"
  shows "snd (kd_exec enc dec sha call s) = s"
  using assms
  by (cases call) (auto simp: kd_add_node_to_allowlist_def kd_remove_node_from_allowlist_def
      kd_edit_allowlist_def kd_offer_def kd_accept_def kd_confirm_cross_owner_def kd_admit_def
      kd_revoke_offer_def Let_def split: option.splits if_splits)

lemma kd_never_panics:
  assumes "kd_inv dec foreign R s" "call_records call \<subseteq> R"
  shows "fst (kd_exec enc dec sha call s) \<noteq> KdPanic"
  using assms kd_inv_confirm [OF assms(1)] kd_inv_admit [OF assms(1)]
  by (cases call) (auto simp: kd_add_node_to_allowlist_def kd_remove_node_from_allowlist_def
      kd_edit_allowlist_def kd_offer_def kd_accept_def kd_revoke_offer_def Let_def split: option.splits if_splits)

lemma kd_admit_Ok_iff:
  assumes "kd_inv dec foreign R s" "r \<in> R"
  shows "fst (kd_admit dec r s) = KdOk () \<longleftrightarrow>
    (\<exists>a. btree_get (kd_artifacts s) (rk_artifact r) = Some a \<and> ar_kind a = Operational)
    \<and> kd_is_offered dec s r \<and> kd_is_accepted s r \<and> \<not> kd_is_admitted s r
    \<and> (bset_elems (cell_allow s (rk_cell r)) \<inter> bset_elems foreign = {} \<or> bset_contains (kd_cross_confirmed s) r)"
proof -
  have kind: "artifact_is_root a \<longleftrightarrow> ar_kind a \<noteq> Operational" for a
    by (cases "ar_kind a") (simp_all add: artifact_is_root_def)
  have cross: "kd_cross_owner s r \<longleftrightarrow> bset_elems (cell_allow s (rk_cell r)) \<inter> bset_elems foreign \<noteq> {}"
    using assms(1) by (auto simp: kd_cross_owner_def cell_allow_def is_cross_owner_def list_ex_iff kd_inv_def
        bset_elems_def btree_keys_iff split: option.split)
  have "fst (kd_admit dec r s) \<noteq> KdPanic" using kd_inv_admit [OF assms] by simp
  then show ?thesis
    by (auto simp: kd_admit_def kind cross kd_is_offered_def kd_is_accepted_def kd_is_admitted_def Let_def
        split: option.splits if_splits)
qed

lemma kd_admit_result:
  assumes "fst (kd_admit dec r s) = KdOk ()" "s' = snd (kd_admit dec r s)"
  shows "kd_is_admitted s' p \<longleftrightarrow> p = r \<or> kd_is_admitted s p"
    and "p \<noteq> r \<Longrightarrow> kd_seal_of s' p = kd_seal_of s p"
  using assms
  by (auto simp: kd_admit_def Let_def kd_is_admitted_def kd_seal_of_def split: option.splits if_splits)

lemma kd_revoke_result:
  assumes "offers_ok enc dec sha R N" "offers_wf enc dec sha R s" "unat (kd_offered_clock s) < N" "r \<in> R" "p \<in> R"
    and "kd_is_offered dec s r" "s' = snd (kd_revoke_offer enc dec sha r s)"
  shows "kd_is_offered dec s' p \<longleftrightarrow> p \<noteq> r \<and> kd_is_offered dec s p"
    and "kd_is_admitted s' p \<longleftrightarrow> p \<noteq> r \<and> kd_is_admitted s p"
    and "kd_seal_of s' p = (if p = r then btree_new else kd_seal_of s p)"
proof -
  have s': "s' = (kd_remove_offered enc sha r s)\<lparr>kd_admitted := btree_remove r (kd_admitted s),
      kd_sealed_to := btree_insert r btree_new (kd_sealed_to s)\<rparr>"
    using assms(6,7) by (simp add: kd_is_offered_def kd_revoke_offer_def Let_def remove_offered_op)
  show "kd_is_offered dec s' p \<longleftrightarrow> p \<noteq> r \<and> kd_is_offered dec s p"
    using offers_as_set(2) [OF assms(1-5)] by (simp add: kd_is_offered_def s' kd_offer_present_def)
  show "kd_is_admitted s' p \<longleftrightarrow> p \<noteq> r \<and> kd_is_admitted s p"
    "kd_seal_of s' p = (if p = r then btree_new else kd_seal_of s p)"
    by (auto simp: s' kd_is_admitted_def btree_contains_key_def kd_seal_of_def)
qed

text \<open>
  \<^bold>\<open>C25.\<close> The gate of admission, in every state the ledger reaches by calls on records whose
  user and cell are named without a slash, the policy of a cell being edited through its own
  methods. Any further such call does not panic, and one that is refused changes nothing. A
  record is admitted exactly when its artifact is registered as operational, it was offered and
  accepted, it is not admitted yet, and either its cell reaches no foreign node or the crossing is
  confirmed; then it is the one record more that is admitted, and no other seal changes. Revoking
  succeeds exactly on an offered record, and leaves it neither offered nor admitted nor sealed to
  anyone, with every other record as it was.
\<close>

theorem admission_gate:
  assumes "kd_reachable enc dec sha foreign R N s" "offers_ok enc dec sha R N"
    and "call_records call \<subseteq> R" "unat (kd_offered_clock s) < N" "r \<in> R" "p \<in> R"
    and "admitted = snd (kd_exec enc dec sha (CallAdmit r) s)"
    and "revoked = snd (kd_exec enc dec sha (CallRevoke r) s)"
  shows "fst (kd_exec enc dec sha call s) \<noteq> KdPanic
    \<and> (fst (kd_exec enc dec sha call s) = KdErr e \<longrightarrow> snd (kd_exec enc dec sha call s) = s)
    \<and> (fst (kd_exec enc dec sha (CallAdmit r) s) = KdOk () \<longleftrightarrow>
        (\<exists>a. btree_get (kd_artifacts s) (rk_artifact r) = Some a \<and> ar_kind a = Operational)
        \<and> kd_is_offered dec s r \<and> kd_is_accepted s r \<and> \<not> kd_is_admitted s r
        \<and> (bset_elems (cell_allow s (rk_cell r)) \<inter> bset_elems foreign = {}
            \<or> bset_contains (kd_cross_confirmed s) r))
    \<and> (fst (kd_exec enc dec sha (CallAdmit r) s) = KdOk () \<longrightarrow>
        (kd_is_admitted admitted p \<longleftrightarrow> p = r \<or> kd_is_admitted s p)
        \<and> (p \<noteq> r \<longrightarrow> kd_seal_of admitted p = kd_seal_of s p))
    \<and> (fst (kd_exec enc dec sha (CallRevoke r) s) = KdOk () \<longleftrightarrow> kd_is_offered dec s r)
    \<and> (kd_is_offered dec s r \<longrightarrow>
        (kd_is_offered dec revoked p \<longleftrightarrow> p \<noteq> r \<and> kd_is_offered dec s p)
        \<and> (kd_is_admitted revoked p \<longleftrightarrow> p \<noteq> r \<and> kd_is_admitted s p)
        \<and> kd_seal_of revoked p = (if p = r then btree_new else kd_seal_of s p))"
proof -
  have inv: "kd_inv dec foreign R s" and wf: "offers_wf enc dec sha R s"
    using kd_reachable_inv [OF assms(1,2)] by simp_all
  have admit: "kd_exec enc dec sha (CallAdmit r) s = kd_admit dec r s"
    and revoke: "kd_exec enc dec sha (CallRevoke r) s = kd_revoke_offer enc dec sha r s" by simp_all
  have "fst (kd_revoke_offer enc dec sha r s) = KdOk () \<longleftrightarrow> kd_is_offered dec s r"
    by (simp add: kd_revoke_offer_def kd_is_offered_def Let_def)
  moreover note kd_never_panics [OF inv assms(3), of enc sha] kd_error_keeps_state [of enc dec sha call s e]
    kd_admit_Ok_iff [OF inv assms(5)]
  ultimately show ?thesis
    using kd_admit_result [OF _ assms(7) [unfolded admit], of p]
      kd_revoke_result [OF assms(2) wf assms(4,5,6) _ assms(8) [unfolded revoke]]
    unfolding admit revoke by blast
qed

definition kd_run :: "encoder \<Rightarrow> decoder \<Rightarrow> sha256 \<Rightarrow> kd_call list \<Rightarrow> kd_ledger \<Rightarrow> kd_ledger" where
  "kd_run enc dec sha calls s = fold (\<lambda>call s. snd (kd_exec enc dec sha call s)) calls s"

lemma clock_step:
  "unat (kd_offered_clock (snd (kd_exec enc dec sha call s))) \<le> unat (kd_offered_clock s) + 1"
proof -
  have "unat (t + 1) \<le> unat t + 1" for t :: u64 by (simp add: unat_word_ariths)
  then show ?thesis
    by (cases call) (auto simp: kd_cell_mut_def kd_register_artifact_def Let_def kd_add_node_to_allowlist_def
        kd_remove_node_from_allowlist_def kd_edit_allowlist_def kd_reseal_admitted_records_of_def
        kd_offer_def kd_accept_def kd_confirm_cross_owner_def kd_admit_def kd_revoke_offer_def
        insert_offered_op remove_offered_op split: option.split)
qed

lemma kd_run_reachable:
  assumes "kd_reachable enc dec sha foreign R N s" "\<And>call. call \<in> set calls \<Longrightarrow> call_records call \<subseteq> R"
    and "unat (kd_offered_clock s) + length calls \<le> N"
  shows "kd_reachable enc dec sha foreign R N (kd_run enc dec sha calls s)"
  using assms
proof (induction calls arbitrary: s)
  case (Cons call calls)
  have "kd_reachable enc dec sha foreign R N (snd (kd_exec enc dec sha call s))"
    using Cons.prems by (intro kd_step) auto
  moreover have "unat (kd_offered_clock (snd (kd_exec enc dec sha call s))) + length calls \<le> N"
    using Cons.prems(3) clock_step [of enc dec sha call s] by simp
  ultimately show ?case using Cons by (simp add: kd_run_def)
qed (simp add: kd_run_def)

definition demo_record :: record_key where
  "demo_record = RecordKey ''u'' ''c'' ''k''"

definition demo_other :: record_key where
  "demo_other = RecordKey ''u'' ''c'' ''l''"

text \<open>A serialization of offers for the witnesses: the clock's low byte, the kind, the key.\<close>

definition demo_offer_enc :: encoder where
  "demo_offer_enc k =
     ucast (hlc_physical (ko_hlc k)) # (case ko_kind k of Put _ \<Rightarrow> 1 | Tomb \<Rightarrow> 0) # as_bytes (ko_id k)"

definition demo_offer_dec :: decoder where
  "demo_offer_dec bs =
     (case bs of t # b # key \<Rightarrow> Some (offer_op (bytes_to_string key) (ucast t) (b = 1)) | _ \<Rightarrow> None)"

definition demo_kd_calls :: "kd_call list" where
  "demo_kd_calls =
     [CallRegister (artifact_new ''k'' Operational), CallAddUser ''c'' ''u'', CallAddNode ''c'' ''n'',
      CallOffer ''u'' ''c'' ''k'', CallAccept demo_record, CallAdmit demo_record, CallAddNode ''c'' ''f'']"

definition demo_kd :: kd_ledger where
  "demo_kd = kd_run demo_offer_enc demo_offer_dec demo_sha demo_kd_calls
     (kd_new (bset_collect [''f'']))"

lemma demo_offer_dec_enc:
  assumes "unat t < 256"
  shows "demo_offer_dec (demo_offer_enc (offer_op key t b)) = Some (offer_op key t b)"
proof -
  have "ucast (ucast t :: u8) = t"
    using assms by (simp add: word_unat_eq_iff unsigned_ucast_eq unsigned_take_bit_eq take_bit_nat_eq_self)
  then show ?thesis by (simp add: demo_offer_dec_def demo_offer_enc_def offer_op_def hlc_new_def)
qed

lemma demo_offers_ok: "offers_ok demo_offer_enc demo_offer_dec demo_sha {demo_record, demo_other} 8"
proof -
  have "inj_on demo_sha (demo_offer_enc ` offer_ops {demo_record, demo_other} 8)"
    by (rule inj_on_subset [OF demo_sha_inj])
      (auto simp: offer_ops_def demo_offer_enc_def offer_op_def record_key_display_def demo_record_def demo_other_def)
  moreover have "demo_offer_dec (demo_offer_enc k) = Some k"
    if "k \<in> offer_ops {demo_record, demo_other} 8" for k
    using that demo_offer_dec_enc by (auto simp: offer_ops_def)
  ultimately show ?thesis by (simp add: offers_ok_def record_plain_def demo_record_def demo_other_def)
qed

lemma demo_kd_reachable:
  "kd_reachable demo_offer_enc demo_offer_dec demo_sha (bset_collect [''f''])
     {demo_record, demo_other} 8 demo_kd"
  unfolding demo_kd_def
  by (rule kd_run_reachable [OF kd_init])
    (auto simp: demo_kd_calls_def demo_record_def kd_new_def)

theorem seals_follow_policy_witness: "bset_elems (kd_seal_of demo_kd demo_record) = {''n''}"
proof -
  have "kd_is_admitted demo_kd demo_record" by code_simp
  moreover have "\<not> bset_contains (kd_cross_confirmed demo_kd) demo_record" by code_simp
  moreover have "btree_keys (cell_allow demo_kd ''c'') = [''f'', ''n'']" by code_simp
  then have "bset_elems (cell_allow demo_kd (rk_cell demo_record)) = {''f'', ''n''}"
    by (simp add: bset_elems_def demo_record_def)
  ultimately show ?thesis
    using seals_follow_policy [OF demo_kd_reachable demo_offers_ok refl, of demo_record] by simp
qed

theorem admission_gate_witness:
  "\<not> kd_is_offered demo_offer_dec demo_kd demo_other
   \<and> fst (kd_exec demo_offer_enc demo_offer_dec demo_sha (CallAdmit demo_other) demo_kd) \<noteq> KdOk ()
   \<and> kd_seal_of (snd (kd_exec demo_offer_enc demo_offer_dec demo_sha (CallRevoke demo_record) demo_kd)) demo_record
       = btree_new"
proof -
  have "kd_is_offered demo_offer_dec demo_kd demo_record" "\<not> kd_is_offered demo_offer_dec demo_kd demo_other"
    by code_simp+
  moreover have "unat (kd_offered_clock demo_kd) < 8" by code_simp
  moreover note C = admission_gate [OF demo_kd_reachable demo_offers_ok]
  ultimately show ?thesis
    using C [of "CallRevoke demo_record" demo_record demo_record] C [of "CallAdmit demo_other" demo_other demo_record]
    by simp
qed

section \<open>Where the code and its documentation part\<close>

text \<open>
  Names with slashes share a key of the offers: the offer of one record lets another be accepted,
  and admitting that one panics on its cell, which was never registered.
\<close>

lemma aliased_record_panics:
  "let r = RecordKey ''a'' ''b/c'' ''k'';
       s = kd_run demo_offer_enc demo_offer_dec demo_sha
         [CallRegister (artifact_new ''k'' Operational), CallAddUser ''c'' ''a/b'',
          CallOffer ''a/b'' ''c'' ''k'', CallAccept r] (kd_new btree_new)
   in fst (kd_exec demo_offer_enc demo_offer_dec demo_sha (CallAdmit r) s) = KdPanic"
  by code_simp

text \<open>A policy replaced through \<open>cell_mut\<close> empties the allow-list and leaves the seals.\<close>

lemma replaced_policy_keeps_seals:
  "cell_allow (kd_cell_mut cell (\<lambda>_. cell_policy_new) s) cell = btree_new
   \<and> kd_seal_of (kd_cell_mut cell (\<lambda>_. cell_policy_new) s) r = kd_seal_of s r"
  by (simp add: cell_allow_def kd_cell_mut_def kd_seal_of_def cell_policy_new_def Let_def)

text \<open>An artifact registered again as the root stays admitted.\<close>

lemma reregistered_root_stays_admitted:
  "kd_is_admitted (kd_register_artifact (artifact_new (rk_artifact r) RootKey) s) r = kd_is_admitted s r
   \<and> btree_get (kd_artifacts (kd_register_artifact (artifact_new (rk_artifact r) RootKey) s)) (rk_artifact r)
       = Some (artifact_new (rk_artifact r) RootKey)"
  by (simp add: kd_is_admitted_def kd_register_artifact_def artifact_new_def)

end
