(* ===== verification/Prime_Field.thy ===== *)
theory Prime_Field
  imports Complex_Main Pillar_Prelude
begin

text \<open>
  Arithmetic of the prime field of the secret-sharing scheme of \<^verbatim>\<open>crates/pillar-recovery\<close>:
  square-and-multiply exponentiation, Fermat's theorem, a primality criterion after Pocklington
  that shows the Mersenne number \<open>2^61 - 1\<close> prime, and polynomials over the integers modulo a
  prime, given by coefficient lists, with the interpolation theorem the scheme rests on.
\<close>

section \<open>Exponentiation\<close>

text \<open>The loop of \<open>mod_pow\<close>: the values are those of unsigned variables, so never negative.\<close>

function mod_pow_loop :: "int \<Rightarrow> int \<Rightarrow> int \<Rightarrow> int \<Rightarrow> int" where
  "mod_pow_loop modulus base e result =
     (if e > 0 then
        mod_pow_loop modulus (base * base mod modulus) (e div 2)
          (if e mod 2 = 1 then result * base mod modulus else result)
      else result)"
  by pat_completeness auto
termination
  by (relation "measure (\<lambda>(m, b, e, r). nat e)") auto

declare mod_pow_loop.simps [simp del]

definition mod_pow :: "int \<Rightarrow> int \<Rightarrow> int \<Rightarrow> int" where
  "mod_pow base e modulus = mod_pow_loop modulus (base mod modulus) e 1"

lemma mult_power_mod: "a * (b mod m) ^ n mod m = a * b ^ n mod (m :: int)"
  by (metis mod_mult_right_eq power_mod)

lemma mod_pow_loop_correct:
  "mod_pow_loop m b e r mod m = r * b ^ nat e mod m"
proof (induction m b e r rule: mod_pow_loop.induct)
  case (1 m b e r)
  show ?case
  proof (cases "e > 0")
    case True
    define n where "n = nat (e div 2)"
    have e: "nat e = 2 * n + (if e mod 2 = 1 then 1 else 0)"
    proof -
      have "e = 2 * (e div 2) + (if e mod 2 = 1 then 1 else 0)" by presburger
      then have "nat e = nat (2 * (e div 2) + (if e mod 2 = 1 then 1 else 0))" by (rule arg_cong)
      then show ?thesis using True by (simp add: n_def nat_add_distrib nat_mult_distrib)
    qed
    have "mod_pow_loop m b e r mod m =
        (if e mod 2 = 1 then r * b mod m else r) * (b * b mod m) ^ n mod m"
      using 1 True by (simp add: mod_pow_loop.simps [of m b e r] n_def)
    also have "\<dots> = (if e mod 2 = 1 then r * b else r) * (b * b) ^ n mod m"
      by (simp add: mult_power_mod) (simp add: mod_simps)
    also have "\<dots> = r * b ^ nat e mod m"
      unfolding e by (simp add: power_add power_mult power_mult_distrib power2_eq_square mult_ac)
    finally show ?thesis .
  next
    case False
    then show ?thesis by (simp add: mod_pow_loop.simps [of m b e r])
  qed
qed

lemma mod_pow_loop_range:
  "0 < m \<Longrightarrow> 0 \<le> r \<Longrightarrow> r < m \<Longrightarrow> 0 \<le> mod_pow_loop m b e r \<and> mod_pow_loop m b e r < m"
  by (induction m b e r rule: mod_pow_loop.induct) (subst (1 2) mod_pow_loop.simps, simp)

lemma mod_pow_eq: "1 < m \<Longrightarrow> mod_pow b e m = b ^ nat e mod m"
proof -
  assume m: "1 < m"
  have "mod_pow b e m = mod_pow b e m mod m"
    using mod_pow_loop_range [of m 1 "b mod m" e] m by (simp add: mod_pow_def)
  also have "\<dots> = b ^ nat e mod m" by (simp add: mod_pow_def mod_pow_loop_correct power_mod)
  finally show ?thesis .
qed

section \<open>Primes\<close>

definition prime_number :: "int \<Rightarrow> bool" where
  "prime_number p \<longleftrightarrow> 1 < p \<and> (\<forall>m. 0 < m \<longrightarrow> m dvd p \<longrightarrow> m = 1 \<or> m = p)"

lemma prime_coprime:
  assumes "prime_number p" "\<not> p dvd a"
  shows "coprime p a"
proof -
  have "gcd p a = 1 \<or> gcd p a = p"
    using assms(1) by (auto simp: prime_number_def)
  moreover have "gcd p a \<noteq> p" using assms(2) by (metis gcd_dvd2)
  ultimately show ?thesis by (simp add: coprime_iff_gcd_eq_1)
qed

lemma prime_dvd_mult:
  "prime_number p \<Longrightarrow> p dvd a * b \<longleftrightarrow> p dvd a \<or> p dvd b"
  using prime_coprime coprime_dvd_mult_right_iff by (metis dvd_mult dvd_mult2)

lemma prime_dvd_power: "prime_number p \<Longrightarrow> p dvd a ^ n \<Longrightarrow> p dvd a"
  by (induction n) (auto simp: prime_dvd_mult prime_number_def)

lemma prime_dvd_prod:
  "finite A \<Longrightarrow> prime_number p \<Longrightarrow> p dvd prod f A \<longleftrightarrow> (\<exists>x\<in>A. p dvd f x)"
  by (induction A rule: finite_induct) (auto simp: prime_dvd_mult prime_number_def)

lemma prime_dvd_choose:
  assumes "prime_number (int p)" "0 < k" "k < p"
  shows "int p dvd int (p choose k)"
proof -
  have "k * (p choose k) = p * ((p - 1) choose (k - 1))" using assms(2) by (rule times_binomial_minus1_eq)
  then have "int k * int (p choose k) = int p * int ((p - 1) choose (k - 1))"
    by (metis of_nat_mult)
  then have "int p dvd int k * int (p choose k)" by simp
  moreover have "\<not> int p dvd int k" using assms(2,3) by (auto dest: nat_dvd_not_less)
  ultimately show ?thesis using prime_dvd_mult [OF assms(1)] by blast
qed

lemma binomial_prime_power:
  assumes "prime_number (int p)"
  shows "(a + 1) ^ p mod int p = (a ^ p + 1) mod int p"
proof -
  have p: "0 < p" using assms by (simp add: prime_number_def)
  let ?t = "\<lambda>k. int (p choose k) * a ^ k"
  have "(a + 1) ^ p = (\<Sum>k\<le>p. ?t k)" using binomial_ring [of a 1 p] by simp
  also have "{..p} = insert 0 (insert p {1..<p})" using p by auto
  also have "(\<Sum>k\<in>insert 0 (insert p {1..<p}). ?t k) = 1 + a ^ p + (\<Sum>k\<in>{1..<p}. ?t k)"
    using p by (simp add: add.assoc)
  finally have "(a + 1) ^ p = 1 + a ^ p + (\<Sum>k\<in>{1..<p}. ?t k)" .
  moreover have "int p dvd (\<Sum>k\<in>{1..<p}. ?t k)"
    by (rule dvd_sum) (use prime_dvd_choose [OF assms] in \<open>auto intro: dvd_mult2\<close>)
  ultimately have "int p dvd (a + 1) ^ p - (a ^ p + 1)" by simp
  then show ?thesis by (simp add: mod_eq_dvd_iff)
qed

lemma fermat_power:
  assumes "prime_number (int p)"
  shows "int a ^ p mod int p = int a mod int p"
proof (induction a)
  case 0
  then show ?case using assms by (cases p) (auto simp: prime_number_def)
next
  case (Suc a)
  have "(int a + 1) ^ p mod int p = (int a ^ p mod int p + 1) mod int p"
    using binomial_prime_power [OF assms, of "int a"] by (simp add: mod_simps)
  also have "\<dots> = (int a + 1) mod int p" using Suc.IH by (simp add: mod_simps)
  finally show ?case by (simp add: add.commute)
qed

lemma fermat_little:
  assumes "prime_number p" "\<not> p dvd a"
  shows "a ^ nat (p - 1) mod p = 1"
proof -
  have p: "1 < p" using assms(1) by (simp add: prime_number_def)
  define b where "b = a mod p"
  have b: "0 \<le> b" "b mod p = a mod p" using p by (auto simp: b_def)
  have "int (nat b) ^ nat p mod int (nat p) = int (nat b) mod int (nat p)"
    using fermat_power [of "nat p" "nat b"] assms(1) p by simp
  then have "b ^ nat p mod p = b mod p" using b p by simp
  moreover have "nat p = Suc (nat (p - 1))" using p by simp
  ultimately have "p dvd b * (b ^ nat (p - 1) - 1)"
    by (simp add: mod_eq_dvd_iff algebra_simps)
  moreover have "\<not> p dvd b" using assms(2) b by (metis dvd_mod_iff dvd_refl b_def)
  ultimately have "p dvd b ^ nat (p - 1) - 1" using prime_dvd_mult [OF assms(1)] by blast
  then have "b ^ nat (p - 1) mod p = 1 mod p" by (simp add: mod_eq_dvd_iff)
  moreover have "b ^ nat (p - 1) mod p = a ^ nat (p - 1) mod p" by (simp add: b_def power_mod)
  ultimately show ?thesis using p by simp
qed

text \<open>The power \<open>p - 2\<close> is the inverse that \<open>shamir_reconstruct\<close> divides with.\<close>

lemma fermat_inverse:
  assumes "prime_number p" "\<not> p dvd a"
  shows "a * mod_pow a (p - 2) p mod p = 1"
proof -
  have p: "1 < p" using assms(1) by (simp add: prime_number_def)
  then have "nat (p - 1) = Suc (nat (p - 2))" by simp
  then have "a * a ^ nat (p - 2) mod p = 1" using fermat_little [OF assms] by simp
  then show ?thesis using mod_pow_eq [OF p, of a "p - 2"] by (simp add: mod_simps)
qed

section \<open>A prime\<close>

lemma prime_divisor:
  assumes "1 < (n :: int)" "\<not> prime_number n"
  obtains r where "prime_number r" "r dvd n" "r * r \<le> n"
proof -
  let ?P = "\<lambda>m. 1 < m \<and> int m dvd n"
  define r where "r = (LEAST m. ?P m)"
  have "?P (nat n)" using assms(1) by simp
  then have "?P r" unfolding r_def by (rule LeastI)
  then have r: "1 < r" "int r dvd n" by blast+
  have least: "r \<le> m" if "?P m" for m unfolding r_def using that by (rule Least_le)
  have pr: "prime_number (int r)" unfolding prime_number_def
  proof (intro conjI allI impI)
    fix m :: int
    assume m: "0 < m" "m dvd int r"
    show "m = 1 \<or> m = int r"
    proof (cases "m = 1")
      case False
      then have "?P (nat m)" using m r(2) by (auto intro: dvd_trans)
      then have "int r \<le> m" using least [of "nat m"] m(1) by linarith
      then show ?thesis using m zdvd_imp_le [OF m(2)] r(1) by simp
    qed simp
  qed (use r(1) in simp)
  obtain m where m: "0 < m" "m dvd n" "m \<noteq> 1" "m \<noteq> n"
    using assms by (auto simp: prime_number_def)
  then obtain k where k: "n = m * k" by blast
  have "0 < m * k" using k assms(1) by simp
  then have "0 < k" using m(1) by (simp add: zero_less_mult_iff)
  moreover have "k \<noteq> 1" using k m(4) by auto
  ultimately have "?P (nat m)" "?P (nat k)" using m k by auto
  then have "int r \<le> m" "int r \<le> k" using least [of "nat m"] least [of "nat k"] m(1) \<open>0 < k\<close> by linarith+
  then have "int r * int r \<le> n" unfolding k by (intro mult_mono) auto
  with pr r(2) show ?thesis using that by blast
qed

text \<open>
  The step of the criterion: if \<open>c\<close> has \<open>q\<close>-th power one modulo a prime \<open>r\<close> without being one,
  then \<open>q\<close> divides \<open>r - 1\<close>.
\<close>

lemma order_dvd:
  assumes "prime_number r" "prime_number q" "c ^ nat q mod r = 1" "\<not> r dvd c - 1"
  shows "q dvd r - 1"
proof (rule ccontr)
  assume "\<not> q dvd r - 1"
  then have cop: "coprime (nat q) (nat (r - 1))"
    using prime_coprime [OF assms(2)] assms(1,2) by (auto simp: prime_number_def coprime_int_iff [symmetric])
  have q: "nat q \<noteq> 0" and r: "1 < r" using assms(1,2) by (auto simp: prime_number_def)
  obtain x y where xy: "nat q * x = nat (r - 1) * y + 1"
    using bezout_nat [OF q, of "nat (r - 1)"] cop by (auto simp: coprime_iff_gcd_eq_1)
  have "\<not> r dvd c"
  proof
    assume "r dvd c"
    then have "r dvd c ^ nat q" using q dvd_trans [OF \<open>r dvd c\<close> dvd_power] by blast
    then show False using assms(3) r by (simp add: dvd_eq_mod_eq_0)
  qed
  then have f: "c ^ nat (r - 1) mod r = 1" by (rule fermat_little [OF assms(1)])
  have "c ^ (nat q * x) mod r = (c ^ nat q mod r) ^ x mod r" by (simp add: power_mult power_mod)
  then have "c ^ (nat q * x) mod r = 1" using assms(3) r by simp
  moreover have "c ^ (nat (r - 1) * y + 1) mod r = ((c ^ nat (r - 1) mod r) ^ y * c) mod r"
    by (simp add: power_mult mult_power_mod mult.commute [of _ c])
  ultimately have "c mod r = 1 mod r" using f xy r by simp
  then show False using assms(4) by (simp add: mod_eq_dvd_iff)
qed

text \<open>Trial division up to the square root.\<close>

lemma trial_division:
  assumes "1 < q" "q < (k + 1) * (k + 1)" "0 \<le> k" "list_all (\<lambda>m. q mod m \<noteq> 0) [2..k]"
  shows "prime_number q"
proof (rule ccontr)
  assume "\<not> prime_number q"
  then obtain r where r: "prime_number r" "r dvd q" "r * r \<le> q" using prime_divisor assms(1) by blast
  have "r \<le> k"
  proof (rule ccontr)
    assume "\<not> r \<le> k"
    then have "(k + 1) * (k + 1) \<le> r * r" using assms(3) by (intro mult_mono) auto
    then show False using assms(2) r(3) by simp
  qed
  then have "r \<in> set [2..k]" using r(1) by (auto simp: prime_number_def)
  then show False using assms(4) r(2) by (auto simp: list_all_iff dvd_eq_mod_eq_0)
qed

lemma order_dvd_divisor:
  assumes "prime_number r" "r dvd n" "prime_number q" "c ^ nat q mod n = 1" "u * (c - 1) = v * n + 1"
  shows "q dvd r - 1"
proof (rule order_dvd [OF assms(1,3)])
  have r: "1 < r" using assms(1) by (simp add: prime_number_def)
  have "c ^ nat q mod r = c ^ nat q mod n mod r" using assms(2) by (simp add: mod_mod_cancel)
  then show "c ^ nat q mod r = 1" using assms(4) r by simp
  show "\<not> r dvd c - 1"
  proof
    assume "r dvd c - 1"
    then have "r dvd v * n + 1" using assms(5) by (metis dvd_mult)
    then have "r dvd 1" using assms(2) by (metis dvd_add_right_iff dvd_mult)
    then show False using r by (simp add: zdvd1_eq)
  qed
qed

definition field_prime :: int where
  "field_prime = 2305843009213693951"

text \<open>
  With \<open>F = 61 * 151 * 331 * 1321\<close> a factor of \<open>p - 1\<close> whose square exceeds \<open>p\<close>, the powers
  \<open>3 ^ ((p - 1) div q)\<close> and a B\'ezout certificate each for \<open>gcd (c - 1, p) = 1\<close>.
\<close>

lemma small_primes:
  "prime_number 61" "prime_number 151" "prime_number 331" "prime_number 1321"
  by (rule trial_division [of _ 7] trial_division [of _ 12] trial_division [of _ 18] trial_division [of _ 36];
      code_simp)+

lemma certificate_power_1: "mod_pow 3 37800705069076950 field_prime = 1125899906842624"
  by code_simp

lemma certificate_power_2: "mod_pow 3 15270483504726450 field_prime = 2211238755008147949"
  by code_simp

lemma certificate_power_3: "mod_pow 3 6966293079195450 field_prime = 1491285494954315879"
  by code_simp

lemma certificate_power_4: "mod_pow 3 1745528394559950 field_prime = 234060095121088422"
  by code_simp

lemma certificate_power_5: "mod_pow 1125899906842624 61 field_prime = 1"
  by code_simp

lemma field_prime_gt: "1 < field_prime"
  by (simp add: field_prime_def)

lemma same_order:
  assumes "1 < m" "q0 * e0 = q * e" "0 < q0" "0 < e0" "0 < q" "0 < e"
    "mod_pow a e0 m = c0" "mod_pow c0 q0 m = 1" "mod_pow a e m = c"
  shows "c ^ nat q mod m = 1"
proof -
  have c0: "c0 = a ^ nat e0 mod m" "c0 ^ nat q0 mod m = 1" "c = a ^ nat e mod m"
    using assms by (auto simp: mod_pow_eq)
  have "nat q0 * nat e0 = nat (q0 * e0)" using assms(3) by (simp add: nat_mult_distrib)
  also have "\<dots> = nat q * nat e" unfolding assms(2) using assms(5) by (simp add: nat_mult_distrib)
  finally have eq: "nat e0 * nat q0 = nat e * nat q" by (simp only: mult.commute)
  have "c ^ nat q mod m = a ^ (nat e * nat q) mod m" by (simp add: c0(3) power_mod power_mult)
  also have "\<dots> = c0 ^ nat q0 mod m" by (simp add: c0(1) power_mod power_mult eq [symmetric])
  finally show ?thesis using c0(2) by simp
qed

lemmas certificate_order = same_order [OF field_prime_gt _ _ _ _ _ certificate_power_1 certificate_power_5]

theorem field_prime_prime: "prime_number field_prime"
proof (rule ccontr)
  assume "\<not> prime_number field_prime"
  then obtain r where r: "prime_number r" "r dvd field_prime" "r * r \<le> field_prime"
    using prime_divisor [OF field_prime_gt] by blast
  have a: "61 dvd r - 1"
    by (rule order_dvd_divisor [OF r(1,2) small_primes(1) certificate_order [OF _ _ _ _ _ certificate_power_1],
          where u = 73219245529501761 and v = 35751584731202]) (simp_all add: field_prime_def)
  have b: "151 dvd r - 1"
    by (rule order_dvd_divisor [OF r(1,2) small_primes(2) certificate_order [OF _ _ _ _ _ certificate_power_2],
          where u = 1896004468068488480 and v = 1818215092141647489]) (simp_all add: field_prime_def)
  have c: "331 dvd r - 1"
    by (rule order_dvd_divisor [OF r(1,2) small_primes(3) certificate_order [OF _ _ _ _ _ certificate_power_3],
          where u = 1881382712785867029 and v = 1216769198433903011]) (simp_all add: field_prime_def)
  have d: "1321 dvd r - 1"
    by (rule order_dvd_divisor [OF r(1,2) small_primes(4) certificate_order [OF _ _ _ _ _ certificate_power_4],
          where u = 828993518632009434 and v = 84148964630484863]) (simp_all add: field_prime_def)
  have "61 * 151 dvd r - 1" using a b by (intro divides_mult) (auto intro: prime_coprime small_primes)
  then have "61 * 151 * 331 dvd r - 1"
    using c by (intro divides_mult) (auto simp: coprime_commute intro: prime_coprime small_primes)
  then have "61 * 151 * 331 * 1321 dvd r - 1"
    using d by (intro divides_mult) (auto simp: coprime_commute intro: prime_coprime small_primes)
  moreover have "0 < r - 1" using r(1) by (simp add: prime_number_def)
  ultimately have "4027518961 \<le> r - 1" using zdvd_imp_le [of 4027518961 "r - 1"] by simp
  then have "4027518962 * 4027518962 \<le> r * r" by (intro mult_mono) auto
  then show False using r(3) by (simp add: field_prime_def)
qed

section \<open>Polynomials modulo a prime\<close>

primrec poly_eval :: "int list \<Rightarrow> int \<Rightarrow> int" where
  "poly_eval [] x = 0"
| "poly_eval (c # cs) x = c + x * poly_eval cs x"

lemma poly_eval_append: "poly_eval (cs @ ds) x = poly_eval cs x + x ^ length cs * poly_eval ds x"
  by (induction cs) (simp_all add: algebra_simps)

lemma poly_eval_zeros [simp]: "poly_eval (replicate n 0) x = 0"
  by (induction n) simp_all

lemma poly_eval_mod: "poly_eval (map (\<lambda>c. c mod p) cs) x mod p = poly_eval cs x mod p"
proof (induction cs)
  case (Cons c cs)
  have "(c mod p + x * e) mod p = (c + x * (e mod p)) mod p" for e
    by (metis mod_add_left_eq mod_add_right_eq mod_mult_right_eq)
  moreover have "(c + x * (e mod p)) mod p = (c + x * e) mod p" for e
    by (metis mod_add_right_eq mod_mult_right_eq)
  ultimately show ?case using Cons.IH unfolding poly_eval.simps list.map by metis
qed simp

text \<open>Functions given by at most \<open>n\<close> coefficients.\<close>

definition poly_fun :: "nat \<Rightarrow> (int \<Rightarrow> int) \<Rightarrow> bool" where
  "poly_fun n f \<longleftrightarrow> (\<exists>cs. length cs = n \<and> (\<forall>x. f x = poly_eval cs x))"

lemma poly_fun_eval: "poly_fun (length cs) (poly_eval cs)"
  by (auto simp: poly_fun_def)

lemma poly_fun_zero: "poly_fun n (\<lambda>x. 0)"
  unfolding poly_fun_def by (rule exI [of _ "replicate n 0"]) simp

lemma poly_fun_one: "poly_fun (Suc 0) (\<lambda>x. 1)"
  unfolding poly_fun_def by (rule exI [of _ "[1]"]) simp

lemma poly_fun_add: "poly_fun n f \<Longrightarrow> poly_fun n g \<Longrightarrow> poly_fun n (\<lambda>x. f x + g x)"
proof -
  have "poly_eval (map2 (+) cs ds) x = poly_eval cs x + poly_eval ds x" if "length cs = length ds" for cs ds x
    using that by (induction cs ds rule: list_induct2) (simp_all add: algebra_simps)
  then show "poly_fun n f \<Longrightarrow> poly_fun n g \<Longrightarrow> poly_fun n (\<lambda>x. f x + g x)"
    unfolding poly_fun_def by (metis length_map length_zip min.idem)
qed

lemma poly_fun_smult: "poly_fun n f \<Longrightarrow> poly_fun n (\<lambda>x. a * f x)"
proof -
  have "poly_eval (map ((*) a) cs) x = a * poly_eval cs x" for cs x
    by (induction cs) (simp_all add: algebra_simps)
  then show "poly_fun n f \<Longrightarrow> poly_fun n (\<lambda>x. a * f x)"
    unfolding poly_fun_def by (metis length_map)
qed

lemma poly_fun_grow: "poly_fun n f \<Longrightarrow> n \<le> m \<Longrightarrow> poly_fun m f"
proof -
  assume "poly_fun n f" "n \<le> m"
  then obtain cs where cs: "length cs = n" "\<And>x. f x = poly_eval cs x" by (auto simp: poly_fun_def)
  show ?thesis unfolding poly_fun_def
    by (rule exI [of _ "cs @ replicate (m - n) 0"]) (simp add: cs poly_eval_append \<open>n \<le> m\<close>)
qed

lemma poly_fun_linear: "poly_fun n f \<Longrightarrow> poly_fun (Suc n) (\<lambda>x. (x - a) * f x)"
proof -
  assume f: "poly_fun n f"
  then obtain cs where cs: "length cs = n" "\<And>x. f x = poly_eval cs x" by (auto simp: poly_fun_def)
  then have "poly_fun (Suc n) (\<lambda>x. x * f x)"
    unfolding poly_fun_def by (intro exI [of _ "0 # cs"]) simp
  from poly_fun_add [OF this poly_fun_smult [OF poly_fun_grow [OF f], of "Suc n" "- a"]]
  show ?thesis by (simp add: algebra_simps)
qed

lemma poly_fun_prod:
  "finite A \<Longrightarrow> poly_fun (Suc (card A)) (\<lambda>x. \<Prod>j\<in>A. x - r j)"
  by (induction A rule: finite_induct) (simp_all add: poly_fun_one poly_fun_linear)

lemma poly_fun_sum: "finite A \<Longrightarrow> (\<And>i. i \<in> A \<Longrightarrow> poly_fun n (f i)) \<Longrightarrow> poly_fun n (\<lambda>x. \<Sum>i\<in>A. f i x)"
  by (induction A rule: finite_induct) (simp_all add: poly_fun_zero poly_fun_add)

lemma poly_division:
  "\<exists>ds. length ds = length cs - 1 \<and> (\<forall>x. poly_eval cs x = (x - a) * poly_eval ds x + poly_eval cs a)"
proof (induction cs)
  case (Cons c cs)
  then obtain ds where ds: "length ds = length cs - 1"
    "\<And>x. poly_eval cs x = (x - a) * poly_eval ds x + poly_eval cs a" by blast
  show ?case
  proof (cases cs)
    case Nil
    then show ?thesis by simp
  next
    case (Cons c' cs')
    have "poly_eval (c # cs) x = (x - a) * poly_eval (poly_eval cs a # ds) x + poly_eval (c # cs) a" for x
      by (simp only: poly_eval.simps ds(2) [of x]) (simp add: algebra_simps)
    moreover have "length (poly_eval cs a # ds) = length (c # cs) - 1" using ds(1) Cons by simp
    ultimately show ?thesis by blast
  qed
qed simp

text \<open>A polynomial with as many roots as coefficients vanishes everywhere.\<close>

lemma too_many_roots:
  assumes "prime_number p"
  shows "length cs \<le> length xs \<Longrightarrow> (\<forall>x\<in>set xs. p dvd poly_eval cs x) \<Longrightarrow>
    sorted_wrt (\<lambda>x y. \<not> p dvd y - x) xs \<Longrightarrow> p dvd poly_eval cs y"
proof (induction xs arbitrary: cs)
  case (Cons a xs)
  obtain ds where ds: "length ds = length cs - 1"
    "\<And>x. poly_eval cs x = (x - a) * poly_eval ds x + poly_eval cs a"
    using poly_division by blast
  have "p dvd poly_eval cs a" using Cons.prems(2) by simp
  have "p dvd poly_eval ds x" if "x \<in> set xs" for x
  proof -
    have "p dvd (x - a) * poly_eval ds x + poly_eval cs a" using Cons.prems(2) that ds(2) [of x] by auto
    then have "p dvd (x - a) * poly_eval ds x" using \<open>p dvd poly_eval cs a\<close> dvd_add_left_iff by blast
    moreover have "\<not> p dvd x - a" using Cons.prems(3) that by simp
    ultimately show ?thesis using prime_dvd_mult [OF assms] by blast
  qed
  then have "p dvd poly_eval ds y" using Cons.IH [of ds] Cons.prems ds(1) by simp
  then show ?case using ds(2) [of y] \<open>p dvd poly_eval cs a\<close> by simp
qed simp

section \<open>Interpolation\<close>

text \<open>
  The interpolant through \<open>k\<close> points, with \<open>d i\<close> the inverse of the \<open>i\<close>-th denominator.
\<close>

definition interpolant :: "nat \<Rightarrow> (nat \<Rightarrow> int) \<Rightarrow> (nat \<Rightarrow> int) \<Rightarrow> (nat \<Rightarrow> int) \<Rightarrow> int \<Rightarrow> int" where
  "interpolant k r v d x = (\<Sum>i<k. v i * d i * (\<Prod>j\<in>{..<k} - {i}. x - r j))"

lemma poly_fun_interpolant: "poly_fun k (interpolant k r v d)"
  unfolding interpolant_def
proof (rule poly_fun_sum)
  fix i assume "i \<in> {..<k}"
  then have "Suc (card ({..<k} - {i})) = k" by simp
  then have "poly_fun k (\<lambda>x. \<Prod>j\<in>{..<k} - {i}. x - r j)"
    using poly_fun_prod [of "{..<k} - {i}" r] by simp
  then show "poly_fun k (\<lambda>x. v i * d i * (\<Prod>j\<in>{..<k} - {i}. x - r j))" by (rule poly_fun_smult)
qed simp

lemma interpolant_at:
  assumes "m < k" "(\<Prod>j\<in>{..<k} - {m}. r m - r j) * d m mod p = 1" "1 < p"
  shows "interpolant k r v d (r m) mod p = v m mod p"
proof -
  have "interpolant k r v d (r m) = (\<Sum>i\<in>{m}. v i * d i * (\<Prod>j\<in>{..<k} - {i}. r m - r j))"
    unfolding interpolant_def
  proof (rule sum.mono_neutral_right)
    show "\<forall>i\<in>{..<k} - {m}. v i * d i * (\<Prod>j\<in>{..<k} - {i}. r m - r j) = 0"
      using assms(1) by (auto intro!: prod_zero bexI [of _ m])
  qed (use assms(1) in auto)
  also have "\<dots> = v m * ((\<Prod>j\<in>{..<k} - {m}. r m - r j) * d m)" by (simp add: mult_ac)
  finally have "interpolant k r v d (r m) mod p = v m * ((\<Prod>j\<in>{..<k} - {m}. r m - r j) * d m mod p) mod p"
    by (simp add: mod_simps)
  then show ?thesis using assms(2) by simp
qed

text \<open>
  Two polynomials of \<open>k\<close> coefficients that agree at \<open>k\<close> points agree everywhere, so the interpolant
  of the values of a polynomial is that polynomial.
\<close>

lemma poly_agree:
  assumes "prime_number p" "poly_fun k f" "poly_fun k g"
    and "\<And>i j. i < j \<Longrightarrow> j < k \<Longrightarrow> \<not> p dvd r j - r i" and "\<And>i. i < k \<Longrightarrow> f (r i) mod p = g (r i) mod p"
  shows "f x mod p = g x mod p"
proof -
  have "poly_fun k (\<lambda>x. f x + - 1 * g x)" by (intro poly_fun_add poly_fun_smult assms(2,3))
  then obtain cs where cs: "length cs = k" "\<And>x. f x + - 1 * g x = poly_eval cs x"
    by (auto simp: poly_fun_def)
  have "\<forall>y\<in>set (map r [0..<k]). p dvd poly_eval cs y"
    using assms(5) by (auto simp: cs(2) [symmetric] mod_eq_dvd_iff)
  moreover have "sorted_wrt (\<lambda>x y. \<not> p dvd y - x) (map r [0..<k])"
    using assms(4) by (auto simp: sorted_wrt_iff_nth_less)
  ultimately have "p dvd poly_eval cs x"
    by (intro too_many_roots [OF assms(1), of cs "map r [0..<k]"]) (simp_all only: cs(1) length_map length_upt diff_zero order_refl)
  then show ?thesis using cs(2) [of x] by (simp add: mod_eq_dvd_iff)
qed

end
