(* ===== verification/Recovery.thy ===== *)
theory Recovery
  imports Prime_Field Rbac StreamDb "HOL-Library.Monad_Syntax"
begin

text \<open>
  \<^verbatim>\<open>crates/pillar-recovery/src/lib.rs\<close>: the backup blob sealed to a recovery key and its
  storage in the content-addressed blob store of \<^verbatim>\<open>crates/pillar-net/src/blob.rs\<close>, the
  threshold split of the recovery key over the field of \<open>Prime_Field\<close>, and the ledger that
  regrants surviving authority on social re-vouch or after the loss of all devices.

  The hash functions are arguments: \<open>sha3\<close> of the blob, whose outputs have 32 bytes
  (\<open>sha3_ok\<close>), and \<open>sha\<close> of the content address. The field elements, unsigned 128-bit variables
  in the code, are integers: all of them are below \<open>2^61\<close>, so that no product reaches \<open>2^123\<close>.
\<close>

unbundle bit_operations_syntax

section \<open>Errors\<close>

datatype recovery_tier = CellTier | UserTier

datatype recovery_error =
    WrongRecoveryKey
  | NotSealedToRequester
  | ArtifactNotFound
  | SubThresholdShares nat nat
  | InsufficientVouchers nat nat
  | VoucherNotAuthoritative node_id
  | NothingToRecover

type_synonym recovery_key = u64

section \<open>The backup blob\<close>

definition sha3_ok :: "(bytes \<Rightarrow> bytes) \<Rightarrow> bool" where
  "sha3_ok sha3 \<longleftrightarrow> (\<forall>bs. length (sha3 bs) = 32)"

text \<open>The loop that fills the keystream; \<open>None\<close> would be a loop that never ends.\<close>

partial_function (option) keystream_loop ::
  "(bytes \<Rightarrow> bytes) \<Rightarrow> bytes \<Rightarrow> nat \<Rightarrow> u64 \<Rightarrow> bytes \<Rightarrow> bytes option" where
  "keystream_loop sha3 key len counter out =
     (if length out < len
      then keystream_loop sha3 key len (counter + 1) (out @ sha3 (key @ u64_to_le_bytes counter))
      else Some (take len out))"

definition keystream :: "(bytes \<Rightarrow> bytes) \<Rightarrow> bytes \<Rightarrow> nat \<Rightarrow> bytes option" where
  "keystream sha3 key len = keystream_loop sha3 key len 0 []"

definition xor_bytes :: "bytes \<Rightarrow> bytes \<Rightarrow> bytes" where
  "xor_bytes bs stream = map2 (XOR) bs stream"

record backup_blob =
  bb_ciphertext :: bytes
  bb_tag :: bytes

definition blob_seal :: "(bytes \<Rightarrow> bytes) \<Rightarrow> bytes \<Rightarrow> recovery_key \<Rightarrow> backup_blob option" where
  "blob_seal sha3 payload key =
     do { stream \<leftarrow> keystream sha3 (u64_to_le_bytes key) (length payload);
          Some \<lparr>bb_ciphertext = xor_bytes payload stream, bb_tag = sha3 payload\<rparr> }"

definition blob_decrypt ::
  "(bytes \<Rightarrow> bytes) \<Rightarrow> backup_blob \<Rightarrow> recovery_key \<Rightarrow> (recovery_error + bytes) option" where
  "blob_decrypt sha3 b key =
     do { stream \<leftarrow> keystream sha3 (u64_to_le_bytes key) (length (bb_ciphertext b));
          let candidate = xor_bytes (bb_ciphertext b) stream in
          Some (if sha3 candidate = bb_tag b then Inr candidate else Inl WrongRecoveryKey) }"

definition blob_to_bytes :: "backup_blob \<Rightarrow> bytes" where
  "blob_to_bytes b =
     u64_to_le_bytes (of_nat (length (bb_ciphertext b))) @ bb_ciphertext b @ bb_tag b"

text \<open>
  The sum of the lengths is taken in machine words; the outer \<open>None\<close> is the panic of a slice whose
  bounds are out of order or past the end.
\<close>

definition blob_from_bytes :: "bytes \<Rightarrow> backup_blob option option" where
  "blob_from_bytes bs =
     (if length bs < 8 then Some None
      else
        let len = u64_from_le_bytes (take 8 bs); mid = 8 + len in
        if of_nat (length bs) \<noteq> mid + 32 then Some None
        else if unat mid < 8 \<or> length bs < unat mid then None
        else Some (Some \<lparr>bb_ciphertext = take (unat mid - 8) (drop 8 bs), bb_tag = drop (unat mid) bs\<rparr>))"

section \<open>The blob store\<close>

type_synonym blob_digest = op_id

definition digest_of :: "sha256 \<Rightarrow> bytes \<Rightarrow> blob_digest" where
  "digest_of sha bs = content_address sha bs"

definition digest_verifies :: "sha256 \<Rightarrow> blob_digest \<Rightarrow> bytes \<Rightarrow> bool" where
  "digest_verifies sha d bs \<longleftrightarrow> digest_of sha bs = d"

record blob_store =
  bs_blobs :: "(blob_digest, bytes) btree_map"

definition blob_store_new :: blob_store where
  "blob_store_new = \<lparr>bs_blobs = btree_new\<rparr>"

definition blob_insert :: "sha256 \<Rightarrow> blob_store \<Rightarrow> bytes \<Rightarrow> blob_digest \<times> blob_store" where
  "blob_insert sha s bs =
     (let d = digest_of sha bs in (d, s\<lparr>bs_blobs := btree_insert d bs (bs_blobs s)\<rparr>))"

definition blob_get :: "blob_store \<Rightarrow> blob_digest \<Rightarrow> bytes option" where
  "blob_get s d = btree_get (bs_blobs s) d"

definition blob_contains :: "blob_store \<Rightarrow> blob_digest \<Rightarrow> bool" where
  "blob_contains s d = btree_contains_key (bs_blobs s) d"

definition blob_answer :: "blob_store \<Rightarrow> blob_digest \<Rightarrow> bytes option" where
  "blob_answer s d = blob_get s d"

record swarm_backup =
  sb_digest :: blob_digest
  sb_sealed_to :: "node_id btree_set"

definition is_sealed_to :: "swarm_backup \<Rightarrow> node_id \<Rightarrow> bool" where
  "is_sealed_to b n = bset_contains (sb_sealed_to b) n"

definition store_backup ::
  "sha256 \<Rightarrow> blob_store \<Rightarrow> backup_blob \<Rightarrow> node_id btree_set \<Rightarrow>
   (recovery_error + swarm_backup) \<times> blob_store" where
  "store_backup sha s b sealed_to =
     (if btree_len sealed_to = 0 then (Inl NotSealedToRequester, s)
      else case blob_insert sha s (blob_to_bytes b) of
        (d, s') \<Rightarrow> (Inr \<lparr>sb_digest = d, sb_sealed_to = sealed_to\<rparr>, s'))"

definition fetch_backup ::
  "blob_store \<Rightarrow> swarm_backup \<Rightarrow> node_id \<Rightarrow> (recovery_error + backup_blob) option" where
  "fetch_backup s swarm requester =
     (if \<not> is_sealed_to swarm requester then Some (Inl NotSealedToRequester)
      else case blob_get s (sb_digest swarm) of
        None \<Rightarrow> Some (Inl ArtifactNotFound)
      | Some bs \<Rightarrow>
          (case blob_from_bytes bs of
             None \<Rightarrow> None
           | Some None \<Rightarrow> Some (Inl ArtifactNotFound)
           | Some (Some b) \<Rightarrow> Some (Inr b)))"

section \<open>The threshold split\<close>

record shamir_share =
  sh_index :: u64
  sh_value :: u64

definition splitmix64 :: "u64 \<Rightarrow> u64" where
  "splitmix64 x =
     (let x = x + 0x9E3779B97F4A7C15;
          z = (x XOR drop_bit 30 x) * 0xBF58476D1CE4E5B9;
          z = (z XOR drop_bit 27 z) * 0x94D049BB133111EB
      in z XOR drop_bit 31 z)"

fun coeff_loop :: "nat \<Rightarrow> u64 \<Rightarrow> int list" where
  "coeff_loop 0 state = []"
| "coeff_loop (Suc n) state =
     (let state = splitmix64 state in (uint state mod field_prime) # coeff_loop n state)"

definition shamir_coeffs :: "recovery_key \<Rightarrow> nat \<Rightarrow> u64 \<Rightarrow> int list" where
  "shamir_coeffs secret k seed = (uint secret mod field_prime) # coeff_loop (k - 1) seed"

definition share_value :: "int list \<Rightarrow> int \<Rightarrow> int" where
  "share_value coeffs x =
     fst (fold (\<lambda>c (acc, xp). ((acc + c * xp) mod field_prime, (xp * x) mod field_prime)) coeffs (0, 1))"

text \<open>\<open>None\<close> is the panic of the two assertions.\<close>

definition shamir_split :: "recovery_key \<Rightarrow> nat \<Rightarrow> nat \<Rightarrow> u64 \<Rightarrow> shamir_share list option" where
  "shamir_split secret k n seed =
     (if k < 1 \<or> n < k then None
      else Some (map (\<lambda>x. \<lparr>sh_index = of_nat x,
                           sh_value = word_of_int (share_value (shamir_coeffs secret k seed) (int x))\<rparr>)
                  [1..<n + 1]))"

text \<open>The inner loop, for the point at position \<open>i\<close>: numerator and denominator.\<close>

definition lagrange_parts :: "shamir_share list \<Rightarrow> nat \<Rightarrow> int \<Rightarrow> int \<times> int" where
  "lagrange_parts pts i xi =
     fold (\<lambda>(j, pj) (num, den).
             if i = j then (num, den)
             else let xj = uint (sh_index pj) mod field_prime in
                  (num * ((field_prime - xj) mod field_prime) mod field_prime,
                   den * ((xi + field_prime - xj) mod field_prime) mod field_prime))
       (enumerate 0 pts) (1, 1)"

definition lagrange_term :: "shamir_share list \<Rightarrow> nat \<times> shamir_share \<Rightarrow> int" where
  "lagrange_term pts = (\<lambda>(i, pi).
     case lagrange_parts pts i (uint (sh_index pi) mod field_prime) of
       (num, den) \<Rightarrow>
         (uint (sh_value pi) mod field_prime) * num mod field_prime
           * mod_pow den (field_prime - 2) field_prime mod field_prime)"

definition shamir_reconstruct :: "shamir_share list \<Rightarrow> nat \<Rightarrow> recovery_error + recovery_key" where
  "shamir_reconstruct shares k =
     (if length shares < k then Inl (SubThresholdShares (length shares) k)
      else
        let pts = take k shares in
        Inr (word_of_int (fold (\<lambda>ip secret. (secret + lagrange_term pts ip) mod field_prime)
               (enumerate 0 pts) 0)))"

section \<open>The recovery ledger\<close>

record recovery_ledger =
  rl_held :: "node_id \<rightharpoonup> capability set"
  rl_revoked :: "(node_id \<times> capability) set"
  rl_last_recovery :: "node_id \<rightharpoonup> capability set"

definition ledger_new :: recovery_ledger where
  "ledger_new = \<lparr>rl_held = Map.empty, rl_revoked = {}, rl_last_recovery = Map.empty\<rparr>"

definition recovery_grant :: "node_id \<Rightarrow> capability \<Rightarrow> recovery_ledger \<Rightarrow> recovery_ledger" where
  "recovery_grant subject cap l =
     l\<lparr>rl_held := (rl_held l)(subject \<mapsto>
        insert cap (case rl_held l subject of None \<Rightarrow> {} | Some caps \<Rightarrow> caps))\<rparr>"

definition recovery_revoke :: "node_id \<Rightarrow> capability \<Rightarrow> recovery_ledger \<Rightarrow> recovery_ledger" where
  "recovery_revoke subject cap l = l\<lparr>rl_revoked := insert (subject, cap) (rl_revoked l)\<rparr>"

definition surviving_authority :: "recovery_ledger \<Rightarrow> node_id \<Rightarrow> capability set" where
  "surviving_authority l subject =
     {cap \<in> (case rl_held l subject of None \<Rightarrow> {} | Some caps \<Rightarrow> caps). (subject, cap) \<notin> rl_revoked l}"

text \<open>
  The vouchers are visited in the iteration order \<open>viter\<close> of their hash set, which decides which
  of several rejected vouchers the error names.
\<close>

definition social_revouch ::
  "(edge set \<Rightarrow> edge list) \<Rightarrow> (node_id set \<Rightarrow> node_id list) \<Rightarrow> recovery_ledger \<Rightarrow> node_id \<Rightarrow>
   node_id list \<Rightarrow> wot_authority \<Rightarrow> nat \<Rightarrow> (recovery_error + capability set) \<times> recovery_ledger" where
  "social_revouch iter viter l subject vouchers authority min_k =
     (let uniq = viter (set vouchers) in
      if length uniq < min_k then (Inl (InsufficientVouchers (length uniq) min_k), l)
      else case find (\<lambda>v. \<not> is_authoritative iter authority v) uniq of
        Some v \<Rightarrow> (Inl (VoucherNotAuthoritative v), l)
      | None \<Rightarrow>
          let regranted = surviving_authority l subject in
          if regranted = {} then (Inl NothingToRecover, l)
          else (Inr regranted, l\<lparr>rl_last_recovery := (rl_last_recovery l)(subject \<mapsto> regranted)\<rparr>))"

definition total_device_loss_recover ::
  "(edge set \<Rightarrow> edge list) \<Rightarrow> (node_id set \<Rightarrow> node_id list) \<Rightarrow> recovery_ledger \<Rightarrow> node_id \<Rightarrow>
   shamir_share list \<Rightarrow> nat \<Rightarrow> recovery_key option \<Rightarrow> node_id list \<Rightarrow> wot_authority \<Rightarrow> nat \<Rightarrow>
   (recovery_error + capability set) \<times> recovery_ledger" where
  "total_device_loss_recover iter viter l subject blob_shares blob_k expected_blob_key vouchers authority min_k =
     (let blob_ok =
            (if blob_shares = [] then False
             else case shamir_reconstruct blob_shares blob_k of
                    Inr recovered \<Rightarrow>
                      (case expected_blob_key of Some expected \<Rightarrow> expected = recovered | None \<Rightarrow> True)
                  | Inl _ \<Rightarrow> False);
          (revouched, l) =
            (if vouchers = [] then (False, l)
             else case social_revouch iter viter l subject vouchers authority min_k of
                    (Inr _, l') \<Rightarrow> (True, l')
                  | (Inl _, l') \<Rightarrow> (False, l'))
      in if \<not> blob_ok \<and> \<not> revouched then (Inl (InsufficientVouchers (length vouchers) min_k), l)
         else
           let regranted = surviving_authority l subject in
           if regranted = {} then (Inl NothingToRecover, l)
           else (Inr regranted, l\<lparr>rl_last_recovery := (rl_last_recovery l)(subject \<mapsto> regranted)\<rparr>))"

section \<open>The recovery plan\<close>

datatype recovery_mechanism = Blob | ShamirSplit | SocialRevouch

record recovery_plan =
  rp_tier :: recovery_tier
  rp_mechanisms :: "recovery_mechanism list"

definition newline :: string where
  "newline = [CHR 0x0A]"

definition plan_line :: "recovery_mechanism \<Rightarrow> string" where
  "plan_line m =
     (case m of
        Blob \<Rightarrow> ''   - encrypted-to-recovery-key backup blob (federation-restricted swarm)''
      | ShamirSplit \<Rightarrow> ''   - Shamir k-of-n social split across trusted peers/cells''
      | SocialRevouch \<Rightarrow> ''   - social re-vouch over the web of trust'') @ newline"

definition plan_render :: "recovery_plan \<Rightarrow> string" where
  "plan_render p =
     ''Recovery plan ('' @ (case rp_tier p of CellTier \<Rightarrow> ''cell'' | UserTier \<Rightarrow> ''user'') @ ''):'' @ newline
     @ ''1. Export the cold root offline (hardware token / air-gapped encrypted backup / vault).'' @ newline
     @ ''2. Strip the cold root from the hot keyring -- this node keeps only subkeys.'' @ newline
     @ ''3. Enrolled recovery mechanism(s):'' @ newline
     @ concat (map plan_line (rp_mechanisms p))"

definition bootstrap_recovery_plan :: "recovery_tier \<Rightarrow> recovery_mechanism list \<Rightarrow> recovery_plan" where
  "bootstrap_recovery_plan tier mechanisms = \<lparr>rp_tier = tier, rp_mechanisms = mechanisms\<rparr>"

section \<open>The split and its reconstruction\<close>

lemma mod_add_mult: "((u mod p) + (v mod p) * e) mod p = (u + v * e) mod (p :: int)"
  by (intro mod_add_cong mod_mult_cong) simp_all

abbreviation share_step :: "int \<Rightarrow> int \<Rightarrow> int \<times> int \<Rightarrow> int \<times> int" where
  "share_step x c \<equiv> \<lambda>(acc, xp). ((acc + c * xp) mod field_prime, (xp * x) mod field_prime)"

lemma share_fold_mod:
  "fst (fold (share_step x) cs (a, y)) mod field_prime = (a + y * poly_eval cs x) mod field_prime"
proof (induction cs arbitrary: a y)
  case (Cons c cs)
  have "fst (fold (share_step x) (c # cs) (a, y)) mod field_prime
      = ((a + c * y) mod field_prime + (y * x) mod field_prime * poly_eval cs x) mod field_prime"
    using Cons.IH by simp
  also have "\<dots> = (a + c * y + y * x * poly_eval cs x) mod field_prime" by (rule mod_add_mult)
  also have "a + c * y + y * x * poly_eval cs x = a + y * poly_eval (c # cs) x"
    by (simp add: algebra_simps)
  finally show ?case .
qed simp

lemma share_fold_range:
  "a mod field_prime = a \<Longrightarrow> fst (fold (share_step x) cs (a, y)) mod field_prime = fst (fold (share_step x) cs (a, y))"
  by (induction cs arbitrary: a y) simp_all

lemma share_value_poly: "share_value cs x = poly_eval cs x mod field_prime"
  using share_fold_mod [of x cs 0 1] share_fold_range [of 0 x cs 1] by (simp add: share_value_def)

lemma field_prime_pos: "0 < field_prime" "field_prime < 2 ^ 61"
  by (simp_all add: field_prime_def)

lemma field_mod_range: "0 \<le> x mod field_prime" "x mod field_prime < 2 ^ 61"
  using pos_mod_bound [OF field_prime_pos(1), of x] pos_mod_sign [OF field_prime_pos(1), of x] field_prime_pos(2)
  by simp_all

lemma uint_word_of_field: "uint (word_of_int (x mod field_prime) :: u64) = x mod field_prime"
proof -
  have "x mod field_prime < 2 ^ 64" using field_mod_range(2) [of x] by simp
  then show ?thesis using field_mod_range(1) by (simp add: unsigned_of_int take_bit_int_eq_self)
qed

text \<open>The loops of the reconstruction are the numerators and denominators of the interpolant.\<close>

lemma lagrange_parts_snoc:
  "lagrange_parts (pts @ [p]) i xi =
     (case lagrange_parts pts i xi of (num, den) \<Rightarrow>
        if i = length pts then (num, den)
        else (num * ((field_prime - uint (sh_index p) mod field_prime) mod field_prime) mod field_prime,
              den * ((xi + field_prime - uint (sh_index p) mod field_prime) mod field_prime) mod field_prime))"
  by (simp add: lagrange_parts_def enumerate_append_eq Let_def split_beta)

lemma lagrange_parts_eq:
  assumes "lagrange_parts pts i xi = (num, den)"
  shows "num mod field_prime = (\<Prod>j\<in>{..<length pts} - {i}. 0 - uint (sh_index (pts ! j))) mod field_prime
    \<and> den mod field_prime = (\<Prod>j\<in>{..<length pts} - {i}. xi - uint (sh_index (pts ! j))) mod field_prime"
  using assms
proof (induction pts arbitrary: num den rule: rev_induct)
  case Nil
  then show ?case by (simp add: lagrange_parts_def)
next
  case (snoc p pts)
  obtain n d where nd: "lagrange_parts pts i xi = (n, d)" by fastforce
  define q where "q = uint (sh_index p)"
  let ?P = "\<lambda>f. \<Prod>j\<in>{..<length pts} - {i}. f (uint (sh_index (pts ! j)))"
  have nth: "(\<Prod>j\<in>{..<length pts} - {i}. f (uint (sh_index ((pts @ [p]) ! j)))) = ?P f" for f :: "int \<Rightarrow> int"
    by (rule prod.cong) (auto simp: nth_append)
  have split: "(\<Prod>j\<in>{..<length (pts @ [p])} - {i}. f (uint (sh_index ((pts @ [p]) ! j)))) =
      (if i = length pts then ?P f else f q * ?P f)" for f :: "int \<Rightarrow> int"
  proof (cases "i = length pts")
    case True
    then have "{..<length (pts @ [p])} - {i} = {..<length pts} - {i}" by auto
    then show ?thesis using True nth by simp
  next
    case False
    then have "{..<length (pts @ [p])} - {i} = insert (length pts) ({..<length pts} - {i})" by auto
    then show ?thesis using False nth [of f] by (simp add: q_def)
  qed
  have IH: "n mod field_prime = ?P (\<lambda>y. 0 - y) mod field_prime"
    "d mod field_prime = ?P (\<lambda>y. xi - y) mod field_prime" using snoc.IH [OF nd] by simp_all
  have step: "a * ((z + field_prime - q mod field_prime) mod field_prime) mod field_prime
      = (z - q) * b mod field_prime" if "a mod field_prime = b mod field_prime" for a b z
  proof -
    have "(z + field_prime - q mod field_prime) mod field_prime = (z - q) mod field_prime"
      by (metis add_diff_eq diff_add_eq mod_add_self2 mod_diff_right_eq)
    then have "a * ((z + field_prime - q mod field_prime) mod field_prime) mod field_prime
        = (a mod field_prime) * (z - q) mod field_prime" by (simp add: mod_simps)
    also have "\<dots> = b * (z - q) mod field_prime" by (simp add: that mod_simps)
    finally show ?thesis by (simp add: mult.commute)
  qed
  show ?case
    using snoc.prems nd IH step [OF IH(1), of 0] step [OF IH(2), of xi]
      split [of "\<lambda>y. 0 - y"] split [of "\<lambda>y. xi - y"]
    by (auto simp: lagrange_parts_snoc q_def [symmetric] split: if_splits)
qed

lemma fold_mod_sum:
  "fold (\<lambda>x s. (s + f x) mod field_prime) xs a mod field_prime = (a + sum_list (map f xs)) mod field_prime"
  by (induction xs arbitrary: a) (simp_all add: mod_simps add.assoc)

lemma fold_mod_range:
  "a mod field_prime = a \<Longrightarrow> fold (\<lambda>x s. (s + f x) mod field_prime) xs a mod field_prime
     = fold (\<lambda>x s. (s + f x) mod field_prime) xs a"
  by (induction xs arbitrary: a) simp_all

lemma sum_enumerate: "sum_list (map f (enumerate 0 xs)) = (\<Sum>i<length xs. f (i, xs ! i))"
  by (simp add: sum_list_sum_nth atLeast0LessThan nth_enumerate_eq)

definition share_x :: "shamir_share list \<Rightarrow> nat \<Rightarrow> int" where
  "share_x pts i = uint (sh_index (pts ! i))"

definition share_y :: "shamir_share list \<Rightarrow> nat \<Rightarrow> int" where
  "share_y pts i = uint (sh_value (pts ! i))"

definition share_inverse :: "shamir_share list \<Rightarrow> nat \<Rightarrow> int" where
  "share_inverse pts i =
     mod_pow (snd (lagrange_parts pts i (share_x pts i mod field_prime))) (field_prime - 2) field_prime"

lemma share_inverse_inverse:
  assumes "i < length pts" "\<And>j. j < length pts \<Longrightarrow> j \<noteq> i \<Longrightarrow> \<not> field_prime dvd share_x pts i - share_x pts j"
  shows "(\<Prod>j\<in>{..<length pts} - {i}. share_x pts i - share_x pts j) * share_inverse pts i mod field_prime = 1"
proof -
  obtain num den where parts: "lagrange_parts pts i (share_x pts i mod field_prime) = (num, den)" by fastforce
  let ?D = "\<Prod>j\<in>{..<length pts} - {i}. share_x pts i - share_x pts j"
  have "den mod field_prime
      = (\<Prod>j\<in>{..<length pts} - {i}. share_x pts i mod field_prime - share_x pts j) mod field_prime"
    using lagrange_parts_eq [OF parts] by (simp add: share_x_def)
  also have "\<dots> = (\<Prod>j\<in>{..<length pts} - {i}. (share_x pts i mod field_prime - share_x pts j) mod field_prime) mod field_prime"
    by (simp add: mod_prod_eq)
  also have "\<dots> = ?D mod field_prime" by (simp add: mod_diff_left_eq mod_prod_eq)
  finally have den: "den mod field_prime = ?D mod field_prime" .
  have "\<not> field_prime dvd ?D" using assms(2) by (subst prime_dvd_prod) (auto simp: field_prime_prime)
  then have "\<not> field_prime dvd den" using den by (metis mod_0_imp_dvd dvd_imp_mod_0)
  then have "den * share_inverse pts i mod field_prime = 1"
    using fermat_inverse [OF field_prime_prime] parts by (simp add: share_inverse_def)
  then show ?thesis using den by (metis mod_mult_left_eq)
qed

lemma lagrange_term_mod:
  "lagrange_term pts (i, pts ! i) mod field_prime =
     share_y pts i * share_inverse pts i * (\<Prod>j\<in>{..<length pts} - {i}. 0 - share_x pts j) mod field_prime"
proof -
  obtain num den where parts: "lagrange_parts pts i (share_x pts i mod field_prime) = (num, den)" by fastforce
  have num: "num mod field_prime = (\<Prod>j\<in>{..<length pts} - {i}. 0 - share_x pts j) mod field_prime"
    using lagrange_parts_eq [OF parts] by (simp add: share_x_def)
  have "lagrange_term pts (i, pts ! i) = (share_y pts i mod field_prime) * num mod field_prime
      * share_inverse pts i mod field_prime"
    using parts by (simp add: lagrange_term_def share_x_def share_y_def share_inverse_def)
  then have "lagrange_term pts (i, pts ! i) mod field_prime = share_y pts i * share_inverse pts i * num mod field_prime"
    by (simp add: mod_simps mult_ac)
  then show ?thesis using num by (metis mod_mult_right_eq)
qed

lemma reconstruct_interpolates:
  assumes "k \<le> length shares" "poly_fun k f"
    and "\<And>i j. i < j \<Longrightarrow> j < k \<Longrightarrow> \<not> field_prime dvd share_x shares j - share_x shares i"
    and "\<And>i. i < k \<Longrightarrow> f (share_x shares i) mod field_prime = share_y shares i mod field_prime"
  shows "shamir_reconstruct shares k = Inr (word_of_int (f 0 mod field_prime))"
proof -
  define pts where "pts = take k shares"
  have len: "length pts = k" using assms(1) by (simp add: pts_def)
  have xy: "share_x pts i = share_x shares i" "share_y pts i = share_y shares i" if "i < k" for i
    using that by (simp_all add: pts_def share_x_def share_y_def)
  have diff: "\<not> field_prime dvd share_x pts i - share_x pts j" if "i < k" "j < k" "j \<noteq> i" for i j
    using that assms(3) [of i j] assms(3) [of j i] xy by (metis dvd_diff_commute linorder_neqE_nat)
  let ?g = "interpolant k (share_x pts) (share_y pts) (share_inverse pts)"
  have at: "?g (share_x pts m) mod field_prime = share_y pts m mod field_prime" if "m < k" for m
    using that share_inverse_inverse [of m pts] diff len field_prime_gt by (intro interpolant_at) auto
  have g0: "?g 0 mod field_prime = f 0 mod field_prime"
  proof (rule poly_agree [OF field_prime_prime poly_fun_interpolant assms(2)])
    show "\<not> field_prime dvd share_x pts j - share_x pts i" if "i < j" "j < k" for i j using diff that by simp
    show "?g (share_x pts i) mod field_prime = f (share_x pts i) mod field_prime" if "i < k" for i
      using at assms(4) xy that by simp
  qed
  let ?out = "fold (\<lambda>ip secret. (secret + lagrange_term pts ip) mod field_prime) (enumerate 0 pts) 0"
  have "?out = ?out mod field_prime" using fold_mod_range [of 0 "lagrange_term pts"] by simp
  also have "\<dots> = (\<Sum>i<k. lagrange_term pts (i, pts ! i)) mod field_prime"
    using fold_mod_sum [of "lagrange_term pts" "enumerate 0 pts" 0] by (simp add: sum_enumerate len)
  also have "\<dots> = (\<Sum>i<k. lagrange_term pts (i, pts ! i) mod field_prime) mod field_prime" by (simp add: mod_sum_eq)
  also have "\<dots> = ?g 0 mod field_prime"
    unfolding lagrange_term_mod interpolant_def len by (simp add: mod_sum_eq)
  finally show ?thesis using g0 assms(1) by (simp add: shamir_reconstruct_def Let_def pts_def)
qed

lemma small_diff:
  "0 \<le> x \<Longrightarrow> x < m \<Longrightarrow> 0 \<le> y \<Longrightarrow> y < m \<Longrightarrow> x \<noteq> y \<Longrightarrow> \<not> m dvd x - (y :: int)"
  by (simp add: mod_eq_dvd_iff [symmetric])

lemma length_coeff_loop [simp]: "length (coeff_loop n s) = n"
  by (induction n arbitrary: s) (simp_all add: Let_def)

lemma length_shamir_coeffs: "0 < k \<Longrightarrow> length (shamir_coeffs secret k seed) = k"
  by (simp add: shamir_coeffs_def)

text \<open>
  \<^bold>\<open>C18.\<close> The threshold scheme. A split into \<open>n\<close> shares with threshold \<open>k\<close> succeeds exactly for
  \<open>1 \<le> k \<le> n\<close>; any list of at least \<open>k\<close> different shares of it, in any order, reconstructs the secret
  exactly when the secret is below the field prime \<open>2^61 - 1\<close>, and in general the secret reduced
  modulo that prime; fewer than \<open>k\<close> shares are refused with their number.
\<close>

theorem shamir_reconstructs:
  assumes "shamir_split secret k n seed = Some shares" "int n < field_prime"
    and "distinct picks" "set picks \<subseteq> set shares"
  shows "length shares = n
    \<and> (k \<le> length picks \<longrightarrow> shamir_reconstruct picks k = Inr (word_of_int (uint secret mod field_prime)))
    \<and> (k \<le> length picks \<longrightarrow> (shamir_reconstruct picks k = Inr secret \<longleftrightarrow> uint secret < field_prime))
    \<and> (length picks < k \<longrightarrow> shamir_reconstruct picks k = Inl (SubThresholdShares (length picks) k))"
proof -
  let ?c = "shamir_coeffs secret k seed"
  have k: "0 < k" and shares: "shares = map (\<lambda>x. \<lparr>sh_index = of_nat x, sh_value = word_of_int (share_value ?c (int x))\<rparr>) [1..<n + 1]"
    using assms(1) by (auto simp: shamir_split_def split: if_splits)
  have small: "uint (of_nat x :: u64) = int x" if "x \<le> n" for x
    using that assms(2) field_prime_pos(2) by (simp add: unsigned_of_nat take_bit_nat_eq_self nat_less_iff)
  have share: "\<exists>x. 1 \<le> x \<and> x \<le> n \<and> s = \<lparr>sh_index = of_nat x, sh_value = word_of_int (share_value ?c (int x))\<rparr>
      \<and> uint (sh_index s) = int x \<and> uint (sh_value s) = poly_eval ?c (int x) mod field_prime"
    if "s \<in> set picks" for s
  proof -
    have "s \<in> set shares" using that assms(4) by blast
    then obtain x where x: "1 \<le> x" "x \<le> n" "s = \<lparr>sh_index = of_nat x, sh_value = word_of_int (share_value ?c (int x))\<rparr>"
      unfolding shares by (auto simp del: upt_Suc)
    then show ?thesis using small by (auto simp: share_value_poly uint_word_of_field)
  qed
  have rec: "shamir_reconstruct picks k = Inr (word_of_int (uint secret mod field_prime))" if le: "k \<le> length picks"
  proof -
    have "shamir_reconstruct picks k = Inr (word_of_int (poly_eval ?c 0 mod field_prime))"
    proof (rule reconstruct_interpolates [OF le])
      show "poly_fun k (poly_eval ?c)" using poly_fun_eval [of ?c] length_shamir_coeffs [OF k] by metis
      fix i j assume ij: "i < j" "j < k"
      then have ne: "picks ! i \<noteq> picks ! j" using assms(3) le by (simp add: nth_eq_iff_index_eq)
      obtain x where x: "x \<le> n" "picks ! i = \<lparr>sh_index = of_nat x, sh_value = word_of_int (share_value ?c (int x))\<rparr>"
        "share_x picks i = int x" using share [of "picks ! i"] ij le by (auto simp: share_x_def)
      obtain y where y: "y \<le> n" "picks ! j = \<lparr>sh_index = of_nat y, sh_value = word_of_int (share_value ?c (int y))\<rparr>"
        "share_x picks j = int y" using share [of "picks ! j"] ij le by (auto simp: share_x_def)
      have "x \<noteq> y" using ne x(2) y(2) by auto
      then show "\<not> field_prime dvd share_x picks j - share_x picks i"
        using small_diff [of "int y" field_prime "int x"] x y assms(2) by simp
    next
      fix i assume "i < k"
      then show "poly_eval ?c (share_x picks i) mod field_prime = share_y picks i mod field_prime"
        using share [of "picks ! i"] le by (auto simp: share_x_def share_y_def)
    qed
    then show ?thesis by (simp add: shamir_coeffs_def mod_simps)
  qed
  have exact: "(word_of_int (uint secret mod field_prime) = secret) \<longleftrightarrow> uint secret < field_prime"
    using uint_word_of_field [of "uint secret"] field_prime_pos(1)
    by (metis mod_pos_pos_trivial pos_mod_bound uint_ge_0 word_uint_eqI)
  show ?thesis using rec exact shares by (auto simp: shamir_reconstruct_def)
qed

lemma poly_eval_zero: "cs \<noteq> [] \<Longrightarrow> poly_eval cs 0 = hd cs"
  by (cases cs) simp_all

text \<open>
  What free coefficients give: for every polynomial of \<open>k\<close> coefficients, every set of fewer than
  \<open>k\<close> share points and every other secret there are \<open>k\<close> field coefficients with that secret in
  front that give the same shares at those points. The split takes its coefficients from a chain
  of \<open>splitmix64\<close> steps on one seed, so that this says nothing yet of what it produces.
\<close>

lemma polynomial_shares_hide:
  assumes "length cs = k" "length xs < k" "distinct xs" "\<forall>x\<in>set xs. 1 \<le> x \<and> x < field_prime"
    and "0 \<le> s" "s < field_prime"
  shows "\<exists>ds. length ds = k \<and> hd ds = s \<and> (\<forall>d\<in>set ds. 0 \<le> d \<and> d < field_prime)
    \<and> (\<forall>x\<in>set xs. share_value ds x = share_value cs x)"
proof -
  let ?n = "Suc (length xs)"
  define r where "r = (\<lambda>i. (0 # xs) ! i)"
  define v where "v = (\<lambda>i. (s # map (share_value cs) xs) ! i)"
  let ?D = "\<lambda>i. \<Prod>j\<in>{..<?n} - {i}. r i - r j"
  define d where "d = (\<lambda>i. mod_pow (?D i) (field_prime - 2) field_prime)"
  have range: "0 \<le> r i \<and> r i < field_prime" if "i < ?n" for i
  proof (cases i)
    case (Suc j)
    then have "xs ! j \<in> set xs" using that by simp
    then have "1 \<le> xs ! j \<and> xs ! j < field_prime" using assms(4) by blast
    then show ?thesis using Suc by (simp add: r_def)
  qed (simp add: r_def field_prime_pos)
  have "distinct (0 # xs)" using assms(3,4) by auto
  then have ne: "r i \<noteq> r j" if "i < ?n" "j < ?n" "i \<noteq> j" for i j
    using that nth_eq_iff_index_eq [of "0 # xs" i j] by (simp add: r_def)
  have "\<not> field_prime dvd r i - r j" if "i < ?n" "j < ?n" "i \<noteq> j" for i j
    using range that ne by (intro small_diff) auto
  then have "\<not> field_prime dvd ?D i" if "i < ?n" for i
    using that by (subst prime_dvd_prod) (auto simp: field_prime_prime)
  then have at: "interpolant ?n r v d (r i) mod field_prime = v i mod field_prime" if "i < ?n" for i
    using that fermat_inverse [OF field_prime_prime] field_prime_gt by (intro interpolant_at) (auto simp: d_def)
  have "poly_fun k (interpolant ?n r v d)" using poly_fun_grow [OF poly_fun_interpolant] assms(2) by simp
  then obtain es where es: "length es = k" "\<And>x. interpolant ?n r v d x = poly_eval es x"
    by (auto simp: poly_fun_def)
  let ?ds = "map (\<lambda>c. c mod field_prime) es"
  have "es \<noteq> []" using es(1) assms(2) by auto
  then have "hd ?ds = poly_eval es 0 mod field_prime" by (simp add: poly_eval_zero hd_map)
  also have "\<dots> = v 0 mod field_prime" using at [of 0] es(2) by (simp add: r_def)
  also have "\<dots> = s" using assms(5,6) by (simp add: v_def)
  finally have hd: "hd ?ds = s" .
  have "share_value ?ds x = share_value cs x" if x: "x \<in> set xs" for x
  proof -
    obtain i where i: "i < length xs" "x = xs ! i" using x by (auto simp: in_set_conv_nth)
    have "share_value ?ds x = poly_eval es x mod field_prime" by (simp add: share_value_poly poly_eval_mod)
    also have "\<dots> = v (Suc i) mod field_prime" using at [of "Suc i"] es(2) i by (simp add: r_def)
    finally show ?thesis using i by (simp add: v_def share_value_poly)
  qed
  moreover have "\<forall>d\<in>set ?ds. 0 \<le> d \<and> d < field_prime"
    using field_prime_pos(1) by (auto simp: pos_mod_sign pos_mod_bound)
  moreover have "length ?ds = k" using es(1) by simp
  ultimately show ?thesis using hd by blast
qed

section \<open>What a share says of the secret\<close>

text \<open>\<open>splitmix64\<close> is a bijection: each of its steps has an inverse.\<close>

lemma xorshift_inj:
  fixes x y :: u64
  assumes "x XOR drop_bit n x = y XOR drop_bit n y" "0 < n"
  shows "x = y"
proof -
  let ?z = "x XOR y"
  have "?z = drop_bit n ?z"
  proof (rule bit_eqI)
    fix k
    have "bit (x XOR drop_bit n x) k = bit (y XOR drop_bit n y) k" using assms(1) by (rule arg_cong)
    then show "bit ?z k = bit (drop_bit n ?z) k" by (auto simp: bit_xor_iff bit_drop_bit_eq)
  qed
  then have eq: "unat ?z = unat ?z div 2 ^ n" by (metis unat_drop_bit_eq drop_bit_eq_div)
  have "unat ?z = 0"
  proof (rule ccontr)
    assume "unat ?z \<noteq> 0"
    moreover have "(1::nat) < 2 ^ n" using one_less_power [of "2 :: nat" n] assms(2) by simp
    ultimately have "unat ?z div 2 ^ n < unat ?z" by (intro div_less_dividend) simp_all
    then show False using eq by simp
  qed
  then have z: "?z = 0" by (simp add: unat_eq_zero)
  show ?thesis
  proof (rule bit_eqI)
    fix k
    have "\<not> bit ?z k" by (simp add: z)
    then show "bit x k = bit y k" by (auto simp: bit_xor_iff)
  qed
qed

text \<open>A shift and a multiplication with a number that has an inverse.\<close>

lemma mix_inj:
  fixes x y c d :: u64
  assumes "(x XOR drop_bit n x) * c = (y XOR drop_bit n y) * c" "c * d = 1" "0 < n"
  shows "x = y"
proof (rule xorshift_inj [OF _ assms(3)])
  have "(x XOR drop_bit n x) * c * d = (y XOR drop_bit n y) * c * d" by (simp only: assms(1))
  then show "x XOR drop_bit n x = y XOR drop_bit n y" by (simp only: mult.assoc assms(2) mult.right_neutral)
qed

lemma splitmix64_inj: "inj splitmix64"
proof (rule injI)
  fix x y :: u64
  assume eq: "splitmix64 x = splitmix64 y"
  have inv: "(0xBF58476D1CE4E5B9 :: u64) * 0x96de1b173f119089 = 1" "(0x94D049BB133111EB :: u64) * 0x319642b2d24d8ec3 = 1"
    by simp_all
  note eq = eq [unfolded splitmix64_def Let_def]
  note eq = xorshift_inj [OF eq zero_less_numeral]
  note eq = mix_inj [OF eq inv(2) zero_less_numeral]
  note eq = mix_inj [OF eq inv(1) zero_less_numeral]
  then show "x = y" by (simp only: add_right_cancel)
qed

lemma bij_splitmix64: "bij splitmix64"
  unfolding bij_def by (intro conjI splitmix64_inj finite_UNIV_inj_surj) simp_all

text \<open>Every residue has eight or nine words, as \<open>2^64 = 8 * (2^61 - 1) + 8\<close>.\<close>

lemma card_residues:
  assumes "0 \<le> c" "c < field_prime"
  shows "card {y :: u64. uint y mod field_prime = c} \<in> {8, 9}"
proof -
  define N where "N = (if c < 8 then 9 else 8 :: nat)"
  let ?f = "\<lambda>q. word_of_int (c + int q * field_prime) :: u64"
  have u: "uint (?f q) = c + int q * field_prime" if "q < N" for q
  proof -
    have "c + int q * field_prime < 2 ^ 64"
      using that assms by (auto simp: N_def field_prime_def split: if_splits)
    moreover have "0 \<le> c + int q * field_prime" using assms by (simp add: field_prime_def)
    ultimately show ?thesis by (simp add: unsigned_of_int take_bit_int_eq_self del: of_int_add of_int_mult)
  qed
  have "{y :: u64. uint y mod field_prime = c} = ?f ` {..<N}"
  proof (intro equalityI subsetI)
    fix y :: u64
    assume "y \<in> {y. uint y mod field_prime = c}"
    define q where "q = nat (uint y div field_prime)"
    have "0 \<le> uint y div field_prime" using field_prime_pos(1) by (simp add: pos_imp_zdiv_nonneg_iff)
    then have y: "uint y = c + int q * field_prime"
      using \<open>y \<in> _\<close> div_mult_mod_eq [of "uint y" field_prime] by (simp add: q_def)
    moreover have "uint y < 2 ^ 64" using uint_bounded [of y] by simp
    ultimately have "q < N" using assms(1) by (simp add: N_def field_prime_def)
    moreover have "y = ?f q" using y by (metis word_of_int_uint)
    ultimately show "y \<in> ?f ` {..<N}" by blast
  qed (use u assms in auto)
  moreover have "inj_on ?f {..<N}"
  proof (rule inj_onI)
    fix q r assume "q \<in> {..<N}" "r \<in> {..<N}" "?f q = ?f r"
    then have "c + int q * field_prime = c + int r * field_prime" using u by (metis lessThan_iff)
    then show "q = r" using field_prime_pos(1) by simp
  qed
  ultimately have "card {y :: u64. uint y mod field_prime = c} = N" by (simp add: card_image)
  then show ?thesis by (simp add: N_def)
qed

text \<open>The shares of a split with threshold two.\<close>

lemma share_two:
  "share_value (shamir_coeffs secret 2 seed) x = (uint secret + uint (splitmix64 seed) * x) mod field_prime"
proof -
  have "shamir_coeffs secret 2 seed = [uint secret mod field_prime, uint (splitmix64 seed) mod field_prime]"
    by (simp add: shamir_coeffs_def numeral_2_eq_2 Let_def)
  moreover have "(uint secret + x * (uint (splitmix64 seed) mod field_prime)) mod field_prime
      = (uint secret + x * uint (splitmix64 seed)) mod field_prime"
    by (metis mod_add_right_eq mod_mult_right_eq)
  ultimately show ?thesis by (simp add: share_value_poly mod_simps mult.commute)
qed

lemma split_two_member:
  assumes "int n < field_prime" "2 \<le> n" "1 \<le> x" "x \<le> n"
    and "shamir_split secret 2 n seed = Some shares"
  shows "\<lparr>sh_index = of_nat x, sh_value = word_of_int (v mod field_prime)\<rparr> \<in> set shares \<longleftrightarrow>
    (uint secret + uint (splitmix64 seed) * int x) mod field_prime = v mod field_prime"
proof -
  have shares: "shares = map (\<lambda>x. \<lparr>sh_index = of_nat x,
      sh_value = word_of_int ((uint secret + uint (splitmix64 seed) * int x) mod field_prime)\<rparr>) [1..<n + 1]"
    using assms(5) assms(2) unfolding shamir_split_def share_two by simp
  have index: "of_nat y = (of_nat x :: u64) \<longleftrightarrow> y = x" if "y \<le> n" for y
  proof -
    have small: "unat (of_nat z :: u64) = z" if "z \<le> n" for z
      using that assms(1) field_prime_pos(2) by (simp add: unsigned_of_nat take_bit_nat_eq_self)
    show ?thesis using small [OF that] small [OF assms(4)] by metis
  qed
  have val_eq: "(word_of_int (a mod field_prime) = (word_of_int (b mod field_prime) :: u64)) \<longleftrightarrow>
      a mod field_prime = b mod field_prime" for a b
    using uint_word_of_field by metis
  show ?thesis
    unfolding shares
  proof
    let ?s = "\<lambda>y. \<lparr>sh_index = of_nat y,
      sh_value = word_of_int ((uint secret + uint (splitmix64 seed) * int y) mod field_prime)\<rparr> :: shamir_share"
    assume "\<lparr>sh_index = of_nat x, sh_value = word_of_int (v mod field_prime)\<rparr> \<in> set (map ?s [1..<n + 1])"
    then obtain y where y: "y \<in> {1..<n + 1}" "\<lparr>sh_index = of_nat x, sh_value = word_of_int (v mod field_prime)\<rparr> = ?s y"
      unfolding set_map set_upt by (rule imageE)
    then have "y = x" using index [of y] by simp
    then show "(uint secret + uint (splitmix64 seed) * int x) mod field_prime = v mod field_prime"
      using y(2) val_eq [of v] by simp
  qed (use assms(3,4) in \<open>auto simp del: upt_Suc\<close>)
qed

lemma field_solve:
  assumes "1 \<le> x" "x < field_prime"
  obtains c where "0 \<le> c" "c < field_prime"
    "\<And>u. (s + u * x) mod field_prime = v mod field_prime \<longleftrightarrow> u mod field_prime = c"
proof -
  have np: "\<not> field_prime dvd x" using assms by (auto dest: zdvd_imp_le)
  define d where "d = mod_pow x (field_prime - 2) field_prime"
  have d: "x * d mod field_prime = 1" unfolding d_def by (rule fermat_inverse [OF field_prime_prime np])
  define c where "c = (v - s) * d mod field_prime"
  have "(s + u * x) mod field_prime = v mod field_prime \<longleftrightarrow> u mod field_prime = c" for u
  proof -
    have "(s + u * x) mod field_prime = v mod field_prime \<longleftrightarrow> field_prime dvd (u * x - (v - s))"
      by (simp add: mod_eq_dvd_iff algebra_simps)
    also have "\<dots> \<longleftrightarrow> field_prime dvd (u - (v - s) * d)"
    proof -
      have "field_prime dvd x * d - 1" using d by (metis mod_eq_dvd_iff field_prime_gt mod_pos_pos_trivial zero_le_one)
      then obtain k where k: "x * d = 1 + field_prime * k" by (metis dvdE add.commute diff_add_cancel)
      have "u * x - (v - s) = (u - (v - s) * d) * x + (v - s) * (x * d - 1)" by (simp add: algebra_simps)
      also have "\<dots> = (u - (v - s) * d) * x + field_prime * ((v - s) * k)" unfolding k by simp
      finally have "field_prime dvd (u * x - (v - s)) \<longleftrightarrow> field_prime dvd (u - (v - s) * d) * x"
        by (simp only: dvd_add_left_iff [OF dvd_triv_left])
      also have "\<dots> \<longleftrightarrow> field_prime dvd (u - (v - s) * d)"
        using prime_dvd_mult [OF field_prime_prime] np by (metis dvd_mult2)
      finally show ?thesis .
    qed
    also have "\<dots> \<longleftrightarrow> u mod field_prime = c" by (simp add: c_def mod_eq_dvd_iff)
    finally show ?thesis .
  qed
  moreover have "0 \<le> c" "c < field_prime" using field_prime_pos(1) by (simp_all add: c_def)
  ultimately show thesis using that by blast
qed

text \<open>
  \<^bold>\<open>C19.\<close> A single share of a split with threshold two says nothing of the secret. Whatever the
  secret, the seed and the share, every other 64-bit secret is split into the same number of shares,
  that very share among them, by 8 or 9 of the seeds: no secret is excluded, and none has more
  than 9 seeds to the 8 of another.
\<close>

theorem single_share_hides:
  assumes "shamir_split secret 2 n seed = Some shares" "int n < field_prime" "share \<in> set shares"
  shows "card {seed'. \<exists>shares'. shamir_split secret' 2 n seed' = Some shares' \<and> share \<in> set shares'} \<in> {8, 9}"
proof -
  have n: "2 \<le> n" using assms(1) by (auto simp: shamir_split_def split: if_splits)
  obtain x v where x: "1 \<le> x" "x \<le> n"
    "share = \<lparr>sh_index = of_nat x, sh_value = word_of_int (v mod field_prime)\<rparr>"
    using assms(1,3) n by (auto simp: shamir_split_def share_value_poly simp del: upt_Suc)
  obtain c where c: "0 \<le> c" "c < field_prime"
    "\<And>u. (uint secret' + u * int x) mod field_prime = v mod field_prime \<longleftrightarrow> u mod field_prime = c"
    using field_solve [of "int x" "uint secret'" v] x(1,2) assms(2) by auto
  have "(\<exists>shares'. shamir_split secret' 2 n seed' = Some shares' \<and> share \<in> set shares') \<longleftrightarrow>
      uint (splitmix64 seed') mod field_prime = c" for seed'
  proof -
    obtain shares' where s: "shamir_split secret' 2 n seed' = Some shares'"
      using n by (simp add: shamir_split_def)
    then show ?thesis using split_two_member [OF assms(2) n x(1,2) s, of v] c(3) by (simp add: x(3))
  qed
  then have "{seed'. \<exists>shares'. shamir_split secret' 2 n seed' = Some shares' \<and> share \<in> set shares'} =
      {seed'. uint (splitmix64 seed') mod field_prime = c}" by simp
  then have "card {seed'. \<exists>shares'. shamir_split secret' 2 n seed' = Some shares' \<and> share \<in> set shares'} =
      card (splitmix64 -` {y. uint y mod field_prime = c})" by (simp add: vimage_def)
  also have "\<dots> = card {y :: u64. uint y mod field_prime = c}"
    using bij_splitmix64 by (intro card_vimage_inj) (auto simp: bij_def)
  finally show ?thesis using card_residues [OF c(1,2)] by simp
qed


section \<open>The backup\<close>

lemma keystream_loop_returns:
  assumes "sha3_ok sha3"
  shows "\<exists>st. keystream_loop sha3 key len counter out = Some st \<and> length st = len"
proof (induction "len - length out" arbitrary: counter out rule: less_induct)
  case less
  let ?out = "out @ sha3 (key @ u64_to_le_bytes counter)"
  show ?case
  proof (cases "length out < len")
    case True
    have "len - length ?out < len - length out" using True assms by (simp add: sha3_ok_def)
    from less [OF this, of "counter + 1"] show ?thesis
      using True by (simp add: keystream_loop.simps [of _ _ _ counter out])
  next
    case False
    then show ?thesis by (simp add: keystream_loop.simps [of _ _ _ counter out])
  qed
qed

lemma keystream_returns: "sha3_ok sha3 \<Longrightarrow> \<exists>st. keystream sha3 key len = Some st \<and> length st = len"
  unfolding keystream_def by (rule keystream_loop_returns)

lemma xor_bytes_twice: "length st = length bs \<Longrightarrow> xor_bytes (xor_bytes bs st) st = bs"
  by (induction bs st rule: list_induct2') (auto simp: xor_bytes_def xor.assoc)

lemma length_xor_bytes: "length st = length bs \<Longrightarrow> length (xor_bytes bs st) = length bs"
  by (simp add: xor_bytes_def)

lemma blob_bytes_roundtrip:
  assumes "length (bb_tag b) = 32" "length (bb_ciphertext b) + 40 < 2 ^ 64"
  shows "blob_from_bytes (blob_to_bytes b) = Some (Some b)"
proof -
  let ?n = "length (bb_ciphertext b)"
  have "unat (8 + of_nat ?n :: u64) = 8 + ?n"
    using assms(2) by (simp add: unat_word_ariths unsigned_of_nat take_bit_nat_eq_self)
  then show ?thesis
    using assms(1) by (simp add: blob_from_bytes_def blob_to_bytes_def Let_def add.commute)
qed

text \<open>
  A backup comes back. Sealing ends, for a hash with 32-byte outputs, and decrypting with the
  same key returns the payload; under any other key the answer is the wrong-key error or bytes of
  the same length and the same hash. The blob survives its byte encoding and the store: a node of
  the seal fetches exactly it, every other node is refused, and an empty seal is not stored.
\<close>

theorem backup_roundtrip:
  assumes "sha3_ok sha3" "length payload + 40 < 2 ^ 64" "bset_contains sealed n"
  shows "\<exists>b. blob_seal sha3 payload key = Some b
    \<and> blob_decrypt sha3 b key = Some (Inr payload)
    \<and> (case blob_decrypt sha3 b key' of
         None \<Rightarrow> False
       | Some (Inl e) \<Rightarrow> e = WrongRecoveryKey
       | Some (Inr p) \<Rightarrow> length p = length payload \<and> sha3 p = sha3 payload)
    \<and> blob_from_bytes (blob_to_bytes b) = Some (Some b)
    \<and> (\<exists>sb s'. store_backup sha s b sealed = (Inr sb, s') \<and> fetch_backup s' sb n = Some (Inr b)
        \<and> (fetch_backup s' sb m = Some (Inl NotSealedToRequester) \<longleftrightarrow> \<not> bset_contains sealed m))
    \<and> store_backup sha s b btree_new = (Inl NotSealedToRequester, s)"
proof -
  obtain st where st: "keystream sha3 (u64_to_le_bytes key) (length payload) = Some st" "length st = length payload"
    using keystream_returns [OF assms(1)] by blast
  define b where "b = \<lparr>bb_ciphertext = xor_bytes payload st, bb_tag = sha3 payload\<rparr>"
  have len: "length (bb_ciphertext b) = length payload" using st(2) by (simp add: b_def length_xor_bytes)
  have bytes: "blob_from_bytes (blob_to_bytes b) = Some (Some b)"
    using assms(1,2) len by (intro blob_bytes_roundtrip) (simp_all add: b_def sha3_ok_def)
  obtain st' where st': "keystream sha3 (u64_to_le_bytes key') (length payload) = Some st'" "length st' = length payload"
    using keystream_returns [OF assms(1)] by blast
  have "btree_len sealed \<noteq> 0"
    using assms(3) by (auto simp: btree_len_card btree_contains_key_Some card_eq_0_iff)
  then have store: "store_backup sha s b sealed = (Inr \<lparr>sb_digest = digest_of sha (blob_to_bytes b), sb_sealed_to = sealed\<rparr>,
      s\<lparr>bs_blobs := btree_insert (digest_of sha (blob_to_bytes b)) (blob_to_bytes b) (bs_blobs s)\<rparr>)"
    by (simp add: store_backup_def blob_insert_def Let_def)
  have empty: "store_backup sha s b btree_new = (Inl NotSealedToRequester, s)"
    by (simp add: store_backup_def btree_len_card dom_def)
  have seal: "blob_seal sha3 payload key = Some b" using st(1) by (simp add: blob_seal_def b_def)
  have dec: "blob_decrypt sha3 b key = Some (Inr payload)"
    unfolding blob_decrypt_def len st(1) using st(2) by (simp add: b_def xor_bytes_twice Let_def)
  have other: "case blob_decrypt sha3 b key' of None \<Rightarrow> False | Some (Inl e) \<Rightarrow> e = WrongRecoveryKey
       | Some (Inr p) \<Rightarrow> length p = length payload \<and> sha3 p = sha3 payload"
    unfolding blob_decrypt_def len st'(1) using st'(2) len
    by (simp add: Let_def length_xor_bytes) (simp add: b_def)
  show ?thesis
    using seal dec other bytes store assms(3)
    by (intro exI [of _ b] conjI)
      (simp_all add: fetch_backup_def is_sealed_to_def blob_get_def empty)
qed

section \<open>Regranting authority\<close>

text \<open>Histories of the ledger.\<close>

datatype rl_op =
    RecGrant node_id capability
  | RecRevoke node_id capability
  | RecRevouch node_id "node_id list" wot_authority nat
  | RecDeviceLoss node_id "shamir_share list" nat "recovery_key option" "node_id list" wot_authority nat

fun rl_exec ::
  "(edge set \<Rightarrow> edge list) \<Rightarrow> (node_id set \<Rightarrow> node_id list) \<Rightarrow> recovery_ledger \<Rightarrow> rl_op \<Rightarrow> recovery_ledger" where
  "rl_exec iter viter l (RecGrant n c) = recovery_grant n c l"
| "rl_exec iter viter l (RecRevoke n c) = recovery_revoke n c l"
| "rl_exec iter viter l (RecRevouch n vs w k) = snd (social_revouch iter viter l n vs w k)"
| "rl_exec iter viter l (RecDeviceLoss n ss bk e vs w k) =
     snd (total_device_loss_recover iter viter l n ss bk e vs w k)"

definition held_of :: "recovery_ledger \<Rightarrow> node_id \<Rightarrow> capability set" where
  "held_of l n = (case rl_held l n of None \<Rightarrow> {} | Some caps \<Rightarrow> caps)"

lemma surviving_eq: "surviving_authority l n = {c \<in> held_of l n. (n, c) \<notin> rl_revoked l}"
  by (auto simp: surviving_authority_def held_of_def)

lemma social_revouch_keeps:
  "rl_held (snd (social_revouch iter viter l n vs w k)) = rl_held l"
  "rl_revoked (snd (social_revouch iter viter l n vs w k)) = rl_revoked l"
  by (simp_all add: social_revouch_def Let_def split: option.split)

lemma device_loss_keeps:
  "rl_held (snd (total_device_loss_recover iter viter l n ss bk e vs w k)) = rl_held l
   \<and> rl_revoked (snd (total_device_loss_recover iter viter l n ss bk e vs w k)) = rl_revoked l"
proof -
  obtain res l' where r: "social_revouch iter viter l n vs w k = (res, l')" by fastforce
  then have "rl_held l' = rl_held l" "rl_revoked l' = rl_revoked l"
    using social_revouch_keeps [of iter viter l n vs w k] by simp_all
  then show ?thesis
    using r by (cases res) (simp_all add: total_device_loss_recover_def Let_def)
qed

lemma surviving_run:
  "surviving_authority (foldl (rl_exec iter viter) l xs) n =
     {c. (c \<in> held_of l n \<or> RecGrant n c \<in> set xs) \<and> (n, c) \<notin> rl_revoked l \<and> RecRevoke n c \<notin> set xs}"
proof (induction xs arbitrary: l)
  case (Cons x xs)
  have held: "held_of (rl_exec iter viter l x) n = held_of l n \<union> {c. x = RecGrant n c}"
    by (cases x) (auto simp: held_of_def recovery_grant_def recovery_revoke_def social_revouch_keeps
        device_loss_keeps split: option.splits)
  have rev: "(n, c) \<in> rl_revoked (rl_exec iter viter l x) \<longleftrightarrow> (n, c) \<in> rl_revoked l \<or> x = RecRevoke n c" for c
    by (cases x) (auto simp: recovery_grant_def recovery_revoke_def social_revouch_keeps device_loss_keeps)
  show ?case using Cons.IH [of "rl_exec iter viter l x"] held rev by auto
qed (auto simp: surviving_eq)

lemma social_revouch_Inr:
  assumes "hash_iter viter"
  shows "fst (social_revouch iter viter l n vs w k) = Inr caps \<longleftrightarrow>
    k \<le> card (set vs) \<and> list_all (is_authoritative iter w) vs
    \<and> caps = surviving_authority l n \<and> caps \<noteq> {}"
proof -
  have "set (viter (set vs)) = set vs" "distinct (viter (set vs))" using assms by (auto simp: hash_iter_def)
  then have "length (viter (set vs)) = card (set vs)" "set (viter (set vs)) = set vs"
    by (auto simp: distinct_card [symmetric])
  then show ?thesis
    by (auto simp: social_revouch_def Let_def find_None_iff list_all_iff find_Some_iff split: option.splits if_splits)
qed

text \<open>
  \<^bold>\<open>C20.\<close> Recovery preserves authority and never acts after a revocation. After any history the
  surviving authority of a subject is exactly what was granted to it and never revoked. A social
  re-vouch succeeds exactly with at least \<open>k\<close> different vouchers that are all authoritative now and a
  non-empty surviving authority, which is what it returns; recovery after the loss of all devices
  succeeds exactly when enough shares reconstruct the expected key, where one is expected, or such
  a re-vouch succeeds, and returns the same set, never more.
\<close>

theorem recovery_preserves_authority:
  assumes "hash_iter viter" and "l = foldl (rl_exec iter viter) ledger_new xs"
  shows "surviving_authority l n = {c. RecGrant n c \<in> set xs \<and> RecRevoke n c \<notin> set xs}
    \<and> (fst (social_revouch iter viter l n vs w k) = Inr caps \<longleftrightarrow>
        k \<le> card (set vs) \<and> list_all (is_authoritative iter w) vs
        \<and> caps = surviving_authority l n \<and> caps \<noteq> {})
    \<and> (fst (total_device_loss_recover iter viter l n ss bk e vs w k) = Inr caps \<longleftrightarrow>
        ((\<exists>key. ss \<noteq> [] \<and> shamir_reconstruct ss bk = Inr key \<and> (e = None \<or> e = Some key))
          \<or> vs \<noteq> [] \<and> k \<le> card (set vs) \<and> list_all (is_authoritative iter w) vs)
        \<and> caps = surviving_authority l n \<and> caps \<noteq> {})"
proof (intro conjI)
  show "surviving_authority l n = {c. RecGrant n c \<in> set xs \<and> RecRevoke n c \<notin> set xs}"
    using surviving_run [of iter viter ledger_new xs n] assms(2) by (simp add: ledger_new_def held_of_def)
  show rv: "fst (social_revouch iter viter l n vs w k) = Inr caps \<longleftrightarrow>
      k \<le> card (set vs) \<and> list_all (is_authoritative iter w) vs
      \<and> caps = surviving_authority l n \<and> caps \<noteq> {}" for caps
    by (rule social_revouch_Inr [OF assms(1)])
  obtain res l' where r: "social_revouch iter viter l n vs w k = (res, l')" by fastforce
  have same: "surviving_authority l' n = surviving_authority l n"
    using social_revouch_keeps [of iter viter l n vs w k] r by (simp add: surviving_authority_def)
  have ok: "(\<exists>c. res = Inr c) \<longleftrightarrow> k \<le> card (set vs) \<and> list_all (is_authoritative iter w) vs
      \<and> surviving_authority l n \<noteq> {}" using rv r by auto
  show "fst (total_device_loss_recover iter viter l n ss bk e vs w k) = Inr caps \<longleftrightarrow>
        ((\<exists>key. ss \<noteq> [] \<and> shamir_reconstruct ss bk = Inr key \<and> (e = None \<or> e = Some key))
          \<or> vs \<noteq> [] \<and> k \<le> card (set vs) \<and> list_all (is_authoritative iter w) vs)
        \<and> caps = surviving_authority l n \<and> caps \<noteq> {}"
    using ok same r
    by (cases res; cases "shamir_reconstruct ss bk"; cases e)
      (auto simp: total_device_loss_recover_def Let_def)
qed

section \<open>Witnesses\<close>

definition rec_demo_sha3 :: "bytes \<Rightarrow> bytes" where
  "rec_demo_sha3 bs = take 32 (bs @ replicate 32 0)"

lemma rec_demo_sha3_ok: "sha3_ok rec_demo_sha3"
  by (auto simp: sha3_ok_def rec_demo_sha3_def min_def)

lemma split_demo_some: "\<exists>shares. shamir_split 42 2 3 7 = Some shares"
  by (simp add: shamir_split_def)

theorem shamir_reconstructs_witness:
  "\<exists>shares. shamir_split 42 2 3 7 = Some shares
     \<and> shamir_reconstruct (rev shares) 2 = Inr 42
     \<and> shamir_reconstruct [hd shares] 2 = Inl (SubThresholdShares 1 2)"
proof -
  obtain shares where s: "shamir_split 42 2 3 7 = Some shares" using split_demo_some by blast
  have n: "int 3 < field_prime" and small: "uint (42 :: u64) < field_prime" by (simp_all add: field_prime_def)
  have "distinct shares" and len: "length shares = 3"
    using s by (auto simp: shamir_split_def upt_rec [of _ 4] numeral_eq_Suc)
  then have "shamir_reconstruct (rev shares) 2 = Inr 42"
    using shamir_reconstructs [OF s n, of "rev shares"] small by simp
  moreover have "shares \<noteq> []" using len by auto
  then have "shamir_reconstruct [hd shares] 2 = Inl (SubThresholdShares 1 2)"
    using shamir_reconstructs [OF s n, of "[hd shares]"] by simp
  ultimately show ?thesis using s by blast
qed

theorem single_share_hides_witness:
  "\<exists>shares. shamir_split 42 2 3 7 = Some shares
     \<and> card {seed. \<exists>shares'. shamir_split 99 2 3 seed = Some shares' \<and> hd shares \<in> set shares'} \<in> {8, 9}"
proof -
  obtain shares where s: "shamir_split 42 2 3 7 = Some shares" using split_demo_some by blast
  then have "hd shares \<in> set shares" by (auto simp: shamir_split_def upt_rec)
  from single_share_hides [OF s _ this, of 99] show ?thesis using s by (auto simp: field_prime_def)
qed

theorem backup_roundtrip_witness:
  "\<exists>b. blob_seal rec_demo_sha3 [1, 2, 3] 5 = Some b \<and> blob_decrypt rec_demo_sha3 b 5 = Some (Inr [1, 2, 3])
     \<and> blob_from_bytes (blob_to_bytes b) = Some (Some b)"
proof -
  have "length [1, 2, 3 :: u8] + 40 < 2 ^ 64" "bset_contains (bset_insert ''a'' btree_new) ''a''"
    by (simp_all add: bset_insert_def)
  from backup_roundtrip [OF rec_demo_sha3_ok this, of 5] show ?thesis by blast
qed

lemma hash_iter_nodes: "hash_iter (sorted_list_of_set :: node_id set \<Rightarrow> node_id list)"
  by (simp add: hash_iter_def)

theorem recovery_preserves_authority_witness:
  "surviving_authority (foldl (rl_exec sorted_list_of_set sorted_list_of_set) ledger_new
      [RecGrant ''a'' ''r'', RecGrant ''a'' ''w'', RecRevoke ''a'' ''w'']) ''a'' = {''r''}"
  using recovery_preserves_authority [OF hash_iter_nodes refl, of _ "[RecGrant ''a'' ''r'', RecGrant ''a'' ''w'', RecRevoke ''a'' ''w'']" "''a''"]
  by auto

section \<open>Where the code and its documentation part\<close>

text \<open>
  From threshold three on, fewer shares do say something: no seed splits the secret 1 into the
  first two shares that the secret 0 has under the seed 0.
\<close>

lemma linear_three:
  assumes "(1 + c1 + c2) mod field_prime = 659642555515227178"
    and "(1 + 2 * c1 + 4 * c2) mod field_prime = 26112508521715005"
    and "0 \<le> c1" "c1 < field_prime" "0 \<le> c2" "c2 < field_prime"
  shows "c1 = 1306228856769596852 \<and> c2 = 1659256707959324276"
proof -
  define k where "k = (1 + c1 + c2) div field_prime"
  define m where "m = (1 + 2 * c1 + 4 * c2) div field_prime"
  have k: "1 + c1 + c2 = k * field_prime + 659642555515227178"
    using assms(1) div_mult_mod_eq [of "1 + c1 + c2" field_prime] by (simp add: k_def)
  have m: "1 + 2 * c1 + 4 * c2 = m * field_prime + 26112508521715005"
    using assms(2) div_mult_mod_eq [of "1 + 2 * c1 + 4 * c2" field_prime] by (simp add: m_def)
  have "0 \<le> k" "k \<le> 1" "0 \<le> m" "m \<le> 5"
    using k m assms(3-6) by (simp_all add: field_prime_def)
  then have "k \<in> {0, 1}" "m \<in> {0, 1, 2, 3, 4, 5}" by auto
  then show ?thesis using k m assms(3-6) by (auto simp: field_prime_def) presburger+
qed

lemma share_three:
  "share_value (shamir_coeffs secret 3 seed) x =
     (uint secret + uint (splitmix64 seed) mod field_prime * x
       + uint (splitmix64 (splitmix64 seed)) mod field_prime * (x * x)) mod field_prime"
proof -
  have "shamir_coeffs secret 3 seed = [uint secret mod field_prime, uint (splitmix64 seed) mod field_prime,
      uint (splitmix64 (splitmix64 seed)) mod field_prime]"
    by (simp add: shamir_coeffs_def numeral_3_eq_3 Let_def)
  then show ?thesis by (simp add: share_value_poly mod_simps algebra_simps)
qed

lemma two_of_three_shares_reveal:
  assumes "shamir_split 0 3 3 0 = Some shares" "shamir_split 1 3 3 seed = Some shares'"
  shows "take 2 shares' \<noteq> take 2 shares"
proof
  assume eq: "take 2 shares' = take 2 shares"
  define y where "y = splitmix64 seed"
  define c1 c2 where "c1 = uint y mod field_prime" and "c2 = uint (splitmix64 y) mod field_prime"
  have up: "[1..<3 + 1] = [1, 2, 3 :: nat]" by (simp add: upt_rec)
  have "share_value (shamir_coeffs 1 3 seed) x = share_value (shamir_coeffs 0 3 0) x" if "x = 1 \<or> x = 2" for x
  proof -
    have "(word_of_int (share_value (shamir_coeffs 1 3 seed) x) :: u64) = word_of_int (share_value (shamir_coeffs 0 3 0) x)"
      using eq assms that unfolding shamir_split_def up by auto
    then show ?thesis unfolding share_value_poly using uint_word_of_field by metis
  qed
  then have "share_value (shamir_coeffs 1 3 seed) 1 = share_value (shamir_coeffs 0 3 0) 1"
    "share_value (shamir_coeffs 1 3 seed) 2 = share_value (shamir_coeffs 0 3 0) 2" by simp_all
  moreover have "share_value (shamir_coeffs 0 3 0) 1 = 659642555515227178"
    "share_value (shamir_coeffs 0 3 0) 2 = 26112508521715005"
    by code_simp+
  ultimately have "share_value (shamir_coeffs 1 3 seed) 1 = 659642555515227178"
    "share_value (shamir_coeffs 1 3 seed) 2 = 26112508521715005" by simp_all
  then have "(1 + c1 + c2) mod field_prime = 659642555515227178"
    "(1 + 2 * c1 + 4 * c2) mod field_prime = 26112508521715005"
    by (simp_all add: share_three c1_def c2_def y_def algebra_simps)
  moreover have "0 \<le> c1" "c1 < field_prime" "0 \<le> c2" "c2 < field_prime"
    using field_prime_pos(1) by (simp_all add: c1_def c2_def)
  ultimately have c: "c1 = 1306228856769596852" "c2 = 1659256707959324276" using linear_three by blast+
  define q where "q = uint y div field_prime"
  have y: "uint y = q * field_prime + 1306228856769596852"
    using c(1) div_mult_mod_eq [of "uint y" field_prime] by (simp add: q_def c1_def)
  moreover have "uint y < 2 ^ 64" "0 \<le> uint y" using uint_bounded [of y] by simp_all
  ultimately have "0 \<le> q" "q \<le> 7" by (simp_all add: field_prime_def)
  then have "q \<in> {0, 1, 2, 3, 4, 5, 6, 7}" by auto
  moreover have "y = word_of_int (q * field_prime + 1306228856769596852)" using y by (metis word_of_int_uint)
  ultimately show False
    using c(2) unfolding c2_def by (auto simp: field_prime_def splitmix64_def Let_def)
qed

text \<open>One share given twice passes as two: only the number of shares is looked at.\<close>

theorem repeated_share_accepted: "\<exists>key. shamir_reconstruct [s, s] 2 = Inr key"
  by (simp add: shamir_reconstruct_def Let_def)

text \<open>Without an expected key any share at all regrants the authority, with no voucher.\<close>

theorem unverified_share_recovers:
  "fst (total_device_loss_recover sorted_list_of_set sorted_list_of_set
      (recovery_grant ''a'' ''admin'' ledger_new) ''a'' [\<lparr>sh_index = 1, sh_value = 0\<rparr>] 1 None []
      (wot_new ''owner'' 3) 2) = Inr {''admin''}"
  by (simp add: total_device_loss_recover_def shamir_reconstruct_def Let_def surviving_authority_def
      recovery_grant_def ledger_new_def)

text \<open>Eight bytes that claim a length near \<open>2^64\<close> make the decoder panic.\<close>

theorem short_blob_panics: "blob_from_bytes (u64_to_le_bytes (- 32)) = None"
  by (simp add: blob_from_bytes_def Let_def)

end
