(* ===== verification/Crypto_Seal.thy ===== *)
theory Crypto_Seal
  imports Crypto_Sign
begin

text \<open>
  \<^verbatim>\<open>crates/pillar-crypto/src/aead.rs\<close>, \<^verbatim>\<open>seal.rs\<close>, \<^verbatim>\<open>cell.rs\<close>,
  \<^verbatim>\<open>node.rs\<close>, \<^verbatim>\<open>principal.rs\<close> and \<^verbatim>\<open>user.rs\<close>: the self-describing
  ciphertext, the envelope sealed to several recipients, the group key of a cell, and the messages
  and certificates of a user.

  The record \<open>sealing\<close> extends the signing primitives by those of the crates
  \<open>chacha20poly1305\<close>, \<open>x25519_dalek\<close> and \<open>hkdf\<close>. \<open>sealing_ok\<close>
  states what they document: a ciphertext opens to its message under the same key, nonce and
  associated data, with the widths of keys, nonces and tags; and the two sides of a key agreement
  compute the same secret. Of the operating system's random generator only the width of a draw is
  assumed: \<open>rng k n\<close> is the draw of \<open>n\<close> bytes after \<open>k\<close> others.
\<close>

section \<open>Ciphertexts that name their algorithm\<close>

datatype aead_algorithm = ChaCha20Poly1305V1 | XChaCha20Poly1305V1

record sealing = crypto +
  c_aead_seal :: "aead_algorithm \<Rightarrow> bytes \<Rightarrow> bytes \<Rightarrow> bytes \<Rightarrow> bytes \<Rightarrow> bytes option"
  c_aead_open :: "aead_algorithm \<Rightarrow> bytes \<Rightarrow> bytes \<Rightarrow> bytes \<Rightarrow> bytes \<Rightarrow> bytes option"
  c_x_secret :: "bytes \<Rightarrow> bytes"
  c_x_public :: "bytes \<Rightarrow> bytes"
  c_x_dh :: "bytes \<Rightarrow> bytes \<Rightarrow> bytes"
  c_hkdf :: "bytes \<Rightarrow> bytes \<Rightarrow> bytes \<Rightarrow> nat \<Rightarrow> bytes option"

type_synonym rng = "nat \<Rightarrow> nat \<Rightarrow> bytes"

definition rng_ok :: "rng \<Rightarrow> bool" where
  "rng_ok rng \<longleftrightarrow> (\<forall>k n. length (rng k n) = n)"

fun aead_tag :: "aead_algorithm \<Rightarrow> u8" where
  "aead_tag ChaCha20Poly1305V1 = 1"
| "aead_tag XChaCha20Poly1305V1 = 2"

definition aead_from_tag :: "u8 \<Rightarrow> crypto_error + aead_algorithm" where
  "aead_from_tag t =
     (if t = 1 then Inr ChaCha20Poly1305V1
      else if t = 2 then Inr XChaCha20Poly1305V1
      else Inl (UnsupportedAlgorithm t))"

definition aead_current_default :: aead_algorithm where
  "aead_current_default = XChaCha20Poly1305V1"

fun nonce_len :: "aead_algorithm \<Rightarrow> nat" where
  "nonce_len ChaCha20Poly1305V1 = 12"
| "nonce_len XChaCha20Poly1305V1 = 24"

definition cipher_key32 :: "sealing \<Rightarrow> bytes \<Rightarrow> bytes \<Rightarrow> bytes" where
  "cipher_key32 c domain key = c_sha c (domain @ key)"

fun aead_domain :: "aead_algorithm \<Rightarrow> bytes" where
  "aead_domain ChaCha20Poly1305V1 = as_bytes ''pillar-crypto/aead/chacha20poly1305/key-v1''"
| "aead_domain XChaCha20Poly1305V1 = as_bytes ''pillar-crypto/aead/xchacha20poly1305/key-v1''"

text \<open>The two arms of each \<open>match\<close> differ in the algorithm alone.\<close>

definition seal_symmetric_with_nonce ::
  "sealing \<Rightarrow> aead_algorithm \<Rightarrow> bytes \<Rightarrow> bytes \<Rightarrow> bytes \<Rightarrow> bytes \<Rightarrow> crypto_error + bytes" where
  "seal_symmetric_with_nonce c a key nonce plaintext aad =
     (if length nonce \<noteq> nonce_len a then Inl InvalidLength
      else case c_aead_seal c a (cipher_key32 c (aead_domain a) key) nonce plaintext aad of
             None \<Rightarrow> Inl DecryptionFailed
           | Some ct \<Rightarrow> Inr (aead_tag a # nonce @ ct))"

definition seal_symmetric_with ::
  "sealing \<Rightarrow> rng \<Rightarrow> nat \<Rightarrow> aead_algorithm \<Rightarrow> bytes \<Rightarrow> bytes \<Rightarrow> bytes \<Rightarrow> crypto_error + bytes" where
  "seal_symmetric_with c rng k a key plaintext aad =
     (let nonce = rng k (nonce_len a) in
      case c_aead_seal c a (cipher_key32 c (aead_domain a) key) nonce plaintext aad of
        None \<Rightarrow> Inl DecryptionFailed
      | Some ct \<Rightarrow> Inr (aead_tag a # nonce @ ct))"

definition seal_symmetric ::
  "sealing \<Rightarrow> rng \<Rightarrow> nat \<Rightarrow> bytes \<Rightarrow> bytes \<Rightarrow> bytes \<Rightarrow> crypto_error + bytes" where
  "seal_symmetric c rng k key plaintext aad = seal_symmetric_with c rng k aead_current_default key plaintext aad"

definition open_symmetric :: "sealing \<Rightarrow> bytes \<Rightarrow> bytes \<Rightarrow> bytes \<Rightarrow> crypto_error + bytes" where
  "open_symmetric c key ciphertext aad =
     (case ciphertext of
        [] \<Rightarrow> Inl DecryptionFailed
      | tag # rest \<Rightarrow>
          (case aead_from_tag tag of
             Inl e \<Rightarrow> Inl e
           | Inr a \<Rightarrow>
               if length rest < nonce_len a then Inl DecryptionFailed
               else case c_aead_open c a (cipher_key32 c (aead_domain a) key) (take (nonce_len a) rest)
                      (drop (nonce_len a) rest) aad of
                      None \<Rightarrow> Inl DecryptionFailed
                    | Some m \<Rightarrow> Inr m))"

section \<open>Envelopes\<close>

definition envelope_version :: surface_version where
  "envelope_version = 1"

definition min_envelope_version :: surface_version where
  "min_envelope_version = 1"

definition x25519_secret_bytes :: "sealing \<Rightarrow> bytes \<Rightarrow> bytes" where
  "x25519_secret_bytes c seed = c_sha c (as_bytes ''pillar-crypto/seal/x25519/seed-v1'' @ seed)"

definition sealing_keypair_from_seed :: "sealing \<Rightarrow> bytes \<Rightarrow> crypto_error + (bytes \<times> bytes)" where
  "sealing_keypair_from_seed c seed =
     (let secret = c_x_secret c (x25519_secret_bytes c seed) in Inr (c_x_public c secret, secret))"

definition x25519_shared_secret :: "sealing \<Rightarrow> bytes \<Rightarrow> bytes \<Rightarrow> crypto_error + bytes" where
  "x25519_shared_secret c secret peer_public =
     (if length secret \<noteq> 32 then Inl InvalidKey
      else if length peer_public \<noteq> 32 then Inl InvalidKey
      else Inr (c_x_dh c (c_x_secret c secret) peer_public))"

definition public_from_secret :: "sealing \<Rightarrow> bytes \<Rightarrow> crypto_error + bytes" where
  "public_from_secret c secret =
     (if length secret \<noteq> 32 then Inl InvalidKey else Inr (c_x_public c (c_x_secret c secret)))"

definition wrap_aad :: bytes where
  "wrap_aad = as_bytes ''pillar-crypto/seal/wrap-v1''"

definition payload_aad :: bytes where
  "payload_aad = as_bytes ''pillar-crypto/seal/payload-v1''"

definition wrap_key_for :: "sealing \<Rightarrow> rng \<Rightarrow> nat \<Rightarrow> bytes \<Rightarrow> bytes \<Rightarrow> bytes \<Rightarrow> crypto_error + bytes" where
  "wrap_key_for c rng k ephemeral_secret recipient_pub content_key =
     (let kek = c_x_dh c ephemeral_secret recipient_pub in
      case seal_symmetric c rng k kek content_key wrap_aad of
        Inl _ \<Rightarrow> Inl InvalidKey
      | Inr wrapped \<Rightarrow> Inr wrapped)"

definition u32_bytes :: "nat \<Rightarrow> crypto_error + bytes" where
  "u32_bytes n = (if int n < 2 ^ 32 then Inr (u32_to_be_bytes (of_nat n)) else Inl InvalidLength)"

text \<open>The loop over the recipients; \<open>k\<close> counts the draws before it.\<close>

fun wrap_recipients ::
  "sealing \<Rightarrow> rng \<Rightarrow> nat \<Rightarrow> bytes \<Rightarrow> bytes \<Rightarrow> bytes list \<Rightarrow> crypto_error + bytes" where
  "wrap_recipients c rng k ephemeral content_key [] = Inr []"
| "wrap_recipients c rng k ephemeral content_key (r # rs) =
     (if length r \<noteq> 32 then Inl InvalidKey
      else case wrap_key_for c rng k ephemeral r content_key of
        Inl e \<Rightarrow> Inl e
      | Inr wrapped \<Rightarrow>
          (case u32_bytes (length wrapped) of
             Inl e \<Rightarrow> Inl e
           | Inr len \<Rightarrow>
               (case wrap_recipients c rng (Suc k) ephemeral content_key rs of
                  Inl e \<Rightarrow> Inl e
                | Inr out \<Rightarrow> Inr (r @ len @ wrapped @ out))))"

definition seal_to_recipients ::
  "sealing \<Rightarrow> rng \<Rightarrow> bytes \<Rightarrow> bytes list \<Rightarrow> crypto_error + bytes" where
  "seal_to_recipients c rng plaintext recipients =
     (let content_key = rng 0 32;
          ephemeral = c_x_secret c (rng 1 32);
          ephemeral_pub = c_x_public c ephemeral
      in case u32_bytes (length recipients) of
           Inl e \<Rightarrow> Inl e
         | Inr n_be \<Rightarrow>
             (case wrap_recipients c rng 2 ephemeral content_key recipients of
                Inl e \<Rightarrow> Inl e
              | Inr wraps \<Rightarrow>
                  (case seal_symmetric c rng (2 + length recipients) content_key plaintext payload_aad of
                     Inl e \<Rightarrow> Inl e
                   | Inr payload \<Rightarrow>
                       (case u32_bytes (length payload) of
                          Inl e \<Rightarrow> Inl e
                        | Inr len \<Rightarrow>
                            Inr (surface_version_to_be_bytes envelope_version @ ephemeral_pub @ n_be
                              @ wraps @ len @ payload)))))"

text \<open>
  The reader's two closures. The position in the buffer is the buffer that is left: the sum of a
  position and a 32-bit length does not overflow a 64-bit index.
\<close>

definition take_bytes :: "bytes \<Rightarrow> nat \<Rightarrow> crypto_error + (bytes \<times> bytes)" where
  "take_bytes buf n = (if n > length buf then Inl InvalidLength else Inr (take n buf, drop n buf))"

definition take_u32 :: "bytes \<Rightarrow> crypto_error + (nat \<times> bytes)" where
  "take_u32 buf =
     (case take_bytes buf 4 of
        Inl e \<Rightarrow> Inl e
      | Inr (b, rest) \<Rightarrow> Inr (le_val (rev b), rest))"

text \<open>The loop over the wraps: every wrap is read, and the last that is addressed to the reader counts.\<close>

fun unwrap_loop ::
  "sealing \<Rightarrow> bytes \<Rightarrow> bytes \<Rightarrow> nat \<Rightarrow> bytes \<Rightarrow> bytes option \<Rightarrow> crypto_error + (bytes option \<times> bytes)" where
  "unwrap_loop c kek my_pub 0 buf content_key = Inr (content_key, buf)"
| "unwrap_loop c kek my_pub (Suc n) buf content_key =
     (case take_bytes buf 32 of
        Inl e \<Rightarrow> Inl e
      | Inr (rp, buf1) \<Rightarrow>
          (case take_u32 buf1 of
             Inl e \<Rightarrow> Inl e
           | Inr (wl, buf2) \<Rightarrow>
               (case take_bytes buf2 wl of
                  Inl e \<Rightarrow> Inl e
                | Inr (wrapped, buf3) \<Rightarrow>
                    if rp = my_pub then
                      (case open_symmetric c kek wrapped wrap_aad of
                         Inl _ \<Rightarrow> Inl NotARecipient
                       | Inr ck \<Rightarrow>
                           if length ck \<noteq> 32 then Inl InvalidKey
                           else unwrap_loop c kek my_pub n buf3 (Some ck))
                    else unwrap_loop c kek my_pub n buf3 content_key)))"

definition unseal_payload :: "sealing \<Rightarrow> bytes option \<Rightarrow> bytes \<Rightarrow> crypto_error + bytes" where
  "unseal_payload c content_key buf =
     (case content_key of
        None \<Rightarrow> Inl NotARecipient
      | Some ck \<Rightarrow>
          (case take_u32 buf of
             Inl e \<Rightarrow> Inl e
           | Inr (pl, buf1) \<Rightarrow>
               (case take_bytes buf1 pl of
                  Inl e \<Rightarrow> Inl e
                | Inr (payload, _) \<Rightarrow>
                    (case open_symmetric c ck payload payload_aad of
                       Inl _ \<Rightarrow> Inl DecryptionFailed
                     | Inr m \<Rightarrow> Inr m))))"

definition unseal :: "sealing \<Rightarrow> bytes \<Rightarrow> bytes \<Rightarrow> crypto_error + bytes" where
  "unseal c envelope secret =
     (case take_bytes envelope 2 of
        Inl e \<Rightarrow> Inl e
      | Inr (version, buf) \<Rightarrow>
     (case surface_version_from_be_bytes version of
        Inl _ \<Rightarrow> Inl InvalidLength
      | Inr v \<Rightarrow>
     (case check_supported v min_envelope_version envelope_version of
        Inl e \<Rightarrow> Inl (UnsupportedEnvelopeVersion e)
      | Inr _ \<Rightarrow>
     (case take_bytes buf 32 of
        Inl e \<Rightarrow> Inl e
      | Inr (ephemeral_pub, buf) \<Rightarrow>
          if length secret \<noteq> 32 then Inl InvalidKey
          else case public_from_secret c secret of
            Inl e \<Rightarrow> Inl e
          | Inr my_pub \<Rightarrow>
     (let kek = c_x_dh c (c_x_secret c secret) ephemeral_pub in
      case take_u32 buf of
        Inl e \<Rightarrow> Inl e
      | Inr (n, buf) \<Rightarrow>
     (case unwrap_loop c kek my_pub n buf None of
        Inl e \<Rightarrow> Inl e
      | Inr (content_key, buf) \<Rightarrow> unseal_payload c content_key buf))))))"

section \<open>Principals, nodes and cells\<close>

record principal_public =
  pp_signing :: bytes
  pp_sealing :: bytes

record principal_secret =
  ps_signing :: bytes
  ps_sealing :: bytes

definition principal_from_seed ::
  "sealing \<Rightarrow> bytes \<Rightarrow> crypto_error + (principal_public \<times> principal_secret)" where
  "principal_from_seed c seed =
     (case signing_keypair_from_seed (crypto.truncate c) seed of
        Inl e \<Rightarrow> Inl e
      | Inr (sign_pub, sign_sec) \<Rightarrow>
          (case sealing_keypair_from_seed c seed of
             Inl e \<Rightarrow> Inl e
           | Inr (seal_pub, seal_sec) \<Rightarrow>
               Inr (\<lparr>pp_signing = sign_pub, pp_sealing = seal_pub\<rparr>,
                    \<lparr>ps_signing = sign_sec, ps_sealing = seal_sec\<rparr>)))"

definition node_unlock :: "sealing \<Rightarrow> bytes \<Rightarrow> bytes \<Rightarrow> crypto_error + bytes" where
  "node_unlock c node_sealing_secret sealed = unseal c sealed node_sealing_secret"

type_synonym cell_group_key = bytes

definition group_key_from_seed :: "sealing \<Rightarrow> bytes \<Rightarrow> crypto_error + cell_group_key" where
  "group_key_from_seed c seed = Inr (c_sha c (as_bytes ''pillar-crypto/cell/group-key/seed-v1'' @ seed))"

definition cell_encrypt ::
  "sealing \<Rightarrow> rng \<Rightarrow> nat \<Rightarrow> cell_group_key \<Rightarrow> bytes \<Rightarrow> bytes \<Rightarrow> crypto_error + bytes" where
  "cell_encrypt c rng k grp plaintext aad = seal_symmetric c rng k grp plaintext aad"

definition cell_decrypt :: "sealing \<Rightarrow> cell_group_key \<Rightarrow> bytes \<Rightarrow> bytes \<Rightarrow> crypto_error + bytes" where
  "cell_decrypt c grp ciphertext aad = open_symmetric c grp ciphertext aad"

definition convergent_nonce ::
  "sealing \<Rightarrow> cell_group_key \<Rightarrow> bytes \<Rightarrow> bytes \<Rightarrow> aead_algorithm \<Rightarrow> crypto_error + bytes" where
  "convergent_nonce c grp plaintext domain a =
     (let ikm = content_address (c_sha c) plaintext;
          info = as_bytes ''pillar-wire/convergent-nonce/v1'' @ domain
      in case c_hkdf c grp ikm info (nonce_len a) of
           None \<Rightarrow> Inl InvalidLength
         | Some nonce \<Rightarrow> Inr nonce)"

definition cell_seal_convergent ::
  "sealing \<Rightarrow> cell_group_key \<Rightarrow> bytes \<Rightarrow> bytes \<Rightarrow> bytes \<Rightarrow> crypto_error + bytes" where
  "cell_seal_convergent c grp plaintext domain aad =
     (let a = aead_current_default in
      case convergent_nonce c grp plaintext domain a of
        Inl e \<Rightarrow> Inl e
      | Inr nonce \<Rightarrow> seal_symmetric_with_nonce c a grp nonce plaintext aad)"

definition cell_open_convergent :: "sealing \<Rightarrow> cell_group_key \<Rightarrow> bytes \<Rightarrow> bytes \<Rightarrow> crypto_error + bytes" where
  "cell_open_convergent c grp ciphertext aad = open_symmetric c grp ciphertext aad"

definition distribute_group_key :: "sealing \<Rightarrow> rng \<Rightarrow> cell_group_key \<Rightarrow> bytes list \<Rightarrow> crypto_error + bytes" where
  "distribute_group_key c rng grp recipients = seal_to_recipients c rng grp recipients"

definition recover_group_key :: "sealing \<Rightarrow> bytes \<Rightarrow> bytes \<Rightarrow> crypto_error + cell_group_key" where
  "recover_group_key c sealed recipient_secret =
     (case unseal c sealed recipient_secret of Inl e \<Rightarrow> Inl e | Inr key \<Rightarrow> Inr key)"

section \<open>Messages and certificates of a user\<close>

definition len_prefixed :: "bytes \<Rightarrow> bytes" where
  "len_prefixed bs = u32_to_be_bytes (of_nat (length bs)) @ bs"

definition subkey_cert_message :: "principal_public \<Rightarrow> bytes \<Rightarrow> bytes" where
  "subkey_cert_message subkey cell =
     as_bytes ''pillar-crypto/user/subkey-cert-v1'' @ len_prefixed (pp_signing subkey)
       @ len_prefixed (pp_sealing subkey) @ len_prefixed cell"

definition certify_subkey :: "sealing \<Rightarrow> bytes \<Rightarrow> principal_public \<Rightarrow> bytes \<Rightarrow> crypto_error + bytes" where
  "certify_subkey c master_secret subkey cell =
     crypto_sign (crypto.truncate c) master_secret (subkey_cert_message subkey cell)"

definition verify_subkey ::
  "sealing \<Rightarrow> bytes \<Rightarrow> principal_public \<Rightarrow> bytes \<Rightarrow> bytes \<Rightarrow> crypto_error + unit" where
  "verify_subkey c master_public subkey cell cert =
     crypto_verify (crypto.truncate c) master_public (subkey_cert_message subkey cell) cert"

record signed_cell_msg =
  cm_ciphertext :: bytes
  cm_signature :: bytes

record signed_direct_msg =
  dm_envelope :: bytes
  dm_signature :: bytes

definition cell_message_aad :: bytes where
  "cell_message_aad = as_bytes ''pillar-crypto/user/cell-message-v1''"

definition signed_cell_message ::
  "sealing \<Rightarrow> rng \<Rightarrow> bytes \<Rightarrow> cell_group_key \<Rightarrow> bytes \<Rightarrow> crypto_error + signed_cell_msg" where
  "signed_cell_message c rng sender_secret grp plaintext =
     (case crypto_sign (crypto.truncate c) sender_secret plaintext of
        Inl e \<Rightarrow> Inl e
      | Inr sig \<Rightarrow>
          (case cell_encrypt c rng 0 grp plaintext cell_message_aad of
             Inl e \<Rightarrow> Inl e
           | Inr ct \<Rightarrow> Inr \<lparr>cm_ciphertext = ct, cm_signature = sig\<rparr>))"

definition open_signed_cell_message ::
  "sealing \<Rightarrow> cell_group_key \<Rightarrow> bytes \<Rightarrow> signed_cell_msg \<Rightarrow> crypto_error + bytes" where
  "open_signed_cell_message c grp sender_public msg =
     (case cell_decrypt c grp (cm_ciphertext msg) cell_message_aad of
        Inl e \<Rightarrow> Inl e
      | Inr plaintext \<Rightarrow>
          (case crypto_verify (crypto.truncate c) sender_public plaintext (cm_signature msg) of
             Inl e \<Rightarrow> Inl e
           | Inr _ \<Rightarrow> Inr plaintext))"

definition seal_message_to_user ::
  "sealing \<Rightarrow> rng \<Rightarrow> bytes \<Rightarrow> principal_public \<Rightarrow> bytes \<Rightarrow> crypto_error + signed_direct_msg" where
  "seal_message_to_user c rng sender_secret recipient plaintext =
     (case crypto_sign (crypto.truncate c) sender_secret plaintext of
        Inl e \<Rightarrow> Inl e
      | Inr sig \<Rightarrow>
          (case seal_to_recipients c rng plaintext [pp_sealing recipient] of
             Inl e \<Rightarrow> Inl e
           | Inr env \<Rightarrow> Inr \<lparr>dm_envelope = env, dm_signature = sig\<rparr>))"

definition open_message_from_user ::
  "sealing \<Rightarrow> bytes \<Rightarrow> bytes \<Rightarrow> signed_direct_msg \<Rightarrow> crypto_error + bytes" where
  "open_message_from_user c recipient_secret sender_public msg =
     (case unseal c (dm_envelope msg) recipient_secret of
        Inl e \<Rightarrow> Inl e
      | Inr plaintext \<Rightarrow>
          (case crypto_verify (crypto.truncate c) sender_public plaintext (dm_signature msg) of
             Inl e \<Rightarrow> Inl e
           | Inr _ \<Rightarrow> Inr plaintext))"

section \<open>What the primitives promise\<close>

definition sealing_ok :: "sealing \<Rightarrow> bool" where
  "sealing_ok c \<longleftrightarrow>
     ed25519_ok (crypto.truncate c)
     \<and> (\<forall>a k n m aad. length k = 32 \<longrightarrow> length n = nonce_len a \<longrightarrow> length m < 2 ^ 32 \<longrightarrow>
          (\<exists>ct. c_aead_seal c a k n m aad = Some ct \<and> length ct = length m + 16
             \<and> c_aead_open c a k n ct aad = Some m))
     \<and> (\<forall>s. length s = 32 \<longrightarrow> length (c_x_secret c s) = 32 \<and> c_x_secret c (c_x_secret c s) = c_x_secret c s
          \<and> length (c_x_public c (c_x_secret c s)) = 32)
     \<and> (\<forall>s t. length s = 32 \<longrightarrow> length t = 32 \<longrightarrow>
          c_x_dh c (c_x_secret c s) (c_x_public c (c_x_secret c t))
            = c_x_dh c (c_x_secret c t) (c_x_public c (c_x_secret c s)))"

lemma sealing_okD:
  assumes "sealing_ok c"
  shows "ed25519_ok (crypto.truncate c)" "length (c_sha c m) = 32"
    and "length s = 32 \<Longrightarrow> length (c_x_secret c s) = 32"
    and "length s = 32 \<Longrightarrow> c_x_secret c (c_x_secret c s) = c_x_secret c s"
    and "length s = 32 \<Longrightarrow> length (c_x_public c (c_x_secret c s)) = 32"
    and "length s = 32 \<Longrightarrow> length t = 32 \<Longrightarrow>
      c_x_dh c (c_x_secret c s) (c_x_public c (c_x_secret c t))
        = c_x_dh c (c_x_secret c t) (c_x_public c (c_x_secret c s))"
  using assms by (auto simp: sealing_ok_def ed25519_ok_def crypto.truncate_def)

lemma aead_ok:
  assumes "sealing_ok c" "length k = 32" "length n = nonce_len a" "length m < 2 ^ 32"
  obtains ct where "c_aead_seal c a k n m aad = Some ct" "length ct = length m + 16"
    "c_aead_open c a k n ct aad = Some m"
  using assms unfolding sealing_ok_def by blast

lemma aead_from_tag [simp]: "aead_from_tag (aead_tag a) = Inr a"
  by (cases a) (simp_all add: aead_from_tag_def)

lemma seal_symmetric_with_nonce_opens:
  assumes "sealing_ok c" "length n = nonce_len a" "length m < 2 ^ 32"
  shows "\<exists>ct. seal_symmetric_with_nonce c a key n m aad = Inr ct
    \<and> length ct = length m + 17 + nonce_len a \<and> open_symmetric c key ct aad = Inr m"
proof -
  have "length (cipher_key32 c (aead_domain a) key) = 32"
    using sealing_okD(2) [OF assms(1)] by (simp add: cipher_key32_def)
  from aead_ok [OF assms(1) this assms(2,3)]
  obtain ct where "c_aead_seal c a (cipher_key32 c (aead_domain a) key) n m aad = Some ct"
    "length ct = length m + 16" "c_aead_open c a (cipher_key32 c (aead_domain a) key) n ct aad = Some m" .
  then show ?thesis
    using assms(2) by (simp add: seal_symmetric_with_nonce_def open_symmetric_def)
qed

lemma seal_symmetric_with_rng:
  assumes "rng_ok rng"
  shows "seal_symmetric_with c rng k a key m aad =
    seal_symmetric_with_nonce c a key (rng k (nonce_len a)) m aad"
  using assms by (simp add: seal_symmetric_with_def seal_symmetric_with_nonce_def rng_ok_def Let_def)

lemma seal_symmetric_opens:
  assumes "sealing_ok c" "rng_ok rng" "length m < 2 ^ 32"
  obtains ct where "seal_symmetric c rng k key m aad = Inr ct" "length ct = length m + 41"
    "open_symmetric c key ct aad = Inr m"
proof -
  have "length (rng k (nonce_len aead_current_default)) = nonce_len aead_current_default"
    using assms(2) by (simp add: rng_ok_def)
  from seal_symmetric_with_nonce_opens [OF assms(1) this assms(3), of key aad] show ?thesis
    using that by (auto simp: seal_symmetric_def seal_symmetric_with_rng [OF assms(2)] aead_current_default_def)
qed

section \<open>Reading what was written\<close>

lemma take_bytes_append [simp]: "length xs = n \<Longrightarrow> take_bytes (xs @ ys) n = Inr (xs, ys)"
  by (simp add: take_bytes_def)

lemma take_u32_append [simp]:
  "n < 2 ^ 32 \<Longrightarrow> take_u32 (u32_to_be_bytes (of_nat n) @ ys) = Inr (n, ys)"
  by (simp add: take_u32_def u32_to_be_bytes_def le_val_le_bytes unsigned_of_nat take_bit_nat_eq_self)

lemma u32_bytes_Inr: "n < 2 ^ 32 \<Longrightarrow> u32_bytes n = Inr (u32_to_be_bytes (of_nat n))"
  by (simp add: u32_bytes_def)

lemma wrap_recipients_reads:
  assumes ok: "sealing_ok c" "rng_ok rng" and ck: "length ck = 32"
    and rs: "\<And>r. r \<in> set rs \<Longrightarrow> length r = 32"
  shows "\<exists>out. wrap_recipients c rng k eph ck rs = Inr out
    \<and> (\<forall>kek my_pub acc rest. (my_pub \<in> set rs \<longrightarrow> kek = c_x_dh c eph my_pub) \<longrightarrow>
        unwrap_loop c kek my_pub (length rs) (out @ rest) acc
          = Inr (if my_pub \<in> set rs then Some ck else acc, rest))"
  using rs
proof (induction rs arbitrary: k)
  case (Cons r rs)
  obtain w where w: "seal_symmetric c rng k (c_x_dh c eph r) ck wrap_aad = Inr w" "length w = 73"
    "open_symmetric c (c_x_dh c eph r) w wrap_aad = Inr ck"
    using seal_symmetric_opens [OF ok, of ck k "c_x_dh c eph r" wrap_aad] ck by auto
  obtain out where out: "wrap_recipients c rng (Suc k) eph ck rs = Inr out"
    and reads: "\<And>kek my_pub acc rest. (my_pub \<in> set rs \<longrightarrow> kek = c_x_dh c eph my_pub) \<Longrightarrow>
      unwrap_loop c kek my_pub (length rs) (out @ rest) acc
        = Inr (if my_pub \<in> set rs then Some ck else acc, rest)"
    using Cons by (metis list.set_intros(2))
  have len: "length r = 32" using Cons.prems by simp
  have written: "wrap_recipients c rng k eph ck (r # rs) = Inr (r @ u32_to_be_bytes (of_nat 73) @ w @ out)"
    using w out len by (simp add: wrap_key_for_def u32_bytes_Inr)
  show ?case
  proof (intro exI conjI allI impI)
    show "wrap_recipients c rng k eph ck (r # rs) = Inr (r @ u32_to_be_bytes (of_nat 73) @ w @ out)"
      by (rule written)
    fix kek my_pub acc rest
    assume kek: "my_pub \<in> set (r # rs) \<longrightarrow> kek = c_x_dh c eph my_pub"
    have u32: "take_u32 (u32_to_be_bytes (of_nat 73) @ w @ out @ rest) = Inr (73, w @ out @ rest)"
      by (rule take_u32_append) simp
    show "unwrap_loop c kek my_pub (length (r # rs)) ((r @ u32_to_be_bytes (of_nat 73) @ w @ out) @ rest) acc
        = Inr (if my_pub \<in> set (r # rs) then Some ck else acc, rest)"
      using len w kek reads [of my_pub kek] ck u32 by auto
  qed
qed simp

section \<open>Envelopes open for their recipients alone\<close>

text \<open>The recipient's public key, as the reader recomputes it.\<close>

abbreviation sealing_public :: "sealing \<Rightarrow> bytes \<Rightarrow> bytes" where
  "sealing_public c secret \<equiv> c_x_public c (c_x_secret c secret)"

lemma seal_opens:
  assumes ok: "sealing_ok c" "rng_ok rng"
    and rs: "\<And>r. r \<in> set recipients \<Longrightarrow> length r = 32" "length recipients < 2 ^ 32"
    and m: "length m + 41 < 2 ^ 32"
  shows "\<exists>env. seal_to_recipients c rng m recipients = Inr env
    \<and> (\<forall>secret. length secret = 32 \<longrightarrow>
        unseal c env secret = (if sealing_public c secret \<in> set recipients then Inr m else Inl NotARecipient))"
proof -
  let ?ck = "rng 0 32" and ?eph = "c_x_secret c (rng 1 32)"
  have len: "length ?ck = 32" "length (rng 1 32) = 32" using ok(2) by (simp_all add: rng_ok_def)
  have eph: "length (c_x_public c ?eph) = 32" using sealing_okD(5) [OF ok(1) len(2)] .
  obtain wraps where wraps: "wrap_recipients c rng 2 ?eph ?ck recipients = Inr wraps"
    and reads: "\<And>kek my_pub acc rest. (my_pub \<in> set recipients \<longrightarrow> kek = c_x_dh c ?eph my_pub) \<Longrightarrow>
      unwrap_loop c kek my_pub (length recipients) (wraps @ rest) acc
        = Inr (if my_pub \<in> set recipients then Some ?ck else acc, rest)"
    using wrap_recipients_reads [OF ok len(1) rs(1), of recipients 2 ?eph] by blast
  obtain p where p: "seal_symmetric c rng (2 + length recipients) ?ck m payload_aad = Inr p"
    "length p = length m + 41" "open_symmetric c ?ck p payload_aad = Inr m"
    by (rule seal_symmetric_opens [OF ok, of m "2 + length recipients" ?ck payload_aad]) (use m in auto)
  let ?tail = "u32_to_be_bytes (of_nat (length p)) @ p"
  let ?env = "surface_version_to_be_bytes envelope_version @ c_x_public c ?eph
      @ u32_to_be_bytes (of_nat (length recipients)) @ wraps @ ?tail"
  have sealed: "seal_to_recipients c rng m recipients = Inr ?env"
    using wraps p m rs(2) by (simp add: seal_to_recipients_def u32_bytes_Inr Let_def)
  have "unseal c ?env secret = (if sealing_public c secret \<in> set recipients then Inr m else Inl NotARecipient)"
    if sec: "length secret = 32" for secret
  proof -
    have kek: "c_x_dh c (c_x_secret c secret) (c_x_public c ?eph) = c_x_dh c ?eph (sealing_public c secret)"
      using sealing_okD(6) [OF ok(1) sec len(2)] .
    have version: "take_bytes ?env 2 = Inr (surface_version_to_be_bytes envelope_version, drop 2 ?env)"
      by (simp add: take_bytes_def surface_version_to_be_bytes_def)
    have supported: "surface_version_from_be_bytes (surface_version_to_be_bytes envelope_version) = Inr envelope_version"
      "check_supported envelope_version min_envelope_version envelope_version = Inr ()"
      using surface_version_roundtrip [of envelope_version "[]"]
      by (simp_all add: min_envelope_version_def envelope_version_def)
    have rest: "drop 2 ?env = c_x_public c ?eph @ u32_to_be_bytes (of_nat (length recipients)) @ wraps @ ?tail"
      by (simp add: surface_version_to_be_bytes_def)
    have "take_u32 ?tail = Inr (length p, p)" by (rule take_u32_append) (use p m in simp)
    then have payload: "unseal_payload c (Some ?ck) ?tail = Inr m"
      using p(3) take_bytes_append [of p "length p" "[]"] by (simp add: unseal_payload_def)
    show ?thesis
      unfolding unseal_def version sum.case prod.case supported rest
      using sec eph rs(2) kek payload
      by (simp add: public_from_secret_def Let_def reads unseal_payload_def split: if_splits)
  qed
  then show ?thesis using sealed by blast
qed

section \<open>Properties\<close>

text \<open>Primitives for the witnesses: a tag that shows the key, a key agreement by addition.\<close>

definition demo_sealing :: sealing where
  "demo_sealing = crypto.extend demo_crypto
     \<lparr>c_aead_seal = (\<lambda>a k n m aad. Some (m @ take 16 k)),
      c_aead_open = (\<lambda>a k n ct aad.
        if 16 \<le> length ct \<and> drop (length ct - 16) ct = take 16 k then Some (take (length ct - 16) ct) else None),
      c_x_secret = (\<lambda>s. s), c_x_public = (\<lambda>s. s), c_x_dh = (\<lambda>s p. map2 (+) s p),
      c_hkdf = (\<lambda>salt ikm info n. Some (replicate n 0))\<rparr>"

lemma sealing_ok_demo: "sealing_ok demo_sealing"
proof -
  have "map2 (+) s t = map2 (+) t (s :: bytes)" for s t
    by (rule nth_equalityI) (auto simp: add.commute)
  then show ?thesis
    using ed25519_ok_demo
    by (simp add: sealing_ok_def demo_sealing_def crypto.truncate_def crypto.extend_def ed25519_ok_def
        demo_crypto_def)
qed

lemma rng_ok_zero: "rng_ok (\<lambda>k n. replicate n 0)"
  by (simp add: rng_ok_def)

lemma crypto_verify_cases: "crypto_verify c pk m sig = Inr () \<or> crypto_verify c pk m sig = Inl VerificationFailed"
  by (simp add: crypto_verify_def)

text \<open>A principal's sealing secret belongs to his public key.\<close>

lemma principal_sealing:
  assumes "sealing_ok c" "principal_from_seed c seed = Inr (pub, sec)"
  shows "length (ps_sealing sec) = 32" "sealing_public c (ps_sealing sec) = pp_sealing pub" "length (pp_sealing pub) = 32"
proof -
  have sha: "length (x25519_secret_bytes c seed) = 32"
    using sealing_okD(2) [OF assms(1)] by (simp add: x25519_secret_bytes_def)
  let ?s = "c_x_secret c (x25519_secret_bytes c seed)"
  have key: "length ?s = 32" "sealing_public c ?s = c_x_public c ?s" "length (c_x_public c ?s) = 32"
    using sealing_okD [OF assms(1)] sha by simp_all
  have "pp_sealing pub = c_x_public c ?s" "ps_sealing sec = ?s"
    using assms(2) by (auto simp: principal_from_seed_def sealing_keypair_from_seed_def Let_def split: sum.splits)
  then show "length (ps_sealing sec) = 32" "sealing_public c (ps_sealing sec) = pp_sealing pub" "length (pp_sealing pub) = 32"
    using key by simp_all
qed

text \<open>
  \<^bold>\<open>C23.\<close> An envelope opens for its recipients and for nobody else: sealing to public keys of
  the right width succeeds; every secret whose public key is among them opens the envelope to the
  exact plaintext, and every other secret of the right width is told it is not a recipient. The
  same holds of a group key distributed to members: a member recovers exactly the key, anyone else
  is refused. A direct message to a principal opens to its plaintext for him under the sender's
  key; with any secret, any key of a sender and any signature put in place of the sender's, it
  opens exactly if the secret is the principal's and the signature verifies for the plaintext under
  that key, and is refused as not for the recipient, or else as not verified, otherwise.
\<close>

theorem sealed_to_recipients_exactly:
  assumes "sealing_ok c" "rng_ok rng" "list_all (\<lambda>r. length r = 32) recipients"
    and "length recipients < 2 ^ 32" "length m + 41 < 2 ^ 32" "length secret = 32"
    and "principal_from_seed c seed = Inr (pub, sec)"
    and "signing_keypair_from_seed (crypto.truncate c) seed' = Inr (sender_pub, sender_sec)"
  shows "(\<exists>env. seal_to_recipients c rng m recipients = Inr env
      \<and> unseal c env secret = (if sealing_public c secret \<in> set recipients then Inr m else Inl NotARecipient))
    \<and> (\<exists>env. distribute_group_key c rng m recipients = Inr env
      \<and> recover_group_key c env secret = (if sealing_public c secret \<in> set recipients then Inr m else Inl NotARecipient))
    \<and> (\<exists>msg. seal_message_to_user c rng sender_sec pub m = Inr msg
      \<and> open_message_from_user c (ps_sealing sec) sender_pub msg = Inr m
      \<and> (\<forall>pk sig. open_message_from_user c secret pk (msg\<lparr>dm_signature := sig\<rparr>) =
          (if sealing_public c secret \<noteq> pp_sealing pub then Inl NotARecipient
           else if crypto_verify (crypto.truncate c) pk m sig = Inr () then Inr m
           else Inl VerificationFailed)))"
proof (intro conjI)
  have rs: "length r = 32" if "r \<in> set recipients" for r using assms(3) that by (simp add: list_all_iff)
  obtain env where env: "seal_to_recipients c rng m recipients = Inr env"
    "unseal c env secret = (if sealing_public c secret \<in> set recipients then Inr m else Inl NotARecipient)"
    using seal_opens [OF assms(1,2) rs assms(4,5)] assms(6) by blast
  then show "\<exists>env. seal_to_recipients c rng m recipients = Inr env
      \<and> unseal c env secret = (if sealing_public c secret \<in> set recipients then Inr m else Inl NotARecipient)"
    by blast
  show "\<exists>env. distribute_group_key c rng m recipients = Inr env
      \<and> recover_group_key c env secret = (if sealing_public c secret \<in> set recipients then Inr m else Inl NotARecipient)"
    using env by (auto simp: distribute_group_key_def recover_group_key_def)
  note key = principal_sealing [OF assms(1,7)]
  obtain denv where denv: "seal_to_recipients c rng m [pp_sealing pub] = Inr denv"
    "\<And>s. length s = 32 \<Longrightarrow> unseal c denv s = (if sealing_public c s = pp_sealing pub then Inr m else Inl NotARecipient)"
    using seal_opens [OF assms(1,2) _ _ assms(5), of "[pp_sealing pub]"] key(3) by auto
  obtain sig where sig: "crypto_sign (crypto.truncate c) sender_sec m = Inr sig"
    "crypto_verify (crypto.truncate c) sender_pub m sig = Inr ()"
    using sign_verifies [OF sealing_okD(1) [OF assms(1)] assms(8)] by blast
  have "open_message_from_user c secret pk \<lparr>dm_envelope = denv, dm_signature = s\<rparr> =
      (if sealing_public c secret \<noteq> pp_sealing pub then Inl NotARecipient
       else if crypto_verify (crypto.truncate c) pk m s = Inr () then Inr m else Inl VerificationFailed)" for pk s
    using denv(2) [OF assms(6)] crypto_verify_cases [of "crypto.truncate c" pk m s]
    by (auto simp: open_message_from_user_def)
  moreover have "open_message_from_user c (ps_sealing sec) sender_pub \<lparr>dm_envelope = denv, dm_signature = sig\<rparr> = Inr m"
    using denv(2) [OF key(1)] key(2) sig(2) by (simp add: open_message_from_user_def)
  moreover have "seal_message_to_user c rng sender_sec pub m = Inr \<lparr>dm_envelope = denv, dm_signature = sig\<rparr>"
    using denv(1) sig(1) by (simp add: seal_message_to_user_def)
  ultimately show "\<exists>msg. seal_message_to_user c rng sender_sec pub m = Inr msg
      \<and> open_message_from_user c (ps_sealing sec) sender_pub msg = Inr m
      \<and> (\<forall>pk sig. open_message_from_user c secret pk (msg\<lparr>dm_signature := sig\<rparr>) =
          (if sealing_public c secret \<noteq> pp_sealing pub then Inl NotARecipient
           else if crypto_verify (crypto.truncate c) pk m sig = Inr () then Inr m
           else Inl VerificationFailed))"
    by simp
qed

theorem sealed_to_recipients_exactly_witness:
  "(\<exists>env. distribute_group_key demo_sealing (\<lambda>k n. replicate n 0) [7, 8] [replicate 32 1] = Inr env
     \<and> recover_group_key demo_sealing env (replicate 32 1) = Inr [7, 8])
   \<and> (\<exists>env. distribute_group_key demo_sealing (\<lambda>k n. replicate n 0) [7, 8] [replicate 32 1] = Inr env
     \<and> recover_group_key demo_sealing env (replicate 32 2) = Inl NotARecipient)"
proof -
  obtain pub sec where p: "principal_from_seed demo_sealing [] = Inr (pub, sec)"
    by (simp add: principal_from_seed_def signing_keypair_from_seed_def sealing_keypair_from_seed_def Let_def)
  obtain spub ssec where s: "signing_keypair_from_seed (crypto.truncate demo_sealing) [] = Inr (spub, ssec)"
    by (simp add: signing_keypair_from_seed_def Let_def)
  have key: "sealing_public demo_sealing k = k" for k
    by (simp add: demo_sealing_def crypto.extend_def)
  note C = sealed_to_recipients_exactly [OF sealing_ok_demo rng_ok_zero _ _ _ _ p s, of "[replicate 32 1]" "[7, 8]"]
  show ?thesis using C [of "replicate 32 1"] C [of "replicate 32 2"] by (simp add: key)
qed

text \<open>
  A ciphertext is opened by the algorithm it names and an envelope by the version
  it states: what either algorithm sealed opens to its message whatever the default is; an empty
  ciphertext and one with a tag that names no algorithm are refused, the latter by its tag; an
  envelope of another version is refused with that version before a key is looked at, and one too
  short for its header as malformed.
\<close>

theorem self_describing:
  assumes "sealing_ok c" "rng_ok rng" "length m < 2 ^ 32" "tag \<noteq> 1" "tag \<noteq> 2" "v \<noteq> envelope_version"
  shows "(\<exists>ct. seal_symmetric_with c rng k a key m aad = Inr ct \<and> open_symmetric c key ct aad = Inr m)
    \<and> open_symmetric c key [] aad = Inl DecryptionFailed
    \<and> open_symmetric c key (tag # rest) aad = Inl (UnsupportedAlgorithm tag)
    \<and> unseal c (surface_version_to_be_bytes v @ buf) secret
        = Inl (UnsupportedEnvelopeVersion (Unsupported v min_envelope_version envelope_version))
    \<and> unseal c [b] secret = Inl InvalidLength"
proof (intro conjI)
  have "length (rng k (nonce_len a)) = nonce_len a" using assms(2) by (simp add: rng_ok_def)
  then show "\<exists>ct. seal_symmetric_with c rng k a key m aad = Inr ct \<and> open_symmetric c key ct aad = Inr m"
    using seal_symmetric_with_nonce_opens [OF assms(1) _ assms(3)] seal_symmetric_with_rng [OF assms(2)]
    by metis
  show "open_symmetric c key [] aad = Inl DecryptionFailed" by (simp add: open_symmetric_def)
  show "open_symmetric c key (tag # rest) aad = Inl (UnsupportedAlgorithm tag)"
    using assms(4,5) by (simp add: open_symmetric_def aead_from_tag_def)
  have "v < 1 \<or> v > 1" using assms(6) by (auto simp: envelope_version_def neq_iff)
  then show "unseal c (surface_version_to_be_bytes v @ buf) secret
      = Inl (UnsupportedEnvelopeVersion (Unsupported v min_envelope_version envelope_version))"
    using surface_version_roundtrip [of v "[]"]
    by (auto simp: unseal_def take_bytes_append surface_version_to_be_bytes_def check_supported_def
        min_envelope_version_def envelope_version_def)
  show "unseal c [b] secret = Inl InvalidLength" by (simp add: unseal_def take_bytes_def)
qed

theorem self_describing_witness:
  "open_symmetric demo_sealing [] [9, 1] [] = Inl (UnsupportedAlgorithm 9)"
  using self_describing [OF sealing_ok_demo rng_ok_zero, of "[]" 9 2] by (simp add: envelope_version_def)

section \<open>Certificates, cell messages and convergent seals\<close>

lemma len_prefixed_inject:
  assumes "length xs < 2 ^ 32" "length ys < 2 ^ 32" "len_prefixed xs @ us = len_prefixed ys @ vs"
  shows "xs = ys \<and> us = vs"
proof -
  have "take_u32 (len_prefixed xs @ us) = Inr (length xs, xs @ us)"
    "take_u32 (len_prefixed ys @ vs) = Inr (length ys, ys @ vs)"
    using assms(1,2) by (simp_all add: len_prefixed_def)
  then have "length xs = length ys" "xs @ us = ys @ vs" using assms(3) by simp_all
  then show ?thesis by simp
qed

text \<open>A certificate binds the subkey and the cell: no two of them are signed as the same bytes.\<close>

lemma subkey_cert_message_inject:
  assumes "subkey_cert_message k a = subkey_cert_message l b"
    and "\<And>xs. xs \<in> {pp_signing k, pp_sealing k, a, pp_signing l, pp_sealing l, b} \<Longrightarrow> length xs < 2 ^ 32"
  shows "k = l \<and> a = b"
proof -
  have eq: "len_prefixed (pp_signing k) @ len_prefixed (pp_sealing k) @ len_prefixed a
      = len_prefixed (pp_signing l) @ len_prefixed (pp_sealing l) @ len_prefixed b"
    using assms(1) by (simp add: subkey_cert_message_def)
  have "pp_signing k = pp_signing l"
    and eq2: "len_prefixed (pp_sealing k) @ len_prefixed a = len_prefixed (pp_sealing l) @ len_prefixed b"
    using len_prefixed_inject [OF _ _ eq] assms(2) by simp_all
  moreover have "pp_sealing k = pp_sealing l" and eq3: "len_prefixed a @ [] = len_prefixed b @ []"
    using len_prefixed_inject [OF _ _ eq2] assms(2) by simp_all
  moreover have "a = b" using len_prefixed_inject [OF _ _ eq3] assms(2) by simp
  ultimately show ?thesis by simp
qed

lemma certificate_verifies:
  assumes "sealing_ok c" "signing_keypair_from_seed (crypto.truncate c) seed = Inr (master_pub, master_sec)"
  shows "\<exists>cert. certify_subkey c master_sec subkey cell = Inr cert
    \<and> verify_subkey c master_pub subkey cell cert = Inr ()"
  using sign_verifies [OF sealing_okD(1) [OF assms(1)] assms(2)]
  by (simp add: certify_subkey_def verify_subkey_def)

lemma cell_message_opens:
  assumes "sealing_ok c" "rng_ok rng" "length m < 2 ^ 32"
    and "signing_keypair_from_seed (crypto.truncate c) seed = Inr (sender_pub, sender_sec)"
  shows "\<exists>msg. signed_cell_message c rng sender_sec grp m = Inr msg
    \<and> open_signed_cell_message c grp sender_pub msg = Inr m"
proof -
  obtain sig where "crypto_sign (crypto.truncate c) sender_sec m = Inr sig"
    "crypto_verify (crypto.truncate c) sender_pub m sig = Inr ()"
    using sign_verifies [OF sealing_okD(1) [OF assms(1)] assms(4)] by blast
  moreover obtain ct where "seal_symmetric c rng 0 grp m cell_message_aad = Inr ct"
    "open_symmetric c grp ct cell_message_aad = Inr m"
    by (rule seal_symmetric_opens [OF assms(1-3)])
  ultimately show ?thesis
    by (simp add: signed_cell_message_def open_signed_cell_message_def cell_encrypt_def cell_decrypt_def)
qed

text \<open>A convergent seal draws no randomness, and opens like any other ciphertext of the cell.\<close>

lemma convergent_seal_opens:
  assumes "sealing_ok c" "length m < 2 ^ 32"
    and "c_hkdf c grp (content_address (c_sha c) m) (as_bytes ''pillar-wire/convergent-nonce/v1'' @ domain) 24
      = Some nonce" "length nonce = 24"
  shows "\<exists>ct. cell_seal_convergent c grp m domain aad = Inr ct
    \<and> cell_open_convergent c grp ct aad = Inr m \<and> cell_decrypt c grp ct aad = Inr m"
  using seal_symmetric_with_nonce_opens [OF assms(1) _ assms(2), of nonce XChaCha20Poly1305V1 grp aad] assms(3,4)
  by (auto simp: cell_seal_convergent_def convergent_nonce_def aead_current_default_def
      cell_open_convergent_def cell_decrypt_def)

end
