(* ===== verification/KeyEscrow.thy ===== *)
theory KeyEscrow
  imports KeyDistribution Recovery Crypto_Seal
begin

text \<open>
  The cryptographic half of \<^verbatim>\<open>crates/pillar-key-distribution/src/lib.rs\<close>: artifacts
  sealed to nodes, blobs sealed to the target set the ledger computes, and the escrow of
  operational keys under a password and a step-up token; with the error texts of
  \<^verbatim>\<open>crates/pillar-crypto/src/error.rs\<close> that the crate's errors carry, and
  \<^verbatim>\<open>kdf.rs\<close>. The password hash of crate \<open>argon2\<close> is the argument \<open>argon\<close>.
\<close>

section \<open>Sealed artifacts\<close>

fun custody_kind_debug :: "custody_kind \<Rightarrow> string" where
  "custody_kind_debug Unencrypted = ''Unencrypted''"
| "custody_kind_debug Password = ''Password''"
| "custody_kind_debug Tpm = ''Tpm''"
| "custody_kind_debug Passkey = ''Passkey''"
| "custody_kind_debug Pkcs11 = ''Pkcs11''"

definition surface_version_display :: "surface_version \<Rightarrow> string" where
  "surface_version_display v = ''v'' @ dec_string (unat v)"

fun version_error_display :: "version_error \<Rightarrow> string" where
  "version_error_display Malformed = ''malformed surface value (parse error)''"
| "version_error_display (Unsupported found mn mx) =
     ''unsupported surface version '' @ surface_version_display found @ '' (this build supports ''
       @ surface_version_display mn @ ''..='' @ surface_version_display mx @ '')''"

fun crypto_error_display :: "crypto_error \<Rightarrow> string" where
  "crypto_error_display (NotImplemented oper) = ''cryptographic operation not implemented: '' @ oper"
| "crypto_error_display InvalidKey = ''invalid key material''"
| "crypto_error_display InvalidLength = ''invalid input length''"
| "crypto_error_display VerificationFailed = ''signature verification failed''"
| "crypto_error_display DecryptionFailed = ''decryption failed''"
| "crypto_error_display NotARecipient = ''secret key is not a recipient of this envelope''"
| "crypto_error_display (UnsupportedCustody k) = ''unsupported custody backend: '' @ custody_kind_debug k"
| "crypto_error_display (Backend msg) = ''custody/hardware backend error: '' @ msg"
| "crypto_error_display (UnsupportedAlgorithm tag) =
     ''unsupported sealed-artifact algorithm tag: '' @ dec_string (unat tag)"
| "crypto_error_display (UnsupportedEnvelopeVersion e) =
     ''unsupported sealed-envelope version: '' @ version_error_display e"

record node_sealing_key =
  nk_node :: node_id
  nk_public :: bytes
  nk_secret :: bytes

definition node_sealing_key_from_seed :: "sealing \<Rightarrow> node_id \<Rightarrow> bytes \<Rightarrow> kd_error + node_sealing_key" where
  "node_sealing_key_from_seed c node seed =
     (case sealing_keypair_from_seed c seed of
        Inl e \<Rightarrow> Inl (KdCrypto (crypto_error_display e))
      | Inr (pub, sec) \<Rightarrow> Inr \<lparr>nk_node = node, nk_public = pub, nk_secret = sec\<rparr>)"

record sealed_artifact =
  sa_digest :: blob_digest
  sa_envelope :: bytes
  sa_sealed_to :: "node_id btree_set"

definition artifact_seal :: "sealing \<Rightarrow> rng \<Rightarrow> bytes \<Rightarrow> node_sealing_key list \<Rightarrow> kd_error + sealed_artifact" where
  "artifact_seal c rng plaintext recipients =
     (case seal_to_recipients c rng plaintext (map nk_public recipients) of
        Inl e \<Rightarrow> Inl (KdCrypto (crypto_error_display e))
      | Inr env \<Rightarrow>
          Inr \<lparr>sa_digest = digest_of (c_sha c) env, sa_envelope = env,
               sa_sealed_to = bset_collect (map nk_node recipients)\<rparr>)"

definition artifact_is_sealed_to :: "sealed_artifact \<Rightarrow> node_id \<Rightarrow> bool" where
  "artifact_is_sealed_to a node = bset_contains (sa_sealed_to a) node"

definition artifact_unseal :: "sealing \<Rightarrow> sealed_artifact \<Rightarrow> node_sealing_key \<Rightarrow> kd_error + bytes" where
  "artifact_unseal c a key =
     (case unseal c (sa_envelope a) (nk_secret key) of
        Inr m \<Rightarrow> Inr m
      | Inl e \<Rightarrow> if e = NotARecipient then Inl KdNotARecipient else Inl (KdCrypto (crypto_error_display e)))"

text \<open>The registry of public keys and the blob sealed to a target set.\<close>

type_synonym node_sealing_keys = "(node_id, bytes) btree_map"

definition sealing_keys_register :: "node_id \<Rightarrow> bytes \<Rightarrow> node_sealing_keys \<Rightarrow> node_sealing_keys" where
  "sealing_keys_register node key ks = btree_insert node key ks"

datatype crypto_seal_error = UnknownRecipientKey node_id | SealCrypto crypto_error

fun collect_recipients :: "node_sealing_keys \<Rightarrow> node_id list \<Rightarrow> crypto_seal_error + bytes list" where
  "collect_recipients ks [] = Inr []"
| "collect_recipients ks (n # ns) =
     (case btree_get ks n of
        None \<Rightarrow> Inl (UnknownRecipientKey n)
      | Some key \<Rightarrow>
          (case collect_recipients ks ns of Inl e \<Rightarrow> Inl e | Inr rs \<Rightarrow> Inr (key # rs)))"

record sealed_blob =
  sealed_envelope :: bytes
  sealed_digest :: blob_digest

definition sealed_blob_seal ::
  "sealing \<Rightarrow> rng \<Rightarrow> bytes \<Rightarrow> node_id list \<Rightarrow> node_sealing_keys \<Rightarrow> crypto_seal_error + sealed_blob" where
  "sealed_blob_seal c rng plaintext target ks =
     (case collect_recipients ks target of
        Inl e \<Rightarrow> Inl e
      | Inr recipients \<Rightarrow>
          (case seal_to_recipients c rng plaintext recipients of
             Inl e \<Rightarrow> Inl (SealCrypto e)
           | Inr env \<Rightarrow> Inr \<lparr>sealed_envelope = env, sealed_digest = digest_of (c_sha c) env\<rparr>))"

definition sealed_blob_recover :: "sealing \<Rightarrow> sealed_blob \<Rightarrow> bytes \<Rightarrow> crypto_seal_error + bytes" where
  "sealed_blob_recover c b secret =
     (case unseal c (sealed_envelope b) secret of Inl e \<Rightarrow> Inl (SealCrypto e) | Inr m \<Rightarrow> Inr m)"

section \<open>Escrow\<close>

record kdf_params =
  kp_mem_kib :: u32
  kp_iterations :: u32
  kp_parallelism :: u32
  kp_output_len :: nat

definition kdf_params_default :: kdf_params where
  "kdf_params_default = \<lparr>kp_mem_kib = 19456, kp_iterations = 2, kp_parallelism = 1, kp_output_len = 32\<rparr>"

text \<open>\<open>argon\<close> fails on parameters it does not take or on a hash that fails; both are one error.\<close>

type_synonym argon2id = "bytes \<Rightarrow> bytes \<Rightarrow> kdf_params \<Rightarrow> bytes option"

definition derive_key :: "argon2id \<Rightarrow> sealing \<Rightarrow> bytes \<Rightarrow> bytes \<Rightarrow> kdf_params \<Rightarrow> crypto_error + bytes" where
  "derive_key argon c password salt params =
     (if kp_output_len params = 0 then Inl InvalidLength
      else let bound_salt = c_sha c (as_bytes ''pillar-crypto/kdf/argon2id/salt-v1'' @ salt) in
        case argon password bound_salt params of None \<Rightarrow> Inl InvalidLength | Some key \<Rightarrow> Inr key)"

record step_up_token =
  st_consumed :: bool

definition step_up_fresh :: step_up_token where
  "step_up_fresh = \<lparr>st_consumed = False\<rparr>"

definition step_up_consume :: "step_up_token \<Rightarrow> bool \<times> step_up_token" where
  "step_up_consume t = (if st_consumed t then (False, t) else (True, t\<lparr>st_consumed := True\<rparr>))"

record escrow_envelope =
  ee_salt :: bytes
  ee_ciphertext :: bytes

record escrow =
  es_envelope :: "(string, escrow_envelope) btree_map"
  es_server_compromised :: bool
  es_decrypted :: "string btree_set"

definition escrow_aead_aad :: bytes where
  "escrow_aead_aad = as_bytes ''pillar-key-distribution/escrow/operational-key-v1''"

definition escrow_new :: escrow where
  "escrow_new = \<lparr>es_envelope = btree_new, es_server_compromised = False, es_decrypted = btree_new\<rparr>"

definition escrow_store ::
  "argon2id \<Rightarrow> sealing \<Rightarrow> rng \<Rightarrow> artifact \<Rightarrow> bytes \<Rightarrow> bytes \<Rightarrow> escrow \<Rightarrow> (kd_error + unit) \<times> escrow" where
  "escrow_store argon c rng a password plaintext s =
     (if artifact_is_root a then (Inl (RootArtifactNotDistributable (ar_id a)), s)
      else let salt = rng 0 32 in
        case derive_key argon c password salt kdf_params_default of
          Inl e \<Rightarrow> (Inl (KdCrypto (crypto_error_display e)), s)
        | Inr key \<Rightarrow>
            (case seal_symmetric c rng 1 key plaintext escrow_aead_aad of
               Inl e \<Rightarrow> (Inl (KdCrypto (crypto_error_display e)), s)
             | Inr ct \<Rightarrow>
                 (Inr (), s\<lparr>es_envelope :=
                    btree_insert (ar_id a) \<lparr>ee_salt = salt, ee_ciphertext = ct\<rparr> (es_envelope s)\<rparr>)))"

definition escrow_has_envelope :: "escrow \<Rightarrow> string \<Rightarrow> bool" where
  "escrow_has_envelope s a = btree_contains_key (es_envelope s) a"

definition escrow_server_compromise :: "escrow \<Rightarrow> escrow" where
  "escrow_server_compromise s = s\<lparr>es_server_compromised := True\<rparr>"

definition escrow_recover_plaintext ::
  "argon2id \<Rightarrow> sealing \<Rightarrow> string \<Rightarrow> bytes \<Rightarrow> escrow \<Rightarrow> (kd_error + bytes) \<times> escrow" where
  "escrow_recover_plaintext argon c a password s =
     (case btree_get (es_envelope s) a of
        None \<Rightarrow> (Inl (UnknownArtifact a), s)
      | Some env \<Rightarrow>
          (case derive_key argon c password (ee_salt env) kdf_params_default of
             Inl e \<Rightarrow> (Inl (KdCrypto (crypto_error_display e)), s)
           | Inr key \<Rightarrow>
               (case open_symmetric c key (ee_ciphertext env) escrow_aead_aad of
                  Inl e \<Rightarrow> (Inl (KdCrypto (crypto_error_display e)), s)
                | Inr m \<Rightarrow> (Inr m, s\<lparr>es_decrypted := bset_insert a (es_decrypted s)\<rparr>))))"

definition escrow_is_decrypted :: "escrow \<Rightarrow> string \<Rightarrow> bool" where
  "escrow_is_decrypted s a = bset_contains (es_decrypted s) a"

definition escrow_recover_for_signing ::
  "argon2id \<Rightarrow> sealing \<Rightarrow> string \<Rightarrow> bytes \<Rightarrow> step_up_token \<Rightarrow> escrow
     \<Rightarrow> (kd_error + bytes) \<times> step_up_token \<times> escrow" where
  "escrow_recover_for_signing argon c a password token s =
     (case step_up_consume token of (ok, token) \<Rightarrow>
        if \<not> ok then
          (Inl (InvalidTransition (RecordKey [] [] a)
             ''step-up authentication required (and not already consumed) before signing''), token, s)
        else (case escrow_recover_plaintext argon c a password s of (res, s) \<Rightarrow> (res, token, s)))"

section \<open>Properties\<close>

lemma collect_recipients_Inr:
  "list_all (\<lambda>n. btree_get ks n \<noteq> None) ns \<Longrightarrow>
     collect_recipients ks ns = Inr (map (\<lambda>n. the (btree_get ks n)) ns)"
  by (induction ns) auto

text \<open>Keys of the nodes: everybody's registered public key belongs to the secret they hold.\<close>

definition registry_ok :: "sealing \<Rightarrow> node_sealing_keys \<Rightarrow> (node_id \<Rightarrow> bytes) \<Rightarrow> bool" where
  "registry_ok c ks secrets \<longleftrightarrow>
     list_all (\<lambda>(n, pub). length (secrets n) = 32 \<and> length pub = 32 \<and> pub = sealing_public c (secrets n))
       (btree_iter ks)
     \<and> distinct (map snd (btree_iter ks))"

lemma registry_okD:
  assumes "registry_ok c ks secrets" "btree_get ks n = Some pub"
  shows "length (secrets n) = 32" "length pub = 32" "pub = sealing_public c (secrets n)"
    and "btree_get ks m = Some pub \<Longrightarrow> m = n"
proof -
  have n: "(n, pub) \<in> set (btree_iter ks)" using assms(2) by (simp add: btree_iter_iff)
  then show "length (secrets n) = 32" "length pub = 32" "pub = sealing_public c (secrets n)"
    using assms(1) by (auto simp: registry_ok_def list_all_iff)
  assume "btree_get ks m = Some pub"
  then have m: "(m, pub) \<in> set (btree_iter ks)" by (simp add: btree_iter_iff)
  have "inj_on snd (set (btree_iter ks))" using assms(1) by (simp add: registry_ok_def distinct_map)
  then show "m = n" using inj_onD [of snd "set (btree_iter ks)", OF _ _ m n] by simp
qed

text \<open>
  \<^bold>\<open>C26.\<close> The ledger's decision is what the envelope enforces: sealing an artifact to the seal
  target of a record, with the registered keys of the target's nodes, succeeds, and a registered
  node recovers the plaintext exactly when the record is admitted and the node is on the allow-list
  of its cell, foreign nodes only once the record is confirmed; every other registered node is told
  it is not a recipient.
\<close>

theorem sealed_delivery:
  assumes "kd_reachable enc dec sha foreign R N s" "offers_ok enc dec sha R N"
    and ok: "sealing_ok c" "rng_ok rng" and m: "length m + 41 < 2 ^ 32"
    and reg: "registry_ok c ks secrets"
    and targets: "bset_elems (kd_seal_of s r) \<subseteq> set (btree_keys ks)" "btree_len (kd_seal_of s r) < 2 ^ 32"
    and node: "btree_contains_key ks node"
  shows "\<exists>b. sealed_blob_seal c rng m (btree_keys (kd_seal_of s r)) ks = Inr b
    \<and> sealed_blob_recover c b (secrets node) =
        (if kd_is_admitted s r \<and> node \<in> bset_elems (cell_allow s (rk_cell r))
            \<and> (node \<notin> bset_elems foreign \<or> bset_contains (kd_cross_confirmed s) r)
         then Inr m else Inl (SealCrypto NotARecipient))"
proof -
  let ?ns = "btree_keys (kd_seal_of s r)"
  let ?rs = "map (\<lambda>n. the (btree_get ks n)) ?ns"
  have known: "btree_get ks n \<noteq> None" if "n \<in> set ?ns" for n
    using that targets(1) by (auto simp: bset_elems_def btree_keys_iff btree_contains_key_Some)
  then have collected: "collect_recipients ks ?ns = Inr ?rs" by (intro collect_recipients_Inr) (simp add: list_all_iff)
  obtain pub where pub: "btree_get ks node = Some pub" using node by (auto simp: btree_contains_key_Some)
  note key = registry_okD [OF reg pub]
  have widths: "length x = 32" if "x \<in> set ?rs" for x
    using that known registry_okD(2) [OF reg] by fastforce
  have "length ?rs < 2 ^ 32" using targets(2) by (simp add: btree_len_def btree_keys_def)
  from seal_opens [OF ok widths this m] obtain env where env: "seal_to_recipients c rng m ?rs = Inr env"
    and opens: "\<And>secret. length secret = 32 \<Longrightarrow> unseal c env secret =
      (if sealing_public c secret \<in> set ?rs then Inr m else Inl NotARecipient)" by blast
  have env2: "unseal c env (secrets node) = (if pub \<in> set ?rs then Inr m else Inl NotARecipient)"
    unfolding key(3) by (rule opens [OF key(1)])
  have "pub \<in> set ?rs \<longleftrightarrow> node \<in> set ?ns"
  proof
    assume "pub \<in> set ?rs"
    then obtain n where "n \<in> set ?ns" "btree_get ks n = Some pub" using known by fastforce
    then show "node \<in> set ?ns" using key(4) by blast
  qed (use pub in force)
  moreover have "node \<in> set ?ns \<longleftrightarrow> kd_is_admitted s r \<and> node \<in> bset_elems (cell_allow s (rk_cell r))
      \<and> (node \<notin> bset_elems foreign \<or> bset_contains (kd_cross_confirmed s) r)"
  proof -
    have "kd_inv dec foreign R s" using kd_reachable_inv [OF assms(1,2)] by simp
    then have "seal_matches s r" "kd_foreign_nodes s = foreign" by (simp_all add: kd_inv_def)
    then have "bset_elems (kd_seal_of s r) = (if kd_is_admitted s r then
        (if bset_contains (kd_cross_confirmed s) r then bset_elems (cell_allow s (rk_cell r))
         else bset_elems (cell_allow s (rk_cell r)) - bset_elems foreign) else {})"
      by (simp add: seal_matches_def bset_elems_desired_seal)
    then show ?thesis unfolding bset_elems_def [of "kd_seal_of s r", symmetric] by auto
  qed
  ultimately show ?thesis
    using env env2 collected by (simp add: sealed_blob_seal_def sealed_blob_recover_def)
qed

definition demo_keys :: node_sealing_keys where
  "demo_keys = sealing_keys_register ''n'' (replicate 32 1) (sealing_keys_register ''f'' (replicate 32 2) btree_new)"

definition demo_secrets :: "node_id \<Rightarrow> bytes" where
  "demo_secrets n = replicate 32 (if n = ''n'' then 1 else 2)"

theorem sealed_delivery_witness:
  "\<exists>b. sealed_blob_seal demo_sealing (\<lambda>k n. replicate n 0) [7] (btree_keys (kd_seal_of demo_kd demo_record)) demo_keys
        = Inr b
     \<and> sealed_blob_recover demo_sealing b (demo_secrets ''f'') = Inl (SealCrypto NotARecipient)"
proof -
  have iter: "btree_iter demo_keys = [(''f'', replicate 32 2), (''n'', replicate 32 1)]" by code_simp
  have keys: "btree_keys demo_keys = [''f'', ''n'']" by code_simp
  have reg: "registry_ok demo_sealing demo_keys demo_secrets"
    by (simp add: registry_ok_def iter demo_secrets_def demo_sealing_def crypto.extend_def numeral_eq_Suc)
  have target: "btree_keys (kd_seal_of demo_kd demo_record) = [''n'']" by code_simp
  have unconfirmed: "\<not> bset_contains (kd_cross_confirmed demo_kd) demo_record" by code_simp
  have "btree_len (kd_seal_of demo_kd demo_record) = length (btree_keys (kd_seal_of demo_kd demo_record))"
    by (simp add: btree_len_def btree_keys_def)
  then have len: "btree_len (kd_seal_of demo_kd demo_record) < 2 ^ 32" unfolding target by simp
  have sub: "bset_elems (kd_seal_of demo_kd demo_record) \<subseteq> set (btree_keys demo_keys)"
    by (simp add: bset_elems_def target keys)
  have f: "btree_contains_key demo_keys ''f''" using keys by (simp flip: btree_keys_iff)
  show ?thesis
    using sealed_delivery [OF demo_kd_reachable demo_offers_ok sealing_ok_demo rng_ok_zero _ reg sub len f,
        where m = "[7]"] unconfirmed by simp
qed

text \<open>
  Escrow keeps operational keys for the one who knows the password: storing one
  succeeds, and recovering it with the password returns exactly the key; a root key is refused and
  an artifact that was never stored is unknown, both without a change; recovering for signing
  spends the token, and a spent token releases nothing, whatever the password.
\<close>

theorem escrow_recovers:
  assumes ok: "sealing_ok c" "rng_ok rng" and m: "length m < 2 ^ 32"
    and key: "argon password (c_sha c (as_bytes ''pillar-crypto/kdf/argon2id/salt-v1'' @ rng 0 32))
      kdf_params_default = Some key"
    and kind: "ar_kind a = Operational" and root: "ar_kind b = RootKey"
    and stored: "escrow_store argon c rng a password m s = (res, s')"
    and unknown: "\<not> escrow_has_envelope s x"
  shows "res = Inr ()
    \<and> fst (escrow_recover_plaintext argon c (ar_id a) password s') = Inr m
    \<and> (\<exists>s''. escrow_recover_for_signing argon c (ar_id a) password step_up_fresh s'
          = (Inr m, \<lparr>st_consumed = True\<rparr>, s'') \<and> escrow_is_decrypted s'' (ar_id a))
    \<and> escrow_store argon c rng b pw n s = (Inl (RootArtifactNotDistributable (ar_id b)), s)
    \<and> escrow_recover_plaintext argon c x pw s = (Inl (UnknownArtifact x), s)
    \<and> (\<exists>e. escrow_recover_for_signing argon c x pw \<lparr>st_consumed = True\<rparr> s' = (Inl e, \<lparr>st_consumed = True\<rparr>, s'))"
proof -
  have derived: "derive_key argon c password (rng 0 32) kdf_params_default = Inr key"
    using key by (simp add: derive_key_def kdf_params_default_def)
  obtain ct where ct: "seal_symmetric c rng 1 key m escrow_aead_aad = Inr ct"
    "open_symmetric c key ct escrow_aead_aad = Inr m"
    by (rule seal_symmetric_opens [OF ok m])
  have "res = Inr ()" and s': "s' = s\<lparr>es_envelope :=
      btree_insert (ar_id a) \<lparr>ee_salt = rng 0 32, ee_ciphertext = ct\<rparr> (es_envelope s)\<rparr>"
    using stored derived ct kind by (auto simp: escrow_store_def artifact_is_root_def)
  moreover have rec: "escrow_recover_plaintext argon c (ar_id a) password s' =
      (Inr m, s'\<lparr>es_decrypted := bset_insert (ar_id a) (es_decrypted s')\<rparr>)"
    using derived ct by (simp add: escrow_recover_plaintext_def s')
  moreover have "escrow_store argon c rng b pw n s = (Inl (RootArtifactNotDistributable (ar_id b)), s)"
    using root by (simp add: escrow_store_def artifact_is_root_def)
  moreover have "escrow_recover_plaintext argon c x pw s = (Inl (UnknownArtifact x), s)"
    using unknown by (simp add: escrow_recover_plaintext_def escrow_has_envelope_def btree_contains_key_def)
  ultimately show ?thesis
    by (simp add: escrow_recover_for_signing_def step_up_consume_def step_up_fresh_def escrow_is_decrypted_def)
qed

theorem escrow_recovers_witness:
  "fst (escrow_recover_plaintext (\<lambda>p salt ps. Some p) demo_sealing ''k'' [9]
     (snd (escrow_store (\<lambda>p salt ps. Some p) demo_sealing (\<lambda>k n. replicate n 0) (artifact_new ''k'' Operational)
        [9] [7] escrow_new))) = Inr [7]"
proof -
  obtain res s' where st: "escrow_store (\<lambda>p salt ps. Some p) demo_sealing (\<lambda>k n. replicate n 0)
      (artifact_new ''k'' Operational) [9] [7] escrow_new = (res, s')" by (cases "escrow_store (\<lambda>p salt ps. Some p)
      demo_sealing (\<lambda>k n. replicate n 0) (artifact_new ''k'' Operational) [9] [7] escrow_new")
  show ?thesis
    using escrow_recovers [OF sealing_ok_demo rng_ok_zero _ _ _ _ st, of "[9]" "artifact_new ''z'' RootKey" "''x''"] st
    by (simp add: artifact_new_def escrow_has_envelope_def escrow_new_def)
qed

section \<open>Where the code and its documentation part\<close>

text \<open>A wrong password spends the token: it is consumed before the envelope is opened.\<close>

lemma failed_signing_spends_token:
  assumes "fst (escrow_recover_plaintext argon c a pw s) = Inl e"
  shows "\<exists>s'. escrow_recover_for_signing argon c a pw step_up_fresh s = (Inl e, \<lparr>st_consumed = True\<rparr>, s')"
  using assms
  by (cases "escrow_recover_plaintext argon c a pw s")
    (simp add: escrow_recover_for_signing_def step_up_consume_def step_up_fresh_def)

end
