(* ===== verification/SealedSecrets.thy ===== *)
theory SealedSecrets
  imports Rbac Crypto_Seal
begin

text \<open>
  \<^verbatim>\<open>crates/pillar-rbac/src/sealed_secret_store.rs\<close>: secrets kept as sealed envelopes and
  released by the decider. It joins two components: \<open>decide\<close> of \<open>Rbac\<close> and the
  envelope of \<open>Crypto_Seal\<close>.
\<close>

section \<open>The store\<close>

type_synonym secret_id = string

record secret_node_key =
  snk_node :: node_id
  snk_public :: bytes
  snk_secret :: bytes

definition secret_node_key_from_seed :: "sealing \<Rightarrow> node_id \<Rightarrow> bytes \<Rightarrow> crypto_error + secret_node_key" where
  "secret_node_key_from_seed c node seed =
     (case sealing_keypair_from_seed c seed of
        Inl e \<Rightarrow> Inl e
      | Inr (pub, sec) \<Rightarrow> Inr \<lparr>snk_node = node, snk_public = pub, snk_secret = sec\<rparr>)"

datatype secret_request_error = Unauthorized | NotFound | SealError crypto_error

record secret_store =
  ss_secrets :: "(secret_id, bytes) btree_map"

definition secret_store_new :: secret_store where
  "secret_store_new = \<lparr>ss_secrets = btree_new\<rparr>"

definition secret_store_seal ::
  "sealing \<Rightarrow> rng \<Rightarrow> secret_id \<Rightarrow> bytes \<Rightarrow> secret_node_key list \<Rightarrow> secret_store
     \<Rightarrow> (crypto_error + unit) \<times> secret_store" where
  "secret_store_seal c rng i plaintext recipients s =
     (case seal_to_recipients c rng plaintext (map snk_public recipients) of
        Inl e \<Rightarrow> (Inl e, s)
      | Inr env \<Rightarrow> (Inr (), s\<lparr>ss_secrets := btree_insert i env (ss_secrets s)\<rparr>))"

definition seal_for_members ::
  "sealing \<Rightarrow> rng \<Rightarrow> secret_id \<Rightarrow> bytes \<Rightarrow> node_id list \<Rightarrow> secret_node_key list \<Rightarrow> secret_store
     \<Rightarrow> (crypto_error + unit) \<times> secret_store" where
  "seal_for_members c rng i plaintext members keys s =
     secret_store_seal c rng i plaintext (filter (\<lambda>k. snk_node k \<in> set members) keys) s"

definition ciphertext_bytes :: "secret_store \<Rightarrow> secret_id \<Rightarrow> bytes option" where
  "ciphertext_bytes s i = btree_get (ss_secrets s) i"

definition secret_store_contains :: "secret_store \<Rightarrow> secret_id \<Rightarrow> bool" where
  "secret_store_contains s i = btree_contains_key (ss_secrets s) i"

definition request_secret ::
  "sealing \<Rightarrow> (edge set \<Rightarrow> edge list) \<Rightarrow> secret_store \<Rightarrow> rbac_decider \<Rightarrow> rbac_request \<Rightarrow> secret_id
     \<Rightarrow> secret_node_key \<Rightarrow> secret_request_error + bytes" where
  "request_secret c iter s d r i key =
     (if decide iter d r \<noteq> DecisionAllow then Inl Unauthorized
      else case btree_get (ss_secrets s) i of
        None \<Rightarrow> Inl NotFound
      | Some env \<Rightarrow> (case unseal c env (snk_secret key) of Inl e \<Rightarrow> Inl (SealError e) | Inr m \<Rightarrow> Inr m))"

section \<open>Properties\<close>

text \<open>Keys derived from seeds; two different nodes do not share one.\<close>

definition node_keys_ok :: "sealing \<Rightarrow> secret_node_key list \<Rightarrow> bool" where
  "node_keys_ok c keys \<longleftrightarrow>
     list_all (\<lambda>k. length (snk_secret k) = 32 \<and> length (snk_public k) = 32
       \<and> snk_public k = sealing_public c (snk_secret k)) keys
     \<and> list_all (\<lambda>k. list_all (\<lambda>l. snk_public k = snk_public l \<longrightarrow> snk_node k = snk_node l) keys) keys"

lemma node_keys_okD:
  assumes "node_keys_ok c keys" "k \<in> set keys"
  shows "length (snk_secret k) = 32" "length (snk_public k) = 32" "snk_public k = sealing_public c (snk_secret k)"
    and "l \<in> set keys \<Longrightarrow> snk_public k = snk_public l \<Longrightarrow> snk_node k = snk_node l"
  using assms unfolding node_keys_ok_def list_all_iff by blast+

lemma node_key_from_seed_ok:
  assumes "sealing_ok c" "secret_node_key_from_seed c node seed = Inr k"
  shows "length (snk_secret k) = 32 \<and> length (snk_public k) = 32
    \<and> snk_public k = sealing_public c (snk_secret k) \<and> snk_node k = node"
proof -
  have "length (x25519_secret_bytes c seed) = 32"
    using sealing_okD(2) [OF assms(1)] by (simp add: x25519_secret_bytes_def)
  then show ?thesis
    using assms sealing_okD [OF assms(1)]
    by (auto simp: secret_node_key_from_seed_def sealing_keypair_from_seed_def Let_def)
qed

text \<open>
  \<^bold>\<open>C27.\<close> Two gates stand before a secret: after sealing one for the members of a cell, a
  request returns the plaintext exactly when the decider allows it and the caller's key is that of
  a member; a request the decider does not allow is refused before the store is consulted, an
  unknown secret is reported as such, and an allowed caller who is not a member cannot unseal.
  Other secrets are untouched.
\<close>

theorem secret_release:
  assumes ok: "sealing_ok c" "rng_ok rng" and m: "length m + 41 < 2 ^ 32"
    and keys: "node_keys_ok c keys" "length keys < 2 ^ 32" "k \<in> set keys"
    and sealed: "seal_for_members c rng i m members keys s = (res, s')"
    and j: "j \<noteq> i"
  shows "res = Inr ()
    \<and> request_secret c iter s' d r i k =
        (if decide iter d r \<noteq> DecisionAllow then Inl Unauthorized
         else if snk_node k \<in> set members then Inr m else Inl (SealError NotARecipient))
    \<and> request_secret c iter s' d r j k = request_secret c iter s d r j k
    \<and> (\<not> secret_store_contains s j \<longrightarrow> decide iter d r = DecisionAllow \<longrightarrow>
        request_secret c iter s' d r j k = Inl NotFound)"
proof -
  let ?rs = "filter (\<lambda>k. snk_node k \<in> set members) keys"
  have widths: "length x = 32" if "x \<in> set (map snk_public ?rs)" for x
    using that node_keys_okD(2) [OF keys(1)] by auto
  have "length (map snk_public ?rs) < 2 ^ 32"
    using le_less_trans [OF length_filter_le keys(2)] by simp
  from seal_opens [OF ok widths this m] obtain env where
    env: "seal_to_recipients c rng m (map snk_public ?rs) = Inr env"
    and opens: "\<And>secret. length secret = 32 \<Longrightarrow> unseal c env secret =
      (if sealing_public c secret \<in> set (map snk_public ?rs) then Inr m else Inl NotARecipient)"
    by blast
  note key = node_keys_okD [OF keys(1,3)]
  have "snk_public k \<in> set (map snk_public ?rs) \<longleftrightarrow> snk_node k \<in> set members"
  proof
    assume "snk_public k \<in> set (map snk_public ?rs)"
    then obtain l where l: "l \<in> set ?rs" and "snk_public k = snk_public l" unfolding set_map by blast
    then have "snk_node k = snk_node l" using l by (intro key(4)) auto
    then show "snk_node k \<in> set members" using l by simp
  qed (use keys(3) in auto)
  then have "unseal c env (snk_secret k) = (if snk_node k \<in> set members then Inr m else Inl NotARecipient)"
    using opens [OF key(1)] unfolding key(3) [symmetric] by simp
  moreover have "res = Inr ()" "s' = s\<lparr>ss_secrets := btree_insert i env (ss_secrets s)\<rparr>"
    using sealed env by (simp_all add: seal_for_members_def secret_store_seal_def)
  ultimately show ?thesis
    using j by (simp add: request_secret_def secret_store_contains_def btree_contains_key_def)
qed

definition demo_node_keys :: "secret_node_key list" where
  "demo_node_keys = [\<lparr>snk_node = ''carol'', snk_public = replicate 32 1, snk_secret = replicate 32 1\<rparr>]"

theorem secret_release_witness:
  "request_secret demo_sealing sorted_list_of_set
     (snd (seal_for_members demo_sealing (\<lambda>k n. replicate n 0) ''db'' [7] [''carol''] demo_node_keys secret_store_new))
     rbac_demo (request_new ''carol'' cell_key_export_capability) ''db'' (hd demo_node_keys) = Inr [7]"
proof -
  have keys: "node_keys_ok demo_sealing demo_node_keys" "length demo_node_keys < 2 ^ 32"
    "hd demo_node_keys \<in> set demo_node_keys"
    by (simp_all add: node_keys_ok_def demo_node_keys_def demo_sealing_def crypto.extend_def)
  have allow: "decide sorted_list_of_set rbac_demo (request_new ''carol'' cell_key_export_capability) = DecisionAllow"
    by code_simp
  obtain res s' where st: "seal_for_members demo_sealing (\<lambda>k n. replicate n 0) ''db'' [7] [''carol'']
      demo_node_keys secret_store_new = (res, s')" by fastforce
  show ?thesis
    using secret_release [OF sealing_ok_demo rng_ok_zero _ keys st, of "''x''" sorted_list_of_set rbac_demo
        "request_new ''carol'' cell_key_export_capability"] allow st
    by (simp add: demo_node_keys_def)
qed

end
