(* ===== verification/Spec2Isabelle.thy ===== *)
theory Spec2Isabelle
  imports SessionRegistry TimeSeries Scheduler HopMin UdpShards Cells CellMigration RbacGrants AuditView CausalOrder IpamOperator QuotaLedger Tsig KeyEscrow SealedSecrets
begin

text \<open>
  \<^bold>\<open>A verification of the core of pillar.\<close> Pillar is a coordination-light platform for
  clusters of nodes: replicated logs that merge without a coordinator, a quorum-fenced lease
  where exclusion is needed, a web of trust that decides who may do what, and encryption that
  decides who may read what. The sources are the crates under \<^verbatim>\<open>crates/\<close>. This library
  models the crates that hold the decisions of the system; file names below are relative to
  \<^verbatim>\<open>crates/\<close>.

  \<^bold>\<open>How the parts interact.\<close>
  Everything replicated is an op in an op-log (\<open>StreamDb\<close>), addressed by the digest of its
  content; the keyed store (\<open>KeyedStore\<close>) is a last-writer-wins fold over it, and documents, SQL
  views, grant documents, key offers and login sessions are clients of that store. The event log
  (\<open>EventLog\<close>) is a second replicated log, of signed and hash-linked events, which
  replicas exchange by anti-entropy. Where merging is not enough, a node must hold the lease of an epoch
  (\<open>Coordination\<close>): the strict co-fold, address pools and the quota ledger are its clients.
  Authority flows from signed edges (\<open>WotAuthority\<close>, \<open>Tsig\<close>,
  \<open>TrustArtifacts\<close>) through the decider (\<open>Rbac\<close>) to the secrets
  (\<open>SealedSecrets\<close>) and key exports it releases. Cells (\<open>Cells\<close>) bound
  visibility by a group key that rotates. Topology constrains the addresses, the placement of
  jobs (\<open>Scheduler\<close>) and the moves of backends (\<open>HopMin\<close>).

  \<^bold>\<open>Shared theories.\<close>
  \<^item> \<open>Pillar_Prelude\<close>: machine integers as words of their width, byte encodings,
    generic facts about lists, sums and finite sets.
  \<^item> \<open>Rust_Collections\<close>: \<open>BTreeMap\<close> and \<open>BTreeSet\<close> as strictly sorted lists, behind
    the locale \<open>ordered_map\<close>.
  \<^item> \<open>Rust_Text\<close>: the validation of UTF-8, checked slices and the decimal parser of the
    standard library.
  \<^item> \<open>Prime_Field\<close>: exponentiation, the primality of \<open>2^61 - 1\<close> and interpolation.
  \<^item> \<open>DocWrites\<close>: sequences of writes to the keyed store, as its clients issue them.

  \<^bold>\<open>Components, their sources, and what is shown.\<close>
  \<^item> \<open>Pillar_Core\<close> (\<^verbatim>\<open>pillar-core/src/lib.rs\<close>, \<^verbatim>\<open>pillar-crypto/src/version.rs\<close>)
    and \<open>Compat\<close> (\<^verbatim>\<open>pillar-crypto/src/compat.rs\<close>): epochs, the admission rule of view
    policies, version stamps, and the negotiation of versions within a window, which is symmetric.
  \<^item> \<open>Coordination\<close> (\<^verbatim>\<open>pillar-coordination/src/lib.rs\<close>): the lease register. In every
    run of calls an epoch has at most one holder and a granted epoch never decreases. The locale
    \<open>lease_client\<close> gives the clients their exclusion.
  \<^item> \<open>StreamDb\<close> (\<^verbatim>\<open>pillar-streamdb/src/lib.rs\<close>, \<^verbatim>\<open>pillar-crypto/src/content.rs\<close>):
    op-logs, snapshots, streams and views. Logs form a join under merge, so that replicas converge
    in any order of deliveries, and a bootstrap from a snapshot equals the replay of the full log. The locales
    \<open>gossip_join\<close> and \<open>reclaim_policy\<close> hold the two contracts.
  \<^item> \<open>CoFold\<close> (\<^verbatim>\<open>pillar-streamdb/src/cofold.rs\<close>): the strict reducer; a quota ceiling is never
    exceeded and a key is admitted once. The trait of the invariant is the locale
    \<open>cofold_invariant\<close>, with both implementations of the source as instances.
  \<^item> \<open>KeyedStore\<close> and \<open>DocWrites\<close> (\<^verbatim>\<open>pillar-keyedstore/src/lib.rs\<close>):
    key/value and document surfaces; compaction preserves reads.
  \<^item> \<open>SqlViews\<close> (\<^verbatim>\<open>pillar-sqlviews/src/lib.rs\<close>): materialised rows as a pure fold of the
    documents, exact sums, and graph walks that end and reach exactly what is reachable.
  \<^item> \<open>EventLog\<close>, \<open>CausalOrder\<close>, \<open>AntiEntropy\<close>, \<open>AuditView\<close>
    (\<^verbatim>\<open>pillar-eventlog/src/\<close>): the integrity of every reachable log, Kahn's sort as a linear
    extension of happens-before, convergence of reconciliation, and the audit view as the complete list
    of audit events, in the order of each chain and the same on every replica.
  \<^item> \<open>TrustArtifacts\<close> (\<^verbatim>\<open>pillar-trust-artifacts/src/lib.rs\<close>): the four artifacts and
    their store; verification accepts exactly the signed and unrevoked, revocation fails closed,
    and a role's capacity is rooted.
  \<^item> \<open>WotAuthority\<close>, \<open>Tsig\<close> (\<^verbatim>\<open>pillar-wot-authority/src/\<close>): the breadth-first
    depth of an edge set against the shortest chain of delegations, under each iteration order of
    the hash set.
  \<^item> \<open>Rbac\<close>, \<open>RbacGrants\<close>, \<open>SealedSecrets\<close> (\<^verbatim>\<open>pillar-rbac/src/\<close>): the
    decider follows its precedence lattice, exactly as documented where more specific policies never
    ask for more depth, with bounds from both sides elsewhere; the revocation of a grant document is fenced; a secret
    is released only on a decision.
  \<^item> \<open>Crypto_Sign\<close>, \<open>Crypto_Seal\<close> (\<^verbatim>\<open>pillar-crypto/src/\<close>): signatures and
    envelopes over external primitives; a recipient opens what was sealed to it and nobody else
    does, and a direct message also needs a signature that verifies.
  \<^item> \<open>KeyDistribution\<close>, \<open>KeyEscrow\<close> (\<^verbatim>\<open>pillar-key-distribution/src/lib.rs\<close>):
    the offer ledger as a state machine whose seals follow the policy, delivery, and the escrow. Its
    records have plain names, and a policy is edited by its own methods; what happens otherwise is
    shown apart.
  \<^item> \<open>Recovery\<close> (\<^verbatim>\<open>pillar-recovery/src/lib.rs\<close>, \<^verbatim>\<open>pillar-net/src/blob.rs\<close>):
    secret sharing (reconstruction, and that one share of a split with threshold two excludes no
    secret; with threshold three two shares do) and the recovery ledger.
  \<^item> \<open>Topology\<close> (\<^verbatim>\<open>pillar-topology/src/lib.rs\<close>), \<open>Ipam\<close>,
    \<open>IpamOperator\<close> (\<^verbatim>\<open>pillar-ipam/src/\<close>), \<open>QuotaLedger\<close>
    (\<^verbatim>\<open>pillar-quota-ledger/src/lib.rs\<close>): nested tiers; no two actors can be given one address, and an
    allocation stands until its holder releases it; no overspending.
  \<^item> \<open>Cells\<close>, \<open>CellMigration\<close> (\<^verbatim>\<open>pillar-cells/src/\<close>): who sees an object of
    a cell in every reachable state, forward secrecy when a member leaves, and the rolling
    migration as a refinement of one set of views.
  \<^item> \<open>PillarUdp\<close>, \<open>UdpShards\<close> (\<^verbatim>\<open>pillar-net/src/pillar_udp.rs\<close>): the bound on
    amplification with exact saturating counters, processing once, the erasure code, and the reassembly of multiplexed transfers.
  \<^item> \<open>Scheduler\<close>, \<open>HopMin\<close> (\<^verbatim>\<open>pillar-manifest/src/scheduler.rs\<close>,
    \<^verbatim>\<open>hop_min.rs\<close>): the engine's invariant in every reachable state, registrations that
    replace a job included, and rounds of moves that
    respect spread, capacity and throttle and never raise the cost.
  \<^item> \<open>SessionRegistry\<close> (\<^verbatim>\<open>pillar-identity/src/session_registry.rs\<close>): sessions over the keyed
    store as a refinement of a map from slots to sessions; a revoked session never admits again.
  \<^item> \<open>Psl\<close> (\<^verbatim>\<open>pillar-observability/src/psl.rs\<close>): the query language; the canonical text of a query
    parses back to it.
  \<^item> \<open>TimeSeries\<close> (\<^verbatim>\<open>pillar-observability/src/block.rs\<close>, \<^verbatim>\<open>retention.rs\<close>, \<^verbatim>\<open>correlation.rs\<close>): the
    store of blocks; retention is lossless and never early, with the least window of the policies
    that select a signal.

  \<^bold>\<open>Conventions.\<close>
  A struct is a \<open>record\<close>, an enum a \<open>datatype\<close>, a method a function that returns its result and
  the new state; an error is the left side of a sum and a panic is \<open>None\<close>. State machines are
  lists of operations executed by a fold, or inductive step relations, with their invariants by
  induction over runs. \<open>HashMap\<close> and \<open>HashSet\<close> are ordered maps where the iteration order is
  not observed and are given by an iteration order as an argument where it is.

  \<^bold>\<open>Parameters.\<close>
  Code outside the repository is an argument: SHA-256 and SHA3, Ed25519, ChaCha20-Poly1305, X25519,
  HKDF, Argon2, the random generator and the \<open>serde_json\<close> codec. What is assumed of them (widths,
  decryption of what was encrypted, parsing of what was printed, no collision among the digests at
  hand) is a named predicate, satisfied by a concrete instance in the witnesses.

  \<^bold>\<open>Bounds.\<close>
  Words wrap as those of a release build, except where the source checks. Where a property counts
  operations on a 64-bit clock or epoch, its run is shorter than \<open>2^64\<close>, as it is stated there.
  Most loops are total functions, by structural recursion or with a measure: the walks over graphs
  are measured by the nodes not yet visited, the rounds of the optimizer by their throttle. Two
  take fuel: \<open>reconcile\<close>, for which two rounds are shown to be enough, and Kahn's sort, for which the
  number of events is; the key stream of the backup blob is a partial function, shown to return.

  \<^bold>\<open>Not modelled.\<close>
  The network substrate, the embedded IPFS node, disk persistence, HTTP handlers, the command line
  and the browser front end are input and output over third-party libraries. The redundancy
  controller and the throughput model of \<^verbatim>\<open>pillar_udp.rs\<close> and the numeric aggregates of \<^verbatim>\<open>psl.rs\<close>
  compute in floating point. Identity providers, onboarding, manifests and their admission, the
  controller and the ingest of telemetry are built on serialised values of third-party types; of
  \<^verbatim>\<open>pillar-manifest\<close> only the two engines above are modelled. The \<open>Display\<close> texts of errors are left out unless another value carries them.
\<close>

end
